(* ===== verification/Prelude.thy ===== *)
theory Prelude
  imports Main "HOL-Library.Word"
begin

unbundle bit_operations_syntax

text \<open>
  Shared vocabulary of the development: the machine types of the library
  (\<^verbatim>\<open>item_pointer_t\<close> and friends), faults and the error monad, byte buffers,
  big-endian loads and stores (\<^verbatim>\<open>common_endian.h\<close>), and the generic lemmas on
  lists and words that the component theories use.

  Conventions.  A pointer into a constant buffer is the list of the bytes from
  that address to the end of the buffer, so \<^verbatim>\<open>ptr + n\<close> is \<open>drop n\<close>.  A 64-bit
  unsigned integer is a \<open>64 word\<close>; \<^verbatim>\<open>s_item_pointer_t\<close> is an \<open>int\<close> obtained from
  the unsigned word by \<open>sint\<close>, and the theories prove the bounds under which the
  signed additions of the code stay below \<open>2 ^ 63\<close>; sizes and indices
  (\<^verbatim>\<open>std::size_t\<close>) are \<open>nat\<close>.
\<close>

section \<open>Machine types\<close>

type_synonym byte = "8 word"
type_synonym item_pointer_t = "64 word"
type_synonym s_item_pointer_t = int
type_synonym bug_compat_mask = "32 word"

section \<open>Faults and results\<close>

text \<open>
  A fault is behaviour that C++ leaves undefined or that an \<^verbatim>\<open>assert\<close> of the code
  rules out, or an exception that leaves the operation; the theories prove where faults
  do not happen.
\<close>

datatype fault = Out_of_bounds | Null_dereference | Uninitialised_read | Use_after_free | Assertion_failed | Loop_overrun
  | Exception string

fun bind_result :: "'e + 'a \<Rightarrow> ('a \<Rightarrow> 'e + 'b) \<Rightarrow> 'e + 'b" where
  "bind_result (Inl e) f = Inl e"
| "bind_result (Inr x) f = f x"

text \<open>A loop whose body may fault.\<close>

fun fold_result :: "('a \<Rightarrow> 's \<Rightarrow> 'e + 's) \<Rightarrow> 'a list \<Rightarrow> 's \<Rightarrow> 'e + 's" where
  "fold_result f [] s = Inr s"
| "fold_result f (x # xs) s = bind_result (f x s) (fold_result f xs)"

section \<open>Big-endian integers\<close>

text \<open>
  \<open>be_nat\<close> is the value of a big-endian byte string, \<open>be_bytes n v\<close> the \<open>n\<close>-byte
  big-endian string of \<open>v\<close> (modulo \<open>256 ^ n\<close>).
\<close>

fun be_nat_acc :: "nat \<Rightarrow> byte list \<Rightarrow> nat" where
  "be_nat_acc a [] = a"
| "be_nat_acc a (b # bs) = be_nat_acc (a * 256 + unat b) bs"

definition be_nat :: "byte list \<Rightarrow> nat" where
  "be_nat bs = be_nat_acc 0 bs"

fun be_bytes :: "nat \<Rightarrow> nat \<Rightarrow> byte list" where
  "be_bytes 0 v = []"
| "be_bytes (Suc n) v = be_bytes n (v div 256) @ [word_of_nat v]"

text \<open>
  \<^verbatim>\<open>load_be<T>(ptr)\<close> for the two widths the library uses, and the byte string that
  \<^verbatim>\<open>*p = htobe<T>(value)\<close> leaves in memory.
\<close>

definition load_be64 :: "byte list \<Rightarrow> 64 word" where
  "load_be64 ptr = word_of_nat (be_nat (take 8 ptr))"

definition load_be16 :: "byte list \<Rightarrow> 16 word" where
  "load_be16 ptr = word_of_nat (be_nat (take 2 ptr))"

definition htobe64 :: "64 word \<Rightarrow> byte list" where
  "htobe64 w = be_bytes 8 (unat w)"

definition htobe16 :: "16 word \<Rightarrow> byte list" where
  "htobe16 w = be_bytes 2 (unat w)"

section \<open>Memory blocks\<close>

text \<open>
  Copying \<open>src\<close> to offset \<open>off\<close> of a block: a fault unless the destination lies
  within the block.
\<close>

definition mem_write :: "byte list \<Rightarrow> nat \<Rightarrow> byte list \<Rightarrow> fault + byte list" where
  "mem_write m off src =
     (if off + length src \<le> length m
      then Inr (take off m @ src @ drop (off + length src) m)
      else Inl Out_of_bounds)"

text \<open>Reading \<open>n\<close> bytes from the front of a buffer.\<close>

definition mem_read :: "byte list \<Rightarrow> nat \<Rightarrow> fault + byte list" where
  "mem_read ptr n = (if n \<le> length ptr then Inr (take n ptr) else Inl Out_of_bounds)"

section \<open>Collections\<close>

named_theorems word_to_nat \<open>rewriting word operations to arithmetic on nat\<close>
named_theorems be_simps \<open>loads and stores of big-endian integers\<close>
named_theorems eval_simps \<open>evaluation of the definitions on concrete inputs\<close>

declare load_be64_def [eval_simps] load_be16_def [eval_simps] be_nat_def [eval_simps]
  mem_write_def [eval_simps] mem_read_def [eval_simps] upt_rec [eval_simps]

lemma replicate_unfold_numeral [eval_simps]:
  "replicate (numeral k) x = x # replicate (pred_numeral k) x"
  by (simp add: numeral_eq_Suc)

section \<open>Lemmas on results\<close>

lemma bind_result_Inr_iff:
  "bind_result m f = Inr y \<longleftrightarrow> (\<exists>x. m = Inr x \<and> f x = Inr y)"
  by (cases m) auto

lemma bind_result_assoc:
  "bind_result (bind_result m f) g = bind_result m (\<lambda>x. bind_result (f x) g)"
  by (cases m) auto

lemma list_all2_in1: "list_all2 P xs ys \<Longrightarrow> x \<in> set xs \<Longrightarrow> \<exists>y \<in> set ys. P x y"
  by (induction rule: list_all2_induct) auto

section \<open>Lemmas on big-endian integers\<close>

lemma byte_less_256: "unat (b :: byte) < 256"
  using unsigned_less [of b, where 'a = nat] by simp

lemma be_nat_acc_shift: "be_nat_acc a bs = a * 256 ^ length bs + be_nat_acc 0 bs"
proof (induction bs arbitrary: a)
  case (Cons b bs)
  have "be_nat_acc a (b # bs) = (a * 256 + unat b) * 256 ^ length bs + be_nat_acc 0 bs"
    unfolding be_nat_acc.simps by (rule Cons.IH)
  moreover have "be_nat_acc 0 (b # bs) = unat b * 256 ^ length bs + be_nat_acc 0 bs"
    unfolding be_nat_acc.simps by (subst Cons.IH) simp
  ultimately show ?case
    by (simp only: length_Cons power_Suc add_mult_distrib mult.assoc add.assoc)
qed simp

lemma be_nat_Nil [simp]: "be_nat [] = 0"
  by (simp add: be_nat_def)

lemma be_nat_Cons: "be_nat (b # bs) = unat b * 256 ^ length bs + be_nat bs"
  unfolding be_nat_def be_nat_acc.simps by (subst be_nat_acc_shift) simp

lemma be_nat_append: "be_nat (xs @ ys) = be_nat xs * 256 ^ length ys + be_nat ys"
proof (induction xs)
  case (Cons x xs)
  then show ?case
    by (simp only: append_Cons be_nat_Cons length_append power_add add_mult_distrib
        mult.assoc add.assoc)
qed simp

lemma be_nat_less: "be_nat bs < 256 ^ length bs"
proof (induction bs)
  case (Cons b bs)
  have b: "unat b < 256"
    by (rule byte_less_256)
  have "unat b * 256 ^ length bs + be_nat bs < (unat b + 1) * 256 ^ length bs"
    using Cons by simp
  also have "\<dots> \<le> 256 * 256 ^ length bs"
    using b by (intro mult_right_mono) simp_all
  finally show ?case by (simp add: be_nat_Cons)
qed simp

lemma length_be_bytes [simp]: "length (be_bytes n v) = n"
  by (induction n arbitrary: v) simp_all

lemma be_nat_be_bytes [be_simps]: "be_nat (be_bytes n v) = v mod 256 ^ n"
proof (induction n arbitrary: v)
  case (Suc n)
  have "be_nat (be_bytes (Suc n) v) = (v div 256 mod 256 ^ n) * 256 + v mod 256"
    by (simp add: be_nat_append Suc be_nat_Cons unat_of_nat)
  also have "\<dots> = v mod (256 * 256 ^ n)"
    by (simp add: mod_mult2_eq mult.commute)
  finally show ?case by simp
qed simp

lemma be_bytes_be_nat [be_simps]: "be_bytes (length bs) (be_nat bs) = bs"
proof (induction bs rule: rev_induct)
  case (snoc b bs)
  have b: "unat b < 256"
    by (rule byte_less_256)
  have *: "be_nat (bs @ [b]) = be_nat bs * 256 + unat b"
    by (simp add: be_nat_append be_nat_Cons)
  have "word_of_nat (be_nat bs * 256 + unat b) = b"
  proof (rule word_unat_eq_iff [THEN iffD2])
    show "unat (word_of_nat (be_nat bs * 256 + unat b) :: byte) = unat b"
      using b unat_of_nat [of "be_nat bs * 256 + unat b", where 'a = 8] by simp
  qed
  with b show ?case by (simp add: * snoc)
qed simp

lemma be_bytes_mod: "be_bytes n (v mod 256 ^ n) = be_bytes n v"
  using be_bytes_be_nat [of "be_bytes n v"] by (simp add: be_nat_be_bytes)

lemma length_htobe64 [simp]: "length (htobe64 w) = 8"
  by (simp add: htobe64_def)

lemma length_htobe16 [simp]: "length (htobe16 w) = 2"
  by (simp add: htobe16_def)

lemma load_htobe64 [be_simps]: "load_be64 (htobe64 w @ rest) = w"
  using unsigned_less [of w, where 'a = nat]
  by (simp add: load_be64_def htobe64_def be_nat_be_bytes)

lemma load_htobe16 [be_simps]: "load_be16 (htobe16 w @ rest) = w"
  using unsigned_less [of w, where 'a = nat]
  by (simp add: load_be16_def htobe16_def be_nat_be_bytes)

lemma htobe_load64: "length bs = 8 \<Longrightarrow> htobe64 (load_be64 bs) = bs"
  using be_nat_less [of bs] be_bytes_be_nat [of bs]
  by (simp add: htobe64_def load_be64_def unat_of_nat)

section \<open>Lemmas on memory blocks\<close>

lemma mem_write_Inr_iff:
  "mem_write m off src = Inr m' \<longleftrightarrow>
     off + length src \<le> length m \<and> m' = take off m @ src @ drop (off + length src) m"
  by (auto simp: mem_write_def)

lemma mem_write_length: "mem_write m off src = Inr m' \<Longrightarrow> length m' = length m"
  by (auto simp: mem_write_Inr_iff)

lemma mem_write_nth:
  assumes "mem_write m off src = Inr m'" "i < length m"
  shows "m' ! i = (if off \<le> i \<and> i < off + length src then src ! (i - off) else m ! i)"
  using assms by (auto simp: mem_write_Inr_iff nth_append)

section \<open>Words as numbers\<close>

lemma sint_small:
  fixes w :: "64 word"
  assumes "unat w < 2 ^ 63"
  shows "sint w = int (unat w)"
proof -
  have "int (unat w) < int (2 ^ 63)"
    using assms by (simp only: of_nat_less_iff)
  then have "uint w < 2 ^ 63"
    by (simp only: uint_nat of_nat_power of_nat_numeral)
  moreover have "- (2 ^ 63) \<le> uint w"
    by (rule order_trans [OF _ unsigned_greater_eq]) simp
  ultimately have "signed_take_bit 63 (uint w) = uint w"
    by (intro signed_take_bit_int_eq_self)
  then show ?thesis by (simp add: sint_uint)
qed

lemma unat_and_mask [word_to_nat]:
  fixes w :: "64 word"
  shows "unat (w AND (push_bit n 1 - 1)) = unat w mod 2 ^ n"
proof -
  have "w AND (push_bit n 1 - 1) = take_bit n w"
    by (simp only: take_bit_eq_mask mask_eq_exp_minus_1 push_bit_eq_mult mult_1)
  moreover have "unat (take_bit n w) = take_bit n (unat w)"
    by (rule unsigned_take_bit_eq)
  ultimately show ?thesis
    by (simp only: take_bit_nat_eq [symmetric] take_bit_eq_mod [of n "unat w"])
qed

lemma unat_shift_right [word_to_nat]:
  fixes w :: "64 word"
  shows "unat (drop_bit n w) = unat w div 2 ^ n"
  by (simp only: unat_drop_bit_eq drop_bit_eq_div [of n "unat w"])

lemma or_disjoint_nat:
  fixes k b :: nat
  assumes "b < 2 ^ n"
  shows "k * 2 ^ n OR b = k * 2 ^ n + b"
proof -
  have b: "b = take_bit n b"
    using assms by (simp add: take_bit_nat_eq_self)
  have "push_bit n k AND take_bit n b = 0"
    by (rule bit_eqI) (auto simp: bit_simps)
  then have "push_bit n k AND b = 0"
    using b by simp
  then have "k * 2 ^ n AND b = 0"
    by (simp only: push_bit_eq_mult)
  then show ?thesis
    by (simp add: disjunctive_add_eq_or)
qed

lemma unat_or_disjoint:
  fixes v w :: "64 word"
  assumes "unat v = k * 2 ^ n" "unat w < 2 ^ n"
  shows "unat (v OR w) = k * 2 ^ n + unat w"
proof -
  have "unat (v OR w) = unat v OR unat w"
    by (rule unsigned_or_eq)
  then show ?thesis
    using assms by (simp only: or_disjoint_nat)
qed

lemma unat_of_int_small:
  assumes "0 \<le> i" "i < 2 ^ 64"
  shows "unat (word_of_int i :: 64 word) = nat i"
proof -
  have "uint (word_of_int i :: 64 word) = i"
    using assms by (simp add: word_of_int_inverse)
  then show ?thesis by (simp add: unat_eq_nat_uint)
qed

lemma unat_shift_left [word_to_nat]:
  fixes w :: "64 word"
  assumes "unat w * 2 ^ n < 2 ^ 64"
  shows "unat (push_bit n w) = unat w * 2 ^ n"
proof -
  have "unat (push_bit n w) = take_bit 64 (push_bit n (unat w))"
    by (simp only: unsigned_push_bit_eq len_num1 len_num0 len_bit0 len_bit1) simp
  also have "\<dots> = unat w * 2 ^ n"
    using assms by (simp only: push_bit_eq_mult take_bit_nat_eq_self)
  finally show ?thesis .
qed

end
