(* ===== verification/Flavour.thy ===== *)
theory Flavour
  imports Prelude
begin

text \<open>
  The protocol constants of \<^verbatim>\<open>common_defines.h\<close> and the SPEAD flavour of
  \<^verbatim>\<open>common_flavour.h\<close> / \<^verbatim>\<open>common_flavour.cpp\<close>.  A constructor that throws
  \<^verbatim>\<open>std::invalid_argument\<close> returns \<open>Inl\<close> of the message.
\<close>

section \<open>Protocol constants\<close>

definition item_pointer_size :: nat where
  "item_pointer_size = 8"

definition immediate_mask :: item_pointer_t where
  "immediate_mask = push_bit (8 * item_pointer_size - 1) 1"

definition magic_version :: "64 word" where
  "magic_version = 0x5304"

definition BUG_COMPAT_DESCRIPTOR_WIDTHS :: bug_compat_mask where
  "BUG_COMPAT_DESCRIPTOR_WIDTHS = push_bit 0 1"

definition BUG_COMPAT_SHAPE_BIT_1 :: bug_compat_mask where
  "BUG_COMPAT_SHAPE_BIT_1 = push_bit 1 1"

definition BUG_COMPAT_SWAP_ENDIAN :: bug_compat_mask where
  "BUG_COMPAT_SWAP_ENDIAN = push_bit 2 1"

definition BUG_COMPAT_PYSPEAD_0_5_2 :: bug_compat_mask where
  "BUG_COMPAT_PYSPEAD_0_5_2 = 7"

text \<open>\<^verbatim>\<open>enum item_id\<close>; the code compares these with signed item identifiers.\<close>

definition NULL_ID :: int where "NULL_ID = 0"
definition HEAP_CNT_ID :: int where "HEAP_CNT_ID = 1"
definition HEAP_LENGTH_ID :: int where "HEAP_LENGTH_ID = 2"
definition PAYLOAD_OFFSET_ID :: int where "PAYLOAD_OFFSET_ID = 3"
definition PAYLOAD_LENGTH_ID :: int where "PAYLOAD_LENGTH_ID = 4"
definition DESCRIPTOR_ID :: int where "DESCRIPTOR_ID = 5"
definition STREAM_CTRL_ID :: int where "STREAM_CTRL_ID = 6"
definition DESCRIPTOR_NAME_ID :: int where "DESCRIPTOR_NAME_ID = 16"
definition DESCRIPTOR_DESCRIPTION_ID :: int where "DESCRIPTOR_DESCRIPTION_ID = 17"
definition DESCRIPTOR_SHAPE_ID :: int where "DESCRIPTOR_SHAPE_ID = 18"
definition DESCRIPTOR_FORMAT_ID :: int where "DESCRIPTOR_FORMAT_ID = 19"
definition DESCRIPTOR_ID_ID :: int where "DESCRIPTOR_ID_ID = 20"
definition DESCRIPTOR_DTYPE_ID :: int where "DESCRIPTOR_DTYPE_ID = 21"

text \<open>\<^verbatim>\<open>enum ctrl_mode\<close>\<close>

datatype ctrl_mode =
  CTRL_STREAM_START | CTRL_DESCRIPTOR_REISSUE | CTRL_STREAM_STOP | CTRL_DESCRIPTOR_UPDATE

fun ctrl_value :: "ctrl_mode \<Rightarrow> int" where
  "ctrl_value CTRL_STREAM_START = 0"
| "ctrl_value CTRL_DESCRIPTOR_REISSUE = 1"
| "ctrl_value CTRL_STREAM_STOP = 2"
| "ctrl_value CTRL_DESCRIPTOR_UPDATE = 3"

datatype memcpy_function_id = MEMCPY_STD | MEMCPY_NONTEMPORAL

text \<open>\<^verbatim>\<open>struct descriptor\<close>; \<^verbatim>\<open>std::string\<close> is the list of its bytes.\<close>

record descriptor =
  d_id :: s_item_pointer_t
  d_name :: "byte list"
  d_description :: "byte list"
  d_format :: "(byte \<times> s_item_pointer_t) list"
  d_shape :: "s_item_pointer_t list"
  d_numpy_header :: "byte list"

definition empty_descriptor :: descriptor where
  "empty_descriptor = \<lparr>d_id = 0, d_name = [], d_description = [], d_format = [],
     d_shape = [], d_numpy_header = []\<rparr>"

section \<open>Flavours\<close>

record flavour =
  fl_heap_address_bits :: nat
  fl_bug_compat :: bug_compat_mask

definition default_flavour :: flavour where
  "default_flavour = \<lparr>fl_heap_address_bits = 40, fl_bug_compat = 0\<rparr>"

definition make_flavour :: "int \<Rightarrow> int \<Rightarrow> int \<Rightarrow> bug_compat_mask \<Rightarrow> string + flavour" where
  "make_flavour version item_pointer_bits heap_address_bits bug_compat =
     (if version \<noteq> 4 then Inl ''Version is not supported''
      else if item_pointer_bits \<noteq> 8 * int item_pointer_size
        then Inl ''item_pointer_bits not supported''
      else if heap_address_bits \<le> 0 \<or> heap_address_bits \<ge> item_pointer_bits
        then Inl ''heap_address_bits out of range''
      else if heap_address_bits mod 8 \<noteq> 0
        then Inl ''heap_address_bits not a multiple of 8''
      else Inr \<lparr>fl_heap_address_bits = nat heap_address_bits, fl_bug_compat = bug_compat\<rparr>)"

definition flavour_eq :: "flavour \<Rightarrow> flavour \<Rightarrow> bool" where
  "flavour_eq f g \<longleftrightarrow>
     fl_heap_address_bits f = fl_heap_address_bits g \<and> fl_bug_compat f = fl_bug_compat g"

definition flavour_neq :: "flavour \<Rightarrow> flavour \<Rightarrow> bool" where
  "flavour_neq f g \<longleftrightarrow> \<not> flavour_eq f g"

text \<open>
  The address widths a flavour can have.  \<open>wf_bits\<close> is what every other component
  assumes of a flavour.
\<close>

definition wf_bits :: "nat \<Rightarrow> bool" where
  "wf_bits n \<longleftrightarrow> 0 < n \<and> n < 64 \<and> n mod 8 = 0"

definition wf_flavour :: "flavour \<Rightarrow> bool" where
  "wf_flavour f \<longleftrightarrow> wf_bits (fl_heap_address_bits f)"

section \<open>Lemmas\<close>

lemmas item_id_defs =
  NULL_ID_def HEAP_CNT_ID_def HEAP_LENGTH_ID_def PAYLOAD_OFFSET_ID_def PAYLOAD_LENGTH_ID_def
  DESCRIPTOR_ID_def STREAM_CTRL_ID_def DESCRIPTOR_NAME_ID_def DESCRIPTOR_DESCRIPTION_ID_def
  DESCRIPTOR_SHAPE_ID_def DESCRIPTOR_FORMAT_ID_def DESCRIPTOR_ID_ID_def DESCRIPTOR_DTYPE_ID_def

lemma immediate_mask_unat: "unat immediate_mask = 2 ^ 63"
  by (simp add: immediate_mask_def item_pointer_size_def)

lemma wf_bits_cases:
  assumes "wf_bits n"
  obtains "n = 8" | "n = 16" | "n = 24" | "n = 32" | "n = 40" | "n = 48" | "n = 56"
proof -
  from assms obtain k where k: "n = 8 * k" "0 < k" "k < 8"
    by (auto simp: wf_bits_def mod_eq_0_iff_dvd elim: dvdE)
  then have "k \<in> {1, 2, 3, 4, 5, 6, 7}" by auto
  with k that show ?thesis by auto
qed

lemma wf_bits_le: "wf_bits n \<Longrightarrow> 8 \<le> n \<and> n \<le> 56"
  by (erule wf_bits_cases) auto

lemma wf_bits_div: "wf_bits n \<Longrightarrow> n = 8 * (n div 8)"
  by (erule wf_bits_cases) auto

lemma wf_bits_iff: "wf_bits n \<longleftrightarrow> n \<in> {8, 16, 24, 32, 40, 48, 56}"
proof
  assume "wf_bits n"
  then show "n \<in> {8, 16, 24, 32, 40, 48, 56}" by (rule wf_bits_cases) auto
qed (auto simp: wf_bits_def)

lemma make_flavour_Inr:
  assumes "make_flavour v ib hb bc = Inr f"
  shows "v = 4 \<and> ib = 64 \<and> int (fl_heap_address_bits f) = hb \<and> fl_bug_compat f = bc \<and> wf_flavour f"
proof -
  from assms have *: "v = 4" "ib = 64" "0 < hb" "hb < 64" "hb mod 8 = 0"
    "f = \<lparr>fl_heap_address_bits = nat hb, fl_bug_compat = bc\<rparr>"
    by (auto simp: make_flavour_def item_pointer_size_def split: if_splits)
  then have "nat hb mod 8 = 0"
    by (simp add: nat_mod_distrib [of hb 8, symmetric, simplified])
  with * show ?thesis by (simp add: wf_flavour_def wf_bits_def)
qed

lemma make_flavour_of_wf:
  "wf_bits n \<Longrightarrow> make_flavour 4 64 (int n) bc =
     Inr \<lparr>fl_heap_address_bits = n, fl_bug_compat = bc\<rparr>"
  by (erule wf_bits_cases) (simp_all add: make_flavour_def item_pointer_size_def)

lemma flavour_eq_iff: "flavour_eq f g \<longleftrightarrow> f = g"
  by (cases f; cases g) (simp add: flavour_eq_def)

end
