(* ===== verification/Pointers.thy ===== *)
theory Pointers
  imports Flavour
begin

text \<open>
  Item pointers: the decoder of \<^verbatim>\<open>recv_utils.h\<close> and the encoder of
  \<^verbatim>\<open>send_utils.h\<close>.  The interface between the two halves of the library, "what the
  decoder reads is what the encoder wrote", is the locale \<open>pointer_codec\<close>,
  interpreted on the two classes.
\<close>

section \<open>Decoder\<close>

record pointer_decoder =
  pd_heap_address_bits :: nat
  pd_address_mask :: item_pointer_t
  pd_id_mask :: item_pointer_t

definition make_pointer_decoder :: "nat \<Rightarrow> pointer_decoder" where
  "make_pointer_decoder heap_address_bits =
     \<lparr>pd_heap_address_bits = heap_address_bits,
      pd_address_mask = push_bit heap_address_bits 1 - 1,
      pd_id_mask = push_bit (8 * item_pointer_size - 1 - heap_address_bits) 1 - 1\<rparr>"

definition get_id :: "pointer_decoder \<Rightarrow> item_pointer_t \<Rightarrow> s_item_pointer_t" where
  "get_id d pointer = sint (drop_bit (pd_heap_address_bits d) pointer AND pd_id_mask d)"

definition get_address :: "pointer_decoder \<Rightarrow> item_pointer_t \<Rightarrow> s_item_pointer_t" where
  "get_address d pointer = sint (pointer AND pd_address_mask d)"

definition get_immediate :: "pointer_decoder \<Rightarrow> item_pointer_t \<Rightarrow> s_item_pointer_t" where
  "get_immediate d pointer = get_address d pointer"

definition is_immediate :: "pointer_decoder \<Rightarrow> item_pointer_t \<Rightarrow> bool" where
  "is_immediate d pointer \<longleftrightarrow> drop_bit (8 * item_pointer_size - 1) pointer \<noteq> 0"

definition address_bits :: "pointer_decoder \<Rightarrow> nat" where
  "address_bits d = pd_heap_address_bits d"

section \<open>Encoder\<close>

text \<open>
  The assertions of the two functions are kept as the predicate \<open>encodable\<close>: a
  release build drops them, so the functions themselves are total.
\<close>

definition encodable :: "nat \<Rightarrow> s_item_pointer_t \<Rightarrow> s_item_pointer_t \<Rightarrow> bool" where
  "encodable heap_address_bits i v \<longleftrightarrow>
     0 \<le> i \<and> i < 2 ^ (8 * item_pointer_size - 1 - heap_address_bits) \<and>
     0 \<le> v \<and> v < 2 ^ heap_address_bits"

definition encode_immediate ::
  "nat \<Rightarrow> s_item_pointer_t \<Rightarrow> s_item_pointer_t \<Rightarrow> item_pointer_t" where
  "encode_immediate heap_address_bits i v =
     immediate_mask OR push_bit heap_address_bits (word_of_int i) OR word_of_int v"

definition encode_address ::
  "nat \<Rightarrow> s_item_pointer_t \<Rightarrow> s_item_pointer_t \<Rightarrow> item_pointer_t" where
  "encode_address heap_address_bits i address =
     push_bit heap_address_bits (word_of_int i) OR word_of_int address"

section \<open>The codec interface\<close>

text \<open>
  What the sender relies on and the receiver promises, for every address width that
  a flavour admits: both modes can be told apart, and identifier and value survive
  the trip.
\<close>

locale pointer_codec =
  fixes valid :: "nat \<Rightarrow> bool"
    and fits :: "nat \<Rightarrow> int \<Rightarrow> int \<Rightarrow> bool"
    and enc_imm :: "nat \<Rightarrow> int \<Rightarrow> int \<Rightarrow> 'p"
    and enc_addr :: "nat \<Rightarrow> int \<Rightarrow> int \<Rightarrow> 'p"
    and imm :: "nat \<Rightarrow> 'p \<Rightarrow> bool"
    and ident :: "nat \<Rightarrow> 'p \<Rightarrow> int"
    and val :: "nat \<Rightarrow> 'p \<Rightarrow> int"
  assumes imm_enc_imm: "valid n \<Longrightarrow> fits n i v \<Longrightarrow> imm n (enc_imm n i v)"
    and imm_enc_addr: "valid n \<Longrightarrow> fits n i v \<Longrightarrow> \<not> imm n (enc_addr n i v)"
    and ident_enc_imm: "valid n \<Longrightarrow> fits n i v \<Longrightarrow> ident n (enc_imm n i v) = i"
    and ident_enc_addr: "valid n \<Longrightarrow> fits n i v \<Longrightarrow> ident n (enc_addr n i v) = i"
    and val_enc_imm: "valid n \<Longrightarrow> fits n i v \<Longrightarrow> val n (enc_imm n i v) = v"
    and val_enc_addr: "valid n \<Longrightarrow> fits n i v \<Longrightarrow> val n (enc_addr n i v) = v"
    and fits_decoded: "valid n \<Longrightarrow> fits n (ident n p) (val n p)"
    and decode_inject: "valid n \<Longrightarrow> imm n p = imm n q \<Longrightarrow> ident n p = ident n q \<Longrightarrow>
      val n p = val n q \<Longrightarrow> p = q"
begin

text \<open>The encoders are injective on their domain, and their images are disjoint.\<close>

lemma enc_imm_eq_iff:
  assumes "valid n" "fits n i v" "fits n j w"
  shows "enc_imm n i v = enc_imm n j w \<longleftrightarrow> i = j \<and> v = w"
  using assms ident_enc_imm val_enc_imm by metis

lemma enc_addr_eq_iff:
  assumes "valid n" "fits n i v" "fits n j w"
  shows "enc_addr n i v = enc_addr n j w \<longleftrightarrow> i = j \<and> v = w"
  using assms ident_enc_addr val_enc_addr by metis

lemma enc_imm_neq_addr:
  assumes "valid n" "fits n i v" "fits n j w"
  shows "enc_imm n i v \<noteq> enc_addr n j w"
  using assms imm_enc_imm imm_enc_addr by metis

text \<open>Every pointer is one of the two encodings of what is read from it.\<close>

lemma pointer_exhaust:
  assumes "valid n"
  shows "p = (if imm n p then enc_imm n (ident n p) (val n p) else enc_addr n (ident n p) (val n p))"
proof -
  note f = fits_decoded [OF assms, of p]
  show ?thesis
    by (cases "imm n p")
      (simp_all add: decode_inject [OF assms] imm_enc_imm [OF assms f] imm_enc_addr [OF assms f]
        ident_enc_imm [OF assms f] ident_enc_addr [OF assms f] val_enc_imm [OF assms f]
        val_enc_addr [OF assms f])
qed

end

section \<open>The decoder as arithmetic\<close>

lemma pd_sel [simp]:
  "pd_heap_address_bits (make_pointer_decoder n) = n"
  "address_bits (make_pointer_decoder n) = n"
  by (simp_all add: make_pointer_decoder_def address_bits_def)

lemma get_address_nat:
  assumes "n < 64"
  shows "get_address (make_pointer_decoder n) p = int (unat p mod 2 ^ n)"
proof -
  have u: "unat (p AND (push_bit n 1 - 1)) = unat p mod 2 ^ n"
    by (rule unat_and_mask)
  have "unat p mod 2 ^ n < 2 ^ n" by simp
  also have "\<dots> \<le> (2 :: nat) ^ 63"
    using assms by (intro power_increasing) simp_all
  finally have "unat (p AND (push_bit n 1 - 1)) < 2 ^ 63" by (simp only: u)
  then have "sint (p AND (push_bit n 1 - 1)) = int (unat (p AND (push_bit n 1 - 1)))"
    by (rule sint_small)
  then show ?thesis
    by (simp only: get_address_def make_pointer_decoder_def pointer_decoder.select_convs u)
qed

lemma get_id_nat:
  "get_id (make_pointer_decoder n) p = int ((unat p div 2 ^ n) mod 2 ^ (63 - n))"
proof -
  let ?w = "drop_bit n p AND (push_bit (63 - n) 1 - 1)"
  have u: "unat ?w = (unat p div 2 ^ n) mod 2 ^ (63 - n)"
    by (simp only: unat_and_mask unat_shift_right)
  have "(unat p div 2 ^ n) mod 2 ^ (63 - n) < 2 ^ (63 - n)" by simp
  also have "\<dots> \<le> (2 :: nat) ^ 63"
    by (intro power_increasing) simp_all
  finally have "unat ?w < 2 ^ 63" by (simp only: u)
  then have "sint ?w = int (unat ?w)"
    by (rule sint_small)
  moreover have "8 * item_pointer_size - 1 - n = 63 - n"
    by (simp add: item_pointer_size_def)
  ultimately show ?thesis
    by (simp only: get_id_def make_pointer_decoder_def pointer_decoder.select_convs u)
qed

lemma is_immediate_nat: "is_immediate d p \<longleftrightarrow> 2 ^ 63 \<le> unat p"
proof -
  have "is_immediate d p \<longleftrightarrow> unat (drop_bit 63 p) \<noteq> 0"
    by (simp only: is_immediate_def item_pointer_size_def unat_eq_zero) simp
  also have "\<dots> \<longleftrightarrow> unat p div 2 ^ 63 \<noteq> 0"
    by (simp only: unat_shift_right)
  also have "\<dots> \<longleftrightarrow> 2 ^ 63 \<le> unat p"
    by (simp add: div_eq_0_iff not_less)
  finally show ?thesis .
qed

section \<open>The encoder as arithmetic\<close>

lemma field_bounds:
  assumes "wf_bits n" "encodable n i v"
  shows "nat i < 2 ^ (63 - n)" "nat v < 2 ^ n" "nat i * 2 ^ n + nat v < 2 ^ 63"
proof -
  from assms have i: "nat i < 2 ^ (63 - n)" and v: "nat v < 2 ^ n"
    by (auto simp: encodable_def item_pointer_size_def nat_less_iff)
  have "nat i * 2 ^ n + nat v < (nat i + 1) * 2 ^ n" using v by simp
  also have "\<dots> \<le> 2 ^ (63 - n) * 2 ^ n"
    using i by (intro mult_right_mono) (simp_all only: Suc_leI Suc_eq_plus1 [symmetric] zero_le)
  also have "\<dots> = (2 :: nat) ^ (63 - n + n)" by (rule power_add [symmetric])
  also have "63 - n + n = 63" using wf_bits_le [OF assms(1)] by simp
  finally show "nat i * 2 ^ n + nat v < 2 ^ 63" .
  show "nat i < 2 ^ (63 - n)" "nat v < 2 ^ n" by fact+
qed

lemma word_fields:
  assumes "wf_bits n" "encodable n i v"
  shows "unat (push_bit n (word_of_int i :: 64 word)) = nat i * 2 ^ n"
    and "unat (word_of_int v :: 64 word) = nat v"
proof -
  note b = field_bounds [OF assms]
  have le: "(2 :: nat) ^ (63 - n) \<le> 2 ^ 63" "(2 :: nat) ^ n \<le> 2 ^ 63"
    using wf_bits_le [OF assms(1)] by (intro power_increasing; simp)+
  have small: "x < 2 ^ 64" if "nat x < 2 ^ k" "(2 :: nat) ^ k \<le> 2 ^ 63" for x :: int and k
    using less_le_trans [OF that] by simp
  have nonneg: "0 \<le> i" "0 \<le> v"
    using assms(2) by (simp_all add: encodable_def)
  have i: "unat (word_of_int i :: 64 word) = nat i"
    by (rule unat_of_int_small [OF nonneg(1) small [OF b(1) le(1)]])
  show "unat (word_of_int v :: 64 word) = nat v"
    by (rule unat_of_int_small [OF nonneg(2) small [OF b(2) le(2)]])
  show "unat (push_bit n (word_of_int i :: 64 word)) = nat i * 2 ^ n"
    using b(3) i by (subst unat_shift_left) simp_all
qed

lemma encode_address_nat:
  assumes "wf_bits n" "encodable n i v"
  shows "unat (encode_address n i v) = nat i * 2 ^ n + nat v"
proof -
  note w = word_fields [OF assms] and b = field_bounds [OF assms]
  have "unat (push_bit n (word_of_int i :: 64 word) OR word_of_int v) =
      nat i * 2 ^ n + unat (word_of_int v :: 64 word)"
    using w b(2) by (intro unat_or_disjoint) simp_all
  then show ?thesis by (simp only: encode_address_def w(2))
qed

lemma encode_immediate_nat:
  assumes "wf_bits n" "encodable n i v"
  shows "unat (encode_immediate n i v) = 2 ^ 63 + nat i * 2 ^ n + nat v"
proof -
  note a = encode_address_nat [OF assms] and b = field_bounds [OF assms]
  have "unat (immediate_mask OR encode_address n i v) =
      1 * 2 ^ 63 + unat (encode_address n i v)"
    using a b(3) immediate_mask_unat by (intro unat_or_disjoint) simp_all
  then show ?thesis
    by (simp only: encode_immediate_def encode_address_def or.assoc a [unfolded encode_address_def] mult_1)
qed

section \<open>The two classes implement the codec\<close>

text \<open>
  A pointer is the sum of its three fields, which is what makes decoding injective.
\<close>

lemma pointer_decompose:
  assumes "wf_bits n"
  shows "unat p = of_bool (is_immediate d p) * 2 ^ 63 +
    nat (get_id (make_pointer_decoder n) p) * 2 ^ n + nat (get_address (make_pointer_decoder n) p)"
proof -
  have n: "n < 64" and split: "(2 :: nat) ^ 63 = 2 ^ n * 2 ^ (63 - n)"
    using wf_bits_le [OF assms] by (simp_all flip: power_add)
  have "unat p < 2 * 2 ^ 63"
    using unsigned_less [of p, where 'a = nat] by simp
  then have "unat p div 2 ^ 63 < 2"
    by (simp add: less_mult_imp_div_less)
  moreover have "unat p div 2 ^ 63 \<noteq> 0 \<longleftrightarrow> is_immediate d p"
    by (simp add: is_immediate_nat div_eq_0_iff not_less)
  ultimately have top: "unat p div 2 ^ 63 = of_bool (is_immediate d p)"
    by (cases "is_immediate d p") auto
  have high: "unat p div 2 ^ n div 2 ^ (63 - n) = unat p div 2 ^ 63"
    by (simp only: div_mult2_eq split)
  have "unat p div 2 ^ n =
      unat p div 2 ^ 63 * 2 ^ (63 - n) + (unat p div 2 ^ n) mod 2 ^ (63 - n)"
    using div_mult_mod_eq [of "unat p div 2 ^ n" "2 ^ (63 - n)"] by (simp only: high)
  then have "unat p =
      (unat p div 2 ^ 63 * 2 ^ (63 - n) + (unat p div 2 ^ n) mod 2 ^ (63 - n)) * 2 ^ n
      + unat p mod 2 ^ n"
    using div_mult_mod_eq [of "unat p" "2 ^ n"] by simp
  then show ?thesis
    by (simp only: top get_id_nat get_address_nat [OF n] nat_int
        add_mult_distrib mult.assoc mult.commute [of "2 ^ (63 - n)"] split [symmetric])
qed

lemma decode_bounds:
  assumes "wf_bits n"
  shows "encodable n (get_id (make_pointer_decoder n) p) (get_address (make_pointer_decoder n) p)"
proof -
  have n: "n < 64" using wf_bits_le [OF assms] by simp
  have "int (unat p mod 2 ^ n) < int (2 ^ n)"
    "int (unat p div 2 ^ n mod 2 ^ (63 - n)) < int (2 ^ (63 - n))"
    by (simp_all only: of_nat_less_iff) simp_all
  then show ?thesis
    by (simp add: encodable_def item_pointer_size_def get_id_nat get_address_nat [OF n])
qed

lemma decode_encoded:
  assumes "wf_bits n" "encodable n i v" "unat p = c * 2 ^ 63 + (nat i * 2 ^ n + nat v)"
  shows "get_id (make_pointer_decoder n) p = i"
    and "get_address (make_pointer_decoder n) p = v"
    and "c = 0 \<Longrightarrow> \<not> is_immediate d p"
    and "c = 1 \<Longrightarrow> is_immediate d p"
proof -
  note b = field_bounds [OF assms(1,2)]
  have nonneg: "0 \<le> i" "0 \<le> v" using assms(2) by (simp_all add: encodable_def)
  have n: "n < 64" and split: "(2 :: nat) ^ 63 = 2 ^ (63 - n) * 2 ^ n"
    using wf_bits_le [OF assms(1)] by (simp_all flip: power_add)
  have p: "unat p = (c * 2 ^ (63 - n) + nat i) * 2 ^ n + nat v"
    by (simp only: assms(3) split add_mult_distrib mult.assoc add.assoc)
  have "unat p mod 2 ^ n = nat v" using b(2) by (simp add: p)
  then show "get_address (make_pointer_decoder n) p = v"
    using nonneg by (simp add: get_address_nat [OF n])
  have "unat p div 2 ^ n = c * 2 ^ (63 - n) + nat i" using b(2) by (simp add: p)
  then have "unat p div 2 ^ n mod 2 ^ (63 - n) = nat i" using b(1) by simp
  then show "get_id (make_pointer_decoder n) p = i"
    using nonneg by (simp add: get_id_nat)
  show "c = 0 \<Longrightarrow> \<not> is_immediate d p" "c = 1 \<Longrightarrow> is_immediate d p"
    using b(3) by (simp_all add: is_immediate_nat assms(3))
qed

interpretation spead_codec: pointer_codec wf_bits encodable encode_immediate encode_address
  "\<lambda>n. is_immediate (make_pointer_decoder n)" "\<lambda>n. get_id (make_pointer_decoder n)"
  "\<lambda>n. get_address (make_pointer_decoder n)"
proof
  fix n i v
  assume wf: "wf_bits n" "encodable n i v"
  have imm: "unat (encode_immediate n i v) = 1 * 2 ^ 63 + (nat i * 2 ^ n + nat v)"
    using encode_immediate_nat [OF wf] by simp
  have adr: "unat (encode_address n i v) = 0 * 2 ^ 63 + (nat i * 2 ^ n + nat v)"
    using encode_address_nat [OF wf] by simp
  show "is_immediate (make_pointer_decoder n) (encode_immediate n i v)"
    using decode_encoded(4) [OF wf imm] by simp
  show "\<not> is_immediate (make_pointer_decoder n) (encode_address n i v)"
    using decode_encoded(3) [OF wf adr] by simp
  show "get_id (make_pointer_decoder n) (encode_immediate n i v) = i"
    "get_address (make_pointer_decoder n) (encode_immediate n i v) = v"
    by (rule decode_encoded [OF wf imm])+
  show "get_id (make_pointer_decoder n) (encode_address n i v) = i"
    "get_address (make_pointer_decoder n) (encode_address n i v) = v"
    by (rule decode_encoded [OF wf adr])+
next
  fix n p
  assume "wf_bits n"
  then show "encodable n (get_id (make_pointer_decoder n) p) (get_address (make_pointer_decoder n) p)"
    by (rule decode_bounds)
next
  fix n p q
  assume "wf_bits n"
    and "is_immediate (make_pointer_decoder n) p = is_immediate (make_pointer_decoder n) q"
    and "get_id (make_pointer_decoder n) p = get_id (make_pointer_decoder n) q"
    and "get_address (make_pointer_decoder n) p = get_address (make_pointer_decoder n) q"
  then have "unat p = unat q"
    by (simp only: pointer_decompose [of n _ "make_pointer_decoder n"])
  then show "p = q" by (simp add: word_unat_eq_iff)
qed

lemmas codec_simps =
  spead_codec.imm_enc_imm spead_codec.imm_enc_addr spead_codec.ident_enc_imm
  spead_codec.ident_enc_addr spead_codec.val_enc_imm spead_codec.val_enc_addr

lemma get_address_nonneg: "wf_bits n \<Longrightarrow> 0 \<le> get_address (make_pointer_decoder n) p"
  using decode_bounds by (simp add: encodable_def)

lemma get_id_nonneg: "wf_bits n \<Longrightarrow> 0 \<le> get_id (make_pointer_decoder n) p"
  using decode_bounds by (simp add: encodable_def)

lemma get_address_less:
  assumes "wf_bits n"
  shows "get_address (make_pointer_decoder n) p < 2 ^ 56"
proof -
  have "get_address (make_pointer_decoder n) p < 2 ^ n"
    using decode_bounds [OF assms] by (simp add: encodable_def)
  also have "\<dots> \<le> (2 :: int) ^ 56"
    using wf_bits_le [OF assms] by (intro power_increasing) simp_all
  finally show ?thesis .
qed

section \<open>Property\<close>

text \<open>
  C34: Item pointers round trip.  For every address width a flavour can have, encoding an
  identifier and a value that fit and decoding the result gives mode, identifier and value
  back; and every 64-bit word is the encoding of what the decoder reads from it, so no
  two pointers decode alike.
\<close>

theorem pointer_roundtrip:
  assumes "wf_bits n" "encodable n i v"
  shows "is_immediate (make_pointer_decoder n) (encode_immediate n i v) \<and>
    get_id (make_pointer_decoder n) (encode_immediate n i v) = i \<and>
    get_immediate (make_pointer_decoder n) (encode_immediate n i v) = v \<and>
    \<not> is_immediate (make_pointer_decoder n) (encode_address n i v) \<and>
    get_id (make_pointer_decoder n) (encode_address n i v) = i \<and>
    get_address (make_pointer_decoder n) (encode_address n i v) = v \<and>
    (\<forall>p. p = (if is_immediate (make_pointer_decoder n) p
       then encode_immediate n (get_id (make_pointer_decoder n) p)
              (get_immediate (make_pointer_decoder n) p)
       else encode_address n (get_id (make_pointer_decoder n) p)
              (get_address (make_pointer_decoder n) p)))"
  unfolding get_immediate_def
  by (intro conjI allI; (rule spead_codec.pointer_exhaust [OF assms(1)])?)
    (simp_all add: codec_simps assms)

theorem pointer_roundtrip_witness:
  "get_id (make_pointer_decoder 40) (encode_immediate 40 0x1234 99) = 0x1234 \<and>
   get_address (make_pointer_decoder 40) (encode_address 40 0x1234 99) = 99"
  using pointer_roundtrip [where n = 40 and i = "0x1234" and v = 99]
  by (simp add: wf_bits_def encodable_def item_pointer_size_def)

end
