(* ===== verification/RecvPacket.thy ===== *)
theory RecvPacket
  imports Pointers
begin

text \<open>
  Parsing of one packet: \<^verbatim>\<open>recv_packet.h\<close> and \<^verbatim>\<open>recv_packet.cpp\<close>.  A buffer of
  \<open>n\<close> bytes is a list of length \<open>n\<close>, so the size argument of the C++ functions is
  the length of the list.  The packet header keeps its two pointers into the buffer
  as the bytes from there on.
\<close>

section \<open>Definitions\<close>

record packet_header =
  ph_heap_address_bits :: nat
  ph_n_items :: nat
  ph_heap_cnt :: s_item_pointer_t
  ph_heap_length :: s_item_pointer_t
  ph_payload_offset :: s_item_pointer_t
  ph_payload_length :: s_item_pointer_t
  ph_pointers :: "byte list"
  ph_payload :: "byte list"

definition extract_bits :: "64 word \<Rightarrow> nat \<Rightarrow> nat \<Rightarrow> 64 word" where
  "extract_bits v first cnt = drop_bit first v AND (push_bit cnt 1 - 1)"

text \<open>The result is \<^verbatim>\<open>(heap_address_bits, n_items)\<close>.\<close>

definition decode_header :: "byte list \<Rightarrow> (nat \<times> nat) option" where
  "decode_header data =
     (let header = load_be64 data in
      if extract_bits header 48 16 \<noteq> magic_version then None
      else
        (let item_id_bits = unat (extract_bits header 40 8) * 8;
             heap_address_bits = unat (extract_bits header 32 8) * 8
         in if item_id_bits = 0 \<or> heap_address_bits = 0 then None
            else if item_id_bits + heap_address_bits \<noteq> 8 * item_pointer_size then None
            else Some (heap_address_bits, unat (extract_bits header 0 16))))"

definition item_at :: "byte list \<Rightarrow> nat \<Rightarrow> item_pointer_t" where
  "item_at data i = load_be64 (drop (8 + i * item_pointer_size) data)"

text \<open>The search loop of \<^verbatim>\<open>get_packet_size\<close> over the item numbers still to visit.\<close>

fun find_payload_length :: "pointer_decoder \<Rightarrow> byte list \<Rightarrow> nat list \<Rightarrow> s_item_pointer_t" where
  "find_payload_length d data [] = - 1"
| "find_payload_length d data (i # is) =
     (let pointer = item_at data i in
      if is_immediate d pointer \<and> get_id d pointer = PAYLOAD_LENGTH_ID
      then get_immediate d pointer
      else find_payload_length d data is)"

definition get_packet_size :: "byte list \<Rightarrow> s_item_pointer_t" where
  "get_packet_size data =
     (if length data < 8 then 0
      else case decode_header data of
        None \<Rightarrow> - 1
      | Some (heap_address_bits, n_items) \<Rightarrow>
          if n_items * item_pointer_size + 8 > length data then 0
          else
            (let payload_length =
               find_payload_length (make_pointer_decoder heap_address_bits) data [0..<n_items]
             in if payload_length = - 1 then - 1
                else payload_length + int (n_items * item_pointer_size) + 8))"

text \<open>
  One iteration of the special-item loop of \<^verbatim>\<open>decode_packet\<close>, on the header being
  filled in and \<^verbatim>\<open>first_regular\<close>.
\<close>

definition decode_item ::
  "pointer_decoder \<Rightarrow> byte list \<Rightarrow> nat \<Rightarrow> packet_header \<times> nat \<Rightarrow> packet_header \<times> nat" where
  "decode_item d data i = (\<lambda>(out, first_regular).
     let pointer = item_at data i in
     if is_immediate d pointer then
       if get_id d pointer = HEAP_CNT_ID
         then (out\<lparr>ph_heap_cnt := get_immediate d pointer\<rparr>, first_regular)
       else if get_id d pointer = HEAP_LENGTH_ID
         then (out\<lparr>ph_heap_length := get_immediate d pointer\<rparr>, first_regular)
       else if get_id d pointer = PAYLOAD_OFFSET_ID
         then (out\<lparr>ph_payload_offset := get_immediate d pointer\<rparr>, first_regular)
       else if get_id d pointer = PAYLOAD_LENGTH_ID
         then (out\<lparr>ph_payload_length := get_immediate d pointer\<rparr>, first_regular)
       else (out, min first_regular i)
     else (out, min first_regular i))"

text \<open>The header with all specials marked as not found.\<close>

definition no_specials :: "nat \<Rightarrow> nat \<Rightarrow> packet_header" where
  "no_specials heap_address_bits n_items =
     \<lparr>ph_heap_address_bits = heap_address_bits, ph_n_items = n_items,
      ph_heap_cnt = - 1, ph_heap_length = - 1, ph_payload_offset = - 1,
      ph_payload_length = - 1, ph_pointers = [], ph_payload = []\<rparr>"

text \<open>
  \<^verbatim>\<open>decode_packet\<close>: \<open>None\<close> stands for the return value 0, \<open>Some (out, size)\<close> for a
  packet of \<open>size\<close> bytes (never 0).
\<close>

definition decode_packet :: "byte list \<Rightarrow> (packet_header \<times> nat) option" where
  "decode_packet data =
     (if length data < 8 then None
      else case decode_header data of
        None \<Rightarrow> None
      | Some (heap_address_bits, n_items) \<Rightarrow>
          if n_items * item_pointer_size + 8 > length data then None
          else
            (let d = make_pointer_decoder heap_address_bits;
                 (out, first_regular) = fold (decode_item d data) [0..<n_items]
                   (no_specials heap_address_bits n_items, n_items)
             in if ph_heap_cnt out = - 1 \<or> ph_payload_offset out = - 1
                  \<or> ph_payload_length out = - 1 then None
                else
                  (let size = nat (ph_payload_length out) + n_items * item_pointer_size + 8 in
                   if size > length data then None
                   else if ph_heap_length out \<ge> 0
                     \<and> ph_payload_offset out + ph_payload_length out > ph_heap_length out then None
                   else
                     (let pointers = drop (8 + first_regular * item_pointer_size) data;
                          rest = n_items - first_regular
                      in Some (out\<lparr>ph_pointers := pointers, ph_n_items := rest,
                                  ph_payload := drop (rest * item_pointer_size) pointers\<rparr>,
                               size)))))"

text \<open>
  What a header produced by \<^verbatim>\<open>decode_packet\<close> satisfies; the components downstream
  rely on nothing else.
\<close>

definition wf_packet :: "packet_header \<Rightarrow> bool" where
  "wf_packet p \<longleftrightarrow>
     wf_bits (ph_heap_address_bits p) \<and>
     0 \<le> ph_heap_cnt p \<and> ph_heap_cnt p < 2 ^ 56 \<and>
     - 1 \<le> ph_heap_length p \<and> ph_heap_length p < 2 ^ 56 \<and>
     0 \<le> ph_payload_offset p \<and> ph_payload_offset p < 2 ^ 56 \<and>
     0 \<le> ph_payload_length p \<and> ph_payload_length p < 2 ^ 56 \<and>
     (0 \<le> ph_heap_length p \<longrightarrow>
        ph_payload_offset p + ph_payload_length p \<le> ph_heap_length p) \<and>
     ph_n_items p * item_pointer_size \<le> length (ph_pointers p) \<and>
     nat (ph_payload_length p) \<le> length (ph_payload p)"

section \<open>Headers\<close>

lemma extract_bits_nat [word_to_nat]:
  "unat (extract_bits v first cnt) = (unat v div 2 ^ first) mod 2 ^ cnt"
  by (simp only: extract_bits_def unat_and_mask unat_shift_right)

lemma decode_header_Some:
  assumes "decode_header data = Some (n, k)"
  shows "wf_bits n" "k < 2 ^ 16"
proof -
  let ?h = "load_be64 data"
  from assms have n: "n = unat (extract_bits ?h 32 8) * 8" "n \<noteq> 0"
    and id: "unat (extract_bits ?h 40 8) \<noteq> 0"
    and sum: "unat (extract_bits ?h 40 8) * 8 + n = 64"
    and k: "k = unat (extract_bits ?h 0 16)"
    by (auto simp: decode_header_def Let_def item_pointer_size_def split: if_splits)
  show "wf_bits n"
    using n id sum by (simp add: wf_bits_def)
  show "k < 2 ^ 16"
    by (simp only: k extract_bits_nat) simp
qed

section \<open>The special-item loop\<close>

text \<open>
  What the loop keeps: every special is either still absent (\<open>- 1\<close>) or a value that
  fits the address field, and the fields filled in elsewhere do not change.
\<close>

definition special_ok :: "s_item_pointer_t \<Rightarrow> bool" where
  "special_ok v \<longleftrightarrow> - 1 \<le> v \<and> v < 2 ^ 56"

definition specials_ok :: "nat \<Rightarrow> nat \<Rightarrow> packet_header \<times> nat \<Rightarrow> bool" where
  "specials_ok n k = (\<lambda>(out, fr).
     special_ok (ph_heap_cnt out) \<and> special_ok (ph_heap_length out) \<and>
     special_ok (ph_payload_offset out) \<and> special_ok (ph_payload_length out) \<and>
     ph_heap_address_bits out = n \<and> fr \<le> k)"

lemma decode_item_specials_ok:
  assumes "wf_bits n" "specials_ok n k s"
  shows "specials_ok n k (decode_item (make_pointer_decoder n) data i s)"
proof -
  let ?v = "get_immediate (make_pointer_decoder n) (item_at data i)"
  have "special_ok ?v"
    using get_address_nonneg [OF assms(1), of "item_at data i"]
      get_address_less [OF assms(1), of "item_at data i"]
    by (simp add: special_ok_def get_immediate_def)
  with assms(2) show ?thesis
    by (cases s) (simp add: specials_ok_def decode_item_def Let_def min_le_iff_disj)
qed

lemma fold_specials_ok:
  assumes "wf_bits n" "specials_ok n k s"
  shows "specials_ok n k (fold (decode_item (make_pointer_decoder n) data) is s)"
  using assms(2)
  by (induction "is" arbitrary: s) (simp_all add: decode_item_specials_ok assms(1))

section \<open>What a decoded packet satisfies\<close>

text \<open>The branches of \<^verbatim>\<open>decode_packet\<close>, as one elimination.\<close>

lemma decode_packet_SomeE:
  assumes "decode_packet data = Some (p, sz)"
  obtains n k out fr where
    "8 \<le> length data" "decode_header data = Some (n, k)" "k * 8 + 8 \<le> length data"
    "fold (decode_item (make_pointer_decoder n) data) [0..<k] (no_specials n k, k) = (out, fr)"
    "ph_heap_cnt out \<noteq> - 1" "ph_payload_offset out \<noteq> - 1" "ph_payload_length out \<noteq> - 1"
    "sz = nat (ph_payload_length out) + k * 8 + 8" "sz \<le> length data"
    "0 \<le> ph_heap_length out \<longrightarrow>
       ph_payload_offset out + ph_payload_length out \<le> ph_heap_length out"
    "p = out\<lparr>ph_pointers := drop (8 + fr * 8) data, ph_n_items := k - fr,
       ph_payload := drop ((k - fr) * 8) (drop (8 + fr * 8) data)\<rparr>"
  using assms
  by (auto simp: decode_packet_def item_pointer_size_def Let_def not_less not_le
      split: if_splits option.splits prod.splits)

lemma decode_packet_result:
  assumes "decode_packet data = Some (p, sz)"
  shows "wf_packet p"
    and "8 \<le> sz" and "sz \<le> length data"
    and "sz = length data - length (ph_payload p) + nat (ph_payload_length p)"
proof -
  from assms obtain n k out fr where "8 \<le> length data" and d:
    "decode_header data = Some (n, k)" "k * 8 + 8 \<le> length data"
    and fold: "fold (decode_item (make_pointer_decoder n) data) [0..<k] (no_specials n k, k)
      = (out, fr)"
    and req: "ph_heap_cnt out \<noteq> - 1" "ph_payload_offset out \<noteq> - 1" "ph_payload_length out \<noteq> - 1"
    and sz: "sz = nat (ph_payload_length out) + k * 8 + 8" "sz \<le> length data"
    and hl: "0 \<le> ph_heap_length out \<longrightarrow>
       ph_payload_offset out + ph_payload_length out \<le> ph_heap_length out"
    and p: "p = out\<lparr>ph_pointers := drop (8 + fr * 8) data, ph_n_items := k - fr,
       ph_payload := drop ((k - fr) * 8) (drop (8 + fr * 8) data)\<rparr>"
    by (rule decode_packet_SomeE)
  have wf: "wf_bits n" by (rule decode_header_Some(1) [OF d(1)])
  have "specials_ok n k (out, fr)"
    unfolding fold [symmetric]
    by (rule fold_specials_ok [OF wf]) (simp add: specials_ok_def special_ok_def no_specials_def)
  then have ok: "special_ok (ph_heap_cnt out)" "special_ok (ph_heap_length out)"
    "special_ok (ph_payload_offset out)" "special_ok (ph_payload_length out)"
    "ph_heap_address_bits out = n" "fr \<le> k"
    by (simp_all add: specials_ok_def)
  show "8 \<le> sz" "sz \<le> length data" using sz by simp_all
  show "sz = length data - length (ph_payload p) + nat (ph_payload_length p)"
    using sz ok(6) d(2) by (simp add: p)
  have "(k - fr) * 8 + (8 + fr * 8) = 8 + k * 8" using ok(6) by simp
  then have "(k - fr) * 8 \<le> length (ph_pointers p)"
    "nat (ph_payload_length out) \<le> length (ph_payload p)"
    using sz d(2) by (simp_all add: p)
  then show "wf_packet p"
    using wf ok req hl unfolding wf_packet_def special_ok_def
    by (simp add: p item_pointer_size_def)
qed

section \<open>The special-item loop as a lookup\<close>

text \<open>
  Reference for the loop: a special is the value of the last immediate item with its
  identifier, and \<^verbatim>\<open>first_regular\<close> is the first item that is not one of the four.
\<close>

definition special_item :: "pointer_decoder \<Rightarrow> byte list \<Rightarrow> int \<Rightarrow> nat \<Rightarrow> bool" where
  "special_item d data ident i \<longleftrightarrow>
     is_immediate d (item_at data i) \<and> get_id d (item_at data i) = ident"

fun special_value :: "pointer_decoder \<Rightarrow> byte list \<Rightarrow> int \<Rightarrow> nat \<Rightarrow> s_item_pointer_t" where
  "special_value d data ident 0 = - 1"
| "special_value d data ident (Suc k) =
     (if special_item d data ident k then get_immediate d (item_at data k)
      else special_value d data ident k)"

definition packet_special_ids :: "int list" where
  "packet_special_ids = [HEAP_CNT_ID, HEAP_LENGTH_ID, PAYLOAD_OFFSET_ID, PAYLOAD_LENGTH_ID]"

definition is_special :: "pointer_decoder \<Rightarrow> byte list \<Rightarrow> nat \<Rightarrow> bool" where
  "is_special d data i \<longleftrightarrow> (\<exists>ident \<in> set packet_special_ids. special_item d data ident i)"

fun first_regular_item :: "pointer_decoder \<Rightarrow> byte list \<Rightarrow> nat \<Rightarrow> nat \<Rightarrow> nat" where
  "first_regular_item d data fr 0 = fr"
| "first_regular_item d data fr (Suc k) =
     (if is_special d data k then first_regular_item d data fr k
      else min (first_regular_item d data fr k) k)"

definition specials_at :: "pointer_decoder \<Rightarrow> byte list \<Rightarrow> nat \<Rightarrow> packet_header \<Rightarrow> packet_header" where
  "specials_at d data k out =
     out\<lparr>ph_heap_cnt := special_value d data HEAP_CNT_ID k,
         ph_heap_length := special_value d data HEAP_LENGTH_ID k,
         ph_payload_offset := special_value d data PAYLOAD_OFFSET_ID k,
         ph_payload_length := special_value d data PAYLOAD_LENGTH_ID k\<rparr>"

lemma decode_item_specials:
  "decode_item d data k (specials_at d data k out, fr) =
     (specials_at d data (Suc k) out, if is_special d data k then fr else min fr k)"
  by (cases "is_immediate d (item_at data k)")
    (simp_all add: decode_item_def specials_at_def special_item_def is_special_def Let_def
      packet_special_ids_def item_id_defs)

lemma fold_decode_item:
  "fold (decode_item d data) [0..<k] (no_specials n k', fr) =
     (specials_at d data k (no_specials n k'), first_regular_item d data fr k)"
proof (induction k)
  case 0
  show ?case by (simp add: specials_at_def no_specials_def)
next
  case (Suc k)
  then show ?case by (simp add: decode_item_specials)
qed

lemma first_regular_item_le:
  assumes "k \<le> fr"
  shows "first_regular_item d data fr k \<le> fr"
  using assms by (induction k) auto

text \<open>Everything in front of the first regular item is a special.\<close>

lemma first_regular_item_specials:
  assumes "i < first_regular_item d data fr k" "i < k"
  shows "is_special d data i"
  using assms by (induction k) (auto simp: less_Suc_eq split: if_splits)

lemma first_regular_item_regular:
  assumes "first_regular_item d data fr k \<noteq> fr" "k \<le> fr"
  shows "\<not> is_special d data (first_regular_item d data fr k)"
  using assms by (induction k) (auto simp: min_def split: if_splits)

lemma special_value_numeral [eval_simps]:
  "special_value d data ident (numeral k) =
     (if special_item d data ident (pred_numeral k) then get_immediate d (item_at data (pred_numeral k))
      else special_value d data ident (pred_numeral k))"
  by (simp add: numeral_eq_Suc)

lemma first_regular_item_numeral [eval_simps]:
  "first_regular_item d data fr (numeral k) =
     (if is_special d data (pred_numeral k) then first_regular_item d data fr (pred_numeral k)
      else min (first_regular_item d data fr (pred_numeral k)) (pred_numeral k))"
  by (simp add: numeral_eq_Suc)

lemma drop_pointers:
  assumes "fr \<le> k"
  shows "drop ((k - fr) * 8) (drop (8 + fr * 8) data) = drop (8 + k * 8) data"
proof -
  have "(k - fr) * 8 + (8 + fr * 8) = 8 + k * 8" using assms by simp
  then show ?thesis by (simp only: drop_drop)
qed

text \<open>The whole function on a buffer whose header decodes.\<close>

lemma decode_packet_eval:
  assumes "8 \<le> length data" "decode_header data = Some (n, k)"
  shows "let d = make_pointer_decoder n; v = (\<lambda>i. special_value d data i k);
             fr = first_regular_item d data k k; sz = 8 + k * 8 + nat (v PAYLOAD_LENGTH_ID)
         in decode_packet data =
           (if 8 + k * 8 \<le> length data \<and> v HEAP_CNT_ID \<noteq> - 1 \<and> v PAYLOAD_OFFSET_ID \<noteq> - 1 \<and>
               v PAYLOAD_LENGTH_ID \<noteq> - 1 \<and> sz \<le> length data \<and>
               (0 \<le> v HEAP_LENGTH_ID \<longrightarrow>
                  v PAYLOAD_OFFSET_ID + v PAYLOAD_LENGTH_ID \<le> v HEAP_LENGTH_ID)
            then Some (\<lparr>ph_heap_address_bits = n, ph_n_items = k - fr,
                        ph_heap_cnt = v HEAP_CNT_ID, ph_heap_length = v HEAP_LENGTH_ID,
                        ph_payload_offset = v PAYLOAD_OFFSET_ID,
                        ph_payload_length = v PAYLOAD_LENGTH_ID,
                        ph_pointers = drop (8 + fr * 8) data,
                        ph_payload = drop (8 + k * 8) data\<rparr>, sz)
            else None)"
proof -
  let ?d = "make_pointer_decoder n"
  let ?out = "specials_at ?d data k (no_specials n k)" and ?fr = "first_regular_item ?d data k k"
  have fr: "?fr \<le> k" by (rule first_regular_item_le) simp
  have "decode_packet data =
      (if k * 8 + 8 > length data then None
       else if ph_heap_cnt ?out = - 1 \<or> ph_payload_offset ?out = - 1 \<or> ph_payload_length ?out = - 1
         then None
       else if nat (ph_payload_length ?out) + k * 8 + 8 > length data then None
       else if ph_heap_length ?out \<ge> 0
         \<and> ph_payload_offset ?out + ph_payload_length ?out > ph_heap_length ?out then None
       else Some (?out\<lparr>ph_pointers := drop (8 + ?fr * 8) data, ph_n_items := k - ?fr,
              ph_payload := drop (8 + k * 8) data\<rparr>, nat (ph_payload_length ?out) + k * 8 + 8))"
    unfolding decode_packet_def
    using assms drop_pointers [OF fr, of data]
    by (simp add: fold_decode_item item_pointer_size_def Let_def)
  then show ?thesis
    by (simp add: specials_at_def no_specials_def Let_def not_less not_le add.commute)
qed

section \<open>Properties\<close>

text \<open>A packet of one item that carries a complete heap of three bytes.\<close>

definition example_packet :: "byte list" where
  "example_packet =
     [0x53, 0x04, 0x03, 0x05, 0, 0, 0, 5,
      0x80, 0, 1, 0, 0, 0, 0, 7,
      0x80, 0, 2, 0, 0, 0, 0, 3,
      0x80, 0, 3, 0, 0, 0, 0, 0,
      0x80, 0, 4, 0, 0, 0, 0, 3,
      0x00, 0x10, 0, 0, 0, 0, 0, 0,
      0xaa, 0xbb, 0xcc]"

definition example_header :: packet_header where
  "example_header =
     \<lparr>ph_heap_address_bits = 40, ph_n_items = 1, ph_heap_cnt = 7, ph_heap_length = 3,
      ph_payload_offset = 0, ph_payload_length = 3,
      ph_pointers = [0, 0x10, 0, 0, 0, 0, 0, 0, 0xaa, 0xbb, 0xcc],
      ph_payload = [0xaa, 0xbb, 0xcc]\<rparr>"

declare item_pointer_size_def [eval_simps] item_id_defs [eval_simps] magic_version_def [eval_simps]
  is_immediate_nat [eval_simps] get_address_nat [eval_simps] get_id_nat [eval_simps]
  get_immediate_def [eval_simps] item_at_def [eval_simps] extract_bits_def [eval_simps]
  decode_header_def [eval_simps] decode_item_def [eval_simps] no_specials_def [eval_simps]
  decode_packet_def [eval_simps]

lemma example_decode: "decode_packet example_packet = Some (example_header, 51)"
  by (simp add: eval_simps example_packet_def example_header_def)

text \<open>
  C7: A packet that \<^verbatim>\<open>decode_packet\<close> accepts is well formed: the item pointers and the
  payload it refers to lie inside the buffer, one after the other, the reported size
  covers exactly header, items and payload, and the four special values are within
  the address field, so that offset plus length cannot overflow.
\<close>

theorem decode_packet_sound:
  assumes "decode_packet data = Some (p, sz)"
  shows "wf_packet p \<and> 8 \<le> sz \<and> sz \<le> length data \<and>
    (\<exists>k fr. fr \<le> k \<and> ph_n_items p = k - fr \<and> sz = 8 + k * 8 + nat (ph_payload_length p) \<and>
       ph_pointers p = drop (8 + fr * 8) data \<and> ph_payload p = drop (8 + k * 8) data)"
proof -
  from assms obtain n k out fr where
    sz: "decode_header data = Some (n, k)" "k * 8 + 8 \<le> length data"
      "sz = nat (ph_payload_length out) + k * 8 + 8"
    and fold: "fold (decode_item (make_pointer_decoder n) data) [0..<k] (no_specials n k, k)
      = (out, fr)"
    and p: "p = out\<lparr>ph_pointers := drop (8 + fr * 8) data, ph_n_items := k - fr,
       ph_payload := drop ((k - fr) * 8) (drop (8 + fr * 8) data)\<rparr>"
    by (rule decode_packet_SomeE)
  have "fr \<le> k" using fold first_regular_item_le [of k k] by (auto simp: fold_decode_item)
  then have "fr \<le> k \<and> ph_n_items p = k - fr \<and> sz = 8 + k * 8 + nat (ph_payload_length p) \<and>
       ph_pointers p = drop (8 + fr * 8) data \<and> ph_payload p = drop (8 + k * 8) data"
    using drop_pointers [OF \<open>fr \<le> k\<close>, of data] sz(3) by (simp only: p) simp
  then show ?thesis using decode_packet_result [OF assms] by blast
qed

theorem decode_packet_sound_witness:
  "wf_packet example_header \<and> (51 :: nat) \<le> length example_packet"
  using decode_packet_sound [OF example_decode] by blast



end
