(* ===== verification/PayloadRanges.thy ===== *)
theory PayloadRanges
  imports Prelude
begin

text \<open>
  The record of received payload of a live heap: \<^verbatim>\<open>live_heap::payload_ranges\<close> and
  \<^verbatim>\<open>live_heap::add_payload_range\<close> of \<^verbatim>\<open>recv_live_heap.cpp\<close>.  The \<^verbatim>\<open>std::map\<close> from
  the start of a range to its end is the list of its entries in key order.

  The interface \<open>range_tracker\<close> says what the live heap relies on: an accepted range
  is disjoint from everything seen before and is added to it, a rejected one changes
  nothing, and the total length counts the bytes covered.
\<close>

section \<open>Definitions\<close>

type_synonym ranges = "(s_item_pointer_t \<times> s_item_pointer_t) list"

text \<open>
  \<^verbatim>\<open>upper_bound\<close> splits the map at the first key above \<open>k\<close>: the iterator \<^verbatim>\<open>next\<close> is
  the second list, \<^verbatim>\<open>std::prev(next)\<close> the last entry of the first.
\<close>

definition upper_bound :: "s_item_pointer_t \<Rightarrow> ranges \<Rightarrow> ranges \<times> ranges" where
  "upper_bound k m = (takeWhile (\<lambda>r. fst r \<le> k) m, dropWhile (\<lambda>r. fst r \<le> k) m)"

text \<open>
  The entry that \<^verbatim>\<open>ptr\<close> designates is in both accepting branches the last one of the
  part below \<^verbatim>\<open>next\<close>; that part, with the new or extended entry, is what the inner
  conditional computes.
\<close>

definition add_payload_range ::
  "s_item_pointer_t \<Rightarrow> s_item_pointer_t \<Rightarrow> ranges \<Rightarrow> bool \<times> ranges" where
  "add_payload_range first last' m =
     (let (below, next) = upper_bound first m in
      if next \<noteq> [] \<and> fst (hd next) < last' then (False, m)
      else
        (case (if below = [] \<or> snd (last below) < first then Some (below @ [(first, last')])
               else if snd (last below) = first
                 then Some (butlast below @ [(fst (last below), last')])
               else None) of
           None \<Rightarrow> (False, m)
         | Some below' \<Rightarrow>
             if next \<noteq> [] \<and> fst (hd next) = last'
             then (True, butlast below' @ (fst (last below'), snd (hd next)) # tl next)
             else (True, below' @ next)))"

text \<open>Entries are in order and separated by a gap, all above \<open>lo\<close>.\<close>

fun ranges_ok :: "int \<Rightarrow> ranges \<Rightarrow> bool" where
  "ranges_ok lo [] \<longleftrightarrow> True"
| "ranges_ok lo (r # rs) \<longleftrightarrow> lo < fst r \<and> fst r \<le> snd r \<and> ranges_ok (snd r) rs"

fun covered :: "ranges \<Rightarrow> int set" where
  "covered [] = {}"
| "covered (r # rs) = {fst r..<snd r} \<union> covered rs"

fun ranges_total :: "ranges \<Rightarrow> int" where
  "ranges_total [] = 0"
| "ranges_total (r # rs) = (snd r - fst r) + ranges_total rs"

text \<open>The end of the last entry, or \<open>lo\<close>.\<close>

fun ranges_end :: "int \<Rightarrow> ranges \<Rightarrow> int" where
  "ranges_end lo [] = lo"
| "ranges_end lo (r # rs) = ranges_end (snd r) rs"

section \<open>The interface\<close>

locale range_tracker =
  fixes empty :: 'r
    and add :: "int \<Rightarrow> int \<Rightarrow> 'r \<Rightarrow> bool \<times> 'r"
    and inv :: "'r \<Rightarrow> bool"
    and cov :: "'r \<Rightarrow> int set"
    and total :: "'r \<Rightarrow> int"
  assumes inv_empty: "inv empty"
    and cov_empty: "cov empty = {}"
    and accept: "inv r \<Longrightarrow> 0 \<le> a \<Longrightarrow> a \<le> b \<Longrightarrow> add a b r = (True, r') \<Longrightarrow>
      inv r' \<and> cov r' = cov r \<union> {a..<b} \<and> cov r \<inter> {a..<b} = {}"
    and reject: "add a b r = (False, r') \<Longrightarrow> r' = r"
    and accept_empty: "0 \<le> a \<Longrightarrow> a \<le> b \<Longrightarrow> fst (add a b empty)"
    and finite_cov: "inv r \<Longrightarrow> finite (cov r)"
    and total_card: "inv r \<Longrightarrow> total r = int (card (cov r))"
begin

lemma inv_add: "inv r \<Longrightarrow> 0 \<le> a \<Longrightarrow> a \<le> b \<Longrightarrow> inv (snd (add a b r))"
proof -
  assume r: "inv r" "0 \<le> a" "a \<le> b"
  obtain ok r' where add: "add a b r = (ok, r')" by fastforce
  show ?thesis
  proof (cases ok)
    case True
    with accept [OF r] add show ?thesis by simp
  next
    case False
    with reject add r show ?thesis by auto
  qed
qed

lemma total_accept:
  assumes "inv r" "0 \<le> a" "a \<le> b" "add a b r = (True, r')"
  shows "total r' = total r + (b - a)"
proof -
  note acc = accept [OF assms]
  have "card (cov r \<union> {a..<b}) = card (cov r) + card {a..<b}"
    using acc by (intro card_Un_disjoint) (simp_all add: finite_cov assms(1))
  then show ?thesis
    using acc assms(1,3) by (simp add: total_card)
qed

text \<open>
  The argument behind \<^verbatim>\<open>is_contiguous\<close>: if the covered bytes lie below \<open>n\<close> and there
  are \<open>n\<close> of them, then all of them are covered.
\<close>

lemma full_coverage:
  assumes "inv r" "cov r \<subseteq> {0..<n}" "total r = n"
  shows "cov r = {0..<n}"
proof (rule card_subset_eq)
  show "card (cov r) = card {0..<n}"
    using assms total_card [OF assms(1)] by simp
qed (use assms in simp_all)

end

section \<open>Lemmas on ranges\<close>

lemma ranges_ok_append:
  "ranges_ok lo (xs @ ys) \<longleftrightarrow> ranges_ok lo xs \<and> ranges_ok (ranges_end lo xs) ys"
  by (induction xs arbitrary: lo) auto

lemma covered_append [simp]: "covered (xs @ ys) = covered xs \<union> covered ys"
  by (induction xs) auto

lemma ranges_end_append [simp]: "ranges_end lo (xs @ ys) = ranges_end (ranges_end lo xs) ys"
  by (induction xs arbitrary: lo) auto

lemma ranges_end_last: "xs \<noteq> [] \<Longrightarrow> ranges_end lo xs = snd (last xs)"
  by (induction xs arbitrary: lo) auto

lemma ranges_ok_mono: "ranges_ok lo xs \<Longrightarrow> lo' \<le> lo \<Longrightarrow> ranges_ok lo' xs"
  by (cases xs) auto

lemma ranges_ok_end: "ranges_ok lo xs \<Longrightarrow> lo \<le> ranges_end lo xs"
proof (induction xs arbitrary: lo)
  case (Cons r xs)
  then have "lo < fst r" "fst r \<le> snd r" "snd r \<le> ranges_end (snd r) xs" by auto
  then show ?case by simp
qed simp

lemma covered_bounds: "ranges_ok lo xs \<Longrightarrow> covered xs \<subseteq> {lo<..<ranges_end lo xs}"
proof (induction xs arbitrary: lo)
  case (Cons r xs)
  then have "covered xs \<subseteq> {snd r<..<ranges_end (snd r) xs}" "snd r \<le> ranges_end (snd r) xs"
    by (auto intro: ranges_ok_end)
  with Cons.prems show ?case by fastforce
qed simp

lemma finite_covered [simp]: "finite (covered rs)"
  by (induction rs) auto

lemma ranges_total_card: "ranges_ok lo rs \<Longrightarrow> ranges_total rs = int (card (covered rs))"
proof (induction rs arbitrary: lo)
  case (Cons r rs)
  then have "covered rs \<subseteq> {snd r<..<ranges_end (snd r) rs}"
    by (intro covered_bounds) simp
  then have "{fst r..<snd r} \<inter> covered rs = {}" by fastforce
  then have "card (covered (r # rs)) = card {fst r..<snd r} + card (covered rs)"
    by (simp add: card_Un_disjoint)
  with Cons.IH [of "snd r"] Cons.prems show ?case by simp
qed simp

lemma ranges_total_append [simp]: "ranges_total (xs @ ys) = ranges_total xs + ranges_total ys"
  by (induction xs) auto

lemma ranges_ok_memD:
  assumes "ranges_ok lo rs" "r \<in> set rs"
  shows "lo < fst r \<and> fst r \<le> snd r \<and> snd r \<le> ranges_end lo rs"
  using assms
proof (induction rs arbitrary: lo)
  case (Cons q rs)
  then have q: "lo < fst q" "fst q \<le> snd q" "ranges_ok (snd q) rs" by auto
  show ?case
  proof (cases "r = q")
    case True
    with q ranges_ok_end [OF q(3)] show ?thesis by simp
  next
    case False
    with Cons q have "snd q < fst r \<and> fst r \<le> snd r \<and> snd r \<le> ranges_end (snd q) rs" by auto
    with q show ?thesis by simp
  qed
qed simp

text \<open>The two halves that \<^verbatim>\<open>upper_bound\<close> returns.\<close>

lemma upper_bound_split:
  assumes "upper_bound k m = (below, nxt)" "ranges_ok lo m"
  shows "m = below @ nxt" "ranges_ok lo below" "ranges_ok (ranges_end lo below) nxt"
    and "below \<noteq> [] \<Longrightarrow> fst (last below) \<le> k" and "nxt \<noteq> [] \<Longrightarrow> k < fst (hd nxt)"
proof -
  show m: "m = below @ nxt" using assms(1) by (auto simp: upper_bound_def)
  show "ranges_ok lo below" "ranges_ok (ranges_end lo below) nxt"
    using assms(2) by (simp_all add: m ranges_ok_append)
  show "fst (last below) \<le> k" if "below \<noteq> []"
  proof -
    have "last below \<in> set (takeWhile (\<lambda>r. fst r \<le> k) m)"
      using that assms(1) by (auto simp: upper_bound_def)
    then show ?thesis by (rule set_takeWhileD [THEN conjunct2])
  qed
  show "k < fst (hd nxt)" if "nxt \<noteq> []"
    using that assms(1) hd_dropWhile [of "\<lambda>r. fst r \<le> k" m]
    by (auto simp: upper_bound_def)
qed

section \<open>Adding a range\<close>

text \<open>
  After an accepting branch the part below is a well-formed map that ends exactly at
  the end of the new range; joining it with the part above, merged or not, is the same
  for both branches.
\<close>

lemma join_next:
  assumes "ranges_ok lo below'" "below' \<noteq> []" "snd (last below') = l"
    and "ranges_ok l' nxt" "nxt \<noteq> [] \<Longrightarrow> l \<le> fst (hd nxt)"
  defines "res \<equiv> (if nxt \<noteq> [] \<and> fst (hd nxt) = l
    then butlast below' @ (fst (last below'), snd (hd nxt)) # tl nxt else below' @ nxt)"
  shows "ranges_ok lo res" "covered res = covered below' \<union> covered nxt"
proof -
  obtain bs a where b: "below' = bs @ [(a, l)]"
    using assms(2,3) by (metis append_butlast_last_id prod.collapse)
  with assms(1) have bs: "ranges_ok lo bs" "ranges_end lo bs < a" "a \<le> l"
    by (auto simp: ranges_ok_append)
  show "ranges_ok lo res"
  proof (cases nxt)
    case Nil
    then show ?thesis using assms(1) by (simp add: res_def)
  next
    case (Cons r rs)
    then show ?thesis
      using bs assms(4,5) by (auto simp: res_def b ranges_ok_append)
  qed
  show "covered res = covered below' \<union> covered nxt"
  proof (cases nxt)
    case Nil
    then show ?thesis by (simp add: res_def)
  next
    case (Cons r rs)
    have "{a..<snd r} = {a..<l} \<union> {fst r..<snd r}" if "fst r = l"
      using bs(3) assms(4) Cons that by auto
    then show ?thesis by (auto simp: res_def b Cons)
  qed
qed

lemma add_payload_range_acceptE:
  assumes ok: "ranges_ok (- 1) m" and add: "add_payload_range a b m = (True, m')" and "0 \<le> a"
  obtains below nxt below' where
    "upper_bound a m = (below, nxt)"
    "below' = below @ [(a, b)] \<and> ranges_end (- 1) below < a \<or>
     below' = butlast below @ [(fst (last below), b)] \<and> below \<noteq> [] \<and> ranges_end (- 1) below = a"
    "nxt \<noteq> [] \<longrightarrow> b \<le> fst (hd nxt)"
    "m' = (if nxt \<noteq> [] \<and> fst (hd nxt) = b
       then butlast below' @ (fst (last below'), snd (hd nxt)) # tl nxt else below' @ nxt)"
proof -
  obtain below nxt where ub: "upper_bound a m = (below, nxt)" by fastforce
  define below' where "below' = (if below = [] \<or> snd (last below) < a then below @ [(a, b)]
    else butlast below @ [(fst (last below), b)])"
  have cond: "below = [] \<or> snd (last below) \<le> a"
    using add by (auto simp: add_payload_range_def ub split: if_splits)
  have nxt: "nxt \<noteq> [] \<longrightarrow> b \<le> fst (hd nxt)"
    using add by (auto simp: add_payload_range_def ub not_less split: if_splits)
  have m': "m' = (if nxt \<noteq> [] \<and> fst (hd nxt) = b
      then butlast below' @ (fst (last below'), snd (hd nxt)) # tl nxt else below' @ nxt)"
    using add unfolding below'_def
    by (cases "below = [] \<or> snd (last below) < a"; cases "nxt \<noteq> [] \<and> fst (hd nxt) = b")
      (auto simp: add_payload_range_def ub split: if_splits)
  have "below' = below @ [(a, b)] \<and> ranges_end (- 1) below < a \<or>
     below' = butlast below @ [(fst (last below), b)] \<and> below \<noteq> [] \<and> ranges_end (- 1) below = a"
    using cond \<open>0 \<le> a\<close> by (cases "below = []") (auto simp: below'_def ranges_end_last)
  from that [OF ub this nxt m'] show ?thesis .
qed

lemma add_payload_range_accept:
  assumes ok: "ranges_ok (- 1) m" and "0 \<le> a" "a \<le> b"
    and add: "add_payload_range a b m = (True, m')"
  shows "ranges_ok (- 1) m' \<and> covered m' = covered m \<union> {a..<b} \<and> covered m \<inter> {a..<b} = {}"
proof -
  from ok add assms(2) obtain below nxt below' where
    ub: "upper_bound a m = (below, nxt)"
    and below': "below' = below @ [(a, b)] \<and> ranges_end (- 1) below < a \<or>
     below' = butlast below @ [(fst (last below), b)] \<and> below \<noteq> [] \<and> ranges_end (- 1) below = a"
    and nxt: "nxt \<noteq> [] \<longrightarrow> b \<le> fst (hd nxt)"
    and m': "m' = (if nxt \<noteq> [] \<and> fst (hd nxt) = b
       then butlast below' @ (fst (last below'), snd (hd nxt)) # tl nxt else below' @ nxt)"
    by (rule add_payload_range_acceptE)
  note sp = upper_bound_split [OF ub ok]
  let ?e = "ranges_end (- 1) below"
  have end_le: "?e \<le> a" using below' by auto
  have part: "ranges_ok (- 1) below' \<and> covered below' = covered below \<union> {a..<b}"
  proof (cases "below' = below @ [(a, b)] \<and> ?e < a")
    case True
    then show ?thesis using sp(2) assms(3) by (simp add: ranges_ok_append)
  next
    case False
    then have *: "below' = butlast below @ [(fst (last below), b)]" "below \<noteq> []" "?e = a"
      using below' by auto
    then obtain bs c where c: "below = bs @ [(c, a)]"
      by (metis append_butlast_last_id prod.collapse ranges_end_last)
    then show ?thesis using * sp(2) assms(3) by (auto simp: ranges_ok_append)
  qed
  have last': "below' \<noteq> []" "snd (last below') = b" using below' by auto
  have join: "ranges_ok (- 1) m'" "covered m' = covered below' \<union> covered nxt"
    unfolding m'
    by (rule join_next [OF part [THEN conjunct1] last' sp(3)], use nxt in simp)+
  have "covered below \<inter> {a..<b} = {}"
    using covered_bounds [OF sp(2)] end_le by fastforce
  moreover have "covered nxt \<inter> {a..<b} = {}"
  proof (cases nxt)
    case (Cons r rs)
    have "ranges_ok (fst r - 1) nxt" using sp(3) by (simp add: Cons)
    then have "covered nxt \<subseteq> {fst r - 1<..}"
      using covered_bounds by fastforce
    with nxt show ?thesis by (fastforce simp: Cons)
  qed simp
  ultimately show ?thesis using join part sp(1) by auto
qed

lemma add_payload_range_reject: "add_payload_range a b m = (False, m') \<Longrightarrow> m' = m"
  by (auto simp: add_payload_range_def Let_def split: prod.splits if_splits option.splits)

lemma add_payload_range_empty: "fst (add_payload_range a b [])"
  by (simp add: add_payload_range_def upper_bound_def)

interpretation payload_ranges: range_tracker "[]" add_payload_range "ranges_ok (- 1)" covered ranges_total
  by unfold_locales
    (simp_all add: add_payload_range_accept add_payload_range_reject add_payload_range_empty
      ranges_total_card)

section \<open>When a range is rejected\<close>

text \<open>
  As long as every range so far is non-empty, the test is exact: a non-empty range is
  accepted if and only if none of its bytes has been seen.
\<close>

lemma covered_memI: "r \<in> set rs \<Longrightarrow> {fst r..<snd r} \<subseteq> covered rs"
  by (induction rs) auto

lemma add_payload_range_exact:
  assumes ok: "ranges_ok (- 1) m" and "0 \<le> a" "a < b"
    and nonempty: "\<And>r. r \<in> set m \<Longrightarrow> fst r < snd r"
  shows "fst (add_payload_range a b m) \<longleftrightarrow> covered m \<inter> {a..<b} = {}"
proof
  assume "fst (add_payload_range a b m)"
  then show "covered m \<inter> {a..<b} = {}"
    using add_payload_range_accept [OF ok assms(2) less_imp_le [OF assms(3)]]
    by (metis prod.collapse)
next
  assume disj: "covered m \<inter> {a..<b} = {}"
  obtain below nxt where ub: "upper_bound a m = (below, nxt)" by fastforce
  note sp = upper_bound_split [OF ub ok]
  have "\<not> fst (hd nxt) < b" if "nxt \<noteq> []"
  proof
    assume "fst (hd nxt) < b"
    moreover have "hd nxt \<in> set m" using that sp(1) by auto
    ultimately have "fst (hd nxt) \<in> covered m \<inter> {a..<b}"
      using covered_memI nonempty sp(5) [OF that] by fastforce
    with disj show False by simp
  qed
  moreover have "snd (last below) \<le> a" if "below \<noteq> []"
  proof (rule ccontr)
    assume "\<not> snd (last below) \<le> a"
    moreover have "last below \<in> set m" using that sp(1) by auto
    ultimately have "a \<in> covered m \<inter> {a..<b}"
      using covered_memI sp(4) [OF that] assms(3) by fastforce
    with disj show False by simp
  qed
  ultimately show "fst (add_payload_range a b m)"
    by (cases "below = []") (auto simp: add_payload_range_def ub)
qed

lemma add_payload_range_nonempty:
  assumes ok: "ranges_ok (- 1) m" and "0 \<le> a" "a < b" and m: "\<forall>r \<in> set m. fst r < snd r"
    and add: "add_payload_range a b m = (True, m')"
  shows "\<forall>r \<in> set m'. fst r < snd r"
proof -
  from ok add assms(2) obtain below nxt below' where
    ub: "upper_bound a m = (below, nxt)"
    and below': "below' = below @ [(a, b)] \<and> ranges_end (- 1) below < a \<or>
     below' = butlast below @ [(fst (last below), b)] \<and> below \<noteq> [] \<and> ranges_end (- 1) below = a"
    and nxt: "nxt \<noteq> [] \<longrightarrow> b \<le> fst (hd nxt)"
    and m': "m' = (if nxt \<noteq> [] \<and> fst (hd nxt) = b
       then butlast below' @ (fst (last below'), snd (hd nxt)) # tl nxt else below' @ nxt)"
    by (rule add_payload_range_acceptE)
  note sp = upper_bound_split [OF ub ok]
  have below: "\<forall>r \<in> set below. fst r < snd r" and above: "\<forall>r \<in> set nxt. fst r < snd r"
    using m sp(1) by auto
  then have butlast: "\<forall>r \<in> set (butlast below). fst r < snd r"
    by (meson in_set_butlastD)
  have part: "\<forall>r \<in> set below'. fst r < snd r"
    using below' below butlast sp(4) assms(3) by auto
  have last': "below' \<noteq> []" "snd (last below') = b" using below' by auto
  then have fl: "fst (last below') < b" using part last_in_set [of below'] by auto
  show ?thesis
  proof (cases nxt)
    case Nil
    then show ?thesis using part by (simp add: m')
  next
    case (Cons r rs)
    then show ?thesis
      using part above fl by (auto simp: m' dest: in_set_butlastD)
  qed
qed

text \<open>Every range of the result ends where the new range or an old one ends.\<close>

lemma add_payload_range_ends:
  assumes ok: "ranges_ok (- 1) m" and "0 \<le> a"
    and add: "add_payload_range a b m = (True, m')" and r: "r \<in> set m'"
  shows "snd r = b \<or> (\<exists>q \<in> set m. snd r = snd q)"
proof -
  from ok add assms(2) obtain below nxt below' where
    ub: "upper_bound a m = (below, nxt)"
    and below': "below' = below @ [(a, b)] \<and> ranges_end (- 1) below < a \<or>
     below' = butlast below @ [(fst (last below), b)] \<and> below \<noteq> [] \<and> ranges_end (- 1) below = a"
    and nxt: "nxt \<noteq> [] \<longrightarrow> b \<le> fst (hd nxt)"
    and m': "m' = (if nxt \<noteq> [] \<and> fst (hd nxt) = b
       then butlast below' @ (fst (last below'), snd (hd nxt)) # tl nxt else below' @ nxt)"
    by (rule add_payload_range_acceptE)
  have m: "m = below @ nxt" by (rule upper_bound_split [OF ub ok])
  have part: "snd r = b \<or> r \<in> set m" if "r \<in> set below'"
    using that below' by (auto simp: m dest: in_set_butlastD)
  show ?thesis
  proof (cases nxt)
    case Nil
    then show ?thesis using part r by (auto simp: m')
  next
    case (Cons q qs)
    then show ?thesis
      using part r by (auto simp: m' m dest: in_set_butlastD split: if_splits)
  qed
qed

lemma covered_iff: "i \<in> covered rs \<longleftrightarrow> (\<exists>r \<in> set rs. fst r \<le> i \<and> i < snd r)"
  by (induction rs) auto

section \<open>Property\<close>

text \<open>
  C21: The optimised range map behaves as a set of byte offsets.  For a map of non-empty
  ranges, \<^verbatim>\<open>add_payload_range\<close> accepts a non-empty range exactly if none of its bytes was
  seen before; then the bytes seen become the union, and the map stays sorted, merged and
  free of empty ranges.  A refused range changes nothing.
\<close>

theorem add_payload_range_set:
  assumes "ranges_ok (- 1) m" "\<forall>r \<in> set m. fst r < snd r" "0 \<le> a" "a < b"
  shows "if covered m \<inter> {a..<b} = {}
    then \<exists>m'. add_payload_range a b m = (True, m') \<and> ranges_ok (- 1) m' \<and>
      (\<forall>r \<in> set m'. fst r < snd r) \<and> covered m' = covered m \<union> {a..<b} \<and>
      ranges_total m' = ranges_total m + (b - a)
    else add_payload_range a b m = (False, m)"
proof -
  obtain ok m' where add: "add_payload_range a b m = (ok, m')" by fastforce
  have exact: "ok \<longleftrightarrow> covered m \<inter> {a..<b} = {}"
    using add_payload_range_exact [OF assms(1,3,4)] assms(2) add by simp
  have le: "a \<le> b" using assms(4) by simp
  show ?thesis
  proof (cases ok)
    case True
    then have "add_payload_range a b m = (True, m')" using add by simp
    with True exact show ?thesis
      using payload_ranges.accept [OF assms(1,3) le] payload_ranges.total_accept [OF assms(1,3) le]
        add_payload_range_nonempty [OF assms(1,3,4,2)]
      by auto
  next
    case False
    then show ?thesis using exact add payload_ranges.reject by auto
  qed
qed

theorem add_payload_range_set_witness:
  "add_payload_range 5 8 [(0, 4), (6, 9)] = (False, [(0, 4), (6, 9)]) \<and>
   covered (snd (add_payload_range 4 6 [(0, 4), (6, 9)])) = {0..<9}"
proof -
  have hyp: "ranges_ok (- 1) [(0, 4), (6, 9)]" "\<forall>r \<in> set [(0 :: int, 4 :: int), (6, 9)]. fst r < snd r"
    by simp_all
  have "7 \<in> covered [(0, 4), (6, 9)] \<inter> {5..<8}" by simp
  then have "covered [(0, 4), (6, 9)] \<inter> {5..<8} \<noteq> {}" by blast
  then have "add_payload_range 5 8 [(0, 4), (6, 9)] = (False, [(0, 4), (6, 9)])"
    using add_payload_range_set [OF hyp, of 5 8] by simp
  moreover have "covered [(0, 4), (6, 9)] \<inter> {4..<6} = {}"
    "covered [(0, 4), (6, 9)] \<union> {4..<6} = {0..<9}" by auto
  ultimately show ?thesis
    using add_payload_range_set [OF hyp, of 4 6] by auto
qed

end
