(* ===== verification/Allocator.thy ===== *)
theory Allocator
  imports Prelude
begin

text \<open>
  Memory allocation.  The interface that the receiver relies on is the locale
  \<open>byte_allocator\<close>: a request for \<open>n\<close> bytes yields a block of at least \<open>n\<close> bytes.
  The default allocator of \<^verbatim>\<open>common_memory_allocator.cpp\<close> provides it; the contents
  of memory fresh from \<^verbatim>\<open>new\<close> are the parameter \<open>fresh\<close>.
\<close>

section \<open>The default allocator\<close>

text \<open>The loop of \<^verbatim>\<open>prefault\<close>, from index \<open>i\<close> on.\<close>

function prefault_from :: "nat \<Rightarrow> byte list \<Rightarrow> byte list" where
  "prefault_from i data =
     (if i < length data then prefault_from (i + 4096) (data[i := 0]) else data)"
  by pat_completeness auto
termination
  by (relation "measure (\<lambda>(i, data). length data - i)") auto

declare prefault_from.simps [simp del]

definition prefault :: "byte list \<Rightarrow> byte list" where
  "prefault data = prefault_from 0 data"

definition default_allocate :: "(nat \<Rightarrow> byte) \<Rightarrow> nat \<Rightarrow> byte list option" where
  "default_allocate fresh n = Some (prefault (map fresh [0..<n]))"

section \<open>The interface\<close>

locale byte_allocator =
  fixes alloc :: "nat \<Rightarrow> byte list option"
  assumes alloc_block: "\<exists>m. alloc n = Some m \<and> n \<le> length m"
begin

lemma alloc_cases:
  obtains m where "alloc n = Some m" "n \<le> length m"
  using alloc_block by blast

end

section \<open>The default allocator provides it\<close>

lemma length_prefault_from [simp]: "length (prefault_from i data) = length data"
proof (induction i data rule: prefault_from.induct)
  case (1 i data)
  then show ?case by (subst prefault_from.simps) simp
qed

text \<open>Only the first byte of each page is written.\<close>

lemma prefault_from_nth:
  assumes "j < length data"
  shows "prefault_from i data ! j =
    (if i \<le> j \<and> (j - i) mod 4096 = 0 then 0 else data ! j)"
  using assms
proof (induction i data rule: prefault_from.induct)
  case (1 i data)
  show ?case
  proof (cases "i < length data")
    case True
    have step: "i + 4096 \<le> j \<and> (j - (i + 4096)) mod 4096 = 0 \<longleftrightarrow>
        i \<noteq> j \<and> i \<le> j \<and> (j - i) mod 4096 = 0"
    proof (cases "i + 4096 \<le> j")
      case True
      then have "j - i = (j - (i + 4096)) + 4096" by simp
      then have "(j - i) mod 4096 = (j - (i + 4096)) mod 4096"
        by (metis mod_add_self2)
      with True show ?thesis by auto
    next
      case False
      then show ?thesis by auto
    qed
    have "prefault_from i data = prefault_from (i + 4096) (data[i := 0])"
      using True by (subst prefault_from.simps) simp
    then have "prefault_from i data ! j =
        (if i \<noteq> j \<and> i \<le> j \<and> (j - i) mod 4096 = 0 then 0 else data[i := 0] ! j)"
      using "1.IH" [OF True] "1.prems" by (simp only: length_list_update step)
    then show ?thesis
      using "1.prems" by (cases "i = j") auto
  next
    case False
    with "1.prems" show ?thesis by (subst prefault_from.simps) simp
  qed
qed

lemma length_prefault [simp]: "length (prefault data) = length data"
  by (simp add: prefault_def)

lemma prefault_nth:
  "j < length data \<Longrightarrow> prefault data ! j = (if j mod 4096 = 0 then 0 else data ! j)"
  by (simp add: prefault_def prefault_from_nth)

interpretation default_allocator: byte_allocator "default_allocate fresh" for fresh
  by unfold_locales (simp add: default_allocate_def)

end
