(* ===== verification/LiveHeap.thy ===== *)
theory LiveHeap
  imports RecvPacket PayloadRanges Allocator
begin

text \<open>
  A heap in the process of being received: \<^verbatim>\<open>recv_live_heap.h\<close> and
  \<^verbatim>\<open>recv_live_heap.cpp\<close>.  The memory allocator and the packet copy function are
  arguments, as they are in the code.  The theory shows that adding packets never
  faults, that a live heap is at all times the partial payload of the packets it has
  accepted, and what its three completeness tests mean.
\<close>

section \<open>State\<close>

definition max_inline_pointers :: int where
  "max_inline_pointers = 8"

text \<open>
  \<^verbatim>\<open>inline_pointers\<close> always has eight slots, of which the first \<^verbatim>\<open>n_inline_pointers\<close>
  are in use; \<^verbatim>\<open>payload\<close> is \<open>None\<close> for a null pointer.
\<close>

record live_heap =
  lh_cnt :: s_item_pointer_t
  lh_heap_length :: s_item_pointer_t
  lh_received_length :: s_item_pointer_t
  lh_min_length :: s_item_pointer_t
  lh_decoder :: pointer_decoder
  lh_bug_compat :: bug_compat_mask
  lh_end_of_stream :: bool
  lh_n_inline_pointers :: int
  lh_payload :: "byte list option"
  lh_payload_reserved :: nat
  lh_inline_pointers :: "item_pointer_t list"
  lh_external_pointers :: "item_pointer_t list"
  lh_seen_pointers :: "item_pointer_t set"
  lh_payload_ranges :: ranges

type_synonym allocator = "nat \<Rightarrow> byte list option"
type_synonym packet_memcpy_function =
  "byte list option \<Rightarrow> packet_header \<Rightarrow> fault + byte list option"

section \<open>Operations\<close>

definition make_live_heap :: "packet_header \<Rightarrow> bug_compat_mask \<Rightarrow> live_heap" where
  "make_live_heap initial_packet bug_compat =
     \<lparr>lh_cnt = ph_heap_cnt initial_packet, lh_heap_length = - 1, lh_received_length = 0,
      lh_min_length = 0, lh_decoder = make_pointer_decoder (ph_heap_address_bits initial_packet),
      lh_bug_compat = bug_compat, lh_end_of_stream = False, lh_n_inline_pointers = 0,
      lh_payload = None, lh_payload_reserved = 0,
      lh_inline_pointers = replicate (nat max_inline_pointers) 0, lh_external_pointers = [],
      lh_seen_pointers = {}, lh_payload_ranges = []\<rparr>"

text \<open>\<^verbatim>\<open>SPEAD2_ADAPT_MEMCPY(std::memcpy, )\<close>, the default copy function.\<close>

definition std_packet_memcpy :: packet_memcpy_function where
  "std_packet_memcpy allocation packet =
     (case allocation of
        None \<Rightarrow> Inl Null_dereference
      | Some m \<Rightarrow>
          bind_result (mem_read (ph_payload packet) (nat (ph_payload_length packet))) (\<lambda>src.
          bind_result (mem_write m (nat (ph_payload_offset packet)) src) (\<lambda>m'.
          Inr (Some m'))))"

definition payload_reserve :: "allocator \<Rightarrow> nat \<Rightarrow> bool \<Rightarrow> live_heap \<Rightarrow> fault + live_heap" where
  "payload_reserve alloc n exact h =
     (if n > lh_payload_reserved h then
        (let sz = (if \<not> exact \<and> n < lh_payload_reserved h * 2
                   then lh_payload_reserved h * 2 else n);
             new_payload = alloc sz
         in bind_result
              (case (lh_payload h, new_payload) of
                 (Some old, Some new) \<Rightarrow>
                   bind_result (mem_read old (lh_payload_reserved h)) (\<lambda>src.
                   bind_result (mem_write new 0 src) (\<lambda>new'. Inr (Some new')))
               | _ \<Rightarrow> Inr new_payload)
              (\<lambda>p. Inr (h\<lparr>lh_payload := p, lh_payload_reserved := sz\<rparr>)))
      else Inr h)"

text \<open>
  The part of the loop body of \<^verbatim>\<open>add_pointers\<close> that stores a pointer not seen before:
  at most eight pointers are held inline, after that all of them move to the vector
  and the set.
\<close>

definition store_pointer :: "item_pointer_t \<Rightarrow> live_heap \<Rightarrow> live_heap" where
  "store_pointer pointer h =
     (let h1 = (if lh_n_inline_pointers h = max_inline_pointers then
                  (let held = take (nat (lh_n_inline_pointers h)) (lh_inline_pointers h) in
                   h\<lparr>lh_external_pointers := lh_external_pointers h @ held,
                     lh_seen_pointers := lh_seen_pointers h \<union> set held,
                     lh_n_inline_pointers := - 1\<rparr>)
                else h)
      in if lh_n_inline_pointers h1 \<ge> 0 then
           h1\<lparr>lh_inline_pointers :=
                (lh_inline_pointers h1)[nat (lh_n_inline_pointers h1) := pointer],
              lh_n_inline_pointers := lh_n_inline_pointers h1 + 1\<rparr>
         else
           h1\<lparr>lh_external_pointers := lh_external_pointers h1 @ [pointer],
              lh_seen_pointers := insert pointer (lh_seen_pointers h1)\<rparr>)"

definition pointer_seen :: "item_pointer_t \<Rightarrow> live_heap \<Rightarrow> bool" where
  "pointer_seen pointer h =
     (if lh_n_inline_pointers h \<ge> 0
      then pointer \<in> set (take (nat (lh_n_inline_pointers h)) (lh_inline_pointers h))
      else pointer \<in> lh_seen_pointers h)"

definition add_pointer :: "item_pointer_t \<Rightarrow> live_heap \<Rightarrow> live_heap" where
  "add_pointer pointer h =
     (let d = lh_decoder h;
          h1 = (if \<not> is_immediate d pointer
                then h\<lparr>lh_min_length := max (lh_min_length h) (get_address d pointer)\<rparr> else h);
          item_id = get_id d pointer
      in if (item_id = 0 \<or> item_id > PAYLOAD_LENGTH_ID) \<and> \<not> pointer_seen pointer h1 then
           (let h2 = store_pointer pointer h1 in
            if item_id = STREAM_CTRL_ID \<and> is_immediate d pointer
               \<and> get_immediate d pointer = ctrl_value CTRL_STREAM_STOP
            then h2\<lparr>lh_end_of_stream := True\<rparr> else h2)
         else h1)"

definition packet_pointers :: "nat \<Rightarrow> byte list \<Rightarrow> item_pointer_t list" where
  "packet_pointers n pointers =
     map (\<lambda>i. load_be64 (drop (i * item_pointer_size) pointers)) [0..<n]"

definition add_pointers :: "nat \<Rightarrow> byte list \<Rightarrow> live_heap \<Rightarrow> live_heap" where
  "add_pointers n pointers h = fold add_pointer (packet_pointers n pointers) h"

text \<open>The first part of accepting a packet: record its length and make room for its payload.\<close>

definition reserve_for_packet :: "allocator \<Rightarrow> packet_header \<Rightarrow> live_heap \<Rightarrow> fault + live_heap" where
  "reserve_for_packet alloc packet h =
     (if ph_heap_length packet \<ge> 0 then
        (if lh_heap_length h < 0 then
           (let h1 = h\<lparr>lh_heap_length := ph_heap_length packet,
                       lh_min_length := max (lh_min_length h) (ph_heap_length packet)\<rparr>
            in payload_reserve alloc (nat (lh_min_length h1)) True h1)
         else Inr h)
      else
        (let h1 = h\<lparr>lh_min_length := max (lh_min_length h)
                     (ph_payload_offset packet + ph_payload_length packet)\<rparr>
         in payload_reserve alloc (nat (lh_min_length h1)) False h1))"

definition add_packet ::
  "packet_memcpy_function \<Rightarrow> allocator \<Rightarrow> packet_header \<Rightarrow> live_heap \<Rightarrow> fault + (bool \<times> live_heap)" where
  "add_packet packet_memcpy alloc packet h =
     (if lh_cnt h \<noteq> ph_heap_cnt packet then Inl Assertion_failed
      else if lh_heap_length h \<ge> 0 \<and> ph_heap_length packet \<ge> 0
        \<and> ph_heap_length packet \<noteq> lh_heap_length h then Inr (False, h)
      else if ph_heap_length packet \<ge> 0 \<and> ph_heap_length packet < lh_min_length h
        then Inr (False, h)
      else if ph_heap_address_bits packet \<noteq> address_bits (lh_decoder h) then Inr (False, h)
      else
        (let (new_packet, ranges) = add_payload_range (ph_payload_offset packet)
               (ph_payload_offset packet + ph_payload_length packet) (lh_payload_ranges h)
         in if \<not> new_packet then Inr (False, h\<lparr>lh_payload_ranges := ranges\<rparr>)
            else
              bind_result (reserve_for_packet alloc packet (h\<lparr>lh_payload_ranges := ranges\<rparr>)) (\<lambda>h2.
              let h3 = add_pointers (ph_n_items packet) (ph_pointers packet) h2 in
              if ph_payload_length packet > 0 then
                bind_result (packet_memcpy (lh_payload h3) packet) (\<lambda>p.
                Inr (True, h3\<lparr>lh_payload := p,
                              lh_received_length := lh_received_length h3
                                + ph_payload_length packet\<rparr>))
              else Inr (True, h3))))"

definition is_complete :: "live_heap \<Rightarrow> bool" where
  "is_complete h \<longleftrightarrow>
     lh_received_length h = lh_heap_length h \<and> lh_received_length h = lh_min_length h"

definition is_contiguous :: "live_heap \<Rightarrow> bool" where
  "is_contiguous h \<longleftrightarrow> lh_received_length h = lh_min_length h"

definition is_end_of_stream :: "live_heap \<Rightarrow> bool" where
  "is_end_of_stream h \<longleftrightarrow> lh_end_of_stream h"

definition get_received_length :: "live_heap \<Rightarrow> s_item_pointer_t" where
  "get_received_length h = lh_received_length h"

definition get_heap_length :: "live_heap \<Rightarrow> s_item_pointer_t" where
  "get_heap_length h = lh_heap_length h"

text \<open>The pointers from \<^verbatim>\<open>pointers_begin()\<close> to \<^verbatim>\<open>pointers_end()\<close>.\<close>

definition lh_pointers :: "live_heap \<Rightarrow> item_pointer_t list" where
  "lh_pointers h =
     (if lh_n_inline_pointers h \<ge> 0
      then take (nat (lh_n_inline_pointers h)) (lh_inline_pointers h)
      else lh_external_pointers h)"

definition reset :: "live_heap \<Rightarrow> live_heap" where
  "reset h = h\<lparr>lh_heap_length := - 1, lh_received_length := 0, lh_min_length := 0,
     lh_end_of_stream := False, lh_payload := None, lh_payload_reserved := 0,
     lh_n_inline_pointers := 0, lh_external_pointers := [], lh_seen_pointers := {},
     lh_payload_ranges := []\<rparr>"

section \<open>Specification\<close>

text \<open>
  The abstract live heap: the payload bytes known so far, as a partial map from
  offsets, and the item pointers, as a list without duplicates.
\<close>

definition lh_data :: "live_heap \<Rightarrow> int \<rightharpoonup> byte" where
  "lh_data h i =
     (if i \<in> covered (lh_payload_ranges h)
      then map_option (\<lambda>m. m ! nat i) (lh_payload h) else None)"

definition packet_data :: "packet_header \<Rightarrow> int \<rightharpoonup> byte" where
  "packet_data p i =
     (if ph_payload_offset p \<le> i \<and> i < ph_payload_offset p + ph_payload_length p
      then Some (ph_payload p ! nat (i - ph_payload_offset p)) else None)"

definition regular_pointer :: "pointer_decoder \<Rightarrow> item_pointer_t \<Rightarrow> bool" where
  "regular_pointer d p \<longleftrightarrow> get_id d p = 0 \<or> get_id d p > PAYLOAD_LENGTH_ID"

definition stop_pointer :: "pointer_decoder \<Rightarrow> item_pointer_t \<Rightarrow> bool" where
  "stop_pointer d p \<longleftrightarrow> get_id d p = STREAM_CTRL_ID \<and> is_immediate d p
     \<and> get_immediate d p = ctrl_value CTRL_STREAM_STOP"

text \<open>Reference for the two-way pointer storage: append what is regular and new.\<close>

definition note_pointer ::
  "pointer_decoder \<Rightarrow> item_pointer_t \<Rightarrow> item_pointer_t list \<Rightarrow> item_pointer_t list" where
  "note_pointer d p ps = (if regular_pointer d p \<and> p \<notin> set ps then ps @ [p] else ps)"

text \<open>The invariant, in three parts: pointers, lengths, memory.\<close>

definition pointers_inv :: "live_heap \<Rightarrow> bool" where
  "pointers_inv h \<longleftrightarrow>
     length (lh_inline_pointers h) = 8 \<and>
     - 1 \<le> lh_n_inline_pointers h \<and> lh_n_inline_pointers h \<le> 8 \<and>
     (0 \<le> lh_n_inline_pointers h \<longrightarrow> lh_external_pointers h = [] \<and> lh_seen_pointers h = {}) \<and>
     (lh_n_inline_pointers h < 0 \<longrightarrow> lh_seen_pointers h = set (lh_external_pointers h)) \<and>
     distinct (lh_pointers h)"

definition items_inv :: "live_heap \<Rightarrow> bool" where
  "items_inv h \<longleftrightarrow>
     (\<forall>p \<in> set (lh_pointers h). regular_pointer (lh_decoder h) p \<and>
        (\<not> is_immediate (lh_decoder h) p \<longrightarrow> get_address (lh_decoder h) p \<le> lh_min_length h)) \<and>
     (lh_end_of_stream h \<longleftrightarrow> (\<exists>p \<in> set (lh_pointers h). stop_pointer (lh_decoder h) p))"

definition lengths_inv :: "live_heap \<Rightarrow> bool" where
  "lengths_inv h \<longleftrightarrow>
     ranges_ok (- 1) (lh_payload_ranges h) \<and>
     (\<forall>r \<in> set (lh_payload_ranges h).
        snd r \<le> lh_min_length h \<and> snd r \<le> int (lh_payload_reserved h)) \<and>
     lh_received_length h = ranges_total (lh_payload_ranges h) \<and>
     - 1 \<le> lh_heap_length h \<and> lh_heap_length h \<le> lh_min_length h \<and>
     lh_heap_length h \<le> int (lh_payload_reserved h) \<and>
     0 \<le> lh_min_length h \<and> lh_min_length h < 2 ^ 57"

definition memory_inv :: "live_heap \<Rightarrow> bool" where
  "memory_inv h \<longleftrightarrow>
     (case lh_payload h of
        None \<Rightarrow> lh_payload_reserved h = 0
      | Some m \<Rightarrow> lh_payload_reserved h \<le> length m)"

definition lh_inv :: "live_heap \<Rightarrow> bool" where
  "lh_inv h \<longleftrightarrow>
     wf_bits (address_bits (lh_decoder h)) \<and>
     lh_decoder h = make_pointer_decoder (address_bits (lh_decoder h)) \<and>
     0 \<le> lh_cnt h \<and> pointers_inv h \<and> items_inv h \<and> lengths_inv h \<and> memory_inv h"

section \<open>Pointers\<close>

lemma pointer_seen_iff: "pointers_inv h \<Longrightarrow> pointer_seen p h \<longleftrightarrow> p \<in> set (lh_pointers h)"
  by (auto simp: pointer_seen_def pointers_inv_def lh_pointers_def)

lemma store_pointer_inv:
  assumes inv: "pointers_inv h" and new: "p \<notin> set (lh_pointers h)"
  shows "pointers_inv (store_pointer p h)" "lh_pointers (store_pointer p h) = lh_pointers h @ [p]"
proof -
  let ?n = "lh_n_inline_pointers h" and ?xs = "lh_inline_pointers h"
  from inv have len: "length ?xs = 8" and n: "- 1 \<le> ?n" "?n \<le> 8"
    by (simp_all add: pointers_inv_def)
  consider (inline) "0 \<le> ?n" "?n < 8" | (full) "?n = 8" | (ext) "?n = - 1"
    using n by linarith
  then have "pointers_inv (store_pointer p h) \<and>
      lh_pointers (store_pointer p h) = lh_pointers h @ [p]"
  proof cases
    case inline
    then have "nat (?n + 1) = Suc (nat ?n)" by simp
    moreover have "take (Suc (nat ?n)) (?xs[nat ?n := p]) = take (nat ?n) ?xs @ [p]"
      using inline len by (simp add: take_Suc_conv_app_nth)
    ultimately show ?thesis
      using inline inv new
      by (auto simp: store_pointer_def Let_def max_inline_pointers_def pointers_inv_def lh_pointers_def)
  next
    case full
    then show ?thesis
      using inv new
      by (auto simp: store_pointer_def Let_def max_inline_pointers_def pointers_inv_def lh_pointers_def)
  next
    case ext
    then show ?thesis
      using inv new
      by (auto simp: store_pointer_def Let_def max_inline_pointers_def pointers_inv_def lh_pointers_def)
  qed
  then show "pointers_inv (store_pointer p h)"
    "lh_pointers (store_pointer p h) = lh_pointers h @ [p]" by simp_all
qed

text \<open>Storing a pointer touches nothing but the pointer storage.\<close>

lemma store_pointer_frame [simp]:
  "lh_cnt (store_pointer p h) = lh_cnt h"
  "lh_heap_length (store_pointer p h) = lh_heap_length h"
  "lh_received_length (store_pointer p h) = lh_received_length h"
  "lh_min_length (store_pointer p h) = lh_min_length h"
  "lh_decoder (store_pointer p h) = lh_decoder h"
  "lh_bug_compat (store_pointer p h) = lh_bug_compat h"
  "lh_end_of_stream (store_pointer p h) = lh_end_of_stream h"
  "lh_payload (store_pointer p h) = lh_payload h"
  "lh_payload_reserved (store_pointer p h) = lh_payload_reserved h"
  "lh_payload_ranges (store_pointer p h) = lh_payload_ranges h"
  by (simp_all add: store_pointer_def Let_def)

lemma add_pointer_frame [simp]:
  "lh_cnt (add_pointer p h) = lh_cnt h"
  "lh_heap_length (add_pointer p h) = lh_heap_length h"
  "lh_received_length (add_pointer p h) = lh_received_length h"
  "lh_decoder (add_pointer p h) = lh_decoder h"
  "lh_bug_compat (add_pointer p h) = lh_bug_compat h"
  "lh_payload (add_pointer p h) = lh_payload h"
  "lh_payload_reserved (add_pointer p h) = lh_payload_reserved h"
  "lh_payload_ranges (add_pointer p h) = lh_payload_ranges h"
  by (simp_all add: add_pointer_def Let_def)

lemma add_pointer_min_length:
  "lh_min_length (add_pointer p h) =
     (if is_immediate (lh_decoder h) p then lh_min_length h
      else max (lh_min_length h) (get_address (lh_decoder h) p))"
  by (simp add: add_pointer_def Let_def)

text \<open>
  One iteration of \<^verbatim>\<open>add_pointers\<close> refines \<open>note_pointer\<close> on the pointer list and
  keeps the invariant of the items.
\<close>

lemma lh_pointers_update [simp]:
  "lh_pointers (h\<lparr>lh_min_length := x\<rparr>) = lh_pointers h"
  "lh_pointers (h\<lparr>lh_end_of_stream := e\<rparr>) = lh_pointers h"
  "lh_pointers (h\<lparr>lh_payload := q\<rparr>) = lh_pointers h"
  "lh_pointers (h\<lparr>lh_payload_reserved := k\<rparr>) = lh_pointers h"
  "lh_pointers (h\<lparr>lh_payload_ranges := rs\<rparr>) = lh_pointers h"
  "lh_pointers (h\<lparr>lh_heap_length := x\<rparr>) = lh_pointers h"
  "lh_pointers (h\<lparr>lh_received_length := x\<rparr>) = lh_pointers h"
  by (simp_all add: lh_pointers_def)

lemma pointers_inv_update [simp]:
  "pointers_inv (h\<lparr>lh_min_length := x\<rparr>) = pointers_inv h"
  "pointers_inv (h\<lparr>lh_end_of_stream := e\<rparr>) = pointers_inv h"
  "pointers_inv (h\<lparr>lh_payload := q\<rparr>) = pointers_inv h"
  "pointers_inv (h\<lparr>lh_payload_reserved := k\<rparr>) = pointers_inv h"
  "pointers_inv (h\<lparr>lh_payload_ranges := rs\<rparr>) = pointers_inv h"
  "pointers_inv (h\<lparr>lh_heap_length := x\<rparr>) = pointers_inv h"
  "pointers_inv (h\<lparr>lh_received_length := x\<rparr>) = pointers_inv h"
  by (simp_all add: pointers_inv_def)

lemma add_pointer_refines:
  assumes "pointers_inv h"
  shows "pointers_inv (add_pointer p h)"
    and "lh_pointers (add_pointer p h) = note_pointer (lh_decoder h) p (lh_pointers h)"
proof -
  define h1 where "h1 = (if \<not> is_immediate (lh_decoder h) p
    then h\<lparr>lh_min_length := max (lh_min_length h) (get_address (lh_decoder h) p)\<rparr> else h)"
  have h1: "pointers_inv h1" "lh_pointers h1 = lh_pointers h"
    using assms by (simp_all add: h1_def)
  note store = store_pointer_inv [OF h1(1), of p]
  have "pointers_inv (add_pointer p h) \<and>
      lh_pointers (add_pointer p h) = note_pointer (lh_decoder h) p (lh_pointers h)"
    using store h1
    by (auto simp: add_pointer_def Let_def h1_def [symmetric] note_pointer_def
        regular_pointer_def pointer_seen_iff [OF h1(1)])
  then show "pointers_inv (add_pointer p h)"
    "lh_pointers (add_pointer p h) = note_pointer (lh_decoder h) p (lh_pointers h)"
    by simp_all
qed

lemma stop_regular: "stop_pointer d p \<Longrightarrow> regular_pointer d p"
  by (simp add: stop_pointer_def regular_pointer_def item_id_defs)

lemma add_pointer_end_of_stream:
  assumes "pointers_inv h"
  shows "lh_end_of_stream (add_pointer p h) \<longleftrightarrow>
    lh_end_of_stream h \<or> (stop_pointer (lh_decoder h) p \<and> p \<notin> set (lh_pointers h))"
proof -
  have "pointer_seen p h \<longleftrightarrow> p \<in> set (lh_pointers h)"
    by (rule pointer_seen_iff [OF assms])
  then show ?thesis
    by (auto simp: add_pointer_def Let_def stop_pointer_def item_id_defs pointer_seen_def)
qed

lemma add_pointer_items_inv:
  assumes "pointers_inv h" "items_inv h"
  shows "items_inv (add_pointer p h)"
proof -
  let ?d = "lh_decoder h" and ?m = "lh_min_length (add_pointer p h)"
  have min: "lh_min_length h \<le> ?m" "\<not> is_immediate ?d p \<Longrightarrow> get_address ?d p \<le> ?m"
    by (simp_all add: add_pointer_min_length)
  have ptrs: "set (lh_pointers (add_pointer p h)) =
      (if regular_pointer ?d p then insert p (set (lh_pointers h)) else set (lh_pointers h))"
    by (auto simp: add_pointer_refines(2) [OF assms(1)] note_pointer_def)
  have "\<forall>q \<in> set (lh_pointers (add_pointer p h)). regular_pointer ?d q \<and>
      (\<not> is_immediate ?d q \<longrightarrow> get_address ?d q \<le> ?m)"
    using assms(2) min by (fastforce simp: ptrs items_inv_def split: if_splits)
  moreover have "lh_end_of_stream (add_pointer p h) \<longleftrightarrow>
      (\<exists>q \<in> set (lh_pointers (add_pointer p h)). stop_pointer ?d q)"
    using assms(2) stop_regular
    by (auto simp: add_pointer_end_of_stream [OF assms(1)] ptrs items_inv_def)
  ultimately show ?thesis by (simp add: items_inv_def)
qed

lemma fold_add_pointer:
  assumes "pointers_inv h" "items_inv h"
  shows "pointers_inv (fold add_pointer ps h)" "items_inv (fold add_pointer ps h)"
    and "lh_pointers (fold add_pointer ps h) = fold (note_pointer (lh_decoder h)) ps (lh_pointers h)"
proof -
  have "pointers_inv (fold add_pointer ps h) \<and> items_inv (fold add_pointer ps h) \<and>
      lh_pointers (fold add_pointer ps h) = fold (note_pointer (lh_decoder h)) ps (lh_pointers h)"
    using assms
  proof (induction ps arbitrary: h)
    case (Cons p ps)
    note step = add_pointer_refines [OF Cons.prems(1), of p] add_pointer_items_inv [OF Cons.prems, of p]
    from Cons.IH [OF step(1,3)] show ?case by (simp add: step(2))
  qed simp
  then show "pointers_inv (fold add_pointer ps h)" "items_inv (fold add_pointer ps h)"
    "lh_pointers (fold add_pointer ps h) = fold (note_pointer (lh_decoder h)) ps (lh_pointers h)"
    by simp_all
qed

lemma fold_add_pointer_frame [simp]:
  "lh_cnt (fold add_pointer ps h) = lh_cnt h"
  "lh_heap_length (fold add_pointer ps h) = lh_heap_length h"
  "lh_received_length (fold add_pointer ps h) = lh_received_length h"
  "lh_decoder (fold add_pointer ps h) = lh_decoder h"
  "lh_bug_compat (fold add_pointer ps h) = lh_bug_compat h"
  "lh_payload (fold add_pointer ps h) = lh_payload h"
  "lh_payload_reserved (fold add_pointer ps h) = lh_payload_reserved h"
  "lh_payload_ranges (fold add_pointer ps h) = lh_payload_ranges h"
  by (induction ps arbitrary: h) simp_all

text \<open>The largest address among the address-mode pointers, or \<open>m\<close>.\<close>

definition address_bound :: "pointer_decoder \<Rightarrow> item_pointer_t list \<Rightarrow> int \<Rightarrow> int" where
  "address_bound d ps m =
     fold (\<lambda>p m. if is_immediate d p then m else max m (get_address d p)) ps m"

lemma address_bound_simps [simp]:
  "address_bound d [] m = m"
  "address_bound d (p # ps) m =
     address_bound d ps (if is_immediate d p then m else max m (get_address d p))"
  by (simp_all add: address_bound_def)

lemma fold_add_pointer_min:
  "lh_min_length (fold add_pointer ps h) = address_bound (lh_decoder h) ps (lh_min_length h)"
  by (induction ps arbitrary: h) (simp_all add: add_pointer_min_length)

lemma fold_add_pointer_min_length:
  assumes "wf_bits n" "lh_decoder h = make_pointer_decoder n" "lh_min_length h < 2 ^ 57"
  shows "lh_min_length h \<le> lh_min_length (fold add_pointer ps h)"
    and "lh_min_length (fold add_pointer ps h) < 2 ^ 57"
proof -
  have "lh_min_length h \<le> lh_min_length (fold add_pointer ps h) \<and>
      lh_min_length (fold add_pointer ps h) < 2 ^ 57"
    using assms(2,3)
  proof (induction ps arbitrary: h)
    case (Cons p ps)
    have "get_address (lh_decoder h) p < 2 ^ 57"
      using get_address_less [OF assms(1), of p] by (simp add: Cons.prems)
    then have "lh_min_length h \<le> lh_min_length (add_pointer p h)"
      "lh_min_length (add_pointer p h) < 2 ^ 57"
      using Cons.prems(2) by (simp_all add: add_pointer_min_length)
    with Cons.IH [of "add_pointer p h"] Cons.prems(1) show ?case by simp
  qed simp
  then show "lh_min_length h \<le> lh_min_length (fold add_pointer ps h)"
    "lh_min_length (fold add_pointer ps h) < 2 ^ 57" by simp_all
qed

section \<open>Making room\<close>

lemma memory_inv_update [simp]:
  "memory_inv (h\<lparr>lh_heap_length := x\<rparr>) = memory_inv h"
  "memory_inv (h\<lparr>lh_min_length := x\<rparr>) = memory_inv h"
  "memory_inv (h\<lparr>lh_received_length := x\<rparr>) = memory_inv h"
  "memory_inv (h\<lparr>lh_payload_ranges := rs\<rparr>) = memory_inv h"
  by (simp_all add: memory_inv_def split: option.splits)

lemma items_inv_update [simp]:
  "items_inv (h\<lparr>lh_payload := q\<rparr>) = items_inv h"
  "items_inv (h\<lparr>lh_received_length := x\<rparr>) = items_inv h"
  by (simp_all add: items_inv_def)

text \<open>The early checks of \<^verbatim>\<open>add_packet\<close>.\<close>

definition packet_fits :: "live_heap \<Rightarrow> packet_header \<Rightarrow> bool" where
  "packet_fits h p \<longleftrightarrow>
     \<not> (lh_heap_length h \<ge> 0 \<and> ph_heap_length p \<ge> 0 \<and> ph_heap_length p \<noteq> lh_heap_length h) \<and>
     \<not> (ph_heap_length p \<ge> 0 \<and> ph_heap_length p < lh_min_length h) \<and>
     ph_heap_address_bits p = address_bits (lh_decoder h)"

lemma add_packet_fits:
  assumes "lh_cnt h = ph_heap_cnt p" "packet_fits h p"
  shows "add_packet memcpy alloc p h =
    (let (new_packet, ranges) = add_payload_range (ph_payload_offset p)
           (ph_payload_offset p + ph_payload_length p) (lh_payload_ranges h)
     in if \<not> new_packet then Inr (False, h\<lparr>lh_payload_ranges := ranges\<rparr>)
        else
          bind_result (reserve_for_packet alloc p (h\<lparr>lh_payload_ranges := ranges\<rparr>)) (\<lambda>h2.
          let h3 = add_pointers (ph_n_items p) (ph_pointers p) h2 in
          if ph_payload_length p > 0 then
            bind_result (memcpy (lh_payload h3) p) (\<lambda>q.
            Inr (True, h3\<lparr>lh_payload := q,
                          lh_received_length := lh_received_length h3 + ph_payload_length p\<rparr>))
          else Inr (True, h3)))"
proof -
  have "\<not> (lh_heap_length h \<ge> 0 \<and> ph_heap_length p \<ge> 0 \<and> ph_heap_length p \<noteq> lh_heap_length h)"
    "\<not> (ph_heap_length p \<ge> 0 \<and> ph_heap_length p < lh_min_length h)"
    "\<not> (ph_heap_address_bits p \<noteq> address_bits (lh_decoder h))"
    "\<not> (lh_cnt h \<noteq> ph_heap_cnt p)"
    using assms by (simp_all add: packet_fits_def)
  then show ?thesis
    by (simp only: add_packet_def if_False if_not_P)
qed

text \<open>
  What accepting packet \<open>p\<close> does to the header fields and pointers of a live heap, and
  the state \<open>h3\<close> it is in when the payload is about to be copied.
\<close>

definition header_added :: "live_heap \<Rightarrow> packet_header \<Rightarrow> live_heap \<Rightarrow> bool" where
  "header_added h p h' \<longleftrightarrow>
     lh_cnt h' = lh_cnt h \<and> lh_decoder h' = lh_decoder h \<and> lh_bug_compat h' = lh_bug_compat h \<and>
     add_payload_range (ph_payload_offset p) (ph_payload_offset p + ph_payload_length p)
       (lh_payload_ranges h) = (True, lh_payload_ranges h') \<and>
     lh_heap_length h' = (if 0 \<le> ph_heap_length p then ph_heap_length p else lh_heap_length h) \<and>
     lh_min_length h' = address_bound (lh_decoder h)
       (packet_pointers (ph_n_items p) (ph_pointers p))
       (if 0 \<le> ph_heap_length p then max (lh_min_length h) (ph_heap_length p)
        else max (lh_min_length h) (ph_payload_offset p + ph_payload_length p)) \<and>
     lh_pointers h' = fold (note_pointer (lh_decoder h))
       (packet_pointers (ph_n_items p) (ph_pointers p)) (lh_pointers h)"

definition prepared :: "live_heap \<Rightarrow> packet_header \<Rightarrow> live_heap \<Rightarrow> bool" where
  "prepared h p h3 \<longleftrightarrow>
     header_added h p h3 \<and> lh_received_length h3 = lh_received_length h \<and>
     pointers_inv h3 \<and> items_inv h3 \<and> memory_inv h3 \<and>
     lh_min_length h \<le> lh_min_length h3 \<and> lh_min_length h3 < 2 ^ 57 \<and>
     ph_payload_offset p + ph_payload_length p \<le> lh_min_length h3 \<and>
     - 1 \<le> lh_heap_length h3 \<and> lh_heap_length h3 \<le> lh_min_length h3 \<and>
     lh_payload_reserved h \<le> lh_payload_reserved h3 \<and>
     ph_payload_offset p + ph_payload_length p \<le> int (lh_payload_reserved h3) \<and>
     lh_heap_length h3 \<le> int (lh_payload_reserved h3) \<and>
     (\<forall>i < lh_payload_reserved h.
        map_option (\<lambda>m. m ! i) (lh_payload h3) = map_option (\<lambda>m. m ! i) (lh_payload h))"

text \<open>The abstract effect of an accepted packet.\<close>

definition packet_added :: "live_heap \<Rightarrow> packet_header \<Rightarrow> live_heap \<Rightarrow> bool" where
  "packet_added h p h' \<longleftrightarrow>
     header_added h p h' \<and> dom (lh_data h) \<inter> dom (packet_data p) = {} \<and>
     lh_data h' = lh_data h ++ packet_data p"

context byte_allocator
begin

lemma payload_reserve_ok:
  assumes "memory_inv h"
  obtains q k where
    "payload_reserve alloc n exact h = Inr (h\<lparr>lh_payload := q, lh_payload_reserved := k\<rparr>)"
    "n \<le> k" "lh_payload_reserved h \<le> k"
    "memory_inv (h\<lparr>lh_payload := q, lh_payload_reserved := k\<rparr>)"
    "\<forall>i < lh_payload_reserved h. map_option (\<lambda>m. m ! i) q = map_option (\<lambda>m. m ! i) (lh_payload h)"
proof (cases "n > lh_payload_reserved h")
  case False
  have "payload_reserve alloc n exact h =
      Inr (h\<lparr>lh_payload := lh_payload h, lh_payload_reserved := lh_payload_reserved h\<rparr>)"
    using False by (simp add: payload_reserve_def)
  then show ?thesis
    by (rule that) (use False assms in simp_all)
next
  case True
  define k where "k = (if \<not> exact \<and> n < lh_payload_reserved h * 2 then lh_payload_reserved h * 2 else n)"
  obtain new where new: "alloc k = Some new" "k \<le> length new"
    by (rule alloc_cases)
  have k: "n \<le> k" "lh_payload_reserved h < k" using True by (auto simp: k_def)
  show ?thesis
  proof (cases "lh_payload h")
    case None
    have "payload_reserve alloc n exact h =
        Inr (h\<lparr>lh_payload := Some new, lh_payload_reserved := k\<rparr>)"
      using True None new by (simp add: payload_reserve_def k_def [symmetric])
    then show ?thesis
      by (rule that) (use None k new assms in \<open>simp_all add: memory_inv_def\<close>)
  next
    case (Some old)
    let ?r = "lh_payload_reserved h"
    have r: "?r \<le> length old" using assms Some by (simp add: memory_inv_def)
    let ?new = "take ?r old @ drop ?r new"
    have "payload_reserve alloc n exact h =
        Inr (h\<lparr>lh_payload := Some ?new, lh_payload_reserved := k\<rparr>)"
      using True Some new k r
      by (simp add: payload_reserve_def k_def [symmetric] mem_read_def mem_write_def)
    then show ?thesis
      by (rule that) (use Some k new r in \<open>simp_all add: memory_inv_def nth_append\<close>)
  qed
qed

text \<open>
  After making room, both the packet's payload and the announced heap length fit into
  the block, and the bytes received so far are still there.
\<close>

lemma reserve_for_packet_ok:
  assumes wf: "wf_packet p" and fits: "packet_fits h p" and mem: "memory_inv h"
    and len: "- 1 \<le> lh_heap_length h" "lh_heap_length h \<le> lh_min_length h"
      "lh_heap_length h \<le> int (lh_payload_reserved h)" "0 \<le> lh_min_length h"
      "lh_min_length h < 2 ^ 57"
  obtains hl ml q k where
    "reserve_for_packet alloc p h =
       Inr (h\<lparr>lh_heap_length := hl, lh_min_length := ml, lh_payload := q, lh_payload_reserved := k\<rparr>)"
    "hl = (if 0 \<le> ph_heap_length p then ph_heap_length p else lh_heap_length h)"
    "ml = (if 0 \<le> ph_heap_length p then max (lh_min_length h) (ph_heap_length p)
           else max (lh_min_length h) (ph_payload_offset p + ph_payload_length p))"
    "lh_payload_reserved h \<le> k" "ph_payload_offset p + ph_payload_length p \<le> int k" "hl \<le> int k"
    "memory_inv (h\<lparr>lh_heap_length := hl, lh_min_length := ml, lh_payload := q, lh_payload_reserved := k\<rparr>)"
    "\<forall>i < lh_payload_reserved h. map_option (\<lambda>m. m ! i) q = map_option (\<lambda>m. m ! i) (lh_payload h)"
proof -
  note w = wf [unfolded wf_packet_def] and f = fits [unfolded packet_fits_def]
  consider (new) "0 \<le> ph_heap_length p" "lh_heap_length h < 0"
    | (known) "0 \<le> ph_heap_length p" "0 \<le> lh_heap_length h"
    | (unsized) "ph_heap_length p < 0"
    by linarith
  then show ?thesis
  proof cases
    case new
    let ?h = "h\<lparr>lh_heap_length := ph_heap_length p,
      lh_min_length := max (lh_min_length h) (ph_heap_length p)\<rparr>"
    have "memory_inv ?h" using mem by simp
    then obtain q k where r: "payload_reserve alloc (nat (lh_min_length ?h)) True ?h =
        Inr (?h\<lparr>lh_payload := q, lh_payload_reserved := k\<rparr>)"
      and k: "nat (lh_min_length ?h) \<le> k" "lh_payload_reserved ?h \<le> k"
      and m: "memory_inv (?h\<lparr>lh_payload := q, lh_payload_reserved := k\<rparr>)"
      and keep: "\<forall>i < lh_payload_reserved ?h.
        map_option (\<lambda>m. m ! i) q = map_option (\<lambda>m. m ! i) (lh_payload ?h)"
      by (rule payload_reserve_ok)
    have "ph_heap_length p \<le> int k"
      using k(1) by (simp add: nat_le_iff)
    moreover from this have "ph_payload_offset p + ph_payload_length p \<le> int k"
      using w new by linarith
    ultimately show ?thesis
      by (intro that [where hl = "ph_heap_length p" and q = q and k = k and
            ml = "max (lh_min_length h) (ph_heap_length p)"])
        (use new w r k m keep in \<open>simp_all add: reserve_for_packet_def\<close>)
  next
    case known
    then have hl: "ph_heap_length p = lh_heap_length h" using f by auto
    have "reserve_for_packet alloc p h = Inr (h\<lparr>lh_heap_length := ph_heap_length p,
      lh_min_length := max (lh_min_length h) (ph_heap_length p),
      lh_payload := lh_payload h, lh_payload_reserved := lh_payload_reserved h\<rparr>)"
      using known hl len by (simp add: reserve_for_packet_def)
    then show ?thesis
      by (rule that) (use known hl len w mem in simp_all)
  next
    case unsized
    let ?h = "h\<lparr>lh_min_length := max (lh_min_length h) (ph_payload_offset p + ph_payload_length p)\<rparr>"
    have "memory_inv ?h" using mem by simp
    then obtain q k where r: "payload_reserve alloc (nat (lh_min_length ?h)) False ?h =
        Inr (?h\<lparr>lh_payload := q, lh_payload_reserved := k\<rparr>)"
      and k: "nat (lh_min_length ?h) \<le> k" "lh_payload_reserved ?h \<le> k"
      and m: "memory_inv (?h\<lparr>lh_payload := q, lh_payload_reserved := k\<rparr>)"
      and keep: "\<forall>i < lh_payload_reserved ?h.
        map_option (\<lambda>m. m ! i) q = map_option (\<lambda>m. m ! i) (lh_payload ?h)"
      by (rule payload_reserve_ok)
    have "ph_payload_offset p + ph_payload_length p \<le> int k"
      using k(1) by (simp add: nat_le_iff)
    then show ?thesis
      by (intro that [where hl = "lh_heap_length h" and q = q and k = k and
            ml = "max (lh_min_length h) (ph_payload_offset p + ph_payload_length p)"])
        (use unsized w r k m keep len in \<open>simp_all add: reserve_for_packet_def\<close>)
  qed
qed

section \<open>Adding a packet\<close>

text \<open>Everything \<^verbatim>\<open>add_packet\<close> does to an acceptable packet before the copy.\<close>

lemma add_packet_prepare:
  assumes inv: "lh_inv h" and wf: "wf_packet p" and cnt: "lh_cnt h = ph_heap_cnt p"
    and fits: "packet_fits h p"
    and add: "add_payload_range (ph_payload_offset p)
      (ph_payload_offset p + ph_payload_length p) (lh_payload_ranges h) = (True, rs)"
  obtains h3 where
    "add_packet memcpy alloc p h =
       (if ph_payload_length p > 0 then
          bind_result (memcpy (lh_payload h3) p) (\<lambda>q. Inr (True,
            h3\<lparr>lh_payload := q, lh_received_length := lh_received_length h + ph_payload_length p\<rparr>))
        else Inr (True, h3))"
    "prepared h p h3"
proof -
  let ?off = "ph_payload_offset p" and ?len = "ph_payload_length p"
  let ?ps = "packet_pointers (ph_n_items p) (ph_pointers p)"
  let ?h0 = "h\<lparr>lh_payload_ranges := rs\<rparr>"
  from inv have li: "lengths_inv h" and mi: "memory_inv h" and pi: "pointers_inv h"
    and ii: "items_inv h" and bits: "wf_bits (address_bits (lh_decoder h))"
    and dec: "lh_decoder h = make_pointer_decoder (address_bits (lh_decoder h))"
    by (simp_all add: lh_inv_def)
  note l = li [unfolded lengths_inv_def] and w = wf [unfolded wf_packet_def]
  from wf fits mi l obtain hl ml q k where
    res: "reserve_for_packet alloc p ?h0 = Inr (?h0\<lparr>lh_heap_length := hl, lh_min_length := ml,
       lh_payload := q, lh_payload_reserved := k\<rparr>)"
    and hl: "hl = (if 0 \<le> ph_heap_length p then ph_heap_length p else lh_heap_length ?h0)"
    and ml: "ml = (if 0 \<le> ph_heap_length p then max (lh_min_length ?h0) (ph_heap_length p)
       else max (lh_min_length ?h0) (?off + ?len))"
    and k: "lh_payload_reserved ?h0 \<le> k" "?off + ?len \<le> int k" "hl \<le> int k"
    and mem: "memory_inv (?h0\<lparr>lh_heap_length := hl, lh_min_length := ml,
       lh_payload := q, lh_payload_reserved := k\<rparr>)"
    and keep: "\<forall>i < lh_payload_reserved ?h0.
       map_option (\<lambda>m. m ! i) q = map_option (\<lambda>m. m ! i) (lh_payload ?h0)"
    by (rule_tac reserve_for_packet_ok [of p ?h0]) (simp_all add: packet_fits_def)
  have mlb: "lh_min_length h \<le> ml" "?off + ?len \<le> ml" "hl \<le> ml" "ml < 2 ^ 57"
    using w l by (auto simp: ml hl)
  define h2 where "h2 = ?h0\<lparr>lh_heap_length := hl, lh_min_length := ml,
    lh_payload := q, lh_payload_reserved := k\<rparr>"
  have h2 [simp]: "lh_decoder h2 = lh_decoder h" "lh_cnt h2 = lh_cnt h" "lh_min_length h2 = ml"
    "lh_bug_compat h2 = lh_bug_compat h" "lh_payload_ranges h2 = rs" "lh_heap_length h2 = hl"
    "lh_received_length h2 = lh_received_length h" "lh_payload h2 = q"
    "lh_payload_reserved h2 = k" "lh_pointers h2 = lh_pointers h" "pointers_inv h2"
    using pi by (simp_all add: h2_def)
  have i2: "items_inv h2"
    using ii mlb(1) by (fastforce simp: items_inv_def h2_def)
  note f = fold_add_pointer [OF h2(11) i2, of ?ps]
  have min3: "ml \<le> lh_min_length (fold add_pointer ?ps h2)"
    "lh_min_length (fold add_pointer ?ps h2) < 2 ^ 57"
    using fold_add_pointer_min_length [OF bits, of h2 ?ps] dec mlb(4) by simp_all
  have mem3: "memory_inv (fold add_pointer ?ps h2)"
    using mem by (simp add: memory_inv_def h2_def split: option.splits)
  have run: "add_packet memcpy alloc p h =
      (let h3 = fold add_pointer ?ps h2 in
       if ?len > 0 then bind_result (memcpy (lh_payload h3) p) (\<lambda>q. Inr (True,
            h3\<lparr>lh_payload := q, lh_received_length := lh_received_length h + ?len\<rparr>))
        else Inr (True, h3))"
    using cnt fits add res
    by (simp add: add_packet_fits add_pointers_def h2_def [symmetric] Let_def)
  show ?thesis
    by (rule that [of "fold add_pointer ?ps h2"])
      (use run f min3 mem3 mlb k keep l add in
        \<open>simp_all add: prepared_def header_added_def fold_add_pointer_min hl ml Let_def\<close>)
qed

text \<open>The copy itself: within bounds, and it changes exactly the packet's bytes.\<close>

lemma std_packet_memcpy_ok:
  assumes "memory_inv h" "wf_packet p" "ph_payload_length p > 0"
    and "ph_payload_offset p + ph_payload_length p \<le> int (lh_payload_reserved h)"
  obtains m m' where "lh_payload h = Some m" "lh_payload_reserved h \<le> length m"
    "std_packet_memcpy (lh_payload h) p = Inr (Some m')" "length m' = length m"
    "\<forall>i < length m. m' ! i = (if nat (ph_payload_offset p) \<le> i
        \<and> i < nat (ph_payload_offset p + ph_payload_length p)
      then ph_payload p ! (i - nat (ph_payload_offset p)) else m ! i)"
proof -
  let ?off = "nat (ph_payload_offset p)" and ?len = "nat (ph_payload_length p)"
  note w = assms(2) [unfolded wf_packet_def]
  have sum: "nat (ph_payload_offset p + ph_payload_length p) = ?off + ?len"
    using w by (simp add: nat_add_distrib)
  obtain m where m: "lh_payload h = Some m" "lh_payload_reserved h \<le> length m"
    using assms w by (cases "lh_payload h") (auto simp: memory_inv_def)
  let ?src = "take ?len (ph_payload p)"
  have "?off + length ?src \<le> length m"
    using assms(4) m(2) w sum by simp
  then obtain m' where m': "mem_write m ?off ?src = Inr m'"
    by (simp add: mem_write_def)
  have "std_packet_memcpy (lh_payload h) p = Inr (Some m')"
    using m m' w by (simp add: std_packet_memcpy_def mem_read_def)
  moreover have "\<forall>i < length m. m' ! i = (if ?off \<le> i \<and> i < nat (ph_payload_offset p + ph_payload_length p)
      then ph_payload p ! (i - ?off) else m ! i)"
    using mem_write_nth [OF m'] w by (auto simp: sum)
  ultimately show ?thesis
    using that m mem_write_length [OF m'] by blast
qed

text \<open>The lengths stay consistent once the payload has been counted.\<close>

lemma prepared_lengths:
  assumes "lh_inv h" "wf_packet p" "prepared h p h3"
    and "h' = h3\<lparr>lh_payload := q, lh_received_length := lh_received_length h + ph_payload_length p\<rparr>"
  shows "lengths_inv h'"
proof -
  let ?off = "ph_payload_offset p" and ?len = "ph_payload_length p"
  let ?rs = "lh_payload_ranges h" and ?rs' = "lh_payload_ranges h3"
  note w = assms(2) [unfolded wf_packet_def] and pr = assms(3) [unfolded prepared_def header_added_def]
  from assms(1) have l: "ranges_ok (- 1) ?rs" "lh_received_length h = ranges_total ?rs"
    "\<forall>r \<in> set ?rs. snd r \<le> lh_min_length h \<and> snd r \<le> int (lh_payload_reserved h)"
    "0 \<le> lh_min_length h"
    by (simp_all add: lh_inv_def lengths_inv_def)
  have add: "add_payload_range ?off (?off + ?len) ?rs = (True, ?rs')" using pr by simp
  have "ranges_ok (- 1) ?rs'" "ranges_total ?rs' = ranges_total ?rs + ?len"
    using payload_ranges.accept [OF l(1) _ _ add] payload_ranges.total_accept [OF l(1) _ _ add] w
    by simp_all
  moreover have "snd r \<le> lh_min_length h3 \<and> snd r \<le> int (lh_payload_reserved h3)"
    if "r \<in> set ?rs'" for r
    using add_payload_range_ends [OF l(1) _ add that] l(3) pr w by fastforce
  ultimately show ?thesis
    using l pr by (simp add: lengths_inv_def assms(4))
qed

text \<open>
  What the payload holds after the copy, at the offsets of the packet and elsewhere.
\<close>

lemma prepared_data:
  assumes inv: "lh_inv h" and wf: "wf_packet p" and pr: "prepared h p h3"
    and m': "\<And>i. i < lh_payload_reserved h3 \<Longrightarrow>
      map_option (\<lambda>m. m ! i) q = (if nat (ph_payload_offset p) \<le> i
          \<and> i < nat (ph_payload_offset p + ph_payload_length p)
        then Some (ph_payload p ! (i - nat (ph_payload_offset p)))
        else map_option (\<lambda>m. m ! i) (lh_payload h3))"
    and h': "h' = h3\<lparr>lh_payload := q, lh_received_length := r\<rparr>"
  shows "packet_added h p h'"
proof -
  let ?off = "ph_payload_offset p" and ?len = "ph_payload_length p"
  let ?rs = "lh_payload_ranges h" and ?rs' = "lh_payload_ranges h3"
  note w = wf [unfolded wf_packet_def] and pr = pr [unfolded prepared_def]
  from inv have l: "ranges_ok (- 1) ?rs" "\<forall>r \<in> set ?rs. snd r \<le> int (lh_payload_reserved h)"
    by (simp_all add: lh_inv_def lengths_inv_def)
  have add: "add_payload_range ?off (?off + ?len) ?rs = (True, ?rs')"
    using pr by (simp add: header_added_def)
  have cov: "covered ?rs' = covered ?rs \<union> {?off..<?off + ?len}" "covered ?rs \<inter> {?off..<?off + ?len} = {}"
    using payload_ranges.accept [OF l(1) _ _ add] w by simp_all
  have old: "0 \<le> i \<and> nat i < lh_payload_reserved h" if "i \<in> covered ?rs" for i
    using that l(2) ranges_ok_memD [OF l(1)] by (fastforce simp: covered_iff)
  have "dom (lh_data h) \<subseteq> covered ?rs" "dom (packet_data p) = {?off..<?off + ?len}"
    by (auto simp: lh_data_def packet_data_def split: if_splits)
  then have disj: "dom (lh_data h) \<inter> dom (packet_data p) = {}" using cov(2) by blast
  have "lh_data h' i = (lh_data h ++ packet_data p) i" for i
  proof (cases "?off \<le> i \<and> i < ?off + ?len")
    case True
    then have "nat i < lh_payload_reserved h3" "nat ?off \<le> nat i" "nat i < nat (?off + ?len)"
      using pr w by auto
    with m' [of "nat i"] True cov(1) w show ?thesis
      by (simp add: h' lh_data_def packet_data_def map_add_def nat_diff_distrib)
  next
    case False
    have "lh_data h' i = lh_data h i"
    proof (cases "i \<in> covered ?rs")
      case True
      note o = old [OF True]
      then have "map_option (\<lambda>m. m ! nat i) q = map_option (\<lambda>m. m ! nat i) (lh_payload h3)"
        using m' [of "nat i"] False pr w by auto
      also have "\<dots> = map_option (\<lambda>m. m ! nat i) (lh_payload h)"
        using pr o by simp
      finally show ?thesis using True cov(1) by (simp add: h' lh_data_def)
    next
      case outside: False
      then show ?thesis using False cov(1) by (auto simp: h' lh_data_def)
    qed
    with False show ?thesis by (auto simp: map_add_def packet_data_def)
  qed
  then have "lh_data h' = lh_data h ++ packet_data p" by (rule ext)
  with disj pr show ?thesis
    by (simp add: packet_added_def header_added_def h')
qed

text \<open>
  The central lemma: an acceptable packet is added without a fault; the result
  satisfies the invariant and is the heap with exactly the packet's data added.
\<close>

lemma add_packet_accept:
  assumes inv: "lh_inv h" and wf: "wf_packet p" and cnt: "lh_cnt h = ph_heap_cnt p"
    and fits: "packet_fits h p"
    and add: "fst (add_payload_range (ph_payload_offset p)
      (ph_payload_offset p + ph_payload_length p) (lh_payload_ranges h))"
  obtains h' where "add_packet std_packet_memcpy alloc p h = Inr (True, h')"
    "lh_inv h'" "packet_added h p h'"
proof -
  let ?off = "ph_payload_offset p" and ?len = "ph_payload_length p"
  obtain rs where "add_payload_range ?off (?off + ?len) (lh_payload_ranges h) = (True, rs)"
    using add by (cases "add_payload_range ?off (?off + ?len) (lh_payload_ranges h)") simp
  with inv wf cnt fits obtain h3 where
    run: "add_packet std_packet_memcpy alloc p h = (if ?len > 0 then
        bind_result (std_packet_memcpy (lh_payload h3) p) (\<lambda>q. Inr (True,
          h3\<lparr>lh_payload := q, lh_received_length := lh_received_length h + ?len\<rparr>))
      else Inr (True, h3))"
    and pr: "prepared h p h3"
    by (rule add_packet_prepare)
  note w = wf [unfolded wf_packet_def] and pr' = pr [unfolded prepared_def] and result = that
  have *: "?thesis" if run': "add_packet std_packet_memcpy alloc p h = Inr (True, h')"
    and h': "h' = h3\<lparr>lh_payload := q, lh_received_length := lh_received_length h + ?len\<rparr>"
    and mem: "memory_inv h'" and data: "packet_added h p h'" for q h'
  proof (rule result [OF run' _ data])
    show "lh_inv h'"
      using prepared_lengths [OF inv wf pr h'] mem inv pr'
      unfolding lh_inv_def h' header_added_def by simp
  qed
  show ?thesis
  proof (cases "?len > 0")
    case True
    from pr' have "memory_inv h3" "?off + ?len \<le> int (lh_payload_reserved h3)" by simp_all
    then obtain m m' where m: "lh_payload h3 = Some m" "lh_payload_reserved h3 \<le> length m"
      and cp: "std_packet_memcpy (lh_payload h3) p = Inr (Some m')" "length m' = length m"
      and nth: "\<forall>i < length m. m' ! i = (if nat ?off \<le> i \<and> i < nat (?off + ?len)
        then ph_payload p ! (i - nat ?off) else m ! i)"
      using std_packet_memcpy_ok [OF _ wf True] by blast
    show ?thesis
      by (rule * [OF _ refl, of "Some m'"])
        (use run True cp m nth in \<open>auto simp: memory_inv_def intro!: prepared_data [OF inv wf pr _ refl]\<close>)
  next
    case False
    then have len: "?len = 0" using w by simp
    have "lh_received_length h3 = lh_received_length h" using pr' by (simp add: header_added_def)
    then have same: "h3\<lparr>lh_payload := lh_payload h3, lh_received_length := lh_received_length h + ?len\<rparr> = h3"
      using len by simp
    have "packet_added h p h3"
      by (rule prepared_data [OF inv wf pr _ same [symmetric]]) (auto simp: len)
    with run len pr' show ?thesis
      by (intro * [OF _ same [symmetric]]) simp_all
  qed
qed

text \<open>The other outcome: the packet is refused and nothing changes.\<close>

lemma add_packet_reject:
  assumes "lh_cnt h = ph_heap_cnt p"
    and "\<not> (packet_fits h p \<and> fst (add_payload_range (ph_payload_offset p)
      (ph_payload_offset p + ph_payload_length p) (lh_payload_ranges h)))"
  shows "add_packet memcpy alloc' p h = Inr (False, h)"
proof -
  obtain ok rs where add: "add_payload_range (ph_payload_offset p)
      (ph_payload_offset p + ph_payload_length p) (lh_payload_ranges h) = (ok, rs)"
    by fastforce
  show ?thesis
  proof (cases "packet_fits h p")
    case True
    then have "\<not> ok" using assms(2) add by simp
    then have "rs = lh_payload_ranges h" using add payload_ranges.reject by auto
    with True \<open>\<not> ok\<close> add assms(1) show ?thesis
      by (simp add: add_packet_fits)
  next
    case False
    then show ?thesis using assms(1) by (auto simp: add_packet_def packet_fits_def)
  qed
qed

text \<open>Both outcomes together: adding a packet never faults and keeps the invariant.\<close>

lemma add_packet_total:
  assumes "lh_inv h" "wf_packet p" "lh_cnt h = ph_heap_cnt p"
  obtains ok h' where "add_packet std_packet_memcpy alloc p h = Inr (ok, h')" "lh_inv h'"
    "if ok then packet_added h p h' else h' = h"
proof (cases "packet_fits h p \<and> fst (add_payload_range (ph_payload_offset p)
      (ph_payload_offset p + ph_payload_length p) (lh_payload_ranges h))")
  case True
  with assms obtain h' where "add_packet std_packet_memcpy alloc p h = Inr (True, h')"
    "lh_inv h'" "packet_added h p h'"
    using add_packet_accept by blast
  with that [of True h'] show ?thesis by simp
next
  case False
  with that [of False h] add_packet_reject [OF assms(3) False] assms(1) show ?thesis by simp
qed

end

section \<open>Fresh heaps and the completeness tests\<close>

text \<open>The heap count never changes, whatever allocator and copy function are used.\<close>

lemma add_packet_cnt:
  assumes "add_packet memcpy alloc p h = Inr (ok, h')"
  shows "lh_cnt h' = lh_cnt h"
proof -
  have reserve: "lh_cnt h2 = lh_cnt h1" if "payload_reserve alloc n e h1 = Inr h2" for n e h1 h2
    using that by (auto simp: payload_reserve_def Let_def bind_result_Inr_iff split: if_splits)
  have "lh_cnt h2 = lh_cnt h1" if "reserve_for_packet alloc p h1 = Inr h2" for h1 h2
    using that by (auto simp: reserve_for_packet_def Let_def dest: reserve split: if_splits)
  then show ?thesis
    using assms
    by (fastforce simp: add_packet_def Let_def bind_result_Inr_iff add_pointers_def
        split: if_splits prod.splits)
qed

lemma make_live_heap_inv: "wf_packet p \<Longrightarrow> lh_inv (make_live_heap p bc)"
  by (simp add: lh_inv_def make_live_heap_def wf_packet_def pointers_inv_def items_inv_def
      lengths_inv_def memory_inv_def lh_pointers_def max_inline_pointers_def)

lemma make_live_heap_fits: "wf_packet p \<Longrightarrow> packet_fits (make_live_heap p bc) p"
  by (simp add: packet_fits_def make_live_heap_def wf_packet_def)

lemma make_live_heap_data [simp]: "lh_data (make_live_heap p bc) = Map.empty"
  by (auto simp: lh_data_def make_live_heap_def)

lemma make_live_heap_pointers [simp]: "lh_pointers (make_live_heap p bc) = []"
  by (simp add: lh_pointers_def make_live_heap_def)

lemma make_live_heap_cnt [simp]: "lh_cnt (make_live_heap p bc) = ph_heap_cnt p"
  by (simp add: make_live_heap_def)

lemma reset_inv:
  assumes "lh_inv h"
  shows "lh_inv (reset h)"
  using assms
  by (simp add: lh_inv_def reset_def pointers_inv_def items_inv_def lengths_inv_def
      memory_inv_def lh_pointers_def)

lemma covered_within:
  assumes "lh_inv h"
  shows "covered (lh_payload_ranges h) \<subseteq> {0..<lh_min_length h}"
proof
  fix i
  assume "i \<in> covered (lh_payload_ranges h)"
  then obtain r where "r \<in> set (lh_payload_ranges h)" "fst r \<le> i" "i < snd r"
    by (auto simp: covered_iff)
  moreover from assms have "ranges_ok (- 1) (lh_payload_ranges h)"
    "\<forall>r \<in> set (lh_payload_ranges h). snd r \<le> lh_min_length h"
    by (simp_all add: lh_inv_def lengths_inv_def)
  ultimately show "i \<in> {0..<lh_min_length h}"
    using ranges_ok_memD by fastforce
qed

lemma received_length_eq:
  assumes "lh_inv h"
  shows "lh_received_length h = int (card (covered (lh_payload_ranges h)))"
  using assms payload_ranges.total_card by (auto simp: lh_inv_def lengths_inv_def)

lemma received_le_min_length:
  assumes "lh_inv h"
  shows "0 \<le> lh_received_length h" "lh_received_length h \<le> lh_min_length h"
proof -
  show "0 \<le> lh_received_length h" by (simp add: received_length_eq [OF assms])
  have "card (covered (lh_payload_ranges h)) \<le> card {0..<lh_min_length h}"
    using covered_within [OF assms] by (intro card_mono) simp_all
  moreover have "0 \<le> lh_min_length h" using assms by (simp add: lh_inv_def lengths_inv_def)
  ultimately show "lh_received_length h \<le> lh_min_length h"
    by (simp add: received_length_eq [OF assms])
qed

lemma dom_lh_data:
  assumes "lh_inv h"
  shows "dom (lh_data h) = covered (lh_payload_ranges h)"
proof -
  have "lh_payload h \<noteq> None" if "i \<in> covered (lh_payload_ranges h)" for i
  proof
    assume "lh_payload h = None"
    with assms have "\<forall>r \<in> set (lh_payload_ranges h). snd r \<le> 0"
      by (auto simp: lh_inv_def lengths_inv_def memory_inv_def)
    moreover have "0 \<le> i" using that covered_within [OF assms] by auto
    ultimately show False using that by (auto simp: covered_iff)
  qed
  then show ?thesis by (auto simp: lh_data_def split: if_splits)
qed

lemma contiguous_covered:
  assumes "lh_inv h"
  shows "is_contiguous h \<longleftrightarrow> covered (lh_payload_ranges h) = {0..<lh_min_length h}"
proof
  assume "is_contiguous h"
  then have "ranges_total (lh_payload_ranges h) = lh_min_length h"
    using assms by (simp add: is_contiguous_def lh_inv_def lengths_inv_def)
  then show "covered (lh_payload_ranges h) = {0..<lh_min_length h}"
    using assms covered_within [OF assms]
    by (intro payload_ranges.full_coverage) (simp_all add: lh_inv_def lengths_inv_def)
next
  assume "covered (lh_payload_ranges h) = {0..<lh_min_length h}"
  moreover have "0 \<le> lh_min_length h" using assms by (simp add: lh_inv_def lengths_inv_def)
  ultimately show "is_contiguous h" by (simp add: is_contiguous_def received_length_eq [OF assms])
qed

section \<open>Properties\<close>

text \<open>The live heap after receiving the example packet.\<close>

definition example_heap :: live_heap where
  "example_heap =
     \<lparr>lh_cnt = 7, lh_heap_length = 3, lh_received_length = 3, lh_min_length = 3,
      lh_decoder = make_pointer_decoder 40, lh_bug_compat = 0, lh_end_of_stream = False,
      lh_n_inline_pointers = 1, lh_payload = Some [0xaa, 0xbb, 0xcc], lh_payload_reserved = 3,
      lh_inline_pointers = [0x10000000000000, 0, 0, 0, 0, 0, 0, 0], lh_external_pointers = [],
      lh_seen_pointers = {}, lh_payload_ranges = [(0, 3)]\<rparr>"

declare std_packet_memcpy_def [eval_simps] make_live_heap_def [eval_simps]
  payload_reserve_def [eval_simps] store_pointer_def [eval_simps] pointer_seen_def [eval_simps]
  add_pointer_def [eval_simps] packet_pointers_def [eval_simps] add_pointers_def [eval_simps]
  reserve_for_packet_def [eval_simps] add_packet_def [eval_simps] add_payload_range_def [eval_simps]
  upper_bound_def [eval_simps] max_inline_pointers_def [eval_simps] default_allocate_def [eval_simps]
  prefault_def [eval_simps] prefault_from.simps [eval_simps]

lemma example_wf: "wf_packet example_header"
  by (rule decode_packet_result [OF example_decode])

lemma example_received:
  "add_packet std_packet_memcpy (default_allocate (\<lambda>_. 0)) example_header
     (make_live_heap example_header 0) = Inr (True, example_heap)"
  by (simp add: example_header_def example_heap_def eval_simps)

lemma example_heap_inv: "lh_inv example_heap"
proof -
  note make_live_heap_cnt [of example_header 0]
  with make_live_heap_inv [OF example_wf] example_wf obtain ok h' where
    "add_packet std_packet_memcpy (default_allocate (\<lambda>_. 0)) example_header
       (make_live_heap example_header 0) = Inr (ok, h')" "lh_inv h'"
    by (blast elim: default_allocator.add_packet_total)
  then show ?thesis by (simp add: example_received)
qed



text \<open>
  Which packets a live heap takes.  A packet is accepted exactly if its heap length
  agrees with what is known of the heap, its address width is that of the heap, and
  \<^verbatim>\<open>add_payload_range\<close> takes its payload range; a refused packet leaves the heap alone.
\<close>

lemma add_packet_accepts_iff:
  assumes "lh_inv h" "wf_packet p" "lh_cnt h = ph_heap_cnt p"
  shows "(\<exists>h'. add_packet std_packet_memcpy (default_allocate fresh) p h = Inr (True, h')) \<longleftrightarrow>
    (0 \<le> lh_heap_length h \<and> 0 \<le> ph_heap_length p \<longrightarrow> ph_heap_length p = lh_heap_length h) \<and>
    (0 \<le> ph_heap_length p \<longrightarrow> lh_min_length h \<le> ph_heap_length p) \<and>
    ph_heap_address_bits p = address_bits (lh_decoder h) \<and>
    fst (add_payload_range (ph_payload_offset p) (ph_payload_offset p + ph_payload_length p)
      (lh_payload_ranges h))"
    (is "?acc \<longleftrightarrow> ?cond")
proof -
  have fits: "?cond \<longleftrightarrow> packet_fits h p \<and> fst (add_payload_range (ph_payload_offset p)
      (ph_payload_offset p + ph_payload_length p) (lh_payload_ranges h))"
    by (auto simp: packet_fits_def)
  show ?thesis
  proof (cases ?cond)
    case True
    with assms fits show ?thesis by (blast elim: default_allocator.add_packet_accept)
  next
    case False
    with default_allocator.add_packet_reject [OF assms(3)] fits show ?thesis by auto
  qed
qed

lemma add_packet_accepts_iff_witness:
  "\<exists>h'. add_packet std_packet_memcpy (default_allocate (\<lambda>_. 0)) example_header
     (make_live_heap example_header 0) = Inr (True, h')"
  using add_packet_accepts_iff [OF make_live_heap_inv [OF example_wf] example_wf]
  by (auto simp: make_live_heap_def add_payload_range_def upper_bound_def example_header_def)

text \<open>
  The completeness tests are correct.  In every state satisfying the invariant the
  heap is contiguous exactly if every byte below the length known so far has been
  received, and complete exactly if moreover that length is the announced heap length.
  In a complete heap the payload block holds every byte of the heap.
\<close>

lemma completeness_tests:
  assumes "lh_inv h"
  shows "(is_contiguous h \<longleftrightarrow> dom (lh_data h) = {0..<lh_min_length h}) \<and>
    (is_complete h \<longleftrightarrow> lh_heap_length h = lh_min_length h \<and> dom (lh_data h) = {0..<lh_heap_length h}) \<and>
    (is_complete h \<and> 0 < lh_heap_length h \<longrightarrow> (\<exists>m. lh_payload h = Some m \<and>
       lh_heap_length h \<le> int (length m) \<and> (\<forall>i < nat (lh_heap_length h). lh_data h (int i) = Some (m ! i))))"
proof -
  have cont: "is_contiguous h \<longleftrightarrow> dom (lh_data h) = {0..<lh_min_length h}"
    by (simp only: contiguous_covered [OF assms] dom_lh_data [OF assms])
  have comp: "is_complete h \<longleftrightarrow> lh_heap_length h = lh_min_length h \<and> is_contiguous h"
    by (auto simp: is_complete_def is_contiguous_def)
  have mem: "memory_inv h" "lh_heap_length h \<le> int (lh_payload_reserved h)"
    using assms by (simp_all add: lh_inv_def lengths_inv_def)
  have "\<exists>m. lh_payload h = Some m \<and> lh_heap_length h \<le> int (length m) \<and>
      (\<forall>i < nat (lh_heap_length h). lh_data h (int i) = Some (m ! i))"
    if c: "is_complete h" and pos: "0 < lh_heap_length h"
  proof -
    obtain m where m: "lh_payload h = Some m" "lh_payload_reserved h \<le> length m"
      using mem pos by (cases "lh_payload h") (auto simp: memory_inv_def)
    have "covered (lh_payload_ranges h) = {0..<lh_heap_length h}"
      using c comp contiguous_covered [OF assms] by simp
    with m mem(2) show ?thesis by (auto simp: lh_data_def)
  qed
  with cont comp show ?thesis by auto
qed

lemma completeness_tests_witness:
  "dom (lh_data example_heap) = {0..<3} \<and>
   (\<exists>m. lh_payload example_heap = Some m \<and> (\<forall>i < 3. lh_data example_heap (int i) = Some (m ! i)))"
  using completeness_tests [OF example_heap_inv]
  by (auto simp: example_heap_def is_complete_def)

end
