(* ===== verification/RecvHeap.thy ===== *)
theory RecvHeap
  imports LiveHeap
begin

text \<open>
  Frozen heaps: \<^verbatim>\<open>recv_heap.h\<close> and the parts of \<^verbatim>\<open>recv_heap.cpp\<close> that do not need a
  stream.  A live heap is turned into a list of items whose pointers lead into the
  payload, into the inline storage of the heap object or into a separate block.  The
  theory shows that freezing a contiguous heap never faults and that the items are
  those of a pure reference function on the pointers and the payload.
\<close>

section \<open>Items and heaps\<close>

text \<open>
  Where an item's \<^verbatim>\<open>ptr\<close> leads: to an offset in the inline storage of the heap object
  at some address, in the separately allocated block for immediates, or in the payload.
\<close>

datatype item_ptr = In_inline nat nat | In_immediate nat | In_payload nat

record recv_item =
  ri_id :: s_item_pointer_t
  ri_ptr :: item_ptr
  ri_length :: nat
  ri_immediate_value :: item_pointer_t
  ri_is_immediate :: bool

text \<open>\<open>hb_self\<close> is the address of the object, which is also that of its inline storage.\<close>

record heap_base =
  hb_self :: nat
  hb_cnt :: s_item_pointer_t
  hb_flavour :: flavour
  hb_items :: "recv_item list"
  hb_immediate_inline :: "byte list"
  hb_immediate_payload :: "byte list option"
  hb_payload :: "byte list option"

definition inline_size :: nat where
  "inline_size = 24"

text \<open>
  \<^verbatim>\<open>heap_base() = default\<close> at address \<open>self\<close>.  The inline storage is uninitialised, its
  contents are \<open>fresh\<close>; \<^verbatim>\<open>cnt\<close> is uninitialised too, and set before anything reads it.
\<close>

definition new_heap_base :: "(nat \<Rightarrow> byte) \<Rightarrow> nat \<Rightarrow> heap_base" where
  "new_heap_base fresh self =
     \<lparr>hb_self = self, hb_cnt = 0, hb_flavour = default_flavour, hb_items = [],
      hb_immediate_inline = map fresh [0..<inline_size], hb_immediate_payload = None,
      hb_payload = None\<rparr>"

text \<open>\<^verbatim>\<open>std::size_t\<close> passed where an \<^verbatim>\<open>int\<close> is expected.\<close>

definition int_of_size :: "nat \<Rightarrow> int" where
  "int_of_size n = sint (word_of_nat n :: 32 word)"

definition load_bytes_be :: "byte list \<Rightarrow> int \<Rightarrow> fault + item_pointer_t" where
  "load_bytes_be ptr len =
     (if 0 \<le> len \<and> len \<le> int item_pointer_size
      then bind_result (mem_read ptr (nat len)) (\<lambda>bs. Inr (word_of_nat (be_nat bs)))
      else Inl Assertion_failed)"

section \<open>Freezing a live heap\<close>

definition sort_mask :: "pointer_decoder \<Rightarrow> item_pointer_t" where
  "sort_mask d = immediate_mask OR (push_bit (address_bits d) 1 - 1)"

definition sorted_pointers :: "pointer_decoder \<Rightarrow> item_pointer_t list \<Rightarrow> item_pointer_t list" where
  "sorted_pointers d ps = sort_key (\<lambda>p. p AND sort_mask d) ps"

text \<open>The end of an addressed item: the address of the next one, or \<^verbatim>\<open>min_length\<close>.\<close>

definition item_end :: "pointer_decoder \<Rightarrow> s_item_pointer_t \<Rightarrow> item_pointer_t list \<Rightarrow> s_item_pointer_t" where
  "item_end d min_length rest =
     (if rest \<noteq> [] \<and> \<not> is_immediate d (hd rest) then get_address d (hd rest) else min_length)"

text \<open>
  The last \<^verbatim>\<open>immediate_size\<close> bytes of the big-endian pointer.
\<close>

definition immediate_bytes :: "pointer_decoder \<Rightarrow> item_pointer_t \<Rightarrow> byte list" where
  "immediate_bytes d p = drop (item_pointer_size - address_bits d div 8) (htobe64 p)"

text \<open>
  The main loop of \<^verbatim>\<open>load\<close> over the sorted pointers: \<open>place\<close> turns an offset in the
  storage for immediates into a pointer, \<open>buf\<close> is that storage, \<open>nxt\<close> the offset of
  \<^verbatim>\<open>next_immediate\<close>.
\<close>

fun load_items ::
  "pointer_decoder \<Rightarrow> s_item_pointer_t \<Rightarrow> bool \<Rightarrow> (nat \<Rightarrow> item_ptr) \<Rightarrow> item_pointer_t list \<Rightarrow>
   byte list \<Rightarrow> nat \<Rightarrow> fault + (recv_item list \<times> byte list)" where
  "load_items d min_length keep_addressed place [] buf nxt = Inr ([], buf)"
| "load_items d min_length keep_addressed place (p # rest) buf nxt =
     (if get_id d p = 0 then load_items d min_length keep_addressed place rest buf nxt
      else if is_immediate d p then
        bind_result (mem_write buf nxt (immediate_bytes d p)) (\<lambda>buf'.
        bind_result (load_items d min_length keep_addressed place rest buf'
                       (nxt + address_bits d div 8)) (\<lambda>(its, buf'').
        Inr (\<lparr>ri_id = get_id d p, ri_ptr = place nxt, ri_length = address_bits d div 8,
              ri_immediate_value = word_of_int (get_immediate d p), ri_is_immediate = True\<rparr> # its,
             buf'')))
      else if \<not> keep_addressed then load_items d min_length keep_addressed place rest buf nxt
      else
        (let start = get_address d p; end' = item_end d min_length rest in
         if \<not> start \<le> min_length then Inl Assertion_failed
         else if start = end' then load_items d min_length keep_addressed place rest buf nxt
         else
           bind_result (load_items d min_length keep_addressed place rest buf nxt) (\<lambda>(its, buf').
           Inr (\<lparr>ri_id = get_id d p, ri_ptr = In_payload (nat start),
                 ri_length = nat (end' - start),
                 ri_immediate_value = 0, ri_is_immediate = False\<rparr> # its, buf'))))"

definition n_immediates :: "pointer_decoder \<Rightarrow> item_pointer_t list \<Rightarrow> nat" where
  "n_immediates d ps = length (filter (is_immediate d) ps)"

text \<open>\<^verbatim>\<open>stable_sort\<close> rearranges the pointers in place.\<close>

definition set_pointers :: "item_pointer_t list \<Rightarrow> live_heap \<Rightarrow> live_heap" where
  "set_pointers ps h =
     (if lh_n_inline_pointers h \<ge> 0
      then h\<lparr>lh_inline_pointers := ps @ drop (length ps) (lh_inline_pointers h)\<rparr>
      else h\<lparr>lh_external_pointers := ps\<rparr>)"

definition load ::
  "(nat \<Rightarrow> byte) \<Rightarrow> live_heap \<Rightarrow> bool \<Rightarrow> bool \<Rightarrow> heap_base \<Rightarrow> fault + (heap_base \<times> live_heap)" where
  "load fresh h keep_addressed keep_payload hb =
     (if \<not> (is_contiguous h \<or> \<not> keep_addressed) then Inl Assertion_failed
      else
        (let d = lh_decoder h;
             ptrs = sorted_pointers d (lh_pointers h);
             h1 = set_pointers ptrs h;
             needed = address_bits d div 8 * n_immediates d ptrs;
             external = needed > inline_size;
             place = (if external then In_immediate else In_inline (hb_self hb));
             buf = (if external then map fresh [0..<needed] else hb_immediate_inline hb)
         in bind_result (load_items d (lh_min_length h) keep_addressed place ptrs buf 0)
              (\<lambda>(its, buf').
            case make_flavour 4 (8 * int item_pointer_size) (int (address_bits d)) (lh_bug_compat h) of
              Inl msg \<Rightarrow> Inl (Exception msg)
            | Inr fl \<Rightarrow>
                let hb1 = (if external then hb\<lparr>hb_immediate_payload := Some buf'\<rparr>
                           else hb\<lparr>hb_immediate_inline := buf'\<rparr>);
                    hb2 = hb1\<lparr>hb_items := hb_items hb1 @ its, hb_cnt := lh_cnt h, hb_flavour := fl\<rparr>
                in if keep_payload
                   then Inr (hb2\<lparr>hb_payload := lh_payload h\<rparr>, h1\<lparr>lh_payload := None\<rparr>)
                   else Inr (hb2, h1))))"

text \<open>\<^verbatim>\<open>heap::heap(live_heap &&)\<close>: the new heap and the live heap it leaves behind.\<close>

definition make_heap ::
  "(nat \<Rightarrow> byte) \<Rightarrow> nat \<Rightarrow> live_heap \<Rightarrow> fault + (heap_base \<times> live_heap)" where
  "make_heap fresh self h =
     (if \<not> is_contiguous h then Inl Assertion_failed
      else bind_result (load fresh h True True (new_heap_base fresh self)) (\<lambda>(hb, h').
        Inr (hb, reset h')))"

record incomplete_heap =
  ih_base :: heap_base
  ih_payload_ranges :: ranges
  ih_heap_length :: s_item_pointer_t
  ih_received_length :: s_item_pointer_t

definition make_incomplete_heap ::
  "(nat \<Rightarrow> byte) \<Rightarrow> nat \<Rightarrow> live_heap \<Rightarrow> bool \<Rightarrow> bool \<Rightarrow> fault + (incomplete_heap \<times> live_heap)" where
  "make_incomplete_heap fresh self h keep_payload keep_payload_ranges =
     bind_result (load fresh h False keep_payload (new_heap_base fresh self)) (\<lambda>(hb, h').
     Inr (\<lparr>ih_base = hb,
           ih_payload_ranges = (if keep_payload_ranges then lh_payload_ranges h' else []),
           ih_heap_length = lh_heap_length h, ih_received_length = lh_received_length h\<rparr>,
          reset h'))"

definition get_payload_ranges :: "incomplete_heap \<Rightarrow> (s_item_pointer_t \<times> s_item_pointer_t) list" where
  "get_payload_ranges ih = ih_payload_ranges ih"

section \<open>Moving a heap\<close>

text \<open>
  A pointer into the inline storage of \<open>other\<close> is made to point into that of the new
  object; \<^verbatim>\<open>it.ptr - other.immediate_payload_inline\<close> is only defined for such a pointer.
\<close>

fun retarget :: "nat \<Rightarrow> nat \<Rightarrow> item_ptr \<Rightarrow> fault + item_ptr" where
  "retarget self other (In_inline a off) =
     (if a = other then Inr (In_inline self off) else Inl Out_of_bounds)"
| "retarget self other _ = Inl Out_of_bounds"

fun retarget_items :: "nat \<Rightarrow> nat \<Rightarrow> recv_item list \<Rightarrow> fault + recv_item list" where
  "retarget_items self other [] = Inr []"
| "retarget_items self other (it # its) =
     bind_result
       (if ri_is_immediate it
        then bind_result (retarget self other (ri_ptr it)) (\<lambda>p. Inr (it\<lparr>ri_ptr := p\<rparr>))
        else Inr it) (\<lambda>it'.
     bind_result (retarget_items self other its) (\<lambda>its'. Inr (it' # its')))"

definition transfer_immediates :: "heap_base \<Rightarrow> heap_base \<Rightarrow> fault + heap_base" where
  "transfer_immediates other hb =
     (if hb_immediate_payload hb = None then
        bind_result (retarget_items (hb_self hb) (hb_self other) (hb_items hb)) (\<lambda>its.
        Inr (hb\<lparr>hb_immediate_inline := hb_immediate_inline other, hb_items := its\<rparr>))
      else Inr hb)"

text \<open>Move assignment; the move constructor is the same on a new object.\<close>

definition move_assign :: "heap_base \<Rightarrow> heap_base \<Rightarrow> fault + heap_base" where
  "move_assign hb other =
     transfer_immediates other
       (hb\<lparr>hb_cnt := hb_cnt other, hb_flavour := hb_flavour other, hb_items := hb_items other,
          hb_immediate_payload := hb_immediate_payload other, hb_payload := hb_payload other\<rparr>)"

definition move_construct :: "(nat \<Rightarrow> byte) \<Rightarrow> nat \<Rightarrow> heap_base \<Rightarrow> fault + heap_base" where
  "move_construct fresh self other = move_assign (new_heap_base fresh self) other"

section \<open>Reading items\<close>

text \<open>The memory an item points to, and the item's bytes there.\<close>

fun item_memory :: "heap_base \<Rightarrow> item_ptr \<Rightarrow> fault + byte list" where
  "item_memory hb (In_inline a off) =
     (if a = hb_self hb then Inr (drop off (hb_immediate_inline hb)) else Inl Out_of_bounds)"
| "item_memory hb (In_immediate off) =
     (case hb_immediate_payload hb of None \<Rightarrow> Inl Null_dereference | Some m \<Rightarrow> Inr (drop off m))"
| "item_memory hb (In_payload off) =
     (case hb_payload hb of None \<Rightarrow> Inl Null_dereference | Some m \<Rightarrow> Inr (drop off m))"

definition item_bytes :: "heap_base \<Rightarrow> recv_item \<Rightarrow> fault + byte list" where
  "item_bytes hb it = bind_result (item_memory hb (ri_ptr it)) (\<lambda>m. mem_read m (ri_length it))"

fun ctrl_item_among :: "heap_base \<Rightarrow> int \<Rightarrow> recv_item list \<Rightarrow> fault + bool" where
  "ctrl_item_among hb v [] = Inr False"
| "ctrl_item_among hb v (it # its) =
     (if ri_id it = STREAM_CTRL_ID then
        bind_result (item_memory hb (ri_ptr it)) (\<lambda>m.
        bind_result (load_bytes_be m (int_of_size (ri_length it))) (\<lambda>item_value.
        if uint item_value = v then Inr True else ctrl_item_among hb v its))
      else ctrl_item_among hb v its)"

definition is_ctrl_item :: "ctrl_mode \<Rightarrow> heap_base \<Rightarrow> fault + bool" where
  "is_ctrl_item v hb = ctrl_item_among hb (ctrl_value v) (hb_items hb)"

definition heap_is_start_of_stream :: "heap_base \<Rightarrow> fault + bool" where
  "heap_is_start_of_stream hb = is_ctrl_item CTRL_STREAM_START hb"

definition heap_is_end_of_stream :: "heap_base \<Rightarrow> fault + bool" where
  "heap_is_end_of_stream hb = is_ctrl_item CTRL_STREAM_STOP hb"

section \<open>Descriptors\<close>

text \<open>
  The two field loops of \<^verbatim>\<open>to_descriptor\<close> on the bytes not yet consumed; a field has one
  byte and a number of \<open>k\<close> bytes, so \<^verbatim>\<open>field_size\<close> is \<open>Suc k\<close>.
\<close>

function format_fields :: "nat \<Rightarrow> byte list \<Rightarrow> fault + (byte \<times> s_item_pointer_t) list" where
  "format_fields k bs =
     (if Suc k \<le> length bs then
        bind_result (load_bytes_be (drop 1 bs) (int k)) (\<lambda>bits.
        bind_result (format_fields k (drop (Suc k) bs)) (\<lambda>rest.
        Inr ((hd bs, sint bits) # rest)))
      else Inr [])"
  by pat_completeness auto
termination
  by (relation "measure (\<lambda>(k, bs). length bs)") auto

function shape_fields :: "nat \<Rightarrow> byte \<Rightarrow> byte list \<Rightarrow> fault + s_item_pointer_t list" where
  "shape_fields k mask' bs =
     (if Suc k \<le> length bs then
        bind_result (if hd bs AND mask' \<noteq> 0 then Inr (- 1) else load_bytes_be (drop 1 bs) (int k)) (\<lambda>sz.
        bind_result (shape_fields k mask' (drop (Suc k) bs)) (\<lambda>rest.
        Inr (sint sz # rest)))
      else Inr [])"
  by pat_completeness auto
termination
  by (relation "measure (\<lambda>(k, m, bs). length bs)") auto

declare format_fields.simps [simp del] shape_fields.simps [simp del]

text \<open>The body of the item loop of \<^verbatim>\<open>to_descriptor\<close>.\<close>

definition descriptor_item ::
  "heap_base \<Rightarrow> recv_item \<Rightarrow> descriptor \<Rightarrow> fault + descriptor" where
  "descriptor_item hb it out =
     (let immediate_size = fl_heap_address_bits (hb_flavour hb) div 8;
          id_size = item_pointer_size - immediate_size;
          bug_compat = fl_bug_compat (hb_flavour hb)
      in if ri_id it = DESCRIPTOR_ID_ID then
           if ri_is_immediate it then
             bind_result (item_memory hb (ri_ptr it)) (\<lambda>m.
             bind_result (load_bytes_be m (int_of_size (ri_length it))) (\<lambda>v.
             Inr (out\<lparr>d_id := sint v\<rparr>)))
           else Inr out
         else if ri_id it = DESCRIPTOR_NAME_ID then
           bind_result (item_bytes hb it) (\<lambda>bs. Inr (out\<lparr>d_name := bs\<rparr>))
         else if ri_id it = DESCRIPTOR_DESCRIPTION_ID then
           bind_result (item_bytes hb it) (\<lambda>bs. Inr (out\<lparr>d_description := bs\<rparr>))
         else if ri_id it = DESCRIPTOR_FORMAT_ID then
           bind_result (item_bytes hb it) (\<lambda>bs.
           bind_result (format_fields
             (if bug_compat AND BUG_COMPAT_DESCRIPTOR_WIDTHS \<noteq> 0 then 3 else id_size) bs) (\<lambda>fs.
           Inr (out\<lparr>d_format := d_format out @ fs\<rparr>)))
         else if ri_id it = DESCRIPTOR_SHAPE_ID then
           bind_result (item_bytes hb it) (\<lambda>bs.
           bind_result (shape_fields
             (if bug_compat AND BUG_COMPAT_DESCRIPTOR_WIDTHS \<noteq> 0 then 7 else immediate_size)
             (if bug_compat AND BUG_COMPAT_SHAPE_BIT_1 \<noteq> 0 then 2 else 1) bs) (\<lambda>ss.
           Inr (out\<lparr>d_shape := d_shape out @ ss\<rparr>)))
         else if ri_id it = DESCRIPTOR_DTYPE_ID then
           bind_result (item_bytes hb it) (\<lambda>bs. Inr (out\<lparr>d_numpy_header := bs\<rparr>))
         else Inr out)"

definition to_descriptor :: "heap_base \<Rightarrow> fault + descriptor" where
  "to_descriptor hb =
     bind_result (fold_result (descriptor_item hb) (hb_items hb) empty_descriptor) (\<lambda>out.
     Inr (if d_numpy_header out \<noteq> [] then out\<lparr>d_shape := [], d_format := []\<rparr> else out))"

section \<open>Reference\<close>

text \<open>
  What the items of a heap are, as triples of identifier, mode and value: a pure
  function of the sorted pointers and the payload.
\<close>

type_synonym item_value = "s_item_pointer_t \<times> bool \<times> byte list"

fun heap_items ::
  "pointer_decoder \<Rightarrow> s_item_pointer_t \<Rightarrow> bool \<Rightarrow> byte list \<Rightarrow> item_pointer_t list \<Rightarrow> item_value list" where
  "heap_items d ml keep payload [] = []"
| "heap_items d ml keep payload (p # rest) =
     (if get_id d p = 0 then []
      else if is_immediate d p then [(get_id d p, True, immediate_bytes d p)]
      else if keep \<and> get_address d p \<noteq> item_end d ml rest
        then [(get_id d p, False, take (nat (item_end d ml rest - get_address d p))
                (drop (nat (get_address d p)) payload))]
      else []) @ heap_items d ml keep payload rest"

text \<open>The items of a frozen heap as such triples; every one of them can be read.\<close>

definition item_view :: "heap_base \<Rightarrow> recv_item \<Rightarrow> item_value \<Rightarrow> bool" where
  "item_view hb it v \<longleftrightarrow> (case v of (i, imm, bs) \<Rightarrow>
     ri_id it = i \<and> ri_is_immediate it = imm \<and> ri_length it = length bs \<and> item_bytes hb it = Inr bs)"

definition heap_view :: "heap_base \<Rightarrow> item_value list \<Rightarrow> bool" where
  "heap_view hb vs \<longleftrightarrow> list_all2 (item_view hb) (hb_items hb) vs"

section \<open>Sorting\<close>

lemma and_top_bit:
  fixes p :: "64 word"
  assumes "64 \<le> Suc k"
  shows "p AND push_bit k 1 = push_bit k (drop_bit k p)"
proof (rule bit_word_eqI)
  fix i
  assume "i < LENGTH(64)"
  then have "k \<le> i \<Longrightarrow> i = k" using assms by simp
  then show "bit (p AND push_bit k 1) i = bit (push_bit k (drop_bit k p)) i"
    by (auto simp: bit_simps)
qed

lemma sort_key_nat:
  assumes "n < 63"
  shows "unat (p AND sort_mask (make_pointer_decoder n)) =
    (if is_immediate d p then 2 ^ 63 else 0) + unat p mod 2 ^ n"
proof -
  let ?m = "push_bit n 1 - 1 :: 64 word"
  have "p AND sort_mask (make_pointer_decoder n) = (p AND push_bit 63 1) OR (p AND ?m)"
    by (simp add: sort_mask_def immediate_mask_def item_pointer_size_def and.commute bit.conj_disj_distrib)
  moreover have "p AND push_bit 63 1 = push_bit 63 (drop_bit 63 p)"
    by (rule and_top_bit) simp
  moreover have d63: "unat (drop_bit 63 p) = (if is_immediate d p then 1 else 0)"
  proof -
    have "unat p < 2 ^ 64" using unsigned_less [of p, where 'a = nat] by simp
    then have "unat p div 2 ^ 63 < 2" by (simp add: less_mult_imp_div_less)
    then show ?thesis
      by (auto simp only: unat_shift_right is_immediate_nat) (auto simp: div_eq_0_iff less_2_cases_iff)
  qed
  ultimately have key: "p AND sort_mask (make_pointer_decoder n) =
      push_bit 63 (drop_bit 63 p) OR (p AND ?m)" by simp
  have hi: "unat (push_bit 63 (drop_bit 63 p)) = unat (drop_bit 63 p) * 2 ^ 63"
    by (rule unat_shift_left) (simp add: d63)
  have "unat p mod 2 ^ n < 2 ^ n" by simp
  also have "\<dots> \<le> (2 :: nat) ^ 63" using assms by (intro power_increasing) simp_all
  finally have "unat (p AND ?m) < 2 ^ 63" by (simp only: unat_and_mask)
  from unat_or_disjoint [OF hi this] show ?thesis
    by (simp only: key d63 unat_and_mask) simp
qed

lemma set_sorted_pointers [simp]: "set (sorted_pointers d ps) = set ps"
  by (simp add: sorted_pointers_def)

lemma length_sorted_pointers [simp]: "length (sorted_pointers d ps) = length ps"
  by (simp add: sorted_pointers_def)

lemma sorted_pointers_addresses:
  assumes "wf_bits n" "d = make_pointer_decoder n" "sorted_pointers d ps = xs @ p # q # ys"
    and "\<not> is_immediate d p" "\<not> is_immediate d q"
  shows "get_address d p \<le> get_address d q"
proof -
  have "n < 63" using wf_bits_le [OF assms(1)] by simp
  have "sorted (map (\<lambda>p. p AND sort_mask d) (xs @ p # q # ys))"
    using assms(3) sorted_sort_key [of "\<lambda>p. p AND sort_mask d" ps] by (simp add: sorted_pointers_def)
  then have "p AND sort_mask d \<le> q AND sort_mask d" by (simp add: sorted_append)
  then have "unat (p AND sort_mask d) \<le> unat (q AND sort_mask d)" by (simp add: word_le_nat_alt)
  then show ?thesis
    using assms(4,5) \<open>n < 63\<close>
    by (simp add: assms(2) sort_key_nat [of n _ "make_pointer_decoder n"] get_address_nat)
qed

section \<open>The item loop\<close>

lemma length_immediate_bytes:
  assumes "wf_bits n" "d = make_pointer_decoder n"
  shows "length (immediate_bytes d p) = n div 8"
  using assms by (elim wf_bits_cases) (simp_all add: immediate_bytes_def item_pointer_size_def)

definition imm_block :: "pointer_decoder \<Rightarrow> item_pointer_t list \<Rightarrow> byte list" where
  "imm_block d ps =
     concat (map (immediate_bytes d) (filter (\<lambda>p. get_id d p \<noteq> 0 \<and> is_immediate d p) ps))"

lemma length_imm_block:
  assumes "wf_bits n" "d = make_pointer_decoder n"
  shows "length (imm_block d ps) \<le> address_bits d div 8 * n_immediates d ps"
proof -
  have "address_bits d = n" using assms(2) by simp
  then show ?thesis
    by (induction ps) (auto simp: imm_block_def n_immediates_def length_immediate_bytes [OF assms])
qed

text \<open>What the loop relies on: addresses ascend and do not exceed \<^verbatim>\<open>min_length\<close>.\<close>

fun addresses_ok :: "pointer_decoder \<Rightarrow> s_item_pointer_t \<Rightarrow> item_pointer_t list \<Rightarrow> bool" where
  "addresses_ok d ml [] \<longleftrightarrow> True"
| "addresses_ok d ml (p # rest) \<longleftrightarrow>
     (\<not> is_immediate d p \<longrightarrow> get_address d p \<le> ml \<and> get_address d p \<le> item_end d ml rest) \<and>
     addresses_ok d ml rest"

lemma addresses_ok_sorted:
  assumes "wf_bits n" "d = make_pointer_decoder n"
    and "\<forall>p \<in> set ps. \<not> is_immediate d p \<longrightarrow> get_address d p \<le> ml"
  shows "addresses_ok d ml (sorted_pointers d ps)"
proof -
  have "addresses_ok d ml ys" if "sorted_pointers d ps = xs @ ys" for xs ys
    using that
  proof (induction ys arbitrary: xs)
    case (Cons p rest)
    have "p \<in> set ps" using Cons.prems set_sorted_pointers [of d ps] by auto
    then have "get_address d p \<le> ml" if "\<not> is_immediate d p" using assms(3) that by blast
    moreover have "get_address d p \<le> item_end d ml rest" if "\<not> is_immediate d p"
    proof (cases rest)
      case Nil
      with \<open>\<not> is_immediate d p\<close> calculation show ?thesis by (simp add: item_end_def)
    next
      case (Cons q qs)
      with sorted_pointers_addresses [OF assms(1,2), of ps xs p q qs] Cons.prems that calculation
      show ?thesis by (auto simp: item_end_def)
    qed
    moreover have "addresses_ok d ml rest"
      using Cons.IH [of "xs @ [p]"] Cons.prems by simp
    ultimately show ?case by simp
  qed simp
  from this [of "[]"] show ?thesis by simp
qed

text \<open>Items as the loop produces them, matched with the reference.\<close>

definition loaded_item ::
  "(nat \<Rightarrow> item_ptr) \<Rightarrow> byte list \<Rightarrow> byte list \<Rightarrow> s_item_pointer_t \<Rightarrow> recv_item \<Rightarrow> item_value \<Rightarrow> bool" where
  "loaded_item place fb payload ml it v \<longleftrightarrow> (case v of (i, imm, bs) \<Rightarrow>
     ri_id it = i \<and> ri_is_immediate it = imm \<and>
     (if imm then \<exists>off. ri_ptr it = place off \<and> off + length bs \<le> length fb
          \<and> ri_length it = length bs \<and> take (length bs) (drop off fb) = bs
      else \<exists>off. ri_ptr it = In_payload off \<and> int off + int (ri_length it) \<le> ml
          \<and> bs = take (ri_length it) (drop off payload)))"

lemma item_end_le:
  assumes "addresses_ok d ml rest"
  shows "item_end d ml rest \<le> ml"
  using assms by (cases rest) (auto simp: item_end_def)

lemma load_items_ok:
  assumes d: "wf_bits n" "d = make_pointer_decoder n" and "addresses_ok d ml ps"
    and "nxt + length (imm_block d ps) \<le> length buf"
  shows "\<exists>its fb. load_items d ml keep place ps buf nxt = Inr (its, fb) \<and>
    fb = take nxt buf @ imm_block d ps @ drop (nxt + length (imm_block d ps)) buf \<and>
    list_all2 (loaded_item place fb payload ml) its (heap_items d ml keep payload ps)"
  using assms(3,4)
proof (induction ps arbitrary: buf nxt)
  case Nil
  then show ?case by (simp add: imm_block_def)
next
  case (Cons p rest)
  note len = length_immediate_bytes [OF d] and IH = Cons.IH
  have ok: "addresses_ok d ml rest" using Cons.prems(1) by simp
  have nonneg: "0 \<le> get_address d p" using get_address_nonneg [OF d(1)] d(2) by simp
  show ?case
  proof (cases "get_id d p \<noteq> 0 \<and> is_immediate d p")
    case True
    let ?b = "immediate_bytes d p" and ?r = "imm_block d rest" and ?k = "n div 8"
    have blk: "imm_block d (p # rest) = ?b @ ?r" using True by (simp add: imm_block_def)
    define buf' where "buf' = take nxt buf @ ?b @ drop (nxt + length ?b) buf"
    have room: "nxt + ?k + length ?r \<le> length buf" using Cons.prems(2) by (simp add: blk len)
    have w: "mem_write buf nxt ?b = Inr buf'"
      using room by (simp add: mem_write_def buf'_def len)
    have len': "length buf' = length buf" by (rule mem_write_length [OF w])
    obtain its fb where rec: "load_items d ml keep place rest buf' (nxt + ?k) = Inr (its, fb)"
      and fb: "fb = take (nxt + ?k) buf' @ ?r @ drop (nxt + ?k + length ?r) buf'"
      and all: "list_all2 (loaded_item place fb payload ml) its (heap_items d ml keep payload rest)"
      using IH [OF ok, of "nxt + ?k" buf'] room len' by auto
    have tk: "take (nxt + ?k) buf' = take nxt buf @ ?b" and
      dr: "drop (nxt + ?k + length ?r) buf' = drop (nxt + ?k + length ?r) buf"
      using room by (simp_all add: buf'_def len add.commute add.left_commute)
    have fb': "fb = take nxt buf @ (?b @ ?r) @ drop (nxt + length (?b @ ?r)) buf"
      using dr by (simp add: fb tk len add.assoc)
    have "nxt \<le> length buf" using room by simp
    then have at: "take ?k (drop nxt fb) = ?b" "nxt + ?k \<le> length fb"
      by (simp_all add: fb' len)
    have bits: "address_bits d = n" using d(2) by simp
    let ?it = "\<lparr>ri_id = get_id d p, ri_ptr = place nxt, ri_length = ?k,
      ri_immediate_value = word_of_int (get_immediate d p), ri_is_immediate = True\<rparr>"
    have "loaded_item place fb payload ml ?it (get_id d p, True, ?b)"
      using at by (auto simp: loaded_item_def len)
    moreover have "load_items d ml keep place (p # rest) buf nxt = Inr (?it # its, fb)"
      using True w rec by (simp add: bits)
    moreover have "heap_items d ml keep payload (p # rest) =
        (get_id d p, True, ?b) # heap_items d ml keep payload rest"
      using True by simp
    ultimately show ?thesis
      using all fb' by (simp only: blk) simp
  next
    case False
    then have blk: "imm_block d (p # rest) = imm_block d rest" by (auto simp: imm_block_def)
    obtain its fb where rec: "load_items d ml keep place rest buf nxt = Inr (its, fb)"
      and fb: "fb = take nxt buf @ imm_block d rest @ drop (nxt + length (imm_block d rest)) buf"
      and all: "list_all2 (loaded_item place fb payload ml) its (heap_items d ml keep payload rest)"
      using IH [OF ok, of nxt buf] Cons.prems(2) by (auto simp: blk)
    let ?e = "item_end d ml rest"
    show ?thesis
    proof (cases "get_id d p \<noteq> 0 \<and> keep \<and> get_address d p \<noteq> ?e")
      case new: True
      let ?it = "\<lparr>ri_id = get_id d p, ri_ptr = In_payload (nat (get_address d p)),
        ri_length = nat (?e - get_address d p), ri_immediate_value = 0, ri_is_immediate = False\<rparr>"
      let ?v = "(get_id d p, False, take (nat (?e - get_address d p)) (drop (nat (get_address d p)) payload))"
      have adr: "\<not> is_immediate d p" "get_address d p \<le> ml" "get_address d p \<le> ?e"
        using False new Cons.prems(1) by auto
      have "loaded_item place fb payload ml ?it ?v"
        using adr nonneg item_end_le [OF ok] by (simp add: loaded_item_def)
      moreover have "load_items d ml keep place (p # rest) buf nxt = Inr (?it # its, fb)"
        using new adr rec by (simp add: Let_def)
      moreover have "heap_items d ml keep payload (p # rest) = ?v # heap_items d ml keep payload rest"
        using new adr by simp
      ultimately show ?thesis using fb all by (simp only: blk) simp
    next
      case skip: False
      have "load_items d ml keep place (p # rest) buf nxt = Inr (its, fb)"
        using skip False Cons.prems(1) rec by (auto simp: Let_def)
      moreover have "heap_items d ml keep payload (p # rest) = heap_items d ml keep payload rest"
        using skip False by auto
      ultimately show ?thesis using fb all by (simp only: blk) simp
    qed
  qed
qed

section \<open>Freezing\<close>

text \<open>The payload as the items see it; it is absent only if it is empty.\<close>

definition lh_payload_bytes :: "live_heap \<Rightarrow> byte list" where
  "lh_payload_bytes h = (case lh_payload h of None \<Rightarrow> [] | Some m \<Rightarrow> m)"

lemma contiguous_payload:
  assumes "lh_inv h" "is_contiguous h"
  shows "lh_min_length h \<le> int (length (lh_payload_bytes h))"
    "lh_payload h = None \<Longrightarrow> lh_min_length h = 0"
proof -
  have cov: "covered (lh_payload_ranges h) = {0..<lh_min_length h}" "0 \<le> lh_min_length h"
    using assms contiguous_covered by (auto simp: lh_inv_def lengths_inv_def)
  have le: "lh_min_length h \<le> int (lh_payload_reserved h)"
  proof (cases "lh_min_length h = 0")
    case False
    then have "lh_min_length h - 1 \<in> covered (lh_payload_ranges h)" using cov by simp
    then show ?thesis
      using assms(1) by (fastforce simp: covered_iff lh_inv_def lengths_inv_def)
  qed simp
  have "memory_inv h" using assms(1) by (simp add: lh_inv_def)
  with le cov(2) show "lh_min_length h \<le> int (length (lh_payload_bytes h))"
    "lh_payload h = None \<Longrightarrow> lh_min_length h = 0"
    by (auto simp: memory_inv_def lh_payload_bytes_def split: option.splits)
qed

text \<open>The result of \<^verbatim>\<open>load\<close>, whatever is kept: the items match the reference.\<close>

definition load_result ::
  "live_heap \<Rightarrow> bool \<Rightarrow> bool \<Rightarrow> heap_base \<Rightarrow> heap_base \<Rightarrow> bool" where
  "load_result h ka kp hb hb' \<longleftrightarrow>
     hb_self hb' = hb_self hb \<and> hb_cnt hb' = lh_cnt h \<and>
     fl_heap_address_bits (hb_flavour hb') = address_bits (lh_decoder h) \<and>
     fl_bug_compat (hb_flavour hb') = lh_bug_compat h \<and>
     hb_payload hb' = (if kp then lh_payload h else hb_payload hb) \<and>
     length (hb_immediate_inline hb') = inline_size \<and>
     (\<forall>it \<in> set (hb_items hb'). ri_is_immediate it \<longrightarrow>
        (if hb_immediate_payload hb' = None then \<exists>off. ri_ptr it = In_inline (hb_self hb') off
         else \<exists>off. ri_ptr it = In_immediate off)) \<and>
     (\<forall>it \<in> set (hb_items hb'). \<not> ri_is_immediate it \<longrightarrow> (\<exists>off. ri_ptr it = In_payload off)) \<and>
     heap_view hb' (heap_items (lh_decoder h) (lh_min_length h) ka (lh_payload_bytes h)
       (sorted_pointers (lh_decoder h) (lh_pointers h)))"

lemma loaded_item_view:
  assumes "loaded_item place fb payload ml it v"
    and place: "\<And>off. item_memory hb (place off) = Inr (drop off fb)"
    and pl: "fst (snd v) \<or> hb_payload hb = Some payload \<and> ml \<le> int (length payload)"
  shows "item_view hb it v"
proof -
  obtain i imm bs where v: "v = (i, imm, bs)" by (cases v)
  show ?thesis
  proof (cases imm)
    case True
    with assms(1) show ?thesis
      by (auto simp: v loaded_item_def item_view_def item_bytes_def place mem_read_def)
  next
    case False
    with pl have "hb_payload hb = Some payload" "ml \<le> int (length payload)" by (simp_all add: v)
    with assms(1) False show ?thesis
      by (auto simp: v loaded_item_def item_view_def item_bytes_def mem_read_def)
  qed
qed

lemma heap_items_addressed:
  assumes "(i, False, bs) \<in> set (heap_items d ml keep payload ps)"
  shows "keep" "\<exists>p \<in> set ps. \<not> is_immediate d p \<and> get_id d p = i"
  using assms by (induction ps) (auto split: if_splits)

lemma heap_items_empty_payload:
  assumes "addresses_ok d 0 ps" "\<And>p. 0 \<le> get_address d p"
  shows "(i, False, bs) \<notin> set (heap_items d 0 keep payload ps)"
  using assms(1)
proof (induction ps)
  case (Cons p ps)
  then have "item_end d 0 ps \<le> 0" using item_end_le [of d 0 ps] by simp
  with Cons assms(2) [of p] show ?case by (auto split: if_splits)
qed simp

lemma load_ok:
  assumes inv: "lh_inv h" and c: "is_contiguous h \<and> kp \<or> \<not> ka"
    and hb: "hb_items hb = []" "hb_immediate_payload hb = None"
      "length (hb_immediate_inline hb) = inline_size"
  obtains hb' h' where "load fresh h ka kp hb = Inr (hb', h')" "load_result h ka kp hb hb'"
    "reset h' = reset (set_pointers (sorted_pointers (lh_decoder h) (lh_pointers h)) h)"
    "lh_payload_ranges h' = lh_payload_ranges h"
proof -
  define n where "n = address_bits (lh_decoder h)"
  define d where "d = make_pointer_decoder n"
  from inv have wf: "wf_bits n" and d: "lh_decoder h = d"
    by (simp_all add: lh_inv_def n_def d_def)
  define ptrs where "ptrs = sorted_pointers d (lh_pointers h)"
  define needed where "needed = n div 8 * n_immediates d ptrs"
  define place where "place = (if needed > inline_size then In_immediate else In_inline (hb_self hb))"
  define buf where "buf = (if needed > inline_size then map fresh [0..<needed] else hb_immediate_inline hb)"
  let ?ml = "lh_min_length h" and ?pl = "lh_payload_bytes h"
  have bits: "address_bits d = n" by (simp add: d_def)
  have adr: "addresses_ok d ?ml ptrs"
    unfolding ptrs_def using inv d
    by (intro addresses_ok_sorted [OF wf d_def]) (auto simp: lh_inv_def items_inv_def)
  have "length (imm_block d ptrs) \<le> needed"
    using length_imm_block [OF wf d_def, of ptrs] by (simp add: needed_def bits)
  then have "0 + length (imm_block d ptrs) \<le> length buf" by (auto simp: buf_def hb)
  from load_items_ok [OF wf d_def adr this, of ka place ?pl] obtain its fb where
    its: "load_items d ?ml ka place ptrs buf 0 = Inr (its, fb)"
    and len: "length fb = length buf"
    and all: "list_all2 (loaded_item place fb ?pl ?ml) its (heap_items d ?ml ka ?pl ptrs)"
    using \<open>0 + length (imm_block d ptrs) \<le> length buf\<close> by auto
  define fl where "fl = \<lparr>fl_heap_address_bits = n, fl_bug_compat = lh_bug_compat h\<rparr>"
  define hb1 where "hb1 = (if needed > inline_size then hb\<lparr>hb_immediate_payload := Some fb\<rparr>
    else hb\<lparr>hb_immediate_inline := fb\<rparr>)"
  define hb2 where "hb2 = hb1\<lparr>hb_items := its, hb_cnt := lh_cnt h, hb_flavour := fl\<rparr>"
  define hb' where "hb' = (if kp then hb2\<lparr>hb_payload := lh_payload h\<rparr> else hb2)"
  define h' where "h' = (if kp then (set_pointers ptrs h)\<lparr>lh_payload := None\<rparr> else set_pointers ptrs h)"
  have "make_flavour 4 (8 * int item_pointer_size) (int n) (lh_bug_compat h) = Inr fl"
    using make_flavour_of_wf [OF wf, of "lh_bug_compat h"] by (simp add: fl_def item_pointer_size_def)
  moreover have "(\<not> (is_contiguous h \<or> \<not> ka)) = False" using c by blast
  ultimately have "load fresh h ka kp hb = Inr (hb', h')"
    using hb
    unfolding load_def Let_def d bits ptrs_def [symmetric] needed_def [symmetric]
      place_def [symmetric] buf_def [symmetric]
    by (simp only: if_False its bind_result.simps prod.case sum.case)
      (simp add: hb'_def hb2_def hb1_def h'_def)
  moreover have "reset h' = reset (set_pointers ptrs h)" "lh_payload_ranges h' = lh_payload_ranges h"
    by (simp_all add: h'_def reset_def set_pointers_def)
  moreover have "load_result h ka kp hb hb'"
  proof -
    have sel: "hb_items hb' = its" "hb_self hb' = hb_self hb"
      "hb_payload hb' = (if kp then lh_payload h else hb_payload hb)"
      "length (hb_immediate_inline hb') = inline_size" "hb_cnt hb' = lh_cnt h" "hb_flavour hb' = fl"
      using len by (simp_all add: hb'_def hb2_def hb1_def hb buf_def)
    have place': "item_memory hb' (place off) = Inr (drop off fb)"
      "if hb_immediate_payload hb' = None then place off = In_inline (hb_self hb') off
       else place off = In_immediate off" for off
      by (simp_all add: place_def hb'_def hb2_def hb1_def hb)
    have kind: "if ri_is_immediate it then \<exists>off. ri_ptr it = place off else \<exists>off. ri_ptr it = In_payload off"
      if mem: "it \<in> set its" for it
    proof -
      obtain v where "loaded_item place fb ?pl ?ml it v"
        using list_all2_in1 [OF all mem] by blast
      then show ?thesis by (cases v) (auto simp: loaded_item_def split: if_splits)
    qed
    have pl: "fst (snd v) \<or> hb_payload hb' = Some ?pl \<and> ?ml \<le> int (length ?pl)"
      if v: "v \<in> set (heap_items d ?ml ka ?pl ptrs)" for v
    proof (rule disjCI)
      obtain i imm bs where v': "v = (i, imm, bs)" by (cases v)
      assume *: "\<not> (hb_payload hb' = Some ?pl \<and> ?ml \<le> int (length ?pl))"
      show "fst (snd v)"
      proof (rule ccontr)
        assume "\<not> fst (snd v)"
        then have v: "(i, False, bs) \<in> set (heap_items d ?ml ka ?pl ptrs)" using v v' by simp
        then have "ka" by (rule heap_items_addressed)
        then have "is_contiguous h" "kp" using c by simp_all
        note cp = contiguous_payload [OF inv \<open>is_contiguous h\<close>]
        show False
        proof (cases "lh_payload h")
          case None
          then show False
            using heap_items_empty_payload [of d ptrs] adr v cp(2) get_address_nonneg [OF wf]
            by (auto simp: d_def)
        next
          case (Some m)
          with * cp(1) sel(3) \<open>kp\<close> show False by (simp add: lh_payload_bytes_def)
        qed
      qed
    qed
    have "list_all2 (item_view hb') its (heap_items d ?ml ka ?pl ptrs)"
      using all
      by (rule list.rel_mono_strong) (rule loaded_item_view [OF _ place'(1) pl])
    then have "heap_view hb' (heap_items d ?ml ka ?pl ptrs)" by (simp add: heap_view_def sel)
    moreover have "if hb_immediate_payload hb' = None then \<exists>off. ri_ptr it = In_inline (hb_self hb') off
        else \<exists>off. ri_ptr it = In_immediate off" if "it \<in> set its" "ri_is_immediate it" for it
      using kind [OF that(1)] that(2) place'(2) by (metis (full_types))
    moreover have "\<exists>off. ri_ptr it = In_payload off" if "it \<in> set its" "\<not> ri_is_immediate it" for it
      using kind [OF that(1)] that(2) by simp
    ultimately show ?thesis
      unfolding load_result_def d ptrs_def [symmetric] sel by (simp add: fl_def bits)
  qed
  ultimately show ?thesis
    by (intro that [of hb' h']) (simp_all add: d ptrs_def)
qed

section \<open>The two constructors\<close>

lemma new_heap_base_sel [simp]:
  "hb_items (new_heap_base fresh self) = []" "hb_immediate_payload (new_heap_base fresh self) = None"
  "length (hb_immediate_inline (new_heap_base fresh self)) = inline_size"
  "hb_self (new_heap_base fresh self) = self" "hb_payload (new_heap_base fresh self) = None"
  by (simp_all add: new_heap_base_def)

lemma pointers_inv_length:
  assumes "pointers_inv h"
  shows "0 \<le> lh_n_inline_pointers h \<Longrightarrow> int (length (lh_pointers h)) = lh_n_inline_pointers h"
    "length (lh_inline_pointers h) = 8"
  using assms by (auto simp: pointers_inv_def lh_pointers_def)

lemma reset_set_pointers_inv:
  assumes "lh_inv h"
  shows "lh_inv (reset (set_pointers (sorted_pointers d (lh_pointers h)) h))"
proof -
  have p: "pointers_inv h" using assms by (simp add: lh_inv_def)
  have "length (lh_inline_pointers (set_pointers (sorted_pointers d (lh_pointers h)) h)) = 8"
    using pointers_inv_length [OF p] p by (auto simp: set_pointers_def pointers_inv_def)
  then have "pointers_inv (reset (set_pointers (sorted_pointers d (lh_pointers h)) h))"
    by (simp add: pointers_inv_def reset_def lh_pointers_def)
  moreover have "lh_cnt (set_pointers ps h) = lh_cnt h" "lh_decoder (set_pointers ps h) = lh_decoder h" for ps
    by (simp_all add: set_pointers_def)
  ultimately show ?thesis
    using assms
    by (simp add: lh_inv_def reset_def items_inv_def lengths_inv_def memory_inv_def lh_pointers_def)
qed

text \<open>The values a heap frozen from \<open>h\<close> has.\<close>

definition frozen_items :: "live_heap \<Rightarrow> bool \<Rightarrow> item_value list" where
  "frozen_items h ka = heap_items (lh_decoder h) (lh_min_length h) ka (lh_payload_bytes h)
     (sorted_pointers (lh_decoder h) (lh_pointers h))"

lemma make_heap_ok:
  assumes "lh_inv h" "is_contiguous h"
  obtains hb h' where "make_heap fresh self h = Inr (hb, h')"
    "load_result h True True (new_heap_base fresh self) hb" "lh_inv h'"
proof -
  have "is_contiguous h \<and> True \<or> \<not> True" using assms(2) by simp
  with assms(1) obtain hb h1 where
    "load fresh h True True (new_heap_base fresh self) = Inr (hb, h1)"
    "load_result h True True (new_heap_base fresh self) hb"
    "reset h1 = reset (set_pointers (sorted_pointers (lh_decoder h) (lh_pointers h)) h)"
    "lh_payload_ranges h1 = lh_payload_ranges h"
    by (rule load_ok [OF _ _ new_heap_base_sel(1-3)])
  with assms reset_set_pointers_inv [OF assms(1)] show ?thesis
    by (intro that [of hb "reset h1"]) (simp_all add: make_heap_def)
qed

lemma make_incomplete_heap_ok:
  assumes "lh_inv h"
  obtains ih h' where "make_incomplete_heap fresh self h kp kr = Inr (ih, h')"
    "load_result h False kp (new_heap_base fresh self) (ih_base ih)" "lh_inv h'"
    "ih_payload_ranges ih = (if kr then lh_payload_ranges h else [])"
    "ih_heap_length ih = lh_heap_length h" "ih_received_length ih = lh_received_length h"
proof -
  have "is_contiguous h \<and> kp \<or> \<not> False" by simp
  with assms obtain hb h1 where
    "load fresh h False kp (new_heap_base fresh self) = Inr (hb, h1)"
    "load_result h False kp (new_heap_base fresh self) hb"
    "reset h1 = reset (set_pointers (sorted_pointers (lh_decoder h) (lh_pointers h)) h)"
    "lh_payload_ranges h1 = lh_payload_ranges h"
    by (rule load_ok [OF _ _ new_heap_base_sel(1-3)])
  with reset_set_pointers_inv [OF assms] show ?thesis
    by (intro that [of "\<lparr>ih_base = hb, ih_payload_ranges = (if kr then lh_payload_ranges h else []),
        ih_heap_length = lh_heap_length h, ih_received_length = lh_received_length h\<rparr>" "reset h1"])
      (simp_all add: make_incomplete_heap_def)
qed

section \<open>Moving\<close>

text \<open>
  A heap all of whose immediates are in its own storage, as every frozen heap is.
\<close>

definition self_contained :: "heap_base \<Rightarrow> bool" where
  "self_contained hb \<longleftrightarrow> length (hb_immediate_inline hb) = inline_size \<and>
     (\<forall>it \<in> set (hb_items hb). if ri_is_immediate it
        then (if hb_immediate_payload hb = None then \<exists>off. ri_ptr it = In_inline (hb_self hb) off
              else \<exists>off. ri_ptr it = In_immediate off)
        else \<exists>off. ri_ptr it = In_payload off)"

lemma load_result_self_contained: "load_result h ka kp hb hb' \<Longrightarrow> self_contained hb'"
  by (auto simp: load_result_def self_contained_def)

definition moved_item :: "nat \<Rightarrow> recv_item \<Rightarrow> recv_item" where
  "moved_item self it = (case ri_ptr it of In_inline a off \<Rightarrow> it\<lparr>ri_ptr := In_inline self off\<rparr> | _ \<Rightarrow> it)"

lemma retarget_items_ok:
  assumes "\<forall>it \<in> set its. if ri_is_immediate it then \<exists>off. ri_ptr it = In_inline other off
      else \<exists>off. ri_ptr it = In_payload off"
  shows "retarget_items self other its = Inr (map (moved_item self) its)"
  using assms by (induction its) (auto simp: moved_item_def split: if_splits)

lemma move_assign_ok:
  assumes sc: "self_contained other" and view: "heap_view other vs"
    and len: "length (hb_immediate_inline hb) = inline_size"
  obtains hb' where "move_assign hb other = Inr hb'" "self_contained hb'" "heap_view hb' vs"
    "hb_self hb' = hb_self hb" "hb_cnt hb' = hb_cnt other" "hb_flavour hb' = hb_flavour other"
proof (cases "hb_immediate_payload other")
  case None
  define hb' where "hb' = hb\<lparr>hb_cnt := hb_cnt other, hb_flavour := hb_flavour other,
    hb_items := map (moved_item (hb_self hb)) (hb_items other),
    hb_immediate_payload := None, hb_payload := hb_payload other,
    hb_immediate_inline := hb_immediate_inline other\<rparr>"
  have kinds: "\<forall>it \<in> set (hb_items other). if ri_is_immediate it
      then \<exists>off. ri_ptr it = In_inline (hb_self other) off else \<exists>off. ri_ptr it = In_payload off"
    using sc None by (auto simp: self_contained_def)
  have "move_assign hb other = Inr hb'"
    using None retarget_items_ok [OF kinds]
    by (simp add: move_assign_def transfer_immediates_def hb'_def)
  moreover have "self_contained hb'"
    using sc kinds None
    by (fastforce simp: self_contained_def hb'_def moved_item_def split: if_splits item_ptr.splits)
  moreover have "item_view hb' (moved_item (hb_self hb) it) v"
    if "item_view other it v" "it \<in> set (hb_items other)" for it v
    using that kinds None
    by (cases v) (fastforce simp: item_view_def item_bytes_def moved_item_def hb'_def split: if_splits)
  then have "heap_view hb' vs"
    using view unfolding heap_view_def by (auto simp: hb'_def list_all2_conv_all_nth)
  ultimately show ?thesis
    by (rule that) (simp_all add: hb'_def)
next
  case (Some m)
  define hb' where "hb' = hb\<lparr>hb_cnt := hb_cnt other, hb_flavour := hb_flavour other,
    hb_items := hb_items other, hb_immediate_payload := Some m, hb_payload := hb_payload other\<rparr>"
  have "move_assign hb other = Inr hb'"
    using Some by (simp add: move_assign_def transfer_immediates_def hb'_def)
  moreover have "self_contained hb'"
    using sc Some len by (auto simp: self_contained_def hb'_def split: if_splits)
  moreover have "item_view hb' it v" if "item_view other it v" "it \<in> set (hb_items other)" for it v
    using that sc Some
    by (cases v) (fastforce simp: item_view_def item_bytes_def hb'_def self_contained_def split: if_splits)
  then have "heap_view hb' vs"
    using view unfolding heap_view_def by (auto simp: hb'_def list_all2_conv_all_nth)
  ultimately show ?thesis
    by (rule that) (simp_all add: hb'_def)
qed

section \<open>Reading\<close>

lemma int_of_size_small: "n < 2 ^ 31 \<Longrightarrow> int_of_size n = int n"
proof -
  assume "n < 2 ^ 31"
  then have "int n < 2 ^ 31" by simp
  then have "signed_take_bit 31 (int n) = int n"
    by (intro signed_take_bit_int_eq_self) simp_all
  moreover have "sint (word_of_nat n :: 32 word) = signed_take_bit 31 (int n)"
    by (simp add: signed_of_nat)
  ultimately show ?thesis by (simp add: int_of_size_def)
qed

lemma load_bytes_be_ok:
  assumes "k \<le> 8" "k \<le> length m"
  shows "load_bytes_be m (int k) = Inr (word_of_nat (be_nat (take k m)))"
  using assms by (simp add: load_bytes_be_def mem_read_def item_pointer_size_def)

text \<open>Loading a whole item of at most eight bytes.\<close>

lemma load_item:
  assumes "item_view hb it (i, imm, bs)" "length bs \<le> 8"
  shows "bind_result (item_memory hb (ri_ptr it)) (\<lambda>m. load_bytes_be m (int_of_size (ri_length it)))
    = Inr (word_of_nat (be_nat bs))"
proof -
  from assms(1) obtain m where m: "item_memory hb (ri_ptr it) = Inr m" "mem_read m (length bs) = Inr bs"
    and len: "ri_length it = length bs"
    by (cases "item_memory hb (ri_ptr it)") (auto simp: item_view_def item_bytes_def)
  then have "length bs \<le> length m" "take (length bs) m = bs"
    by (auto simp: mem_read_def split: if_splits)
  with m(1) len assms(2) show ?thesis
    by (simp add: int_of_size_small load_bytes_be_ok)
qed

lemma unat_load:
  assumes "length bs \<le> 8"
  shows "unat (word_of_nat (be_nat bs) :: 64 word) = be_nat bs"
proof -
  have "be_nat bs < 256 ^ length bs" by (rule be_nat_less)
  also have "\<dots> \<le> (256 :: nat) ^ 8" using assms by (intro power_increasing) simp_all
  finally show ?thesis by (simp add: unat_of_nat)
qed

lemma load_item_bind:
  assumes "item_view hb it (i, imm, bs)" "length bs \<le> 8"
  shows "bind_result (item_memory hb (ri_ptr it)) (\<lambda>m.
      bind_result (load_bytes_be m (int_of_size (ri_length it))) f) = f (word_of_nat (be_nat bs))"
proof -
  have "bind_result (item_memory hb (ri_ptr it)) (\<lambda>m.
      bind_result (load_bytes_be m (int_of_size (ri_length it))) f) =
    bind_result (bind_result (item_memory hb (ri_ptr it))
      (\<lambda>m. load_bytes_be m (int_of_size (ri_length it)))) f"
    by (simp add: bind_result_assoc)
  then show ?thesis by (simp add: load_item [OF assms])
qed

lemma ctrl_item_among_ok:
  assumes "list_all2 (item_view hb) its vs"
    and "\<forall>(i, imm, bs) \<in> set vs. i = STREAM_CTRL_ID \<longrightarrow> length bs \<le> 8"
  shows "ctrl_item_among hb v its =
    Inr (\<exists>(i, imm, bs) \<in> set vs. i = STREAM_CTRL_ID \<and> int (be_nat bs) = v)"
  using assms
proof (induction rule: list_all2_induct)
  case (Cons it its val vs)
  obtain i imm bs where val: "val = (i, imm, bs)" by (cases val)
  have view: "item_view hb it (i, imm, bs)" "ri_id it = i"
    using Cons.hyps(1) by (simp_all add: val item_view_def)
  show ?case
  proof (cases "i = STREAM_CTRL_ID")
    case True
    then have len: "length bs \<le> 8" using Cons.prems by (simp add: val)
    have "uint (word_of_nat (be_nat bs) :: 64 word) = int (be_nat bs)"
      using unat_load [OF len] by (simp add: uint_nat)
    then have "ctrl_item_among hb v (it # its) =
        (if int (be_nat bs) = v then Inr True else ctrl_item_among hb v its)"
      using True view(2) load_item_bind [OF view(1) len, of
          "\<lambda>w. if uint w = v then Inr True else ctrl_item_among hb v its"] by simp
    with True Cons show ?thesis
      by (auto simp: val)
  next
    case False
    with view Cons show ?thesis by (auto simp: val)
  qed
qed simp

section \<open>Descriptors as values\<close>

text \<open>Splitting a byte string into chunks of \<open>Suc k\<close> bytes, dropping a shorter rest.\<close>

function chunks :: "nat \<Rightarrow> byte list \<Rightarrow> byte list list" where
  "chunks k bs = (if Suc k \<le> length bs then take (Suc k) bs # chunks k (drop (Suc k) bs) else [])"
  by pat_completeness auto
termination
  by (relation "measure (\<lambda>(k, bs). length bs)") auto

declare chunks.simps [simp del]

definition field_number :: "byte list \<Rightarrow> s_item_pointer_t" where
  "field_number c = sint (word_of_nat (be_nat (tl c)) :: 64 word)"

definition shape_number :: "byte \<Rightarrow> byte list \<Rightarrow> s_item_pointer_t" where
  "shape_number mask' c = (if hd c AND mask' \<noteq> 0 then - 1 else field_number c)"

lemma take_Suc_tl: "Suc k \<le> length bs \<Longrightarrow> take k (drop 1 bs) = tl (take (Suc k) bs)"
  by (cases bs) simp_all

lemma hd_take_Suc: "Suc k \<le> length bs \<Longrightarrow> hd (take (Suc k) bs) = hd bs"
  by (cases bs) simp_all

lemma format_fields_ok:
  assumes "k \<le> 8"
  shows "format_fields k bs = Inr (map (\<lambda>c. (hd c, field_number c)) (chunks k bs))"
  using assms
proof (induction k bs rule: format_fields.induct)
  case (1 k bs)
  show ?case
  proof (cases "Suc k \<le> length bs")
    case True
    then have "load_bytes_be (drop 1 bs) (int k) = Inr (word_of_nat (be_nat (tl (take (Suc k) bs))))"
      using 1(2) load_bytes_be_ok [of k "drop 1 bs"] take_Suc_tl [of k bs] by simp
    with True 1 show ?thesis
      by (subst format_fields.simps, subst chunks.simps) (simp add: field_number_def hd_take_Suc)
  next
    case False
    then show ?thesis by (subst format_fields.simps, subst chunks.simps) simp
  qed
qed

lemma shape_fields_ok:
  assumes "k \<le> 8"
  shows "shape_fields k mask' bs = Inr (map (shape_number mask') (chunks k bs))"
  using assms
proof (induction k mask' bs rule: shape_fields.induct)
  case (1 k mask' bs)
  show ?case
  proof (cases "Suc k \<le> length bs")
    case True
    then have "load_bytes_be (drop 1 bs) (int k) = Inr (word_of_nat (be_nat (tl (take (Suc k) bs))))"
      using 1(2) load_bytes_be_ok [of k "drop 1 bs"] take_Suc_tl [of k bs] by simp
    with True 1 show ?thesis
      by (subst shape_fields.simps, subst chunks.simps)
        (auto simp: shape_number_def field_number_def hd_take_Suc)
  next
    case False
    then show ?thesis by (subst shape_fields.simps, subst chunks.simps) simp
  qed
qed

text \<open>Reference for \<^verbatim>\<open>to_descriptor\<close>: a pure function of the item values.\<close>

definition descriptor_value :: "flavour \<Rightarrow> item_value \<Rightarrow> descriptor \<Rightarrow> descriptor" where
  "descriptor_value fl v out = (case v of (i, imm, bs) \<Rightarrow>
     let immediate_size = fl_heap_address_bits fl div 8; bc = fl_bug_compat fl in
     if i = DESCRIPTOR_ID_ID then (if imm then out\<lparr>d_id := int (be_nat bs)\<rparr> else out)
     else if i = DESCRIPTOR_NAME_ID then out\<lparr>d_name := bs\<rparr>
     else if i = DESCRIPTOR_DESCRIPTION_ID then out\<lparr>d_description := bs\<rparr>
     else if i = DESCRIPTOR_FORMAT_ID then out\<lparr>d_format := d_format out @
       map (\<lambda>c. (hd c, field_number c))
         (chunks (if bc AND BUG_COMPAT_DESCRIPTOR_WIDTHS \<noteq> 0 then 3 else 8 - immediate_size) bs)\<rparr>
     else if i = DESCRIPTOR_SHAPE_ID then out\<lparr>d_shape := d_shape out @
       map (shape_number (if bc AND BUG_COMPAT_SHAPE_BIT_1 \<noteq> 0 then 2 else 1))
         (chunks (if bc AND BUG_COMPAT_DESCRIPTOR_WIDTHS \<noteq> 0 then 7 else immediate_size) bs)\<rparr>
     else if i = DESCRIPTOR_DTYPE_ID then out\<lparr>d_numpy_header := bs\<rparr>
     else out)"

definition descriptor_of :: "flavour \<Rightarrow> item_value list \<Rightarrow> descriptor" where
  "descriptor_of fl vs =
     (let out = fold (descriptor_value fl) vs empty_descriptor in
      if d_numpy_header out \<noteq> [] then out\<lparr>d_shape := [], d_format := []\<rparr> else out)"

text \<open>Immediate values are shorter than eight bytes, hence non-negative when loaded.\<close>

lemma sint_load:
  assumes "length bs \<le> 7"
  shows "sint (word_of_nat (be_nat bs) :: 64 word) = int (be_nat bs)"
proof -
  have "be_nat bs < 256 ^ length bs" by (rule be_nat_less)
  also have "\<dots> \<le> (256 :: nat) ^ 7" using assms by (intro power_increasing) simp_all
  finally have "unat (word_of_nat (be_nat bs) :: 64 word) < 2 ^ 63"
    using assms by (simp add: unat_load)
  then have "sint (word_of_nat (be_nat bs) :: 64 word) = int (unat (word_of_nat (be_nat bs) :: 64 word))"
    by (rule sint_small)
  then show ?thesis using unat_load assms by simp
qed

lemma descriptor_item_ok:
  assumes view: "item_view hb it v" and wf: "wf_flavour (hb_flavour hb)"
    and len: "fst (snd v) \<longrightarrow> length (snd (snd v)) \<le> 7"
  shows "descriptor_item hb it out = Inr (descriptor_value (hb_flavour hb) v out)"
proof -
  obtain i imm bs where v: "v = (i, imm, bs)" by (cases v)
  let ?k = "fl_heap_address_bits (hb_flavour hb) div 8"
  have bytes: "item_bytes hb it = Inr bs" "ri_id it = i" "ri_is_immediate it = imm"
    using view by (simp_all add: v item_view_def)
  have k: "?k \<le> 7" using wf wf_bits_le by (fastforce simp: wf_flavour_def)
  show ?thesis
  proof (cases "i = DESCRIPTOR_ID_ID \<and> imm")
    case True
    then have "length bs \<le> 8" "length bs \<le> 7" using len by (simp_all add: v)
    with True bytes load_item_bind [OF view [unfolded v], of "\<lambda>w. Inr (out\<lparr>d_id := sint w\<rparr>)"]
      sint_load [of bs] show ?thesis
      by (simp add: descriptor_item_def descriptor_value_def v Let_def)
  next
    case False
    then show ?thesis
      using bytes k
      by (simp add: descriptor_item_def descriptor_value_def v Let_def format_fields_ok
          shape_fields_ok item_pointer_size_def item_id_defs)
  qed
qed

lemma to_descriptor_ok:
  assumes "heap_view hb vs" "wf_flavour (hb_flavour hb)"
    and "\<forall>v \<in> set vs. fst (snd v) \<longrightarrow> length (snd (snd v)) \<le> 7"
  shows "to_descriptor hb = Inr (descriptor_of (hb_flavour hb) vs)"
proof -
  have "fold_result (descriptor_item hb) its out = Inr (fold (descriptor_value (hb_flavour hb)) vs out)"
    if "list_all2 (item_view hb) its vs" "\<forall>v \<in> set vs. fst (snd v) \<longrightarrow> length (snd (snd v)) \<le> 7"
    for its vs out
    using that
    by (induction arbitrary: out rule: list_all2_induct) (simp_all add: descriptor_item_ok assms(2))
  then show ?thesis
    using assms by (simp add: to_descriptor_def descriptor_of_def heap_view_def Let_def)
qed

lemma heap_items_immediate_length:
  assumes "wf_bits n" "d = make_pointer_decoder n" "v \<in> set (heap_items d ml keep payload ps)"
    "fst (snd v)"
  shows "length (snd (snd v)) \<le> 7"
proof -
  have "n div 8 \<le> 7" using wf_bits_le [OF assms(1)] by auto
  with assms(3,4) show ?thesis
    by (induction ps) (auto simp: length_immediate_bytes [OF assms(1,2)] split: if_splits)
qed

section \<open>Properties\<close>

lemma example_frozen_items: "frozen_items example_heap True = [(0x1000, False, [0xaa, 0xbb, 0xcc])]"
  by (simp add: frozen_items_def example_heap_def sorted_pointers_def lh_pointers_def
      item_end_def lh_payload_bytes_def eval_simps)

lemma example_contiguous: "is_contiguous example_heap"
  by (simp add: is_contiguous_def example_heap_def)



text \<open>
  Freezing any live heap as an \<^verbatim>\<open>incomplete_heap\<close> is safe: it never faults, keeps the
  immediate items only, all of them readable, reports the heap length and the number of bytes
  received, and, if asked, payload ranges that cover exactly the bytes received.
\<close>

lemma freeze_incomplete_heap:
  assumes "lh_inv h"
  shows "\<exists>ih h'. make_incomplete_heap fresh self h kp True = Inr (ih, h') \<and> lh_inv h' \<and>
    heap_view (ih_base ih) (frozen_items h False) \<and>
    (\<forall>v \<in> set (frozen_items h False). fst (snd v)) \<and>
    ih_heap_length ih = lh_heap_length h \<and>
    ih_received_length ih = int (card (covered (get_payload_ranges ih))) \<and>
    covered (get_payload_ranges ih) = dom (lh_data h)"
proof -
  from assms obtain ih h' where r: "make_incomplete_heap fresh self h kp True = Inr (ih, h')"
    "load_result h False kp (new_heap_base fresh self) (ih_base ih)" "lh_inv h'"
    "ih_payload_ranges ih = (if True then lh_payload_ranges h else [])"
    "ih_heap_length ih = lh_heap_length h" "ih_received_length ih = lh_received_length h"
    by (rule make_incomplete_heap_ok)
  have "fst (snd v)" if v: "v \<in> set (frozen_items h False)" for v
  proof (cases v)
    case (fields i imm bs)
    with v heap_items_addressed(1) [of i bs _ _ False] show ?thesis
      by (cases imm) (auto simp: frozen_items_def)
  qed
  with r show ?thesis
    by (auto simp: load_result_def frozen_items_def get_payload_ranges_def dom_lh_data [OF assms]
        received_length_eq [OF assms])
qed

lemma freeze_incomplete_heap_witness:
  "\<exists>ih h'. make_incomplete_heap (\<lambda>_. 0) 0 example_heap False True = Inr (ih, h') \<and>
     ih_heap_length ih = 3"
  using freeze_incomplete_heap [OF example_heap_inv, of "\<lambda>_. 0" 0 False]
  by (auto simp: example_heap_def)

text \<open>
  \<^verbatim>\<open>to_descriptor\<close> is total on every frozen heap and computes the reference function: the
  last name, description, type header and immediate identifier, all format and shape fields
  at the widths the flavour prescribes, and no format or shape if there is a type header.
\<close>

lemma to_descriptor_total:
  assumes "lh_inv h" "is_contiguous h" "make_heap fresh self h = Inr (hb, h')"
  shows "to_descriptor hb = Inr (descriptor_of (hb_flavour hb) (frozen_items h True))"
proof -
  from assms(1,2) obtain hb' h'' where "make_heap fresh self h = Inr (hb', h'')"
    "load_result h True True (new_heap_base fresh self) hb'" "lh_inv h''"
    by (rule make_heap_ok)
  then have l: "load_result h True True (new_heap_base fresh self) hb" using assms(3) by simp
  have wf: "wf_bits (address_bits (lh_decoder h))"
    "lh_decoder h = make_pointer_decoder (address_bits (lh_decoder h))"
    using assms(1) by (simp_all add: lh_inv_def)
  show ?thesis
    by (rule to_descriptor_ok)
      (use l wf heap_items_immediate_length [OF wf] in
        \<open>auto simp: load_result_def frozen_items_def wf_flavour_def\<close>)
qed

lemma to_descriptor_total_witness:
  "\<exists>hb h'. make_heap (\<lambda>_. 0) 0 example_heap = Inr (hb, h') \<and> to_descriptor hb = Inr empty_descriptor"
proof -
  obtain hb h' where m: "make_heap (\<lambda>_. 0) 0 example_heap = Inr (hb, h')"
    using example_heap_inv example_contiguous by (blast elim: make_heap_ok)
  have "descriptor_of fl (frozen_items example_heap True) = empty_descriptor" for fl
    by (simp add: descriptor_of_def descriptor_value_def example_frozen_items item_id_defs
        empty_descriptor_def Let_def)
  with to_descriptor_total [OF example_heap_inv example_contiguous m] m show ?thesis by auto
qed

text \<open>
  The stream-control tests.  If no stream-control item of the heap is longer than eight
  bytes, \<^verbatim>\<open>is_ctrl_item\<close> returns whether one of them has the given value.  Without that
  condition it does not hold: an addressed stream-control item of nine bytes or more, which a
  sender is free to send, violates the precondition of \<^verbatim>\<open>load_bytes_be\<close>.
\<close>

lemma is_ctrl_item_value:
  assumes "heap_view hb vs"
  shows "((\<forall>(i, imm, bs) \<in> set vs. i = STREAM_CTRL_ID \<longrightarrow> length bs \<le> 8) \<longrightarrow>
      is_ctrl_item mode hb =
        Inr (\<exists>(i, imm, bs) \<in> set vs. i = STREAM_CTRL_ID \<and> int (be_nat bs) = ctrl_value mode)) \<and>
    (\<forall>imm bs. vs = [(STREAM_CTRL_ID, imm, bs)] \<and> 8 < length bs \<and> length bs < 2 ^ 31 \<longrightarrow>
      is_ctrl_item mode hb = Inl Assertion_failed)"
proof (intro conjI impI allI)
  assume "\<forall>(i, imm, bs) \<in> set vs. i = STREAM_CTRL_ID \<longrightarrow> length bs \<le> 8"
  with assms show "is_ctrl_item mode hb =
      Inr (\<exists>(i, imm, bs) \<in> set vs. i = STREAM_CTRL_ID \<and> int (be_nat bs) = ctrl_value mode)"
    unfolding is_ctrl_item_def heap_view_def by (rule ctrl_item_among_ok)
next
  fix imm bs
  assume bs: "vs = [(STREAM_CTRL_ID, imm, bs)] \<and> 8 < length bs \<and> length bs < 2 ^ 31"
  then obtain it where it: "hb_items hb = [it]" "item_view hb it (STREAM_CTRL_ID, imm, bs)"
    using assms by (auto simp: heap_view_def list_all2_Cons2)
  then obtain m where "item_memory hb (ri_ptr it) = Inr m" "ri_length it = length bs"
      "ri_id it = STREAM_CTRL_ID"
    by (cases "item_memory hb (ri_ptr it)") (auto simp: item_view_def item_bytes_def)
  with it bs show "is_ctrl_item mode hb = Inl Assertion_failed"
    by (simp add: is_ctrl_item_def load_bytes_be_def int_of_size_small item_pointer_size_def)
qed

definition long_ctrl_heap :: heap_base where
  "long_ctrl_heap = (new_heap_base (\<lambda>_. 0) 0)\<lparr>hb_payload := Some [0, 0, 0, 0, 0, 0, 0, 0, 2],
     hb_items := [\<lparr>ri_id = STREAM_CTRL_ID, ri_ptr = In_payload 0, ri_length = 9,
       ri_immediate_value = 0, ri_is_immediate = False\<rparr>]\<rparr>"

lemma is_ctrl_item_value_witness:
  "is_ctrl_item CTRL_STREAM_STOP long_ctrl_heap = Inl Assertion_failed \<and>
   is_ctrl_item CTRL_STREAM_STOP (new_heap_base (\<lambda>_. 0) 0) = Inr False"
proof -
  have "heap_view long_ctrl_heap [(STREAM_CTRL_ID, False, [0, 0, 0, 0, 0, 0, 0, 0, 2])]"
    by (simp add: heap_view_def long_ctrl_heap_def item_view_def item_bytes_def mem_read_def)
  from is_ctrl_item_value [OF this, of CTRL_STREAM_STOP]
  have "is_ctrl_item CTRL_STREAM_STOP long_ctrl_heap = Inl Assertion_failed" by auto
  moreover have "heap_view (new_heap_base (\<lambda>_. 0) 0) []" by (simp add: heap_view_def)
  from is_ctrl_item_value [OF this, of CTRL_STREAM_STOP]
  have "is_ctrl_item CTRL_STREAM_STOP (new_heap_base (\<lambda>_. 0) 0) = Inr False" by simp
  ultimately show ?thesis by blast
qed

text \<open>
  Moving a heap preserves it.  The move constructor turns a self-contained heap, such
  as every frozen heap, into a self-contained heap at the new address with the same items:
  no item points into the storage of the object that was moved from.
\<close>

lemma move_heap:
  assumes "self_contained other" "heap_view other vs"
  shows "\<exists>hb'. move_construct fresh self other = Inr hb' \<and> self_contained hb' \<and> hb_self hb' = self \<and>
    heap_view hb' vs \<and> hb_cnt hb' = hb_cnt other \<and> hb_flavour hb' = hb_flavour other"
  using move_assign_ok [OF assms new_heap_base_sel(3)] unfolding move_construct_def
  by (metis new_heap_base_sel(4))

lemma move_heap_witness:
  "\<exists>hb'. move_construct (\<lambda>_. 1) 4096 long_ctrl_heap = Inr hb' \<and>
     heap_view hb' [(STREAM_CTRL_ID, False, [0, 0, 0, 0, 0, 0, 0, 0, 2])]"
proof -
  have "heap_view long_ctrl_heap [(STREAM_CTRL_ID, False, [0, 0, 0, 0, 0, 0, 0, 0, 2])]"
    "self_contained long_ctrl_heap"
    by (simp_all add: heap_view_def long_ctrl_heap_def item_view_def item_bytes_def mem_read_def
        self_contained_def)
  from move_heap [OF this(2,1)] show ?thesis by blast
qed

end
