(* ===== verification/StreamRefinement.thy ===== *)
theory StreamRefinement
  imports RecvStream
begin

text \<open>
  The receiving stream without its hash table.  The specification keeps the live heaps as a
  list of slot numbers and heaps, most recently started first, and searches it linearly; the
  refinement relates it to the queue storage and the bucket chains of \<open>RecvStream\<close>.
\<close>

section \<open>Specification\<close>

record 's spec_stream =
  sp_live :: "(nat \<times> live_heap) list"
  sp_head :: nat
  sp_max_heaps :: nat
  sp_bug_compat :: bug_compat_mask
  sp_stopped :: bool
  sp_stats :: stream_stats
  sp_sink :: 's

definition spec_remove :: "nat \<Rightarrow> 's spec_stream \<Rightarrow> 's spec_stream" where
  "spec_remove i a = a\<lparr>sp_live := filter (\<lambda>p. fst p \<noteq> i) (sp_live a)\<rparr>"

definition spec_eject :: "'s stream_virtuals \<Rightarrow> nat \<Rightarrow> 's spec_stream \<Rightarrow> fault + 's spec_stream" where
  "spec_eject vt i a =
     (case map_of (sp_live a) i of
        None \<Rightarrow> Inl Null_dereference
      | Some h \<Rightarrow>
          bind_result (heap_ready vt h (sp_sink a)) (\<lambda>k. Inr ((spec_remove i a)\<lparr>sp_sink := k\<rparr>)))"

definition spec_eject_if_live ::
  "'s stream_virtuals \<Rightarrow> nat \<Rightarrow> nat \<times> 's spec_stream \<Rightarrow> fault + (nat \<times> 's spec_stream)" where
  "spec_eject_if_live vt i = (\<lambda>(n, a).
     if map_of (sp_live a) i = None then Inr (n, a)
     else bind_result (spec_eject vt i a) (\<lambda>a'. Inr (n + 1, a')))"

text \<open>Flushing visits every slot once, starting behind the head: the oldest heap first.\<close>

definition flush_order :: "nat \<Rightarrow> nat \<Rightarrow> nat list" where
  "flush_order head max_heaps = [Suc head..<max_heaps] @ [0..<Suc head]"

definition spec_flush :: "'s stream_virtuals \<Rightarrow> 's spec_stream \<Rightarrow> fault + 's spec_stream" where
  "spec_flush vt a =
     bind_result (fold_result (spec_eject_if_live vt) (flush_order (sp_head a) (sp_max_heaps a)) (0, a))
       (\<lambda>(n, a1). let stats = sp_stats a1 in
        Inr (a1\<lparr>sp_stats := stats\<lparr>ss_heaps := ss_heaps stats + n,
               ss_incomplete_heaps_flushed := ss_incomplete_heaps_flushed stats + n\<rparr>\<rparr>))"

definition spec_stop_received :: "'s stream_virtuals \<Rightarrow> 's spec_stream \<Rightarrow> fault + 's spec_stream" where
  "spec_stop_received vt a =
     (if sp_stopped a then Inl Assertion_failed
      else bind_result (spec_flush vt (a\<lparr>sp_stopped := True\<rparr>)) (\<lambda>a1.
        Inr (a1\<lparr>sp_sink := stop_hook vt (sp_sink a1)\<rparr>)))"

definition spec_advance :: "'s spec_stream \<Rightarrow> 's spec_stream" where
  "spec_advance a = a\<lparr>sp_head := Suc (sp_head a) mod sp_max_heaps a\<rparr>"

definition spec_new ::
  "'s stream_virtuals \<Rightarrow> packet_header \<Rightarrow> add_packet_state \<Rightarrow> 's spec_stream \<Rightarrow>
   fault + (nat \<times> add_packet_state \<times> 's spec_stream)" where
  "spec_new vt packet st a =
     (let a1 = spec_advance a; i = sp_head a1 in
      bind_result
        (if map_of (sp_live a1) i = None then Inr (st, a1)
         else bind_result (spec_eject vt i a1) (\<lambda>a2.
           Inr (st\<lparr>aps_incomplete_heaps_evicted := aps_incomplete_heaps_evicted st + 1\<rparr>, a2)))
        (\<lambda>(st1, a2). Inr (i, st1,
           a2\<lparr>sp_live := (i, make_live_heap packet (sp_bug_compat a2)) # sp_live a2\<rparr>)))"

text \<open>The most recently started heap with the packet's heap count.\<close>

definition spec_find :: "packet_header \<Rightarrow> 's spec_stream \<Rightarrow> nat option" where
  "spec_find packet a = map_option fst (find (\<lambda>p. lh_cnt (snd p) = ph_heap_cnt packet) (sp_live a))"

definition spec_locate ::
  "packet_header \<Rightarrow> add_packet_state \<Rightarrow> 's spec_stream \<Rightarrow> nat option \<times> add_packet_state" where
  "spec_locate packet st a =
     (if ph_heap_length packet \<ge> 0 \<and> ph_payload_length packet = ph_heap_length packet
      then (None, st\<lparr>aps_single_packet_heaps := aps_single_packet_heaps st + 1\<rparr>)
      else (spec_find packet a, st))"

definition spec_update :: "nat \<Rightarrow> live_heap \<Rightarrow> 's spec_stream \<Rightarrow> 's spec_stream" where
  "spec_update i h a = a\<lparr>sp_live := map (\<lambda>p. if fst p = i then (i, h) else p) (sp_live a)\<rparr>"

definition spec_add_to ::
  "'s stream_virtuals \<Rightarrow> packet_header \<Rightarrow> nat \<Rightarrow> add_packet_state \<Rightarrow> 's spec_stream \<Rightarrow>
   fault + (bool \<times> add_packet_state \<times> 's spec_stream)" where
  "spec_add_to vt packet i st a =
     (case map_of (sp_live a) i of
        None \<Rightarrow> Inl Null_dereference
      | Some h \<Rightarrow>
     bind_result (add_packet (aps_memcpy st) (aps_allocator st) packet h) (\<lambda>(result, h1).
     let a1 = spec_update i h1 a in
     if \<not> result then Inr (False, st, a1)
     else
       (let end_of_stream = (aps_stop_on_stop_item st \<and> is_end_of_stream h1) in
        bind_result
          (if \<not> is_complete h1 then Inr (st, a1)
           else if end_of_stream then Inr (st, spec_remove i a1)
           else bind_result (heap_ready vt h1 (sp_sink a1)) (\<lambda>k.
             Inr (st\<lparr>aps_complete_heaps := aps_complete_heaps st + 1\<rparr>,
                  (spec_remove i a1)\<lparr>sp_sink := k\<rparr>))) (\<lambda>(st1, a2).
        if end_of_stream
        then bind_result (spec_stop_received vt a2) (\<lambda>a3. Inr (True, st1, a3))
        else Inr (True, st1, a2)))))"

definition spec_add_packet ::
  "'s stream_virtuals \<Rightarrow> packet_header \<Rightarrow> add_packet_state \<Rightarrow> 's spec_stream \<Rightarrow>
   fault + (bool \<times> add_packet_state \<times> 's spec_stream)" where
  "spec_add_packet vt packet st a =
     (if sp_stopped a then Inl Assertion_failed
      else
        (let st0 = st\<lparr>aps_packets := aps_packets st + 1\<rparr> in
         if ph_heap_length packet < 0 \<and> \<not> aps_allow_unsized_heaps st0 then Inr (False, st0, a)
         else
           (let (found, st1) = spec_locate packet st0 a in
            bind_result (case found of Some i \<Rightarrow> Inr (i, st1, a) | None \<Rightarrow> spec_new vt packet st1 a)
              (\<lambda>(i, st2, a1). spec_add_to vt packet i st2 a1))))"

section \<open>Chains\<close>

fun is_chain :: "link list \<Rightarrow> link \<Rightarrow> nat list \<Rightarrow> bool" where
  "is_chain nx l [] \<longleftrightarrow> l = Null"
| "is_chain nx l (i # is) \<longleftrightarrow> l = Entry i \<and> i < length nx \<and> is_chain nx (nx ! i) is"

lemma is_chain_update: "j \<notin> set xs \<Longrightarrow> is_chain (nx[j := l']) l xs \<longleftrightarrow> is_chain nx l xs"
  by (induction xs arbitrary: l) (auto simp: nth_list_update)

lemma is_chain_bounds: "is_chain nx l xs \<Longrightarrow> i \<in> set xs \<Longrightarrow> i < length nx"
  by (induction xs arbitrary: l) auto

text \<open>Taking one entry out of a chain.\<close>

lemma is_chain_remove:
  assumes "is_chain nx l (xs @ e # ys)" "distinct (xs @ e # ys)"
  shows "if xs = [] then is_chain (nx[e := Invalid_entry]) (nx ! e) ys
    else is_chain (nx[last xs := nx ! e, e := Invalid_entry]) l (xs @ ys)"
  using assms
proof (induction xs arbitrary: l)
  case Nil
  then show ?case by (simp add: is_chain_update)
next
  case (Cons i xs)
  from Cons.prems have i: "l = Entry i" "i < length nx" "is_chain nx (nx ! i) (xs @ e # ys)" "i \<noteq> e"
    by simp_all
  show ?case
  proof (cases "xs = []")
    case True
    have "is_chain (nx[i := nx ! e, e := Invalid_entry]) (nx ! e) ys"
      using Cons.prems i(3) True by (simp add: is_chain_update)
    moreover have "nx[i := nx ! e, e := Invalid_entry] ! i = nx ! e" using i by simp
    ultimately show ?thesis using True i(1,2) by (simp only: append.simps) simp
  next
    case False
    have "distinct (xs @ e # ys)" using Cons.prems(2) by simp
    from Cons.IH [OF i(3) this] False
    have "is_chain (nx[last xs := nx ! e, e := Invalid_entry]) (nx ! i) (xs @ ys)"
      by (simp only: if_False)
    moreover have "last xs \<noteq> i" using Cons.prems(2) False last_in_set [of xs] by auto
    then have "nx[last xs := nx ! e, e := Invalid_entry] ! i = nx ! i" using i(4) by simp
    ultimately show ?thesis using i(1,2) False by (simp only: append.simps) simp
  qed
qed

definition nexts :: "'s stream_base \<Rightarrow> link list" where
  "nexts s = map qe_next (sb_queue_storage s)"

lemma length_nexts [simp]: "length (nexts s) = length (sb_queue_storage s)"
  by (simp add: nexts_def)

lemma entry_next_nexts: "i < length (sb_queue_storage s) \<Longrightarrow> entry_next s i = nexts s ! i"
  by (simp add: entry_next_def nexts_def)

lemma find_prev_chain:
  assumes "is_chain (nexts s) (read_link s prev) (xs @ e # ys)" "e \<notin> set xs" "length xs < fuel"
  shows "find_prev s fuel prev e = Inr (if xs = [] then prev else In_entry (last xs))"
  using assms
proof (induction xs arbitrary: prev fuel)
  case Nil
  then show ?case by (cases fuel) simp_all
next
  case (Cons i xs)
  then obtain f where f: "fuel = Suc f" "length xs < f" by (cases fuel) simp_all
  have i: "read_link s prev = Entry i" "i < length (sb_queue_storage s)" "i \<noteq> e"
    and rest: "is_chain (nexts s) (read_link s (In_entry i)) (xs @ e # ys)"
    using Cons.prems by (auto simp: entry_next_nexts)
  have "find_prev s f (In_entry i) e = Inr (if xs = [] then In_entry i else In_entry (last xs))"
    using Cons.IH [OF rest _ f(2)] Cons.prems(2) by simp
  with i f show ?case by simp
qed

lemma find_entry_chain:
  assumes "is_chain (nexts s) l xs" "length xs < fuel"
    and "\<And>i. i \<in> set xs \<Longrightarrow> \<exists>h. entry_heap s i = Inr h \<and> lh_cnt h = cnt i"
  shows "\<exists>d'. find_entry s fuel l c d = Inr (find (\<lambda>i. cnt i = c) xs, d') \<and> d' \<le> d + length xs"
  using assms
proof (induction xs arbitrary: l fuel d)
  case Nil
  then show ?case by (cases fuel) simp_all
next
  case (Cons i xs)
  then obtain f where f: "fuel = Suc f" "length xs < f" by (cases fuel) simp_all
  have i: "l = Entry i" "i < length (sb_queue_storage s)" "is_chain (nexts s) (entry_next s i) xs"
    using Cons.prems(1) by (simp_all add: entry_next_nexts)
  obtain h where h: "entry_heap s i = Inr h" "lh_cnt h = cnt i" using Cons.prems(3) [of i] by auto
  show ?case
  proof (cases "cnt i = c")
    case True
    with h i f show ?thesis by simp
  next
    case False
    have "\<exists>d'. find_entry s f (entry_next s i) c (Suc d) = Inr (find (\<lambda>i. cnt i = c) xs, d')
        \<and> d' \<le> Suc d + length xs"
      using Cons.IH [OF i(3) f(2), of "Suc d"] Cons.prems(3) by simp
    with False h i f show ?thesis by auto
  qed
qed

declare find_prev.simps [simp del] find_entry.simps [simp del]

section \<open>The refinement relation\<close>

definition bucket_slots :: "'s stream_base \<Rightarrow> nat \<Rightarrow> (nat \<times> live_heap) list \<Rightarrow> nat list" where
  "bucket_slots s b live = map fst (filter (\<lambda>p. get_bucket s (lh_cnt (snd p)) = b) live)"

definition refines :: "'s stream_base \<Rightarrow> 's spec_stream \<Rightarrow> bool" where
  "refines s a \<longleftrightarrow>
     length (sb_queue_storage s) = sb_max_heaps s \<and> length (sb_buckets s) = sb_bucket_count s \<and>
     sp_max_heaps a = sb_max_heaps s \<and> sp_head a = sb_head s \<and> sb_head s < sb_max_heaps s \<and>
     (\<forall>c. get_bucket s c < sb_bucket_count s) \<and>
     distinct (map fst (sp_live a)) \<and> (\<forall>p \<in> set (sp_live a). fst p < sb_max_heaps s) \<and>
     (\<forall>i < sb_max_heaps s. qe_heap (sb_queue_storage s ! i) = map_of (sp_live a) i) \<and>
     (\<forall>i < sb_max_heaps s. nexts s ! i = Invalid_entry \<longleftrightarrow> map_of (sp_live a) i = None) \<and>
     (\<forall>b < sb_bucket_count s. is_chain (nexts s) (sb_buckets s ! b) (bucket_slots s b (sp_live a))) \<and>
     sp_stopped a = sb_stopped s \<and> sp_stats a = sb_stats s \<and> sp_sink a = sb_sink s \<and>
     sp_bug_compat a = sb_bug_compat s"

lemma refinesD:
  assumes "refines s a"
  shows "length (sb_queue_storage s) = sb_max_heaps s" "length (sb_buckets s) = sb_bucket_count s"
    "sp_max_heaps a = sb_max_heaps s" "sp_head a = sb_head s" "sb_head s < sb_max_heaps s"
    "get_bucket s c < sb_bucket_count s"
    "distinct (map fst (sp_live a))" "p \<in> set (sp_live a) \<Longrightarrow> fst p < sb_max_heaps s"
    "i < sb_max_heaps s \<Longrightarrow> qe_heap (sb_queue_storage s ! i) = map_of (sp_live a) i"
    "i < sb_max_heaps s \<Longrightarrow> nexts s ! i = Invalid_entry \<longleftrightarrow> map_of (sp_live a) i = None"
    "b < sb_bucket_count s \<Longrightarrow> is_chain (nexts s) (sb_buckets s ! b) (bucket_slots s b (sp_live a))"
    "sp_stopped a = sb_stopped s" "sp_stats a = sb_stats s" "sp_sink a = sb_sink s"
    "sp_bug_compat a = sb_bug_compat s"
  using assms by (simp_all add: refines_def)

lemma refines_entry_heap:
  assumes "refines s a" "map_of (sp_live a) i = Some h"
  shows "entry_heap s i = Inr h" "i < sb_max_heaps s" "entry_next s i \<noteq> Invalid_entry"
proof -
  note r = refinesD [OF assms(1)]
  have "(i, h) \<in> set (sp_live a)" using assms(2) by (rule map_of_SomeD)
  then show i: "i < sb_max_heaps s" using r(8) by fastforce
  show "entry_heap s i = Inr h" using r(1) r(9) [OF i] i assms(2) by (simp add: entry_heap_def)
  show "entry_next s i \<noteq> Invalid_entry"
    using r(1) r(10) [OF i] i assms(2) by (simp add: entry_next_nexts)
qed

text \<open>A slot that is live but different from those removed keeps its place in the chains.\<close>

lemma length_bucket_slots:
  assumes "refines s a"
  shows "length (bucket_slots s b (sp_live a)) \<le> sb_max_heaps s"
proof -
  note r = refinesD [OF assms]
  have "fst ` set (sp_live a) \<subseteq> {..<sb_max_heaps s}" using r(8) by auto
  then have "card (fst ` set (sp_live a)) \<le> sb_max_heaps s" by (metis card_lessThan card_mono finite_lessThan)
  moreover have "card (fst ` set (sp_live a)) = length (sp_live a)"
    using distinct_card [OF r(7)] by simp
  ultimately show ?thesis
    unfolding bucket_slots_def by (metis length_filter_le length_map le_trans)
qed

text \<open>Fields that neither the slots nor the buckets depend on.\<close>

lemma stream_sel [simp]:
  "nexts (s\<lparr>sb_sink := k\<rparr>) = nexts s" "nexts (s\<lparr>sb_head := n\<rparr>) = nexts s"
  "nexts (s\<lparr>sb_stats := ss\<rparr>) = nexts s" "nexts (s\<lparr>sb_stopped := b\<rparr>) = nexts s"
  "nexts (s\<lparr>sb_buckets := bs\<rparr>) = nexts s"
  "bucket_slots (s\<lparr>sb_sink := k\<rparr>) = bucket_slots s" "bucket_slots (s\<lparr>sb_head := n\<rparr>) = bucket_slots s"
  "bucket_slots (s\<lparr>sb_stats := ss\<rparr>) = bucket_slots s"
  "bucket_slots (s\<lparr>sb_stopped := b\<rparr>) = bucket_slots s"
  "bucket_slots (s\<lparr>sb_buckets := bs\<rparr>) = bucket_slots s"
  "bucket_slots (s\<lparr>sb_queue_storage := qs\<rparr>) = bucket_slots s"
  "get_bucket (s\<lparr>sb_sink := k\<rparr>) = get_bucket s" "get_bucket (s\<lparr>sb_head := n\<rparr>) = get_bucket s"
  "get_bucket (s\<lparr>sb_stats := ss\<rparr>) = get_bucket s" "get_bucket (s\<lparr>sb_stopped := b\<rparr>) = get_bucket s"
  "get_bucket (s\<lparr>sb_buckets := bs\<rparr>) = get_bucket s"
  "get_bucket (s\<lparr>sb_queue_storage := qs\<rparr>) = get_bucket s"
  by (simp_all add: nexts_def bucket_slots_def get_bucket_def fun_eq_iff)

lemma nexts_set_next [simp]:
  "i < length (sb_queue_storage s) \<Longrightarrow> nexts (set_next i l s) = (nexts s)[i := l]"
  by (simp add: nexts_def set_next_def map_update)

lemma nexts_set_heap [simp]: "nexts (set_heap i h s) = nexts s"
  by (cases "i < length (sb_queue_storage s)")
    (auto simp: nexts_def set_heap_def map_update nth_list_update intro!: nth_equalityI)

section \<open>Unlinking\<close>

text \<open>
  \<^verbatim>\<open>unlink_entry\<close> takes a live slot out of its chain, and out of no other; the heap of the
  slot stays where it is.
\<close>

definition unlinked :: "'s stream_base \<Rightarrow> 's spec_stream \<Rightarrow> nat \<Rightarrow> 's stream_base \<Rightarrow> bool" where
  "unlinked s a i s' \<longleftrightarrow> (\<exists>qs bs. s' = s\<lparr>sb_queue_storage := qs, sb_buckets := bs\<rparr> \<and>
     length qs = length (sb_queue_storage s) \<and> length bs = length (sb_buckets s) \<and>
     (\<forall>j < length qs. qe_heap (qs ! j) = qe_heap (sb_queue_storage s ! j)) \<and>
     (\<forall>j < length qs. qe_next (qs ! j) = Invalid_entry \<longleftrightarrow> j = i \<or> nexts s ! j = Invalid_entry) \<and>
     (\<forall>b < length bs. is_chain (map qe_next qs) (bs ! b)
        (bucket_slots s b (filter (\<lambda>p. fst p \<noteq> i) (sp_live a)))))"

lemma filter_split:
  assumes "distinct (map fst live)" "(i, h) \<in> set live" "P (i, h)"
  obtains xs ys where "filter P live = xs @ (i, h) # ys"
    "filter P (filter (\<lambda>p. fst p \<noteq> i) live) = xs @ ys" "i \<notin> fst ` set xs" "i \<notin> fst ` set ys"
proof -
  obtain us vs where live: "live = us @ (i, h) # vs" using split_list [OF assms(2)] by blast
  have "i \<notin> fst ` set us" "i \<notin> fst ` set vs" using assms(1) by (auto simp: live)
  then have "filter (\<lambda>p. fst p \<noteq> i) us = us" "filter (\<lambda>p. fst p \<noteq> i) vs = vs"
    by (auto simp: filter_id_conv)
  with \<open>i \<notin> fst ` set us\<close> \<open>i \<notin> fst ` set vs\<close> assms(3) show ?thesis
    by (intro that [of "filter P us" "filter P vs"]) (auto simp: live)
qed

lemma filter_other:
  assumes "\<not> P (i, h)" "distinct (map fst live)" "(i, h) \<in> set live"
  shows "filter P (filter (\<lambda>p. fst p \<noteq> i) live) = filter P live"
    "i \<notin> fst ` set (filter P live)"
proof -
  have u: "q = (i, h)" if "q \<in> set live" "fst q = i" for q
    using that assms(2,3) by (metis map_of_is_SomeI option.inject prod.collapse)
  have "(\<lambda>p. fst p \<noteq> i \<and> P p) q \<longleftrightarrow> P q" if "q \<in> set live" for q
    using u [OF that] assms(1) by (cases "fst q = i") auto
  then show "filter P (filter (\<lambda>p. fst p \<noteq> i) live) = filter P live"
    by (simp cong: filter_cong)
  show "i \<notin> fst ` set (filter P live)" using u assms(1) by auto
qed

lemma is_chain_cases:
  assumes "is_chain nx l xs"
  shows "l \<noteq> Invalid_entry" "i \<in> set xs \<Longrightarrow> nx ! i \<noteq> Invalid_entry"
proof -
  show "l \<noteq> Invalid_entry" using assms by (cases xs) auto
  show "nx ! i \<noteq> Invalid_entry" if "i \<in> set xs"
    using assms that
  proof (induction xs arbitrary: l)
    case (Cons j xs)
    show ?case
    proof (cases "i = j")
      case True
      with Cons.prems(1) show ?thesis by (cases xs) auto
    next
      case False
      with Cons show ?thesis by auto
    qed
  qed simp
qed

lemma unlink_entry_ok:
  assumes ref: "refines s a" and live: "map_of (sp_live a) i = Some h"
  obtains s' where "unlink_entry i s = Inr s'" "unlinked s a i s'"
proof -
  note r = refinesD [OF ref] and e = refines_entry_heap [OF ref live]
  let ?b = "get_bucket s (lh_cnt h)" and ?L = "sp_live a" and ?nx = "nexts s"
  let ?P = "\<lambda>b p. get_bucket s (lh_cnt (snd p)) = b"
  have mem: "(i, h) \<in> set ?L" using live by (rule map_of_SomeD)
  obtain us vs where flt: "filter (?P ?b) ?L = us @ (i, h) # vs"
    "filter (?P ?b) (filter (\<lambda>p. fst p \<noteq> i) ?L) = us @ vs" "i \<notin> fst ` set us" "i \<notin> fst ` set vs"
    by (rule filter_split [OF r(7) mem, of "?P ?b"]) simp
  let ?xs = "map fst us" and ?ys = "map fst vs"
  have b: "?b < sb_bucket_count s" by (rule r(6))
  have chain: "is_chain ?nx (sb_buckets s ! ?b) (?xs @ i # ?ys)"
    using r(11) [OF b] flt(1) by (simp add: bucket_slots_def)
  have dist: "distinct (?xs @ i # ?ys)"
    using distinct_map_filter [OF r(7), of "?P ?b"] flt(1) by simp
  have len: "length ?xs < Suc (sb_max_heaps s)"
    using length_bucket_slots [OF ref, of ?b] flt(1) by (simp add: bucket_slots_def)
  define prev where "prev = (if ?xs = [] then In_bucket ?b else In_entry (last ?xs))"
  have fp: "find_prev s (Suc (sb_max_heaps s)) (In_bucket ?b) i = Inr prev"
    unfolding prev_def
    by (rule find_prev_chain [where ys = ?ys]) (use chain dist len in auto)
  define s' where "s' = set_next i Invalid_entry (write_link prev (entry_next s i) s)"
  have run: "unlink_entry i s = Inr s'"
    using e fp r(2) b by (simp add: unlink_entry_def s'_def)
  have i: "i < length (sb_queue_storage s)" using e(2) r(1) by simp
  have lastin: "last ?xs \<in> set ?xs" "last ?xs < length (sb_queue_storage s)" "last ?xs \<noteq> i"
    if "?xs \<noteq> []"
    using that last_in_set [OF that] is_chain_bounds [OF chain] dist by auto
  have inv: "?nx ! i \<noteq> Invalid_entry" "?xs \<noteq> [] \<Longrightarrow> ?nx ! last ?xs \<noteq> Invalid_entry"
    using is_chain_cases(2) [OF chain] lastin(1) by auto
  have other: "bucket_slots s b (filter (\<lambda>p. fst p \<noteq> i) ?L) = bucket_slots s b ?L \<and>
      i \<notin> set (bucket_slots s b ?L) \<and> (?xs \<noteq> [] \<longrightarrow> last ?xs \<notin> set (bucket_slots s b ?L))"
    if neq: "b \<noteq> ?b" for b
  proof -
    have "last ?xs \<notin> set (bucket_slots s b ?L)" if ne: "?xs \<noteq> []"
    proof
      assume "last ?xs \<in> set (bucket_slots s b ?L)"
      then obtain p where p: "p \<in> set ?L" "?P b p" "fst p = last ?xs" by (auto simp: bucket_slots_def)
      obtain q where q: "q \<in> set (filter (?P ?b) ?L)" "fst q = last ?xs"
        using lastin(1) [OF ne] flt(1) by fastforce
      then have "p = q" using p r(7) by (auto simp: distinct_map inj_on_def)
      with p(2) q neq show False by simp
    qed
    moreover have "filter (?P b) (filter (\<lambda>p. fst p \<noteq> i) ?L) = filter (?P b) ?L"
      "i \<notin> fst ` set (filter (?P b) ?L)"
      using filter_other [of "?P b" i h ?L] neq r(7) mem by simp_all
    ultimately show ?thesis by (simp add: bucket_slots_def)
  qed
  have "unlinked s a i s'"
  proof (cases "?xs = []")
    case True
    let ?qs = "(sb_queue_storage s)[i := (sb_queue_storage s ! i)\<lparr>qe_next := Invalid_entry\<rparr>]"
    let ?bs = "(sb_buckets s)[?b := ?nx ! i]"
    have s': "s' = s\<lparr>sb_queue_storage := ?qs, sb_buckets := ?bs\<rparr>"
      using True i by (simp add: s'_def prev_def set_next_def entry_next_nexts)
    have nx: "map qe_next ?qs = ?nx[i := Invalid_entry]" by (simp add: nexts_def map_update)
    have "is_chain (?nx[i := Invalid_entry]) (?bs ! b)
        (bucket_slots s b (filter (\<lambda>p. fst p \<noteq> i) ?L))" if "b < length ?bs" for b
    proof (cases "b = ?b")
      case eq: True
      have "is_chain (?nx[i := Invalid_entry]) (?nx ! i) ?ys"
        using is_chain_remove [OF chain dist] True by simp
      then show ?thesis using eq that flt(2) True by (simp add: bucket_slots_def)
    next
      case False
      then show ?thesis
        using other [OF False] r(11) [of b] that r(2) by (simp add: is_chain_update)
    qed
    moreover have "\<forall>j < length ?qs. qe_heap (?qs ! j) = qe_heap (sb_queue_storage s ! j)"
      using i by (simp add: nth_list_update)
    moreover have "\<forall>j < length ?qs. qe_next (?qs ! j) = Invalid_entry \<longleftrightarrow> j = i \<or> ?nx ! j = Invalid_entry"
      using i by (simp add: nth_list_update nexts_def)
    ultimately show ?thesis
      unfolding unlinked_def s' by (intro exI [of _ ?qs] exI [of _ ?bs]) (simp add: nx)
  next
    case False
    let ?l = "last ?xs"
    let ?q1 = "(sb_queue_storage s)[?l := (sb_queue_storage s ! ?l)\<lparr>qe_next := ?nx ! i\<rparr>]"
    let ?qs = "?q1[i := (?q1 ! i)\<lparr>qe_next := Invalid_entry\<rparr>]"
    note l = lastin [OF False]
    have s': "s' = s\<lparr>sb_queue_storage := ?qs, sb_buckets := sb_buckets s\<rparr>"
      using False i by (simp add: s'_def prev_def set_next_def entry_next_nexts)
    have nx: "map qe_next ?qs = ?nx[?l := ?nx ! i, i := Invalid_entry]"
      by (simp add: nexts_def map_update)
    have "is_chain (?nx[?l := ?nx ! i, i := Invalid_entry]) (sb_buckets s ! b)
        (bucket_slots s b (filter (\<lambda>p. fst p \<noteq> i) ?L))" if "b < length (sb_buckets s)" for b
    proof (cases "b = ?b")
      case eq: True
      show ?thesis
        using is_chain_remove [OF chain dist] False eq flt(2) by (simp add: bucket_slots_def)
    next
      case neq: False
      then show ?thesis
        using other [OF neq] r(11) [of b] that r(2) False by (simp add: is_chain_update)
    qed
    moreover have "\<forall>j < length ?qs. qe_heap (?qs ! j) = qe_heap (sb_queue_storage s ! j)"
      using i l by (auto simp: nth_list_update)
    moreover have "\<forall>j < length ?qs. qe_next (?qs ! j) = Invalid_entry \<longleftrightarrow> j = i \<or> ?nx ! j = Invalid_entry"
      using i l inv False by (auto simp: nth_list_update nexts_def)
    ultimately show ?thesis
      unfolding unlinked_def s' by (intro exI [of _ ?qs] exI [of _ "sb_buckets s"]) (simp add: nx)
  qed
  with run show ?thesis by (rule that)
qed

section \<open>Refinement of results\<close>

text \<open>Two results match if they are the same fault, or related values.\<close>

abbreviation matches :: "('a \<Rightarrow> 'b \<Rightarrow> bool) \<Rightarrow> fault + 'a \<Rightarrow> fault + 'b \<Rightarrow> bool" where
  "matches R \<equiv> rel_sum (=) R"

lemma matches_bind:
  assumes "matches R m m'" "\<And>x y. R x y \<Longrightarrow> matches Q (f x) (f' y)"
  shows "matches Q (bind_result m f) (bind_result m' f')"
  using assms by (cases m; cases m') auto

lemma matches_strengthen:
  assumes "matches R m m'" "\<And>x y. m = Inr x \<Longrightarrow> m' = Inr y \<Longrightarrow> R x y \<Longrightarrow> Q x y"
  shows "matches Q m m'"
  using assms by (cases m; cases m') auto

lemma matches_same_bind:
  assumes "\<And>x. m = Inr x \<Longrightarrow> matches Q (f x) (f' x)"
  shows "matches Q (bind_result m f) (bind_result m f')"
  using assms by (cases m) auto

section \<open>Removing, adding and changing heaps\<close>

lemma map_of_remove: "map_of (filter (\<lambda>p. fst p \<noteq> i) L) j = (if j = i then None else map_of L j)"
  by (induction L) auto

lemma refines_destroy:
  assumes ref: "refines s a" and un: "unlinked s a i s'"
  shows "refines (set_heap i None (s'\<lparr>sb_sink := k\<rparr>)) ((spec_remove i a)\<lparr>sp_sink := k\<rparr>)"
proof -
  note r = refinesD [OF ref]
  from un obtain qs bs where s': "s' = s\<lparr>sb_queue_storage := qs, sb_buckets := bs\<rparr>"
    and len: "length qs = sb_max_heaps s" "length bs = sb_bucket_count s"
    and heap: "\<And>j. j < length qs \<Longrightarrow> qe_heap (qs ! j) = qe_heap (sb_queue_storage s ! j)"
    and nxt: "\<And>j. j < length qs \<Longrightarrow> qe_next (qs ! j) = Invalid_entry \<longleftrightarrow> j = i \<or> nexts s ! j = Invalid_entry"
    and chain: "\<And>b. b < length bs \<Longrightarrow> is_chain (map qe_next qs) (bs ! b)
        (bucket_slots s b (filter (\<lambda>p. fst p \<noteq> i) (sp_live a)))"
    unfolding unlinked_def r(1) r(2) by blast
  let ?s = "set_heap i None (s'\<lparr>sb_sink := k\<rparr>)" and ?L = "filter (\<lambda>p. fst p \<noteq> i) (sp_live a)"
  have nx: "nexts ?s = map qe_next qs"
    by (simp only: nexts_set_heap) (simp add: s' nexts_def)
  have bk: "get_bucket ?s = get_bucket s" "bucket_slots ?s = bucket_slots s"
    by (simp_all add: set_heap_def s')
  have sel: "sb_queue_storage ?s = qs[i := (qs ! i)\<lparr>qe_heap := None\<rparr>]" "sb_buckets ?s = bs"
    "sb_max_heaps ?s = sb_max_heaps s" "sb_bucket_count ?s = sb_bucket_count s" "sb_head ?s = sb_head s"
    "sb_stopped ?s = sb_stopped s" "sb_stats ?s = sb_stats s" "sb_sink ?s = k"
    "sb_bug_compat ?s = sb_bug_compat s"
    by (simp_all add: set_heap_def s')
  have heaps: "qe_heap (qs[i := (qs ! i)\<lparr>qe_heap := None\<rparr>] ! j) = map_of ?L j"
    if "j < sb_max_heaps s" for j
    using that len heap [of j] r(9) [OF that] by (cases "j = i") (simp_all add: map_of_remove)
  have next_iff: "qe_next (qs ! j) = Invalid_entry \<longleftrightarrow> map_of ?L j = None" if "j < sb_max_heaps s" for j
    using that len nxt [of j] r(10) [OF that] by (auto simp: map_of_remove)
  show ?thesis
    unfolding refines_def nx bk sel
    using r len heaps next_iff chain
    by (auto simp: spec_remove_def distinct_map_filter)
qed

lemma unlinked_entry_heap:
  assumes "refines s a" "unlinked s a i s'" "map_of (sp_live a) i = Some h"
  shows "entry_heap s' i = Inr h" "sb_sink s' = sb_sink s"
proof -
  from assms(2) obtain qs bs where s': "s' = s\<lparr>sb_queue_storage := qs, sb_buckets := bs\<rparr>"
    and len: "length qs = length (sb_queue_storage s)"
    and heap: "\<And>j. j < length qs \<Longrightarrow> qe_heap (qs ! j) = qe_heap (sb_queue_storage s ! j)"
    unfolding unlinked_def by blast
  from refines_entry_heap [OF assms(1,3)] refinesD(1) [OF assms(1)] heap [of i] len
  show "entry_heap s' i = Inr h" "sb_sink s' = sb_sink s"
    by (auto simp: s' entry_heap_def split: option.splits)
qed

lemma eject_refines:
  assumes "refines s a" "map_of (sp_live a) i = Some h"
  shows "matches refines (eject_entry vt i s) (spec_eject vt i a)"
proof -
  obtain s' where s': "unlink_entry i s = Inr s'" "unlinked s a i s'"
    using unlink_entry_ok [OF assms] by blast
  have "sp_sink a = sb_sink s'"
    using refinesD(14) [OF assms(1)] unlinked_entry_heap(2) [OF assms(1) s'(2) assms(2)] by simp
  then have "eject_entry vt i s = bind_result (heap_ready vt h (sp_sink a)) (\<lambda>k.
      Inr (set_heap i None (s'\<lparr>sb_sink := k\<rparr>)))"
    by (simp add: eject_entry_def s'(1) unlinked_entry_heap(1) [OF assms(1) s'(2) assms(2)])
  then show ?thesis
    using assms(2) refines_destroy [OF assms(1) s'(2)]
    by (simp add: spec_eject_def matches_same_bind)
qed

lemma advance_refines:
  assumes "refines s a"
  shows "refines (advance_head s) (spec_advance a)"
proof -
  note r = refinesD [OF assms]
  have "(if sb_head s + 1 = sb_max_heaps s then 0 else sb_head s + 1) = Suc (sp_head a) mod sp_max_heaps a"
    using r(3,4,5) by (simp add: mod_Suc)
  then show ?thesis
    using assms r(5) unfolding refines_def advance_head_def spec_advance_def by auto
qed

lemma next_live_iff:
  assumes "refines s a" "i < sb_max_heaps s"
  shows "entry_next s i \<noteq> Invalid_entry \<longleftrightarrow> map_of (sp_live a) i \<noteq> None"
  using refinesD(1,10) [OF assms(1)] assms(2) by (simp add: entry_next_nexts)

text \<open>Starting a heap in a free slot.\<close>

lemma insert_refines:
  assumes ref: "refines s a" and free: "map_of (sp_live a) i = None" and i: "i < sb_max_heaps s"
    and b: "b = get_bucket s (lh_cnt h)"
  shows "refines (set_heap i (Some h)
      ((set_next i (sb_buckets s ! b) s)\<lparr>sb_buckets := (sb_buckets s)[b := Entry i]\<rparr>))
    (a\<lparr>sp_live := (i, h) # sp_live a\<rparr>)"
proof -
  note r = refinesD [OF ref]
  let ?s = "set_heap i (Some h)
    ((set_next i (sb_buckets s ! b) s)\<lparr>sb_buckets := (sb_buckets s)[b := Entry i]\<rparr>)"
  let ?L = "sp_live a"
  have bb: "b < sb_bucket_count s" using r(6) b by simp
  have len: "i < length (sb_queue_storage s)" using i r(1) by simp
  have nx: "nexts ?s = (nexts s)[i := sb_buckets s ! b]" using len by simp
  have bk: "get_bucket ?s = get_bucket s" "bucket_slots ?s = bucket_slots s"
    by (simp_all add: set_heap_def set_next_def)
  have sel: "sb_queue_storage ?s =
      (sb_queue_storage s)[i := (sb_queue_storage s ! i)\<lparr>qe_next := sb_buckets s ! b, qe_heap := Some h\<rparr>]"
    "sb_buckets ?s = (sb_buckets s)[b := Entry i]"
    "sb_max_heaps ?s = sb_max_heaps s" "sb_bucket_count ?s = sb_bucket_count s" "sb_head ?s = sb_head s"
    "sb_stopped ?s = sb_stopped s" "sb_stats ?s = sb_stats s" "sb_sink ?s = sb_sink s"
    "sb_bug_compat ?s = sb_bug_compat s"
    using len by (simp_all add: set_heap_def set_next_def)
  have fresh: "i \<notin> fst ` set ?L" using free by (simp add: map_of_eq_None_iff)
  then have out: "i \<notin> set (bucket_slots s b' ?L)" for b' by (auto simp: bucket_slots_def)
  have chains: "is_chain ((nexts s)[i := sb_buckets s ! b]) ((sb_buckets s)[b := Entry i] ! b')
      (bucket_slots s b' ((i, h) # ?L))" if "b' < sb_bucket_count s" for b'
  proof (cases "b' = b")
    case True
    then show ?thesis
      using r(11) [OF bb] r(2) bb b len out [of b]
      by (simp add: bucket_slots_def is_chain_update)
  next
    case False
    then have "bucket_slots s b' ((i, h) # ?L) = bucket_slots s b' ?L"
      using b by (simp add: bucket_slots_def)
    with False show ?thesis using r(11) [OF that] out by (simp add: is_chain_update)
  qed
  have "sb_buckets s ! b \<noteq> Invalid_entry" using is_chain_cases(1) [OF r(11) [OF bb]] .
  then have nxt: "(nexts s)[i := sb_buckets s ! b] ! j = Invalid_entry \<longleftrightarrow> map_of ((i, h) # ?L) j = None"
    if "j < sb_max_heaps s" for j
    using that len r(10) [OF that] by (cases "j = i") simp_all
  have hps: "qe_heap ((sb_queue_storage s)[i := (sb_queue_storage s ! i)
      \<lparr>qe_next := sb_buckets s ! b, qe_heap := Some h\<rparr>] ! j) = map_of ((i, h) # ?L) j"
    if "j < sb_max_heaps s" for j
    using that len r(9) [OF that] by (cases "j = i") simp_all
  show ?thesis
    unfolding refines_def nx bk sel
    using r chains nxt hps i fresh by auto
qed

text \<open>Changing a heap in place; the heap count stays, and with it the chain.\<close>

lemma update_refines:
  assumes ref: "refines s a" and live: "map_of (sp_live a) i = Some h" and cnt: "lh_cnt h' = lh_cnt h"
  shows "refines (set_heap i (Some h') s) (spec_update i h' a)"
    "map_of (sp_live (spec_update i h' a)) i = Some h'"
proof -
  note r = refinesD [OF ref]
  let ?s = "set_heap i (Some h') s" and ?L = "sp_live a"
  let ?f = "\<lambda>p. if fst p = i then (i, h') else p"
  have i: "i < sb_max_heaps s" "i < length (sb_queue_storage s)"
    using refines_entry_heap [OF ref live] r(1) by simp_all
  have fst: "map fst (map ?f ?L) = map fst ?L" by (induction ?L) auto
  have mo: "map_of (map ?f L) j = (if j = i then map_option (\<lambda>_. h') (map_of L i) else map_of L j)" for L j
    by (induction L) auto
  show "map_of (sp_live (spec_update i h' a)) i = Some h'"
    using live by (simp add: spec_update_def mo)
  have uniq: "snd p = h" if "p \<in> set ?L" "fst p = i" for p
    using that live r(7) by (metis map_of_is_SomeI option.inject prod.collapse)
  have "bucket_slots s b (map ?f ?L) = bucket_slots s b ?L" for b
  proof -
    have "map fst (filter (\<lambda>p. get_bucket s (lh_cnt (snd p)) = b) (map ?f L)) =
        map fst (filter (\<lambda>p. get_bucket s (lh_cnt (snd p)) = b) L)" if "set L \<subseteq> set ?L" for L
      using that by (induction L) (auto simp: cnt dest: uniq)
    then show ?thesis by (simp add: bucket_slots_def)
  qed
  then have chains: "is_chain (nexts s) (sb_buckets s ! b) (bucket_slots s b (map ?f ?L))"
    if "b < sb_bucket_count s" for b
    using r(11) [OF that] by simp
  have hps: "qe_heap ((sb_queue_storage s)[i := (sb_queue_storage s ! i)\<lparr>qe_heap := Some h'\<rparr>] ! j) =
      map_of (map ?f ?L) j" if "j < sb_max_heaps s" for j
    using that i r(9) [OF that] live by (cases "j = i") (simp_all add: mo)
  have nxt: "nexts s ! j = Invalid_entry \<longleftrightarrow> map_of (map ?f ?L) j = None" if "j < sb_max_heaps s" for j
    using r(10) [OF that] live by (auto simp: mo)
  have sel: "sb_queue_storage ?s = (sb_queue_storage s)[i := (sb_queue_storage s ! i)\<lparr>qe_heap := Some h'\<rparr>]"
    "sb_buckets ?s = sb_buckets s" "get_bucket ?s = get_bucket s" "bucket_slots ?s = bucket_slots s"
    "sb_max_heaps ?s = sb_max_heaps s" "sb_bucket_count ?s = sb_bucket_count s" "sb_head ?s = sb_head s"
    "sb_stopped ?s = sb_stopped s" "sb_stats ?s = sb_stats s" "sb_sink ?s = sb_sink s"
    "sb_bug_compat ?s = sb_bug_compat s"
    by (simp_all add: set_heap_def)
  have "distinct (map (fst \<circ> ?f) ?L)" using r(7) by (simp only: map_map [symmetric] fst)
  then show "refines ?s (spec_update i h' a)"
    unfolding refines_def nexts_set_heap sel
    using r chains hps nxt by (auto simp: spec_update_def)
qed

section \<open>Flushing and stopping\<close>

lemma flush_loop_order:
  assumes "head < m"
  shows "map (\<lambda>j. (head + Suc j) mod m) [0..<m] = flush_order head m"
proof (rule nth_equalityI)
  show "length (map (\<lambda>j. (head + Suc j) mod m) [0..<m]) = length (flush_order head m)"
    using assms by (simp add: flush_order_def)
next
  fix j
  assume "j < length (map (\<lambda>j. (head + Suc j) mod m) [0..<m])"
  then have j: "j < m" by simp
  show "map (\<lambda>j. (head + Suc j) mod m) [0..<m] ! j = flush_order head m ! j"
  proof (cases "head + Suc j < m")
    case True
    then have "j < m - Suc head" by linarith
    then show ?thesis using True j by (simp add: flush_order_def nth_append)
  next
    case False
    then have "(head + Suc j) mod m = head + Suc j - m"
      using j assms by (simp add: mod_if)
    moreover have "\<not> j < m - Suc head" "j - (m - Suc head) = head + Suc j - m" "head + Suc j - m < Suc head"
      using False j assms by linarith+
    ultimately show ?thesis using j by (simp add: flush_order_def nth_append del: upt_Suc)
  qed
qed

definition counted :: "nat \<times> 's stream_base \<Rightarrow> nat \<times> 's spec_stream \<Rightarrow> bool" where
  "counted x y \<longleftrightarrow> fst x = fst y \<and>
     refines (snd x) ((snd y)\<lparr>sp_head := sb_head (snd x)\<rparr>) \<and> sp_max_heaps (snd y) = sb_max_heaps (snd x)"

lemma spec_eject_head:
  "spec_eject vt i (a\<lparr>sp_head := n\<rparr>) =
     bind_result (spec_eject vt i a) (\<lambda>a'. Inr (a'\<lparr>sp_head := n\<rparr>))"
  by (cases "map_of (sp_live a) i"; cases "heap_ready vt (the (map_of (sp_live a) i)) (sp_sink a)")
    (auto simp: spec_eject_def spec_remove_def)

lemma eject_head:
  assumes "eject_entry vt i s = Inr s'"
  shows "sb_head s' = sb_head s" "sb_max_heaps s' = sb_max_heaps s"
proof -
  have w: "sb_head (write_link p l s) = sb_head s" "sb_max_heaps (write_link p l s) = sb_max_heaps s" for p l
    by (cases p; simp add: set_next_def)+
  from assms show "sb_head s' = sb_head s" "sb_max_heaps s' = sb_max_heaps s"
    by (auto simp: eject_entry_def bind_result_Inr_iff unlink_entry_def Let_def set_heap_def set_next_def w
        split: if_splits)
qed

lemma eject_bucket:
  assumes "eject_entry vt i s = Inr s'"
  shows "get_bucket s' = get_bucket s"
proof -
  have w: "get_bucket (write_link p l s) = get_bucket s" "get_bucket (set_next j l s) = get_bucket s"
    "get_bucket (set_heap j h s) = get_bucket s" for p l j h and s :: "'s stream_base"
    by (cases p; simp add: set_next_def set_heap_def)+
  from assms show ?thesis
    by (auto simp: eject_entry_def bind_result_Inr_iff unlink_entry_def Let_def w split: if_splits)
qed

lemma flush_step:
  assumes "counted (n, s) (n', a)" "i = Suc (sb_head s) mod sb_max_heaps s"
  shows "matches counted
      (if entry_next (advance_head s) (sb_head (advance_head s)) \<noteq> Invalid_entry
       then bind_result (eject_entry vt (sb_head (advance_head s)) (advance_head s)) (\<lambda>s2. Inr (n + 1, s2))
       else Inr (n, advance_head s))
      (spec_eject_if_live vt i (n', a))"
    "sb_head (advance_head s) = i"
proof -
  let ?a = "a\<lparr>sp_head := sb_head s\<rparr>" and ?s = "advance_head s"
  have ref: "refines s ?a" and n: "n = n'" and m: "sp_max_heaps a = sb_max_heaps s"
    using assms(1) by (simp_all add: counted_def)
  have ref': "refines ?s (a\<lparr>sp_head := i\<rparr>)"
    using advance_refines [OF ref] m assms(2) by (simp add: spec_advance_def)
  then show head: "sb_head ?s = i" using refinesD(4) by fastforce
  have i: "i < sb_max_heaps ?s" using refinesD(5) [OF ref'] head by simp
  have m': "sb_max_heaps ?s = sb_max_heaps s" by (simp add: advance_head_def)
  note live = next_live_iff [OF ref' i]
  show "matches counted
      (if entry_next ?s (sb_head ?s) \<noteq> Invalid_entry
       then bind_result (eject_entry vt (sb_head ?s) ?s) (\<lambda>s2. Inr (n + 1, s2)) else Inr (n, ?s))
      (spec_eject_if_live vt i (n', a))"
  proof (cases "map_of (sp_live a) i")
    case None
    then have "entry_next ?s i = Invalid_entry" using live by simp
    with None ref' n m m' head show ?thesis
      by (simp add: spec_eject_if_live_def counted_def)
  next
    case (Some h)
    then have e: "entry_next ?s i \<noteq> Invalid_entry" using live by simp
    have "matches refines (eject_entry vt i ?s) (spec_eject vt i (a\<lparr>sp_head := i\<rparr>))"
      using eject_refines [OF ref'] Some by simp
    then have "matches (\<lambda>s2 a2. counted (n + 1, s2) (n' + 1, a2)) (eject_entry vt i ?s) (spec_eject vt i a)"
      by (cases "eject_entry vt i ?s"; cases "spec_eject vt i a")
        (auto simp: spec_eject_head counted_def n head m m' dest: eject_head refinesD(3))
    then show ?thesis
      using e Some head by (auto simp: spec_eject_if_live_def intro: matches_bind)
  qed
qed

lemma flush_loop_step:
  "flush_loop vt (Suc k) (n, s) =
     bind_result
       (if entry_next (advance_head s) (sb_head (advance_head s)) \<noteq> Invalid_entry
        then bind_result (eject_entry vt (sb_head (advance_head s)) (advance_head s)) (\<lambda>s2. Inr (n + 1, s2))
        else Inr (n, advance_head s)) (flush_loop vt k)"
  by (simp add: Let_def bind_result_assoc)

lemma flush_loop_refines:
  assumes "counted (n, s) (n', a)" "j + k = sb_max_heaps s"
    and "sb_head s = (h0 + j) mod sb_max_heaps s" "m = sb_max_heaps s"
  shows "matches (\<lambda>x y. counted x y \<and> sb_head (snd x) = (h0 + m) mod m) (flush_loop vt k (n, s))
    (fold_result (spec_eject_if_live vt) (map (\<lambda>j. (h0 + Suc j) mod m) [j..<m]) (n', a))"
  using assms
proof (induction k arbitrary: n s n' a j)
  case 0
  then show ?case by simp
next
  case (Suc k)
  let ?i = "(h0 + Suc j) mod m"
  have i: "?i = Suc (sb_head s) mod sb_max_heaps s"
    using Suc.prems(3,4) by (simp add: mod_Suc_eq)
  have j: "[j..<m] = j # [Suc j..<m]" using Suc.prems(2,4) by (simp add: upt_conv_Cons)
  note step = flush_step(1) [OF Suc.prems(1) i, where vt = vt] flush_step(2) [OF Suc.prems(1) i]
  let ?step = "if entry_next (advance_head s) (sb_head (advance_head s)) \<noteq> Invalid_entry
       then bind_result (eject_entry vt (sb_head (advance_head s)) (advance_head s)) (\<lambda>s2. Inr (n + 1, s2))
       else Inr (n, advance_head s)"
  have keep: "sb_head (snd x) = ?i \<and> sb_max_heaps (snd x) = m" if "?step = Inr x" for x
    using that step(2) Suc.prems(4) eject_head
    by (fastforce simp: bind_result_Inr_iff advance_head_def split: if_splits)
  show ?case
    unfolding flush_loop_step j list.map fold_result.simps
  proof (rule matches_bind [where R = "\<lambda>x y. counted x y \<and> ?step = Inr x"])
    show "matches (\<lambda>x y. counted x y \<and> ?step = Inr x) ?step (spec_eject_if_live vt ?i (n', a))"
      using step(1) by (cases ?step; cases "spec_eject_if_live vt ?i (n', a)") simp_all
  next
    fix x y
    assume xy: "counted x y \<and> ?step = Inr x"
    obtain n1 s1 where x: "x = (n1, s1)" by (cases x)
    obtain n1' a1 where y: "y = (n1', a1)" by (cases y)
    have "sb_head s1 = (h0 + Suc j) mod sb_max_heaps s1" "m = sb_max_heaps s1"
      using keep xy x by auto
    then show "matches (\<lambda>x y. counted x y \<and> sb_head (snd x) = (h0 + m) mod m) (flush_loop vt k x)
        (fold_result (spec_eject_if_live vt) (map (\<lambda>j. (h0 + Suc j) mod m) [Suc j..<m]) y)"
      unfolding x y using xy Suc.prems(2,4) by (intro Suc.IH) (simp_all add: x y)
  qed
qed

lemma spec_eject_if_live_head:
  "fold_result (spec_eject_if_live vt) is (n, a) = Inr (n', a') \<Longrightarrow> sp_head a' = sp_head a"
proof (induction "is" arbitrary: n a)
  case (Cons i "is")
  then obtain n1 a1 where "spec_eject_if_live vt i (n, a) = Inr (n1, a1)"
    "fold_result (spec_eject_if_live vt) is (n1, a1) = Inr (n', a')"
    by (auto simp: bind_result_Inr_iff)
  moreover have "sp_head a1 = sp_head a"
    using calculation(1)
    by (auto simp: spec_eject_if_live_def spec_eject_def spec_remove_def bind_result_Inr_iff
        split: if_splits option.splits)
  ultimately show ?case using Cons.IH [of n1 a1] by simp
qed simp

lemma flush_refines:
  assumes "refines s a"
  shows "matches refines (flush_unlocked vt s) (spec_flush vt a)"
proof -
  note r = refinesD [OF assms]
  let ?m = "sb_max_heaps s"
  let ?R = "\<lambda>x y. counted x y \<and> sb_head (snd x) = (sb_head s + ?m) mod ?m"
  let ?fold = "fold_result (spec_eject_if_live vt) (flush_order (sp_head a) (sp_max_heaps a)) (0, a)"
  have "(a\<lparr>sp_head := sb_head s\<rparr>) = a" using r(4) by simp
  then have "counted (0, s) (0, a)" using assms r(3) by (simp add: counted_def)
  then have "matches ?R (flush_loop vt ?m (0, s)) ?fold"
    using flush_loop_refines [of 0 s 0 a 0 ?m "sb_head s" ?m vt] r(3,4,5)
      flush_loop_order [OF r(5)] by simp
  then have m: "matches (\<lambda>x y. ?R x y \<and> ?fold = Inr y) (flush_loop vt ?m (0, s)) ?fold"
    by (cases "flush_loop vt ?m (0, s)"; cases ?fold) simp_all
  show ?thesis
    unfolding flush_unlocked_def spec_flush_def
  proof (rule matches_bind [OF m])
    fix x y
    assume xy: "?R x y \<and> ?fold = Inr y"
    obtain n1 s1 where x: "x = (n1, s1)" by (cases x)
    obtain n1' a1 where y: "y = (n1', a1)" by (cases y)
    have "sp_head a1 = sb_head s1"
      using xy x y r(4,5) spec_eject_if_live_head by fastforce
    then have "a1\<lparr>sp_head := sb_head s1\<rparr> = a1" by simp
    then have "refines s1 a1" "n1 = n1'" using xy by (auto simp: x y counted_def)
    then show "matches refines
        ((\<lambda>(n, s1). let stats = sb_stats s1 in Inr (s1\<lparr>sb_stats := stats\<lparr>ss_heaps := ss_heaps stats + n,
            ss_incomplete_heaps_flushed := ss_incomplete_heaps_flushed stats + n\<rparr>\<rparr>)) x)
        ((\<lambda>(n, a1). let stats = sp_stats a1 in Inr (a1\<lparr>sp_stats := stats\<lparr>ss_heaps := ss_heaps stats + n,
            ss_incomplete_heaps_flushed := ss_incomplete_heaps_flushed stats + n\<rparr>\<rparr>)) y)"
      by (simp add: x y Let_def refines_def)
  qed
qed

lemma stop_refines:
  assumes "refines s a"
  shows "matches refines (stop_received vt s) (spec_stop_received vt a)"
proof (cases "sb_stopped s")
  case True
  then show ?thesis
    using refinesD(12) [OF assms] by (simp add: stop_received_def spec_stop_received_def)
next
  case False
  have "refines (s\<lparr>sb_stopped := True\<rparr>) (a\<lparr>sp_stopped := True\<rparr>)"
    using assms by (simp add: refines_def)
  from flush_refines [OF this, of vt]
  have "matches refines (bind_result (flush_unlocked vt (s\<lparr>sb_stopped := True\<rparr>))
        (\<lambda>s1. Inr (s1\<lparr>sb_sink := stop_hook vt (sb_sink s1)\<rparr>)))
      (bind_result (spec_flush vt (a\<lparr>sp_stopped := True\<rparr>))
        (\<lambda>a1. Inr (a1\<lparr>sp_sink := stop_hook vt (sp_sink a1)\<rparr>)))"
    by (rule matches_bind) (simp add: refines_def)
  then show ?thesis
    using False refinesD(12) [OF assms] by (simp add: stop_received_def spec_stop_received_def)
qed

section \<open>Adding a packet\<close>

text \<open>The specification does not count hash table probes.\<close>

definition same_counts :: "add_packet_state \<Rightarrow> add_packet_state \<Rightarrow> bool" where
  "same_counts st st' \<longleftrightarrow> st\<lparr>aps_search_dist := 0\<rparr> = st'\<lparr>aps_search_dist := 0\<rparr>"

lemma same_countsD:
  assumes "same_counts st st'"
  shows "aps_memcpy st = aps_memcpy st'" "aps_allocator st = aps_allocator st'"
    "aps_stop_on_stop_item st = aps_stop_on_stop_item st'"
    "aps_allow_unsized_heaps st = aps_allow_unsized_heaps st'" "aps_packets st = aps_packets st'"
    "aps_complete_heaps st = aps_complete_heaps st'"
    "aps_incomplete_heaps_evicted st = aps_incomplete_heaps_evicted st'"
    "aps_single_packet_heaps st = aps_single_packet_heaps st'"
  using assms by (cases st; cases st'; simp add: same_counts_def)+

lemma same_counts_update:
  assumes "same_counts st st'"
  shows "same_counts (st\<lparr>aps_packets := n\<rparr>) (st'\<lparr>aps_packets := n\<rparr>)"
    "same_counts (st\<lparr>aps_complete_heaps := n\<rparr>) (st'\<lparr>aps_complete_heaps := n\<rparr>)"
    "same_counts (st\<lparr>aps_incomplete_heaps_evicted := n\<rparr>) (st'\<lparr>aps_incomplete_heaps_evicted := n\<rparr>)"
    "same_counts (st\<lparr>aps_single_packet_heaps := n\<rparr>) (st'\<lparr>aps_single_packet_heaps := n\<rparr>)"
    "same_counts (st\<lparr>aps_search_dist := n\<rparr>) st'"
  using assms by (cases st; cases st'; simp add: same_counts_def)+

definition step_result ::
  "'x \<times> add_packet_state \<times> 's stream_base \<Rightarrow> 'x \<times> add_packet_state \<times> 's spec_stream \<Rightarrow> bool" where
  "step_result x y \<longleftrightarrow> fst x = fst y \<and> same_counts (fst (snd x)) (fst (snd y)) \<and>
     refines (snd (snd x)) (snd (snd y))"

lemma spec_eject_live:
  assumes "spec_eject vt i a = Inr a'"
  shows "map_of (sp_live a') i = None" "sp_bug_compat a' = sp_bug_compat a"
    "sp_max_heaps a' = sp_max_heaps a" "sp_head a' = sp_head a"
  using assms
  by (auto simp: spec_eject_def spec_remove_def bind_result_Inr_iff map_of_remove split: option.splits)

lemma new_entry_refines:
  assumes ref: "refines s a" and st: "same_counts st st'"
    and b: "b = get_bucket s (ph_heap_cnt p)"
  shows "matches step_result (new_entry vt p b st s) (spec_new vt p st' a)"
proof -
  let ?s = "advance_head s" and ?a = "spec_advance a"
  let ?i = "sb_head ?s"
  have ref': "refines ?s ?a" by (rule advance_refines [OF ref])
  note r = refinesD [OF ref']
  have i: "sp_head ?a = ?i" "?i < sb_max_heaps ?s" using r(4,5) by simp_all
  have bk: "get_bucket ?s = get_bucket s" by (simp add: advance_head_def)
  let ?R = "\<lambda>x y. same_counts (fst x) (fst y) \<and> refines (snd x) (snd y) \<and>
    map_of (sp_live (snd y)) ?i = None \<and> ?i < sb_max_heaps (snd x) \<and>
    b = get_bucket (snd x) (ph_heap_cnt p)"
  have evict: "matches ?R
      (if entry_next ?s ?i \<noteq> Invalid_entry then
         bind_result (eject_entry vt ?i ?s) (\<lambda>s2.
         Inr (st\<lparr>aps_incomplete_heaps_evicted := aps_incomplete_heaps_evicted st + 1\<rparr>, s2))
       else Inr (st, ?s))
      (if map_of (sp_live ?a) ?i = None then Inr (st', ?a)
       else bind_result (spec_eject vt ?i ?a) (\<lambda>a2.
         Inr (st'\<lparr>aps_incomplete_heaps_evicted := aps_incomplete_heaps_evicted st' + 1\<rparr>, a2)))"
  proof (cases "map_of (sp_live ?a) ?i")
    case None
    then show ?thesis using next_live_iff [OF ref' i(2)] st ref' i(2) b bk by simp
  next
    case (Some h)
    then have e: "entry_next ?s ?i \<noteq> Invalid_entry" using next_live_iff [OF ref' i(2)] by simp
    have st1: "same_counts (st\<lparr>aps_incomplete_heaps_evicted := Suc (aps_incomplete_heaps_evicted st)\<rparr>)
        (st'\<lparr>aps_incomplete_heaps_evicted := Suc (aps_incomplete_heaps_evicted st')\<rparr>)"
      using same_counts_update(3) [OF st] same_countsD(7) [OF st] by simp
    have "matches (\<lambda>s2 a2. refines s2 a2 \<and> map_of (sp_live a2) ?i = None \<and>
        ?i < sb_max_heaps s2 \<and> b = get_bucket s2 (ph_heap_cnt p)) (eject_entry vt ?i ?s) (spec_eject vt ?i ?a)"
      by (rule matches_strengthen [OF eject_refines [OF ref' Some]])
        (simp add: spec_eject_live(1) eject_head(2) eject_bucket i(2) b bk)
    then have "matches ?R
        (bind_result (eject_entry vt ?i ?s) (\<lambda>s2.
          Inr (st\<lparr>aps_incomplete_heaps_evicted := aps_incomplete_heaps_evicted st + 1\<rparr>, s2)))
        (bind_result (spec_eject vt ?i ?a) (\<lambda>a2.
          Inr (st'\<lparr>aps_incomplete_heaps_evicted := aps_incomplete_heaps_evicted st' + 1\<rparr>, a2)))"
      by (rule matches_bind) (simp add: st1)
    then show ?thesis using e Some by (simp only: if_True if_False option.distinct not_False_eq_True)
  qed
  show ?thesis
    unfolding new_entry_def spec_new_def Let_def i(1)
  proof (rule matches_bind [OF evict])
    fix x y
    assume xy: "?R x y"
    obtain st1 s2 where x: "x = (st1, s2)" by (cases x)
    obtain st1' a2 where y: "y = (st1', a2)" by (cases y)
    have R: "same_counts st1 st1'" "refines s2 a2" "map_of (sp_live a2) ?i = None"
      "?i < sb_max_heaps s2" "b = get_bucket s2 (ph_heap_cnt p)" using xy by (simp_all add: x y)
    have "sp_bug_compat a2 = sb_bug_compat s2" by (rule refinesD [OF R(2)])
    moreover have "sb_buckets (set_next ?i l s2) = sb_buckets s2"
      "sb_bug_compat (set_next ?i l s2) = sb_bug_compat s2" for l by (simp_all add: set_next_def)
    ultimately show "matches step_result
        (case x of (st1, s2) \<Rightarrow> Inr (?i, st1, set_heap ?i (Some (make_live_heap p (sb_bug_compat
            ((set_next ?i (sb_buckets s2 ! b) s2)
              \<lparr>sb_buckets := (sb_buckets (set_next ?i (sb_buckets s2 ! b) s2))[b := Entry ?i]\<rparr>))))
            ((set_next ?i (sb_buckets s2 ! b) s2)
              \<lparr>sb_buckets := (sb_buckets (set_next ?i (sb_buckets s2 ! b) s2))[b := Entry ?i]\<rparr>)))
        (case y of (st1, a2) \<Rightarrow> Inr (?i, st1,
            a2\<lparr>sp_live := (?i, make_live_heap p (sp_bug_compat a2)) # sp_live a2\<rparr>))"
      using insert_refines [OF R(2,3,4), of b "make_live_heap p (sb_bug_compat s2)"] R(1,5)
      by (simp add: x y step_result_def)
  qed
qed

lemma find_bucket_slots:
  assumes "\<forall>p \<in> set L. cnt (fst p) = lh_cnt (snd p)" "b = get_bucket s c"
  shows "find (\<lambda>i. cnt i = c) (bucket_slots s b L) = map_option fst (find (\<lambda>p. lh_cnt (snd p) = c) L)"
  using assms(1) by (induction L) (auto simp: bucket_slots_def assms(2))

lemma locate_refines:
  assumes ref: "refines s a" and st: "same_counts st st'" and b: "b = get_bucket s (ph_heap_cnt p)"
  shows "\<exists>st1. locate_entry p b st s = Inr (fst (spec_locate p st' a), st1) \<and>
    same_counts st1 (snd (spec_locate p st' a))"
proof (cases "ph_heap_length p \<ge> 0 \<and> ph_payload_length p = ph_heap_length p")
  case True
  then show ?thesis
    using same_counts_update(4) [OF st] same_countsD(8) [OF st]
    by (simp add: locate_entry_def spec_locate_def)
next
  case False
  note r = refinesD [OF ref]
  let ?L = "sp_live a" and ?c = "ph_heap_cnt p" and ?xs = "bucket_slots s b (sp_live a)"
  define cnt where "cnt i = lh_cnt (the (map_of ?L i))" for i
  have cnt: "\<forall>q \<in> set ?L. cnt (fst q) = lh_cnt (snd q)"
    using r(7) by (auto simp: cnt_def)
  have bb: "b < sb_bucket_count s" using r(6) b by simp
  have "\<exists>h. entry_heap s i = Inr h \<and> lh_cnt h = cnt i" if "i \<in> set ?xs" for i
  proof -
    obtain h where "(i, h) \<in> set ?L" using \<open>i \<in> set ?xs\<close> by (auto simp: bucket_slots_def)
    then have "map_of ?L i = Some h" using r(7) by simp
    then show ?thesis using refines_entry_heap(1) [OF ref] by (simp add: cnt_def)
  qed
  moreover have "length ?xs < Suc (sb_max_heaps s)" using length_bucket_slots [OF ref] by (simp add: less_Suc_eq_le)
  ultimately obtain d' where "find_entry s (Suc (sb_max_heaps s)) (sb_buckets s ! b) ?c 1 =
      Inr (find (\<lambda>i. cnt i = ?c) ?xs, d')"
    using find_entry_chain [OF r(11) [OF bb]] by blast
  then have "find_entry s (Suc (sb_max_heaps s)) (sb_buckets s ! b) ?c 1 = Inr (spec_find p a, d')"
    using find_bucket_slots [OF cnt b] by (simp add: spec_find_def)
  moreover have "\<not> (0 \<le> ph_heap_length p \<and> ph_payload_length p = ph_heap_length p)" using False by simp
  ultimately show ?thesis
    using same_counts_update(5) [OF st]
    by (simp only: locate_entry_def spec_locate_def if_not_P) simp
qed

lemma spec_find_live:
  assumes "distinct (map fst (sp_live a))" "spec_find p a = Some i"
  shows "\<exists>h. map_of (sp_live a) i = Some h \<and> lh_cnt h = ph_heap_cnt p"
proof -
  obtain h where "(i, h) \<in> set (sp_live a)" "lh_cnt h = ph_heap_cnt p"
    using assms(2) by (auto simp: spec_find_def find_Some_iff) (metis nth_mem snd_conv)
  with assms(1) show ?thesis by auto
qed

lemma destroy_same_sink:
  assumes "refines s a" "unlinked s a i s'"
  shows "refines (set_heap i None s') (spec_remove i a)"
proof -
  have "s'\<lparr>sb_sink := sp_sink a\<rparr> = s'"
    using assms refinesD(14) [OF assms(1)] by (auto simp: unlinked_def)
  moreover have "(spec_remove i a)\<lparr>sp_sink := sp_sink a\<rparr> = spec_remove i a" by (simp add: spec_remove_def)
  ultimately show ?thesis using refines_destroy [OF assms, of "sp_sink a"] by simp
qed

text \<open>What happens to a complete heap: out of the table, to the sink unless the stream ends.\<close>

lemma finish_refines:
  assumes ref: "refines s a" and live: "map_of (sp_live a) i = Some h" and st: "same_counts st st'"
  shows "matches (\<lambda>x y. same_counts (fst x) (fst y) \<and> refines (snd x) (snd y))
    (bind_result (unlink_entry i s) (\<lambda>s2.
     bind_result
       (if \<not> eos
        then bind_result (heap_ready vt h (sb_sink s2)) (\<lambda>k.
          Inr (st\<lparr>aps_complete_heaps := aps_complete_heaps st + 1\<rparr>, s2\<lparr>sb_sink := k\<rparr>))
        else Inr (st, s2)) (\<lambda>(st1, s3). Inr (st1, set_heap i None s3))))
    (if eos then Inr (st', spec_remove i a)
     else bind_result (heap_ready vt h (sp_sink a)) (\<lambda>k.
       Inr (st'\<lparr>aps_complete_heaps := aps_complete_heaps st' + 1\<rparr>, (spec_remove i a)\<lparr>sp_sink := k\<rparr>)))"
proof -
  obtain s' where s': "unlink_entry i s = Inr s'" "unlinked s a i s'"
    using unlink_entry_ok [OF ref live] by blast
  have sink: "sp_sink a = sb_sink s'"
    using refinesD(14) [OF ref] unlinked_entry_heap(2) [OF ref s'(2) live] by simp
  have st1: "same_counts (st\<lparr>aps_complete_heaps := Suc (aps_complete_heaps st)\<rparr>)
      (st'\<lparr>aps_complete_heaps := Suc (aps_complete_heaps st')\<rparr>)"
    using same_counts_update(2) [OF st] same_countsD(6) [OF st] by simp
  show ?thesis
  proof (cases eos)
    case True
    then show ?thesis using s' st destroy_same_sink [OF ref s'(2)] by simp
  next
    case False
    then show ?thesis
      using s' st1 refines_destroy [OF ref s'(2)]
      by (simp add: sink bind_result_assoc) (rule matches_same_bind, simp)
  qed
qed

lemma add_to_refines:
  assumes ref: "refines s a" and live: "map_of (sp_live a) i = Some h" and st: "same_counts st st'"
  shows "matches step_result (add_to_entry vt p i st s) (spec_add_to vt p i st' a)"
proof -
  have e: "entry_heap s i = Inr h" by (rule refines_entry_heap [OF ref live])
  note same = same_countsD [OF st]
  let ?add = "add_packet (aps_memcpy st') (aps_allocator st') p h"
  show ?thesis
    unfolding add_to_entry_def spec_add_to_def e live option.case bind_result.simps same(1,2,3)
  proof (rule matches_same_bind, unfold prod.case_eq_if Let_def)
    fix x
    assume x: "?add = Inr x"
    let ?h = "snd x" and ?eos = "aps_stop_on_stop_item st' \<and> is_end_of_stream (snd x)"
    let ?s1 = "set_heap i (Some ?h) s" and ?a1 = "spec_update i ?h a"
    have cnt: "lh_cnt ?h = lh_cnt h" using add_packet_cnt x by (metis prod.collapse)
    note up = update_refines [OF ref live cnt]
    let ?done = "if is_complete ?h then
        bind_result (unlink_entry i ?s1) (\<lambda>s2.
        bind_result
          (if \<not> ?eos
           then bind_result (heap_ready vt ?h (sb_sink s2)) (\<lambda>k.
             Inr (st\<lparr>aps_complete_heaps := aps_complete_heaps st + 1\<rparr>, s2\<lparr>sb_sink := k\<rparr>))
           else Inr (st, s2)) (\<lambda>q. Inr (fst q, set_heap i None (snd q))))
        else Inr (st, ?s1)"
    let ?sdone = "if \<not> is_complete ?h then Inr (st', ?a1)
        else if ?eos then Inr (st', spec_remove i ?a1)
        else bind_result (heap_ready vt ?h (sp_sink ?a1)) (\<lambda>k.
          Inr (st'\<lparr>aps_complete_heaps := aps_complete_heaps st' + 1\<rparr>, (spec_remove i ?a1)\<lparr>sp_sink := k\<rparr>))"
    have fin: "matches (\<lambda>x y. same_counts (fst x) (fst y) \<and> refines (snd x) (snd y)) ?done ?sdone"
    proof (cases "is_complete ?h")
      case True
      then show ?thesis
        using finish_refines [OF up st, of ?eos vt, unfolded prod.case_eq_if]
        by (simp only: if_True if_False not_True_eq_False)
    next
      case False
      then show ?thesis using st up(1) by simp
    qed
    have last: "matches step_result
        (if ?eos then bind_result (stop_received vt (snd q)) (\<lambda>s3. Inr (True, fst q, s3))
         else Inr (True, fst q, snd q))
        (if ?eos then bind_result (spec_stop_received vt (snd q')) (\<lambda>a3. Inr (True, fst q', a3))
         else Inr (True, fst q', snd q'))"
      if "same_counts (fst q) (fst q') \<and> refines (snd q) (snd q')" for q q'
    proof (cases ?eos)
      case True
      have "matches step_result (bind_result (stop_received vt (snd q)) (\<lambda>s3. Inr (True, fst q, s3)))
          (bind_result (spec_stop_received vt (snd q')) (\<lambda>a3. Inr (True, fst q', a3)))"
        by (rule matches_bind [OF stop_refines]) (use that in \<open>simp_all add: step_result_def\<close>)
      then show ?thesis using True by simp
    next
      case False
      then show ?thesis using that by (auto simp: step_result_def)
    qed
    show "matches step_result
       (if \<not> fst x then Inr (False, st, ?s1)
        else bind_result ?done
          (\<lambda>p. if ?eos then bind_result (stop_received vt (snd p)) (\<lambda>s3. Inr (True, fst p, s3))
               else Inr (True, fst p, snd p)))
       (if \<not> fst x then Inr (False, st', ?a1)
        else bind_result ?sdone
          (\<lambda>p. if ?eos then bind_result (spec_stop_received vt (snd p)) (\<lambda>a3. Inr (True, fst p, a3))
               else Inr (True, fst p, snd p)))"
    proof (cases "fst x")
      case True
      have "matches step_result
         (bind_result ?done
            (\<lambda>p. if ?eos then bind_result (stop_received vt (snd p)) (\<lambda>s3. Inr (True, fst p, s3))
                 else Inr (True, fst p, snd p)))
         (bind_result ?sdone
            (\<lambda>p. if ?eos then bind_result (spec_stop_received vt (snd p)) (\<lambda>a3. Inr (True, fst p, a3))
                 else Inr (True, fst p, snd p)))"
        by (rule matches_bind [OF fin last])
      with True show ?thesis by simp
    next
      case False
      then show ?thesis using st up(1) by (simp add: step_result_def)
    qed
  qed
qed

theorem add_packet_refines:
  assumes ref: "refines s a" and st: "same_counts st st'"
  shows "matches step_result (stream_add_packet vt p st s) (spec_add_packet vt p st' a)"
proof (cases "sb_stopped s \<or> (ph_heap_length p < 0 \<and> \<not> aps_allow_unsized_heaps st)")
  case True
  then show ?thesis
    using refinesD(12) [OF ref] ref same_countsD [OF st] same_counts_update(1) [OF st]
    by (auto simp: stream_add_packet_def spec_add_packet_def step_result_def)
next
  case False
  note r = refinesD [OF ref]
  let ?b = "get_bucket s (ph_heap_cnt p)"
  let ?st = "st\<lparr>aps_packets := aps_packets st + 1\<rparr>" and ?st' = "st'\<lparr>aps_packets := aps_packets st' + 1\<rparr>"
  have st0: "same_counts ?st ?st'"
    using same_counts_update(1) [OF st] same_countsD(5) [OF st] by simp
  obtain st1 where loc: "locate_entry p ?b ?st s = Inr (fst (spec_locate p ?st' a), st1)"
    and st1: "same_counts st1 (snd (spec_locate p ?st' a))"
    using locate_refines [OF ref st0 refl] by blast
  let ?found = "fst (spec_locate p ?st' a)" and ?st1' = "snd (spec_locate p ?st' a)"
  let ?R = "\<lambda>x y. step_result x y \<and> (\<exists>h. map_of (sp_live (snd (snd y))) (fst y) = Some h)"
  have entry: "matches ?R
      (case ?found of Some entry \<Rightarrow> Inr (entry, st1, s) | None \<Rightarrow> new_entry vt p ?b st1 s)
      (case ?found of Some i \<Rightarrow> Inr (i, ?st1', a) | None \<Rightarrow> spec_new vt p ?st1' a)"
  proof (cases ?found)
    case None
    have "matches ?R (new_entry vt p ?b st1 s) (spec_new vt p ?st1' a)"
      by (rule matches_strengthen [OF new_entry_refines [OF ref st1 refl]])
        (auto simp: spec_new_def Let_def bind_result_Inr_iff split: prod.splits)
    with None show ?thesis by simp
  next
    case (Some i)
    then have "spec_find p a = Some i" by (auto simp: spec_locate_def split: if_splits)
    with spec_find_live [OF r(7)] Some st1 ref show ?thesis by (auto simp: step_result_def)
  qed
  have "matches step_result
      (bind_result (case ?found of Some entry \<Rightarrow> Inr (entry, st1, s) | None \<Rightarrow> new_entry vt p ?b st1 s)
        (\<lambda>(entry, st2, s1). add_to_entry vt p entry st2 s1))
      (bind_result (case ?found of Some i \<Rightarrow> Inr (i, ?st1', a) | None \<Rightarrow> spec_new vt p ?st1' a)
        (\<lambda>(i, st2, a1). spec_add_to vt p i st2 a1))"
    by (rule matches_bind [OF entry]) (auto simp: step_result_def intro: add_to_refines)
  moreover have "\<not> sb_stopped s" "\<not> (ph_heap_length p < 0 \<and> \<not> aps_allow_unsized_heaps ?st)"
    using False by simp_all
  then have "stream_add_packet vt p st s =
      bind_result (case ?found of Some entry \<Rightarrow> Inr (entry, st1, s) | None \<Rightarrow> new_entry vt p ?b st1 s)
        (\<lambda>(entry, st2, s1). add_to_entry vt p entry st2 s1)"
    by (simp only: stream_add_packet_def Let_def if_False r(6) not_True_eq_False loc bind_result.simps prod.case)
  moreover have "\<not> sp_stopped a" "\<not> (ph_heap_length p < 0 \<and> \<not> aps_allow_unsized_heaps ?st')"
    using False r(12) same_countsD(4) [OF st] by simp_all
  then have "spec_add_packet vt p st' a =
      bind_result (case ?found of Some i \<Rightarrow> Inr (i, ?st1', a) | None \<Rightarrow> spec_new vt p ?st1' a)
        (\<lambda>(i, st2, a1). spec_add_to vt p i st2 a1)"
    by (simp only: spec_add_packet_def Let_def if_False prod.case_eq_if)
  ultimately show ?thesis by simp
qed

section \<open>Construction\<close>

lemma double_buckets_power:
  assumes "b = 2 ^ k" "0 < k"
  shows "\<exists>k'. double_buckets b m = 2 ^ k' \<and> 0 < k' \<and> (k' = k \<or> 2 ^ k' < 2 * m)"
  using assms
proof (induction b m arbitrary: k rule: double_buckets.induct)
  case (1 b m)
  show ?case
  proof (cases "b < m")
    case True
    have "0 < b" using 1(2) by simp
    then obtain k' where k': "double_buckets (b * 2) m = 2 ^ k'" "0 < k'" "k' = Suc k \<or> 2 ^ k' < 2 * m"
      using 1(1) [of "Suc k"] True 1(2) by auto
    have "2 ^ Suc k < 2 * m" using True 1(2) by simp
    with k' have "2 ^ k' < 2 * m" by auto
    with k' True \<open>0 < b\<close> show ?thesis by (subst double_buckets.simps) auto
  next
    case False
    with 1(2,3) show ?thesis by (subst double_buckets.simps) auto
  qed
qed

lemma bucket_shift_loop_power: "bucket_shift_loop n (2 ^ k) = n - k"
proof (induction k arbitrary: n)
  case 0
  show ?case by (subst bucket_shift_loop.simps) simp
next
  case (Suc k)
  have "(1 :: nat) < 2 ^ Suc k" by (rule one_less_power) simp_all
  then have "bucket_shift_loop n (2 ^ Suc k) = bucket_shift_loop (n - 1) (2 ^ k)"
    by (subst bucket_shift_loop.simps) simp
  with Suc show ?case by simp
qed

text \<open>
  The hash is in range for every number of heaps that fits an address space: the bucket
  count is a power of two, and the shift leaves exactly its logarithm of bits.
\<close>

lemma bucket_in_range:
  assumes "m < 2 ^ 60" "sb_bucket_shift s = compute_bucket_shift (compute_bucket_count m)"
  shows "get_bucket s c < compute_bucket_count m"
proof -
  have "\<exists>k. double_buckets 4 m = 2 ^ k \<and> 0 < k \<and> (k = 2 \<or> 2 ^ k < 2 * m)"
    by (rule double_buckets_power) simp_all
  then obtain k where k: "double_buckets 4 m = 2 ^ k" "k = 2 \<or> 2 ^ k < 2 * m" by blast
  have count: "compute_bucket_count m = 2 ^ (k + 2)" by (simp add: compute_bucket_count_def k(1) power_add)
  have "k \<le> 60"
  proof (rule ccontr)
    assume "\<not> k \<le> 60"
    then have "(2 :: nat) ^ 61 \<le> 2 ^ k" by (intro power_increasing) simp_all
    moreover have "2 ^ k < 2 * m" using k(2) \<open>\<not> k \<le> 60\<close> by auto
    ultimately show False using assms(1) by simp
  qed
  have shift: "sb_bucket_shift s = 64 - (k + 2)"
    by (simp only: assms(2) compute_bucket_shift_def count bucket_shift_loop_power)
  define w where "w = (word_of_int c * 11400714819323198485 :: 64 word)"
  have "unat w < 2 ^ 64" using unsigned_less [of w, where 'a = nat] by simp
  also have "(2 :: nat) ^ 64 = 2 ^ (k + 2) * 2 ^ (64 - (k + 2))"
    by (simp only: power_add [symmetric]) (use \<open>k \<le> 60\<close> in simp)
  finally have "unat w div 2 ^ (64 - (k + 2)) < 2 ^ (k + 2)"
    by (rule less_mult_imp_div_less)
  then show ?thesis by (simp only: get_bucket_def shift unat_shift_right count w_def)
qed

definition initial_spec :: "bug_compat_mask \<Rightarrow> nat \<Rightarrow> 's \<Rightarrow> 's spec_stream" where
  "initial_spec bug_compat max_heaps sink =
     \<lparr>sp_live = [], sp_head = 0, sp_max_heaps = max_heaps, sp_bug_compat = bug_compat,
      sp_stopped = False, sp_stats = zero_stats, sp_sink = sink\<rparr>"

lemma initial_refines:
  assumes "make_stream_base alloc bug_compat m sink = Inr s" "m < 2 ^ 60"
  shows "refines s (initial_spec bug_compat m sink)"
proof -
  have "0 < m" using assms(1) by (simp add: make_stream_base_def split: if_splits)
  moreover have "get_bucket s c < sb_bucket_count s" for c
  proof -
    have "sb_bucket_count s = compute_bucket_count m"
      "sb_bucket_shift s = compute_bucket_shift (compute_bucket_count m)"
      using assms(1) by (auto simp: make_stream_base_def Let_def split: if_splits)
    with bucket_in_range [OF assms(2)] show ?thesis by simp
  qed
  ultimately show ?thesis
    using assms(1)
    by (auto simp: make_stream_base_def Let_def refines_def initial_spec_def nexts_def bucket_slots_def
        split: if_splits)
qed

end
