(* ===== verification/StreamSafety.thy ===== *)
theory StreamSafety
  imports StreamRefinement
begin

text \<open>
  Safety of the receiving stream, proved on its specification and transferred along the
  refinement.  The interface \<open>stream_sink\<close> is what the stream relies on in the subclass:
  \<^verbatim>\<open>heap_ready\<close> accepts every live heap that satisfies its invariant.
\<close>

section \<open>The interface to the subclass\<close>

text \<open>What holds of all live heaps in a stream: they are well formed and not yet complete.\<close>

definition live_ok :: "live_heap \<Rightarrow> bool" where
  "live_ok h \<longleftrightarrow> lh_inv h \<and> \<not> is_complete h"

definition live_inv :: "'s spec_stream \<Rightarrow> bool" where
  "live_inv a \<longleftrightarrow> (\<forall>p \<in> set (sp_live a). live_ok (snd p)) \<and> distinct (map fst (sp_live a)) \<and>
     (\<forall>p \<in> set (sp_live a). fst p < sp_max_heaps a) \<and> sp_head a < sp_max_heaps a"

definition spec_inv :: "('s \<Rightarrow> bool) \<Rightarrow> 's spec_stream \<Rightarrow> bool" where
  "spec_inv sink_inv a \<longleftrightarrow> live_inv a \<and> sink_inv (sp_sink a)"

text \<open>The copy function and allocator a batch works with.\<close>

definition batch_ok :: "add_packet_state \<Rightarrow> bool" where
  "batch_ok st \<longleftrightarrow> aps_memcpy st = std_packet_memcpy \<and> byte_allocator (aps_allocator st)"

locale stream_sink =
  fixes vt :: "'s stream_virtuals"
    and sink_inv :: "'s \<Rightarrow> bool"
  assumes ready_ok: "sink_inv k \<Longrightarrow> lh_inv h \<Longrightarrow> \<exists>k'. heap_ready vt h k = Inr k' \<and> sink_inv k'"
    and stop_ok: "sink_inv k \<Longrightarrow> sink_inv (stop_hook vt k)"
begin

lemma spec_eject_total:
  assumes "spec_inv sink_inv a" "map_of (sp_live a) i = Some h"
  obtains a' where "spec_eject vt i a = Inr a'" "spec_inv sink_inv a'"
    "sp_live a' = filter (\<lambda>p. fst p \<noteq> i) (sp_live a)" "sp_head a' = sp_head a"
    "sp_max_heaps a' = sp_max_heaps a" "sp_stopped a' = sp_stopped a"
proof -
  have "(i, h) \<in> set (sp_live a)" using assms(2) by (rule map_of_SomeD)
  then have "lh_inv h" using assms(1) by (auto simp: spec_inv_def live_inv_def live_ok_def)
  then obtain k where k: "heap_ready vt h (sp_sink a) = Inr k" "sink_inv k"
    using ready_ok assms(1) by (auto simp: spec_inv_def)
  with assms show ?thesis
    by (intro that [of "(spec_remove i a)\<lparr>sp_sink := k\<rparr>"])
      (auto simp: spec_eject_def spec_inv_def live_inv_def spec_remove_def distinct_map_filter)
qed

lemma spec_eject_all_total:
  assumes "spec_inv sink_inv a"
  shows "\<exists>n' a'. fold_result (spec_eject_if_live vt) is (n, a) = Inr (n', a') \<and> spec_inv sink_inv a' \<and>
    sp_live a' = filter (\<lambda>p. fst p \<notin> set is) (sp_live a) \<and> sp_head a' = sp_head a \<and>
    sp_max_heaps a' = sp_max_heaps a \<and> sp_stopped a' = sp_stopped a"
  using assms
proof (induction "is" arbitrary: n a)
  case (Cons i "is")
  show ?case
  proof (cases "map_of (sp_live a) i")
    case None
    then have "fst p \<noteq> i" if "p \<in> set (sp_live a)" for p
      using that by (auto simp: map_of_eq_None_iff)
    then have "filter (\<lambda>p. fst p \<notin> set (i # is)) (sp_live a) = filter (\<lambda>p. fst p \<notin> set is) (sp_live a)"
      by (intro filter_cong) auto
    with None Cons show ?thesis by (simp add: spec_eject_if_live_def)
  next
    case (Some h)
    with Cons.prems obtain a1 where a1: "spec_eject vt i a = Inr a1" "spec_inv sink_inv a1"
      "sp_live a1 = filter (\<lambda>p. fst p \<noteq> i) (sp_live a)" "sp_head a1 = sp_head a"
      "sp_max_heaps a1 = sp_max_heaps a" "sp_stopped a1 = sp_stopped a"
      by (rule spec_eject_total)
    from Cons.IH [OF a1(2), of "n + 1"] obtain n' a' where
      "fold_result (spec_eject_if_live vt) is (n + 1, a1) = Inr (n', a')" "spec_inv sink_inv a'"
      "sp_live a' = filter (\<lambda>p. fst p \<notin> set is) (sp_live a1)" "sp_head a' = sp_head a1"
      "sp_max_heaps a' = sp_max_heaps a1" "sp_stopped a' = sp_stopped a1"
      by blast
    moreover have "spec_eject_if_live vt i (n, a) = Inr (n + 1, a1)"
      using a1(1) Some by (simp add: spec_eject_if_live_def)
    ultimately show ?thesis using a1 by (simp add: conj_commute)
  qed
qed simp

lemma set_flush_order: "h < m \<Longrightarrow> set (flush_order h m) = {..<m}"
  by (auto simp: flush_order_def)

lemma spec_flush_total:
  assumes "spec_inv sink_inv a"
  obtains a' where "spec_flush vt a = Inr a'" "spec_inv sink_inv a'" "sp_live a' = []"
    "sp_stopped a' = sp_stopped a"
proof -
  let ?is = "flush_order (sp_head a) (sp_max_heaps a)"
  obtain n' a' where f: "fold_result (spec_eject_if_live vt) ?is (0, a) = Inr (n', a')" "spec_inv sink_inv a'"
    "sp_live a' = filter (\<lambda>p. fst p \<notin> set ?is) (sp_live a)" "sp_stopped a' = sp_stopped a"
    using spec_eject_all_total [OF assms] by blast
  have "set ?is = {..<sp_max_heaps a}"
    using assms by (intro set_flush_order) (simp add: spec_inv_def live_inv_def)
  then have "sp_live a' = []"
    using f(3) assms by (auto simp: spec_inv_def live_inv_def filter_empty_conv)
  with f show ?thesis
    by (intro that [of "a'\<lparr>sp_stats := (sp_stats a')\<lparr>ss_heaps := ss_heaps (sp_stats a') + n',
        ss_incomplete_heaps_flushed := ss_incomplete_heaps_flushed (sp_stats a') + n'\<rparr>\<rparr>"])
      (simp_all add: spec_flush_def spec_inv_def live_inv_def Let_def)
qed

lemma spec_stop_total:
  assumes "spec_inv sink_inv a" "\<not> sp_stopped a"
  obtains a' where "spec_stop_received vt a = Inr a'" "spec_inv sink_inv a'" "sp_live a' = []" "sp_stopped a'"
proof -
  have "spec_inv sink_inv (a\<lparr>sp_stopped := True\<rparr>)" using assms(1) by (simp add: spec_inv_def live_inv_def)
  then obtain a1 where "spec_flush vt (a\<lparr>sp_stopped := True\<rparr>) = Inr a1" "spec_inv sink_inv a1" "sp_live a1 = []"
    "sp_stopped a1 = sp_stopped (a\<lparr>sp_stopped := True\<rparr>)"
    by (rule spec_flush_total)
  with assms(2) stop_ok show ?thesis
    by (intro that [of "a1\<lparr>sp_sink := stop_hook vt (sp_sink a1)\<rparr>"])
      (auto simp: spec_stop_received_def spec_inv_def live_inv_def)
qed

text \<open>A heap for the packet is found or started; it is the packet's heap, and it is live.\<close>

lemma make_live_heap_ok: "wf_packet p \<Longrightarrow> live_ok (make_live_heap p bc)"
  by (simp add: live_ok_def make_live_heap_inv) (simp add: make_live_heap_def is_complete_def)

lemma spec_new_total:
  assumes inv: "spec_inv sink_inv a" and wf: "wf_packet p" and st: "batch_ok st" and ns: "\<not> sp_stopped a"
  obtains i st1 a1 where "spec_new vt p st a = Inr (i, st1, a1)" "spec_inv sink_inv a1" "batch_ok st1"
    "map_of (sp_live a1) i = Some (make_live_heap p (sp_bug_compat a1))" "\<not> sp_stopped a1"
proof -
  let ?a = "spec_advance a"
  let ?i = "sp_head ?a"
  have inv': "spec_inv sink_inv ?a"
    using inv by (auto simp: spec_inv_def live_inv_def spec_advance_def)
  note result = that
  have fin: ?thesis
    if a2: "spec_inv sink_inv a2" "map_of (sp_live a2) ?i = None" "sp_max_heaps a2 = sp_max_heaps ?a"
      "\<not> sp_stopped a2" "batch_ok st1"
      and run: "spec_new vt p st a =
        Inr (?i, st1, a2\<lparr>sp_live := (?i, make_live_heap p (sp_bug_compat a2)) # sp_live a2\<rparr>)" for a2 st1
  proof (rule result [OF run])
    have "?i \<notin> fst ` set (sp_live a2)" using a2(2) by (simp add: map_of_eq_None_iff)
    moreover have "?i < sp_max_heaps a2" using inv' a2(3) by (simp add: spec_inv_def live_inv_def)
    ultimately show "spec_inv sink_inv (a2\<lparr>sp_live := (?i, make_live_heap p (sp_bug_compat a2)) # sp_live a2\<rparr>)"
      using a2(1) make_live_heap_ok [OF wf] by (simp add: spec_inv_def live_inv_def)
  qed (use a2 in simp_all)
  show ?thesis
  proof (cases "map_of (sp_live ?a) ?i")
    case None
    then show ?thesis
      by (intro fin [OF inv']) (use ns st in \<open>simp_all add: spec_new_def Let_def spec_advance_def\<close>)
  next
    case (Some h)
    with inv' obtain a2 where e: "spec_eject vt ?i ?a = Inr a2" "spec_inv sink_inv a2"
      "sp_live a2 = filter (\<lambda>p. fst p \<noteq> ?i) (sp_live ?a)" "sp_head a2 = sp_head ?a"
      "sp_max_heaps a2 = sp_max_heaps ?a" "sp_stopped a2 = sp_stopped ?a"
      by (rule spec_eject_total)
    show ?thesis
      by (rule fin [OF e(2) _ e(5)])
        (use Some e ns st in \<open>simp_all add: spec_new_def Let_def map_of_remove spec_advance_def batch_ok_def\<close>)
  qed
qed

lemma update_fst: "map (fst \<circ> (\<lambda>p. if fst p = i then (i, h) else p)) L = map fst L"
  by (induction L) auto

lemma spec_update_inv:
  assumes "spec_inv sink_inv a" "live_ok h'"
  shows "spec_inv sink_inv (spec_update i h' a)"
  using assms by (auto simp: spec_inv_def live_inv_def spec_update_def update_fst)

lemma spec_update_remove:
  assumes "spec_inv sink_inv a"
  shows "spec_inv sink_inv (spec_remove i (spec_update i h' a))"
proof -
  have "filter (\<lambda>p. fst p \<noteq> i) (map (\<lambda>p. if fst p = i then (i, h') else p) L) =
      filter (\<lambda>p. fst p \<noteq> i) L" for L
    by (induction L) auto
  with assms show ?thesis
    by (auto simp: spec_inv_def live_inv_def spec_update_def spec_remove_def distinct_map_filter)
qed

text \<open>Adding the packet to its heap: no fault, and complete heaps do not stay.\<close>

lemma spec_add_to_total:
  assumes inv: "spec_inv sink_inv a" and wf: "wf_packet p" and st: "batch_ok st"
    and ns: "\<not> sp_stopped a" and live: "map_of (sp_live a) i = Some h" "lh_cnt h = ph_heap_cnt p"
  obtains ok st1 a1 where "spec_add_to vt p i st a = Inr (ok, st1, a1)" "spec_inv sink_inv a1" "batch_ok st1"
proof -
  have "(i, h) \<in> set (sp_live a)" using live(1) by (rule map_of_SomeD)
  then have h: "live_ok h" using inv by (auto simp: spec_inv_def live_inv_def)
  have alloc: "byte_allocator (aps_allocator st)" "aps_memcpy st = std_packet_memcpy"
    using st by (simp_all add: batch_ok_def)
  obtain ok h1 where add: "add_packet (aps_memcpy st) (aps_allocator st) p h = Inr (ok, h1)"
    and h1: "lh_inv h1" "if ok then packet_added h p h1 else h1 = h"
    using byte_allocator.add_packet_total [OF alloc(1) _ wf live(2)] h
    unfolding alloc(2) live_ok_def by blast
  let ?a1 = "spec_update i h1 a" and ?eos = "aps_stop_on_stop_item st \<and> is_end_of_stream h1"
  have sel: "\<not> sp_stopped ?a1" "\<not> sp_stopped (spec_remove i ?a1)" "sp_sink ?a1 = sp_sink a"
    using ns by (simp_all add: spec_update_def spec_remove_def)
  note run = spec_add_to_def [of vt p i st a, unfolded live(1) option.case add bind_result.simps
      prod.case Let_def]
  show ?thesis
  proof (cases ok)
    case False
    then have "h1 = h" using h1 by simp
    then show ?thesis
      by (intro that [of False st ?a1]) (use run False st spec_update_inv [OF inv] h in simp_all)
  next
    case ok: True
    show ?thesis
    proof (cases "is_complete h1")
      case False
      then have inv1: "spec_inv sink_inv ?a1" using spec_update_inv [OF inv] h1(1) by (simp add: live_ok_def)
      show ?thesis
      proof (cases ?eos)
        case True
        obtain a2 where "spec_stop_received vt ?a1 = Inr a2" "spec_inv sink_inv a2"
          "sp_live a2 = []" "sp_stopped a2"
          using inv1 sel(1) by (rule spec_stop_total)
        then show ?thesis
          by (intro that [of True st a2]) (use run ok False True st in simp_all)
      next
        case eos: False
        show ?thesis
          by (rule that [of True st ?a1]) (use run ok False eos st inv1 in auto)
      qed
    next
      case complete: True
      have inv1: "spec_inv sink_inv (spec_remove i ?a1)" by (rule spec_update_remove [OF inv])
      show ?thesis
      proof (cases ?eos)
        case True
        obtain a2 where "spec_stop_received vt (spec_remove i ?a1) = Inr a2" "spec_inv sink_inv a2"
          "sp_live a2 = []" "sp_stopped a2"
          using inv1 sel(2) by (rule spec_stop_total)
        then show ?thesis
          by (intro that [of True st a2]) (use run ok complete True st in simp_all)
      next
        case eos: False
        obtain k where "heap_ready vt h1 (sp_sink a) = Inr k" "sink_inv k"
          using ready_ok [OF _ h1(1)] inv by (auto simp: spec_inv_def)
        with run ok complete eos st inv1 sel(3) show ?thesis
          by (intro that [of True "st\<lparr>aps_complete_heaps := aps_complete_heaps st + 1\<rparr>"
                "(spec_remove i ?a1)\<lparr>sp_sink := k\<rparr>"])
            (auto simp: batch_ok_def spec_inv_def live_inv_def)
      qed
    qed
  qed
qed

lemma spec_add_packet_total:
  assumes inv: "spec_inv sink_inv a" and wf: "wf_packet p" and st: "batch_ok st" and ns: "\<not> sp_stopped a"
  obtains ok st1 a1 where "spec_add_packet vt p st a = Inr (ok, st1, a1)" "spec_inv sink_inv a1" "batch_ok st1"
proof (cases "ph_heap_length p < 0 \<and> \<not> aps_allow_unsized_heaps st")
  case True
  then show ?thesis
    by (intro that [of False "st\<lparr>aps_packets := aps_packets st + 1\<rparr>" a])
      (use inv st ns in \<open>simp_all add: spec_add_packet_def batch_ok_def\<close>)
next
  case False
  let ?st = "st\<lparr>aps_packets := aps_packets st + 1\<rparr>"
  obtain found st1 where loc: "spec_locate p ?st a = (found, st1)" by fastforce
  then have st1: "batch_ok st1"
    using st by (auto simp: spec_locate_def batch_ok_def split: if_splits)
  have run: "spec_add_packet vt p st a =
      bind_result (case found of Some i \<Rightarrow> Inr (i, st1, a) | None \<Rightarrow> spec_new vt p st1 a)
        (\<lambda>(i, st2, a1). spec_add_to vt p i st2 a1)"
  proof -
    have "\<not> (ph_heap_length p < 0 \<and> \<not> aps_allow_unsized_heaps ?st)" using False by simp
    with ns loc show ?thesis by (simp only: spec_add_packet_def Let_def if_False prod.case)
  qed
  show ?thesis
  proof (cases found)
    case None
    obtain i st2 a1 where n: "spec_new vt p st1 a = Inr (i, st2, a1)" "spec_inv sink_inv a1" "batch_ok st2"
      "map_of (sp_live a1) i = Some (make_live_heap p (sp_bug_compat a1))" "\<not> sp_stopped a1"
      using inv wf st1 ns by (rule spec_new_total)
    obtain ok st3 a2 where "spec_add_to vt p i st2 a1 = Inr (ok, st3, a2)" "spec_inv sink_inv a2" "batch_ok st3"
      by (rule spec_add_to_total [OF n(2) wf n(3,5,4)]) simp
    then show ?thesis by (intro that) (simp_all add: run None n(1))
  next
    case (Some i)
    then have "spec_find p a = Some i" using loc by (auto simp: spec_locate_def split: if_splits)
    moreover have "distinct (map fst (sp_live a))" using inv by (simp add: spec_inv_def live_inv_def)
    ultimately obtain h where "map_of (sp_live a) i = Some h" "lh_cnt h = ph_heap_cnt p"
      using spec_find_live by blast
    from spec_add_to_total [OF inv wf st1 ns this] obtain ok st3 a2 where
      "spec_add_to vt p i st1 a = Inr (ok, st3, a2)" "spec_inv sink_inv a2" "batch_ok st3"
      by blast
    then show ?thesis by (intro that) (simp_all add: run Some)
  qed
qed

end

section \<open>The stream invariant\<close>

text \<open>
  A stream is well formed if it refines some specification stream whose live heaps are well
  formed and incomplete, and it copies with \<^verbatim>\<open>std::memcpy\<close> into memory from a proper allocator.
\<close>

definition stream_inv :: "('s \<Rightarrow> bool) \<Rightarrow> 's stream_base \<Rightarrow> bool" where
  "stream_inv sink_inv s \<longleftrightarrow> (\<exists>a. refines s a \<and> spec_inv sink_inv a) \<and>
     sb_memcpy s = std_packet_memcpy \<and> byte_allocator (sb_allocator s)"

lemma begin_batch_ok: "stream_inv sink_inv s \<Longrightarrow> batch_ok (begin_batch s)"
  by (simp add: stream_inv_def batch_ok_def begin_batch_def)

lemma end_batch_inv: "stream_inv sink_inv s \<Longrightarrow> stream_inv sink_inv (end_batch st s)"
proof -
  assume "stream_inv sink_inv s"
  then obtain a where a: "refines s a" "spec_inv sink_inv a" "sb_memcpy s = std_packet_memcpy"
    "byte_allocator (sb_allocator s)"
    by (auto simp: stream_inv_def)
  have "\<exists>stats. end_batch st s = s\<lparr>sb_stats := stats\<rparr>"
  proof (cases "aps_packets st = 0 \<and> sb_stopped s")
    case True
    then show ?thesis by (intro exI [of _ "sb_stats s"]) (simp add: end_batch_def)
  next
    case False
    then show ?thesis unfolding end_batch_def Let_def by (simp only: if_False) (rule exI, rule refl)
  qed
  then obtain stats where e: "end_batch st s = s\<lparr>sb_stats := stats\<rparr>" ..
  have "refines (end_batch st s) (a\<lparr>sp_stats := stats\<rparr>)" using a(1) by (simp add: e refines_def)
  moreover have "spec_inv sink_inv (a\<lparr>sp_stats := stats\<rparr>)" using a(2) by (simp add: spec_inv_def live_inv_def)
  ultimately show ?thesis using a(3,4) by (auto simp: stream_inv_def e)
qed

text \<open>A postcondition of a result: it holds of the value, if there is one.\<close>

definition post :: "('a \<Rightarrow> bool) \<Rightarrow> fault + 'a \<Rightarrow> bool" where
  "post P m \<longleftrightarrow> (\<forall>x. m = Inr x \<longrightarrow> P x)"

lemma post_simps [simp]: "post P (Inl e)" "post P (Inr x) \<longleftrightarrow> P x"
  by (simp_all add: post_def)

lemma post_bind: "post P m \<Longrightarrow> (\<And>x. P x \<Longrightarrow> post Q (f x)) \<Longrightarrow> post Q (bind_result m f)"
  by (cases m) (simp_all add: post_def)

lemma post_bind_any: "(\<And>x. post Q (f x)) \<Longrightarrow> post Q (bind_result m f)"
  by (cases m) simp_all

lemma post_if: "(c \<Longrightarrow> post Q m) \<Longrightarrow> (\<not> c \<Longrightarrow> post Q m') \<Longrightarrow> post Q (if c then m else m')"
  by simp

lemma post_mono: "post P m \<Longrightarrow> (\<And>x. P x \<Longrightarrow> Q x) \<Longrightarrow> post Q m"
  by (simp add: post_def)

text \<open>
  What an operation can do to a stream besides changing its table and its statistics, as a relation \<open>R\<close> between
  the states before and after: it hands heaps to the subclass, and stops the stream once.
\<close>

locale stream_frame =
  fixes vt :: "'s stream_virtuals"
    and R :: "'s stream_base \<Rightarrow> 's stream_base \<Rightarrow> bool"
  assumes frame_refl: "R s s"
    and frame_trans: "R a b \<Longrightarrow> R b c \<Longrightarrow> R a c"
    and frame_table: "R s (s\<lparr>sb_queue_storage := entries\<rparr>)" "R s (s\<lparr>sb_buckets := buckets\<rparr>)" "R s (s\<lparr>sb_head := n\<rparr>)"
      "R s (s\<lparr>sb_stats := stats\<rparr>)"
    and frame_ready: "heap_ready vt h (sb_sink s) = Inr k \<Longrightarrow> R s (s\<lparr>sb_sink := k\<rparr>)"
    and frame_stop: "\<not> sb_stopped s \<Longrightarrow> R (s\<lparr>sb_stopped := True\<rparr>) s1 \<Longrightarrow>
      R s (s1\<lparr>sb_sink := stop_hook vt (sb_sink s1)\<rparr>)"
begin

lemma frame_step:
  "R s a \<Longrightarrow> R s (set_next i l a)" "R s a \<Longrightarrow> R s (set_heap i h a)" "R s a \<Longrightarrow> R s (write_link pl l a)"
  "R s a \<Longrightarrow> R s (advance_head a)" "R s a \<Longrightarrow> R s (a\<lparr>sb_stats := stats\<rparr>)" "R s a \<Longrightarrow> R s (a\<lparr>sb_buckets := b\<rparr>)"
  "R s a \<Longrightarrow> heap_ready vt h' (sb_sink a) = Inr k \<Longrightarrow> R s (a\<lparr>sb_sink := k\<rparr>)"
  by (cases pl; auto intro: frame_trans frame_table frame_ready simp: set_next_def set_heap_def advance_head_def)+

lemma unlink_frame: "R s a \<Longrightarrow> post (R s) (unlink_entry i a)"
  unfolding unlink_entry_def Let_def by (intro post_if post_bind_any) (simp_all add: frame_step)

lemma ready_frame: "R s a \<Longrightarrow> post (\<lambda>k. R s (a\<lparr>sb_sink := k\<rparr>)) (heap_ready vt h (sb_sink a))"
  by (simp add: post_def frame_step)

lemma eject_frame: "R s a \<Longrightarrow> post (R s) (eject_entry vt i a)"
  unfolding eject_entry_def
  by (rule post_bind [OF unlink_frame], assumption, rule post_bind_any, rule post_bind [OF ready_frame], assumption)
    (simp add: frame_step)

lemma flush_loop_frame: "R s a \<Longrightarrow> post (\<lambda>x. R s (snd x)) (flush_loop vt k (n, a))"
proof (induction k arbitrary: n a)
  case (Suc k)
  then show ?case
    unfolding flush_loop.simps Let_def prod.case
    by (intro post_if post_bind [OF eject_frame [OF frame_step(4)]]) (auto intro: frame_step)
qed simp

lemma flush_frame: "R s a \<Longrightarrow> post (R s) (flush_unlocked vt a)"
  unfolding flush_unlocked_def
  by (rule post_bind [OF flush_loop_frame]) (auto simp: Let_def prod.case_eq_if intro: frame_step)

lemma stop_frame: "R s a \<Longrightarrow> post (R s) (stop_received vt a)"
  unfolding stop_received_def
  by (intro post_if post_bind [OF flush_frame [OF frame_refl]]) (auto intro: frame_trans frame_stop)

lemma new_entry_frame:
  assumes "R s a"
  shows "post (\<lambda>x. R s (snd (snd x))) (new_entry vt p b st a)"
proof -
  have "post (\<lambda>x. R s (snd x))
      (if c then bind_result (eject_entry vt i (advance_head a)) (\<lambda>s2. Inr (st1, s2)) else Inr (st, advance_head a))" for c i st1
    by (intro post_if post_bind [OF eject_frame [OF frame_step(4) [OF assms]]]) (simp_all add: frame_step assms)
  then show ?thesis
    unfolding new_entry_def Let_def by (rule post_bind) (simp add: frame_step prod.case_eq_if)
qed

lemma add_to_frame:
  assumes "R s a"
  shows "post (\<lambda>x. R s (snd (snd x))) (add_to_entry vt p i st a)"
proof -
  have fin: "post (\<lambda>x. R s (snd x))
      (if c then bind_result (unlink_entry i (set_heap i (Some h) a)) (\<lambda>s2.
         bind_result
           (if e then bind_result (heap_ready vt h (sb_sink s2)) (\<lambda>k. Inr (st1, s2\<lparr>sb_sink := k\<rparr>))
            else Inr (st, s2)) (\<lambda>(st1, s3). Inr (st1, set_heap i None s3)))
       else Inr (st, set_heap i (Some h) a))" for c e h st1
  proof (intro post_if post_bind [OF unlink_frame [OF frame_step(2) [OF assms]]])
    fix s2
    assume s2: "R s s2"
    have "post (\<lambda>x. R s (snd x))
        (if e then bind_result (heap_ready vt h (sb_sink s2)) (\<lambda>k. Inr (st1, s2\<lparr>sb_sink := k\<rparr>)) else Inr (st, s2))"
      by (intro post_if post_bind [OF ready_frame [OF s2]]) (simp_all add: s2)
    then show "post (\<lambda>x. R s (snd x)) (bind_result
        (if e then bind_result (heap_ready vt h (sb_sink s2)) (\<lambda>k. Inr (st1, s2\<lparr>sb_sink := k\<rparr>))
         else Inr (st, s2)) (\<lambda>(st1, s3). Inr (st1, set_heap i None s3)))"
      by (rule post_bind) (simp add: frame_step prod.case_eq_if)
  qed (simp add: frame_step assms)
  have stop: "post (\<lambda>x. R s (snd (snd x)))
      (if e then bind_result (stop_received vt s2) (\<lambda>s3. Inr (True, st1, s3)) else Inr (True, st1, s2))"
    if "R s s2" for e s2 st1
    by (intro post_if post_bind [OF stop_frame [OF that]]) (simp_all add: that)
  show ?thesis
    unfolding add_to_entry_def Let_def prod.case_eq_if
    by (intro post_bind_any post_if post_bind [OF fin [unfolded prod.case_eq_if]] stop) (simp_all add: frame_step assms)
qed

lemma add_packet_frame:
  assumes "R s a"
  shows "post (\<lambda>x. R s (snd (snd x))) (stream_add_packet vt p st a)"
proof -
  have entry: "post (\<lambda>x. R s (snd (snd x)))
      (case found of Some entry \<Rightarrow> Inr (entry, st1, a) | None \<Rightarrow> new_entry vt p b st1 a)" for found st1 b
    by (cases found) (simp_all add: new_entry_frame assms)
  show ?thesis
    unfolding stream_add_packet_def Let_def prod.case_eq_if
    by (intro post_if post_bind_any post_bind [OF entry] add_to_frame) (simp_all add: assms)
qed

lemma mem_to_stream_loop_frame:
  "R s a \<Longrightarrow> post (\<lambda>x. R s (snd (snd x))) (mem_to_stream_loop vt fuel ptr st a)"
proof (induction fuel arbitrary: ptr st a)
  case (Suc fuel)
  show ?case
  proof (cases "decode_packet ptr")
    case (Some x)
    then show ?thesis using Suc.prems
      by (auto simp: prod.case_eq_if intro!: post_bind [OF add_packet_frame] Suc.IH)
  qed (simp add: Suc.prems)
qed simp

lemma end_batch_frame: "R s a \<Longrightarrow> R s (end_batch st a)"
  by (simp add: end_batch_def Let_def frame_step)

lemma mem_to_stream_frame: "R s a \<Longrightarrow> post (\<lambda>x. R s (snd x)) (mem_to_stream vt ptr a)"
  unfolding mem_to_stream_def
  by (rule post_bind [OF mem_to_stream_loop_frame]) (auto simp: prod.case_eq_if intro: end_batch_frame)

lemma stop_unlocked_frame: "R s a \<Longrightarrow> post (R s) (stop_unlocked vt a)"
  unfolding stop_unlocked_def by (intro post_if stop_frame) simp_all

end

text \<open>The configuration is not touched by the operations.\<close>

definition same_config :: "'s stream_base \<Rightarrow> 's stream_base \<Rightarrow> bool" where
  "same_config s s' \<longleftrightarrow> sb_memcpy s' = sb_memcpy s \<and> sb_allocator s' = sb_allocator s"

interpretation config: stream_frame vt same_config for vt :: "'s stream_virtuals"
  by unfold_locales (simp_all add: same_config_def)

text \<open>Every packet is counted once.\<close>

lemma add_packet_counts:
  fixes s :: "'s stream_base"
  shows "post (\<lambda>x. aps_packets (fst (snd x)) = aps_packets st + 1) (stream_add_packet vt p st s)"
proof -
  have loc: "post (\<lambda>x. aps_packets (snd x) = aps_packets st1) (locate_entry p b st1 s)" for b st1
    unfolding locate_entry_def by (intro post_if post_bind_any) (simp_all add: prod.case_eq_if)
  have "post (\<lambda>x. aps_packets (fst x) = aps_packets st1)
      (if c then bind_result (eject_entry vt i s1) (\<lambda>s2.
         Inr (st1\<lparr>aps_incomplete_heaps_evicted := n\<rparr>, s2)) else Inr (st1, s1))" for c i s1 st1 n
    by (intro post_if post_bind_any) simp_all
  then have new: "post (\<lambda>x. aps_packets (fst (snd x)) = aps_packets st1) (new_entry vt p b st1 s)" for b st1
    unfolding new_entry_def Let_def by (rule post_bind) (simp add: prod.case_eq_if)
  have entry: "post (\<lambda>x. aps_packets (fst (snd x)) = aps_packets st1)
      (case found of Some entry \<Rightarrow> Inr (entry, st1, s) | None \<Rightarrow> new_entry vt p b st1 s)" for found st1 b
    by (cases found) (simp_all add: new)
  have fin: "post (\<lambda>x. aps_packets (fst x) = aps_packets st1)
      (if c then bind_result (unlink_entry i s1) (\<lambda>s2.
         bind_result
           (if e then bind_result (heap_ready vt h (sb_sink s2)) (\<lambda>k.
              Inr (st1\<lparr>aps_complete_heaps := n\<rparr>, s2\<lparr>sb_sink := k\<rparr>))
            else Inr (st1, s2)) (\<lambda>(st1, s3). Inr (st1, set_heap i None s3)))
       else Inr (st1, s1))" for c e h i n and st1 :: add_packet_state and s1 :: "'s stream_base"
  proof (rule post_if, rule post_bind_any)
    fix s2 :: "'s stream_base"
    have "post (\<lambda>x. aps_packets (fst x) = aps_packets st1)
      (if e then bind_result (heap_ready vt h (sb_sink s2)) (\<lambda>k.
              Inr (st1\<lparr>aps_complete_heaps := n\<rparr>, s2\<lparr>sb_sink := k\<rparr>)) else Inr (st1, s2))"
      by (intro post_if post_bind_any) simp_all
    then show "post (\<lambda>x. aps_packets (fst x) = aps_packets st1) (bind_result
      (if e then bind_result (heap_ready vt h (sb_sink s2)) (\<lambda>k.
              Inr (st1\<lparr>aps_complete_heaps := n\<rparr>, s2\<lparr>sb_sink := k\<rparr>)) else Inr (st1, s2))
      (\<lambda>(st1, s3). Inr (st1, set_heap i None s3)))"
      by (rule post_bind) (simp add: prod.case_eq_if)
  qed simp
  have to: "post (\<lambda>x. aps_packets (fst (snd x)) = aps_packets st1) (add_to_entry vt p i st1 s1)" for i st1 s1
    unfolding add_to_entry_def Let_def prod.case_eq_if
    by (intro post_bind_any post_if post_bind [OF fin [unfolded prod.case_eq_if]]) simp_all
  have "post (\<lambda>x. aps_packets (fst (snd x)) = m) (add_to_entry vt p i st2 s2)"
    if "aps_packets st2 = m" for i st2 s2 m
    using to [of st2] by (rule post_mono) (simp add: that)
  note to' = this
  show ?thesis
    unfolding stream_add_packet_def Let_def prod.case_eq_if
    by (intro post_if post_bind [OF loc] post_bind [OF entry] to') simp_all
qed

section \<open>Totality of the operations\<close>

lemma matches_InrE:
  assumes "matches R m (Inr y)"
  obtains x where "m = Inr x" "R x y"
  using assms by (cases m) auto

lemma same_counts_refl [simp]: "same_counts st st"
  by (simp add: same_counts_def)

lemma same_counts_batch_ok: "same_counts st st' \<Longrightarrow> batch_ok st \<longleftrightarrow> batch_ok st'"
  by (simp add: batch_ok_def same_countsD(1,2))

context stream_sink
begin

lemma stream_add_packet_total:
  assumes inv: "stream_inv sink_inv s" and wf: "wf_packet p" and st: "batch_ok st" and ns: "\<not> sb_stopped s"
  obtains ok st' s' where "stream_add_packet vt p st s = Inr (ok, st', s')" "stream_inv sink_inv s'"
    "batch_ok st'"
proof -
  obtain a where a: "refines s a" "spec_inv sink_inv a" using inv by (auto simp: stream_inv_def)
  have "\<not> sp_stopped a" using refinesD(12) [OF a(1)] ns by simp
  with a(2) wf st obtain ok st1 a1 where sp: "spec_add_packet vt p st a = Inr (ok, st1, a1)"
    "spec_inv sink_inv a1" "batch_ok st1"
    by (rule spec_add_packet_total)
  have "matches step_result (stream_add_packet vt p st s) (Inr (ok, st1, a1))"
    using add_packet_refines [OF a(1) same_counts_refl, of vt p st] sp(1) by simp
  then obtain x where x: "stream_add_packet vt p st s = Inr x" "step_result x (ok, st1, a1)"
    by (rule matches_InrE)
  obtain ok' st' s' where x': "x = (ok', st', s')" by (cases x)
  have "same_counts st' st1" "refines s' a1" using x(2) by (simp_all add: x' step_result_def)
  moreover have "same_config s s'" using config.add_packet_frame [OF config.frame_refl, of s vt p st] x(1) by (simp add: post_def x')
  ultimately show ?thesis
    using that [of ok' st' s'] x(1) sp inv
    by (auto simp: x' stream_inv_def same_config_def same_counts_batch_ok)
qed

lemma flush_total:
  assumes "stream_inv sink_inv s"
  obtains s' where "flush_unlocked vt s = Inr s'" "stream_inv sink_inv s'"
    "\<forall>e \<in> set (sb_queue_storage s'). qe_heap e = None" "sb_stopped s' = sb_stopped s"
proof -
  obtain a where a: "refines s a" "spec_inv sink_inv a" using assms by (auto simp: stream_inv_def)
  obtain a' where a': "spec_flush vt a = Inr a'" "spec_inv sink_inv a'" "sp_live a' = []"
    "sp_stopped a' = sp_stopped a"
    using a(2) by (rule spec_flush_total)
  obtain s' where s': "flush_unlocked vt s = Inr s'" "refines s' a'"
    using flush_refines [OF a(1), of vt] a'(1) by (auto elim: matches_InrE)
  have "same_config s s'" using config.flush_frame [OF config.frame_refl, of s vt] s'(1) by (simp add: post_def)
  moreover have "\<forall>e \<in> set (sb_queue_storage s'). qe_heap e = None"
    using refinesD(1,9) [OF s'(2)] a'(3) by (auto simp: in_set_conv_nth)
  moreover have "sb_stopped s' = sb_stopped s"
    using refinesD(12) [OF s'(2)] refinesD(12) [OF a(1)] a'(4) by simp
  ultimately show ?thesis
    using s' a' assms by (intro that [of s']) (auto simp: stream_inv_def same_config_def)
qed

lemma stop_total:
  assumes "stream_inv sink_inv s" "\<not> sb_stopped s"
  obtains s' where "stop_received vt s = Inr s'" "stream_inv sink_inv s'"
    "\<forall>e \<in> set (sb_queue_storage s'). qe_heap e = None" "sb_stopped s'"
proof -
  obtain a where a: "refines s a" "spec_inv sink_inv a" using assms by (auto simp: stream_inv_def)
  have "\<not> sp_stopped a" using refinesD(12) [OF a(1)] assms(2) by simp
  with a(2) obtain a' where a': "spec_stop_received vt a = Inr a'" "spec_inv sink_inv a'"
    "sp_live a' = []" "sp_stopped a'"
    by (rule spec_stop_total)
  obtain s' where s': "stop_received vt s = Inr s'" "refines s' a'"
    using stop_refines [OF a(1), of vt] a'(1) by (auto elim: matches_InrE)
  have "same_config s s'" using config.stop_frame [OF config.frame_refl, of s vt] s'(1) by (simp add: post_def)
  moreover have "\<forall>e \<in> set (sb_queue_storage s'). qe_heap e = None"
    using refinesD(1,9) [OF s'(2)] a'(3) by (auto simp: in_set_conv_nth)
  moreover have "sb_stopped s'" using refinesD(12) [OF s'(2)] a'(4) by simp
  ultimately show ?thesis
    using s' a' assms by (intro that [of s']) (auto simp: stream_inv_def same_config_def)
qed

lemma mem_to_stream_loop_total:
  assumes "stream_inv sink_inv s" "batch_ok st" "length ptr \<le> fuel"
  shows "\<exists>n st' s'. mem_to_stream_loop vt fuel ptr st s = Inr (drop n ptr, st', s') \<and> stream_inv sink_inv s'"
  using assms
proof (induction fuel arbitrary: ptr st s)
  case 0
  then show ?case by (auto intro: exI [of _ 0])
next
  case (Suc fuel)
  show ?case
  proof (cases "ptr \<noteq> [] \<and> \<not> sb_stopped s \<and> decode_packet ptr \<noteq> None")
    case False
    then have "mem_to_stream_loop vt (Suc fuel) ptr st s = Inr (drop 0 ptr, st, s)"
      by (auto split: option.splits)
    with Suc.prems(1) show ?thesis by blast
  next
    case True
    then obtain p sz where p: "decode_packet ptr = Some (p, sz)" by auto
    note d = decode_packet_result [OF p]
    obtain ok st1 s1 where add: "stream_add_packet vt p st s = Inr (ok, st1, s1)"
      "stream_inv sink_inv s1" "batch_ok st1"
      using Suc.prems d(1) True by (blast elim: stream_add_packet_total)
    have "length (drop sz ptr) \<le> fuel" using Suc.prems(3) d(2,3) by simp
    from Suc.IH [OF add(2,3) this] obtain n st' s' where
      "mem_to_stream_loop vt fuel (drop sz ptr) st1 s1 = Inr (drop n (drop sz ptr), st', s')"
      "stream_inv sink_inv s'"
      by blast
    with True p add(1) show ?thesis by (auto intro: exI [of _ "n + sz"])
  qed
qed

lemma mem_to_stream_total:
  assumes "stream_inv sink_inv s"
  obtains n s' where "mem_to_stream vt ptr s = Inr (drop n ptr, s')" "stream_inv sink_inv s'"
proof -
  obtain n st' s' where "mem_to_stream_loop vt (length ptr) ptr (begin_batch s) s = Inr (drop n ptr, st', s')"
    "stream_inv sink_inv s'"
    using mem_to_stream_loop_total [OF assms begin_batch_ok [OF assms] order_refl] by blast
  then show ?thesis
    by (intro that [of n "end_batch st' s'"]) (simp_all add: mem_to_stream_def end_batch_inv)
qed

lemma initial_inv:
  assumes "make_stream_base alloc bug_compat m sink = Inr s" "m < 2 ^ 60" "byte_allocator alloc" "sink_inv sink"
  shows "stream_inv sink_inv s"
proof -
  have "refines s (initial_spec bug_compat m sink)" by (rule initial_refines [OF assms(1,2)])
  moreover have "0 < m" using assms(1) by (simp add: make_stream_base_def split: if_splits)
  then have "spec_inv sink_inv (initial_spec bug_compat m sink)"
    using assms(4) by (simp add: spec_inv_def live_inv_def initial_spec_def)
  moreover have "sb_memcpy s = std_packet_memcpy \<and> sb_allocator s = alloc"
    using assms(1) by (auto simp: make_stream_base_def Let_def split: if_splits)
  ultimately show ?thesis using assms(3) by (auto simp: stream_inv_def)
qed

end

section \<open>Instances\<close>

text \<open>\<^verbatim>\<open>stream_base\<close> itself: heaps are dropped.\<close>

definition base_virtuals :: "unit stream_virtuals" where
  "base_virtuals = \<lparr>heap_ready = (\<lambda>h k. Inr k), stop_hook = (\<lambda>k. k)\<rparr>"

interpretation base_stream: stream_sink base_virtuals "\<lambda>_. True"
  by unfold_locales (simp_all add: base_virtuals_def)

text \<open>A subclass that records the heaps it is handed, to speak about them.\<close>

definition recording_virtuals :: "live_heap list stream_virtuals" where
  "recording_virtuals = \<lparr>heap_ready = (\<lambda>h ks. Inr (ks @ [h])), stop_hook = (\<lambda>ks. ks)\<rparr>"

interpretation recording_stream: stream_sink recording_virtuals "\<lambda>_. True"
  by unfold_locales (simp_all add: recording_virtuals_def)

section \<open>Accounting\<close>

text \<open>
  In the recording subclass, the heaps handed over during a batch are those counted: in the
  statistics for flushes, in the batch state for completed and evicted heaps.
\<close>

definition accounted :: "add_packet_state \<Rightarrow> live_heap list spec_stream \<Rightarrow> bool" where
  "accounted st a \<longleftrightarrow>
     length (sp_sink a) = ss_heaps (sp_stats a) + aps_complete_heaps st + aps_incomplete_heaps_evicted st \<and>
     length (filter is_complete (sp_sink a)) + ss_incomplete_heaps_evicted (sp_stats a) +
       ss_incomplete_heaps_flushed (sp_stats a) = ss_heaps (sp_stats a) + aps_complete_heaps st"

definition all_incomplete :: "'s spec_stream \<Rightarrow> bool" where
  "all_incomplete a \<longleftrightarrow> (\<forall>p \<in> set (sp_live a). \<not> is_complete (snd p))"

lemma recording_sel [simp]:
  "heap_ready recording_virtuals h ks = Inr (ks @ [h])" "stop_hook recording_virtuals ks = ks"
  by (simp_all add: recording_virtuals_def)

lemma all_incompleteD:
  "all_incomplete a \<Longrightarrow> map_of (sp_live a) i = Some h \<Longrightarrow> \<not> is_complete h"
  by (fastforce simp: all_incomplete_def dest: map_of_SomeD)

lemma recording_eject:
  assumes "all_incomplete a" "spec_eject recording_virtuals i a = Inr a'"
  shows "\<exists>h. sp_sink a' = sp_sink a @ [h] \<and> \<not> is_complete h" "sp_stats a' = sp_stats a" "all_incomplete a'"
proof -
  obtain h where h: "map_of (sp_live a) i = Some h"
    and a': "a' = (spec_remove i a)\<lparr>sp_sink := sp_sink a @ [h]\<rparr>"
    using assms(2) by (auto simp: spec_eject_def split: option.splits)
  show "\<exists>h. sp_sink a' = sp_sink a @ [h] \<and> \<not> is_complete h"
    using all_incompleteD [OF assms(1) h] by (simp add: a')
  show "sp_stats a' = sp_stats a" by (simp add: a' spec_remove_def)
  show "all_incomplete a'"
    using assms(1) unfolding all_incomplete_def a' spec_remove_def by (simp add: distinct_map_filter)
qed

lemma recording_flush_fold:
  assumes "all_incomplete a" "fold_result (spec_eject_if_live recording_virtuals) is (n, a) = Inr (n', a')"
  shows "\<exists>hs. sp_sink a' = sp_sink a @ hs \<and> filter is_complete hs = [] \<and> n' = n + length hs \<and>
    sp_stats a' = sp_stats a \<and> all_incomplete a'"
  using assms
proof (induction "is" arbitrary: n a)
  case (Cons i "is")
  show ?case
  proof (cases "map_of (sp_live a) i")
    case None
    with Cons show ?thesis by (simp add: spec_eject_if_live_def)
  next
    case (Some h)
    then obtain a1 where a1: "spec_eject recording_virtuals i a = Inr a1"
      "fold_result (spec_eject_if_live recording_virtuals) is (n + 1, a1) = Inr (n', a')"
    proof -
      have "spec_eject_if_live recording_virtuals i (n, a) =
          bind_result (spec_eject recording_virtuals i a) (\<lambda>a'. Inr (n + 1, a'))"
        using Some by (simp add: spec_eject_if_live_def)
      with Cons.prems(2) that show ?thesis by (auto simp: bind_result_Inr_iff)
    qed
    note e = recording_eject [OF Cons.prems(1) a1(1)]
    obtain g where "sp_sink a1 = sp_sink a @ [g]" "\<not> is_complete g" using e(1) by blast
    with Cons.IH [OF e(3) a1(2)] e(2) show ?thesis
      by (auto intro: exI [of _ "g # _"])
  qed
qed simp

lemma recording_flush:
  assumes "all_incomplete a" "spec_flush recording_virtuals a = Inr a'" "accounted st a"
  shows "accounted st a'" "all_incomplete a'"
proof -
  let ?is = "flush_order (sp_head a) (sp_max_heaps a)"
  obtain n a1 where f: "fold_result (spec_eject_if_live recording_virtuals) ?is (0, a) = Inr (n, a1)"
    and a': "a' = a1\<lparr>sp_stats := (sp_stats a1)\<lparr>ss_heaps := ss_heaps (sp_stats a1) + n,
      ss_incomplete_heaps_flushed := ss_incomplete_heaps_flushed (sp_stats a1) + n\<rparr>\<rparr>"
    using assms(2) by (auto simp: spec_flush_def bind_result_Inr_iff Let_def)
  from recording_flush_fold [OF assms(1) f] obtain hs where
    "sp_sink a1 = sp_sink a @ hs" "filter is_complete hs = []" "n = length hs"
    "sp_stats a1 = sp_stats a" "all_incomplete a1"
    by auto
  with assms(3) show "accounted st a'" "all_incomplete a'"
    by (simp_all add: a' accounted_def all_incomplete_def)
qed

lemma recording_stop:
  assumes "all_incomplete a" "spec_stop_received recording_virtuals a = Inr a'" "accounted st a"
  shows "accounted st a'" "all_incomplete a'"
proof -
  have "spec_flush recording_virtuals (a\<lparr>sp_stopped := True\<rparr>) = Inr a'"
  proof (cases "spec_flush recording_virtuals (a\<lparr>sp_stopped := True\<rparr>)")
    case (Inl e)
    with assms(2) show ?thesis by (simp add: spec_stop_received_def split: if_splits)
  next
    case (Inr a1)
    with assms(2) show ?thesis by (simp add: spec_stop_received_def split: if_splits)
  qed
  moreover have "all_incomplete (a\<lparr>sp_stopped := True\<rparr>)" "accounted st (a\<lparr>sp_stopped := True\<rparr>)"
    using assms(1,3) by (simp_all add: all_incomplete_def accounted_def)
  ultimately show "accounted st a'" "all_incomplete a'" by (blast intro: recording_flush)+
qed

lemma recording_new:
  assumes inv: "all_incomplete a" and run: "spec_new recording_virtuals p st a = Inr (i, st', a')"
    and acc: "accounted st a"
  shows "accounted st' a'"
proof -
  have inv': "all_incomplete (spec_advance a)" and acc': "accounted st (spec_advance a)"
    using inv acc by (auto simp: all_incomplete_def spec_advance_def accounted_def)
  show ?thesis
  proof (cases "map_of (sp_live (spec_advance a)) (sp_head (spec_advance a))")
    case None
    with run acc' show ?thesis by (auto simp: spec_new_def Let_def accounted_def)
  next
    case (Some h)
    then obtain a2 where e: "spec_eject recording_virtuals (sp_head (spec_advance a)) (spec_advance a) = Inr a2"
      "st' = st\<lparr>aps_incomplete_heaps_evicted := aps_incomplete_heaps_evicted st + 1\<rparr>"
      "sp_sink a' = sp_sink a2" "sp_stats a' = sp_stats a2"
      using run by (auto simp: spec_new_def Let_def bind_result_Inr_iff)
    note r = recording_eject [OF inv' e(1)]
    obtain g where "sp_sink a2 = sp_sink (spec_advance a) @ [g]" "\<not> is_complete g" using r(1) by blast
    with e r(2) acc' show ?thesis by (auto simp: accounted_def)
  qed
qed

lemma recording_new_incomplete:
  assumes "all_incomplete a" "spec_new recording_virtuals p st a = Inr (i, st', a')"
  shows "all_incomplete a'"
proof -
  have "\<not> is_complete (make_live_heap p bc)" for bc by (simp add: make_live_heap_def is_complete_def)
  then show ?thesis
    using assms
    by (auto simp: spec_new_def Let_def bind_result_Inr_iff all_incomplete_def spec_advance_def
        spec_eject_def spec_remove_def split: if_splits option.splits)
qed

lemma add_packet_refused:
  assumes "add_packet memcpy alloc p h = Inr (False, h')"
  shows "is_complete h' = is_complete h"
  using assms
  by (auto simp: add_packet_def Let_def bind_result_Inr_iff is_complete_def split: if_splits prod.splits)

lemma recording_add_to:
  assumes inc: "all_incomplete a" and acc: "accounted st a"
    and run: "spec_add_to recording_virtuals p i st a = Inr (ok, st', a')"
  shows "accounted st' a'" "all_incomplete a'"
proof -
  obtain h ok' h1 where h: "map_of (sp_live a) i = Some h"
    and add: "add_packet (aps_memcpy st) (aps_allocator st) p h = Inr (ok', h1)"
    using run by (auto simp: spec_add_to_def bind_result_Inr_iff split: option.splits)
  note r = run [unfolded spec_add_to_def h option.case add bind_result.simps prod.case Let_def]
  let ?a1 = "spec_update i h1 a" and ?eos = "aps_stop_on_stop_item st \<and> is_end_of_stream h1"
  have acc1: "accounted st ?a1" "accounted st (spec_remove i ?a1)"
    using acc by (simp_all add: accounted_def spec_update_def spec_remove_def)
  have inc1: "all_incomplete ?a1" if "\<not> is_complete h1"
    using inc that by (auto simp: all_incomplete_def spec_update_def)
  have inc2: "all_incomplete (spec_remove i ?a1)"
    using inc by (auto simp: all_incomplete_def spec_update_def spec_remove_def)
  have goal: "accounted st' a' \<and> all_incomplete a'"
  proof (cases ok')
    case False
    then have "\<not> is_complete h1"
      using add_packet_refused add all_incompleteD [OF inc h] by metis
    with False r acc1 inc1 show ?thesis by simp
  next
    case ok: True
    show ?thesis
    proof (cases ?eos)
      case True
      let ?b = "if is_complete h1 then spec_remove i ?a1 else ?a1"
      have "spec_stop_received recording_virtuals ?b = Inr a' \<and> st' = st"
        using r ok True by (auto simp: bind_result_Inr_iff split: if_splits)
      moreover have "all_incomplete ?b" "accounted st ?b" using inc1 inc2 acc1 by simp_all
      ultimately show ?thesis using recording_stop by blast
    next
      case False
      show ?thesis
      proof (cases "is_complete h1")
        case True
        then have "st' = st\<lparr>aps_complete_heaps := aps_complete_heaps st + 1\<rparr>"
          "a' = (spec_remove i ?a1)\<lparr>sp_sink := sp_sink ?a1 @ [h1]\<rparr>"
          using r ok False by (auto split: if_splits)
        with True inc2 acc1(1) show ?thesis
          by (auto simp: accounted_def all_incomplete_def spec_remove_def)
      next
        case incomplete: False
        then have "st' = st" "a' = ?a1" using r ok False by (auto split: if_splits)
        with incomplete inc1 acc1 show ?thesis by simp
      qed
    qed
  qed
  then show "accounted st' a'" "all_incomplete a'" by simp_all
qed

lemma recording_add_packet:
  assumes "all_incomplete a" "accounted st a" "spec_add_packet recording_virtuals p st a = Inr (ok, st', a')"
  shows "accounted st' a'" "all_incomplete a'"
proof -
  let ?st = "st\<lparr>aps_packets := aps_packets st + 1\<rparr>"
  obtain found st1 where loc: "spec_locate p ?st a = (found, st1)" by fastforce
  have acc: "accounted ?st a" "accounted st1 a"
    using assms(2) loc by (auto simp: accounted_def spec_locate_def split: if_splits)
  consider (unsized) "a' = a" "st' = ?st"
    | (entry) i st2 a1 where "(case found of Some i \<Rightarrow> Inr (i, st1, a)
        | None \<Rightarrow> spec_new recording_virtuals p st1 a) = Inr (i, st2, a1)"
      "spec_add_to recording_virtuals p i st2 a1 = Inr (ok, st', a')"
    using assms(3) loc
    by (auto simp: spec_add_packet_def Let_def bind_result_Inr_iff split: if_splits)
  then have "accounted st' a' \<and> all_incomplete a'"
  proof cases
    case unsized
    then show ?thesis using acc assms(1) by simp
  next
    case (entry i st2 a1)
    have "accounted st2 a1 \<and> all_incomplete a1"
      using entry(1) acc assms(1) recording_new recording_new_incomplete
      by (auto split: option.splits)
    with recording_add_to entry(2) show ?thesis by blast
  qed
  then show "accounted st' a'" "all_incomplete a'" by simp_all
qed

lemma spec_inv_incomplete: "spec_inv I a \<Longrightarrow> all_incomplete a"
  by (simp add: spec_inv_def live_inv_def live_ok_def all_incomplete_def)

lemma accounted_same_counts: "same_counts st st' \<Longrightarrow> accounted st a \<longleftrightarrow> accounted st' a"
  by (simp add: accounted_def same_countsD)

text \<open>The invariant of a recording stream in the middle of a batch, and between batches.\<close>

definition batch_inv :: "add_packet_state \<Rightarrow> live_heap list stream_base \<Rightarrow> bool" where
  "batch_inv st s \<longleftrightarrow> (\<exists>a. refines s a \<and> spec_inv (\<lambda>_. True) a \<and> accounted st a) \<and>
     stream_inv (\<lambda>_. True) s \<and>
     (aps_packets st = 0 \<longrightarrow> aps_complete_heaps st = 0 \<and> aps_incomplete_heaps_evicted st = 0)"

definition stats_inv :: "live_heap list stream_base \<Rightarrow> bool" where
  "stats_inv s \<longleftrightarrow> length (sb_sink s) = ss_heaps (sb_stats s) \<and>
     length (filter is_complete (sb_sink s)) + ss_incomplete_heaps_evicted (sb_stats s) +
       ss_incomplete_heaps_flushed (sb_stats s) = ss_heaps (sb_stats s)"

lemma begin_batch_counts: "batch_inv (begin_batch s) s \<longleftrightarrow> stream_inv (\<lambda>_. True) s \<and> stats_inv s"
proof -
  have "accounted (begin_batch s) a \<longleftrightarrow> stats_inv s" if "refines s a" for a
    using refinesD(13,14) [OF that] by (simp add: accounted_def begin_batch_def stats_inv_def)
  then show ?thesis by (auto simp: batch_inv_def stream_inv_def begin_batch_def)
qed

lemma batch_add_packet:
  assumes inv: "batch_inv st s" and wf: "wf_packet p" and st: "batch_ok st" and ns: "\<not> sb_stopped s"
  obtains ok st' s' where "stream_add_packet recording_virtuals p st s = Inr (ok, st', s')"
    "batch_inv st' s'" "batch_ok st'"
proof -
  obtain a where a: "refines s a" "spec_inv (\<lambda>_. True) a" "accounted st a" and si: "stream_inv (\<lambda>_. True) s"
    using inv by (auto simp: batch_inv_def)
  have "\<not> sp_stopped a" using refinesD(12) [OF a(1)] ns by simp
  with a(2) wf st obtain ok st1 a1 where sp: "spec_add_packet recording_virtuals p st a = Inr (ok, st1, a1)"
    "spec_inv (\<lambda>_. True) a1" "batch_ok st1"
    by (rule recording_stream.spec_add_packet_total)
  have "matches step_result (stream_add_packet recording_virtuals p st s) (Inr (ok, st1, a1))"
    using add_packet_refines [OF a(1) same_counts_refl, of recording_virtuals p st] sp(1) by simp
  then obtain x where x: "stream_add_packet recording_virtuals p st s = Inr x" "step_result x (ok, st1, a1)"
    by (rule matches_InrE)
  obtain ok' st' s' where x': "x = (ok', st', s')" by (cases x)
  have ref: "same_counts st' st1" "refines s' a1" using x(2) by (simp_all add: x' step_result_def)
  obtain ok2 st2 s2 where "stream_add_packet recording_virtuals p st s = Inr (ok2, st2, s2)"
    "stream_inv (\<lambda>_. True) s2" "batch_ok st2"
    using si wf st ns by (rule recording_stream.stream_add_packet_total)
  then have "stream_inv (\<lambda>_. True) s'" "batch_ok st'" using x(1) by (simp_all add: x')
  moreover have "0 < aps_packets st'"
    using add_packet_counts [of st recording_virtuals p s] x(1) by (simp add: post_def x')
  moreover have "accounted st1 a1"
    using recording_add_packet(1) [OF spec_inv_incomplete [OF a(2)] a(3) sp(1)] .
  ultimately show ?thesis
    using that [of ok' st' s'] x(1) ref sp(2) accounted_same_counts [OF ref(1)]
    by (auto simp: x' batch_inv_def)
qed

lemma batch_loop:
  assumes "batch_inv st s" "batch_ok st" "length ptr \<le> fuel"
  shows "\<exists>rest st' s'. mem_to_stream_loop recording_virtuals fuel ptr st s = Inr (rest, st', s') \<and>
    batch_inv st' s' \<and> batch_ok st'"
  using assms
proof (induction fuel arbitrary: ptr st s)
  case (Suc fuel)
  show ?case
  proof (cases "ptr \<noteq> [] \<and> \<not> sb_stopped s \<and> decode_packet ptr \<noteq> None")
    case False
    then have "mem_to_stream_loop recording_virtuals (Suc fuel) ptr st s = Inr (ptr, st, s)"
      by (auto split: option.splits)
    with Suc.prems show ?thesis by blast
  next
    case True
    then obtain p sz where p: "decode_packet ptr = Some (p, sz)" by auto
    note d = decode_packet_result [OF p]
    obtain ok st1 s1 where add: "stream_add_packet recording_virtuals p st s = Inr (ok, st1, s1)"
      "batch_inv st1 s1" "batch_ok st1"
      using Suc.prems d(1) True by (blast elim: batch_add_packet)
    have "length (drop sz ptr) \<le> fuel" using Suc.prems(3) d(2,3) by simp
    from Suc.IH [OF add(2,3) this] True p add(1) show ?thesis by auto
  qed
qed auto

lemma end_batch_stats:
  assumes "batch_inv st s"
  shows "stats_inv (end_batch st s)"
proof -
  obtain a where a: "refines s a" "accounted st a"
    "aps_packets st = 0 \<longrightarrow> aps_complete_heaps st = 0 \<and> aps_incomplete_heaps_evicted st = 0"
    using assms by (auto simp: batch_inv_def)
  show ?thesis
  proof (cases "aps_packets st = 0 \<and> sb_stopped s")
    case True
    then show ?thesis
      using a refinesD(13,14) [OF a(1)] by (simp add: end_batch_def stats_inv_def accounted_def)
  next
    case False
    then show ?thesis
      using a(2) refinesD(13,14) [OF a(1)]
      by (simp only: end_batch_def if_False Let_def) (simp add: stats_inv_def accounted_def)
  qed
qed

section \<open>Sequences of operations\<close>

text \<open>What can be done to a stream from outside: feed it a block of bytes, flush it, stop it.\<close>

datatype stream_op = Feed "byte list" | Flush | Stop

fun run_op :: "'s stream_virtuals \<Rightarrow> stream_op \<Rightarrow> 's stream_base \<Rightarrow> fault + 's stream_base" where
  "run_op vt (Feed bs) s = bind_result (mem_to_stream vt bs s) (\<lambda>(rest, s'). Inr s')"
| "run_op vt Flush s = flush_stream vt s"
| "run_op vt Stop s = stop_stream vt s"

context stream_sink
begin

lemma run_op_total:
  assumes "stream_inv sink_inv s"
  obtains s' where "run_op vt x s = Inr s'" "stream_inv sink_inv s'"
proof (cases x)
  case (Feed bs)
  from assms obtain n s' where "mem_to_stream vt bs s = Inr (drop n bs, s')" "stream_inv sink_inv s'"
    by (rule mem_to_stream_total)
  then show ?thesis by (intro that) (simp_all add: Feed)
next
  case Flush
  from assms obtain s' where "flush_unlocked vt s = Inr s'" "stream_inv sink_inv s'"
    "\<forall>e \<in> set (sb_queue_storage s'). qe_heap e = None" "sb_stopped s' = sb_stopped s"
    by (rule flush_total)
  then show ?thesis by (intro that) (simp_all add: Flush flush_stream_def)
next
  case Stop
  show ?thesis
  proof (cases "sb_stopped s")
    case True
    then show ?thesis by (intro that [of s]) (simp_all add: Stop stop_stream_def stop_unlocked_def assms)
  next
    case False
    with assms obtain s' where "stop_received vt s = Inr s'" "stream_inv sink_inv s'"
      "\<forall>e \<in> set (sb_queue_storage s'). qe_heap e = None" "sb_stopped s'"
      by (rule stop_total)
    then show ?thesis by (intro that) (simp_all add: Stop stop_stream_def stop_unlocked_def False)
  qed
qed

lemma run_ops_total:
  assumes "stream_inv sink_inv s"
  shows "\<exists>s'. fold_result (run_op vt) ops s = Inr s' \<and> stream_inv sink_inv s'"
  using assms
proof (induction ops arbitrary: s)
  case (Cons x ops)
  obtain s1 where "run_op vt x s = Inr s1" "stream_inv sink_inv s1"
    using Cons.prems by (rule run_op_total)
  with Cons.IH [of s1] show ?case by simp
qed simp

end

lemma recording_op_stats:
  assumes inv: "stream_inv (\<lambda>_. True) s" and stats: "stats_inv s"
    and run: "run_op recording_virtuals x s = Inr s'"
  shows "stats_inv s'"
proof -
  obtain a where a: "refines s a" "spec_inv (\<lambda>_. True) a" using inv by (auto simp: stream_inv_def)
  let ?st = "begin_batch s"
  have acc: "accounted ?st a"
    using stats refinesD(13,14) [OF a(1)] by (simp add: accounted_def begin_batch_def stats_inv_def)
  have conc: "stats_inv s1" if "refines s1 a1" "accounted ?st a1" for s1 a1
    using that refinesD(13,14) [OF that(1)] by (simp add: accounted_def begin_batch_def stats_inv_def)
  show ?thesis
  proof (cases x)
    case (Feed bs)
    have "batch_inv ?st s" using inv stats by (simp add: begin_batch_counts)
    from batch_loop [OF this begin_batch_ok [OF inv] order_refl [of "length bs"]] obtain rest st1 s1 where
      "mem_to_stream_loop recording_virtuals (length bs) bs ?st s = Inr (rest, st1, s1)" "batch_inv st1 s1"
      by blast
    with run Feed end_batch_stats show ?thesis by (auto simp: mem_to_stream_def)
  next
    case Flush
    obtain a1 where "spec_flush recording_virtuals a = Inr a1"
      using a(2) by (blast elim: recording_stream.spec_flush_total)
    moreover from this have "refines s' a1"
      using flush_refines [OF a(1), of recording_virtuals] run Flush by (simp add: flush_stream_def)
    ultimately show ?thesis
      using conc recording_flush(1) [OF spec_inv_incomplete [OF a(2)] _ acc] by blast
  next
    case Stop
    show ?thesis
    proof (cases "sb_stopped s")
      case True
      with run Stop stats show ?thesis by (simp add: stop_stream_def stop_unlocked_def)
    next
      case False
      then have "\<not> sp_stopped a" using refinesD(12) [OF a(1)] by simp
      with a(2) obtain a1 where "spec_stop_received recording_virtuals a = Inr a1"
        by (blast elim: recording_stream.spec_stop_total)
      moreover from this have "refines s' a1"
        using stop_refines [OF a(1), of recording_virtuals] run Stop False
        by (simp add: stop_stream_def stop_unlocked_def)
      ultimately show ?thesis
        using conc recording_stop(1) [OF spec_inv_incomplete [OF a(2)] _ acc] by blast
    qed
  qed
qed

lemma recording_ops_stats:
  assumes "stream_inv (\<lambda>_. True) s" "stats_inv s"
    "fold_result (run_op recording_virtuals) ops s = Inr s'"
  shows "stats_inv s'"
  using assms
proof (induction ops arbitrary: s)
  case (Cons x ops)
  obtain s1 where s1: "run_op recording_virtuals x s = Inr s1" "stream_inv (\<lambda>_. True) s1"
    using Cons.prems(1) by (rule recording_stream.run_op_total)
  with Cons.prems(3) have "fold_result (run_op recording_virtuals) ops s1 = Inr s'" by simp
  with Cons.IH s1(2) recording_op_stats [OF Cons.prems(1,2) s1(1)] show ?case by blast
qed simp

section \<open>Properties\<close>

lemma default_byte_allocator: "byte_allocator (default_allocate fresh)"
  by (rule default_allocator.byte_allocator_axioms)

definition example_stream :: "'s \<Rightarrow> 's stream_base" where
  "example_stream sink = projr (make_stream_base (default_allocate (\<lambda>_. 0)) 0 4 sink)"

lemma example_stream: "make_stream_base (default_allocate (\<lambda>_. 0)) 0 4 sink = Inr (example_stream sink)"
  by (simp add: example_stream_def make_stream_base_def Let_def)

text \<open>
  C3: The receiving stream never goes wrong.  For every subclass whose \<^verbatim>\<open>heap_ready\<close> accepts
  well-formed heaps, a newly constructed stream survives every sequence of operations: any
  bytes fed to it, flushes and stops, in any order.  No memory is accessed out of bounds, no
  assertion fails, every hash chain walk terminates within its bound, the hash table stays
  consistent with the queue, and no complete heap lingers in the table.
\<close>

theorem stream_never_faults:
  assumes "stream_sink vt sink_inv" "sink_inv sink" "m < 2 ^ 60"
    and "make_stream_base (default_allocate fresh) bug_compat m sink = Inr s"
  shows "\<exists>s'. fold_result (run_op vt) ops s = Inr s' \<and> stream_inv sink_inv s'"
proof -
  have "stream_inv sink_inv s"
    by (rule stream_sink.initial_inv [OF assms(1,4,3) default_byte_allocator assms(2)])
  then show ?thesis by (rule stream_sink.run_ops_total [OF assms(1)])
qed

theorem stream_never_faults_witness:
  "\<exists>s'. fold_result (run_op base_virtuals) [Feed example_packet, Flush, Feed [1, 2, 3], Stop]
     (example_stream ()) = Inr s' \<and> stream_inv (\<lambda>_. True) s'"
  by (rule stream_never_faults [OF base_stream.stream_sink_axioms _ _ example_stream]) simp_all





text \<open>
  Stopping a stream hands over everything.  \<^verbatim>\<open>stop\<close> on a stream that is not stopped never
  faults, leaves it stopped, and leaves no heap behind in any slot of the queue.
\<close>

lemma stop_leaves_nothing:
  assumes "stream_sink vt sink_inv" "stream_inv sink_inv s" "\<not> sb_stopped s"
  shows "\<exists>s'. stop_stream vt s = Inr s' \<and> sb_stopped s' \<and> stream_inv sink_inv s' \<and>
    (\<forall>e \<in> set (sb_queue_storage s'). qe_heap e = None)"
proof -
  obtain s' where "stop_received vt s = Inr s'" "stream_inv sink_inv s'"
    "\<forall>e \<in> set (sb_queue_storage s'). qe_heap e = None" "sb_stopped s'"
    using assms(2,3) by (rule stream_sink.stop_total [OF assms(1)])
  then show ?thesis using assms(3) by (simp add: stop_stream_def stop_unlocked_def)
qed

lemma stop_leaves_nothing_witness:
  "\<exists>s'. stop_stream base_virtuals (example_stream ()) = Inr s' \<and> sb_stopped s'"
proof -
  have "stream_inv (\<lambda>_. True) (example_stream ())"
    by (rule base_stream.initial_inv [OF example_stream _ default_byte_allocator]) simp_all
  moreover have "\<not> sb_stopped (example_stream ())"
    by (simp add: example_stream_def make_stream_base_def Let_def)
  ultimately show ?thesis
    using stop_leaves_nothing [OF base_stream.stream_sink_axioms] by blast
qed

text \<open>
  The Fibonacci hash is always in range: for every number of heaps the code can allocate,
  the bucket computed for any heap count is an index of the bucket array.
\<close>

lemma bucket_index_in_range:
  assumes "make_stream_base alloc bug_compat m sink = Inr s" "m < 2 ^ 60"
  shows "get_bucket s c < length (sb_buckets s)"
proof -
  have "sb_bucket_shift s = compute_bucket_shift (compute_bucket_count m)"
    "length (sb_buckets s) = compute_bucket_count m"
    using assms(1) by (auto simp: make_stream_base_def Let_def split: if_splits)
  with bucket_in_range [OF assms(2)] show ?thesis by simp
qed

lemma bucket_index_in_range_witness:
  "get_bucket (example_stream ()) (- 1) < length (sb_buckets (example_stream ()))"
  by (rule bucket_index_in_range [OF example_stream]) simp

end
