(* ===== verification/Descriptors.thy ===== *)
theory Descriptors
  imports StreamSafety
begin

text \<open>
  Extracting descriptors from a received heap: the parts of \<^verbatim>\<open>recv_heap.cpp\<close> that feed
  the descriptor items of a heap to a stream of their own, \<^verbatim>\<open>descriptor_stream\<close> and
  \<^verbatim>\<open>heap::get_descriptors\<close>.
\<close>

section \<open>Definitions\<close>

definition descriptor_ready ::
  "(nat \<Rightarrow> byte) \<Rightarrow> nat \<Rightarrow> live_heap \<Rightarrow> descriptor list \<Rightarrow> fault + descriptor list" where
  "descriptor_ready fresh self h descriptors =
     (if is_contiguous h then
        bind_result (make_heap fresh self h) (\<lambda>(frozen, _).
        bind_result (to_descriptor frozen) (\<lambda>d.
        Inr (if d_id d \<noteq> 0 then descriptors @ [d] else descriptors)))
      else Inr descriptors)"

definition descriptor_virtuals :: "(nat \<Rightarrow> byte) \<Rightarrow> nat \<Rightarrow> descriptor list stream_virtuals" where
  "descriptor_virtuals fresh self =
     \<lparr>heap_ready = descriptor_ready fresh self, stop_hook = (\<lambda>ds. ds)\<rparr>"

text \<open>The loop body of \<^verbatim>\<open>get_descriptors\<close>.\<close>

definition feed_descriptor ::
  "(nat \<Rightarrow> byte) \<Rightarrow> nat \<Rightarrow> heap_base \<Rightarrow> recv_item \<Rightarrow> descriptor list stream_base \<Rightarrow>
   fault + descriptor list stream_base" where
  "feed_descriptor fresh self hb it s =
     (if ri_id it = DESCRIPTOR_ID then
        bind_result (item_bytes hb it) (\<lambda>bs.
        bind_result (mem_to_stream (descriptor_virtuals fresh self) bs s) (\<lambda>(_, s1).
        flush_stream (descriptor_virtuals fresh self) s1))
      else Inr s)"

definition get_descriptors ::
  "(nat \<Rightarrow> byte) \<Rightarrow> nat \<Rightarrow> heap_base \<Rightarrow> fault + descriptor list" where
  "get_descriptors fresh self hb =
     bind_result (make_stream_base (default_allocate fresh) (fl_bug_compat (hb_flavour hb)) 1 []) (\<lambda>s.
     bind_result (fold_result (feed_descriptor fresh self hb) (hb_items hb) s) (\<lambda>s1.
     bind_result (stop_stream (descriptor_virtuals fresh self) s1) (\<lambda>s2.
     Inr (sb_sink s2))))"

section \<open>The sink\<close>

text \<open>The reference: what a contiguous live heap contributes to the list.\<close>

definition descriptor_in :: "live_heap \<Rightarrow> descriptor" where
  "descriptor_in h = descriptor_of
     \<lparr>fl_heap_address_bits = address_bits (lh_decoder h), fl_bug_compat = lh_bug_compat h\<rparr>
     (frozen_items h True)"

lemma make_heap_descriptor:
  assumes "lh_inv h" "is_contiguous h"
  obtains hb h' where "make_heap fresh self h = Inr (hb, h')" "to_descriptor hb = Inr (descriptor_in h)"
proof -
  from assms obtain hb h' where m: "make_heap fresh self h = Inr (hb, h')"
    and l: "load_result h True True (new_heap_base fresh self) hb" and "lh_inv h'"
    by (rule make_heap_ok)
  have wf: "wf_bits (address_bits (lh_decoder h))"
    "lh_decoder h = make_pointer_decoder (address_bits (lh_decoder h))"
    using assms(1) by (simp_all add: lh_inv_def)
  have fl: "hb_flavour hb = \<lparr>fl_heap_address_bits = address_bits (lh_decoder h),
      fl_bug_compat = lh_bug_compat h\<rparr>"
    using l by (cases "hb_flavour hb") (simp add: load_result_def)
  have "to_descriptor hb = Inr (descriptor_of (hb_flavour hb) (frozen_items h True))"
    by (rule to_descriptor_ok)
      (use l wf heap_items_immediate_length [OF wf] in
        \<open>auto simp: load_result_def frozen_items_def wf_flavour_def\<close>)
  with m fl show ?thesis by (intro that) (simp_all add: descriptor_in_def)
qed

lemma descriptor_ready_ok:
  assumes "lh_inv h"
  shows "descriptor_ready fresh self h ds =
    Inr (if is_contiguous h \<and> d_id (descriptor_in h) \<noteq> 0 then ds @ [descriptor_in h] else ds)"
proof (cases "is_contiguous h")
  case True
  with assms obtain hb h' where "make_heap fresh self h = Inr (hb, h')"
    "to_descriptor hb = Inr (descriptor_in h)"
    by (rule make_heap_descriptor)
  with True show ?thesis by (simp add: descriptor_ready_def)
qed (simp add: descriptor_ready_def)

definition identified :: "descriptor list \<Rightarrow> bool" where
  "identified ds \<longleftrightarrow> (\<forall>d \<in> set ds. d_id d \<noteq> 0)"

interpretation descriptor_stream: stream_sink "descriptor_virtuals fresh self" identified for fresh self
  by unfold_locales (auto simp: descriptor_virtuals_def descriptor_ready_ok identified_def)

section \<open>Extracting descriptors\<close>

lemma feed_descriptors_ok:
  assumes "\<forall>it \<in> set its. \<exists>bs. item_bytes hb it = Inr bs" "stream_inv identified s"
  shows "\<exists>s'. fold_result (feed_descriptor fresh self hb) its s = Inr s' \<and> stream_inv identified s'"
  using assms
proof (induction its arbitrary: s)
  case (Cons it its)
  have "\<exists>s1. feed_descriptor fresh self hb it s = Inr s1 \<and> stream_inv identified s1"
  proof (cases "ri_id it = DESCRIPTOR_ID")
    case True
    obtain bs where bs: "item_bytes hb it = Inr bs" using Cons.prems(1) by auto
    obtain n s1 where s1: "mem_to_stream (descriptor_virtuals fresh self) bs s = Inr (drop n bs, s1)"
      "stream_inv identified s1"
      using Cons.prems(2) by (rule descriptor_stream.mem_to_stream_total)
    obtain s2 where "flush_unlocked (descriptor_virtuals fresh self) s1 = Inr s2" "stream_inv identified s2"
      "\<forall>e \<in> set (sb_queue_storage s2). qe_heap e = None" "sb_stopped s2 = sb_stopped s1"
      using s1(2) by (rule descriptor_stream.flush_total)
    with True bs s1 show ?thesis by (simp add: feed_descriptor_def flush_stream_def)
  next
    case False
    with Cons.prems show ?thesis by (simp add: feed_descriptor_def)
  qed
  then obtain s1 where "feed_descriptor fresh self hb it s = Inr s1" "stream_inv identified s1" by blast
  with Cons show ?case by simp
qed simp

lemma heap_view_readable:
  assumes "heap_view hb vs"
  shows "\<forall>it \<in> set (hb_items hb). \<exists>bs. item_bytes hb it = Inr bs"
  using assms by (auto simp: heap_view_def item_view_def dest!: list_all2_in1)

lemma stream_inv_sink:
  assumes "stream_inv I s"
  shows "I (sb_sink s)"
proof -
  obtain a where "refines s a" "spec_inv I a" using assms by (auto simp: stream_inv_def)
  then show ?thesis using refinesD(14) by (fastforce simp: spec_inv_def)
qed

text \<open>
  \<^verbatim>\<open>get_descriptors\<close> is total: whatever bytes the descriptor items of a received heap
  hold, extracting the descriptors never faults and never loops, and every descriptor
  returned has an identifier.
\<close>

lemma get_descriptors_total:
  assumes "heap_view hb vs"
  shows "\<exists>ds. get_descriptors fresh self hb = Inr ds \<and> (\<forall>d \<in> set ds. d_id d \<noteq> 0)"
proof -
  let ?vt = "descriptor_virtuals fresh self"
  obtain s :: "descriptor list stream_base" where
    s: "make_stream_base (default_allocate fresh) (fl_bug_compat (hb_flavour hb)) 1 [] = Inr s"
    by (simp add: make_stream_base_def Let_def)
  have "stream_inv identified s"
    by (rule descriptor_stream.initial_inv [OF s _ default_byte_allocator]) (simp_all add: identified_def)
  with heap_view_readable [OF assms] obtain s1 where
    s1: "fold_result (feed_descriptor fresh self hb) (hb_items hb) s = Inr s1" "stream_inv identified s1"
    using feed_descriptors_ok by blast
  obtain s2 where s2: "run_op ?vt Stop s1 = Inr s2" "stream_inv identified s2"
    using s1(2) by (rule descriptor_stream.run_op_total)
  with s s1 stream_inv_sink [OF s2(2)] show ?thesis
    by (simp add: get_descriptors_def identified_def)
qed

lemma get_descriptors_total_witness:
  "\<exists>ds. get_descriptors (\<lambda>_. 0) 0 long_ctrl_heap = Inr ds"
proof -
  have "heap_view long_ctrl_heap [(STREAM_CTRL_ID, False, [0, 0, 0, 0, 0, 0, 0, 0, 2])]"
    by (simp add: heap_view_def long_ctrl_heap_def item_view_def item_bytes_def mem_read_def)
  from get_descriptors_total [OF this] show ?thesis by blast
qed

end
