(* ===== verification/Framing.thy ===== *)
theory Framing
  imports RecvPacket
begin

text \<open>
  The layout of a packet as the sending side writes it (header word, item pointers, payload)
  and what the parser of the receiving side makes of it.  Both \<^verbatim>\<open>encode_descriptor\<close> and
  \<^verbatim>\<open>packet_generator::next_packet\<close> write this layout.
\<close>

section \<open>Definitions\<close>

text \<open>The header word of a packet with \<open>k\<close> items.\<close>

definition spead_header :: "nat \<Rightarrow> nat \<Rightarrow> 64 word" where
  "spead_header heap_address_bits k =
     push_bit 48 0x5304
     OR push_bit 40 (word_of_nat (item_pointer_size - heap_address_bits div 8))
     OR push_bit 32 (word_of_nat (heap_address_bits div 8))
     OR word_of_nat k"

text \<open>Writing an item pointer, with the assertions of the encoder.\<close>

definition put_immediate :: "nat \<Rightarrow> s_item_pointer_t \<Rightarrow> s_item_pointer_t \<Rightarrow> fault + byte list" where
  "put_immediate heap_address_bits i v =
     (if encodable heap_address_bits i v then Inr (htobe64 (encode_immediate heap_address_bits i v))
      else Inl Assertion_failed)"

definition put_address :: "nat \<Rightarrow> s_item_pointer_t \<Rightarrow> s_item_pointer_t \<Rightarrow> fault + byte list" where
  "put_address heap_address_bits i address =
     (if encodable heap_address_bits i address then Inr (htobe64 (encode_address heap_address_bits i address))
      else Inl Assertion_failed)"

text \<open>Several writes one after the other.\<close>

fun put_all :: "(fault + byte list) list \<Rightarrow> fault + byte list" where
  "put_all [] = Inr []"
| "put_all (r # rs) =
     bind_result r (\<lambda>bs. bind_result (put_all rs) (\<lambda>rest. Inr (bs @ rest)))"

text \<open>Reference: the bytes of a sequence of pointers, and of a packet.\<close>

definition pointer_bytes :: "item_pointer_t list \<Rightarrow> byte list" where
  "pointer_bytes ws = concat (map htobe64 ws)"

definition special_pointers :: "nat \<Rightarrow> int \<Rightarrow> int \<Rightarrow> int \<Rightarrow> int \<Rightarrow> item_pointer_t list" where
  "special_pointers n cnt heap_length offset payload_length =
     [encode_immediate n HEAP_CNT_ID cnt, encode_immediate n HEAP_LENGTH_ID heap_length,
      encode_immediate n PAYLOAD_OFFSET_ID offset, encode_immediate n PAYLOAD_LENGTH_ID payload_length]"

definition packet_bytes ::
  "nat \<Rightarrow> int \<Rightarrow> int \<Rightarrow> int \<Rightarrow> item_pointer_t list \<Rightarrow> byte list \<Rightarrow> byte list" where
  "packet_bytes n cnt heap_length offset ws payload =
     htobe64 (spead_header n (4 + length ws)) @
     pointer_bytes (special_pointers n cnt heap_length offset (int (length payload)) @ ws) @ payload"

section \<open>Sequences of pointers\<close>

lemma pointer_bytes_simps [simp]:
  "pointer_bytes [] = []"
  "pointer_bytes (w # ws) = htobe64 w @ pointer_bytes ws"
  "pointer_bytes (vs @ ws) = pointer_bytes vs @ pointer_bytes ws"
  by (simp_all add: pointer_bytes_def)

lemma length_pointer_bytes [simp]: "length (pointer_bytes ws) = length ws * 8"
  by (induction ws) simp_all

lemma drop_pointer_bytes:
  "i \<le> length ws \<Longrightarrow> drop (i * 8) (pointer_bytes ws @ rest) = pointer_bytes (drop i ws) @ rest"
proof (induction ws arbitrary: i)
  case (Cons w ws)
  then show ?case by (cases i) simp_all
qed simp

lemma load_pointer_bytes:
  assumes "i < length ws"
  shows "load_be64 (drop (i * 8) (pointer_bytes ws @ rest)) = ws ! i"
proof -
  have "drop i ws = ws ! i # drop (Suc i) ws" using assms by (rule Cons_nth_drop_Suc [symmetric])
  moreover have "drop (i * 8) (pointer_bytes ws @ rest) = pointer_bytes (drop i ws) @ rest"
    using assms by (intro drop_pointer_bytes) simp
  ultimately show ?thesis by (simp only: pointer_bytes_simps append_assoc load_htobe64)
qed

lemma item_at_framed:
  assumes "i < length ws"
  shows "item_at (htobe64 h @ pointer_bytes ws @ rest) i = ws ! i"
proof -
  have "drop (8 + i * 8) (htobe64 h @ pointer_bytes ws @ rest) = drop (i * 8) (pointer_bytes ws @ rest)"
    by (simp del: drop_append add: drop_append [of _ "htobe64 h"])
  then show ?thesis by (simp only: item_at_def item_pointer_size_def load_pointer_bytes assms)
qed

lemma put_all_Inr [simp]: "put_all (map (\<lambda>x. Inr (f x)) xs) = Inr (concat (map f xs))"
  by (induction xs) simp_all

section \<open>The header word\<close>

lemma spead_header_nat:
  assumes "wf_bits n" "k < 2 ^ 16"
  shows "unat (spead_header n k) =
    0x5304 * 2 ^ 48 + ((8 - n div 8) * 2 ^ 40 + (n div 8 * 2 ^ 32 + k))"
proof -
  let ?a = "n div 8"
  have a: "0 < ?a" "?a < 8" using wf_bits_le [OF assms(1)] by auto
  have w: "unat (word_of_nat j :: 64 word) = j" if "j < 2 ^ 32" for j
    using that by (simp add: unat_of_nat)
  have s: "unat (push_bit m (word_of_nat j :: 64 word)) = j * 2 ^ m" if "j < 2 ^ 16" "m \<le> 48" for j m
  proof -
    have "j * 2 ^ m < 2 ^ 16 * 2 ^ m" using that(1) by simp
    also have "\<dots> \<le> 2 ^ 16 * 2 ^ 48" using that(2) by (intro mult_left_mono power_increasing) simp_all
    finally have "j * 2 ^ m < 2 ^ 64" by simp
    with that w [of j] show ?thesis by (subst unat_shift_left) simp_all
  qed
  have k: "unat (word_of_nat k :: 64 word) = k" using assms(2) by (intro w) simp
  have s32: "unat (push_bit 32 (word_of_nat ?a :: 64 word)) = ?a * 2 ^ 32"
    and s40: "unat (push_bit 40 (word_of_nat (8 - ?a) :: 64 word)) = (8 - ?a) * 2 ^ 40"
    and s48: "unat (push_bit 48 (word_of_nat 0x5304 :: 64 word)) = 0x5304 * 2 ^ 48"
    using a by (intro s; simp)+
  have 1: "unat (push_bit 32 (word_of_nat ?a) OR word_of_nat k :: 64 word) = ?a * 2 ^ 32 + k"
    using unat_or_disjoint [OF s32, of "word_of_nat k"] k assms(2) by simp
  have 2: "unat (push_bit 40 (word_of_nat (8 - ?a)) OR (push_bit 32 (word_of_nat ?a) OR word_of_nat k)
      :: 64 word) = (8 - ?a) * 2 ^ 40 + (?a * 2 ^ 32 + k)"
    using unat_or_disjoint [OF s40, of "push_bit 32 (word_of_nat ?a) OR word_of_nat k"] 1 a assms(2)
    by simp
  have "(8 - ?a) * 2 ^ 40 \<le> 7 * 2 ^ 40" using a by (intro mult_right_mono) simp_all
  then have 3: "(8 - ?a) * 2 ^ 40 + (?a * 2 ^ 32 + k) < 2 ^ 48" using a assms(2) by simp
  have "unat (push_bit 48 (word_of_nat 0x5304) OR (push_bit 40 (word_of_nat (8 - ?a)) OR
      (push_bit 32 (word_of_nat ?a) OR word_of_nat k)) :: 64 word) =
      0x5304 * 2 ^ 48 + ((8 - ?a) * 2 ^ 40 + (?a * 2 ^ 32 + k))"
    using unat_or_disjoint [OF s48, of "push_bit 40 (word_of_nat (8 - ?a)) OR
      (push_bit 32 (word_of_nat ?a) OR word_of_nat k)"] 2 3
    by simp
  then show ?thesis by (simp add: spead_header_def item_pointer_size_def or.assoc)
qed

lemma header_fields:
  fixes a b k :: nat
  assumes "a < 8" "b < 8" "k < 2 ^ 16" "h = 0x5304 * 2 ^ 48 + (b * 2 ^ 40 + (a * 2 ^ 32 + k))"
  shows "h div 2 ^ 48 mod 2 ^ 16 = 0x5304" "h div 2 ^ 40 mod 2 ^ 8 = b"
    "h div 2 ^ 32 mod 2 ^ 8 = a" "h div 2 ^ 0 mod 2 ^ 16 = k"
proof -
  have "h = (0x5304 * 2 ^ 8 + b) * 2 ^ 40 + (a * 2 ^ 32 + k)" using assms(4) by simp
  moreover have "a * 2 ^ 32 + k < 2 ^ 40" using assms by simp
  ultimately have "h div 2 ^ 40 = 0x5304 * 2 ^ 8 + b" by simp
  then show "h div 2 ^ 40 mod 2 ^ 8 = b" using assms(2) by (simp only: mod_mult_self3) simp
  have "h = ((0x5304 * 2 ^ 8 + b) * 2 ^ 8 + a) * 2 ^ 32 + k" using assms(4) by simp
  moreover have "k < 2 ^ 32" using assms by simp
  ultimately have "h div 2 ^ 32 = (0x5304 * 2 ^ 8 + b) * 2 ^ 8 + a" by simp
  then show "h div 2 ^ 32 mod 2 ^ 8 = a" using assms(1) by (simp only: mod_mult_self3) simp
  have "b * 2 ^ 40 + (a * 2 ^ 32 + k) < 2 ^ 48" using assms by simp
  then have "h div 2 ^ 48 = 0x5304" using assms(4) by simp
  then show "h div 2 ^ 48 mod 2 ^ 16 = 0x5304" by simp
  have "h = ((0x5304 * 2 ^ 8 + b) * 2 ^ 8 + a) * 2 ^ 16 * 2 ^ 16 + k" using assms(4) by simp
  then show "h div 2 ^ 0 mod 2 ^ 16 = k" using assms(3) by (simp only: power_0 div_by_1 mod_mult_self3) simp
qed

lemma decode_spead_header:
  assumes "wf_bits n" "k < 2 ^ 16"
  shows "decode_header (htobe64 (spead_header n k) @ rest) = Some (n, k)"
proof -
  let ?h = "spead_header n k" and ?a = "n div 8"
  have a: "0 < ?a" "?a < 8" "?a * 8 = n"
    using wf_bits_le [OF assms(1)] wf_bits_div [OF assms(1)] by auto
  note h = spead_header_nat [OF assms]
  have "8 - ?a < 8" using a(1) by simp
  then have "unat (extract_bits ?h 48 16) = 0x5304" "unat (extract_bits ?h 40 8) = 8 - ?a"
    "unat (extract_bits ?h 32 8) = ?a" "unat (extract_bits ?h 0 16) = k"
    unfolding extract_bits_nat by (rule header_fields [OF a(2) _ assms(2) h])+
  moreover from this(1) have "extract_bits ?h 48 16 = magic_version"
    by (simp add: magic_version_def word_unat_eq_iff)
  ultimately show ?thesis
    using a by (simp add: decode_header_def load_htobe64 item_pointer_size_def Let_def)
qed

section \<open>Decoding a framed packet\<close>

text \<open>A special item that occurs once determines the value reported.\<close>

lemma special_value_unique:
  assumes "j < k" "special_item d data ident j" "\<And>i. i < k \<Longrightarrow> special_item d data ident i \<Longrightarrow> i = j"
  shows "special_value d data ident k = get_immediate d (item_at data j)"
  using assms
proof (induction k)
  case (Suc k)
  show ?case
  proof (cases "k = j")
    case False
    then have "\<not> special_item d data ident k" using Suc.prems(3) [of k] by auto
    moreover have "special_value d data ident k = get_immediate d (item_at data j)"
    proof (rule Suc.IH)
      show "j < k" using Suc.prems(1) False by simp
      show "special_item d data ident j" by (rule Suc.prems(2))
      show "i = j" if "i < k" "special_item d data ident i" for i
        by (rule Suc.prems(3)) (use that in simp_all)
    qed
    ultimately show ?thesis by simp
  qed (use Suc.prems(2) in simp)
qed simp

lemma first_regular_item_prefix:
  assumes "\<And>i. i < m \<Longrightarrow> is_special d data i" "\<And>i. m \<le> i \<Longrightarrow> i < k \<Longrightarrow> \<not> is_special d data i"
    and "k \<le> fr"
  shows "first_regular_item d data fr k = (if k \<le> m then fr else m)"
  using assms
proof (induction k)
  case (Suc k)
  then have "first_regular_item d data fr k = (if k \<le> m then fr else m)" by simp
  moreover have "is_special d data k \<longleftrightarrow> k < m" using Suc.prems(1,2) [of k] by linarith
  ultimately show ?case using Suc.prems(3) by simp
qed simp

text \<open>The pointers that are not one of the four specials.\<close>

definition plain_pointer :: "nat \<Rightarrow> item_pointer_t \<Rightarrow> bool" where
  "plain_pointer n w \<longleftrightarrow> \<not> (is_immediate (make_pointer_decoder n) w \<and>
     get_id (make_pointer_decoder n) w \<in> set packet_special_ids)"

lemma decode_packet_bytes:
  assumes n: "wf_bits n" and few: "length ws + 4 < 2 ^ 16"
    and enc: "encodable n HEAP_CNT_ID cnt" "encodable n HEAP_LENGTH_ID hl"
      "encodable n PAYLOAD_OFFSET_ID off" "encodable n PAYLOAD_LENGTH_ID (int (length payload))"
    and plain: "\<And>w. w \<in> set ws \<Longrightarrow> plain_pointer n w"
    and fits: "off + int (length payload) \<le> hl"
  shows "decode_packet (packet_bytes n cnt hl off ws payload @ rest) =
    Some (\<lparr>ph_heap_address_bits = n, ph_n_items = length ws, ph_heap_cnt = cnt, ph_heap_length = hl,
           ph_payload_offset = off, ph_payload_length = int (length payload),
           ph_pointers = pointer_bytes ws @ payload @ rest, ph_payload = payload @ rest\<rparr>,
          length (packet_bytes n cnt hl off ws payload))"
proof -
  define d where "d = make_pointer_decoder n"
  define sp where "sp = special_pointers n cnt hl off (int (length payload))"
  define data where "data = packet_bytes n cnt hl off ws payload @ rest"
  let ?k = "4 + length ws"
  have data: "data = htobe64 (spead_header n ?k) @ pointer_bytes (sp @ ws) @ payload @ rest"
    by (simp add: data_def packet_bytes_def sp_def)
  have sp: "length sp = 4" by (simp add: sp_def special_pointers_def)
  have at: "item_at data i = (sp @ ws) ! i" if "i < ?k" for i
    unfolding data by (rule item_at_framed) (use that sp in simp)
  have dec: "decode_header data = Some (n, ?k)"
    unfolding data by (rule decode_spead_header [OF n]) (use few in simp)
  have spec: "is_immediate d (sp ! i) \<and> get_id d (sp ! i) = int (Suc i)" if "i < 4" for i
    using that enc n
    by (auto simp: sp_def special_pointers_def d_def codec_simps less_Suc_eq numeral_eq_Suc item_id_defs)
  have vals: "get_immediate d (sp ! 0) = cnt" "get_immediate d (sp ! 1) = hl"
    "get_immediate d (sp ! 2) = off" "get_immediate d (sp ! 3) = int (length payload)"
    using enc n by (simp_all add: sp_def special_pointers_def d_def codec_simps get_immediate_def)
  have item: "special_item d data ident i \<longleftrightarrow> i < 4 \<and> ident = int (Suc i)"
    if "i < ?k" "ident \<in> set packet_special_ids" for i ident
  proof (cases "i < 4")
    case True
    then show ?thesis using at [OF that(1)] spec [OF True] sp
      by (auto simp: special_item_def nth_append)
  next
    case False
    then have "(sp @ ws) ! i \<in> set ws" using that sp by (simp add: nth_append)
    from plain [OF this] show ?thesis using at [OF that(1)] False that(2)
      by (auto simp: special_item_def plain_pointer_def d_def)
  qed
  have ident: "int (Suc j) \<in> set packet_special_ids" if "j < 4" for j
    using that by (auto simp: packet_special_ids_def item_id_defs)
  have val: "special_value d data (int (Suc j)) ?k = get_immediate d (sp ! j)" if "j < 4" for j
  proof -
    have "special_value d data (int (Suc j)) ?k = get_immediate d (item_at data j)"
      by (rule special_value_unique) (use that item [OF _ ident [OF that]] in auto)
    then show ?thesis using at [of j] that sp by (simp add: nth_append)
  qed
  have "is_special d data i" if "i < 4" for i
    unfolding is_special_def using item [OF _ ident [OF that], of i] that ident [OF that]
    by (intro bexI [of _ "int (Suc i)"]) auto
  moreover have "\<not> is_special d data i" if "4 \<le> i" "i < ?k" for i
    unfolding is_special_def using item [of i] that by auto
  ultimately have fr: "first_regular_item d data ?k ?k = 4"
    by (subst first_regular_item_prefix [where m = 4]) auto
  have v: "special_value d data HEAP_CNT_ID ?k = cnt" "special_value d data HEAP_LENGTH_ID ?k = hl"
    "special_value d data PAYLOAD_OFFSET_ID ?k = off"
    "special_value d data PAYLOAD_LENGTH_ID ?k = int (length payload)"
    using val [of 0] val [of 1] val [of 2] val [of 3] vals by (simp_all add: item_id_defs)
  have dr: "drop (8 + 4 * 8) data = pointer_bytes ws @ payload @ rest"
    "drop (8 + ?k * 8) data = payload @ rest"
    using sp by (simp_all add: data)
  have len: "length data = 8 + ?k * 8 + length payload + length rest"
    "length (packet_bytes n cnt hl off ws payload) = 8 + ?k * 8 + length payload"
    using sp by (simp_all add: data packet_bytes_def sp_def [symmetric])
  have "0 \<le> cnt" "0 \<le> off" using enc by (simp_all add: encodable_def)
  then show ?thesis
    using decode_packet_eval [of data n ?k, OF _ dec] len fits v fr dr
    by (simp add: Let_def d_def [symmetric] data_def [symmetric])
qed

end
