(* ===== verification/SendHeap.thy ===== *)
theory SendHeap
  imports Framing
begin

text \<open>
  The heap to be sent: \<^verbatim>\<open>send_heap.h\<close> and \<^verbatim>\<open>send_heap.cpp\<close>.  An item refers to memory that
  belongs to the caller or to the heap's storage; here it holds the bytes it refers to.
\<close>

section \<open>Items and heaps\<close>

text \<open>
  \<^verbatim>\<open>struct item\<close>.  Of the union, \<open>si_immediate\<close> is used if \<open>si_is_inline\<close> holds and
  \<open>si_buffer\<close> otherwise.
\<close>

record send_item =
  si_id :: s_item_pointer_t
  si_is_inline :: bool
  si_allow_immediate :: bool
  si_buffer :: "byte list"
  si_immediate :: s_item_pointer_t

definition buffer_item :: "s_item_pointer_t \<Rightarrow> byte list \<Rightarrow> bool \<Rightarrow> send_item" where
  "buffer_item i bs allow_immediate =
     \<lparr>si_id = i, si_is_inline = False, si_allow_immediate = allow_immediate,
      si_buffer = bs, si_immediate = 0\<rparr>"

definition immediate_item :: "s_item_pointer_t \<Rightarrow> s_item_pointer_t \<Rightarrow> send_item" where
  "immediate_item i immediate =
     \<lparr>si_id = i, si_is_inline = True, si_allow_immediate = True,
      si_buffer = [], si_immediate = immediate\<rparr>"

record send_heap =
  sh_flavour :: flavour
  sh_repeat_pointers :: bool
  sh_items :: "send_item list"
  sh_storage :: "byte list list"

definition make_send_heap :: "flavour \<Rightarrow> send_heap" where
  "make_send_heap fl = \<lparr>sh_flavour = fl, sh_repeat_pointers = False, sh_items = [], sh_storage = []\<rparr>"

text \<open>\<^verbatim>\<open>add_item\<close> returns the handle of the new item.\<close>

definition add_item :: "send_item \<Rightarrow> send_heap \<Rightarrow> nat \<times> send_heap" where
  "add_item it h = (length (sh_items h), h\<lparr>sh_items := sh_items h @ [it]\<rparr>)"

definition get_item :: "nat \<Rightarrow> send_heap \<Rightarrow> fault + send_item" where
  "get_item handle h =
     (if handle < length (sh_items h) then Inr (sh_items h ! handle) else Inl Out_of_bounds)"

text \<open>Assignment through the reference that \<^verbatim>\<open>get_item\<close> returns.\<close>

definition set_item :: "nat \<Rightarrow> send_item \<Rightarrow> send_heap \<Rightarrow> fault + send_heap" where
  "set_item handle it h =
     (if handle < length (sh_items h) then Inr (h\<lparr>sh_items := (sh_items h)[handle := it]\<rparr>)
      else Inl Out_of_bounds)"

definition add_storage :: "byte list \<Rightarrow> send_heap \<Rightarrow> send_heap" where
  "add_storage p h = h\<lparr>sh_storage := sh_storage h @ [p]\<rparr>"

definition add_start :: "send_heap \<Rightarrow> send_heap" where
  "add_start h = snd (add_item (immediate_item STREAM_CTRL_ID (ctrl_value CTRL_STREAM_START)) h)"

definition add_end :: "send_heap \<Rightarrow> send_heap" where
  "add_end h = snd (add_item (immediate_item STREAM_CTRL_ID (ctrl_value CTRL_STREAM_STOP)) h)"

definition set_repeat_pointers :: "bool \<Rightarrow> send_heap \<Rightarrow> send_heap" where
  "set_repeat_pointers rep h = h\<lparr>sh_repeat_pointers := rep\<rparr>"

definition get_repeat_pointers :: "send_heap \<Rightarrow> bool" where
  "get_repeat_pointers h = sh_repeat_pointers h"

section \<open>Descriptors\<close>

text \<open>The last \<open>len\<close> bytes of the big-endian value.\<close>

definition store_bytes_be :: "int \<Rightarrow> item_pointer_t \<Rightarrow> fault + byte list" where
  "store_bytes_be len value =
     (if \<not> (0 \<le> len \<and> len \<le> int item_pointer_size) then Inl Assertion_failed
      else if \<not> (len = int item_pointer_size \<or> value < push_bit (8 * nat len) 1) then Inl Assertion_failed
      else Inr (drop (item_pointer_size - nat len) (htobe64 value)))"

definition field_size :: "flavour \<Rightarrow> nat" where
  "field_size fl =
     (if fl_bug_compat fl AND BUG_COMPAT_DESCRIPTOR_WIDTHS \<noteq> 0 then 4
      else item_pointer_size + 1 - fl_heap_address_bits fl div 8)"

definition shape_size :: "flavour \<Rightarrow> nat" where
  "shape_size fl =
     (if fl_bug_compat fl AND BUG_COMPAT_DESCRIPTOR_WIDTHS \<noteq> 0 then 8
      else 1 + fl_heap_address_bits fl div 8)"

definition variable_tag :: "flavour \<Rightarrow> byte" where
  "variable_tag fl = (if fl_bug_compat fl AND BUG_COMPAT_SHAPE_BIT_1 \<noteq> 0 then 2 else 1)"

text \<open>The bodies of the two loops over the format and the shape.\<close>

definition put_format_field :: "flavour \<Rightarrow> byte \<times> s_item_pointer_t \<Rightarrow> fault + byte list" where
  "put_format_field fl = (\<lambda>(type, bits).
     bind_result (store_bytes_be (int (field_size fl) - 1) (word_of_int bits)) (\<lambda>bs. Inr (type # bs)))"

definition put_shape_field :: "flavour \<Rightarrow> s_item_pointer_t \<Rightarrow> fault + byte list" where
  "put_shape_field fl dim =
     bind_result (store_bytes_be (int (shape_size fl) - 1) (word_of_int (if dim < 0 then 0 else dim))) (\<lambda>bs.
     Inr ((if dim < 0 then variable_tag fl else 0) # bs))"

definition encode_descriptor :: "descriptor \<Rightarrow> flavour \<Rightarrow> fault + byte list" where
  "encode_descriptor d fl =
     (let n = fl_heap_address_bits fl in
      if d_id d \<le> 0 \<or> d_id d \<ge> 2 ^ (8 * item_pointer_size - 1 - n)
        then Inl (Exception ''Item ID out of range'')
      else
        (let have_numpy = (d_numpy_header d \<noteq> []);
             n_items = (if have_numpy then 10 else 9);
             payload_size = length (d_name d) + length (d_description d)
               + length (d_format d) * field_size fl + length (d_shape d) * shape_size fl
               + length (d_numpy_header d);
             total_size = payload_size + n_items * item_pointer_size + 8;
             offset1 = length (d_name d);
             offset2 = offset1 + length (d_description d);
             offset3 = offset2 + length (d_format d) * field_size fl;
             offset4 = offset3 + length (d_shape d) * shape_size fl;
             offset5 = (if have_numpy then offset4 + length (d_numpy_header d) else offset4)
         in bind_result (put_all (
                [put_immediate n HEAP_CNT_ID 1,
                 put_immediate n HEAP_LENGTH_ID (int payload_size),
                 put_immediate n PAYLOAD_OFFSET_ID 0,
                 put_immediate n PAYLOAD_LENGTH_ID (int payload_size),
                 put_immediate n DESCRIPTOR_ID_ID (d_id d),
                 put_address n DESCRIPTOR_NAME_ID 0,
                 put_address n DESCRIPTOR_DESCRIPTION_ID (int offset1),
                 put_address n DESCRIPTOR_FORMAT_ID (int offset2),
                 put_address n DESCRIPTOR_SHAPE_ID (int offset3)]
                @ (if have_numpy then [put_address n DESCRIPTOR_DTYPE_ID (int offset4)] else [])))
              (\<lambda>pointers.
            if offset5 \<noteq> payload_size then Inl Assertion_failed
            else
              bind_result (put_all (map (put_format_field fl) (d_format d))) (\<lambda>format.
              bind_result (put_all (map (put_shape_field fl) (d_shape d))) (\<lambda>shape.
              let out = htobe64 (spead_header n n_items) @ pointers
                    @ d_name d @ d_description d @ format @ shape
                    @ (if have_numpy then d_numpy_header d else [])
              in if length out = total_size then Inr out else Inl Assertion_failed)))))"

definition add_descriptor :: "descriptor \<Rightarrow> send_heap \<Rightarrow> fault + send_heap" where
  "add_descriptor d h =
     bind_result (encode_descriptor d (sh_flavour h)) (\<lambda>blob.
     Inr (add_storage blob (snd (add_item (buffer_item DESCRIPTOR_ID blob False) h))))"

section \<open>Which descriptors can be encoded\<close>

text \<open>Every number fits its field, and the payload is addressable.\<close>

definition descriptor_payload_size :: "flavour \<Rightarrow> descriptor \<Rightarrow> nat" where
  "descriptor_payload_size fl d = length (d_name d) + length (d_description d)
     + length (d_format d) * field_size fl + length (d_shape d) * shape_size fl
     + length (d_numpy_header d)"

definition descriptor_fits :: "flavour \<Rightarrow> descriptor \<Rightarrow> bool" where
  "descriptor_fits fl d \<longleftrightarrow>
     0 < d_id d \<and> d_id d < 2 ^ min (63 - fl_heap_address_bits fl) (fl_heap_address_bits fl) \<and>
     descriptor_payload_size fl d < 2 ^ fl_heap_address_bits fl \<and>
     (\<forall>f \<in> set (d_format d). 0 \<le> snd f \<and> snd f < 2 ^ (8 * (field_size fl - 1))) \<and>
     (\<forall>dim \<in> set (d_shape d). dim < 2 ^ (8 * (shape_size fl - 1)))"

end
