(* ===== verification/SendPacket.thy ===== *)
theory SendPacket
  imports SendHeap
begin

text \<open>
  The packet generator: \<^verbatim>\<open>send_packet.h\<close> and \<^verbatim>\<open>send_packet.cpp\<close>.  It cuts a heap into packets,
  spreading the item pointers over as many packets as needed and making sure that every
  packet carries payload.
\<close>

section \<open>Definitions\<close>

text \<open>
  A packet is its sequence of buffers; the first one is the generated header.  Sizes,
  offsets and addresses are natural numbers, the assertions of the encoder check that they
  fit the address field.
\<close>

record send_packet =
  sp_buffers :: "byte list list"

definition prefix_size :: nat where
  "prefix_size = 8 + 4 * item_pointer_size"

record packet_generator =
  pg_h :: send_heap
  pg_cnt :: item_pointer_t
  pg_max_packet_size :: nat
  pg_max_item_pointers_per_packet :: nat
  pg_next_item_pointer :: nat
  pg_next_item :: nat
  pg_next_item_offset :: nat
  pg_next_address :: nat
  pg_payload_offset :: nat
  pg_payload_size :: nat
  pg_need_null_item :: bool

definition use_immediate :: "send_item \<Rightarrow> nat \<Rightarrow> bool" where
  "use_immediate it max_immediate_size \<longleftrightarrow>
     si_is_inline it \<or> (si_allow_immediate it \<and> length (si_buffer it) \<le> max_immediate_size)"

definition max_immediate_size :: "send_heap \<Rightarrow> nat" where
  "max_immediate_size h = fl_heap_address_bits (sh_flavour h) div 8"

text \<open>
  The constructor.  \<^verbatim>\<open>max_packet_size &= ~7\<close> rounds the parameter, which hides the member of
  the same name: the member keeps the value it was given.
\<close>

definition make_packet_generator :: "send_heap \<Rightarrow> item_pointer_t \<Rightarrow> nat \<Rightarrow> fault + packet_generator" where
  "make_packet_generator h cnt max_packet_size =
     (let rounded = max_packet_size - max_packet_size mod 8 in
      if rounded < prefix_size + 2 * item_pointer_size
        then Inl (Exception ''packet size is too small'')
      else
        (let payload_size = sum_list (map (\<lambda>it. length (si_buffer it))
               (filter (\<lambda>it. \<not> use_immediate it (max_immediate_size h)) (sh_items h)));
             max_item_pointers_per_packet =
               (rounded - (prefix_size + item_pointer_size)) div item_pointer_size;
             item_packets = length (sh_items h) div max_item_pointers_per_packet + 1
         in if sh_repeat_pointers h \<and> item_packets > 1
              then Inl (Exception ''packet size is too small to repeat item pointers'')
            else
              (let min_payload_size = (item_packets - 1) * item_pointer_size + 1;
                   short = (payload_size < min_payload_size)
               in Inr \<lparr>pg_h = h, pg_cnt = cnt, pg_max_packet_size = max_packet_size,
                       pg_max_item_pointers_per_packet = max_item_pointers_per_packet,
                       pg_next_item_pointer = 0, pg_next_item = 0, pg_next_item_offset = 0,
                       pg_next_address = 0, pg_payload_offset = 0,
                       pg_payload_size = (if short then min_payload_size else payload_size),
                       pg_need_null_item = short\<rparr>)))"

definition has_next_packet :: "packet_generator \<Rightarrow> bool" where
  "has_next_packet g \<longleftrightarrow> pg_payload_offset g < pg_payload_size g"

text \<open>
  The body of the item pointer loop: the bytes of the pointer numbered \<open>i\<close> and the new
  \<^verbatim>\<open>next_address\<close>.
\<close>

definition put_item_pointer :: "packet_generator \<Rightarrow> nat \<Rightarrow> nat \<Rightarrow> fault + (byte list \<times> nat)" where
  "put_item_pointer g i next_address =
     (let h = pg_h g; n = fl_heap_address_bits (sh_flavour h) in
      if i = length (sh_items h) then
        (if pg_need_null_item g
         then bind_result (put_address n NULL_ID (int next_address)) (\<lambda>ip. Inr (ip, next_address))
         else Inl Assertion_failed)
      else if i < length (sh_items h) then
        (let it = sh_items h ! i in
         if si_is_inline it then
           bind_result (put_immediate n (si_id it) (si_immediate it)) (\<lambda>ip. Inr (ip, next_address))
         else if si_allow_immediate it \<and> length (si_buffer it) \<le> max_immediate_size h then
           bind_result (put_immediate n (si_id it) 0) (\<lambda>ip.
           bind_result (mem_write ip (item_pointer_size - length (si_buffer it)) (si_buffer it)) (\<lambda>ip'.
           Inr (ip', next_address)))
         else
           bind_result (put_address n (si_id it) (int next_address)) (\<lambda>ip.
           Inr (ip, next_address + length (si_buffer it))))
      else Inl Out_of_bounds)"

fun put_item_pointers :: "packet_generator \<Rightarrow> nat \<Rightarrow> nat \<Rightarrow> nat \<Rightarrow> fault + (byte list \<times> nat)" where
  "put_item_pointers g 0 i next_address = Inr ([], next_address)"
| "put_item_pointers g (Suc k) i next_address =
     bind_result (put_item_pointer g i next_address) (\<lambda>(ip, a).
     bind_result (put_item_pointers g k (Suc i) a) (\<lambda>(ips, a').
     Inr (ip @ ips, a')))"

text \<open>
  The payload loop: the buffers appended for \<open>len\<close> bytes of payload, starting at
  \<open>offset\<close> in item number \<open>i\<close>, and where the next packet continues.
\<close>

function payload_buffers :: "packet_generator \<Rightarrow> nat \<Rightarrow> nat \<Rightarrow> nat \<Rightarrow> fault + (byte list list \<times> nat \<times> nat)" where
  "payload_buffers g i offset len =
     (if len = 0 then Inr ([], i, offset)
      else if i = length (sh_items (pg_h g)) then
        (if pg_need_null_item g \<and> len \<le> 8 then Inr ([replicate len 0], i, offset)
         else Inl Assertion_failed)
      else if i < length (sh_items (pg_h g)) then
        (let it = sh_items (pg_h g) ! i in
         if use_immediate it (max_immediate_size (pg_h g)) then payload_buffers g (Suc i) 0 len
         else if length (si_buffer it) < offset then Inl Out_of_bounds
         else
           (let send_bytes = min (length (si_buffer it) - offset) len;
                offset' = offset + send_bytes
            in bind_result
                 (if offset' = length (si_buffer it) then payload_buffers g (Suc i) 0 (len - send_bytes)
                  else payload_buffers g i offset' (len - send_bytes)) (\<lambda>(bufs, i', o').
               Inr (take send_bytes (drop offset (si_buffer it)) # bufs, i', o'))))
      else Inl Out_of_bounds)"
  by pat_completeness auto
termination
  by (relation "measure (\<lambda>(g, i, offset, len). length (sh_items (pg_h g)) - i + len)") auto

declare payload_buffers.simps [simp del]

definition next_packet :: "packet_generator \<Rightarrow> fault + (send_packet \<times> packet_generator)" where
  "next_packet g =
     (let h = pg_h g;
          n = fl_heap_address_bits (sh_flavour h);
          next_item_pointer = (if sh_repeat_pointers h then 0 else pg_next_item_pointer g);
          next_address = (if sh_repeat_pointers h then 0 else pg_next_address g);
          g1 = g\<lparr>pg_next_item_pointer := next_item_pointer, pg_next_address := next_address\<rparr>
      in if pg_payload_offset g < pg_payload_size g then
           (let n_item_pointers = min (pg_max_item_pointers_per_packet g)
                  (length (sh_items h) + of_bool (pg_need_null_item g) - next_item_pointer);
                packet_payload_length = min (pg_payload_size g - pg_payload_offset g)
                  (pg_max_packet_size g - n_item_pointers * item_pointer_size - prefix_size)
            in bind_result (put_all
                  [put_immediate n HEAP_CNT_ID (sint (pg_cnt g)),
                   put_immediate n HEAP_LENGTH_ID (int (pg_payload_size g)),
                   put_immediate n PAYLOAD_OFFSET_ID (int (pg_payload_offset g)),
                   put_immediate n PAYLOAD_LENGTH_ID (int packet_payload_length)]) (\<lambda>specials.
               bind_result (put_item_pointers g n_item_pointers next_item_pointer next_address)
                 (\<lambda>(pointers, next_address').
               bind_result (payload_buffers g (pg_next_item g) (pg_next_item_offset g) packet_payload_length)
                 (\<lambda>(bufs, i', offset').
               Inr (\<lparr>sp_buffers =
                      (htobe64 (spead_header n (n_item_pointers + 4)) @ specials @ pointers) # bufs\<rparr>,
                    g1\<lparr>pg_next_item_pointer := next_item_pointer + n_item_pointers,
                       pg_next_address := next_address',
                       pg_payload_offset := pg_payload_offset g + packet_payload_length,
                       pg_next_item := i', pg_next_item_offset := offset'\<rparr>)))))
         else Inr (\<lparr>sp_buffers = []\<rparr>, g1))"

text \<open>
  How the streams use the generator: packets are taken while there is a next one.  Every
  packet carries payload, so the payload size is fuel enough.
\<close>

fun all_packets :: "nat \<Rightarrow> packet_generator \<Rightarrow> fault + send_packet list" where
  "all_packets 0 g = (if has_next_packet g then Inl Loop_overrun else Inr [])"
| "all_packets (Suc fuel) g =
     (if has_next_packet g then
        bind_result (next_packet g) (\<lambda>(p, g').
        bind_result (all_packets fuel g') (\<lambda>ps. Inr (p # ps)))
      else Inr [])"

end
