(* ===== verification/Layout.thy ===== *)
theory Layout
  imports RecvHeap Framing "HOL-Library.Multiset"
begin

text \<open>
  The wire layout of a heap: item pointers and payload of a list of items, as the sending
  side produces them, and the proof that freezing a heap received with that layout gives
  the items back.  Both the descriptors and the packets of a heap follow this layout.
\<close>

section \<open>Reference\<close>

text \<open>
  Items are triples of identifier, mode and value, as on the receiving side; the value of
  an immediate item has the width of the address field.
\<close>

fun layout_pointers :: "nat \<Rightarrow> nat \<Rightarrow> item_value list \<Rightarrow> item_pointer_t list" where
  "layout_pointers n a [] = []"
| "layout_pointers n a ((i, imm, bs) # vs) =
     (if imm then encode_immediate n i (int (be_nat bs)) # layout_pointers n a vs
      else encode_address n i (int a) # layout_pointers n (a + length bs) vs)"

definition payload_of :: "item_value \<Rightarrow> byte list" where
  "payload_of v = (if fst (snd v) then [] else snd (snd v))"

definition layout_payload :: "item_value list \<Rightarrow> byte list" where
  "layout_payload vs = concat (map payload_of vs)"

definition item_fits :: "nat \<Rightarrow> item_value \<Rightarrow> bool" where
  "item_fits n v \<longleftrightarrow> 0 \<le> fst v \<and> fst v < 2 ^ (63 - n) \<and>
     (fst (snd v) \<longrightarrow> length (snd (snd v)) = n div 8)"

definition layout_ok :: "nat \<Rightarrow> item_value list \<Rightarrow> bool" where
  "layout_ok n vs \<longleftrightarrow> (\<forall>v \<in> set vs. item_fits n v) \<and> length (layout_payload vs) < 2 ^ n"

abbreviation immediates :: "item_value list \<Rightarrow> item_value list" where
  "immediates \<equiv> filter (\<lambda>v. fst (snd v))"

abbreviation addressed :: "item_value list \<Rightarrow> item_value list" where
  "addressed \<equiv> filter (\<lambda>v. \<not> fst (snd v))"

text \<open>The items a receiver reports: padding and empty addressed items are left out.\<close>

definition reported :: "item_value \<Rightarrow> bool" where
  "reported v \<longleftrightarrow> fst v \<noteq> 0 \<and> (fst (snd v) \<or> snd (snd v) \<noteq> [])"

lemma reported_simp [simp]: "reported (i, imm, bs) \<longleftrightarrow> i \<noteq> 0 \<and> (imm \<or> bs \<noteq> [])"
  by (simp add: reported_def)

section \<open>Immediate values\<close>

lemma drop_be_bytes: "j \<le> k \<Longrightarrow> drop (k - j) (be_bytes k v) = be_bytes j v"
proof (induction k arbitrary: j v)
  case (Suc k)
  then show ?case by (cases j) (simp_all add: Suc_diff_le)
qed simp

lemma be_nat_item:
  assumes "wf_bits n" "length bs = n div 8"
  shows "be_nat bs < 2 ^ n"
proof -
  have "(256 :: nat) ^ (n div 8) = 2 ^ (8 * (n div 8))" by (simp add: power_mult)
  then show ?thesis using be_nat_less [of bs] assms wf_bits_div [OF assms(1)] by simp
qed

lemma fits_encodable:
  assumes "wf_bits n" "item_fits n (i, True, bs)"
  shows "encodable n i (int (be_nat bs))"
proof -
  have "int (be_nat bs) < int (2 ^ n)"
    using assms be_nat_item by (simp only: of_nat_less_iff item_fits_def) simp
  then show ?thesis using assms(2) by (simp add: encodable_def item_fits_def item_pointer_size_def)
qed

lemma address_encodable:
  assumes "item_fits n (i, imm, bs)" "a < 2 ^ n"
  shows "encodable n i (int a)"
proof -
  have "int a < int (2 ^ n)" using assms(2) by (simp only: of_nat_less_iff)
  then show ?thesis using assms(1) by (simp add: encodable_def item_fits_def item_pointer_size_def)
qed

lemma immediate_bytes_encode:
  assumes "wf_bits n" "item_fits n (i, True, bs)"
  shows "immediate_bytes (make_pointer_decoder n) (encode_immediate n i (int (be_nat bs))) = bs"
proof -
  let ?p = "encode_immediate n i (int (be_nat bs))"
  have len: "length bs = n div 8" "n div 8 \<le> 8"
    using assms wf_bits_le [OF assms(1)] by (auto simp: item_fits_def)
  have p: "unat ?p = 2 ^ 63 + nat i * 2 ^ n + be_nat bs"
    using encode_immediate_nat [OF assms(1) fits_encodable [OF assms]] by simp
  have "(2 :: nat) ^ 63 = 2 ^ (63 - n) * 2 ^ n" using wf_bits_le [OF assms(1)] by (simp flip: power_add)
  then have "unat ?p = (2 ^ (63 - n) + nat i) * 2 ^ n + be_nat bs"
    by (simp only: p add_mult_distrib)
  then have mod: "unat ?p mod 2 ^ n = be_nat bs"
    using be_nat_item [OF assms(1) len(1)] by simp
  have w: "(256 :: nat) ^ (n div 8) = 2 ^ n"
  proof -
    have "(256 :: nat) ^ (n div 8) = 2 ^ (8 * (n div 8))" by (simp add: power_mult)
    then show ?thesis using wf_bits_div [OF assms(1)] by simp
  qed
  have "immediate_bytes (make_pointer_decoder n) ?p = be_bytes (n div 8) (unat ?p)"
    using drop_be_bytes [OF len(2)] by (simp add: immediate_bytes_def item_pointer_size_def htobe64_def)
  also have "\<dots> = be_bytes (n div 8) (unat ?p mod 256 ^ (n div 8))" by (rule be_bytes_mod [symmetric])
  also have "\<dots> = bs" using mod w be_bytes_be_nat [of bs] len(1) by simp
  finally show ?thesis .
qed

section \<open>Sorting\<close>

text \<open>Sorting puts the addressed pointers first, without mixing the two groups.\<close>

lemma sort_key_split:
  assumes "\<And>x y. x \<in> set xs \<Longrightarrow> y \<in> set xs \<Longrightarrow> P x \<Longrightarrow> \<not> P y \<Longrightarrow> f x < f y"
  shows "sort_key f xs = sort_key f (filter P xs) @ sort_key f (filter (\<lambda>x. \<not> P x) xs)" (is "_ = ?ys")
proof (rule properties_for_sort_key)
  show "mset ?ys = mset xs" by (simp flip: multiset_partition)
  show "sorted (map f ?ys)" using assms by (auto simp: sorted_append intro: less_imp_le)
  fix k
  assume "k \<in> set ?ys"
  then have k: "k \<in> set xs" by auto
  have "filter (\<lambda>x. f k = f x) (filter P xs) = (if P k then filter (\<lambda>x. f k = f x) xs else [])"
    "filter (\<lambda>x. f k = f x) (filter (\<lambda>x. \<not> P x) xs) = (if P k then [] else filter (\<lambda>x. f k = f x) xs)"
    using assms k by (auto simp: filter_empty_conv intro!: filter_cong) fastforce+
  moreover have "filter (\<lambda>x. f k = f x) (sort_key f zs) = filter (\<lambda>x. f k = f x) zs" for zs
    using sort_key_stable [of f "f k" zs] by (simp add: eq_commute)
  ultimately show "filter (\<lambda>x. f k = f x) ?ys = filter (\<lambda>x. f k = f x) xs"
    by (simp del: filter_filter)
qed

lemma sorted_pointers_split:
  assumes "wf_bits n" "d = make_pointer_decoder n"
  shows "sorted_pointers d ps = sorted_pointers d (filter (\<lambda>p. \<not> is_immediate d p) ps)
    @ sorted_pointers d (filter (is_immediate d) ps)"
proof -
  have n: "n < 63" using wf_bits_le [OF assms(1)] by simp
  have "p AND sort_mask d < q AND sort_mask d" if "\<not> is_immediate d p" "is_immediate d q" for p q
  proof -
    have "unat p mod 2 ^ n < 2 ^ n" by simp
    also have "\<dots> \<le> (2 :: nat) ^ 63" using n by (intro power_increasing) simp_all
    finally have "unat (p AND sort_mask d) < unat (q AND sort_mask d)"
      using that by (simp add: assms(2) sort_key_nat [OF n, of _ "make_pointer_decoder n"] del: power_Suc)
    then show ?thesis by (simp add: word_less_nat_alt)
  qed
  then show ?thesis
    unfolding sorted_pointers_def
    by (subst sort_key_split [where P = "\<lambda>p. \<not> is_immediate d p"]) auto
qed

lemma address_key:
  assumes "wf_bits n" "encodable n i (int a)"
  shows "unat (encode_address n i (int a) AND sort_mask (make_pointer_decoder n)) = a"
proof -
  have n: "n < 63" "n < 64" using wf_bits_le [OF assms(1)] by simp_all
  have "get_address (make_pointer_decoder n) (encode_address n i (int a)) = int a"
    using assms by (simp add: codec_simps)
  then have "unat (encode_address n i (int a)) mod 2 ^ n = a" by (simp add: get_address_nat [OF n(2)])
  moreover have "\<not> is_immediate (make_pointer_decoder n) (encode_address n i (int a))"
    using assms by (simp add: codec_simps)
  ultimately show ?thesis
    by (simp add: sort_key_nat [OF n(1), of _ "make_pointer_decoder n"])
qed

section \<open>Layouts\<close>

lemma layout_payload_simps [simp]:
  "layout_payload [] = []"
  "layout_payload (v # vs) = payload_of v @ layout_payload vs"
  "layout_payload (us @ vs) = layout_payload us @ layout_payload vs"
  by (simp_all add: layout_payload_def)

lemma layout_payload_addressed [simp]: "layout_payload (addressed vs) = layout_payload vs"
  by (induction vs) (auto simp: payload_of_def)

lemma layout_pointers_append [simp]:
  "layout_pointers n a (us @ vs) =
     layout_pointers n a us @ layout_pointers n (a + length (layout_payload us)) vs"
  by (induction n a us rule: layout_pointers.induct) (auto simp: payload_of_def add.assoc)

lemma length_layout_pointers [simp]: "length (layout_pointers n a vs) = length vs"
  by (induction n a vs rule: layout_pointers.induct) auto

text \<open>What is in a layout: the two kinds of pointers, separated.\<close>

lemma layout_pointers_filter:
  assumes "wf_bits n" "\<forall>v \<in> set vs. item_fits n v" "a + length (layout_payload vs) < 2 ^ n"
  shows "filter (is_immediate (make_pointer_decoder n)) (layout_pointers n a vs) =
      map (\<lambda>(i, _, bs). encode_immediate n i (int (be_nat bs))) (immediates vs)"
    and "filter (\<lambda>p. \<not> is_immediate (make_pointer_decoder n) p) (layout_pointers n a vs) =
      layout_pointers n a (addressed vs)"
proof -
  have "filter (is_immediate (make_pointer_decoder n)) (layout_pointers n a vs) =
      map (\<lambda>(i, _, bs). encode_immediate n i (int (be_nat bs))) (immediates vs) \<and>
    filter (\<lambda>p. \<not> is_immediate (make_pointer_decoder n) p) (layout_pointers n a vs) =
      layout_pointers n a (addressed vs)"
    using assms(2,3)
  proof (induction vs arbitrary: a)
    case (Cons v vs)
    obtain i imm bs where v: "v = (i, imm, bs)" by (cases v)
    have fits: "item_fits n (i, imm, bs)" "\<forall>v \<in> set vs. item_fits n v"
      using Cons.prems(1) by (simp_all add: v)
    show ?case
    proof (cases imm)
      case True
      then have "encodable n i (int (be_nat bs))" using fits fits_encodable [OF assms(1)] by simp
      moreover note Cons.IH [OF fits(2), of a]
      ultimately show ?thesis
        using True Cons.prems(2) by (simp add: v payload_of_def codec_simps assms(1))
    next
      case False
      then have "encodable n i (int a)"
        using address_encodable [OF fits(1)] Cons.prems(2) by simp
      moreover note Cons.IH [OF fits(2), of "a + length bs"]
      ultimately show ?thesis
        using False Cons.prems(2) by (simp add: v payload_of_def codec_simps assms(1))
    qed
  qed simp
  then show "filter (is_immediate (make_pointer_decoder n)) (layout_pointers n a vs) =
      map (\<lambda>(i, _, bs). encode_immediate n i (int (be_nat bs))) (immediates vs)"
    and "filter (\<lambda>p. \<not> is_immediate (make_pointer_decoder n) p) (layout_pointers n a vs) =
      layout_pointers n a (addressed vs)" by simp_all
qed

text \<open>The addressed pointers of a layout are in ascending order.\<close>

lemma layout_addresses:
  assumes "wf_bits n" "\<forall>v \<in> set vs. item_fits n v \<and> \<not> fst (snd v)"
    "a + length (layout_payload vs) < 2 ^ n"
  shows "sorted (map (\<lambda>p. p AND sort_mask (make_pointer_decoder n)) (layout_pointers n a vs)) \<and>
    (\<forall>p \<in> set (layout_pointers n a vs). a \<le> unat (p AND sort_mask (make_pointer_decoder n)))"
  using assms(2,3)
proof (induction vs arbitrary: a)
  case (Cons v vs)
  obtain i bs where v: "v = (i, False, bs)" using Cons.prems(1) by (cases v) auto
  have "encodable n i (int a)"
    using Cons.prems address_encodable [of n i False bs a] by (simp add: v)
  then have key: "unat (encode_address n i (int a) AND sort_mask (make_pointer_decoder n)) = a"
    by (rule address_key [OF assms(1)])
  have IH: "sorted (map (\<lambda>p. p AND sort_mask (make_pointer_decoder n)) (layout_pointers n (a + length bs) vs))"
    "\<forall>p \<in> set (layout_pointers n (a + length bs) vs).
       a + length bs \<le> unat (p AND sort_mask (make_pointer_decoder n))"
    using Cons.IH [of "a + length bs"] Cons.prems by (simp_all add: v payload_of_def)
  then have "\<forall>p \<in> set (layout_pointers n (a + length bs) vs).
      encode_address n i (int a) AND sort_mask (make_pointer_decoder n) \<le>
      p AND sort_mask (make_pointer_decoder n)"
    by (auto simp: key word_le_nat_alt)
  with IH show ?case by (auto simp: v key)
qed simp

text \<open>
  With no empty addressed item the addresses are even distinct, so that the order in which
  the pointers arrive does not matter.
\<close>

lemma layout_addresses_distinct:
  assumes "wf_bits n" "\<forall>v \<in> set vs. item_fits n v \<and> \<not> fst (snd v) \<and> snd (snd v) \<noteq> []"
    "a + length (layout_payload vs) < 2 ^ n"
  shows "distinct (map (\<lambda>p. p AND sort_mask (make_pointer_decoder n)) (layout_pointers n a vs))"
  using assms(2,3)
proof (induction vs arbitrary: a)
  case (Cons v vs)
  obtain i bs where v: "v = (i, False, bs)" "bs \<noteq> []" using Cons.prems(1) by (cases v) auto
  have "encodable n i (int a)"
    using Cons.prems address_encodable [of n i False bs a] by (simp add: v)
  then have key: "unat (encode_address n i (int a) AND sort_mask (make_pointer_decoder n)) = a"
    by (rule address_key [OF assms(1)])
  have "\<forall>p \<in> set (layout_pointers n (a + length bs) vs).
       a + length bs \<le> unat (p AND sort_mask (make_pointer_decoder n))"
    using layout_addresses [OF assms(1), of vs "a + length bs"] Cons.prems by (simp add: v payload_of_def)
  with v(2) key have "\<forall>p \<in> set (layout_pointers n (a + length bs) vs).
      p AND sort_mask (make_pointer_decoder n) \<noteq>
      encode_address n i (int a) AND sort_mask (make_pointer_decoder n)"
    by fastforce
  moreover have "distinct (map (\<lambda>p. p AND sort_mask (make_pointer_decoder n))
      (layout_pointers n (a + length bs) vs))"
    using Cons.IH [of "a + length bs"] Cons.prems by (simp add: v payload_of_def)
  ultimately show ?case by (auto simp: v)
qed simp

section \<open>Freezing a heap with a given layout\<close>

text \<open>Immediate pointers are read one by one.\<close>

definition immediate_of :: "pointer_decoder \<Rightarrow> item_pointer_t \<Rightarrow> item_value" where
  "immediate_of d p = (get_id d p, True, immediate_bytes d p)"

lemma heap_items_immediates:
  assumes "\<forall>p \<in> set ps. is_immediate d p"
  shows "heap_items d ml keep payload ps = map (immediate_of d) (filter (\<lambda>p. get_id d p \<noteq> 0) ps)"
  using assms by (induction ps) (auto simp: immediate_of_def)

lemma heap_items_layout:
  assumes wf: "wf_bits n" and d: "d = make_pointer_decoder n"
    and vs: "\<forall>v \<in> set vs. item_fits n v \<and> \<not> fst (snd v)" and tail: "\<forall>p \<in> set qs. is_immediate d p"
    and a: "length pre + length (layout_payload vs) < 2 ^ n"
    and ml: "ml = int (length pre + length (layout_payload vs))"
  shows "heap_items d ml True (pre @ layout_payload vs @ post) (layout_pointers n (length pre) vs @ qs) =
    filter reported vs @ heap_items d ml True (pre @ layout_payload vs @ post) qs"
  using vs a ml
proof (induction vs arbitrary: pre)
  case (Cons v vs)
  obtain i bs where v: "v = (i, False, bs)" using Cons.prems(1) by (cases v) auto
  let ?payload = "pre @ layout_payload (v # vs) @ post" and ?a = "length pre"
  let ?rest = "layout_pointers n (?a + length bs) vs @ qs"
  have enc: "encodable n i (int ?a)"
    using Cons.prems address_encodable [of n i False bs ?a] by (simp add: v)
  have p: "get_id d (encode_address n i (int ?a)) = i" "\<not> is_immediate d (encode_address n i (int ?a))"
    "get_address d (encode_address n i (int ?a)) = int ?a"
    using enc wf by (simp_all add: d codec_simps)
  have IH: "heap_items d ml True ?payload ?rest = filter reported vs @ heap_items d ml True ?payload qs"
    using Cons.IH [of "pre @ bs"] Cons.prems by (simp add: v payload_of_def)
  have end': "item_end d ml ?rest = int (?a + length bs)"
  proof (cases vs)
    case Nil
    then show ?thesis using tail Cons.prems(3) by (auto simp: item_end_def v payload_of_def)
  next
    case (Cons w ws)
    obtain j cs where w: "w = (j, False, cs)" using Cons Cons.prems(1) by (cases w) auto
    have "encodable n j (int (?a + length bs))"
      using Cons.prems address_encodable [of n j False cs "?a + length bs"]
      by (simp add: v w Cons payload_of_def)
    then have "\<not> is_immediate d (encode_address n j (int (?a + length bs)))"
      "get_address d (encode_address n j (int (?a + length bs))) = int (?a + length bs)"
      using wf unfolding d by (rule_tac codec_simps; simp)+
    then show ?thesis by (simp add: item_end_def Cons w)
  qed
  have "heap_items d ml True ?payload (encode_address n i (int ?a) # ?rest) =
      (if i \<noteq> 0 \<and> bs \<noteq> [] then [(i, False, bs)] else []) @ heap_items d ml True ?payload ?rest"
    using p end' by (cases "bs = []") (auto simp: v payload_of_def)
  then show ?case using IH by (simp add: v)
qed simp

text \<open>
  A received heap whose pointers are those of a layout, in an order that leaves the
  addressed ones sorted, and whose payload is that of the layout: the frozen heap has the
  addressed items in order, followed by the immediate ones.
\<close>

lemma frozen_layout:
  assumes wf: "wf_bits n" and d: "d = make_pointer_decoder n" and ok: "layout_ok n vs"
    and imm: "set (filter (is_immediate d) ps) = set (filter (is_immediate d) (layout_pointers n 0 vs))"
    and adr: "sorted_pointers d (filter (\<lambda>p. \<not> is_immediate d p) ps) = layout_pointers n 0 (addressed vs)"
    and pos: "\<forall>v \<in> set vs. fst (snd v) \<longrightarrow> fst v \<noteq> 0"
  obtains us where "heap_items d (int (length (layout_payload vs))) True (layout_payload vs @ post)
      (sorted_pointers d ps) = filter reported (addressed vs) @ us"
    "set us = set (immediates vs)" "distinct ps \<Longrightarrow> distinct us"
proof -
  have fits: "\<forall>v \<in> set vs. item_fits n v" "0 + length (layout_payload vs) < 2 ^ n"
    using ok by (simp_all add: layout_ok_def)
  let ?qs = "sorted_pointers d (filter (is_immediate d) ps)"
  let ?enc = "\<lambda>(i, _ :: bool, bs). encode_immediate n i (int (be_nat bs))"
  let ?us = "map (immediate_of d) (filter (\<lambda>p. get_id d p \<noteq> 0) ?qs)"
  have qs: "set ?qs = ?enc ` set (immediates vs)"
    using imm layout_pointers_filter(1) [OF wf fits] by (simp add: d)
  have inv: "immediate_of d (?enc v) = v \<and> get_id d (?enc v) \<noteq> 0" if mem: "v \<in> set (immediates vs)" for v
  proof -
    obtain i imm bs where v': "v = (i, imm, bs)" by (rule prod_cases3)
    with mem have v: "v = (i, True, bs)" by simp
    have f: "item_fits n (i, True, bs)" "i \<noteq> 0" using mem fits(1) pos by (auto simp: v)
    then show ?thesis
      using fits_encodable [OF wf f(1)] immediate_bytes_encode [OF wf f(1)]
      by (simp add: v d immediate_of_def codec_simps wf)
  qed
  have all: "filter (\<lambda>p. get_id d p \<noteq> 0) ?qs = ?qs" using qs inv by (auto simp: filter_id_conv)
  have "immediate_of d ` ?enc ` set (immediates vs) = set (immediates vs)"
    using inv by (force simp: image_image)
  then have set_us: "set ?us = set (immediates vs)" unfolding all using qs by simp
  have "inj_on (immediate_of d) (set ?qs)"
  proof (rule inj_onI)
    fix p q assume "p \<in> set ?qs" "q \<in> set ?qs" "immediate_of d p = immediate_of d q"
    moreover from this(1,2) obtain v w where "v \<in> set (immediates vs)" "w \<in> set (immediates vs)"
      "p = ?enc v" "q = ?enc w" unfolding qs by blast
    ultimately show "p = q" using inv [of v] inv [of w] by metis
  qed
  then have dist: "distinct ?us" if "distinct ps"
    unfolding all using that by (simp add: distinct_map sorted_pointers_def)
  have "heap_items d (int (length (layout_payload vs))) True ([] @ layout_payload (addressed vs) @ post)
      (layout_pointers n (length ([] :: byte list)) (addressed vs) @ ?qs) =
      filter reported (addressed vs) @ heap_items d (int (length (layout_payload vs))) True
        ([] @ layout_payload (addressed vs) @ post) ?qs"
    by (rule heap_items_layout [OF wf d]) (use fits in auto)
  then have "heap_items d (int (length (layout_payload vs))) True (layout_payload vs @ post)
      (sorted_pointers d ps) = filter reported (addressed vs) @ ?us"
    by (simp add: sorted_pointers_split [OF wf d, of ps] adr heap_items_immediates)
  then show ?thesis using set_us dist by (rule that)
qed

text \<open>The two ways the addressed pointers end up sorted: in order, or all distinct.\<close>

lemma layout_sorted_in_order:
  assumes "wf_bits n" "layout_ok n vs"
  shows "sorted_pointers (make_pointer_decoder n) (layout_pointers n 0 (addressed vs)) =
    layout_pointers n 0 (addressed vs)"
proof -
  have "sorted (map (\<lambda>p. p AND sort_mask (make_pointer_decoder n)) (layout_pointers n 0 (addressed vs)))"
    by (rule conjunct1 [OF layout_addresses [OF assms(1)]]) (use assms(2) in \<open>auto simp: layout_ok_def\<close>)
  then show ?thesis by (simp add: sorted_pointers_def sorted_sort_id sort_key_id_if_sorted)
qed

lemma layout_sorted_any_order:
  assumes "wf_bits n" "layout_ok n vs" "\<forall>v \<in> set vs. fst (snd v) \<or> snd (snd v) \<noteq> []"
    and "distinct ps" "set ps = set (layout_pointers n 0 (addressed vs))"
  shows "sorted_pointers (make_pointer_decoder n) ps = layout_pointers n 0 (addressed vs)"
proof -
  let ?k = "\<lambda>p. p AND sort_mask (make_pointer_decoder n)"
  have sorted: "sorted (map ?k (layout_pointers n 0 (addressed vs)))"
    by (rule conjunct1 [OF layout_addresses [OF assms(1)]]) (use assms(2) in \<open>auto simp: layout_ok_def\<close>)
  have dist: "distinct (map ?k (layout_pointers n 0 (addressed vs)))"
    by (rule layout_addresses_distinct [OF assms(1)]) (use assms(2,3) in \<open>auto simp: layout_ok_def\<close>)
  then have "distinct (layout_pointers n 0 (addressed vs))" by (simp add: distinct_map)
  with assms(4,5) have "mset ps = mset (layout_pointers n 0 (addressed vs))"
    by (simp add: set_eq_iff_mset_eq_distinct)
  then show ?thesis
    unfolding sorted_pointers_def
    by (rule sort_key_inj_key_eq) (use sorted dist assms(5) in \<open>simp_all add: distinct_map\<close>)
qed

end
