(* ===== verification/HeapPackets.thy ===== *)
theory HeapPackets
  imports SendPacket Layout
begin

text \<open>
  What the packet generator produces: the packets of a heap carry the layout of the heap's
  items, cut into consecutive pieces.
\<close>

section \<open>Reference\<close>

text \<open>The item a receiver should see for an item that is sent.\<close>

definition wire_item :: "nat \<Rightarrow> send_item \<Rightarrow> item_value" where
  "wire_item n it =
     (if si_is_inline it then (si_id it, True, be_bytes (n div 8) (nat (si_immediate it)))
      else if si_allow_immediate it \<and> length (si_buffer it) \<le> n div 8
        then (si_id it, True, replicate (n div 8 - length (si_buffer it)) 0 @ si_buffer it)
      else (si_id it, False, si_buffer it))"

abbreviation heap_bits :: "send_heap \<Rightarrow> nat" where
  "heap_bits h \<equiv> fl_heap_address_bits (sh_flavour h)"

definition heap_wire :: "send_heap \<Rightarrow> item_value list" where
  "heap_wire h = map (wire_item (heap_bits h)) (sh_items h)"

text \<open>The items including the padding, which has the null identifier.\<close>

definition padded_wire :: "packet_generator \<Rightarrow> item_value list" where
  "padded_wire g = heap_wire (pg_h g) @
     (if pg_need_null_item g
      then [(0, False, replicate (pg_payload_size g - length (layout_payload (heap_wire (pg_h g)))) 0)]
      else [])"

abbreviation gen_pointers :: "packet_generator \<Rightarrow> item_pointer_t list" where
  "gen_pointers g \<equiv> layout_pointers (heap_bits (pg_h g)) 0 (padded_wire g)"

abbreviation gen_payload :: "packet_generator \<Rightarrow> byte list" where
  "gen_payload g \<equiv> layout_payload (padded_wire g)"

text \<open>What can be sent: identifiers and immediates fit, and identifiers are not reserved.\<close>

definition sendable_item :: "nat \<Rightarrow> send_item \<Rightarrow> bool" where
  "sendable_item n it \<longleftrightarrow> PAYLOAD_LENGTH_ID < si_id it \<and> si_id it < 2 ^ (63 - n) \<and>
     (si_is_inline it \<longrightarrow> 0 \<le> si_immediate it \<and> si_immediate it < 2 ^ n)"

definition sendable :: "send_heap \<Rightarrow> item_pointer_t \<Rightarrow> bool" where
  "sendable h cnt \<longleftrightarrow> wf_bits (heap_bits h) \<and> (\<forall>it \<in> set (sh_items h). sendable_item (heap_bits h) it) \<and>
     length (sh_items h) + 5 < 2 ^ 16 \<and> unat cnt < 2 ^ heap_bits h \<and>
     length (layout_payload (heap_wire h)) + 8 * length (sh_items h) + 1 < 2 ^ heap_bits h"

section \<open>Items on the wire\<close>

lemma use_immediate_wire: "use_immediate it (n div 8) \<longleftrightarrow> fst (snd (wire_item n it))"
  by (simp add: use_immediate_def wire_item_def)

lemma payload_wire_item:
  "payload_of (wire_item n it) = (if use_immediate it (n div 8) then [] else si_buffer it)"
  by (auto simp: use_immediate_def wire_item_def payload_of_def)

lemma wire_item_fits:
  assumes "sendable_item n it"
  shows "item_fits n (wire_item n it)" "fst (wire_item n it) = si_id it"
  using assms by (auto simp: item_fits_def wire_item_def sendable_item_def item_id_defs)

lemma bits_pow: "wf_bits n \<Longrightarrow> (256 :: nat) ^ (n div 8) = 2 ^ n"
  by (erule wf_bits_cases) simp_all

lemma heap_payload_size:
  "length (layout_payload (map (wire_item n) its)) =
     sum_list (map (\<lambda>it. length (si_buffer it)) (filter (\<lambda>it. \<not> use_immediate it (n div 8)) its))"
  by (induction its) (simp_all add: payload_wire_item)

lemma be_nat_replicate_0 [simp]: "be_nat (replicate k 0 @ bs) = be_nat bs"
  by (induction k) (simp_all add: be_nat_Cons)

lemma be_bytes_append:
  "y < 256 ^ k \<Longrightarrow> be_bytes (j + k) (x * 256 ^ k + y) = be_bytes j x @ be_bytes k y"
proof (induction k arbitrary: y)
  case (Suc k)
  have d: "(x * 256 ^ Suc k + y) div 256 = x * 256 ^ k + y div 256"
    by (simp add: div_add1_eq mult.assoc [symmetric] mult.commute [of 256])
  have w: "(word_of_nat (x * 256 ^ Suc k + y) :: byte) = word_of_nat y"
  proof -
    have "(x * 256 ^ Suc k + y) mod 2 ^ 8 = y mod 2 ^ 8"
      by (simp add: mult.assoc [symmetric] mult.commute [of 256])
    then show ?thesis by (simp add: word_of_nat_eq_iff take_bit_eq_mod del: of_nat_add of_nat_mult power_Suc)
  qed
  have "y div 256 < 256 ^ k" using Suc.prems by (simp add: less_mult_imp_div_less mult.commute)
  then show ?case using Suc.IH [of "y div 256"] by (simp only: add_Suc_right be_bytes.simps d w append_assoc)
qed simp

text \<open>Overwriting the end of an immediate pointer with zero value.\<close>

lemma overwrite_immediate:
  assumes n: "wf_bits n" and enc: "encodable n i 0" and len: "length bs \<le> n div 8"
  shows "mem_write (htobe64 (encode_immediate n i 0)) (8 - length bs) bs =
    Inr (htobe64 (encode_immediate n i (int (be_nat bs))))"
proof -
  let ?k = "length bs" and ?v = "be_nat bs"
  have k: "?k \<le> 8" "8 * ?k \<le> n" using len wf_bits_le [OF n] by auto
  have pow: "(256 :: nat) ^ ?k = 2 ^ (8 * ?k)" by (simp add: power_mult)
  have small: "?v < 2 ^ (8 * ?k)" using be_nat_less [of bs] by (simp add: pow)
  also have "\<dots> \<le> (2 :: nat) ^ n" using k(2) by (intro power_increasing) simp_all
  finally have "int ?v < int (2 ^ n)" by (simp only: of_nat_less_iff)
  then have enc': "encodable n i (int ?v)" using enc by (simp add: encodable_def)
  have e0: "unat (encode_immediate n i 0) = 2 ^ 63 + nat i * 2 ^ n"
    and ev: "unat (encode_immediate n i (int ?v)) = 2 ^ 63 + nat i * 2 ^ n + ?v"
    using encode_immediate_nat [OF n enc] encode_immediate_nat [OF n enc'] by simp_all
  have "(2 :: nat) ^ (8 * ?k) dvd 2 ^ 63" "(2 :: nat) ^ (8 * ?k) dvd 2 ^ n"
    by (rule le_imp_power_dvd; use k wf_bits_le [OF n] in simp)+
  then obtain m where m: "2 ^ 63 + nat i * 2 ^ n = m * 256 ^ ?k"
    by (metis dvd_add dvd_mult dvd_def mult.commute pow)
  have "8 - ?k + ?k = 8" using k(1) by simp
  then have h0: "htobe64 (encode_immediate n i 0) = be_bytes (8 - ?k) m @ be_bytes ?k 0"
    and hv: "htobe64 (encode_immediate n i (int ?v)) = be_bytes (8 - ?k) m @ be_bytes ?k ?v"
    using be_bytes_append [of 0 ?k "8 - ?k" m] be_bytes_append [of ?v ?k "8 - ?k" m] small
    by (simp_all only: htobe64_def e0 ev m pow [symmetric] add_0_right zero_less_power)
  show ?thesis
    using k(1) be_bytes_be_nat [of bs] by (simp add: mem_write_def h0 hv)
qed

section \<open>The two loops\<close>

text \<open>The item pointers of a packet are a piece of the layout.\<close>

lemma put_item_pointer_ok:
  assumes s: "sendable (pg_h g) cnt" and i: "i < length (padded_wire g)" and n: "n = heap_bits (pg_h g)"
    and a: "a = length (layout_payload (take i (padded_wire g)))"
    and size: "length (gen_payload g) < 2 ^ n"
  shows "put_item_pointer g i a = Inr (htobe64 (gen_pointers g ! i),
    if i = length (sh_items (pg_h g)) then a else length (layout_payload (take (Suc i) (padded_wire g))))"
proof -
  let ?h = "pg_h g" and ?vs = "padded_wire g"
  have wf: "wf_bits n" using s by (simp add: sendable_def n)
  have vs: "?vs = take i ?vs @ ?vs ! i # drop (Suc i) ?vs" using i by (simp add: id_take_nth_drop)
  have "gen_pointers g = layout_pointers n 0 (take i ?vs) @ layout_pointers n a (?vs ! i # drop (Suc i) ?vs)"
    by (subst vs, subst layout_pointers_append) (simp add: a n)
  then have ptr: "gen_pointers g ! i = hd (layout_pointers n a [?vs ! i])"
    using i by (cases "?vs ! i") (simp add: nth_append)
  have step: "length (layout_payload (take (Suc i) ?vs)) = a + length (payload_of (?vs ! i))"
    using i by (simp add: take_Suc_conv_app_nth a)
  have "length (layout_payload (take i ?vs)) \<le> length (gen_payload g)"
    by (subst (2) vs) simp
  then have a_small: "a < 2 ^ n" using size by (simp add: a)
  show ?thesis
  proof (cases "i = length (sh_items ?h)")
    case True
    then have null: "pg_need_null_item g" using i by (auto simp: padded_wire_def heap_wire_def split: if_splits)
    with True have v: "?vs ! i = (0, False, replicate (pg_payload_size g - length (layout_payload (heap_wire ?h))) 0)"
      by (simp add: padded_wire_def heap_wire_def nth_append)
    have "encodable n 0 (int a)" using address_encodable [of n 0 False "[]" a] a_small by (simp add: item_fits_def)
    then have "put_item_pointer g i a = Inr (htobe64 (encode_address n 0 (int a)), a)"
      using True null by (simp add: put_item_pointer_def put_address_def n NULL_ID_def)
    then have "put_item_pointer g i a = Inr (htobe64 (gen_pointers g ! i), a)" by (simp only: ptr v) simp
    then show ?thesis using True by simp
  next
    case False
    then have i': "i < length (sh_items ?h)"
      using i by (auto simp: padded_wire_def heap_wire_def split: if_splits)
    define it where "it = sh_items ?h ! i"
    have v: "?vs ! i = wire_item n it"
      using i' by (simp add: padded_wire_def heap_wire_def nth_append it_def n)
    have "sendable_item n it" using s i' by (simp add: sendable_def it_def n)
    then have fits: "item_fits n (wire_item n it)" and id: "0 \<le> si_id it" "si_id it < 2 ^ (63 - n)"
      and imm: "si_is_inline it \<Longrightarrow> 0 \<le> si_immediate it \<and> si_immediate it < 2 ^ n"
      using wire_item_fits [of n it] by (auto simp: sendable_item_def item_id_defs)
    consider (inline) "si_is_inline it"
      | (short) "\<not> si_is_inline it" "si_allow_immediate it \<and> length (si_buffer it) \<le> n div 8"
      | (addr) "\<not> si_is_inline it" "\<not> (si_allow_immediate it \<and> length (si_buffer it) \<le> n div 8)"
      by blast
    then have "put_item_pointer g i a =
        Inr (htobe64 (hd (layout_pointers n a [wire_item n it])), a + length (payload_of (wire_item n it)))"
    proof cases
      case inline
      have "be_nat (be_bytes (n div 8) (nat (si_immediate it))) = nat (si_immediate it)"
        using imm [OF inline] by (simp add: be_nat_be_bytes bits_pow [OF wf] nat_less_iff)
      then show ?thesis
        using inline imm [OF inline] id i' False
        by (simp add: put_item_pointer_def wire_item_def put_immediate_def it_def [symmetric] n [symmetric]
            encodable_def item_pointer_size_def payload_of_def)
    next
      case short
      have "encodable n (si_id it) 0" using id by (simp add: encodable_def item_pointer_size_def)
      then show ?thesis
        using short i' False overwrite_immediate [OF wf, of "si_id it" "si_buffer it"]
        by (simp add: put_item_pointer_def wire_item_def put_immediate_def it_def [symmetric] n [symmetric]
            max_immediate_size_def item_pointer_size_def payload_of_def)
    next
      case addr
      have "wire_item n it = (si_id it, False, si_buffer it)" using addr by (auto simp: wire_item_def)
      with fits a_small have "encodable n (si_id it) (int a)" using address_encodable by metis
      then show ?thesis
        using addr i' False
        by (auto simp: put_item_pointer_def wire_item_def put_address_def it_def [symmetric] n [symmetric]
            max_immediate_size_def payload_of_def)
    qed
    then show ?thesis using False by (simp only: ptr step v if_False)
  qed
qed

lemma put_item_pointers_ok:
  assumes s: "sendable (pg_h g) cnt" and k: "i + k \<le> length (padded_wire g)"
    and a: "k \<noteq> 0 \<Longrightarrow> a = length (layout_payload (take i (padded_wire g)))"
    and size: "length (gen_payload g) < 2 ^ heap_bits (pg_h g)"
  obtains a' where "put_item_pointers g k i a = Inr (pointer_bytes (take k (drop i (gen_pointers g))), a')"
    "k \<noteq> 0 \<Longrightarrow> i + k < length (padded_wire g) \<Longrightarrow> a' = length (layout_payload (take (i + k) (padded_wire g)))"
    "k = 0 \<Longrightarrow> a' = a"
proof -
  have "\<exists>a'. put_item_pointers g k i a = Inr (pointer_bytes (take k (drop i (gen_pointers g))), a') \<and>
      (k \<noteq> 0 \<longrightarrow> i + k < length (padded_wire g) \<longrightarrow> a' = length (layout_payload (take (i + k) (padded_wire g)))) \<and>
      (k = 0 \<longrightarrow> a' = a)"
    using k a
  proof (induction k arbitrary: i a)
    case (Suc k)
    have i: "i < length (padded_wire g)" "i < length (gen_pointers g)" using Suc.prems(1) by simp_all
    note one = put_item_pointer_ok [OF s i(1) refl Suc.prems(2) size]
    have le: "length (sh_items (pg_h g)) \<le> length (padded_wire g)"
      "length (padded_wire g) \<le> Suc (length (sh_items (pg_h g)))"
      by (simp_all add: padded_wire_def heap_wire_def)
    obtain a1 where a1: "put_item_pointer g i a = Inr (htobe64 (gen_pointers g ! i), a1)"
      "Suc i < length (padded_wire g) \<Longrightarrow> a1 = length (layout_payload (take (Suc i) (padded_wire g)))"
      using one le by (cases "i = length (sh_items (pg_h g))") auto
    have "k \<noteq> 0 \<Longrightarrow> a1 = length (layout_payload (take (Suc i) (padded_wire g)))"
      using a1(2) Suc.prems(1) by simp
    with Suc.IH [of "Suc i" a1] Suc.prems(1) obtain a' where
      a': "put_item_pointers g k (Suc i) a1 = Inr (pointer_bytes (take k (drop (Suc i) (gen_pointers g))), a')"
      "k \<noteq> 0 \<longrightarrow> Suc i + k < length (padded_wire g) \<longrightarrow>
         a' = length (layout_payload (take (Suc i + k) (padded_wire g)))" "k = 0 \<longrightarrow> a' = a1"
      by auto
    have "take (Suc k) (drop i (gen_pointers g)) = gen_pointers g ! i # take k (drop (Suc i) (gen_pointers g))"
      using i(2) by (simp add: Cons_nth_drop_Suc [symmetric])
    with a1 a' show ?case by (cases "k = 0") auto
  qed simp
  then show ?thesis using that by blast
qed

text \<open>
  The payload still to be sent from position \<open>(i, offset)\<close>, without padding; and the
  payload loop sends the next bytes of it, padding included.
\<close>

definition items_from :: "send_heap \<Rightarrow> nat \<Rightarrow> nat \<Rightarrow> byte list" where
  "items_from h i offset = drop offset (layout_payload (drop i (heap_wire h)))"

definition position_ok :: "send_heap \<Rightarrow> nat \<Rightarrow> nat \<Rightarrow> bool" where
  "position_ok h i offset \<longleftrightarrow> i \<le> length (sh_items h) \<and>
     (if i < length (sh_items h) then offset \<le> length (payload_of (wire_item (heap_bits h) (sh_items h ! i)))
      else offset = 0)"

lemma payload_buffers_ok:
  assumes "position_ok (pg_h g) i offset"
    and "len \<le> length (items_from (pg_h g) i offset) + pad" "0 < pad \<longrightarrow> pg_need_null_item g"
    and "len \<le> length (items_from (pg_h g) i offset) + 8"
  shows "\<exists>bufs i' offset'. payload_buffers g i offset len = Inr (bufs, i', offset') \<and>
    concat bufs = take len (items_from (pg_h g) i offset @ replicate pad 0) \<and>
    position_ok (pg_h g) i' offset' \<and>
    items_from (pg_h g) i' offset' = drop len (items_from (pg_h g) i offset)"
  using assms
proof (induction g i offset len rule: payload_buffers.induct)
  case (1 g i offset len)
  let ?h = "pg_h g" and ?N = "length (sh_items (pg_h g))"
  show ?case
  proof (cases "len = 0")
    case True
    then show ?thesis using "1.prems"(1) by (subst payload_buffers.simps) simp
  next
    case len: False
    show ?thesis
    proof (cases "i = ?N")
      case True
      then have "items_from ?h i offset = []" by (simp add: items_from_def heap_wire_def)
      with True len "1.prems" show ?thesis
        by (subst payload_buffers.simps) (auto simp: position_ok_def)
    next
      case False
      then have i: "i < ?N" using "1.prems"(1) by (simp add: position_ok_def)
      define it where "it = sh_items ?h ! i"
      have drop_i: "drop i (heap_wire ?h) = wire_item (heap_bits ?h) it # drop (Suc i) (heap_wire ?h)"
        using i by (simp add: heap_wire_def it_def Cons_nth_drop_Suc [symmetric] drop_map)
      have nxt: "position_ok ?h (Suc i) 0"
        using i by (auto simp: position_ok_def)
      show ?thesis
      proof (cases "use_immediate it (max_immediate_size ?h)")
        case True
        then have pl: "payload_of (wire_item (heap_bits ?h) it) = []"
          by (simp add: payload_wire_item max_immediate_size_def)
        then have off: "offset = 0" using "1.prems"(1) i by (simp add: position_ok_def it_def)
        have same: "items_from ?h i offset = items_from ?h (Suc i) 0"
          by (simp add: items_from_def drop_i pl off)
        have "payload_buffers g i offset len = payload_buffers g (Suc i) 0 len"
          using len False i True by (subst payload_buffers.simps) (simp add: it_def)
        then show ?thesis
          using "1.IH"(1) [OF len False i it_def True nxt] "1.prems"(2-) by (simp add: same)
      next
        case imm: False
        then have pl: "payload_of (wire_item (heap_bits ?h) it) = si_buffer it"
          by (simp add: payload_wire_item max_immediate_size_def)
        then have off: "offset \<le> length (si_buffer it)" using "1.prems"(1) i by (simp add: position_ok_def it_def)
        define sb where "sb = min (length (si_buffer it) - offset) len"
        have from_i: "items_from ?h i offset = drop offset (si_buffer it) @ items_from ?h (Suc i) 0"
          using off by (simp add: items_from_def drop_i pl)
        have step: "payload_buffers g i offset len = bind_result
            (if offset + sb = length (si_buffer it) then payload_buffers g (Suc i) 0 (len - sb)
             else payload_buffers g i (offset + sb) (len - sb)) (\<lambda>(bufs, i', o').
             Inr (take sb (drop offset (si_buffer it)) # bufs, i', o'))"
          using len False i imm off
          by (subst payload_buffers.simps) (simp add: it_def [symmetric] sb_def [symmetric])
        show ?thesis
        proof (cases "offset + sb = length (si_buffer it)")
          case True
          then have sb: "sb = length (si_buffer it) - offset" "sb \<le> len" using off by (simp_all add: sb_def)
          obtain bufs i' o' where rec: "payload_buffers g (Suc i) 0 (len - sb) = Inr (bufs, i', o')"
            "concat bufs = take (len - sb) (items_from ?h (Suc i) 0 @ replicate pad 0)"
            "position_ok ?h i' o'" "items_from ?h i' o' = drop (len - sb) (items_from ?h (Suc i) 0)"
          proof -
            have "len - sb \<le> length (items_from ?h (Suc i) 0) + pad"
              "len - sb \<le> length (items_from ?h (Suc i) 0) + 8"
              using "1.prems"(2,4) off sb by (simp_all add: from_i)
            with "1.IH"(2) [OF len False i it_def imm _ sb_def refl True nxt] "1.prems"(3) off that
            show thesis by auto
          qed
          show ?thesis
            by (rule exI [of _ "take sb (drop offset (si_buffer it)) # bufs"])
              (use step True rec sb in \<open>simp add: from_i\<close>)
        next
          case part: False
          then have sb: "sb = len" "offset + len < length (si_buffer it)" using off by (auto simp: sb_def)
          have "payload_buffers g i (offset + sb) (len - sb) = Inr ([], i, offset + len)"
            using sb by (subst payload_buffers.simps) simp
          moreover have "position_ok ?h i (offset + len)"
            using i sb pl by (simp add: position_ok_def it_def)
          moreover have "items_from ?h i (offset + len) = drop len (items_from ?h i offset)"
            by (simp add: items_from_def add.commute)
          ultimately show ?thesis using step part sb by (simp add: from_i)
        qed
      qed
    qed
  qed
qed


section \<open>The state of the generator\<close>

text \<open>
  The part of the state that never changes, for a packet size that is a multiple of
  eight: how many pointers a packet can have and how much padding there is.
\<close>

definition gen_static :: "packet_generator \<Rightarrow> bool" where
  "gen_static g \<longleftrightarrow>
     sendable (pg_h g) (pg_cnt g) \<and> pg_max_packet_size g mod 8 = 0 \<and> 56 \<le> pg_max_packet_size g \<and>
     pg_max_item_pointers_per_packet g = (pg_max_packet_size g - 48) div 8 \<and>
     (let items = length (sh_items (pg_h g)); per = pg_max_item_pointers_per_packet g;
          total = length (layout_payload (heap_wire (pg_h g))); least = items div per * 8 + 1
      in pg_payload_size g = max total least \<and> (pg_need_null_item g \<longleftrightarrow> total < least) \<and>
         (sh_repeat_pointers (pg_h g) \<longrightarrow> items div per = 0))"

text \<open>
  The position.  As long as there are pointers to send, every packet is full of them and
  has eight bytes of payload, the last one excepted; if there is padding, the pointers last
  until the end.
\<close>

definition gen_inv :: "packet_generator \<Rightarrow> bool" where
  "gen_inv g \<longleftrightarrow> gen_static g \<and>
     pg_payload_offset g \<le> pg_payload_size g \<and>
     position_ok (pg_h g) (pg_next_item g) (pg_next_item_offset g) \<and>
     items_from (pg_h g) (pg_next_item g) (pg_next_item_offset g) =
       drop (pg_payload_offset g) (layout_payload (heap_wire (pg_h g))) \<and>
     (\<not> sh_repeat_pointers (pg_h g) \<longrightarrow>
        pg_next_item_pointer g \<le> length (padded_wire g) \<and>
        (pg_next_item_pointer g < length (padded_wire g) \<longrightarrow>
           pg_next_address g = length (layout_payload (take (pg_next_item_pointer g) (padded_wire g)))) \<and>
        (pg_next_item_pointer g = length (padded_wire g) \<and>
           (pg_need_null_item g \<longrightarrow> pg_payload_offset g = pg_payload_size g) \<or>
         (\<exists>j. pg_next_item_pointer g = j * pg_max_item_pointers_per_packet g \<and>
           pg_payload_offset g = min (pg_payload_size g) (8 * j))))"

lemma gen_static_size:
  assumes "gen_static g"
  shows "pg_payload_size g = max (length (layout_payload (heap_wire (pg_h g))))
      (length (sh_items (pg_h g)) div pg_max_item_pointers_per_packet g * 8 + 1)"
    and "pg_need_null_item g \<longleftrightarrow> length (layout_payload (heap_wire (pg_h g))) <
      length (sh_items (pg_h g)) div pg_max_item_pointers_per_packet g * 8 + 1"
    and "sh_repeat_pointers (pg_h g) \<Longrightarrow>
      length (sh_items (pg_h g)) div pg_max_item_pointers_per_packet g = 0"
  using assms unfolding gen_static_def Let_def by blast+

lemma gen_payload_eq:
  assumes "gen_static g"
  shows "gen_payload g = layout_payload (heap_wire (pg_h g)) @
      replicate (pg_payload_size g - length (layout_payload (heap_wire (pg_h g)))) 0"
    and "length (gen_payload g) = pg_payload_size g"
proof -
  let ?t = "length (layout_payload (heap_wire (pg_h g)))"
  have *: "?t \<le> pg_payload_size g" "\<not> pg_need_null_item g \<Longrightarrow> pg_payload_size g = ?t"
    using gen_static_size [OF assms] by simp_all
  then show "gen_payload g = layout_payload (heap_wire (pg_h g)) @ replicate (pg_payload_size g - ?t) 0"
    by (auto simp: padded_wire_def payload_of_def)
  then show "length (gen_payload g) = pg_payload_size g" using * by simp
qed

lemma gen_static_facts:
  assumes "gen_static g"
  shows "wf_bits (heap_bits (pg_h g))" "0 < pg_max_item_pointers_per_packet g"
    "pg_max_packet_size g = 8 * pg_max_item_pointers_per_packet g + 48"
    "0 < pg_payload_size g" "pg_payload_size g < 2 ^ heap_bits (pg_h g)"
proof -
  let ?P = "pg_max_item_pointers_per_packet g" and ?N = "length (sh_items (pg_h g))"
  have P: "?P = (pg_max_packet_size g - 48) div 8" "pg_max_packet_size g mod 8 = 0" "56 \<le> pg_max_packet_size g"
    and s: "sendable (pg_h g) (pg_cnt g)"
    using assms by (simp_all add: gen_static_def)
  note size = gen_static_size(1) [OF assms]
  show "wf_bits (heap_bits (pg_h g))" using s by (simp add: sendable_def)
  obtain m where m: "pg_max_packet_size g = 8 * m" using P(2) by (auto elim: dvdE)
  then have "pg_max_packet_size g - 48 = 8 * (m - 6)" by simp
  with P m show "0 < ?P" "pg_max_packet_size g = 8 * ?P + 48" by simp_all
  show "0 < pg_payload_size g" by (simp add: size)
  have "pg_payload_size g \<le> length (layout_payload (heap_wire (pg_h g))) + 8 * ?N + 1"
    unfolding size using div_le_dividend [of ?N ?P] by linarith
  also have "\<dots> < 2 ^ heap_bits (pg_h g)" using s by (simp add: sendable_def)
  finally show "pg_payload_size g < 2 ^ heap_bits (pg_h g)" .
qed

text \<open>The initial state.\<close>

lemma make_packet_generator_ok:
  assumes "sendable h cnt" "m mod 8 = 0" "56 \<le> m"
    and "sh_repeat_pointers h \<Longrightarrow> length (sh_items h) < (m - 48) div 8"
  obtains g where "make_packet_generator h cnt m = Inr g" "gen_inv g" "pg_h g = h" "pg_cnt g = cnt"
    "pg_max_packet_size g = m" "pg_payload_offset g = 0" "pg_next_item_pointer g = 0"
proof -
  let ?P = "(m - 48) div 8"
  let ?t = "length (layout_payload (heap_wire h))"
  have t: "sum_list (map (\<lambda>it. length (si_buffer it))
      (filter (\<lambda>it. \<not> use_immediate it (max_immediate_size h)) (sh_items h))) = ?t"
    by (simp add: heap_wire_def heap_payload_size max_immediate_size_def)
  define g where "g = \<lparr>pg_h = h, pg_cnt = cnt, pg_max_packet_size = m,
      pg_max_item_pointers_per_packet = ?P,
      pg_next_item_pointer = 0, pg_next_item = 0, pg_next_item_offset = 0,
      pg_next_address = 0, pg_payload_offset = 0,
      pg_payload_size = (if ?t < length (sh_items h) div ?P * 8 + 1 then length (sh_items h) div ?P * 8 + 1 else ?t),
      pg_need_null_item = (?t < length (sh_items h) div ?P * 8 + 1)\<rparr>"
  have run: "make_packet_generator h cnt m = Inr g"
    using assms(2-)
    by (auto simp: g_def make_packet_generator_def Let_def t prefix_size_def item_pointer_size_def)
  have "gen_static g" using assms by (auto simp: gen_static_def Let_def max_def g_def)
  moreover have "position_ok h 0 0" by (simp add: position_ok_def)
  ultimately have "gen_inv g" by (auto simp: gen_inv_def items_from_def g_def intro: exI [of _ 0])
  with run show ?thesis by (rule that) (simp_all add: g_def)
qed

section \<open>One packet\<close>

text \<open>How many pointers and how many bytes of payload the next packet has.\<close>

definition first_pointer :: "packet_generator \<Rightarrow> nat" where
  "first_pointer g = (if sh_repeat_pointers (pg_h g) then 0 else pg_next_item_pointer g)"

definition n_pointers :: "packet_generator \<Rightarrow> nat" where
  "n_pointers g = min (pg_max_item_pointers_per_packet g) (length (padded_wire g) - first_pointer g)"

definition n_bytes :: "packet_generator \<Rightarrow> nat" where
  "n_bytes g = min (pg_payload_size g - pg_payload_offset g)
     (pg_max_packet_size g - n_pointers g * 8 - 40)"

lemma length_padded_wire:
  "length (padded_wire g) = length (sh_items (pg_h g)) + of_bool (pg_need_null_item g)"
  by (simp add: padded_wire_def heap_wire_def)

lemma n_bytes_facts:
  assumes "gen_static g" "has_next_packet g"
  shows "0 < n_bytes g" "pg_payload_offset g + n_bytes g \<le> pg_payload_size g"
    "n_pointers g * 8 + n_bytes g + 40 \<le> pg_max_packet_size g"
    "n_pointers g = pg_max_item_pointers_per_packet g \<Longrightarrow>
       n_bytes g = min (pg_payload_size g - pg_payload_offset g) 8"
proof -
  have "n_pointers g \<le> pg_max_item_pointers_per_packet g" by (simp add: n_pointers_def)
  then show "0 < n_bytes g" "pg_payload_offset g + n_bytes g \<le> pg_payload_size g"
    "n_pointers g * 8 + n_bytes g + 40 \<le> pg_max_packet_size g"
    "n_pointers g = pg_max_item_pointers_per_packet g \<Longrightarrow>
       n_bytes g = min (pg_payload_size g - pg_payload_offset g) 8"
    using gen_static_facts(3) [OF assms(1)] assms(2) by (auto simp: n_bytes_def has_next_packet_def)
qed

text \<open>Padding never takes more than eight bytes of a packet.\<close>

lemma padding_small:
  assumes inv: "gen_inv g" and more: "has_next_packet g" and null: "pg_need_null_item g"
  shows "n_bytes g \<le> 8 \<and> (first_pointer g + n_pointers g = length (padded_wire g) \<longrightarrow>
    pg_payload_offset g + n_bytes g = pg_payload_size g)"
proof -
  let ?P = "pg_max_item_pointers_per_packet g" and ?N = "length (sh_items (pg_h g))"
  have st: "gen_static g" using inv by (simp add: gen_inv_def)
  have size: "pg_payload_size g = ?N div ?P * 8 + 1"
    using gen_static_size(1,2) [OF st] null by simp
  show ?thesis
  proof (cases "sh_repeat_pointers (pg_h g)")
    case True
    then have "pg_payload_size g = 1" using gen_static_size(3) [OF st True] size by simp
    then show ?thesis using n_bytes_facts(1,2) [OF st more] by simp
  next
    case False
    then obtain j where j: "pg_next_item_pointer g = j * ?P" "pg_payload_offset g = min (pg_payload_size g) (8 * j)"
      using inv more null by (auto simp: gen_inv_def has_next_packet_def)
    have off: "pg_payload_offset g = 8 * j" "j \<le> ?N div ?P"
      using j(2) more size by (auto simp: has_next_packet_def)
    have P: "0 < ?P" by (rule gen_static_facts(2) [OF st])
    show ?thesis
    proof (cases "j = ?N div ?P")
      case True
      then have "pg_payload_size g = pg_payload_offset g + 1" using off size by simp
      then show ?thesis using n_bytes_facts(1,2) [OF st more] by linarith
    next
      case less: False
      then have "j + 1 \<le> ?N div ?P" using off by simp
      then have "(j + 1) * ?P \<le> ?N" using P by (simp add: less_eq_div_iff_mult_less_eq)
      then have "n_pointers g = ?P" "first_pointer g + n_pointers g < length (padded_wire g)"
        using False null by (auto simp: n_pointers_def first_pointer_def j(1) padded_wire_def heap_wire_def)
      then show ?thesis using n_bytes_facts(4) [OF st more] by simp
    qed
  qed
qed

lemma special_encodable:
  assumes st: "gen_static g"
  shows "encodable (heap_bits (pg_h g)) HEAP_CNT_ID (sint (pg_cnt g))"
    "encodable (heap_bits (pg_h g)) HEAP_LENGTH_ID (int (pg_payload_size g))"
    "v \<le> pg_payload_size g \<Longrightarrow> encodable (heap_bits (pg_h g)) PAYLOAD_OFFSET_ID (int v)"
    "v \<le> pg_payload_size g \<Longrightarrow> encodable (heap_bits (pg_h g)) PAYLOAD_LENGTH_ID (int v)"
    "0 \<le> sint (pg_cnt g)" "sint (pg_cnt g) < 2 ^ 56"
proof -
  let ?n = "heap_bits (pg_h g)"
  have wf: "wf_bits ?n" and size: "pg_payload_size g < 2 ^ ?n" using gen_static_facts [OF st] by simp_all
  have small: "unat (pg_cnt g) < 2 ^ ?n" using st by (simp add: gen_static_def sendable_def)
  also have pow: "(2 :: nat) ^ ?n \<le> 2 ^ 56" using wf_bits_le [OF wf] by (intro power_increasing) simp_all
  finally have small': "unat (pg_cnt g) < 2 ^ 56" .
  then have cnt: "sint (pg_cnt g) = int (unat (pg_cnt g))" by (intro sint_small) simp
  have "int (unat (pg_cnt g)) < int (2 ^ 56)" using small' by (simp only: of_nat_less_iff)
  with cnt show "0 \<le> sint (pg_cnt g)" "sint (pg_cnt g) < 2 ^ 56" by simp_all
  have "(2 :: int) ^ 7 \<le> 2 ^ (63 - ?n)" using wf_bits_le [OF wf] by (intro power_increasing) auto
  then have ids: "i < 2 ^ (63 - ?n)" if "i < 128" for i :: int using that by simp
  have enc: "encodable ?n i (int v)" if "0 \<le> i" "i < 128" "v < 2 ^ ?n" for i v
  proof -
    have "int v < int (2 ^ ?n)" using that(3) by (simp only: of_nat_less_iff)
    then show ?thesis using that ids [of i] by (simp add: encodable_def item_pointer_size_def)
  qed
  show "encodable ?n HEAP_CNT_ID (sint (pg_cnt g))"
    unfolding cnt by (rule enc) (use small in \<open>simp_all add: item_id_defs\<close>)
  show "encodable ?n HEAP_LENGTH_ID (int (pg_payload_size g))"
    "v \<le> pg_payload_size g \<Longrightarrow> encodable ?n PAYLOAD_OFFSET_ID (int v)"
    "v \<le> pg_payload_size g \<Longrightarrow> encodable ?n PAYLOAD_LENGTH_ID (int v)"
    using size by (auto intro!: enc simp: item_id_defs)
qed

lemma gen_buffers:
  assumes inv: "gen_inv g" and more: "has_next_packet g"
  shows "\<exists>bufs i' o'. payload_buffers g (pg_next_item g) (pg_next_item_offset g) (n_bytes g) = Inr (bufs, i', o') \<and>
    concat bufs = take (n_bytes g) (drop (pg_payload_offset g) (gen_payload g)) \<and>
    position_ok (pg_h g) i' o' \<and> items_from (pg_h g) i' o' =
      drop (pg_payload_offset g + n_bytes g) (layout_payload (heap_wire (pg_h g)))"
proof -
  let ?off = "pg_payload_offset g" and ?L = "layout_payload (heap_wire (pg_h g))"
  have st: "gen_static g" and pos: "position_ok (pg_h g) (pg_next_item g) (pg_next_item_offset g)"
    and here: "items_from (pg_h g) (pg_next_item g) (pg_next_item_offset g) = drop ?off ?L"
    using inv by (simp_all add: gen_inv_def)
  define pad where "pad = pg_payload_size g - length ?L - (?off - length ?L)"
  have pl: "drop ?off (gen_payload g) = drop ?off ?L @ replicate pad 0"
    using gen_payload_eq(1) [OF st] by (simp add: pad_def)
  have le: "n_bytes g \<le> length (drop ?off ?L) + pad"
    using n_bytes_facts(2) [OF st more] gen_static_size(1) [OF st] by (simp add: pad_def)
  have null: "0 < pad \<longrightarrow> pg_need_null_item g"
    using gen_static_size(1,2) [OF st] by (auto simp: pad_def)
  have "n_bytes g \<le> length (drop ?off ?L) + 8"
    using le null padding_small [OF inv more] by (cases "0 < pad") auto
  from payload_buffers_ok [OF pos, of "n_bytes g" pad, unfolded here, OF le null this]
  show ?thesis by (simp add: pl add.commute)
qed

lemma next_packet_ok:
  assumes inv: "gen_inv g" and more: "has_next_packet g" and n: "n = heap_bits (pg_h g)"
  obtains p g' where "next_packet g = Inr (p, g')" "gen_inv g'"
    "concat (sp_buffers p) = packet_bytes n (sint (pg_cnt g)) (int (pg_payload_size g))
       (int (pg_payload_offset g)) (take (n_pointers g) (drop (first_pointer g) (gen_pointers g)))
       (take (n_bytes g) (drop (pg_payload_offset g) (gen_payload g)))"
    "pg_payload_offset g' = pg_payload_offset g + n_bytes g"
    "pg_next_item_pointer g' = first_pointer g + n_pointers g"
    "pg_h g' = pg_h g" "pg_cnt g' = pg_cnt g" "pg_max_packet_size g' = pg_max_packet_size g"
    "pg_payload_size g' = pg_payload_size g" "padded_wire g' = padded_wire g"
proof -
  have st: "gen_static g" using inv by (simp add: gen_inv_def)
  let ?h = "pg_h g" and ?vs = "padded_wire g" and ?P = "pg_max_item_pointers_per_packet g"
  let ?off = "pg_payload_offset g" and ?size = "pg_payload_size g"
  have wf: "wf_bits n" and size: "?size < 2 ^ n" using gen_static_facts [OF st] by (simp_all add: n)
  have s: "sendable ?h (pg_cnt g)" using st by (simp add: gen_static_def)
  have specials: "put_all
      [put_immediate n HEAP_CNT_ID (sint (pg_cnt g)), put_immediate n HEAP_LENGTH_ID (int ?size),
       put_immediate n PAYLOAD_OFFSET_ID (int ?off), put_immediate n PAYLOAD_LENGTH_ID (int (n_bytes g))] =
      Inr (pointer_bytes (special_pointers n (sint (pg_cnt g)) (int ?size) (int ?off) (int (n_bytes g))))"
    using special_encodable [OF st] n_bytes_facts(2) [OF st more]
    by (simp add: put_immediate_def special_pointers_def n)
  let ?i = "first_pointer g" and ?k = "n_pointers g"
  define a where "a = (if sh_repeat_pointers ?h then 0 else pg_next_address g)"
  have ik: "?i + ?k \<le> length ?vs" using inv by (auto simp: n_pointers_def first_pointer_def gen_inv_def)
  have a: "?k \<noteq> 0 \<Longrightarrow> a = length (layout_payload (take ?i ?vs))"
    using inv by (auto simp: a_def n_pointers_def first_pointer_def gen_inv_def)
  have len: "length (gen_payload g) < 2 ^ heap_bits ?h" using gen_payload_eq(2) [OF st] size by (simp add: n)
  obtain a' where ptrs: "put_item_pointers g ?k ?i a = Inr (pointer_bytes (take ?k (drop ?i (gen_pointers g))), a')"
    and a': "?k \<noteq> 0 \<Longrightarrow> ?i + ?k < length ?vs \<Longrightarrow> a' = length (layout_payload (take (?i + ?k) ?vs))"
    using put_item_pointers_ok [OF s ik a len] by metis
  obtain bufs i' o' where bufs: "payload_buffers g (pg_next_item g) (pg_next_item_offset g) (n_bytes g) = Inr (bufs, i', o')"
    "concat bufs = take (n_bytes g) (drop ?off (gen_payload g))" "position_ok ?h i' o'"
    "items_from ?h i' o' = drop (?off + n_bytes g) (layout_payload (heap_wire ?h))"
    using gen_buffers [OF inv more] by blast
  define g' where "g' = g\<lparr>pg_next_item_pointer := ?i + ?k, pg_next_address := a',
      pg_payload_offset := ?off + n_bytes g, pg_next_item := i', pg_next_item_offset := o'\<rparr>"
  define p where "p = \<lparr>sp_buffers = (htobe64 (spead_header n (?k + 4)) @
      pointer_bytes (special_pointers n (sint (pg_cnt g)) (int ?size) (int ?off) (int (n_bytes g))) @
      pointer_bytes (take ?k (drop ?i (gen_pointers g)))) # bufs\<rparr>"
  have np: "min ?P (length (sh_items ?h) + of_bool (pg_need_null_item g) - ?i) = ?k"
    by (simp only: n_pointers_def length_padded_wire)
  have nb: "min (?size - ?off) (pg_max_packet_size g - ?k * item_pointer_size - prefix_size) = n_bytes g"
    by (simp add: n_bytes_def item_pointer_size_def prefix_size_def)
  have run: "next_packet g = Inr (p, g')"
    using more
    by (simp only: next_packet_def Let_def n [symmetric] first_pointer_def [symmetric] a_def [symmetric]
        np nb specials ptrs bufs(1) bind_result.simps prod.case has_next_packet_def if_True p_def)
      (simp add: g'_def)
  have same: "padded_wire g' = ?vs" "gen_static g' = gen_static g"
    by (simp_all add: g'_def padded_wire_def gen_static_def)
  have ptr_inv: "a' = length (layout_payload (take (?i + ?k) ?vs))" if "?i + ?k < length ?vs"
    using a' that gen_static_facts(2) [OF st] by (cases "?k = 0") (auto simp: n_pointers_def)
  have "?i + ?k = length ?vs \<and> (pg_need_null_item g \<longrightarrow> ?off + n_bytes g = ?size) \<or>
      (\<exists>j. ?i + ?k = j * ?P \<and> ?off + n_bytes g = min ?size (8 * j))" if norep: "\<not> sh_repeat_pointers ?h"
  proof (cases "?i + ?k = length ?vs")
    case True
    then show ?thesis using padding_small [OF inv more] by blast
  next
    case False
    then have k: "?k = ?P" "?i < length ?vs" using ik by (auto simp: n_pointers_def)
    then obtain j where j: "?i = j * ?P" "?off = min ?size (8 * j)"
      using inv norep by (auto simp: gen_inv_def first_pointer_def)
    then have "?off + n_bytes g = min ?size (8 * (j + 1))" "?i + ?k = (j + 1) * ?P"
      using n_bytes_facts(4) [OF st more k(1)] more k(1) by (auto simp: has_next_packet_def)
    then show ?thesis by blast
  qed
  then have "gen_inv g'"
    using st ik ptr_inv bufs(3,4) n_bytes_facts(2) [OF st more]
    unfolding gen_inv_def same by (simp add: g'_def)
  moreover have "concat (sp_buffers p) = packet_bytes n (sint (pg_cnt g)) (int ?size) (int ?off)
      (take ?k (drop ?i (gen_pointers g))) (take (n_bytes g) (drop ?off (gen_payload g)))"
  proof -
    have "length (take (n_bytes g) (drop ?off (gen_payload g))) = n_bytes g"
      using gen_payload_eq(2) [OF st] n_bytes_facts(2) [OF st more] by simp
    moreover have "length (take ?k (drop ?i (gen_pointers g))) = ?k" using ik by simp
    ultimately show ?thesis by (simp add: p_def packet_bytes_def bufs(2) add.commute)
  qed
  ultimately show ?thesis
    using run same(1) by (intro that [of p g']) (simp_all add: g'_def)
qed

section \<open>All packets\<close>

text \<open>A packet as offset, item pointers and payload; consecutive pieces of a payload.\<close>

type_synonym wire_packet = "nat \<times> item_pointer_t list \<times> byte list"

fun pieces :: "nat \<Rightarrow> byte list \<Rightarrow> wire_packet list \<Rightarrow> bool" where
  "pieces off payload [] \<longleftrightarrow> off = length payload"
| "pieces off payload ((o', ws, pl) # rest) \<longleftrightarrow>
     o' = off \<and> pl \<noteq> [] \<and> off + length pl \<le> length payload \<and>
     pl = take (length pl) (drop off payload) \<and> pieces (off + length pl) payload rest"

definition wire_bytes :: "nat \<Rightarrow> int \<Rightarrow> int \<Rightarrow> wire_packet \<Rightarrow> byte list" where
  "wire_bytes n cnt hl w = packet_bytes n cnt hl (int (fst w)) (fst (snd w)) (snd (snd w))"

text \<open>Every pointer is in every packet if pointers are repeated, in one of them otherwise.\<close>

definition pointers_sent :: "bool \<Rightarrow> item_pointer_t list \<Rightarrow> wire_packet list \<Rightarrow> bool" where
  "pointers_sent rep ptrs wires \<longleftrightarrow>
     (if rep then \<forall>w \<in> set wires. fst (snd w) = ptrs else concat (map (\<lambda>w. fst (snd w)) wires) = ptrs)"

lemma gen_finished:
  assumes "gen_inv g" "\<not> has_next_packet g" "\<not> sh_repeat_pointers (pg_h g)"
  shows "pg_next_item_pointer g = length (padded_wire g)"
proof -
  let ?P = "pg_max_item_pointers_per_packet g" and ?N = "length (sh_items (pg_h g))"
  have st: "gen_static g" using assms(1) by (simp add: gen_inv_def)
  have le: "pg_next_item_pointer g \<le> length (padded_wire g)" "length (padded_wire g) \<le> ?N + 1"
    using assms by (simp_all add: gen_inv_def length_padded_wire)
  have "pg_next_item_pointer g = length (padded_wire g) \<or>
      (\<exists>j. pg_next_item_pointer g = j * ?P \<and> pg_payload_offset g = min (pg_payload_size g) (8 * j))"
    and off: "pg_payload_offset g = pg_payload_size g"
    using assms by (auto simp: gen_inv_def has_next_packet_def)
  then show ?thesis
  proof (elim disjE exE conjE)
    fix j
    assume j: "pg_next_item_pointer g = j * ?P" "pg_payload_offset g = min (pg_payload_size g) (8 * j)"
    then have "pg_payload_size g \<le> 8 * j" using off by simp
    then have "?N div ?P < j" using gen_static_size(1) [OF st] by simp
    then have "?N < j * ?P" using gen_static_facts(2) [OF st] by (simp add: div_less_iff_less_mult)
    then show ?thesis using j(1) le by simp
  qed
qed

lemma gen_finished_packets:
  assumes inv: "gen_inv g" and fin: "\<not> has_next_packet g"
  shows "pieces (pg_payload_offset g) (gen_payload g) []"
    "pointers_sent (sh_repeat_pointers (pg_h g)) (drop (first_pointer g) (gen_pointers g)) []"
proof -
  have "gen_static g" using inv by (simp add: gen_inv_def)
  then show "pieces (pg_payload_offset g) (gen_payload g) []"
    using inv fin gen_payload_eq(2) by (auto simp: gen_inv_def has_next_packet_def)
  show "pointers_sent (sh_repeat_pointers (pg_h g)) (drop (first_pointer g) (gen_pointers g)) []"
    using gen_finished [OF inv fin] by (simp add: first_pointer_def pointers_sent_def)
qed

lemma repeat_all:
  assumes "gen_static g" "sh_repeat_pointers (pg_h g)"
  shows "take (n_pointers g) (drop (first_pointer g) (gen_pointers g)) = gen_pointers g"
proof -
  have "length (sh_items (pg_h g)) < pg_max_item_pointers_per_packet g"
    using gen_static_size(3) [OF assms] gen_static_facts(2) [OF assms(1)] by (simp add: div_eq_0_iff)
  then show ?thesis using assms(2) by (simp add: first_pointer_def n_pointers_def length_padded_wire)
qed

lemma n_bytes_aligned:
  assumes "gen_static g" "has_next_packet g"
  shows "8 dvd n_bytes g \<or> pg_payload_offset g + n_bytes g = pg_payload_size g"
proof -
  have "pg_max_packet_size g - n_pointers g * 8 - 40 =
      8 * (pg_max_item_pointers_per_packet g - n_pointers g + 1)"
    using gen_static_facts(3) [OF assms(1)] by (simp add: n_pointers_def)
  then show ?thesis using assms(2) by (auto simp: n_bytes_def min_def has_next_packet_def)
qed

lemma all_packets_ok:
  assumes "gen_inv g" "pg_payload_size g - pg_payload_offset g \<le> fuel" "n = heap_bits (pg_h g)"
  shows "\<exists>ps wires. all_packets fuel g = Inr ps \<and>
    map (\<lambda>p. concat (sp_buffers p)) ps =
      map (wire_bytes n (sint (pg_cnt g)) (int (pg_payload_size g))) wires \<and>
    pieces (pg_payload_offset g) (gen_payload g) wires \<and>
    pointers_sent (sh_repeat_pointers (pg_h g)) (drop (first_pointer g) (gen_pointers g)) wires \<and>
    (\<forall>w \<in> set wires. length (fst (snd w)) * 8 + length (snd (snd w)) + 40 \<le> pg_max_packet_size g \<and>
       (8 dvd length (snd (snd w)) \<or> fst w + length (snd (snd w)) = pg_payload_size g))"
  using assms
proof (induction fuel arbitrary: g)
  case 0
  then have fin: "\<not> has_next_packet g" by (simp add: has_next_packet_def)
  with 0 gen_finished_packets [OF _ fin] show ?case by (intro exI [of _ "[]"]) simp
next
  case (Suc fuel)
  let ?h = "pg_h g" and ?cnt = "sint (pg_cnt g)" and ?size = "pg_payload_size g"
  show ?case
  proof (cases "has_next_packet g")
    case False
    with Suc.prems(1) gen_finished_packets [OF _ False] show ?thesis by (intro exI [of _ "[]"]) simp
  next
    case more: True
    have st: "gen_static g" using Suc.prems(1) by (simp add: gen_inv_def)
    let ?ws = "take (n_pointers g) (drop (first_pointer g) (gen_pointers g))"
    let ?pl = "take (n_bytes g) (drop (pg_payload_offset g) (gen_payload g))"
    obtain p g' where p: "next_packet g = Inr (p, g')" "gen_inv g'"
      "concat (sp_buffers p) = packet_bytes n ?cnt (int ?size) (int (pg_payload_offset g)) ?ws ?pl"
      and g': "pg_payload_offset g' = pg_payload_offset g + n_bytes g"
      "pg_next_item_pointer g' = first_pointer g + n_pointers g"
      "pg_h g' = ?h" "pg_cnt g' = pg_cnt g" "pg_max_packet_size g' = pg_max_packet_size g"
      "pg_payload_size g' = ?size" "padded_wire g' = padded_wire g"
      by (rule next_packet_ok [OF Suc.prems(1) more Suc.prems(3)])
    note nb = n_bytes_facts [OF st more]
    have "pg_payload_size g' - pg_payload_offset g' \<le> fuel"
      using Suc.prems(2) nb(1) g' by simp
    from Suc.IH [OF p(2) this] Suc.prems(3) g' obtain ps wires where IH:
      "all_packets fuel g' = Inr ps"
      "map (\<lambda>p. concat (sp_buffers p)) ps = map (wire_bytes n ?cnt (int ?size)) wires"
      "pieces (pg_payload_offset g + n_bytes g) (gen_payload g) wires"
      "pointers_sent (sh_repeat_pointers ?h) (drop (first_pointer g') (gen_pointers g)) wires"
      "\<forall>w \<in> set wires. length (fst (snd w)) * 8 + length (snd (snd w)) + 40 \<le> pg_max_packet_size g \<and>
         (8 dvd length (snd (snd w)) \<or> fst w + length (snd (snd w)) = ?size)"
      by auto
    have len: "length ?pl = n_bytes g" "length ?ws = n_pointers g"
      using gen_payload_eq(2) [OF st] nb(2) by (auto simp: n_pointers_def)
    have "pieces (pg_payload_offset g) (gen_payload g) ((pg_payload_offset g, ?ws, ?pl) # wires)"
      using IH(3) len nb(1,2) gen_payload_eq(2) [OF st] by (auto simp flip: length_greater_0_conv)
    moreover have "pointers_sent (sh_repeat_pointers ?h) (drop (first_pointer g) (gen_pointers g))
        ((pg_payload_offset g, ?ws, ?pl) # wires)"
      using IH(4) repeat_all [OF st] g'(2,3)
      by (auto simp: pointers_sent_def first_pointer_def add.commute simp flip: drop_drop)
    moreover have "8 dvd n_bytes g \<or> pg_payload_offset g + n_bytes g = ?size"
      using n_bytes_aligned [OF st more] .
    ultimately show ?thesis
      using p(1,3) more IH(1,2,5) len nb(3)
      by (intro exI [of _ "p # ps"] exI [of _ "(pg_payload_offset g, ?ws, ?pl) # wires"])
        (simp add: wire_bytes_def)
  qed
qed

lemma length_wire_bytes:
  "length (wire_bytes n cnt hl w) = length (fst (snd w)) * 8 + length (snd (snd w)) + 40"
  by (simp add: wire_bytes_def packet_bytes_def special_pointers_def)

section \<open>Properties\<close>

text \<open>A heap of three immediate items.\<close>

definition immediates_heap :: send_heap where
  "immediates_heap = \<lparr>sh_flavour = default_flavour, sh_repeat_pointers = False,
     sh_items = [immediate_item 0x1000 1, immediate_item 0x1001 2, immediate_item 0x1002 3],
     sh_storage = []\<rparr>"

lemma immediates_sendable: "sendable immediates_heap 1"
  by (simp add: sendable_def sendable_item_def immediates_heap_def default_flavour_def wf_bits_def
      immediate_item_def item_id_defs heap_wire_def wire_item_def payload_of_def)

text \<open>
  C18: The packet generator does its job and stops.  For a packet size that is a multiple of
  eight, taking packets while there is a next one ends without a fault; the packets carry
  consecutive pieces of the payload, none of them empty and all but the last a multiple of
  eight bytes long, no packet is larger than asked for, and the item pointers are sent
  completely: once, spread over the packets in order, or in every packet if pointers are
  to be repeated.
\<close>

theorem generator_packets:
  assumes "sendable h cnt" "m mod 8 = 0" "56 \<le> m"
    and "sh_repeat_pointers h \<longrightarrow> length (sh_items h) < (m - 48) div 8"
  shows "\<exists>g ps wires. make_packet_generator h cnt m = Inr g \<and> all_packets (pg_payload_size g) g = Inr ps \<and>
    map (\<lambda>p. concat (sp_buffers p)) ps =
      map (wire_bytes (heap_bits h) (sint cnt) (int (pg_payload_size g))) wires \<and>
    pieces 0 (gen_payload g) wires \<and> pointers_sent (sh_repeat_pointers h) (gen_pointers g) wires \<and>
    (\<forall>p \<in> set ps. length (concat (sp_buffers p)) \<le> m) \<and>
    (\<forall>w \<in> set wires. 8 dvd length (snd (snd w)) \<or> fst w + length (snd (snd w)) = pg_payload_size g) \<and>
    take (length (layout_payload (heap_wire h))) (gen_payload g) = layout_payload (heap_wire h)"
proof -
  obtain g where g: "make_packet_generator h cnt m = Inr g" "gen_inv g" "pg_h g = h" "pg_cnt g = cnt"
    "pg_max_packet_size g = m" "pg_payload_offset g = 0" "pg_next_item_pointer g = 0"
    using make_packet_generator_ok [OF assms(1-3)] assms(4) by metis
  have "gen_static g" using g(2) by (simp add: gen_inv_def)
  then have pl: "take (length (layout_payload (heap_wire h))) (gen_payload g) = layout_payload (heap_wire h)"
    using gen_payload_eq(1) g(3) by simp
  have "first_pointer g = 0" by (simp add: first_pointer_def g(7))
  then obtain ps wires where ps: "all_packets (pg_payload_size g) g = Inr ps"
    "map (\<lambda>p. concat (sp_buffers p)) ps =
       map (wire_bytes (heap_bits h) (sint cnt) (int (pg_payload_size g))) wires"
    "pieces 0 (gen_payload g) wires" "pointers_sent (sh_repeat_pointers h) (gen_pointers g) wires"
    and w: "\<forall>w \<in> set wires. length (fst (snd w)) * 8 + length (snd (snd w)) + 40 \<le> m \<and>
       (8 dvd length (snd (snd w)) \<or> fst w + length (snd (snd w)) = pg_payload_size g)"
    using all_packets_ok [OF g(2) _ refl, of "pg_payload_size g"] g by auto
  have "\<forall>b \<in> set (map (\<lambda>p. concat (sp_buffers p)) ps). length b \<le> m"
    unfolding ps(2) using w by (auto simp: length_wire_bytes)
  then have "\<forall>p \<in> set ps. length (concat (sp_buffers p)) \<le> m" by simp
  with g(1) ps w pl show ?thesis by (intro exI [of _ g] exI [of _ ps] exI [of _ wires]) simp
qed

theorem generator_packets_witness:
  "\<exists>g ps. make_packet_generator immediates_heap 1 56 = Inr g \<and> all_packets (pg_payload_size g) g = Inr ps \<and>
    (\<forall>p \<in> set ps. length (concat (sp_buffers p)) \<le> 56)"
proof -
  have m: "(56 :: nat) mod 8 = 0" "56 \<le> (56 :: nat)"
    "sh_repeat_pointers immediates_heap \<longrightarrow> length (sh_items immediates_heap) < (56 - 48) div 8"
    by (simp_all add: immediates_heap_def)
  from generator_packets [OF immediates_sendable m] show ?thesis by blast
qed

text \<open>
  The constructor of the generator refuses exactly the packet sizes that cannot work:
  less than header, one pointer and eight bytes, or, when pointers are to be repeated in
  every packet, too few pointers per packet.
\<close>

lemma generator_errors:
  "make_packet_generator h cnt m = Inl e \<longleftrightarrow>
     m < 56 \<and> e = Exception ''packet size is too small'' \<or>
     56 \<le> m \<and> sh_repeat_pointers h \<and> (m - m mod 8 - 48) div 8 \<le> length (sh_items h) \<and>
       e = Exception ''packet size is too small to repeat item pointers''"
proof -
  have "m - m mod 8 < 56 \<longleftrightarrow> m < 56"
  proof -
    have "m - m mod 8 = m div 8 * 8" by (rule minus_mod_eq_div_mult)
    then show ?thesis using div_less_iff_less_mult [of 8 m 7] by simp
  qed
  moreover have "0 < (m - m mod 8 - 48) div 8" if "\<not> m < 56"
  proof -
    have "7 \<le> m div 8" using that by (simp add: less_eq_div_iff_mult_less_eq)
    then show ?thesis by (simp add: minus_mod_eq_div_mult)
  qed
  moreover have "0 < a div b \<longleftrightarrow> b \<le> a" if "0 < b" for a b :: nat
    using that by (simp add: div_greater_zero_iff)
  ultimately show ?thesis
    by (auto simp: make_packet_generator_def Let_def prefix_size_def item_pointer_size_def not_less)
qed

text \<open>
  The constructor rounds its parameter down to a multiple of eight, but the member that
  \<^verbatim>\<open>next_packet\<close> uses keeps the original value.  With a packet size of 63 the first packet of
  a heap of three immediates gets 15 bytes of padding, for which \<^verbatim>\<open>next_packet\<close> has no room:
  its assertion fails.
\<close>

lemma generator_rounding:
  "\<exists>g. make_packet_generator immediates_heap 1 63 = Inr g \<and> has_next_packet g \<and>
     next_packet g = Inl Assertion_failed"
proof -
  define g where "g = \<lparr>pg_h = immediates_heap, pg_cnt = 1, pg_max_packet_size = 63,
      pg_max_item_pointers_per_packet = 1, pg_next_item_pointer = 0, pg_next_item = 0,
      pg_next_item_offset = 0, pg_next_address = 0, pg_payload_offset = 0, pg_payload_size = 25,
      pg_need_null_item = True\<rparr>"
  have imm: "use_immediate (immediate_item i v) k" for i v k
    by (simp add: use_immediate_def immediate_item_def)
  have items: "sh_items (pg_h g) = [immediate_item 0x1000 1, immediate_item 0x1001 2, immediate_item 0x1002 3]"
    by (simp add: g_def immediates_heap_def)
  have run: "make_packet_generator immediates_heap 1 63 = Inr g"
    by (simp add: make_packet_generator_def Let_def g_def immediates_heap_def imm prefix_size_def
        item_pointer_size_def)
  have "payload_buffers g 3 0 15 = Inl Assertion_failed"
    by (subst payload_buffers.simps) (simp add: items)
  then have "payload_buffers g 2 0 15 = Inl Assertion_failed"
    by (subst payload_buffers.simps) (simp add: items imm)
  then have "payload_buffers g 1 0 15 = Inl Assertion_failed"
    by (subst payload_buffers.simps) (simp add: items imm numeral_2_eq_2)
  then have loop: "payload_buffers g 0 0 15 = Inl Assertion_failed"
    by (subst payload_buffers.simps) (simp add: items imm)
  have "next_packet g = Inl Assertion_failed"
    using loop
    by (simp add: next_packet_def Let_def g_def immediates_heap_def default_flavour_def put_immediate_def
        encodable_def put_item_pointer_def immediate_item_def item_id_defs prefix_size_def item_pointer_size_def)
  moreover have "has_next_packet g" by (simp add: has_next_packet_def g_def)
  ultimately show ?thesis using run by blast
qed

end
