(* ===== verification/HeapTransfer.thy ===== *)
theory HeapTransfer
  imports HeapPackets
begin

text \<open>
  From sender to receiver: the packets of a heap, received in any order, reassemble the heap.
\<close>

section \<open>Receiving the packets of one heap\<close>

definition wire_header :: "nat \<Rightarrow> int \<Rightarrow> int \<Rightarrow> byte list \<Rightarrow> wire_packet \<Rightarrow> packet_header" where
  "wire_header n cnt hl rest w =
     \<lparr>ph_heap_address_bits = n, ph_n_items = length (fst (snd w)), ph_heap_cnt = cnt,
      ph_heap_length = hl, ph_payload_offset = int (fst w),
      ph_payload_length = int (length (snd (snd w))),
      ph_pointers = pointer_bytes (fst (snd w)) @ snd (snd w) @ rest, ph_payload = snd (snd w) @ rest\<rparr>"

text \<open>
  Feeding decoded packets to a live heap; the result is \<open>None\<close> if one of them is refused.
\<close>

definition receive_packet :: "allocator \<Rightarrow> packet_header \<Rightarrow> live_heap \<Rightarrow> fault option + live_heap" where
  "receive_packet alloc p h =
     (case add_packet std_packet_memcpy alloc p h of
        Inl e \<Rightarrow> Inl (Some e)
      | Inr (ok, h') \<Rightarrow> if ok then Inr h' else Inl None)"

text \<open>What the packets of one heap have in common, and that each carries a piece of it.\<close>

definition wire_ok :: "nat \<Rightarrow> byte list \<Rightarrow> wire_packet \<Rightarrow> bool" where
  "wire_ok n payload w \<longleftrightarrow>
     snd (snd w) \<noteq> [] \<and> fst w + length (snd (snd w)) \<le> length payload \<and>
     snd (snd w) = take (length (snd (snd w))) (drop (fst w) payload) \<and>
     (\<forall>p \<in> set (fst (snd w)). regular_pointer (make_pointer_decoder n) p \<and>
        (\<not> is_immediate (make_pointer_decoder n) p \<longrightarrow>
           get_address (make_pointer_decoder n) p \<le> int (length payload)))"

definition wire_range :: "wire_packet \<Rightarrow> int set" where
  "wire_range w = {int (fst w)..<int (fst w) + int (length (snd (snd w)))}"

text \<open>The state of the receiving heap when part of the packets have arrived.\<close>

definition receiving :: "nat \<Rightarrow> int \<Rightarrow> byte list \<Rightarrow> live_heap \<Rightarrow> bool" where
  "receiving n cnt payload h \<longleftrightarrow>
     lh_inv h \<and> lh_decoder h = make_pointer_decoder n \<and> lh_cnt h = cnt \<and>
     lh_heap_length h \<in> {- 1, int (length payload)} \<and> lh_min_length h \<le> int (length payload) \<and>
     (\<forall>r \<in> set (lh_payload_ranges h). fst r < snd r) \<and>
     (\<forall>i. lh_data h i \<noteq> None \<longrightarrow> lh_data h i = Some (payload ! nat i))"

lemma packet_pointers_wire [simp]:
  "packet_pointers (length ws) (pointer_bytes ws @ rest) = ws"
proof -
  have "map (\<lambda>i. load_be64 (drop (i * 8) (pointer_bytes ws @ rest))) [0..<length ws] = map (nth ws) [0..<length ws]"
    by (rule map_cong) (simp_all add: load_pointer_bytes del: drop_append)
  then show ?thesis by (simp only: packet_pointers_def item_pointer_size_def map_nth)
qed

lemma fold_note_pointer_set:
  assumes "\<forall>p \<in> set ws. regular_pointer d p"
  shows "set (fold (note_pointer d) ws ps) = set ps \<union> set ws"
  using assms by (induction ws arbitrary: ps) (auto simp: note_pointer_def)

lemma address_bound_le:
  assumes "\<forall>p \<in> set ws. \<not> is_immediate d p \<longrightarrow> get_address d p \<le> b" "m \<le> b"
  shows "address_bound d ws m \<le> b"
  using assms by (induction ws arbitrary: m) auto

lemma receive_one:
  assumes st: "receiving n cnt payload h" and n: "wf_bits n" and w: "wire_ok n payload w"
    and len: "int (length payload) < 2 ^ 56" and cnt: "0 \<le> cnt" "cnt < 2 ^ 56"
    and new: "dom (lh_data h) \<inter> wire_range w = {}"
    and p: "p = wire_header n cnt (int (length payload)) rest w"
  obtains h' where "receive_packet (default_allocate fresh) p h = Inr h'" "receiving n cnt payload h'"
    "dom (lh_data h') = dom (lh_data h) \<union> wire_range w"
    "set (lh_pointers h') = set (lh_pointers h) \<union> set (fst (snd w))"
    "lh_heap_length h' = int (length payload)" "lh_bug_compat h' = lh_bug_compat h"
proof -
  obtain off ws pl where w': "w = (off, ws, pl)" by (cases w)
  have inv: "lh_inv h" using st by (simp add: receiving_def)
  then have ranges: "ranges_ok (- 1) (lh_payload_ranges h)" by (simp add: lh_inv_def lengths_inv_def)
  have pl: "pl \<noteq> []" "off + length pl \<le> length payload" "pl = take (length pl) (drop off payload)"
    and regular: "\<forall>p \<in> set ws. regular_pointer (make_pointer_decoder n) p"
    and addr: "\<forall>p \<in> set ws. \<not> is_immediate (make_pointer_decoder n) p \<longrightarrow>
      get_address (make_pointer_decoder n) p \<le> int (length payload)"
    using w by (simp_all add: w' wire_ok_def)
  have wf: "wf_packet p"
    using n len cnt pl(2) by (simp add: wf_packet_def p wire_header_def w' item_pointer_size_def)
  have disj: "covered (lh_payload_ranges h) \<inter> {int off..<int off + int (length pl)} = {}"
    using new by (simp add: wire_range_def w' dom_lh_data [OF inv])
  have accept: "fst (add_payload_range (ph_payload_offset p) (ph_payload_offset p + ph_payload_length p)
      (lh_payload_ranges h))"
    using add_payload_range_exact [OF ranges, of "int off" "int off + int (length pl)"] st disj pl(1)
    by (simp add: p wire_header_def w' receiving_def)
  have fits: "packet_fits h p"
    using st by (auto simp: packet_fits_def p wire_header_def receiving_def)
  have c: "lh_cnt h = ph_heap_cnt p" using st by (simp add: p wire_header_def receiving_def)
  obtain h' where run: "add_packet std_packet_memcpy (default_allocate fresh) p h = Inr (True, h')"
    and inv': "lh_inv h'" and added: "packet_added h p h'"
    using default_allocator.add_packet_accept [OF inv wf c fits accept] by blast
  note ha = added [unfolded packet_added_def header_added_def]
  have ptrs: "packet_pointers (ph_n_items p) (ph_pointers p) = ws" by (simp add: p wire_header_def w')
  have data: "packet_data p i = (if i \<in> wire_range w then Some (payload ! nat i) else None)" for i
  proof (cases "i \<in> wire_range w")
    case True
    define k where "k = nat (i - int off)"
    have k: "k < length pl" "nat i = off + k" using True by (auto simp: wire_range_def w' k_def)
    have "pl ! k = payload ! (off + k)"
      using k(1) pl(2) by (subst pl(3)) simp
    then show ?thesis
      using True k by (simp add: packet_data_def p wire_header_def w' wire_range_def nth_append
          k_def [symmetric])
  next
    case False
    then show ?thesis by (auto simp: packet_data_def p wire_header_def w' wire_range_def)
  qed
  then have dom: "dom (packet_data p) = wire_range w" by (auto split: if_splits)
  have d: "lh_decoder h = make_pointer_decoder n" using st by (simp add: receiving_def)
  have "lh_min_length h' \<le> int (length payload)"
    using ha ptrs d st address_bound_le [OF addr, of "int (length payload)"]
    by (simp add: p wire_header_def receiving_def max_absorb2)
  moreover have "\<forall>r \<in> set (lh_payload_ranges h'). fst r < snd r"
  proof (rule add_payload_range_nonempty [OF ranges])
    show "\<forall>r \<in> set (lh_payload_ranges h). fst r < snd r" using st by (simp add: receiving_def)
    show "add_payload_range (int off) (int off + int (length pl)) (lh_payload_ranges h) =
        (True, lh_payload_ranges h')"
      using ha by (simp add: p wire_header_def w')
  qed (use pl(1) in simp_all)
  moreover have "lh_data h' i = Some (payload ! nat i)" if "lh_data h' i \<noteq> None" for i
  proof (cases "packet_data p i")
    case None
    then have "lh_data h' i = lh_data h i" using ha by (simp add: map_add_def)
    then show ?thesis using that st by (simp add: receiving_def)
  next
    case (Some b)
    then have "lh_data h' i = Some b" using ha by (simp add: map_add_def)
    then show ?thesis using Some data [of i] by (simp split: if_splits)
  qed
  moreover have "lh_heap_length h' = int (length payload)" using ha by (simp add: p wire_header_def)
  ultimately have "receiving n cnt payload h'"
    using st ha inv' by (simp add: receiving_def)
  moreover have "set (lh_pointers h') = set (lh_pointers h) \<union> set (fst (snd w))"
    using ha ptrs d fold_note_pointer_set [OF regular] by (simp add: w')
  moreover have "dom (lh_data h') = dom (lh_data h) \<union> wire_range w"
    using ha dom by auto
  ultimately show ?thesis
    using run ha by (intro that [of h']) (simp_all add: receive_packet_def p wire_header_def)
qed

lemma receive_many:
  assumes "receiving n cnt payload h" "wf_bits n" "\<forall>w \<in> set wires. wire_ok n payload w"
    and "int (length payload) < 2 ^ 56" "0 \<le> cnt" "cnt < 2 ^ 56"
    and "\<forall>w \<in> set wires. dom (lh_data h) \<inter> wire_range w = {}"
    and "sorted_wrt (\<lambda>u v. wire_range u \<inter> wire_range v = {}) wires"
  shows "\<exists>h'. fold_result (receive_packet (default_allocate fresh))
      (map (wire_header n cnt (int (length payload)) rest) wires) h = Inr h' \<and>
    receiving n cnt payload h' \<and> dom (lh_data h') = dom (lh_data h) \<union> (\<Union>w \<in> set wires. wire_range w) \<and>
    set (lh_pointers h') = set (lh_pointers h) \<union> (\<Union>w \<in> set wires. set (fst (snd w))) \<and>
    (wires \<noteq> [] \<longrightarrow> lh_heap_length h' = int (length payload)) \<and> lh_bug_compat h' = lh_bug_compat h"
  using assms(1,3,7,8)
proof (induction wires arbitrary: h)
  case (Cons w wires)
  let ?hl = "int (length payload)"
  have w: "wire_ok n payload w" "dom (lh_data h) \<inter> wire_range w = {}" using Cons.prems by simp_all
  obtain h1 where h1: "receive_packet (default_allocate fresh) (wire_header n cnt ?hl rest w) h = Inr h1"
    "receiving n cnt payload h1" "dom (lh_data h1) = dom (lh_data h) \<union> wire_range w"
    "set (lh_pointers h1) = set (lh_pointers h) \<union> set (fst (snd w))"
    "lh_heap_length h1 = ?hl" "lh_bug_compat h1 = lh_bug_compat h"
    by (rule receive_one [OF Cons.prems(1) assms(2) w(1) assms(4-6) w(2) refl])
  have "\<forall>v \<in> set wires. dom (lh_data h1) \<inter> wire_range v = {}"
    using Cons.prems(3,4) by (simp add: h1(3) Int_Un_distrib2)
  from Cons.IH [OF h1(2) _ this] Cons.prems(2,4) obtain h' where
    h': "fold_result (receive_packet (default_allocate fresh)) (map (wire_header n cnt ?hl rest) wires) h1 = Inr h'"
    "receiving n cnt payload h'" "dom (lh_data h') = dom (lh_data h1) \<union> (\<Union>w \<in> set wires. wire_range w)"
    "set (lh_pointers h') = set (lh_pointers h1) \<union> (\<Union>w \<in> set wires. set (fst (snd w)))"
    "wires \<noteq> [] \<longrightarrow> lh_heap_length h' = ?hl" "lh_bug_compat h' = lh_bug_compat h1" by auto
  have "lh_heap_length h' = ?hl" using h'(1,5) h1(5) by (cases "wires = []") auto
  with h1 h' show ?case by auto
qed simp

text \<open>Once all bytes have arrived the heap is complete, and its block holds the payload.\<close>

lemma received_complete:
  assumes "receiving n cnt payload h" "lh_heap_length h = int (length payload)"
    and "dom (lh_data h) = {0..<int (length payload)}"
  shows "is_complete h" "\<exists>post. lh_payload_bytes h = payload @ post"
    "lh_min_length h = int (length payload)"
proof -
  have inv: "lh_inv h" using assms(1) by (simp add: receiving_def)
  then have "lh_heap_length h \<le> lh_min_length h" by (simp add: lh_inv_def lengths_inv_def)
  with assms(1,2) show ml: "lh_min_length h = int (length payload)" by (simp add: receiving_def)
  have cov: "covered (lh_payload_ranges h) = {0..<int (length payload)}"
    using assms(3) dom_lh_data [OF inv] by simp
  then have cont: "is_contiguous h" using contiguous_covered [OF inv] ml by simp
  then show "is_complete h" using assms(2) ml by (simp add: is_complete_def is_contiguous_def)
  have len: "length payload \<le> length (lh_payload_bytes h)"
    using contiguous_payload(1) [OF inv cont] ml by simp
  have "lh_payload_bytes h ! i = payload ! i" if "i < length payload" for i
  proof -
    have "int i \<in> dom (lh_data h)" using that assms(3) by simp
    then have "lh_data h (int i) = Some (payload ! i)" using assms(1) by (force simp: receiving_def)
    then show ?thesis by (auto simp: lh_data_def lh_payload_bytes_def split: if_splits option.splits)
  qed
  then have "take (length payload) (lh_payload_bytes h) = payload"
    using len by (intro nth_equalityI) simp_all
  then show "\<exists>post. lh_payload_bytes h = payload @ post" by (metis append_take_drop_id)
qed

section \<open>The packets of the generator\<close>

lemma pieces_ranges:
  assumes "pieces off payload wires" "off \<le> length payload"
  shows "(\<Union>w \<in> set wires. wire_range w) = {int off..<int (length payload)}"
    "sorted_wrt (\<lambda>u v. wire_range u \<inter> wire_range v = {}) wires"
    "\<forall>w \<in> set wires. wire_range w \<noteq> {}"
proof -
  have "(\<Union>w \<in> set wires. wire_range w) = {int off..<int (length payload)} \<and>
      sorted_wrt (\<lambda>u v. wire_range u \<inter> wire_range v = {}) wires \<and> (\<forall>w \<in> set wires. wire_range w \<noteq> {})"
    using assms
  proof (induction off payload wires rule: pieces.induct)
    case (2 off payload o' ws pl rest)
    then have IH: "(\<Union>w \<in> set rest. wire_range w) = {int (off + length pl)..<int (length payload)}"
      "sorted_wrt (\<lambda>u v. wire_range u \<inter> wire_range v = {}) rest" "\<forall>w \<in> set rest. wire_range w \<noteq> {}"
      and w: "wire_range (o', ws, pl) = {int off..<int (off + length pl)}" "pl \<noteq> []"
        "off + length pl \<le> length payload"
      by (auto simp: wire_range_def)
    have "wire_range (o', ws, pl) \<inter> wire_range v = {}" if "v \<in> set rest" for v
    proof -
      have "wire_range v \<subseteq> {int (off + length pl)..<int (length payload)}" using IH(1) that by blast
      then show ?thesis unfolding w(1) by auto
    qed
    with IH w show ?case by (simp add: ivl_disj_un_two(3))
  qed simp
  then show "(\<Union>w \<in> set wires. wire_range w) = {int off..<int (length payload)}"
    "sorted_wrt (\<lambda>u v. wire_range u \<inter> wire_range v = {}) wires"
    "\<forall>w \<in> set wires. wire_range w \<noteq> {}" by simp_all
qed

text \<open>Disjointness does not depend on the order.\<close>

lemma disjoint_permuted:
  assumes "sorted_wrt (\<lambda>u v. f u \<inter> f v = {}) xs" "\<forall>x \<in> set xs. f x \<noteq> {}" "mset ys = mset xs"
  shows "sorted_wrt (\<lambda>u v. f u \<inter> f v = {}) ys"
proof -
  have pair: "distinct xs \<and> (\<forall>x \<in> set xs. \<forall>y \<in> set xs. x \<noteq> y \<longrightarrow> f x \<inter> f y = {})"
    using assms(1,2) by (induction xs) auto
  have "distinct ys" "set ys = set xs"
    using pair assms(3) by (metis mset_eq_imp_distinct_iff) (metis assms(3) set_mset_mset)
  with pair have "distinct ys \<and> (\<forall>x \<in> set ys. \<forall>y \<in> set ys. x \<noteq> y \<longrightarrow> f x \<inter> f y = {})" by simp
  then show ?thesis by (induction ys) auto
qed

lemma permuted_map:
  assumes "mset bs = image_mset f M"
  shows "\<exists>ws. bs = map f ws \<and> mset ws = M"
  using assms
proof (induction bs arbitrary: M)
  case (Cons b bs)
  then have "b \<in># image_mset f M" by (metis list.set_intros(1) set_mset_mset)
  then obtain x where x: "x \<in># M" "b = f x" by auto
  then have "mset bs = image_mset f (M - {#x#})" using Cons.prems by (simp add: image_mset_Diff flip: Cons.prems)
  from Cons.IH [OF this] obtain ws where "bs = map f ws" "mset ws = M - {#x#}" by blast
  with x show ?case by (intro exI [of _ "x # ws"]) simp
qed simp

lemma layout_pointer_cases:
  assumes "wf_bits n" "\<forall>v \<in> set vs. item_fits n v" "a + length (layout_payload vs) < 2 ^ n"
    and "p \<in> set (layout_pointers n a vs)"
  obtains v where "v \<in> set vs" "get_id (make_pointer_decoder n) p = fst v"
    "is_immediate (make_pointer_decoder n) p = fst (snd v)"
    "\<not> fst (snd v) \<Longrightarrow> get_address (make_pointer_decoder n) p \<le> int (a + length (layout_payload vs))"
proof -
  have "\<exists>v \<in> set vs. get_id (make_pointer_decoder n) p = fst v \<and>
      is_immediate (make_pointer_decoder n) p = fst (snd v) \<and>
      (\<not> fst (snd v) \<longrightarrow> get_address (make_pointer_decoder n) p \<le> int (a + length (layout_payload vs)))"
    using assms(2-)
  proof (induction vs arbitrary: a)
    case (Cons v vs)
    obtain i imm bs where v: "v = (i, imm, bs)" by (cases v)
    let ?a = "a + length (payload_of v)"
    have fits: "item_fits n (i, imm, bs)" using Cons.prems(1) by (simp add: v)
    consider (here) "p = hd (layout_pointers n a [v])" | (later) "p \<in> set (layout_pointers n ?a vs)"
      using Cons.prems(3) by (auto simp: v payload_of_def split: if_splits)
    then show ?case
    proof cases
      case here
      show ?thesis
      proof (rule bexI [of _ v])
        show "get_id (make_pointer_decoder n) p = fst v \<and> is_immediate (make_pointer_decoder n) p = fst (snd v) \<and>
          (\<not> fst (snd v) \<longrightarrow> get_address (make_pointer_decoder n) p \<le> int (a + length (layout_payload (v # vs))))"
        proof (cases imm)
          case True
          then show ?thesis
            using here fits_encodable [OF assms(1)] fits assms(1) by (simp add: v codec_simps)
        next
          case False
          moreover have "encodable n i (int a)" using address_encodable [OF fits] Cons.prems(2) by simp
          ultimately show ?thesis using here assms(1) by (simp add: v codec_simps)
        qed
      qed simp
    next
      case later
      have "?a + length (layout_payload vs) < 2 ^ n" using Cons.prems(2) by simp
      from Cons.IH [OF _ this later] Cons.prems(1) show ?thesis by auto
    qed
  qed simp
  then show ?thesis using that by blast
qed

lemma padded_wire_ok:
  assumes "gen_static g"
  shows "layout_ok (heap_bits (pg_h g)) (padded_wire g)"
    "\<forall>v \<in> set (padded_wire g). fst v = 0 \<and> \<not> fst (snd v) \<and> snd (snd v) \<noteq> [] \<or>
       PAYLOAD_LENGTH_ID < fst v \<and> v \<in> set (heap_wire (pg_h g))"
    "\<forall>v \<in> set (heap_wire (pg_h g)). PAYLOAD_LENGTH_ID < fst v"
proof -
  let ?n = "heap_bits (pg_h g)"
  have s: "sendable (pg_h g) (pg_cnt g)" using assms by (simp add: gen_static_def)
  have items: "item_fits ?n v \<and> PAYLOAD_LENGTH_ID < fst v" if "v \<in> set (heap_wire (pg_h g))" for v
    using that s wire_item_fits [of ?n] by (auto simp: heap_wire_def sendable_def sendable_item_def)
  then show "\<forall>v \<in> set (heap_wire (pg_h g)). PAYLOAD_LENGTH_ID < fst v" by blast
  have "pg_need_null_item g \<Longrightarrow> length (layout_payload (heap_wire (pg_h g))) < pg_payload_size g"
    using gen_static_size(1,2) [OF assms] by simp
  with items show "layout_ok ?n (padded_wire g)"
    "\<forall>v \<in> set (padded_wire g). fst v = 0 \<and> \<not> fst (snd v) \<and> snd (snd v) \<noteq> [] \<or>
       PAYLOAD_LENGTH_ID < fst v \<and> v \<in> set (heap_wire (pg_h g))"
    using gen_payload_eq(2) [OF assms] gen_static_facts(5) [OF assms]
    by (auto simp: layout_ok_def padded_wire_def item_fits_def split: if_splits)
qed

section \<open>End to end\<close>

lemma wire_packets_ok:
  assumes st: "gen_static g" and n: "n = heap_bits (pg_h g)"
    and pcs: "pieces 0 (gen_payload g) wires" and few: "\<forall>w \<in> set wires. set (fst (snd w)) \<subseteq> set (gen_pointers g)"
    and w: "w \<in> set wires"
  shows "wire_ok n (gen_payload g) w" "\<forall>p \<in> set (fst (snd w)). plain_pointer n p"
proof -
  let ?d = "make_pointer_decoder n"
  have wf: "wf_bits n" using gen_static_facts(1) [OF st] by (simp add: n)
  have fits: "\<forall>v \<in> set (padded_wire g). item_fits n v" "0 + length (gen_payload g) < 2 ^ n"
    using padded_wire_ok(1) [OF st] by (simp_all add: layout_ok_def n)
  have ptr: "regular_pointer ?d p \<and> plain_pointer n p \<and>
      (\<not> is_immediate ?d p \<longrightarrow> get_address ?d p \<le> int (length (gen_payload g)))"
    if "p \<in> set (gen_pointers g)" for p
  proof -
    from that have "p \<in> set (layout_pointers n 0 (padded_wire g))" by (simp add: n)
    then obtain v where v: "v \<in> set (padded_wire g)" "get_id ?d p = fst v" "is_immediate ?d p = fst (snd v)"
      "\<not> fst (snd v) \<Longrightarrow> get_address ?d p \<le> int (0 + length (gen_payload g))"
      by (rule layout_pointer_cases [OF wf fits]) blast
    then show ?thesis
      using padded_wire_ok(2) [OF st]
      by (auto simp: regular_pointer_def plain_pointer_def packet_special_ids_def item_id_defs)
  qed
  have piece: "snd (snd w) \<noteq> [] \<and> fst w + length (snd (snd w)) \<le> length payload \<and>
      snd (snd w) = take (length (snd (snd w))) (drop (fst w) payload)"
    if "pieces off payload wires" "w \<in> set wires" for off payload wires
    using that by (induction off payload wires rule: pieces.induct) auto
  show "wire_ok n (gen_payload g) w"
    using piece [OF pcs w] ptr few w by (auto simp: wire_ok_def)
  show "\<forall>p \<in> set (fst (snd w)). plain_pointer n p" using ptr few w by blast
qed

lemma decode_wire:
  assumes inv: "gen_inv g" and n: "n = heap_bits (pg_h g)"
    and w: "wire_ok n (gen_payload g) w" "\<forall>p \<in> set (fst (snd w)). plain_pointer n p"
    and few: "length (fst (snd w)) \<le> length (padded_wire g)"
  shows "decode_packet (wire_bytes n (sint (pg_cnt g)) (int (pg_payload_size g)) w @ rest) =
    Some (wire_header n (sint (pg_cnt g)) (int (pg_payload_size g)) rest w,
      length (wire_bytes n (sint (pg_cnt g)) (int (pg_payload_size g)) w))"
proof -
  obtain off ws pl where w': "w = (off, ws, pl)" by (cases w)
  have st: "gen_static g" using inv by (simp add: gen_inv_def)
  have len: "off + length pl \<le> pg_payload_size g" "pl \<noteq> []"
    using w(1) gen_payload_eq(2) [OF st] by (simp_all add: wire_ok_def w')
  have items: "length ws + 4 < 2 ^ 16"
    using few st
    by (cases "pg_need_null_item g") (simp_all add: w' length_padded_wire gen_static_def sendable_def)
  have enc: "encodable n HEAP_CNT_ID (sint (pg_cnt g))" "encodable n HEAP_LENGTH_ID (int (pg_payload_size g))"
    "encodable n PAYLOAD_OFFSET_ID (int off)" "encodable n PAYLOAD_LENGTH_ID (int (length pl))"
    using special_encodable [OF st] len by (simp_all add: n)
  have "int off + int (length pl) \<le> int (pg_payload_size g)" using len by simp
  from decode_packet_bytes [OF gen_static_facts(1) [OF st, folded n] items enc _ this, of rest] w(2)
  show ?thesis by (simp add: w' wire_bytes_def wire_header_def)
qed

lemma pointers_sent_few:
  assumes "pointers_sent rep ptrs wires" "w \<in> set wires"
  shows "set (fst (snd w)) \<subseteq> set ptrs \<and> length (fst (snd w)) \<le> length ptrs"
proof (cases rep)
  case False
  obtain us vs where "wires = us @ w # vs" using assms(2) by (meson split_list)
  then have "ptrs = concat (map (\<lambda>w. fst (snd w)) us) @ fst (snd w) @ concat (map (\<lambda>w. fst (snd w)) vs)"
    using assms(1) False by (simp add: pointers_sent_def)
  then show ?thesis by auto
qed (use assms in \<open>simp add: pointers_sent_def\<close>)

text \<open>What is found in a heap when all its packets have arrived.\<close>

lemma received_items:
  assumes st: "gen_static g" and n: "n = heap_bits (pg_h g)"
    and h': "receiving n (sint (pg_cnt g)) (gen_payload g) h'"
    and hl: "lh_heap_length h' = int (length (gen_payload g))"
    and dom: "dom (lh_data h') = {0..<int (length (gen_payload g))}"
    and ptrs: "set (lh_pointers h') = set (gen_pointers g)"
    and nonempty: "\<forall>v \<in> set (heap_wire (pg_h g)). fst (snd v) \<or> snd (snd v) \<noteq> []"
  obtains us where "is_complete h'" "frozen_items h' True = addressed (heap_wire (pg_h g)) @ us"
    "set us = set (immediates (heap_wire (pg_h g)))" "distinct us"
proof -
  let ?d = "make_pointer_decoder n" and ?payload = "gen_payload g" and ?vs = "padded_wire g"
  have wf: "wf_bits n" using gen_static_facts [OF st] by (simp add: n)
  note complete = received_complete [OF h' hl dom]
  have inv': "lh_inv h'" "lh_decoder h' = ?d" using h' by (simp_all add: receiving_def)
  have dist: "distinct (lh_pointers h')" using inv'(1) by (simp add: lh_inv_def pointers_inv_def)
  have set': "set (lh_pointers h') = set (layout_pointers n 0 ?vs)" using ptrs by (simp add: n)
  note lok = padded_wire_ok [OF st, folded n]
  have fits: "\<forall>v \<in> set ?vs. item_fits n v" "0 + length ?payload < 2 ^ n"
    using lok(1) by (simp_all add: layout_ok_def)
  have "\<forall>v \<in> set ?vs. fst (snd v) \<or> snd (snd v) \<noteq> []" using lok(2) nonempty by blast
  moreover have "set (filter (\<lambda>p. \<not> is_immediate ?d p) (lh_pointers h')) = set (layout_pointers n 0 (addressed ?vs))"
    by (simp only: layout_pointers_filter(2) [OF wf fits, symmetric] set_filter set')
  ultimately have adr: "sorted_pointers ?d (filter (\<lambda>p. \<not> is_immediate ?d p) (lh_pointers h')) =
      layout_pointers n 0 (addressed ?vs)"
    using dist by (intro layout_sorted_any_order [OF wf lok(1)]) simp_all
  obtain us post where post: "lh_payload_bytes h' = ?payload @ post"
    and us: "frozen_items h' True = filter reported (addressed ?vs) @ us" "set us = set (immediates ?vs)" "distinct us"
  proof -
    obtain post where post: "lh_payload_bytes h' = ?payload @ post" using complete(2) by blast
    have "set (filter (is_immediate ?d) (lh_pointers h')) = set (filter (is_immediate ?d) (layout_pointers n 0 ?vs))"
      using set' by simp
    moreover have "\<forall>v \<in> set ?vs. fst (snd v) \<longrightarrow> fst v \<noteq> 0"
      using lok(2) by (auto simp: item_id_defs)
    ultimately obtain us where "heap_items ?d (int (length ?payload)) True (?payload @ post)
        (sorted_pointers ?d (lh_pointers h')) = filter reported (addressed ?vs) @ us"
      "set us = set (immediates ?vs)" "distinct (lh_pointers h') \<Longrightarrow> distinct us"
      using frozen_layout [OF wf refl lok(1) _ adr, of post] by metis
    then show ?thesis
      using that [OF post] dist by (simp add: frozen_items_def inv'(2) complete(3) post)
  qed
  have "filter reported (addressed ?vs) = addressed (heap_wire (pg_h g))"
    "immediates ?vs = immediates (heap_wire (pg_h g))"
  proof -
    have "\<forall>v \<in> set (heap_wire (pg_h g)). fst v \<noteq> 0"
      using lok(3) by (auto simp: item_id_defs)
    then have "filter reported (addressed (heap_wire (pg_h g))) = addressed (heap_wire (pg_h g))"
      using nonempty by (intro filter_True) (auto simp: reported_def)
    then show "filter reported (addressed ?vs) = addressed (heap_wire (pg_h g))"
      "immediates ?vs = immediates (heap_wire (pg_h g))" by (simp_all add: padded_wire_def)
  qed
  with us complete(1) show ?thesis by (intro that [of us]) simp_all
qed

text \<open>The whole way, on the level of the wire packets.\<close>

lemma receive_wires:
  assumes inv: "gen_inv g" and n: "n = heap_bits (pg_h g)"
    and pcs: "pieces 0 (gen_payload g) wires"
    and sent: "pointers_sent (sh_repeat_pointers (pg_h g)) (gen_pointers g) wires"
    and perm: "mset wires' = mset wires"
    and nonempty: "\<forall>v \<in> set (heap_wire (pg_h g)). fst (snd v) \<or> snd (snd v) \<noteq> []"
  obtains h' us where
    "fold_result (receive_packet (default_allocate fresh))
       (map (wire_header n (sint (pg_cnt g)) (int (pg_payload_size g)) []) wires')
       (make_live_heap (wire_header n (sint (pg_cnt g)) (int (pg_payload_size g)) [] (hd wires')) bc) = Inr h'"
    "lh_inv h'" "is_complete h'" "lh_cnt h' = sint (pg_cnt g)" "lh_bug_compat h' = bc"
    "frozen_items h' True = addressed (heap_wire (pg_h g)) @ us"
    "set us = set (immediates (heap_wire (pg_h g)))" "distinct us"
proof -
  let ?cnt = "sint (pg_cnt g)" and ?size = "int (pg_payload_size g)" and ?d = "make_pointer_decoder n"
  let ?payload = "gen_payload g" and ?vs = "padded_wire g"
  have st: "gen_static g" using inv by (simp add: gen_inv_def)
  have wf: "wf_bits n" and size: "length ?payload = pg_payload_size g" "0 < pg_payload_size g"
    using gen_static_facts [OF st] gen_payload_eq(2) [OF st] by (simp_all add: n)
  have "pg_payload_size g < 2 ^ n" using gen_static_facts(5) [OF st] by (simp add: n)
  also have "\<dots> \<le> 2 ^ 56" using wf_bits_le [OF wf] by (intro power_increasing) simp_all
  finally have "int (pg_payload_size g) < int (2 ^ 56)" by (simp only: of_nat_less_iff)
  then have small: "int (length ?payload) < 2 ^ 56" by (simp add: size)
  note cnt = special_encodable(5,6) [OF st]
  have same: "set wires' = set wires" using perm by (metis set_mset_mset)
  have ne: "wires \<noteq> []" using pcs size by auto
  have ptrs: "(\<Union>w \<in> set wires. set (fst (snd w))) = set (gen_pointers g)"
  proof (cases "sh_repeat_pointers (pg_h g)")
    case True
    then show ?thesis using sent ne by (simp add: pointers_sent_def)
  next
    case False
    then have "set (concat (map (\<lambda>w. fst (snd w)) wires)) = set (gen_pointers g)"
      using sent by (simp add: pointers_sent_def)
    then show ?thesis by simp
  qed
  then have few: "\<forall>w \<in> set wires. set (fst (snd w)) \<subseteq> set (gen_pointers g)" by blast
  have ok: "\<forall>w \<in> set wires'. wire_ok n ?payload w"
    using wire_packets_ok(1) [OF st n pcs few] same by simp
  note ranges = pieces_ranges [OF pcs le0]
  have disj: "sorted_wrt (\<lambda>u v. wire_range u \<inter> wire_range v = {}) wires'"
    by (rule disjoint_permuted [OF ranges(2,3) perm])
  define h0 where "h0 = make_live_heap (wire_header n ?cnt ?size [] (hd wires')) bc"
  have "wire_ok n ?payload (hd wires')" using ok same ne by (metis hd_in_set set_empty)
  then have "wf_packet (wire_header n ?cnt ?size [] (hd wires'))"
    using wf small cnt by (simp add: wf_packet_def wire_header_def wire_ok_def item_pointer_size_def size)
  then have "lh_inv h0" by (simp add: h0_def make_live_heap_inv)
  then have h0: "receiving n ?cnt ?payload h0" "dom (lh_data h0) = {}" "lh_pointers h0 = []" "lh_bug_compat h0 = bc"
    by (simp_all add: receiving_def h0_def) (simp_all add: make_live_heap_def wire_header_def)
  have "\<forall>w \<in> set wires'. dom (lh_data h0) \<inter> wire_range w = {}" using h0(2) by simp
  from receive_many [OF h0(1) wf ok small cnt this disj, of fresh "[]"]
  obtain h' where run: "fold_result (receive_packet (default_allocate fresh))
      (map (wire_header n ?cnt (int (length ?payload)) []) wires') h0 = Inr h'"
    and h': "receiving n ?cnt ?payload h'" "dom (lh_data h') = dom (lh_data h0) \<union> (\<Union>w \<in> set wires'. wire_range w)"
      "set (lh_pointers h') = set (lh_pointers h0) \<union> (\<Union>w \<in> set wires'. set (fst (snd w)))"
      "wires' \<noteq> [] \<longrightarrow> lh_heap_length h' = int (length ?payload)" "lh_bug_compat h' = lh_bug_compat h0"
    by blast
  have hl: "lh_heap_length h' = int (length ?payload)" using h'(4) same ne by auto
  have dom: "dom (lh_data h') = {0..<int (length ?payload)}"
    using h'(2) h0(2) ranges(1) same by simp
  have ptr': "set (lh_pointers h') = set (gen_pointers g)" using h'(3) h0(3) same ptrs by simp
  have inv': "lh_inv h'" "lh_cnt h' = ?cnt" using h'(1) by (simp_all add: receiving_def)
  from received_items [OF st n h'(1) hl dom ptr' nonempty] obtain us where
    us: "is_complete h'" "frozen_items h' True = addressed (heap_wire (pg_h g)) @ us"
    "set us = set (immediates (heap_wire (pg_h g)))" "distinct us" .
  show ?thesis
    using run inv' us h'(5) h0(4) by (intro that [of h' us]) (simp_all add: h0_def size)
qed

section \<open>Properties\<close>

text \<open>
  The packets \<open>bytes\<close> are decoded and accepted one after the other, complete a heap, and the
  frozen heap has the addressed items of \<open>vs\<close>, in order, and the immediate ones.
\<close>

definition reassembles ::
  "(nat \<Rightarrow> byte) \<Rightarrow> bug_compat_mask \<Rightarrow> nat \<Rightarrow> int \<Rightarrow> item_value list \<Rightarrow> byte list list \<Rightarrow> bool" where
  "reassembles fresh bc self cnt vs bytes \<longleftrightarrow>
     (\<exists>hdrs h' hb h'' us. list_all2 (\<lambda>b p. decode_packet b = Some (p, length b)) bytes hdrs \<and>
        fold_result (receive_packet (default_allocate fresh)) hdrs (make_live_heap (hd hdrs) bc) = Inr h' \<and>
        is_complete h' \<and> make_heap fresh self h' = Inr (hb, h'') \<and> hb_cnt hb = cnt \<and>
        heap_view hb (addressed vs @ us) \<and> set us = set (immediates vs) \<and> distinct us)"

lemma be_bytes_numeral [eval_simps]:
  "be_bytes (numeral k) v = be_bytes (pred_numeral k) (v div 256) @ [word_of_nat v]"
  by (subst numeral_eq_Suc) (rule be_bytes.simps(2))

text \<open>A heap with an immediate item, a short one that is sent as an immediate, and two addressed ones.\<close>

definition example_send_heap :: send_heap where
  "example_send_heap =
     \<lparr>sh_flavour = default_flavour, sh_repeat_pointers = False,
      sh_items = [immediate_item 0x1000 7, buffer_item 0x1001 [1, 2, 3] True,
        buffer_item 0x1002 [1, 2, 3, 4, 5, 6, 7, 8, 9] False, buffer_item 0x1003 [5] False],
      sh_storage = []\<rparr>"

lemma example_sendable: "sendable example_send_heap 1"
  by (simp add: sendable_def sendable_item_def example_send_heap_def default_flavour_def wf_bits_def
      immediate_item_def buffer_item_def item_id_defs heap_wire_def wire_item_def payload_of_def)

text \<open>
  C2: Heaps arrive as they were sent.  A heap whose identifiers, immediate values and size fit
  the flavour is cut into packets without a fault; when the packets are received, in whatever
  order, every one of them is decoded and accepted, the receiving heap becomes complete, and
  freezing it gives the addressed items of the sender, in order and with their bytes, and
  exactly the immediate ones.
\<close>

theorem heap_transfer:
  assumes "sendable h cnt" "m mod 8 = 0" "56 \<le> m"
    and "sh_repeat_pointers h \<longrightarrow> length (sh_items h) < (m - 48) div 8"
    and "\<forall>it \<in> set (sh_items h). use_immediate it (max_immediate_size h) \<or> si_buffer it \<noteq> []"
  shows "\<exists>g ps. make_packet_generator h cnt m = Inr g \<and> all_packets (pg_payload_size g) g = Inr ps \<and>
    (\<forall>bytes. mset bytes = mset (map (\<lambda>p. concat (sp_buffers p)) ps) \<longrightarrow>
      reassembles fresh bc self (sint cnt) (heap_wire h) bytes)"
proof -
  obtain g where g: "make_packet_generator h cnt m = Inr g" "gen_inv g" "pg_h g = h" "pg_cnt g = cnt"
    "pg_payload_offset g = 0" "pg_next_item_pointer g = 0"
    using make_packet_generator_ok [OF assms(1-3)] assms(4) by metis
  define n where "n = heap_bits h"
  have n: "n = heap_bits (pg_h g)" by (simp add: n_def g)
  have st: "gen_static g" using g(2) by (simp add: gen_inv_def)
  let ?size = "int (pg_payload_size g)"
  have "first_pointer g = 0" by (simp add: first_pointer_def g(6))
  then obtain ps wires where ps: "all_packets (pg_payload_size g) g = Inr ps"
    "map (\<lambda>p. concat (sp_buffers p)) ps = map (wire_bytes n (sint cnt) ?size) wires"
    "pieces 0 (gen_payload g) wires" "pointers_sent (sh_repeat_pointers (pg_h g)) (gen_pointers g) wires"
    using all_packets_ok [OF g(2) _ n, of "pg_payload_size g"] g(4,5) by auto
  have nonempty: "\<forall>v \<in> set (heap_wire (pg_h g)). fst (snd v) \<or> snd (snd v) \<noteq> []"
    using assms(5) by (auto simp: heap_wire_def g wire_item_def use_immediate_def max_immediate_size_def)
  have few: "\<forall>w \<in> set wires. set (fst (snd w)) \<subseteq> set (gen_pointers g) \<and>
      length (fst (snd w)) \<le> length (padded_wire g)"
    using pointers_sent_few [OF ps(4)] by simp
  have "reassembles fresh bc self (sint cnt) (heap_wire h) bytes"
    if bytes: "mset bytes = mset (map (\<lambda>p. concat (sp_buffers p)) ps)" for bytes
  proof -
    from bytes have "mset bytes = image_mset (wire_bytes n (sint cnt) ?size) (mset wires)" by (simp add: ps(2))
    then obtain wires' where w': "bytes = map (wire_bytes n (sint cnt) ?size) wires'" "mset wires' = mset wires"
      using permuted_map by blast
    have "wires \<noteq> []" using ps(3) gen_static_facts(4) [OF st] gen_payload_eq(2) [OF st] by auto
    moreover have "set wires' = set wires" using w'(2) by (metis set_mset_mset)
    ultimately have mem: "set wires' = set wires" "wires' \<noteq> []" by auto
    let ?hdr = "wire_header n (sint cnt) ?size []"
    have "decode_packet (wire_bytes n (sint cnt) ?size w) = Some (?hdr w, length (wire_bytes n (sint cnt) ?size w))"
      if w: "w \<in> set wires'" for w
    proof -
      have "w \<in> set wires" using w mem by simp
      with wire_packets_ok [OF st n ps(3) _ this] few decode_wire [OF g(2) n, of w "[]"] show ?thesis
        by (simp add: g(4))
    qed
    then have dec: "list_all2 (\<lambda>b p. decode_packet b = Some (p, length b)) bytes (map ?hdr wires')"
      by (simp add: w'(1) list_all2_conv_all_nth)
    obtain h' us where h': "fold_result (receive_packet (default_allocate fresh)) (map ?hdr wires')
        (make_live_heap (?hdr (hd wires')) bc) = Inr h'" "lh_inv h'" "is_complete h'" "lh_cnt h' = sint cnt"
      "frozen_items h' True = addressed (heap_wire h) @ us" "set us = set (immediates (heap_wire h))" "distinct us"
      using receive_wires [OF g(2) n ps(3,4) w'(2) nonempty, of fresh bc, unfolded g(3,4)] by blast
    have "is_contiguous h'" using h'(3) by (simp add: is_complete_def is_contiguous_def)
    with h'(2) obtain hb h'' where hb: "make_heap fresh self h' = Inr (hb, h'')"
      "load_result h' True True (new_heap_base fresh self) hb"
      by (rule make_heap_ok)
    then have "hb_cnt hb = sint cnt" "heap_view hb (addressed (heap_wire h) @ us)"
      using h'(4,5) by (simp_all add: load_result_def frozen_items_def)
    moreover have "hd (map ?hdr wires') = ?hdr (hd wires')" using mem(2) by (simp add: hd_map)
    ultimately show ?thesis
      unfolding reassembles_def using dec h' hb(1)
      by (intro exI [of _ "map ?hdr wires'"] exI [of _ h'] exI [of _ hb] exI [of _ h''] exI [of _ us]) simp
  qed
  with g(1) ps(1) show ?thesis by blast
qed

theorem heap_transfer_witness:
  "\<exists>g ps. make_packet_generator example_send_heap 1 56 = Inr g \<and> all_packets (pg_payload_size g) g = Inr ps \<and>
    reassembles (\<lambda>_. 0) 0 0 1
      [(0x1000, True, [0, 0, 0, 0, 7]), (0x1001, True, [0, 0, 1, 2, 3]),
       (0x1002, False, [1, 2, 3, 4, 5, 6, 7, 8, 9]), (0x1003, False, [5])]
      (rev (map (\<lambda>p. concat (sp_buffers p)) ps))"
proof -
  have wire: "heap_wire example_send_heap = [(0x1000, True, [0, 0, 0, 0, 7]), (0x1001, True, [0, 0, 1, 2, 3]),
       (0x1002, False, [1, 2, 3, 4, 5, 6, 7, 8, 9]), (0x1003, False, [5])]"
    by (simp add: heap_wire_def wire_item_def example_send_heap_def default_flavour_def immediate_item_def
        buffer_item_def be_bytes_numeral replicate_unfold_numeral)
  have m: "(56 :: nat) mod 8 = 0" "56 \<le> (56 :: nat)" by simp_all
  have ok: "sh_repeat_pointers example_send_heap \<longrightarrow> length (sh_items example_send_heap) < (56 - 48) div 8"
    "\<forall>it \<in> set (sh_items example_send_heap). use_immediate it (max_immediate_size example_send_heap) \<or> si_buffer it \<noteq> []"
    by (simp_all add: example_send_heap_def use_immediate_def immediate_item_def buffer_item_def)
  obtain g ps where g: "make_packet_generator example_send_heap 1 56 = Inr g"
    "all_packets (pg_payload_size g) g = Inr ps" and
    all: "\<And>bytes. mset bytes = mset (map (\<lambda>p. concat (sp_buffers p)) ps) \<Longrightarrow>
      reassembles (\<lambda>_. 0) 0 0 (sint (1 :: 64 word)) (heap_wire example_send_heap) bytes"
    using heap_transfer [OF example_sendable m ok, of "\<lambda>_. 0" 0 0] by blast
  have "reassembles (\<lambda>_. 0) 0 0 1 (heap_wire example_send_heap) (rev (map (\<lambda>p. concat (sp_buffers p)) ps))"
    using all [of "rev (map (\<lambda>p. concat (sp_buffers p)) ps)"] by simp
  with g show ?thesis unfolding wire by blast
qed

end
