(* ===== verification/Ringbuffer.thy ===== *)
theory Ringbuffer
  imports Prelude
begin

text \<open>
  The part of the ring buffer that does not touch semaphores: \<^verbatim>\<open>ringbuffer_base\<close> of
  \<^verbatim>\<open>common_ringbuffer.h\<close>.  A slot of the storage is \<open>None\<close> while it is raw memory and
  \<open>Some v\<close> while it holds an object.  The interface to the clients is the locale
  \<open>fifo\<close>; the concurrent protocol with the semaphores is in the theory RingProtocol.
\<close>

section \<open>State and operations\<close>

definition ringbuffer_full :: fault where
  "ringbuffer_full = Exception ''ring buffer is full''"

definition ringbuffer_empty :: fault where
  "ringbuffer_empty = Exception ''ring buffer is empty''"

definition ringbuffer_stopped :: fault where
  "ringbuffer_stopped = Exception ''ring buffer has been stopped''"

record 'a ringbuffer_base =
  rb_storage :: "'a option list"
  rb_cap :: nat
  rb_head :: nat
  rb_stopped :: bool
  rb_tail :: nat
  rb_stop_position :: nat

text \<open>The increment stays below \<open>cap + 1\<close>, so it does not wrap.\<close>

definition rb_next :: "'a ringbuffer_base \<Rightarrow> nat \<Rightarrow> nat" where
  "rb_next b idx = (if idx + 1 = rb_cap b then 0 else idx + 1)"

definition make_ringbuffer_base :: "nat \<Rightarrow> fault + 'a ringbuffer_base" where
  "make_ringbuffer_base cap =
     (if 0 < cap
      then Inr \<lparr>rb_storage = replicate (cap + 1) None, rb_cap = cap + 1, rb_head = 0,
                rb_stopped = False, rb_tail = 0, rb_stop_position = cap + 1\<rparr>
      else Inl Assertion_failed)"

definition rb_capacity :: "'a ringbuffer_base \<Rightarrow> nat" where
  "rb_capacity b = rb_cap b - 1"

definition rb_size :: "'a ringbuffer_base \<Rightarrow> nat" where
  "rb_size b =
     (if rb_head b \<le> rb_tail b then rb_tail b - rb_head b
      else rb_tail b + rb_cap b - rb_head b)"

definition throw_empty_or_stopped :: "'a ringbuffer_base \<Rightarrow> fault" where
  "throw_empty_or_stopped b =
     (if rb_head b = rb_stop_position b then ringbuffer_stopped else ringbuffer_empty)"

definition throw_full_or_stopped :: "'a ringbuffer_base \<Rightarrow> fault" where
  "throw_full_or_stopped b = (if rb_stopped b then ringbuffer_stopped else ringbuffer_full)"

text \<open>
  The bodies of the critical sections.  Constructing an object in a slot that holds one, or
  destroying one in a raw slot, is a fault.
\<close>

definition rb_construct :: "nat \<Rightarrow> 'a \<Rightarrow> 'a ringbuffer_base \<Rightarrow> fault + 'a ringbuffer_base" where
  "rb_construct idx v b =
     (if length (rb_storage b) \<le> idx \<or> rb_storage b ! idx \<noteq> None then Inl Out_of_bounds
      else Inr (b\<lparr>rb_storage := (rb_storage b)[idx := Some v]\<rparr>))"

definition rb_destroy :: "nat \<Rightarrow> 'a ringbuffer_base \<Rightarrow> fault + ('a \<times> 'a ringbuffer_base)" where
  "rb_destroy idx b =
     (if length (rb_storage b) \<le> idx then Inl Out_of_bounds
      else case rb_storage b ! idx of
        None \<Rightarrow> Inl Null_dereference
      | Some v \<Rightarrow> Inr (v, b\<lparr>rb_storage := (rb_storage b)[idx := None]\<rparr>))"

definition emplace_internal :: "'a \<Rightarrow> 'a ringbuffer_base \<Rightarrow> fault + 'a ringbuffer_base" where
  "emplace_internal v b =
     (if rb_stopped b then Inl ringbuffer_stopped
      else bind_result (rb_construct (rb_tail b) v b) (\<lambda>b'.
           Inr (b'\<lparr>rb_tail := rb_next b' (rb_tail b')\<rparr>)))"

definition pop_internal :: "'a ringbuffer_base \<Rightarrow> fault + ('a \<times> 'a ringbuffer_base)" where
  "pop_internal b =
     (if rb_stop_position b = rb_head b then Inl ringbuffer_stopped
      else bind_result (rb_destroy (rb_head b) b) (\<lambda>(result, b').
           Inr (result, b'\<lparr>rb_head := rb_next b' (rb_head b')\<rparr>)))"

text \<open>
  \<^verbatim>\<open>stop_internal\<close> has two critical sections, one under each mutex: the first sets
  \<^verbatim>\<open>stopped\<close> and returns the tail (\<open>None\<close> if the buffer was stopped already), the second sets
  the stop position.
\<close>

definition stop_tail :: "'a ringbuffer_base \<Rightarrow> nat option \<times> 'a ringbuffer_base" where
  "stop_tail b = (if rb_stopped b then (None, b) else (Some (rb_tail b), b\<lparr>rb_stopped := True\<rparr>))"

definition stop_head :: "nat \<Rightarrow> 'a ringbuffer_base \<Rightarrow> 'a ringbuffer_base" where
  "stop_head saved_tail b = b\<lparr>rb_stop_position := saved_tail\<rparr>"

definition stop_internal :: "'a ringbuffer_base \<Rightarrow> 'a ringbuffer_base" where
  "stop_internal b =
     (case stop_tail b of (None, b') \<Rightarrow> b' | (Some saved_tail, b') \<Rightarrow> stop_head saved_tail b')"

text \<open>The destructor drains the remaining elements; the capacity is fuel enough.\<close>

fun destroy_ringbuffer :: "nat \<Rightarrow> 'a ringbuffer_base \<Rightarrow> fault + 'a ringbuffer_base" where
  "destroy_ringbuffer fuel b =
     (if rb_head b = rb_tail b then Inr b
      else case fuel of
        0 \<Rightarrow> Inl Loop_overrun
      | Suc k \<Rightarrow>
          bind_result (rb_destroy (rb_head b) b) (\<lambda>(_, b').
          destroy_ringbuffer k (b'\<lparr>rb_head := rb_next b' (rb_head b')\<rparr>)))"

declare destroy_ringbuffer.simps [simp del]

text \<open>
  The ring buffer proper, as seen by a single thread.  The semaphores are counters: the
  operations below are those of \<^verbatim>\<open>semaphore\<close>, whose implementation is a system facility.  A
  blocking \<^verbatim>\<open>get\<close> that would wait is \<open>None\<close>.  When an operation throws, it has returned the token
  that it took, so that the state is the one before the call.
\<close>

definition sem_try_get :: "nat \<Rightarrow> nat option" where
  "sem_try_get n = (if 0 < n then Some (n - 1) else None)"

definition sem_put :: "nat \<Rightarrow> nat" where
  "sem_put n = n + 1"

record 'a ringbuffer =
  rb_base :: "'a ringbuffer_base"
  rb_data_sem :: nat
  rb_space_sem :: nat

definition make_ringbuffer :: "nat \<Rightarrow> fault + 'a ringbuffer" where
  "make_ringbuffer cap =
     bind_result (make_ringbuffer_base cap) (\<lambda>b.
     Inr \<lparr>rb_base = b, rb_data_sem = 0, rb_space_sem = cap\<rparr>)"

definition rb_try_push :: "'a \<Rightarrow> 'a ringbuffer \<Rightarrow> fault + 'a ringbuffer" where
  "rb_try_push v r =
     (case sem_try_get (rb_space_sem r) of
        None \<Rightarrow> Inl (throw_full_or_stopped (rb_base r))
      | Some space \<Rightarrow>
          bind_result (emplace_internal v (rb_base r)) (\<lambda>b.
          Inr \<lparr>rb_base = b, rb_data_sem = sem_put (rb_data_sem r), rb_space_sem = space\<rparr>))"

definition rb_push :: "'a \<Rightarrow> 'a ringbuffer \<Rightarrow> (fault + 'a ringbuffer) option" where
  "rb_push v r =
     (case sem_try_get (rb_space_sem r) of
        None \<Rightarrow> None
      | Some space \<Rightarrow> Some (
          bind_result (emplace_internal v (rb_base r)) (\<lambda>b.
          Inr \<lparr>rb_base = b, rb_data_sem = sem_put (rb_data_sem r), rb_space_sem = space\<rparr>)))"

definition rb_try_pop :: "'a ringbuffer \<Rightarrow> fault + ('a \<times> 'a ringbuffer)" where
  "rb_try_pop r =
     (case sem_try_get (rb_data_sem r) of
        None \<Rightarrow> Inl (throw_empty_or_stopped (rb_base r))
      | Some data \<Rightarrow>
          bind_result (pop_internal (rb_base r)) (\<lambda>(result, b).
          Inr (result, \<lparr>rb_base = b, rb_data_sem = data, rb_space_sem = sem_put (rb_space_sem r)\<rparr>)))"

definition rb_pop :: "'a ringbuffer \<Rightarrow> (fault + ('a \<times> 'a ringbuffer)) option" where
  "rb_pop r =
     (case sem_try_get (rb_data_sem r) of
        None \<Rightarrow> None
      | Some data \<Rightarrow> Some (
          bind_result (pop_internal (rb_base r)) (\<lambda>(result, b).
          Inr (result, \<lparr>rb_base = b, rb_data_sem = data, rb_space_sem = sem_put (rb_space_sem r)\<rparr>))))"

definition rb_stop :: "'a ringbuffer \<Rightarrow> 'a ringbuffer" where
  "rb_stop r =
     \<lparr>rb_base = stop_internal (rb_base r), rb_data_sem = sem_put (rb_data_sem r),
      rb_space_sem = sem_put (rb_space_sem r)\<rparr>"

section \<open>Abstraction\<close>

text \<open>The slots in use, from the head on, and their objects.\<close>

definition rb_slots :: "'a ringbuffer_base \<Rightarrow> nat list" where
  "rb_slots b = map (\<lambda>i. (rb_head b + i) mod rb_cap b) [0..<rb_size b]"

definition rb_contents :: "'a ringbuffer_base \<Rightarrow> 'a list" where
  "rb_contents b = map (\<lambda>i. the (rb_storage b ! i)) (rb_slots b)"

definition rb_inv :: "'a ringbuffer_base \<Rightarrow> bool" where
  "rb_inv b \<longleftrightarrow>
     2 \<le> rb_cap b \<and> length (rb_storage b) = rb_cap b \<and> rb_head b < rb_cap b \<and> rb_tail b < rb_cap b \<and>
     (\<forall>i < rb_cap b. rb_storage b ! i \<noteq> None \<longleftrightarrow> i \<in> set (rb_slots b)) \<and>
     (rb_stop_position b = rb_cap b \<or> rb_stopped b \<and> rb_stop_position b = rb_tail b)"

lemma rb_next_mod:
  assumes "idx < rb_cap b"
  shows "rb_next b idx = (idx + 1) mod rb_cap b"
  using assms by (auto simp: rb_next_def mod_if)

lemma rb_size_mod:
  assumes "rb_head b < rb_cap b" "rb_tail b < rb_cap b"
  shows "(rb_head b + rb_size b) mod rb_cap b = rb_tail b" "rb_size b < rb_cap b"
  using assms by (auto simp: rb_size_def mod_if)

text \<open>The size is the only distance from head to tail that is below the capacity.\<close>

lemma rb_size_unique:
  assumes "rb_head b < rb_cap b" "rb_tail b = (rb_head b + n) mod rb_cap b" "n < rb_cap b"
  shows "rb_size b = n"
  using assms by (auto simp: rb_size_def mod_if split: if_splits)

lemma mod_shift_inj:
  fixes h i j c :: nat
  assumes "h < c" "i < c" "j < c" "(h + i) mod c = (h + j) mod c"
  shows "i = j"
  using assms by (auto simp: mod_if split: if_splits)

lemma length_rb_slots [simp]: "length (rb_slots b) = rb_size b"
  by (simp add: rb_slots_def)

lemma length_rb_contents [simp]: "length (rb_contents b) = rb_size b"
  by (simp add: rb_contents_def)

lemma rb_frame [simp]:
  "rb_size (b\<lparr>rb_stop_position := p\<rparr>) = rb_size b" "rb_size (b\<lparr>rb_stopped := s\<rparr>) = rb_size b"
  "rb_slots (b\<lparr>rb_stop_position := p\<rparr>) = rb_slots b" "rb_slots (b\<lparr>rb_stopped := s\<rparr>) = rb_slots b"
  "rb_contents (b\<lparr>rb_stop_position := p\<rparr>) = rb_contents b"
  "rb_contents (b\<lparr>rb_stopped := s\<rparr>) = rb_contents b"
  "rb_capacity (b\<lparr>rb_stop_position := p\<rparr>) = rb_capacity b"
  "rb_capacity (b\<lparr>rb_stopped := s\<rparr>) = rb_capacity b"
  by (simp_all add: rb_size_def rb_slots_def rb_contents_def rb_capacity_def)

lemma tail_slot_free:
  assumes "rb_head b < rb_cap b" "rb_tail b < rb_cap b"
  shows "rb_tail b \<notin> set (rb_slots b)"
proof
  assume "rb_tail b \<in> set (rb_slots b)"
  then obtain i where "i < rb_size b" "rb_tail b = (rb_head b + i) mod rb_cap b"
    by (auto simp: rb_slots_def)
  with rb_size_mod [OF assms] assms show False
    using mod_shift_inj [of "rb_head b" "rb_cap b" i "rb_size b"] by auto
qed

lemma rb_slots_distinct:
  assumes "rb_head b < rb_cap b" "rb_tail b < rb_cap b"
  shows "distinct (rb_slots b)"
proof -
  have "inj_on (\<lambda>i. (rb_head b + i) mod rb_cap b) {0..<rb_size b}"
  proof (rule inj_onI)
    fix i j
    assume "i \<in> {0..<rb_size b}" "j \<in> {0..<rb_size b}"
      and eq: "(rb_head b + i) mod rb_cap b = (rb_head b + j) mod rb_cap b"
    then have "i < rb_cap b" "j < rb_cap b" using rb_size_mod(2) [OF assms] by simp_all
    then show "i = j" by (rule mod_shift_inj [OF assms(1) _ _ eq])
  qed
  then show ?thesis by (simp add: rb_slots_def distinct_map)
qed

lemma rb_slots_Cons:
  assumes "rb_head b < rb_cap b" "0 < rb_size b"
  shows "rb_slots b = rb_head b # map (\<lambda>i. (rb_head b + Suc i) mod rb_cap b) [0..<rb_size b - 1]"
proof -
  have "[0..<rb_size b] = 0 # map Suc [0..<rb_size b - 1]"
    using assms(2) by (simp add: map_Suc_upt upt_conv_Cons)
  then show ?thesis using assms(1) by (simp add: rb_slots_def)
qed

section \<open>The interface of a queue\<close>

text \<open>
  What the users of a queue rely on: the operations act on an abstract list.  A push that the
  queue accepts appends, and a pop that succeeds takes the oldest element.
\<close>

locale fifo =
  fixes inv :: "'q \<Rightarrow> bool"
    and contents :: "'q \<Rightarrow> 'a list"
    and push :: "'a \<Rightarrow> 'q \<Rightarrow> fault + 'q"
    and pop :: "'q \<Rightarrow> fault + ('a \<times> 'q)"
  assumes push_ok: "inv q \<Longrightarrow> push v q = Inr q' \<Longrightarrow> inv q' \<and> contents q' = contents q @ [v]"
    and pop_ok: "inv q \<Longrightarrow> pop q = Inr (v, q') \<Longrightarrow> inv q' \<and> contents q = v # contents q'"
begin

lemma pushes:
  "inv q \<Longrightarrow> fold_result push vs q = Inr q' \<Longrightarrow> inv q' \<and> contents q' = contents q @ vs"
proof (induction vs arbitrary: q)
  case (Cons v vs)
  then obtain q1 where "push v q = Inr q1" "fold_result push vs q1 = Inr q'"
    by (cases "push v q") auto
  with Cons.IH [of q1] Cons.prems(1) push_ok [of q v q1] show ?case by simp
qed simp

text \<open>Elements come out in the order in which they went in.\<close>

lemma push_then_pop:
  assumes "inv q" "contents q = []" "fold_result push (v # vs) q = Inr q1" "pop q1 = Inr (w, q2)"
  shows "w = v \<and> contents q2 = vs"
  using pushes [OF assms(1,3)] pop_ok [of q1 w q2] assms(2,4) by simp

end

section \<open>The operations keep the invariant\<close>

lemma make_ringbuffer_base_ok:
  assumes "make_ringbuffer_base cap = Inr b"
  shows "rb_inv b" "rb_contents b = []" "rb_capacity b = cap" "\<not> rb_stopped b"
    "rb_stop_position b = rb_cap b"
  using assms
  by (auto simp: make_ringbuffer_base_def rb_inv_def rb_contents_def rb_slots_def rb_size_def
      rb_capacity_def simp flip: replicate_Suc split: if_splits)

text \<open>
  A push on a buffer that is not stopped and has less than its capacity of elements does not
  fail: it finds a raw slot.
\<close>

lemma emplace_internal_ok:
  assumes inv: "rb_inv b" and "\<not> rb_stopped b" and size: "rb_size b < rb_capacity b"
  shows "\<exists>b'. emplace_internal v b = Inr b' \<and> rb_inv b' \<and> rb_contents b' = rb_contents b @ [v] \<and>
     rb_head b' = rb_head b \<and> rb_stopped b' = rb_stopped b \<and> rb_cap b' = rb_cap b \<and>
     rb_stop_position b' = rb_stop_position b"
proof -
  let ?c = "rb_cap b" and ?t = "rb_tail b"
  have bnd: "rb_head b < ?c" "?t < ?c" "length (rb_storage b) = ?c" "2 \<le> ?c"
    using inv by (auto simp: rb_inv_def)
  define b' where "b' = b\<lparr>rb_storage := (rb_storage b)[?t := Some v], rb_tail := rb_next b ?t\<rparr>"
  have free: "rb_storage b ! ?t = None"
    using tail_slot_free [OF bnd(1,2)] inv bnd(2) by (auto simp: rb_inv_def)
  have run: "emplace_internal v b = Inr b'"
    using assms(2) bnd free by (simp add: emplace_internal_def rb_construct_def b'_def rb_next_def)
  have "rb_tail b' = (rb_head b + Suc (rb_size b)) mod ?c"
    using rb_size_mod(1) [OF bnd(1,2)] bnd(2) mod_add_left_eq [of "rb_head b + rb_size b" ?c 1]
    by (simp add: b'_def rb_next_mod)
  then have size': "rb_size b' = Suc (rb_size b)"
    using size bnd(1) by (intro rb_size_unique) (auto simp: b'_def rb_capacity_def)
  have slots: "rb_slots b' = rb_slots b @ [?t]"
    using rb_size_mod(1) [OF bnd(1,2)] unfolding rb_slots_def size' by (simp add: b'_def)
  have "rb_contents b' = rb_contents b @ [v]"
    using tail_slot_free [OF bnd(1,2)] bnd unfolding rb_contents_def slots
    by (auto simp: b'_def nth_list_update)
  moreover have "rb_inv b'"
    using inv assms(2) bnd slots
    by (auto simp: rb_inv_def b'_def rb_next_def nth_list_update)
  ultimately show ?thesis using run by (simp add: b'_def)
qed

text \<open>A pop on a buffer that has elements and whose stop position is not the head succeeds.\<close>

lemma pop_internal_ok:
  assumes inv: "rb_inv b" and stop: "rb_stop_position b \<noteq> rb_head b" and size: "0 < rb_size b"
  shows "\<exists>v b'. pop_internal b = Inr (v, b') \<and> rb_inv b' \<and> rb_contents b = v # rb_contents b' \<and>
     rb_tail b' = rb_tail b \<and> rb_stopped b' = rb_stopped b \<and> rb_cap b' = rb_cap b \<and>
     rb_stop_position b' = rb_stop_position b"
proof -
  let ?c = "rb_cap b" and ?h = "rb_head b"
  have bnd: "?h < ?c" "rb_tail b < ?c" "length (rb_storage b) = ?c" "2 \<le> ?c"
    using inv by (auto simp: rb_inv_def)
  have "?h \<in> set (rb_slots b)" by (simp add: rb_slots_Cons [OF bnd(1) size])
  then obtain v where v: "rb_storage b ! ?h = Some v" using inv bnd(1) by (auto simp: rb_inv_def)
  define b' where "b' = b\<lparr>rb_storage := (rb_storage b)[?h := None], rb_head := rb_next b ?h\<rparr>"
  have run: "pop_internal b = Inr (v, b')"
    using stop v bnd by (simp add: pop_internal_def rb_destroy_def b'_def rb_next_def)
  have head': "rb_head b' = (?h + 1) mod ?c" using bnd(1) by (simp add: b'_def rb_next_mod)
  have "rb_tail b' = (rb_head b' + (rb_size b - 1)) mod rb_cap b'"
    using rb_size_mod(1) [OF bnd(1,2)] size mod_add_left_eq [of "?h + 1" ?c "rb_size b - 1"]
    by (simp add: head') (simp add: b'_def)
  then have size': "rb_size b' = rb_size b - 1"
    using rb_size_mod(2) [OF bnd(1,2)] head' bnd(4) by (intro rb_size_unique) (auto simp: b'_def)
  have "(rb_head b' + i) mod ?c = (?h + Suc i) mod ?c" for i
    using head' by (simp add: mod_add_left_eq)
  then have slots: "rb_slots b = ?h # rb_slots b'"
    unfolding rb_slots_Cons [OF bnd(1) size] rb_slots_def [of b'] size' by (simp add: b'_def)
  have fresh: "?h \<notin> set (rb_slots b')"
    using rb_slots_distinct [OF bnd(1,2)] slots by simp
  then have "rb_storage b' ! i = rb_storage b ! i" if i: "i \<in> set (rb_slots b')" for i
    using i by (cases "i = ?h") (simp_all add: b'_def)
  then have "rb_contents b = v # rb_contents b'"
    using v unfolding rb_contents_def slots by simp
  moreover have "rb_inv b'"
    using inv bnd slots fresh
    by (auto simp: rb_inv_def b'_def rb_next_def nth_list_update)
  ultimately show ?thesis using run by (simp add: b'_def)
qed

lemma stop_internal_ok:
  assumes "rb_inv b"
  shows "rb_inv (stop_internal b)" "rb_contents (stop_internal b) = rb_contents b"
    "rb_stopped (stop_internal b)" "rb_cap (stop_internal b) = rb_cap b"
  using assms
  by (auto simp: stop_internal_def stop_tail_def stop_head_def rb_inv_def rb_slots_def rb_size_def
      rb_contents_def)

lemma destroy_ringbuffer_ok:
  assumes "rb_inv b" "rb_size b \<le> fuel"
  shows "\<exists>b'. destroy_ringbuffer fuel b = Inr b' \<and> rb_storage b' = replicate (rb_cap b) None"
  using assms
proof (induction fuel arbitrary: b)
  case 0
  then have "rb_head b = rb_tail b" "rb_slots b = []" "length (rb_storage b) = rb_cap b"
    by (auto simp: rb_inv_def rb_size_def rb_slots_def split: if_splits)
  moreover from this 0 have "rb_storage b = replicate (rb_cap b) None"
    by (intro nth_equalityI) (auto simp: rb_inv_def)
  ultimately show ?case by (subst destroy_ringbuffer.simps) simp
next
  case (Suc k)
  have bnd: "rb_head b < rb_cap b" "length (rb_storage b) = rb_cap b"
    using Suc.prems(1) by (auto simp: rb_inv_def)
  show ?case
  proof (cases "rb_head b = rb_tail b")
    case True
    then have "rb_slots b = []" by (simp add: rb_slots_def rb_size_def)
    with Suc.prems(1) bnd(2) have "rb_storage b = replicate (rb_cap b) None"
      by (intro nth_equalityI) (auto simp: rb_inv_def)
    with True show ?thesis by (subst destroy_ringbuffer.simps) simp
  next
    case False
    define b0 where "b0 = b\<lparr>rb_stop_position := rb_cap b\<rparr>"
    have "rb_inv b0" "rb_stop_position b0 \<noteq> rb_head b0" "0 < rb_size b0"
      using Suc.prems(1) bnd False by (auto simp: rb_inv_def b0_def rb_slots_def rb_size_def)
    from pop_internal_ok [OF this] obtain v b1 where b1: "pop_internal b0 = Inr (v, b1)" "rb_inv b1"
        "rb_contents b0 = v # rb_contents b1" "rb_cap b1 = rb_cap b0"
        "rb_stop_position b1 = rb_stop_position b0" by blast
    obtain b2 where b2: "rb_destroy (rb_head b) b = Inr (v, b2)"
        "b1 = b2\<lparr>rb_stop_position := rb_cap b, rb_head := rb_next b2 (rb_head b2)\<rparr>"
      using b1(1) bnd(1)
      by (auto simp: pop_internal_def rb_destroy_def b0_def rb_next_def split: if_splits option.splits)
    define b3 where "b3 = b2\<lparr>rb_head := rb_next b2 (rb_head b2)\<rparr>"
    have frame: "rb_stop_position b3 = rb_stop_position b" "rb_stopped b3 = rb_stopped b"
      "rb_tail b3 = rb_tail b" "rb_cap b3 = rb_cap b"
      using b2(1) by (auto simp: rb_destroy_def b3_def split: if_splits option.splits)
    have b31: "b1 = b3\<lparr>rb_stop_position := rb_cap b\<rparr>" using b2(2) by (simp add: b3_def)
    have "rb_inv b3"
      using b1(2) Suc.prems(1) frame
      by (auto simp: b31 rb_inv_def rb_slots_def rb_size_def)
    moreover have "rb_size b3 \<le> k"
      using arg_cong [OF b1(3), of length] Suc.prems(2) by (simp add: b31 b0_def)
    ultimately obtain b' where "destroy_ringbuffer k b3 = Inr b'" "rb_storage b' = replicate (rb_cap b3) None"
      using Suc.IH [of b3] by auto
    then show ?thesis
      using False b2(1) frame by (subst destroy_ringbuffer.simps) (simp add: b3_def)
  qed
qed

section \<open>The ring buffer in a single thread\<close>

definition ring_inv :: "'a ringbuffer \<Rightarrow> bool" where
  "ring_inv r \<longleftrightarrow> rb_inv (rb_base r) \<and>
     (if rb_stopped (rb_base r)
      then rb_stop_position (rb_base r) = rb_tail (rb_base r) \<and> rb_size (rb_base r) < rb_data_sem r \<and>
        rb_capacity (rb_base r) - rb_size (rb_base r) < rb_space_sem r
      else rb_stop_position (rb_base r) = rb_cap (rb_base r) \<and> rb_data_sem r = rb_size (rb_base r) \<and>
        rb_space_sem r = rb_capacity (rb_base r) - rb_size (rb_base r))"

definition ring_contents :: "'a ringbuffer \<Rightarrow> 'a list" where
  "ring_contents r = rb_contents (rb_base r)"

definition ring_capacity :: "'a ringbuffer \<Rightarrow> nat" where
  "ring_capacity r = rb_capacity (rb_base r)"

lemma rb_size_le_capacity:
  assumes "rb_inv b"
  shows "rb_size b \<le> rb_capacity b" "rb_capacity b < rb_cap b"
  using assms rb_size_mod(2) [of b] by (auto simp: rb_inv_def rb_capacity_def)

lemma head_eq_tail:
  assumes "rb_inv b"
  shows "rb_head b = rb_tail b \<longleftrightarrow> rb_contents b = []"
  using assms by (auto simp: rb_inv_def rb_size_def split: if_splits simp flip: length_0_conv)

text \<open>The exact outcome of the operations, on every branch.\<close>

definition push_outcome :: "'a \<Rightarrow> 'a ringbuffer \<Rightarrow> fault + 'a ringbuffer \<Rightarrow> bool" where
  "push_outcome v r res \<longleftrightarrow>
     (if rb_stopped (rb_base r) then res = Inl ringbuffer_stopped
      else if length (ring_contents r) = ring_capacity r then res = Inl ringbuffer_full
      else \<exists>r'. res = Inr r' \<and> ring_inv r' \<and> ring_contents r' = ring_contents r @ [v] \<and>
        ring_capacity r' = ring_capacity r \<and> \<not> rb_stopped (rb_base r'))"

definition pop_outcome :: "'a ringbuffer \<Rightarrow> fault + ('a \<times> 'a ringbuffer) \<Rightarrow> bool" where
  "pop_outcome r res \<longleftrightarrow>
     (case ring_contents r of
        [] \<Rightarrow> res = Inl (if rb_stopped (rb_base r) then ringbuffer_stopped else ringbuffer_empty)
      | v # vs \<Rightarrow> \<exists>r'. res = Inr (v, r') \<and> ring_inv r' \<and> ring_contents r' = vs \<and>
          ring_capacity r' = ring_capacity r \<and> rb_stopped (rb_base r') = rb_stopped (rb_base r))"

lemma try_push_outcome:
  assumes inv: "ring_inv r"
  shows "push_outcome v r (rb_try_push v r)"
proof (cases "rb_stopped (rb_base r)")
  case True
  with inv show ?thesis
    by (simp add: push_outcome_def rb_try_push_def emplace_internal_def sem_try_get_def ring_inv_def)
next
  case False
  let ?b = "rb_base r"
  have b: "rb_inv ?b" "rb_data_sem r = rb_size ?b" "rb_space_sem r = rb_capacity ?b - rb_size ?b"
    using inv False by (auto simp: ring_inv_def)
  show ?thesis
  proof (cases "rb_size ?b = rb_capacity ?b")
    case True
    with False b show ?thesis
      by (simp add: push_outcome_def rb_try_push_def sem_try_get_def throw_full_or_stopped_def
          ring_contents_def ring_capacity_def)
  next
    case room: False
    then have "rb_size ?b < rb_capacity ?b" using rb_size_le_capacity(1) [OF b(1)] by simp
    then obtain b' where b': "emplace_internal v ?b = Inr b'" "rb_inv b'"
        "rb_contents b' = rb_contents ?b @ [v]" "rb_stopped b' = rb_stopped ?b" "rb_cap b' = rb_cap ?b"
        "rb_stop_position b' = rb_stop_position ?b"
      using emplace_internal_ok [OF b(1) False] by blast
    define r' where "r' = \<lparr>rb_base = b', rb_data_sem = sem_put (rb_data_sem r),
      rb_space_sem = rb_capacity ?b - rb_size ?b - 1\<rparr>"
    have "rb_size b' = Suc (rb_size ?b)" using arg_cong [OF b'(3), of length] by simp
    then have "ring_inv r'"
      using inv b' False by (simp add: ring_inv_def r'_def sem_put_def rb_capacity_def)
    moreover have "rb_try_push v r = Inr r'"
      using b b' room rb_size_le_capacity(1) [OF b(1)]
      by (simp add: rb_try_push_def sem_try_get_def r'_def)
    ultimately show ?thesis
      using b' False room
      by (simp add: push_outcome_def ring_contents_def ring_capacity_def r'_def rb_capacity_def)
  qed
qed

lemma try_pop_outcome:
  assumes inv: "ring_inv r"
  shows "pop_outcome r (rb_try_pop r)"
proof (cases "rb_contents (rb_base r)")
  case Nil
  let ?b = "rb_base r"
  have "rb_size ?b = 0" "rb_head ?b = rb_tail ?b" "rb_inv ?b"
    using Nil inv head_eq_tail [of ?b] by (simp_all add: ring_inv_def flip: length_0_conv)
  with inv Nil show ?thesis
    by (auto simp: pop_outcome_def ring_contents_def rb_try_pop_def sem_try_get_def pop_internal_def
        throw_empty_or_stopped_def ring_inv_def rb_inv_def)
next
  case (Cons v vs)
  let ?b = "rb_base r"
  have b: "rb_inv ?b" using inv by (simp add: ring_inv_def)
  have pos: "0 < rb_size ?b" using arg_cong [OF Cons, of length] by simp
  have "rb_head ?b \<noteq> rb_tail ?b" using head_eq_tail [OF b] Cons by simp
  then have "rb_stop_position ?b \<noteq> rb_head ?b" using inv b by (auto simp: ring_inv_def rb_inv_def)
  then obtain w b' where b': "pop_internal ?b = Inr (w, b')" "rb_inv b'"
      "rb_contents ?b = w # rb_contents b'" "rb_stopped b' = rb_stopped ?b" "rb_cap b' = rb_cap ?b"
      "rb_stop_position b' = rb_stop_position ?b" "rb_tail b' = rb_tail ?b"
    using pop_internal_ok [OF b _ pos] by blast
  have size: "rb_size ?b = Suc (rb_size b')" using arg_cong [OF b'(3), of length] by simp
  define r' where "r' = \<lparr>rb_base = b', rb_data_sem = rb_data_sem r - 1,
      rb_space_sem = sem_put (rb_space_sem r)\<rparr>"
  have "ring_inv r'"
    using inv b' size rb_size_le_capacity(1) [OF b]
    by (auto simp: ring_inv_def r'_def sem_put_def rb_capacity_def split: if_splits)
  moreover have "rb_try_pop r = Inr (w, r')"
    using b' inv size by (simp add: rb_try_pop_def sem_try_get_def r'_def ring_inv_def split: if_splits)
  ultimately show ?thesis
    using b' Cons by (simp add: pop_outcome_def ring_contents_def ring_capacity_def r'_def rb_capacity_def)
qed

lemma rb_push_eq: "rb_push v r = (if rb_space_sem r = 0 then None else Some (rb_try_push v r))"
  by (simp add: rb_push_def rb_try_push_def sem_try_get_def)

lemma rb_pop_eq: "rb_pop r = (if rb_data_sem r = 0 then None else Some (rb_try_pop r))"
  by (simp add: rb_pop_def rb_try_pop_def sem_try_get_def)

lemma rb_stop_ok:
  assumes "ring_inv r"
  shows "ring_inv (rb_stop r)" "ring_contents (rb_stop r) = ring_contents r"
    "rb_stopped (rb_base (rb_stop r))"
  using assms
  by (auto simp: ring_inv_def rb_stop_def stop_internal_def stop_tail_def stop_head_def sem_put_def
      rb_inv_def ring_contents_def)

interpretation ring: fifo ring_inv ring_contents rb_try_push rb_try_pop
proof
  fix r r' :: "'a ringbuffer" and v
  assume "ring_inv r" "rb_try_push v r = Inr r'"
  then show "ring_inv r' \<and> ring_contents r' = ring_contents r @ [v]"
    using try_push_outcome [of r v] by (simp add: push_outcome_def split: if_splits)
next
  fix r r' :: "'a ringbuffer" and v
  assume "ring_inv r" "rb_try_pop r = Inr (v, r')"
  then show "ring_inv r' \<and> ring_contents r = v # ring_contents r'"
    using try_pop_outcome [of r] by (simp add: pop_outcome_def split: list.splits if_splits)
qed

section \<open>Properties\<close>

text \<open>
  Used by one thread, the ring buffer is a bounded queue, on every branch.  A push appends
  unless the buffer is stopped or full, and then throws \<^verbatim>\<open>ringbuffer_stopped\<close> or
  \<^verbatim>\<open>ringbuffer_full\<close>; a pop takes the oldest element, also after a stop, and throws
  \<^verbatim>\<open>ringbuffer_stopped\<close> or \<^verbatim>\<open>ringbuffer_empty\<close> once there is none.  A blocking push
  waits only when the buffer is full and not stopped, a blocking pop only when it is empty and not
  stopped.  A stop keeps the contents.
\<close>

lemma ringbuffer_sequential:
  assumes "ring_inv r"
  shows "push_outcome v r (rb_try_push v r) \<and> pop_outcome r (rb_try_pop r) \<and>
    (rb_push v r = None \<longleftrightarrow> length (ring_contents r) = ring_capacity r \<and> \<not> rb_stopped (rb_base r)) \<and>
    (rb_pop r = None \<longleftrightarrow> ring_contents r = [] \<and> \<not> rb_stopped (rb_base r)) \<and>
    ring_inv (rb_stop r) \<and> ring_contents (rb_stop r) = ring_contents r \<and>
    (\<exists>b. destroy_ringbuffer (rb_cap (rb_base r)) (rb_base r) = Inr b \<and>
      rb_storage b = replicate (rb_cap (rb_base r)) None)"
proof -
  let ?b = "rb_base r"
  have b: "rb_inv ?b" using assms by (simp add: ring_inv_def)
  note sizes = rb_size_le_capacity [OF b]
  have "rb_push v r = None \<longleftrightarrow> length (ring_contents r) = ring_capacity r \<and> \<not> rb_stopped ?b"
    using assms sizes by (auto simp: rb_push_eq ring_inv_def ring_contents_def ring_capacity_def split: if_splits)
  moreover have "rb_pop r = None \<longleftrightarrow> ring_contents r = [] \<and> \<not> rb_stopped ?b"
    using assms by (auto simp: rb_pop_eq ring_inv_def ring_contents_def split: if_splits simp flip: length_0_conv)
  moreover have "rb_size ?b \<le> rb_cap ?b" using sizes by simp
  ultimately show ?thesis
    using try_push_outcome [OF assms] try_pop_outcome [OF assms] rb_stop_ok [OF assms]
      destroy_ringbuffer_ok [OF b] by blast
qed

definition small_ring :: "nat ringbuffer" where
  "small_ring = \<lparr>rb_base = \<lparr>rb_storage = [Some 7, None, Some 5], rb_cap = 3, rb_head = 2,
     rb_stopped = False, rb_tail = 1, rb_stop_position = 3\<rparr>, rb_data_sem = 2, rb_space_sem = 0\<rparr>"

lemma ringbuffer_sequential_witness:
  "ring_inv small_ring \<and> rb_try_push 9 small_ring = Inl ringbuffer_full \<and> ring_contents small_ring = [5, 7] \<and>
   pop_outcome small_ring (rb_try_pop small_ring)"
proof -
  have slots: "rb_slots (rb_base small_ring) = [2, 0]"
    by (simp add: rb_slots_def rb_size_def small_ring_def upt_rec)
  have "ring_inv small_ring"
    using slots
    by (simp add: ring_inv_def small_ring_def rb_inv_def rb_size_def rb_capacity_def All_less_Suc numeral_3_eq_3
        numeral_2_eq_2)
  moreover have "ring_contents small_ring = [5, 7]" "ring_capacity small_ring = 2"
      "\<not> rb_stopped (rb_base small_ring)"
    using slots by (simp_all add: ring_contents_def rb_contents_def ring_capacity_def rb_capacity_def small_ring_def)
  ultimately show ?thesis
    using ringbuffer_sequential [of small_ring 9] by (simp add: push_outcome_def)
qed

end
