(* ===== verification/RingProtocol.thy ===== *)
theory RingProtocol
  imports Ringbuffer
begin

text \<open>
  The ring buffer shared by any number of threads: the protocol of mutexes and semaphores of
  \<^verbatim>\<open>ringbuffer\<close> in \<^verbatim>\<open>common_ringbuffer.h\<close>, as a step relation.  A step of a thread is a
  semaphore operation, the acquisition of a mutex, or the body of a critical section together with
  the release of its mutex.  Variables are accessed only in critical sections, so these are the
  interleavings that matter.  An object moved from a raw slot, or constructed in an occupied one,
  makes the thread \<open>Crashed\<close>.
\<close>

section \<open>The step relation\<close>

text \<open>
  Where a thread is.  The functions \<^verbatim>\<open>push\<close> and \<^verbatim>\<open>emplace\<close> have the same steps, as have
  \<^verbatim>\<open>try_push\<close> and \<^verbatim>\<open>try_emplace\<close>.
\<close>

datatype 'a ring_pc =
    Idle
  | Push_get 'a | Try_push_get 'a | Push_lock 'a | Push_body 'a | Push_done | Push_undo | Push_fail
  | Pop_get | Try_pop_get | Pop_lock | Pop_body | Pop_done 'a | Pop_undo | Pop_fail
  | Stop_lock | Stop_body | Stop_lock2 nat | Stop_body2 nat | Stop_space | Stop_data
  | Size_head | Size_tail
  | Crashed fault

datatype 'a ring_event = Tau | Pushed 'a | Popped 'a | Threw fault | Stopped | Sized nat

record 'a ring_state = "'a ringbuffer" +
  rs_head_mutex :: "nat option"
  rs_tail_mutex :: "nat option"
  rs_threads :: "'a ring_pc list"

fun ring_entry :: "'a ring_pc \<Rightarrow> bool" where
  "ring_entry (Push_get v) = True"
| "ring_entry (Try_push_get v) = True"
| "ring_entry Pop_get = True"
| "ring_entry Try_pop_get = True"
| "ring_entry Stop_lock = True"
| "ring_entry Size_head = True"
| "ring_entry _ = False"

text \<open>
  \<open>thread_step t pc s l pc' s'\<close>: thread \<open>t\<close> at \<open>pc\<close> moves to \<open>pc'\<close> and changes the shared
  state from \<open>s\<close> to \<open>s'\<close>.  \<^verbatim>\<open>try_get\<close> may also fail because it was interrupted.
\<close>

inductive thread_step :: "nat \<Rightarrow> 'a ring_pc \<Rightarrow> 'a ring_state \<Rightarrow> 'a ring_event \<Rightarrow> 'a ring_pc \<Rightarrow> 'a ring_state \<Rightarrow> bool" where
  start: "ring_entry pc \<Longrightarrow> thread_step t Idle s Tau pc s"
| push_get: "sem_try_get (rb_space_sem s) = Some n \<Longrightarrow>
    thread_step t (Push_get v) s Tau (Push_lock v) (s\<lparr>rb_space_sem := n\<rparr>)"
| try_push_get: "sem_try_get (rb_space_sem s) = Some n \<Longrightarrow>
    thread_step t (Try_push_get v) s Tau (Push_lock v) (s\<lparr>rb_space_sem := n\<rparr>)"
| try_push_none: "thread_step t (Try_push_get v) s Tau Push_fail s"
| push_lock: "rs_tail_mutex s = None \<Longrightarrow>
    thread_step t (Push_lock v) s Tau (Push_body v) (s\<lparr>rs_tail_mutex := Some t\<rparr>)"
| push_body: "emplace_internal v (rb_base s) = Inr b \<Longrightarrow>
    thread_step t (Push_body v) s (Pushed v) Push_done (s\<lparr>rb_base := b, rs_tail_mutex := None\<rparr>)"
| push_stopped: "emplace_internal v (rb_base s) = Inl ringbuffer_stopped \<Longrightarrow>
    thread_step t (Push_body v) s Tau Push_undo (s\<lparr>rs_tail_mutex := None\<rparr>)"
| push_crash: "emplace_internal v (rb_base s) = Inl e \<Longrightarrow> e \<noteq> ringbuffer_stopped \<Longrightarrow>
    thread_step t (Push_body v) s (Threw e) (Crashed e) (s\<lparr>rs_tail_mutex := None\<rparr>)"
| push_done: "thread_step t Push_done s Tau Idle (s\<lparr>rb_data_sem := sem_put (rb_data_sem s)\<rparr>)"
| push_undo: "thread_step t Push_undo s (Threw ringbuffer_stopped) Idle
    (s\<lparr>rb_space_sem := sem_put (rb_space_sem s)\<rparr>)"
| push_fail: "rs_tail_mutex s = None \<Longrightarrow>
    thread_step t Push_fail s (Threw (throw_full_or_stopped (rb_base s))) Idle s"
| pop_get: "sem_try_get (rb_data_sem s) = Some n \<Longrightarrow>
    thread_step t Pop_get s Tau Pop_lock (s\<lparr>rb_data_sem := n\<rparr>)"
| try_pop_get: "sem_try_get (rb_data_sem s) = Some n \<Longrightarrow>
    thread_step t Try_pop_get s Tau Pop_lock (s\<lparr>rb_data_sem := n\<rparr>)"
| try_pop_none: "thread_step t Try_pop_get s Tau Pop_fail s"
| pop_lock: "rs_head_mutex s = None \<Longrightarrow>
    thread_step t Pop_lock s Tau Pop_body (s\<lparr>rs_head_mutex := Some t\<rparr>)"
| pop_body: "pop_internal (rb_base s) = Inr (v, b) \<Longrightarrow>
    thread_step t Pop_body s (Popped v) (Pop_done v) (s\<lparr>rb_base := b, rs_head_mutex := None\<rparr>)"
| pop_stopped: "pop_internal (rb_base s) = Inl ringbuffer_stopped \<Longrightarrow>
    thread_step t Pop_body s Tau Pop_undo (s\<lparr>rs_head_mutex := None\<rparr>)"
| pop_crash: "pop_internal (rb_base s) = Inl e \<Longrightarrow> e \<noteq> ringbuffer_stopped \<Longrightarrow>
    thread_step t Pop_body s (Threw e) (Crashed e) (s\<lparr>rs_head_mutex := None\<rparr>)"
| pop_done: "thread_step t (Pop_done v) s Tau Idle (s\<lparr>rb_space_sem := sem_put (rb_space_sem s)\<rparr>)"
| pop_undo: "thread_step t Pop_undo s (Threw ringbuffer_stopped) Idle
    (s\<lparr>rb_data_sem := sem_put (rb_data_sem s)\<rparr>)"
| pop_fail: "rs_head_mutex s = None \<Longrightarrow>
    thread_step t Pop_fail s (Threw (throw_empty_or_stopped (rb_base s))) Idle s"
| stop_lock: "rs_tail_mutex s = None \<Longrightarrow>
    thread_step t Stop_lock s Tau Stop_body (s\<lparr>rs_tail_mutex := Some t\<rparr>)"
| stop_again: "stop_tail (rb_base s) = (None, b) \<Longrightarrow>
    thread_step t Stop_body s Tau Stop_space (s\<lparr>rb_base := b, rs_tail_mutex := None\<rparr>)"
| stop_body: "stop_tail (rb_base s) = (Some n, b) \<Longrightarrow>
    thread_step t Stop_body s Stopped (Stop_lock2 n) (s\<lparr>rb_base := b, rs_tail_mutex := None\<rparr>)"
| stop_lock2: "rs_head_mutex s = None \<Longrightarrow>
    thread_step t (Stop_lock2 n) s Tau (Stop_body2 n) (s\<lparr>rs_head_mutex := Some t\<rparr>)"
| stop_body2: "thread_step t (Stop_body2 n) s Tau Stop_space
    (s\<lparr>rb_base := stop_head n (rb_base s), rs_head_mutex := None\<rparr>)"
| stop_space: "thread_step t Stop_space s Tau Stop_data (s\<lparr>rb_space_sem := sem_put (rb_space_sem s)\<rparr>)"
| stop_data: "thread_step t Stop_data s Tau Idle (s\<lparr>rb_data_sem := sem_put (rb_data_sem s)\<rparr>)"
| size_head: "rs_head_mutex s = None \<Longrightarrow>
    thread_step t Size_head s Tau Size_tail (s\<lparr>rs_head_mutex := Some t\<rparr>)"
| size_tail: "rs_tail_mutex s = None \<Longrightarrow>
    thread_step t Size_tail s (Sized (rb_size (rb_base s))) Idle (s\<lparr>rs_head_mutex := None\<rparr>)"

inductive ring_step :: "'a ring_state \<Rightarrow> 'a ring_event \<Rightarrow> 'a ring_state \<Rightarrow> bool" where
  "t < length (rs_threads s) \<Longrightarrow> thread_step t (rs_threads s ! t) s l pc s' \<Longrightarrow>
   ring_step s l (s'\<lparr>rs_threads := (rs_threads s)[t := pc]\<rparr>)"

text \<open>A run visits only states that satisfy \<open>P\<close>.\<close>

inductive ring_run :: "('a ring_state \<Rightarrow> bool) \<Rightarrow> 'a ring_state \<Rightarrow> 'a ring_event list \<Rightarrow> 'a ring_state \<Rightarrow> bool"
  for P :: "'a ring_state \<Rightarrow> bool" and s0 :: "'a ring_state" where
  ring_run_refl: "P s0 \<Longrightarrow> ring_run P s0 [] s0"
| ring_run_step: "ring_run P s0 ls s \<Longrightarrow> ring_step s l s' \<Longrightarrow> P s' \<Longrightarrow> ring_run P s0 (ls @ [l]) s'"

definition ring_start :: "nat \<Rightarrow> nat \<Rightarrow> fault + 'a ring_state" where
  "ring_start cap n =
     bind_result (make_ringbuffer cap) (\<lambda>r.
     Inr \<lparr>rb_base = rb_base r, rb_data_sem = rb_data_sem r, rb_space_sem = rb_space_sem r,
          rs_head_mutex = None, rs_tail_mutex = None, rs_threads = replicate n Idle\<rparr>)"

section \<open>The invariant\<close>

text \<open>Tokens that threads hold, by the semaphore they belong to.\<close>

fun holds_space :: "'a ring_pc \<Rightarrow> nat" where
  "holds_space (Push_lock v) = 1"
| "holds_space (Push_body v) = 1"
| "holds_space Push_undo = 1"
| "holds_space (Pop_done v) = 1"
| "holds_space _ = 0"

fun holds_data :: "'a ring_pc \<Rightarrow> nat" where
  "holds_data Pop_lock = 1"
| "holds_data Pop_body = 1"
| "holds_data Pop_undo = 1"
| "holds_data Push_done = 1"
| "holds_data _ = 0"

text \<open>Stages of \<^verbatim>\<open>stop\<close>: in progress, stop position not set yet, tokens not added yet.\<close>

fun in_stop :: "'a ring_pc \<Rightarrow> nat" where
  "in_stop Stop_lock = 1"
| "in_stop Stop_body = 1"
| "in_stop (Stop_lock2 n) = 1"
| "in_stop (Stop_body2 n) = 1"
| "in_stop Stop_space = 1"
| "in_stop Stop_data = 1"
| "in_stop _ = 0"

fun before_position :: "'a ring_pc \<Rightarrow> nat" where
  "before_position (Stop_lock2 n) = 1"
| "before_position (Stop_body2 n) = 1"
| "before_position _ = 0"

fun before_space :: "'a ring_pc \<Rightarrow> nat" where
  "before_space Stop_space = 1"
| "before_space pc = before_position pc"

fun before_data :: "'a ring_pc \<Rightarrow> nat" where
  "before_data Stop_data = 1"
| "before_data pc = before_space pc"

fun holds_head_mutex :: "'a ring_pc \<Rightarrow> bool" where
  "holds_head_mutex Pop_body = True"
| "holds_head_mutex (Stop_body2 n) = True"
| "holds_head_mutex Size_tail = True"
| "holds_head_mutex _ = False"

fun holds_tail_mutex :: "'a ring_pc \<Rightarrow> bool" where
  "holds_tail_mutex (Push_body v) = True"
| "holds_tail_mutex Stop_body = True"
| "holds_tail_mutex _ = False"

fun pc_ok :: "'a ringbuffer_base \<Rightarrow> 'a ring_pc \<Rightarrow> bool" where
  "pc_ok b (Stop_lock2 n) = (rb_stopped b \<and> n = rb_tail b)"
| "pc_ok b (Stop_body2 n) = (rb_stopped b \<and> n = rb_tail b)"
| "pc_ok b Stop_space = (rb_stopped b \<and> rb_stop_position b = rb_tail b)"
| "pc_ok b Stop_data = (rb_stopped b \<and> rb_stop_position b = rb_tail b)"
| "pc_ok b (Crashed e) = False"
| "pc_ok b _ = True"

definition count_threads :: "('a ring_pc \<Rightarrow> nat) \<Rightarrow> 'a ring_state \<Rightarrow> nat" where
  "count_threads f s = sum_list (map f (rs_threads s))"

text \<open>At most one thread at a time is in \<^verbatim>\<open>stop\<close>.\<close>

definition one_stopper :: "'a ring_state \<Rightarrow> bool" where
  "one_stopper s \<longleftrightarrow> count_threads in_stop s \<le> 1"

definition mutex_ok :: "'a ring_state \<Rightarrow> bool" where
  "mutex_ok s \<longleftrightarrow>
     (\<forall>t. rs_head_mutex s = Some t \<longleftrightarrow> t < length (rs_threads s) \<and> holds_head_mutex (rs_threads s ! t)) \<and>
     (\<forall>t. rs_tail_mutex s = Some t \<longleftrightarrow> t < length (rs_threads s) \<and> holds_tail_mutex (rs_threads s ! t))"

definition tokens_ok :: "'a ring_state \<Rightarrow> bool" where
  "tokens_ok s \<longleftrightarrow>
     (let b = rb_base s;
          space = rb_space_sem s + count_threads holds_space s + rb_size b;
          data = rb_data_sem s + count_threads holds_data s
      in rb_capacity b \<le> space \<and> (\<not> rb_stopped b \<longrightarrow> space = rb_capacity b) \<and>
         (rb_stopped b \<longrightarrow> rb_capacity b < space \<or> 0 < count_threads before_space s) \<and>
         rb_size b \<le> data \<and> (rb_stop_position b = rb_cap b \<longrightarrow> data = rb_size b) \<and>
         (rb_stopped b \<longrightarrow> rb_size b < data \<or> 0 < count_threads before_data s) \<and>
         (rb_stopped b \<longrightarrow> rb_stop_position b = rb_tail b \<or> 0 < count_threads before_position s))"

definition proto_inv :: "'a ring_state \<Rightarrow> bool" where
  "proto_inv s \<longleftrightarrow> rb_inv (rb_base s) \<and> mutex_ok s \<and> tokens_ok s \<and>
     (\<forall>pc \<in> set (rs_threads s). pc_ok (rb_base s) pc)"

lemma count_update:
  assumes "t < length (rs_threads s)"
  shows "count_threads f (s'\<lparr>rs_threads := (rs_threads s)[t := pc]\<rparr>) + f (rs_threads s ! t) = count_threads f s + f pc"
proof -
  have "f (rs_threads s ! t) \<le> sum_list (map f (rs_threads s))"
    using assms by (intro member_le_sum_list) auto
  with assms show ?thesis by (simp add: count_threads_def map_update sum_list_update)
qed

lemma count_pos:
  assumes "t < length (rs_threads s)"
  shows "f (rs_threads s ! t) \<le> count_threads f s"
  unfolding count_threads_def using assms by (intro member_le_sum_list) auto

text \<open>
  The two facts that the tokens are for: a producer about to construct has a free slot, a consumer
  about to move an object out has one.
\<close>

lemma push_room:
  assumes "proto_inv s" "t < length (rs_threads s)" "rs_threads s ! t = Push_body v" "\<not> rb_stopped (rb_base s)"
  shows "rb_size (rb_base s) < rb_capacity (rb_base s)"
proof -
  have "1 \<le> count_threads holds_space s" using count_pos [OF assms(2), of holds_space] assms(3) by simp
  with assms(1,4) show ?thesis by (auto simp: proto_inv_def tokens_ok_def Let_def)
qed

lemma pop_data:
  assumes "proto_inv s" "t < length (rs_threads s)" "rs_threads s ! t = Pop_body"
    "rb_stop_position (rb_base s) \<noteq> rb_head (rb_base s)"
  shows "0 < rb_size (rb_base s)"
proof (cases "rb_stop_position (rb_base s) = rb_cap (rb_base s)")
  case True
  have "1 \<le> count_threads holds_data s" using count_pos [OF assms(2), of holds_data] assms(3) by simp
  with assms(1) True show ?thesis by (auto simp: proto_inv_def tokens_ok_def Let_def)
next
  case False
  with assms(1,4) have "rb_head (rb_base s) \<noteq> rb_tail (rb_base s)"
    by (auto simp: proto_inv_def rb_inv_def)
  with assms(1) show ?thesis by (auto simp: proto_inv_def rb_inv_def rb_size_def)
qed

lemma emplace_in_protocol:
  assumes "proto_inv s" "t < length (rs_threads s)" "rs_threads s ! t = Push_body v"
  obtains (stopped) "rb_stopped (rb_base s)" "emplace_internal v (rb_base s) = Inl ringbuffer_stopped"
  | (pushed) b where "\<not> rb_stopped (rb_base s)" "emplace_internal v (rb_base s) = Inr b" "rb_inv b"
      "rb_contents b = rb_contents (rb_base s) @ [v]" "rb_head b = rb_head (rb_base s)" "\<not> rb_stopped b"
      "rb_cap b = rb_cap (rb_base s)" "rb_stop_position b = rb_stop_position (rb_base s)"
proof (cases "rb_stopped (rb_base s)")
  case True
  then show ?thesis by (intro stopped) (simp_all add: emplace_internal_def)
next
  case False
  have "rb_inv (rb_base s)" using assms(1) by (simp add: proto_inv_def)
  from emplace_internal_ok [OF this False push_room [OF assms False], of v] False pushed show ?thesis
    by auto
qed

lemma pop_in_protocol:
  assumes "proto_inv s" "t < length (rs_threads s)" "rs_threads s ! t = Pop_body"
  obtains (stopped) "rb_stop_position (rb_base s) = rb_head (rb_base s)"
      "pop_internal (rb_base s) = Inl ringbuffer_stopped"
  | (popped) v b where "rb_stop_position (rb_base s) \<noteq> rb_head (rb_base s)" "pop_internal (rb_base s) = Inr (v, b)"
      "rb_inv b" "rb_contents (rb_base s) = v # rb_contents b" "rb_tail b = rb_tail (rb_base s)"
      "rb_stopped b = rb_stopped (rb_base s)" "rb_cap b = rb_cap (rb_base s)"
      "rb_stop_position b = rb_stop_position (rb_base s)"
proof (cases "rb_stop_position (rb_base s) = rb_head (rb_base s)")
  case True
  then show ?thesis by (intro stopped) (simp_all add: pop_internal_def)
next
  case False
  have "rb_inv (rb_base s)" using assms(1) by (simp add: proto_inv_def)
  from pop_internal_ok [OF this False pop_data [OF assms False]] False popped show ?thesis by blast
qed

text \<open>How a step of thread \<open>t\<close> changes the buffer: five cases, the rest leaves it alone.\<close>

lemma step_same:
  assumes "thread_step t old s l pc s'"
  shows "(rb_base s' = rb_base s \<and> l \<noteq> Stopped \<and> (\<forall>v. l \<noteq> Pushed v) \<and> (\<forall>v. l \<noteq> Popped v)) \<or>
    (\<exists>v b. old = Push_body v \<and> l = Pushed v \<and> emplace_internal v (rb_base s) = Inr b \<and> rb_base s' = b) \<or>
    (\<exists>v b. old = Pop_body \<and> l = Popped v \<and> pop_internal (rb_base s) = Inr (v, b) \<and> rb_base s' = b) \<or>
    (\<exists>n b. old = Stop_body \<and> l = Stopped \<and> stop_tail (rb_base s) = (Some n, b) \<and> pc = Stop_lock2 n \<and> rb_base s' = b) \<or>
    (\<exists>n. old = Stop_body2 n \<and> l = Tau \<and> pc = Stop_space \<and> rb_base s' = stop_head n (rb_base s))"
  using assms
  by (cases rule: thread_step.cases) (simp_all add: stop_tail_def split: if_splits)

lemma base_cases:
  assumes inv: "proto_inv s" and t: "t < length (rs_threads s)" and step: "thread_step t (rs_threads s ! t) s l pc s'"
  obtains (same) "rb_base s' = rb_base s" "l \<noteq> Stopped" "\<And>v. l \<noteq> Pushed v" "\<And>v. l \<noteq> Popped v"
  | (pushed) v where "l = Pushed v" "rs_threads s ! t = Push_body v" "\<not> rb_stopped (rb_base s)" "rb_inv (rb_base s')"
      "rb_contents (rb_base s') = rb_contents (rb_base s) @ [v]" "\<not> rb_stopped (rb_base s')"
      "rb_cap (rb_base s') = rb_cap (rb_base s)" "rb_stop_position (rb_base s') = rb_stop_position (rb_base s)"
  | (popped) v where "l = Popped v" "rs_threads s ! t = Pop_body" "rb_inv (rb_base s')"
      "rb_contents (rb_base s) = v # rb_contents (rb_base s')" "rb_tail (rb_base s') = rb_tail (rb_base s)"
      "rb_stopped (rb_base s') = rb_stopped (rb_base s)" "rb_cap (rb_base s') = rb_cap (rb_base s)"
      "rb_stop_position (rb_base s') = rb_stop_position (rb_base s)"
  | (stop) "l = Stopped" "rs_threads s ! t = Stop_body" "pc = Stop_lock2 (rb_tail (rb_base s))"
      "\<not> rb_stopped (rb_base s)" "rb_base s' = (rb_base s)\<lparr>rb_stopped := True\<rparr>"
  | (position) n where "l = Tau" "rs_threads s ! t = Stop_body2 n" "pc = Stop_space"
      "rb_base s' = (rb_base s)\<lparr>rb_stop_position := n\<rparr>"
  using step_same [OF step]
proof (elim disjE exE conjE)
  fix v b
  assume *: "rs_threads s ! t = Push_body v" "l = Pushed v" "emplace_internal v (rb_base s) = Inr b" "rb_base s' = b"
  then show thesis by (cases rule: emplace_in_protocol [OF inv t *(1)]) (auto intro: pushed)
next
  fix v b
  assume *: "rs_threads s ! t = Pop_body" "l = Popped v" "pop_internal (rb_base s) = Inr (v, b)" "rb_base s' = b"
  then show thesis by (cases rule: pop_in_protocol [OF inv t *(1)]) (auto intro: popped)
qed (auto simp: stop_tail_def stop_head_def split: if_splits intro: same stop position)

section \<open>Every step keeps the invariant\<close>

lemma ring_entry_neutral:
  assumes "ring_entry pc"
  shows "holds_space pc = 0" "holds_data pc = 0" "before_position pc = 0" "before_space pc = 0" "before_data pc = 0"
    "\<not> holds_head_mutex pc" "\<not> holds_tail_mutex pc" "pc_ok b pc"
  using assms by (cases pc; simp)+

lemma step_mutex:
  assumes "thread_step t old s l pc s'"
  shows "rs_head_mutex s' =
      (if holds_head_mutex pc then Some t else if holds_head_mutex old then None else rs_head_mutex s)"
    and "rs_tail_mutex s' =
      (if holds_tail_mutex pc then Some t else if holds_tail_mutex old then None else rs_tail_mutex s)"
    and "holds_head_mutex pc \<Longrightarrow> rs_head_mutex s = None"
    and "holds_tail_mutex pc \<Longrightarrow> rs_tail_mutex s = None"
  using assms by (cases rule: thread_step.cases; simp add: ring_entry_neutral)+

lemma step_keeps_mutex:
  assumes inv: "mutex_ok s" and t: "t < length (rs_threads s)" and step: "thread_step t (rs_threads s ! t) s l pc s'"
  shows "mutex_ok (s'\<lparr>rs_threads := (rs_threads s)[t := pc]\<rparr>)"
proof -
  have head: "rs_head_mutex s = Some u \<longleftrightarrow> u < length (rs_threads s) \<and> holds_head_mutex (rs_threads s ! u)"
    and tail: "rs_tail_mutex s = Some u \<longleftrightarrow> u < length (rs_threads s) \<and> holds_tail_mutex (rs_threads s ! u)" for u
    using inv by (simp_all add: mutex_ok_def)
  note new = step_mutex [OF step]
  have "rs_head_mutex s' = Some u \<longleftrightarrow> u < length (rs_threads s) \<and> holds_head_mutex ((rs_threads s)[t := pc] ! u)" for u
    using head [of u] head [of t] new(1,3) t by (cases "u = t") auto
  moreover have "rs_tail_mutex s' = Some u \<longleftrightarrow> u < length (rs_threads s) \<and> holds_tail_mutex ((rs_threads s)[t := pc] ! u)" for u
    using tail [of u] tail [of t] new(2,4) t by (cases "u = t") auto
  ultimately show ?thesis by (simp add: mutex_ok_def)
qed

text \<open>At most one thread is in \<^verbatim>\<open>stop\<close>, so its stage is the count.\<close>

lemma other_not_stopping:
  assumes "one_stopper s" "t < length (rs_threads s)" "in_stop (rs_threads s ! t) = 1"
    "u < length (rs_threads s)" "u \<noteq> t"
  shows "in_stop (rs_threads s ! u) = 0"
proof -
  have "count_threads in_stop s = count_threads in_stop (s\<lparr>rs_threads := (rs_threads s)[t := Idle]\<rparr>) + 1"
    using count_update [OF assms(2), where f = in_stop and s' = s and pc = Idle] assms(3) by simp
  moreover have "in_stop (rs_threads s ! u) \<le> count_threads in_stop (s\<lparr>rs_threads := (rs_threads s)[t := Idle]\<rparr>)"
    using count_pos [where s = "s\<lparr>rs_threads := (rs_threads s)[t := Idle]\<rparr>" and t = u and f = in_stop] assms(4,5)
    by simp
  ultimately show ?thesis using assms(1) by (simp add: one_stopper_def)
qed

lemma before_position_count:
  assumes "one_stopper s" "t < length (rs_threads s)" "in_stop (rs_threads s ! t) = 1"
  shows "count_threads before_position s = before_position (rs_threads s ! t)"
proof -
  have le: "before_position pc \<le> in_stop pc" for pc :: "'a ring_pc" by (cases pc) simp_all
  have "before_position ((rs_threads s)[t := Idle] ! u) = 0" if "u < length (rs_threads s)" for u
    using other_not_stopping [OF assms that] le [of "rs_threads s ! u"] assms(2) by (cases "u = t") simp_all
  then have "count_threads before_position (s\<lparr>rs_threads := (rs_threads s)[t := Idle]\<rparr>) = 0"
    by (auto simp: count_threads_def sum_list_eq_0_iff in_set_conv_nth)
  then show ?thesis
    using count_update [OF assms(2), where f = before_position and s' = s and pc = Idle] by simp
qed

lemma no_crash:
  assumes "proto_inv s" "t < length (rs_threads s)" "thread_step t (rs_threads s ! t) s l pc s'"
  shows "\<forall>e. pc \<noteq> Crashed e"
  using assms(3)
proof (cases rule: thread_step.cases)
  case (push_crash v e)
  then show ?thesis by (cases rule: emplace_in_protocol [OF assms(1,2) push_crash(1)]) auto
next
  case (pop_crash e)
  then show ?thesis by (cases rule: pop_in_protocol [OF assms(1,2) pop_crash(1)]) auto
qed (auto dest: ring_entry_neutral(8))

text \<open>Tokens are neither lost nor made, except by \<^verbatim>\<open>stop\<close>.\<close>

lemma step_conserves:
  assumes inv: "proto_inv s" and t: "t < length (rs_threads s)" and step: "thread_step t (rs_threads s ! t) s l pc s'"
  shows "rb_space_sem s' + holds_space pc + rb_size (rb_base s') =
      rb_space_sem s + holds_space (rs_threads s ! t) + rb_size (rb_base s) + of_bool (rs_threads s ! t = Stop_space)"
    and "rb_data_sem s' + holds_data pc + rb_size (rb_base s) =
      rb_data_sem s + holds_data (rs_threads s ! t) + rb_size (rb_base s') + of_bool (rs_threads s ! t = Stop_data)"
proof -
  have size: "rb_size (rb_base s') =
      (case l of Pushed _ \<Rightarrow> rb_size (rb_base s) + 1 | Popped _ \<Rightarrow> rb_size (rb_base s) - 1 | _ \<Rightarrow> rb_size (rb_base s))"
    and pos: "\<And>v. l = Popped v \<Longrightarrow> 0 < rb_size (rb_base s)"
    using inv t step
    by (cases rule: base_cases; auto simp flip: length_rb_contents split: ring_event.splits)+
  show "rb_space_sem s' + holds_space pc + rb_size (rb_base s') =
      rb_space_sem s + holds_space (rs_threads s ! t) + rb_size (rb_base s) + of_bool (rs_threads s ! t = Stop_space)"
    using step size pos no_crash [OF assms]
    by (cases rule: thread_step.cases) (simp_all add: ring_entry_neutral sem_put_def sem_try_get_def split: if_splits)
  show "rb_data_sem s' + holds_data pc + rb_size (rb_base s) =
      rb_data_sem s + holds_data (rs_threads s ! t) + rb_size (rb_base s') + of_bool (rs_threads s ! t = Stop_data)"
    using step size pos no_crash [OF assms]
    by (cases rule: thread_step.cases) (simp_all add: ring_entry_neutral sem_put_def sem_try_get_def split: if_splits)
qed

lemma step_stages:
  assumes "thread_step t old s l pc s'"
  shows "old \<noteq> Stop_space \<Longrightarrow> before_space old \<le> before_space pc"
    and "old \<noteq> Stop_data \<Longrightarrow> before_data old \<le> before_data pc"
    and "before_position old \<le> before_position pc \<or> (\<exists>n. old = Stop_body2 n)"
  using assms by (cases rule: thread_step.cases; simp add: ring_entry_neutral)+

lemma step_base:
  assumes inv: "proto_inv s" and t: "t < length (rs_threads s)" and step: "thread_step t (rs_threads s ! t) s l pc s'"
  shows "rb_cap (rb_base s') = rb_cap (rb_base s)" "rb_stopped (rb_base s') \<longleftrightarrow> rb_stopped (rb_base s) \<or> l = Stopped"
    and "rb_stopped (rb_base s') \<Longrightarrow> rb_tail (rb_base s') = rb_tail (rb_base s)"
    and "rb_stop_position (rb_base s') = (if \<exists>n. rs_threads s ! t = Stop_body2 n then rb_tail (rb_base s)
      else rb_stop_position (rb_base s))"
    and "l = Stopped \<Longrightarrow> pc = Stop_lock2 (rb_tail (rb_base s)) \<and> rs_threads s ! t = Stop_body \<and> \<not> rb_stopped (rb_base s)"
    and "rb_inv (rb_base s')"
proof -
  have ok: "pc_ok (rb_base s) (rs_threads s ! t)" and rb: "rb_inv (rb_base s)"
    using inv t by (auto simp: proto_inv_def)
  have pos: "rb_base s' = stop_head n (rb_base s)" if "rs_threads s ! t = Stop_body2 n" for n
    using step unfolding that by (cases rule: thread_step.cases) simp_all
  have "rb_cap (rb_base s') = rb_cap (rb_base s) \<and> (rb_stopped (rb_base s') \<longleftrightarrow> rb_stopped (rb_base s) \<or> l = Stopped) \<and>
    (rb_stopped (rb_base s') \<longrightarrow> rb_tail (rb_base s') = rb_tail (rb_base s)) \<and>
    rb_stop_position (rb_base s') = (if \<exists>n. rs_threads s ! t = Stop_body2 n then rb_tail (rb_base s)
      else rb_stop_position (rb_base s)) \<and>
    (l = Stopped \<longrightarrow> pc = Stop_lock2 (rb_tail (rb_base s)) \<and> rs_threads s ! t = Stop_body \<and> \<not> rb_stopped (rb_base s))"
    using inv t step
  proof (cases rule: base_cases)
    case same
    have "rb_stop_position (rb_base s') = rb_tail (rb_base s)" if "rs_threads s ! t = Stop_body2 n" for n
      using pos [OF that] ok that by (simp add: stop_head_def)
    with same show ?thesis by auto
  qed (use ok in auto)
  then show "rb_cap (rb_base s') = rb_cap (rb_base s)" "rb_stopped (rb_base s') \<longleftrightarrow> rb_stopped (rb_base s) \<or> l = Stopped"
    "rb_stopped (rb_base s') \<Longrightarrow> rb_tail (rb_base s') = rb_tail (rb_base s)"
    "rb_stop_position (rb_base s') = (if \<exists>n. rs_threads s ! t = Stop_body2 n then rb_tail (rb_base s)
      else rb_stop_position (rb_base s))"
    "l = Stopped \<Longrightarrow> pc = Stop_lock2 (rb_tail (rb_base s)) \<and> rs_threads s ! t = Stop_body \<and> \<not> rb_stopped (rb_base s)"
    by blast+
  show "rb_inv (rb_base s')"
    using inv t step by (cases rule: base_cases) (use rb ok in \<open>auto simp: rb_inv_def\<close>)
qed

lemma step_keeps_tokens:
  assumes inv: "proto_inv s" and t: "t < length (rs_threads s)" and step: "thread_step t (rs_threads s ! t) s l pc s'"
  shows "tokens_ok (s'\<lparr>rs_threads := (rs_threads s)[t := pc]\<rparr>)"
proof -
  let ?s = "s'\<lparr>rs_threads := (rs_threads s)[t := pc]\<rparr>" and ?old = "rs_threads s ! t"
  let ?b = "rb_base s" and ?b' = "rb_base s'"
  define space space' data data' where
    "space = rb_space_sem s + count_threads holds_space s + rb_size ?b"
    "space' = rb_space_sem s' + count_threads holds_space ?s + rb_size ?b'"
    "data = rb_data_sem s + count_threads holds_data s"
    "data' = rb_data_sem s' + count_threads holds_data ?s"
  have tok: "rb_capacity ?b \<le> space" "\<not> rb_stopped ?b \<Longrightarrow> space = rb_capacity ?b"
      "rb_stopped ?b \<Longrightarrow> rb_capacity ?b < space \<or> 0 < count_threads before_space s"
      "rb_size ?b \<le> data" "rb_stop_position ?b = rb_cap ?b \<Longrightarrow> data = rb_size ?b"
      "rb_stopped ?b \<Longrightarrow> rb_size ?b < data \<or> 0 < count_threads before_data s"
      "rb_stopped ?b \<Longrightarrow> rb_stop_position ?b = rb_tail ?b \<or> 0 < count_threads before_position s"
    using inv unfolding proto_inv_def tokens_ok_def Let_def space_space'_data_data'_def by auto
  have space: "space' = space + of_bool (?old = Stop_space)"
    using step_conserves(1) [OF assms] count_update [OF t, where s' = s' and pc = pc and f = holds_space]
    by (simp add: space_space'_data_data'_def)
  have data: "data' + rb_size ?b = data + rb_size ?b' + of_bool (?old = Stop_data)"
    using step_conserves(2) [OF assms] count_update [OF t, where s' = s' and pc = pc and f = holds_data]
    by (simp add: space_space'_data_data'_def)
  have stages: "?old \<noteq> Stop_space \<Longrightarrow> count_threads before_space s \<le> count_threads before_space ?s"
      "?old \<noteq> Stop_data \<Longrightarrow> count_threads before_data s \<le> count_threads before_data ?s"
      "(\<forall>n. ?old \<noteq> Stop_body2 n) \<Longrightarrow> count_threads before_position s \<le> count_threads before_position ?s"
    using step_stages [OF step] count_update [OF t, where s' = s' and pc = pc and f = before_space]
      count_update [OF t, where s' = s' and pc = pc and f = before_data]
      count_update [OF t, where s' = s' and pc = pc and f = before_position] by fastforce+
  have ok: "pc_ok ?b ?old" and rb: "rb_inv ?b" using inv t by (auto simp: proto_inv_def)
  note base = step_base [OF assms]
  have cap: "rb_capacity ?b' = rb_capacity ?b" using base(1) by (simp add: rb_capacity_def)
  have tail: "rb_tail ?b \<noteq> rb_cap ?b" using rb by (auto simp: rb_inv_def)
  have started: "0 < count_threads before_position ?s" "0 < count_threads before_space ?s" "0 < count_threads before_data ?s"
    if "l = Stopped"
    using base(5) [OF that] t
      count_pos [where s = ?s and t = t and f = before_position]
      count_pos [where s = ?s and t = t and f = before_space]
      count_pos [where s = ?s and t = t and f = before_data] by simp_all
  have "rb_capacity ?b' \<le> space'" "rb_size ?b' \<le> data'"
    using space data cap tok(1,4) by simp_all
  moreover have "\<not> rb_stopped ?b' \<longrightarrow> space' = rb_capacity ?b'"
    using space cap tok(2) base(2) ok by auto
  moreover have "rb_stopped ?b' \<longrightarrow> rb_capacity ?b' < space' \<or> 0 < count_threads before_space ?s"
    using space cap tok(1,3) base(2) stages(1) started(2) by (cases "?old = Stop_space") auto
  moreover have "rb_stopped ?b' \<longrightarrow> rb_size ?b' < data' \<or> 0 < count_threads before_data ?s"
    using data tok(4,6) base(2) stages(2) started(3) by (cases "?old = Stop_data") auto
  moreover have "rb_stop_position ?b' = rb_cap ?b' \<longrightarrow> data' = rb_size ?b'"
    using data tok(5) base(1,4) tail ok by (auto split: if_splits)
  moreover have "rb_stopped ?b' \<longrightarrow> rb_stop_position ?b' = rb_tail ?b' \<or> 0 < count_threads before_position ?s"
    using tok(7) base(2,3,4) stages(3) started(1) by (auto split: if_splits)
  ultimately show ?thesis
    by (simp add: tokens_ok_def Let_def space_space'_data_data'_def)
qed

lemma step_keeps_pc_ok:
  assumes inv: "proto_inv s" and one: "one_stopper s"
    and t: "t < length (rs_threads s)" and step: "thread_step t (rs_threads s ! t) s l pc s'"
    and u: "u < length (rs_threads s)"
  shows "pc_ok (rb_base s') ((rs_threads s)[t := pc] ! u)"
proof -
  have ok: "pc_ok (rb_base s) (rs_threads s ! w)" if "w < length (rs_threads s)" for w
    using inv that by (auto simp: proto_inv_def)
  have tok: "rb_stopped (rb_base s) \<Longrightarrow>
      rb_stop_position (rb_base s) = rb_tail (rb_base s) \<or> 0 < count_threads before_position s"
    using inv by (auto simp: proto_inv_def tokens_ok_def Let_def)
  note base = step_base [OF inv t step]
  show ?thesis
  proof (cases "u = t")
    case True
    have "pc_ok (rb_base s') pc"
      using step
    proof (cases rule: thread_step.cases)
      case (stop_again b)
      then show ?thesis
        using tok before_position_count [OF one t] by (auto simp: stop_tail_def split: if_splits)
    qed (use base ok [OF t] no_crash [OF inv t step] in \<open>auto simp: ring_entry_neutral stop_tail_def stop_head_def split: if_splits\<close>)
    with True t show ?thesis by simp
  next
    case False
    with base ok [OF u] ok [OF t] other_not_stopping [OF one t _ u] show ?thesis
      by (cases "rs_threads s ! u") (auto split: if_splits)
  qed
qed

lemma step_keeps_inv:
  assumes inv: "proto_inv s" and one: "one_stopper s" and step: "ring_step s l s'"
  shows "proto_inv s'"
  using step
proof cases
  case (1 t pc s1)
  note t = this(2) and ts = this(3)
  have "\<forall>pc' \<in> set ((rs_threads s)[t := pc]). pc_ok (rb_base s1) pc'"
    using step_keeps_pc_ok [OF inv one t ts] by (auto simp: in_set_conv_nth)
  then show ?thesis
    using step_keeps_mutex [OF _ t ts] step_keeps_tokens [OF inv t ts] step_base(6) [OF inv t ts] inv 1(1)
    by (simp add: proto_inv_def)
qed

section \<open>Runs\<close>

fun pushes :: "'a ring_event list \<Rightarrow> 'a list" where
  "pushes [] = []"
| "pushes (Pushed v # ls) = v # pushes ls"
| "pushes (_ # ls) = pushes ls"

fun pops :: "'a ring_event list \<Rightarrow> 'a list" where
  "pops [] = []"
| "pops (Popped v # ls) = v # pops ls"
| "pops (_ # ls) = pops ls"

lemma pushes_append [simp]: "pushes (xs @ ys) = pushes xs @ pushes ys"
  by (induction xs rule: pushes.induct) simp_all

lemma pops_append [simp]: "pops (xs @ ys) = pops xs @ pops ys"
  by (induction xs rule: pops.induct) simp_all

lemma ring_start_inv:
  assumes "ring_start cap n = Inr s"
  shows "proto_inv s" "rb_contents (rb_base s) = []" "\<not> rb_stopped (rb_base s)" "rb_capacity (rb_base s) = cap"
proof -
  obtain b where b: "make_ringbuffer_base cap = Inr b" "rb_base s = b" "rb_data_sem s = 0" "rb_space_sem s = cap"
      "rs_head_mutex s = None" "rs_tail_mutex s = None" "rs_threads s = replicate n Idle"
    using assms
    by (cases "make_ringbuffer_base cap :: fault + 'a ringbuffer_base") (auto simp: ring_start_def make_ringbuffer_def)
  note ok = make_ringbuffer_base_ok [OF b(1)]
  have "rb_size b = 0" using ok(2) by (simp flip: length_rb_contents)
  moreover have "count_threads f s = 0" if "f Idle = 0" for f
    using that by (simp add: count_threads_def b(7) sum_list_replicate)
  ultimately show "proto_inv s"
    using b ok by (simp add: proto_inv_def mutex_ok_def tokens_ok_def)
  show "rb_contents (rb_base s) = []" "\<not> rb_stopped (rb_base s)" "rb_capacity (rb_base s) = cap"
    using b(2) ok by simp_all
qed

lemma step_contents:
  assumes "proto_inv s" "ring_step s l s'"
  shows "rb_contents (rb_base s) @ pushes [l] = pops [l] @ rb_contents (rb_base s')"
    and "rb_stopped (rb_base s') \<longleftrightarrow> rb_stopped (rb_base s) \<or> l = Stopped"
    and "l = Pushed v \<Longrightarrow> \<not> rb_stopped (rb_base s)"
    and "rb_cap (rb_base s') = rb_cap (rb_base s)"
proof -
  obtain t pc s1 where t: "t < length (rs_threads s)" "thread_step t (rs_threads s ! t) s l pc s1"
      "s' = s1\<lparr>rs_threads := (rs_threads s)[t := pc]\<rparr>"
    using assms(2) by (auto elim: ring_step.cases)
  have other: "pushes [l] = [] \<and> pops [l] = []" if "\<forall>v. l \<noteq> Pushed v" "\<forall>v. l \<noteq> Popped v"
    using that by (cases l) simp_all
  show "rb_contents (rb_base s) @ pushes [l] = pops [l] @ rb_contents (rb_base s')"
    using assms(1) t(1,2) by (cases rule: base_cases) (use other t(3) in auto)
  show "rb_stopped (rb_base s') \<longleftrightarrow> rb_stopped (rb_base s) \<or> l = Stopped" "rb_cap (rb_base s') = rb_cap (rb_base s)"
    using step_base(1,2) [OF assms(1) t(1,2)] t(3) by simp_all
  show "l = Pushed v \<Longrightarrow> \<not> rb_stopped (rb_base s)"
    using assms(1) t(1,2) by (cases rule: base_cases) auto
qed

lemma run_inv:
  assumes "ring_run one_stopper s0 ls s" "proto_inv s0"
  shows "proto_inv s \<and> one_stopper s \<and> rb_cap (rb_base s) = rb_cap (rb_base s0) \<and>
    rb_contents (rb_base s0) @ pushes ls = pops ls @ rb_contents (rb_base s) \<and>
    (rb_stopped (rb_base s) \<longleftrightarrow> rb_stopped (rb_base s0) \<or> Stopped \<in> set ls)"
  using assms
proof (induction rule: ring_run.induct)
  case (ring_run_step ls s l s')
  note inv = ring_run_step.IH [OF ring_run_step.prems]
  then have "proto_inv s'" using step_keeps_inv ring_run_step.hyps(2) by blast
  moreover have "rb_contents (rb_base s0) @ pushes (ls @ [l]) = pops (ls @ [l]) @ rb_contents (rb_base s')"
    using inv step_contents(1) [OF _ ring_run_step.hyps(2)] by (metis append.assoc pops_append pushes_append)
  ultimately show ?case
    using inv step_contents(2,4) [OF _ ring_run_step.hyps(2)] ring_run_step.hyps(3) by auto
qed simp

lemma run_after_stop:
  assumes "ring_run one_stopper s0 ls s" "proto_inv s0" "ls = xs @ Stopped # ys"
  shows "pushes ys = []"
  using assms
proof (induction arbitrary: ys rule: ring_run.induct)
  case (ring_run_step ls s l s')
  show ?case
  proof (cases ys rule: rev_cases)
    case (snoc ys' y)
    with ring_run_step.prems(2) have ls: "ls = xs @ Stopped # ys'" "y = l" by simp_all
    have inv: "proto_inv s" "rb_stopped (rb_base s)"
      using run_inv [OF ring_run_step.hyps(1) ring_run_step.prems(1)] ls by auto
    have "pushes [l] = []"
      using step_contents(3) [OF inv(1) ring_run_step.hyps(2)] inv(2) by (cases l) auto
    with ring_run_step.IH [OF ring_run_step.prems(1) ls(1)] snoc ls(2) show ?thesis by simp
  qed simp
qed simp

section \<open>Progress\<close>

definition can_move :: "'a ring_state \<Rightarrow> nat \<Rightarrow> bool" where
  "can_move s t \<longleftrightarrow> rs_threads s ! t \<noteq> Idle \<and> (\<exists>l pc s'. thread_step t (rs_threads s ! t) s l pc s')"

text \<open>The operations that never have to wait.\<close>

lemma body_moves:
  assumes "proto_inv s" "t < length (rs_threads s)"
    "holds_tail_mutex (rs_threads s ! t) \<or> holds_head_mutex (rs_threads s ! t) \<and> rs_tail_mutex s = None"
  shows "can_move s t"
proof (cases "rs_threads s ! t")
  case (Push_body v)
  then show ?thesis
    by (cases rule: emplace_in_protocol [OF assms(1,2) Push_body])
      (auto simp: can_move_def intro: thread_step.intros)
next
  case Pop_body
  then show ?thesis
    by (cases rule: pop_in_protocol [OF assms(1,2) Pop_body])
      (auto simp: can_move_def intro: thread_step.intros)
next
  case Stop_body
  obtain m b where "stop_tail (rb_base s) = (m, b)" by fastforce
  then show ?thesis using Stop_body
    by (cases m) (auto simp: can_move_def intro: thread_step.intros)
qed (use assms(3) in \<open>auto simp: can_move_def intro: thread_step.intros\<close>)

lemma stuck_mutexes:
  assumes "proto_inv s" "\<And>t. t < length (rs_threads s) \<Longrightarrow> \<not> can_move s t"
  shows "rs_head_mutex s = None" "rs_tail_mutex s = None"
proof -
  have mutex: "mutex_ok s" using assms(1) by (simp add: proto_inv_def)
  show tail: "rs_tail_mutex s = None"
    using mutex body_moves [OF assms(1)] assms(2) by (cases "rs_tail_mutex s") (auto simp: mutex_ok_def)
  show "rs_head_mutex s = None"
    using mutex tail body_moves [OF assms(1)] assms(2) by (cases "rs_head_mutex s") (auto simp: mutex_ok_def)
qed

lemma stuck_pc:
  assumes "proto_inv s" "\<not> can_move s t" "rs_head_mutex s = None" "rs_tail_mutex s = None" "t < length (rs_threads s)"
  shows "rs_threads s ! t = Idle \<or> (\<exists>v. rs_threads s ! t = Push_get v) \<and> rb_space_sem s = 0 \<or>
    rs_threads s ! t = Pop_get \<and> rb_data_sem s = 0"
proof -
  have "pc_ok (rb_base s) (rs_threads s ! t)" using assms(1,5) by (simp add: proto_inv_def)
  moreover have "\<not> holds_tail_mutex (rs_threads s ! t)" "\<not> holds_head_mutex (rs_threads s ! t)"
    using assms(1,3,4,5) by (auto simp: proto_inv_def mutex_ok_def)
  moreover have still: "\<And>l pc s'. rs_threads s ! t \<noteq> Idle \<Longrightarrow> \<not> thread_step t (rs_threads s ! t) s l pc s'"
    using assms(2) by (auto simp: can_move_def)
  moreover have "rb_space_sem s = 0" if "rs_threads s ! t = Push_get v" for v
    using still thread_step.push_get [of s "rb_space_sem s - 1" t v] that
    by (cases "rb_space_sem s = 0") (auto simp: sem_try_get_def)
  moreover have "rb_data_sem s = 0" if "rs_threads s ! t = Pop_get"
    using still thread_step.pop_get [of s "rb_data_sem s - 1" t] that
    by (cases "rb_data_sem s = 0") (auto simp: sem_try_get_def)
  ultimately show ?thesis
    using assms(3,4) by (cases "rs_threads s ! t") (auto intro: thread_step.intros)
qed

section \<open>Properties\<close>

definition storage_race :: "'a ring_state \<Rightarrow> bool" where
  "storage_race s \<longleftrightarrow>
     (\<exists>t < length (rs_threads s). \<exists>u < length (rs_threads s). \<exists>v.
        rs_threads s ! t = Push_body v \<and> rs_threads s ! u = Pop_body \<and> \<not> rb_stopped (rb_base s) \<and>
        rb_stop_position (rb_base s) \<noteq> rb_head (rb_base s) \<and> rb_tail (rb_base s) = rb_head (rb_base s))"

lemma no_storage_race:
  assumes "proto_inv s"
  shows "\<not> storage_race s"
proof
  assume "storage_race s"
  then obtain u where "u < length (rs_threads s)" "rs_threads s ! u = Pop_body"
      "rb_stop_position (rb_base s) \<noteq> rb_head (rb_base s)" "rb_tail (rb_base s) = rb_head (rb_base s)"
    by (auto simp: storage_race_def)
  with pop_data [OF assms, of u] show False by (simp add: rb_size_def)
qed

text \<open>Concrete runs, for a buffer of capacity one that nothing has been pushed to.\<close>

definition empty_state :: "bool \<Rightarrow> nat \<Rightarrow> nat \<Rightarrow> nat option \<Rightarrow> nat option \<Rightarrow> nat ring_pc list \<Rightarrow> nat ring_state" where
  "empty_state st data space head_mutex tail_mutex threads =
     \<lparr>rb_base = \<lparr>rb_storage = [None, None], rb_cap = 2, rb_head = 0, rb_stopped = st, rb_tail = 0,
        rb_stop_position = 2\<rparr>, rb_data_sem = data, rb_space_sem = space, rs_head_mutex = head_mutex,
      rs_tail_mutex = tail_mutex, rs_threads = threads\<rparr>"

lemma empty_state_start:
  "ring_start 1 n = Inr (empty_state False 0 1 None None (replicate n Idle))"
  by (simp add: ring_start_def make_ringbuffer_def make_ringbuffer_base_def empty_state_def numeral_2_eq_2)

lemma run_move:
  assumes "ring_run P s0 ls s" "t < length (rs_threads s)" "thread_step t pc0 s l pc s'"
    "rs_threads s ! t = pc0" "s2 = s'\<lparr>rs_threads := (rs_threads s)[t := pc]\<rparr>" "P s2"
  shows "ring_run P s0 (ls @ [l]) s2"
  using ring_run_step [OF assms(1) _ assms(6)] ring_step.intros [OF assms(2), of l pc s'] assms(3-5) by simp

lemmas empty_state_simps = empty_state_def sem_try_get_def sem_put_def stop_tail_def pop_internal_def
  rb_destroy_def emplace_internal_def rb_construct_def rb_next_def one_stopper_def count_threads_def

text \<open>
  C8: The ring buffer is safe for any number of producers and consumers, as long as no two
  threads are in \<^verbatim>\<open>stop\<close> at the same time.  In every interleaving no thread moves an object out of a raw slot
  or constructs one over another; what has been popped, followed by what is in the buffer, is what has
  been pushed, in that order; the capacity is never exceeded; nothing is pushed once the buffer is
  stopped; and a producer and a consumer that are in their critical sections at the same time, under different
  mutexes, work on different slots.
\<close>

theorem ringbuffer_concurrent:
  assumes "ring_start cap n = Inr s0" "ring_run one_stopper s0 ls s"
  shows "(\<forall>pc \<in> set (rs_threads s). \<forall>e. pc \<noteq> Crashed e) \<and>
    pushes ls = pops ls @ rb_contents (rb_base s) \<and> length (rb_contents (rb_base s)) \<le> cap \<and>
    (\<forall>xs ys. ls = xs @ Stopped # ys \<longrightarrow> pushes ys = []) \<and> \<not> storage_race s"
proof -
  note start = ring_start_inv [OF assms(1)]
  note inv = run_inv [OF assms(2) start(1)]
  have "\<forall>pc \<in> set (rs_threads s). \<forall>e. pc \<noteq> Crashed e" using inv by (auto simp: proto_inv_def)
  moreover have "rb_size (rb_base s) \<le> rb_capacity (rb_base s)" "rb_capacity (rb_base s) = cap"
    using inv start(4) rb_size_le_capacity [of "rb_base s"] by (auto simp: proto_inv_def rb_capacity_def)
  ultimately show ?thesis
    using inv start(2) run_after_stop [OF assms(2) start(1)] no_storage_race by auto
qed

theorem ringbuffer_concurrent_witness:
  "\<exists>s0 ls s. (ring_start 1 1 :: fault + nat ring_state) = Inr s0 \<and> ring_run one_stopper s0 ls s \<and>
     pushes ls = [7] \<and> rb_contents (rb_base s) = [7] \<and> \<not> storage_race s"
proof -
  define s0 where "s0 = empty_state False 0 1 None None [Idle]"
  let ?run = "ring_run one_stopper s0"
  have r0: "?run [] (empty_state False 0 1 None None [Idle])"
    using ring_run_refl [of one_stopper s0] by (simp add: s0_def empty_state_simps)
  have r1: "?run [Tau] (empty_state False 0 1 None None [Push_get 7])"
    using run_move [OF r0, of 0, OF _ start [of "Push_get 7"]] by (simp add: empty_state_simps)
  have r2: "?run [Tau, Tau] (empty_state False 0 0 None None [Push_lock 7])"
    using run_move [OF r1, of 0, OF _ push_get] by (simp add: empty_state_simps)
  have r3: "?run [Tau, Tau, Tau] (empty_state False 0 0 None (Some 0) [Push_body 7])"
    using run_move [OF r2, of 0, OF _ push_lock] by (simp add: empty_state_simps)
  have r4: "\<exists>s. ?run [Tau, Tau, Tau, Pushed 7] s"
    using run_move [OF r3, of 0, OF _ push_body] by (simp add: empty_state_simps) blast
  then obtain s where s: "?run [Tau, Tau, Tau, Pushed 7] s" by blast
  have start: "ring_start 1 1 = Inr s0" using empty_state_start [of 1] by (simp add: s0_def)
  from ringbuffer_concurrent [OF start s] s start show ?thesis
    by (intro exI [of _ s0] exI [of _ "[Tau, Tau, Tau, Pushed 7]"] exI [of _ s]) simp
qed

text \<open>
  C35: No thread waits without reason.  When no thread inside an operation can make a step, then
  every one of them waits for a semaphore: in a push on a full buffer or in a pop on an empty
  one, and the buffer is not stopped.  In particular the two mutexes cause no deadlock, no wake-up is
  lost, and \<^verbatim>\<open>stop\<close> releases all waiting threads.
\<close>

theorem ringbuffer_waiting:
  assumes "ring_start cap n = Inr s0" "ring_run one_stopper s0 ls s"
    and "\<forall>u < length (rs_threads s). \<not> can_move s u"
    and "t < length (rs_threads s)" "rs_threads s ! t \<noteq> Idle"
  shows "\<not> rb_stopped (rb_base s) \<and>
    ((\<exists>v. rs_threads s ! t = Push_get v) \<and> length (rb_contents (rb_base s)) = cap \<or>
     rs_threads s ! t = Pop_get \<and> rb_contents (rb_base s) = [])"
proof -
  note start = ring_start_inv [OF assms(1)]
  have inv: "proto_inv s" "rb_capacity (rb_base s) = cap"
    using run_inv [OF assms(2) start(1)] start(4) by (auto simp: rb_capacity_def)
  note mutex = stuck_mutexes [OF inv(1)]
  have stuck: "rs_threads s ! u = Idle \<or> (\<exists>v. rs_threads s ! u = Push_get v) \<and> rb_space_sem s = 0 \<or>
      rs_threads s ! u = Pop_get \<and> rb_data_sem s = 0" if "u < length (rs_threads s)" for u
    using stuck_pc [OF inv(1) _ mutex that] assms(3) that by blast
  have zero: "count_threads f s = 0"
    if "f Idle = 0" "\<And>v. f (Push_get v) = 0" "f Pop_get = 0" for f :: "'a ring_pc \<Rightarrow> nat"
    using stuck that by (force simp: count_threads_def sum_list_eq_0_iff in_set_conv_nth)
  have tok: "tokens_ok s" "rb_size (rb_base s) \<le> cap"
    using inv rb_size_le_capacity [of "rb_base s"] by (auto simp: proto_inv_def)
  then show ?thesis
    using stuck [OF assms(4)] assms(5) inv(2)
    by (auto simp: tokens_ok_def Let_def zero simp flip: length_0_conv)
qed

theorem ringbuffer_waiting_witness:
  "\<exists>s0 ls s. (ring_start 1 1 :: fault + nat ring_state) = Inr s0 \<and> ring_run one_stopper s0 ls s \<and>
     rs_threads s = [Pop_get] \<and> \<not> can_move s 0 \<and> rb_contents (rb_base s) = []"
proof -
  define s0 where "s0 = empty_state False 0 1 None None [Idle]"
  define s where "s = empty_state False 0 1 None None [Pop_get]"
  have "ring_run one_stopper s0 [] (empty_state False 0 1 None None [Idle])"
    using ring_run_refl [of one_stopper s0] by (simp add: s0_def empty_state_simps)
  from run_move [OF this, of 0, OF _ start [of Pop_get]]
  have run: "ring_run one_stopper s0 [Tau] s" by (simp add: empty_state_simps s_def)
  have start: "ring_start 1 1 = Inr s0" using empty_state_start [of 1] by (simp add: s0_def)
  have "\<not> can_move s 0"
    by (auto simp: can_move_def s_def empty_state_def sem_try_get_def elim: thread_step.cases)
  with ringbuffer_waiting [OF start run, of 0] start run show ?thesis
    by (intro exI [of _ s0] exI [of _ "[Tau]"] exI [of _ s]) (simp add: s_def empty_state_def)
qed

text \<open>
  C36: Two calls of \<^verbatim>\<open>stop\<close> at the same time break the buffer.  The second call finds
  \<^verbatim>\<open>stopped\<close> set and adds its token to the data semaphore before the first call has set the
  stop position: a consumer takes the token, does not see the stop, and moves an object out of a slot
  that was never constructed.
\<close>

theorem ringbuffer_stop_race:
  "\<exists>s0 ls s. (ring_start 1 3 :: fault + nat ring_state) = Inr s0 \<and> ring_run (\<lambda>_. True) s0 ls s \<and>
     Crashed Null_dereference \<in> set (rs_threads s)"
proof -
  define s0 where "s0 = empty_state False 0 1 None None (replicate 3 Idle)"
  let ?run = "ring_run (\<lambda>_. True) s0"
  have r0: "?run [] (empty_state False 0 1 None None [Idle, Idle, Idle])"
    using ring_run_refl [of "\<lambda>_. True" s0] by (simp add: s0_def numeral_3_eq_3)
  have r1: "?run [Tau] (empty_state False 0 1 None None [Stop_lock, Idle, Idle])"
    using run_move [OF r0, of 0, OF _ start [of Stop_lock]] by (simp add: empty_state_simps)
  have r2: "?run [Tau, Tau] (empty_state False 0 1 None (Some 0) [Stop_body, Idle, Idle])"
    using run_move [OF r1, of 0, OF _ stop_lock] by (simp add: empty_state_simps)
  have r3: "?run [Tau, Tau, Stopped] (empty_state True 0 1 None None [Stop_lock2 0, Idle, Idle])"
    using run_move [OF r2, of 0, OF _ stop_body] by (simp add: empty_state_simps)
  have r4: "?run [Tau, Tau, Stopped, Tau] (empty_state True 0 1 None None [Stop_lock2 0, Stop_lock, Idle])"
    using run_move [OF r3, of 1, OF _ start [of Stop_lock]] by (simp add: empty_state_simps)
  have r5: "?run [Tau, Tau, Stopped, Tau, Tau] (empty_state True 0 1 None (Some 1) [Stop_lock2 0, Stop_body, Idle])"
    using run_move [OF r4, of 1, OF _ stop_lock] by (simp add: empty_state_simps)
  have r6: "?run [Tau, Tau, Stopped, Tau, Tau, Tau] (empty_state True 0 1 None None [Stop_lock2 0, Stop_space, Idle])"
    using run_move [OF r5, of 1, OF _ stop_again] by (simp add: empty_state_simps)
  have r7: "?run [Tau, Tau, Stopped, Tau, Tau, Tau, Tau] (empty_state True 0 (Suc (Suc 0)) None None [Stop_lock2 0, Stop_data, Idle])"
    using run_move [OF r6, of 1, OF _ stop_space] by (simp add: empty_state_simps)
  have r8: "?run [Tau, Tau, Stopped, Tau, Tau, Tau, Tau, Tau] (empty_state True 1 (Suc (Suc 0)) None None [Stop_lock2 0, Idle, Idle])"
    using run_move [OF r7, of 1, OF _ stop_data] by (simp add: empty_state_simps)
  have r9: "?run [Tau, Tau, Stopped, Tau, Tau, Tau, Tau, Tau, Tau] (empty_state True 1 (Suc (Suc 0)) None None [Stop_lock2 0, Idle, Pop_get])"
    using run_move [OF r8, of 2, OF _ start [of Pop_get]] by (simp add: empty_state_simps)
  have r10: "?run [Tau, Tau, Stopped, Tau, Tau, Tau, Tau, Tau, Tau, Tau] (empty_state True 0 (Suc (Suc 0)) None None [Stop_lock2 0, Idle, Pop_lock])"
    using run_move [OF r9, of 2, OF _ pop_get] by (simp add: empty_state_simps)
  have r11: "?run [Tau, Tau, Stopped, Tau, Tau, Tau, Tau, Tau, Tau, Tau, Tau] (empty_state True 0 (Suc (Suc 0)) (Some 2) None [Stop_lock2 0, Idle, Pop_body])"
    using run_move [OF r10, of 2, OF _ pop_lock] by (simp add: empty_state_simps)
  have run: "?run [Tau, Tau, Stopped, Tau, Tau, Tau, Tau, Tau, Tau, Tau, Tau, Threw Null_dereference]
      (empty_state True 0 (Suc (Suc 0)) None None [Stop_lock2 0, Idle, Crashed Null_dereference])"
    using run_move [OF r11, of 2, OF _ pop_crash [of _ Null_dereference]]
    by (simp add: empty_state_simps ringbuffer_stopped_def)
  have "ring_start 1 3 = Inr s0" unfolding s0_def by (rule empty_state_start)
  moreover have "Crashed Null_dereference \<in> set (rs_threads (empty_state True 0 (Suc (Suc 0)) None None
      [Stop_lock2 0, Idle, Crashed Null_dereference]))" by (simp add: empty_state_def)
  ultimately show ?thesis using run by blast
qed

end
