(* ===== verification/UnboundedQueue.thy ===== *)
theory UnboundedQueue
  imports Ringbuffer
begin

text \<open>
  The unbounded queue of \<^verbatim>\<open>common_unbounded_queue.h\<close>: its operations as seen by one thread, the
  interleavings of any number of threads, and its place as another provider of the queue interface
  \<open>fifo\<close>.
\<close>

section \<open>Operations\<close>

record 'a unbounded_queue =
  uq_data_sem :: nat
  uq_stopped :: bool
  uq_data :: "'a list"

definition make_unbounded_queue :: "'a unbounded_queue" where
  "make_unbounded_queue = \<lparr>uq_data_sem = 0, uq_stopped = False, uq_data = []\<rparr>"

definition uq_push :: "'a \<Rightarrow> 'a unbounded_queue \<Rightarrow> fault + 'a unbounded_queue" where
  "uq_push v q =
     (if uq_stopped q then Inl ringbuffer_stopped
      else Inr (q\<lparr>uq_data := uq_data q @ [v], uq_data_sem := sem_put (uq_data_sem q)\<rparr>))"

text \<open>\<^verbatim>\<open>emplace\<close> constructs the element in place from arguments; \<open>mk\<close> is the constructor.\<close>

definition uq_emplace :: "('b \<Rightarrow> 'a) \<Rightarrow> 'b \<Rightarrow> 'a unbounded_queue \<Rightarrow> fault + 'a unbounded_queue" where
  "uq_emplace mk args q =
     (if uq_stopped q then Inl ringbuffer_stopped
      else Inr (q\<lparr>uq_data := uq_data q @ [mk args], uq_data_sem := sem_put (uq_data_sem q)\<rparr>))"

definition uq_pop_internal :: "'a unbounded_queue \<Rightarrow> fault + ('a \<times> 'a unbounded_queue)" where
  "uq_pop_internal q =
     (case uq_data q of [] \<Rightarrow> Inl Out_of_bounds | v # vs \<Rightarrow> Inr (v, q\<lparr>uq_data := vs\<rparr>))"

text \<open>
  The critical section of \<^verbatim>\<open>pop\<close> and \<^verbatim>\<open>try_pop\<close> for a caller that holds a token; an exception puts
  the token back.
\<close>

definition uq_take :: "'a unbounded_queue \<Rightarrow> (fault + 'a) \<times> 'a unbounded_queue" where
  "uq_take q =
     (if uq_data q = [] then
        (if uq_stopped q then (Inl ringbuffer_stopped, q\<lparr>uq_data_sem := sem_put (uq_data_sem q)\<rparr>)
         else (Inl Assertion_failed, q))
      else case uq_pop_internal q of Inl e \<Rightarrow> (Inl e, q) | Inr (v, q') \<Rightarrow> (Inr v, q'))"

text \<open>The critical section of \<^verbatim>\<open>try_pop\<close> without a token: \<open>None\<close> goes around the loop.\<close>

definition uq_miss :: "'a unbounded_queue \<Rightarrow> fault option" where
  "uq_miss q =
     (if uq_data q = [] then Some (if uq_stopped q then ringbuffer_stopped else ringbuffer_empty)
      else None)"

text \<open>
  \<^verbatim>\<open>try_pop\<close> in one thread.  The list says which calls of \<^verbatim>\<open>try_get\<close> a signal interrupts; those after
  its end are not interrupted.
\<close>

fun uq_try_pop :: "bool list \<Rightarrow> 'a unbounded_queue \<Rightarrow> (fault + 'a) \<times> 'a unbounded_queue" where
  "uq_try_pop [] q =
     (case sem_try_get (uq_data_sem q) of
        Some n \<Rightarrow> uq_take (q\<lparr>uq_data_sem := n\<rparr>)
      | None \<Rightarrow> (case uq_miss q of Some e \<Rightarrow> (Inl e, q) | None \<Rightarrow> (Inl Loop_overrun, q)))"
| "uq_try_pop (interrupted # is) q =
     (case if interrupted then None else sem_try_get (uq_data_sem q) of
        Some n \<Rightarrow> uq_take (q\<lparr>uq_data_sem := n\<rparr>)
      | None \<Rightarrow> (case uq_miss q of Some e \<Rightarrow> (Inl e, q) | None \<Rightarrow> uq_try_pop is q))"

text \<open>\<^verbatim>\<open>pop\<close> in one thread; \<open>None\<close> when it would wait for ever.\<close>

definition uq_pop :: "'a unbounded_queue \<Rightarrow> ((fault + 'a) \<times> 'a unbounded_queue) option" where
  "uq_pop q =
     (case sem_try_get (uq_data_sem q) of
        Some n \<Rightarrow> Some (uq_take (q\<lparr>uq_data_sem := n\<rparr>)) | None \<Rightarrow> None)"

definition uq_stop :: "'a unbounded_queue \<Rightarrow> 'a unbounded_queue" where
  "uq_stop q =
     (if uq_stopped q then q else q\<lparr>uq_stopped := True, uq_data_sem := sem_put (uq_data_sem q)\<rparr>)"

section \<open>The queue shared by threads\<close>

text \<open>
  Where a thread is.  \<^verbatim>\<open>push\<close>, \<^verbatim>\<open>emplace\<close> and \<^verbatim>\<open>stop\<close> are one critical section; \<^verbatim>\<open>pop\<close> and \<^verbatim>\<open>try_pop\<close> take a
  token first and enter the critical section later.
\<close>

datatype 'a uq_pc = Q_idle | Q_pop | Q_try_pop | Q_token | Q_no_token | Q_failed fault

datatype 'a uq_event = Q_tau | Q_pushed 'a | Q_popped 'a | Q_threw fault | Q_stopped

inductive uq_thread :: "'a uq_pc \<Rightarrow> 'a unbounded_queue \<Rightarrow> 'a uq_event \<Rightarrow> 'a uq_pc \<Rightarrow> 'a unbounded_queue \<Rightarrow> bool" where
  "uq_push v q = Inr q' \<Longrightarrow> uq_thread Q_idle q (Q_pushed v) Q_idle q'"
| "uq_push v q = Inl e \<Longrightarrow> uq_thread Q_idle q (Q_threw e) Q_idle q"
| "uq_thread Q_idle q Q_stopped Q_idle (uq_stop q)"
| "uq_thread Q_idle q Q_tau Q_pop q"
| "uq_thread Q_idle q Q_tau Q_try_pop q"
| "sem_try_get (uq_data_sem q) = Some n \<Longrightarrow> uq_thread Q_pop q Q_tau Q_token (q\<lparr>uq_data_sem := n\<rparr>)"
| "sem_try_get (uq_data_sem q) = Some n \<Longrightarrow> uq_thread Q_try_pop q Q_tau Q_token (q\<lparr>uq_data_sem := n\<rparr>)"
| "uq_thread Q_try_pop q Q_tau Q_no_token q"
| "uq_take q = (Inr v, q') \<Longrightarrow> uq_thread Q_token q (Q_popped v) Q_idle q'"
| "uq_take q = (Inl ringbuffer_stopped, q') \<Longrightarrow> uq_thread Q_token q (Q_threw ringbuffer_stopped) Q_idle q'"
| "uq_take q = (Inl e, q') \<Longrightarrow> e \<noteq> ringbuffer_stopped \<Longrightarrow> uq_thread Q_token q (Q_threw e) (Q_failed e) q'"
| "uq_miss q = Some e \<Longrightarrow> uq_thread Q_no_token q (Q_threw e) Q_idle q"
| "uq_miss q = None \<Longrightarrow> uq_thread Q_no_token q Q_tau Q_try_pop q"

record 'a uq_state =
  us_queue :: "'a unbounded_queue"
  us_threads :: "'a uq_pc list"

inductive uq_run :: "nat \<Rightarrow> 'a uq_event list \<Rightarrow> 'a uq_state \<Rightarrow> bool" for n :: nat where
  uq_run_start: "uq_run n [] \<lparr>us_queue = make_unbounded_queue, us_threads = replicate n Q_idle\<rparr>"
| uq_run_step: "uq_run n ls s \<Longrightarrow> t < length (us_threads s) \<Longrightarrow>
    uq_thread (us_threads s ! t) (us_queue s) l pc q \<Longrightarrow>
    uq_run n (ls @ [l]) \<lparr>us_queue = q, us_threads = (us_threads s)[t := pc]\<rparr>"

section \<open>Invariants\<close>

definition uq_inv :: "'a unbounded_queue \<Rightarrow> bool" where
  "uq_inv q \<longleftrightarrow> uq_data_sem q = length (uq_data q) + of_bool (uq_stopped q)"

fun has_token :: "'a uq_pc \<Rightarrow> nat" where
  "has_token Q_token = 1"
| "has_token _ = 0"

definition uq_state_inv :: "'a uq_state \<Rightarrow> bool" where
  "uq_state_inv s \<longleftrightarrow>
     uq_data_sem (us_queue s) + sum_list (map has_token (us_threads s)) =
       length (uq_data (us_queue s)) + of_bool (uq_stopped (us_queue s)) \<and>
     (\<forall>pc \<in> set (us_threads s). \<forall>e. pc \<noteq> Q_failed e)"

fun uq_pushes :: "'a uq_event list \<Rightarrow> 'a list" where
  "uq_pushes [] = []"
| "uq_pushes (Q_pushed v # ls) = v # uq_pushes ls"
| "uq_pushes (_ # ls) = uq_pushes ls"

fun uq_pops :: "'a uq_event list \<Rightarrow> 'a list" where
  "uq_pops [] = []"
| "uq_pops (Q_popped v # ls) = v # uq_pops ls"
| "uq_pops (_ # ls) = uq_pops ls"

lemma uq_pushes_append [simp]: "uq_pushes (xs @ ys) = uq_pushes xs @ uq_pushes ys"
  by (induction xs rule: uq_pushes.induct) simp_all

lemma uq_pops_append [simp]: "uq_pops (xs @ ys) = uq_pops xs @ uq_pops ys"
  by (induction xs rule: uq_pops.induct) simp_all

text \<open>The effect of one step on the tokens and on the contents.\<close>

lemma uq_thread_effect:
  assumes "uq_thread old q l pc q'" "old = Q_token \<Longrightarrow> uq_data q = [] \<Longrightarrow> uq_stopped q"
  shows "uq_data_sem q' + has_token pc + length (uq_data q) + of_bool (uq_stopped q) =
      uq_data_sem q + has_token old + length (uq_data q') + of_bool (uq_stopped q')"
    and "uq_data q @ uq_pushes [l] = uq_pops [l] @ uq_data q'"
    and "\<forall>e. pc \<noteq> Q_failed e"
    and "l = Q_pushed v \<Longrightarrow> \<not> uq_stopped q"
  using assms
  by (cases rule: uq_thread.cases;
      auto simp: uq_push_def uq_stop_def uq_take_def uq_pop_internal_def sem_put_def sem_try_get_def
        split: if_splits list.splits)+

lemma uq_run_inv:
  assumes "uq_run n ls s"
  shows "uq_state_inv s \<and> uq_pushes ls = uq_pops ls @ uq_data (us_queue s)"
  using assms
proof (induction rule: uq_run.induct)
  case uq_run_start
  then show ?case by (simp add: uq_state_inv_def make_unbounded_queue_def sum_list_replicate)
next
  case (uq_run_step ls s t l pc q)
  let ?q = "us_queue s" and ?old = "us_threads s ! t" and ?sum = "\<lambda>ts. sum_list (map has_token ts)"
  have le: "has_token ?old \<le> ?sum (us_threads s)"
    using uq_run_step.hyps(2) by (intro member_le_sum_list) auto
  then have "?old = Q_token \<Longrightarrow> uq_data ?q = [] \<Longrightarrow> uq_stopped ?q"
    using uq_run_step.IH unfolding uq_state_inv_def
    by (cases "uq_stopped ?q") (simp_all del: sum_list_eq_0_iff)
  note eff = uq_thread_effect [OF uq_run_step.hyps(3) this]
  have "?sum ((us_threads s)[t := pc]) + has_token ?old = ?sum (us_threads s) + has_token pc"
    using uq_run_step.hyps(2) le by (simp add: map_update sum_list_update)
  with eff(1) uq_run_step.IH
  have "uq_data_sem q + ?sum ((us_threads s)[t := pc]) = length (uq_data q) + of_bool (uq_stopped q)"
    by (simp add: uq_state_inv_def)
  moreover have "\<forall>pc' \<in> set ((us_threads s)[t := pc]). \<forall>e. pc' \<noteq> Q_failed e"
    using eff(3) uq_run_step.IH set_update_subset_insert [of "us_threads s" t pc]
    by (auto simp: uq_state_inv_def)
  moreover have "uq_pushes (ls @ [l]) = uq_pops (ls @ [l]) @ uq_data q"
    using uq_run_step.IH eff(2) by simp
  ultimately show ?case by (simp add: uq_state_inv_def)
qed

section \<open>One thread\<close>

definition uq_pop_outcome :: "'a unbounded_queue \<Rightarrow> (fault + 'a) \<times> 'a unbounded_queue \<Rightarrow> bool" where
  "uq_pop_outcome q res \<longleftrightarrow>
     (case uq_data q of
        [] \<Rightarrow> res = (Inl (if uq_stopped q then ringbuffer_stopped else ringbuffer_empty), q)
      | v # vs \<Rightarrow> \<exists>q'. res = (Inr v, q') \<and> uq_inv q' \<and> uq_data q' = vs \<and> uq_stopped q' = uq_stopped q)"

lemma uq_take_outcome:
  assumes "uq_inv q" "sem_try_get (uq_data_sem q) = Some n"
  shows "uq_pop_outcome q (uq_take (q\<lparr>uq_data_sem := n\<rparr>))"
  using assms
  by (cases "uq_data q")
    (auto simp: uq_pop_outcome_def uq_take_def uq_pop_internal_def uq_inv_def sem_try_get_def sem_put_def
      split: if_splits)

lemma uq_try_pop_outcome:
  assumes "uq_inv q"
  shows "uq_pop_outcome q (uq_try_pop is q)"
  using assms
proof (induction "is" q rule: uq_try_pop.induct)
  case (1 q)
  show ?case
  proof (cases "sem_try_get (uq_data_sem q)")
    case None
    with 1 show ?thesis
      by (auto simp: uq_miss_def uq_pop_outcome_def uq_inv_def sem_try_get_def split: if_splits)
  next
    case (Some n)
    with uq_take_outcome [OF 1] show ?thesis by simp
  qed
next
  case (2 i "is" q)
  show ?case
  proof (cases "if i then None else sem_try_get (uq_data_sem q)")
    case None
    with 2 show ?thesis
      by (cases "uq_data q") (auto simp: uq_miss_def uq_pop_outcome_def)
  next
    case (Some n)
    then have "sem_try_get (uq_data_sem q) = Some n" by (simp split: if_splits)
    with Some uq_take_outcome [OF 2(2)] show ?thesis by simp
  qed
qed

text \<open>The interface, for calls that no signal interrupts.\<close>

definition uq_try_pop_result :: "'a unbounded_queue \<Rightarrow> fault + ('a \<times> 'a unbounded_queue)" where
  "uq_try_pop_result q = (case uq_try_pop [] q of (Inl e, _) \<Rightarrow> Inl e | (Inr v, q') \<Rightarrow> Inr (v, q'))"

interpretation uq: fifo uq_inv uq_data uq_push uq_try_pop_result
proof
  fix q q' :: "'a unbounded_queue" and v
  assume "uq_inv q" "uq_push v q = Inr q'"
  then show "uq_inv q' \<and> uq_data q' = uq_data q @ [v]"
    by (auto simp: uq_push_def uq_inv_def sem_put_def split: if_splits)
next
  fix q q' :: "'a unbounded_queue" and v
  assume "uq_inv q" "uq_try_pop_result q = Inr (v, q')"
  then show "uq_inv q' \<and> uq_data q = v # uq_data q'"
    using uq_try_pop_outcome [of q "[]"]
    by (auto simp: uq_try_pop_result_def uq_pop_outcome_def split: list.splits sum.splits)
qed

section \<open>Properties\<close>

text \<open>
  C38: The unbounded queue is safe for any number of threads, also when several of them stop it.
  The assertions hold: a consumer that got a token and finds no data finds the queue stopped.
  What has been popped, followed by what is in the queue, is what has been pushed.
\<close>

theorem unbounded_queue_concurrent:
  assumes "uq_run n ls s"
  shows "(\<forall>pc \<in> set (us_threads s). \<forall>e. pc \<noteq> Q_failed e) \<and> uq_pushes ls = uq_pops ls @ uq_data (us_queue s)"
  using uq_run_inv [OF assms] by (simp add: uq_state_inv_def)

theorem unbounded_queue_concurrent_witness:
  "\<exists>s. uq_run 2 [Q_pushed (5::nat)] s \<and> uq_data (us_queue s) = [5]"
proof -
  obtain q where "uq_thread Q_idle make_unbounded_queue (Q_pushed (5::nat)) Q_idle q"
    using uq_thread.intros(1) [of "5::nat" make_unbounded_queue]
    by (auto simp: uq_push_def make_unbounded_queue_def)
  then obtain s where s: "uq_run 2 [Q_pushed (5::nat)] s"
    using uq_run_step [OF uq_run_start [of 2], of 0 "Q_pushed (5::nat)" Q_idle q] by auto
  with unbounded_queue_concurrent [OF s] show ?thesis by auto
qed

text \<open>
  In one thread, \<^verbatim>\<open>try_pop\<close> returns the oldest element or the right exception, however often its
  calls of \<^verbatim>\<open>try_get\<close> are interrupted, and \<^verbatim>\<open>pop\<close> does the same but waits if the queue is empty and not
  stopped; \<^verbatim>\<open>push\<close> and \<^verbatim>\<open>emplace\<close> append unless the queue is stopped.
\<close>

lemma unbounded_queue_sequential:
  assumes "uq_inv q"
  shows "uq_pop_outcome q (uq_try_pop is q) \<and>
    (case uq_pop q of None \<Rightarrow> uq_data q = [] \<and> \<not> uq_stopped q | Some res \<Rightarrow> uq_pop_outcome q res) \<and>
    uq_emplace mk x q = uq_push (mk x) q \<and>
    (case uq_push (mk x) q of Inl e \<Rightarrow> uq_stopped q \<and> e = ringbuffer_stopped
      | Inr q' \<Rightarrow> \<not> uq_stopped q \<and> uq_inv q' \<and> uq_data q' = uq_data q @ [mk x]) \<and>
    uq_inv (uq_stop q) \<and> uq_data (uq_stop q) = uq_data q \<and> uq_stopped (uq_stop q)"
proof -
  have "case uq_pop q of None \<Rightarrow> uq_data q = [] \<and> \<not> uq_stopped q | Some res \<Rightarrow> uq_pop_outcome q res"
    using assms uq_take_outcome [OF assms]
    by (auto simp: uq_pop_def uq_inv_def sem_try_get_def split: option.splits if_splits)
  moreover have "uq_inv (uq_stop q)" "uq_data (uq_stop q) = uq_data q" "uq_stopped (uq_stop q)"
    using assms by (auto simp: uq_stop_def uq_inv_def sem_put_def)
  moreover have "case uq_push (mk x) q of Inl e \<Rightarrow> uq_stopped q \<and> e = ringbuffer_stopped
      | Inr q' \<Rightarrow> \<not> uq_stopped q \<and> uq_inv q' \<and> uq_data q' = uq_data q @ [mk x]"
    using assms by (auto simp: uq_push_def uq_inv_def sem_put_def split: sum.splits if_splits)
  ultimately show ?thesis
    using uq_try_pop_outcome [OF assms] by (simp add: uq_emplace_def uq_push_def)
qed

lemma unbounded_queue_sequential_witness:
  "uq_try_pop [True, True] \<lparr>uq_data_sem = 2, uq_stopped = False, uq_data = [3, 4::nat]\<rparr> =
     (Inr 3, \<lparr>uq_data_sem = 1, uq_stopped = False, uq_data = [4]\<rparr>) \<and>
   uq_pop_outcome \<lparr>uq_data_sem = 2, uq_stopped = False, uq_data = [3, 4::nat]\<rparr>
     (uq_try_pop [True, True] \<lparr>uq_data_sem = 2, uq_stopped = False, uq_data = [3, 4]\<rparr>)"
proof -
  have "uq_inv \<lparr>uq_data_sem = 2, uq_stopped = False, uq_data = [3, 4::nat]\<rparr>" by (simp add: uq_inv_def)
  from unbounded_queue_sequential [OF this, of "[True, True]" id 0] show ?thesis
    by (simp add: sem_try_get_def uq_miss_def uq_take_def uq_pop_internal_def)
qed

end
