(* ===== verification/MemoryPool.thy ===== *)
theory MemoryPool
  imports Prelude "HOL-Library.Multiset"
begin

text \<open>
  The memory pool of \<^verbatim>\<open>common_memory_pool.cpp\<close> and the allocators below it
  (\<^verbatim>\<open>common_memory_allocator.cpp\<close>), on the level of blocks: an address, and the user pointer that the
  deleter carries.  What the pool relies on is the locale \<open>block_allocator\<close>, which both the default
  allocator and \<^verbatim>\<open>mmap_allocator\<close> provide.
\<close>

section \<open>System memory\<close>

text \<open>
  The blocks that are allocated, with their sizes.  Requests above \<open>sm_limit\<close> fail, huge pages
  are there or not.  Giving back a block that is not allocated is a fault, as is unmapping with the
  wrong size.
\<close>

record sysmem =
  sm_live :: "nat \<Rightarrow> nat option"
  sm_next :: nat
  sm_limit :: nat
  sm_huge :: bool

definition bad_alloc :: fault where
  "bad_alloc = Exception ''std::bad_alloc''"

definition sys_new :: "nat \<Rightarrow> sysmem \<Rightarrow> nat option \<times> sysmem" where
  "sys_new sz m =
     (if sm_limit m < sz then (None, m)
      else (Some (sm_next m), m\<lparr>sm_live := (sm_live m)(sm_next m \<mapsto> sz), sm_next := sm_next m + 1\<rparr>))"

definition sys_delete :: "nat \<Rightarrow> sysmem \<Rightarrow> fault + sysmem" where
  "sys_delete p m =
     (if sm_live m p = None then Inl Out_of_bounds else Inr (m\<lparr>sm_live := (sm_live m)(p := None)\<rparr>))"

definition sys_munmap :: "nat \<Rightarrow> nat \<Rightarrow> sysmem \<Rightarrow> fault + sysmem" where
  "sys_munmap p sz m =
     (if sm_live m p = Some sz then Inr (m\<lparr>sm_live := (sm_live m)(p := None)\<rparr>) else Inl Out_of_bounds)"

section \<open>Allocators\<close>

text \<open>
  The virtual functions of \<^verbatim>\<open>memory_allocator\<close> on an allocator state \<open>'m\<close>.  \<open>allocate\<close> yields the address and
  the user pointer given to the deleter, or throws.
\<close>

record 'm allocator_ops =
  ao_allocate :: "nat \<Rightarrow> 'm \<Rightarrow> (fault + nat \<times> nat) \<times> 'm"
  ao_free :: "nat \<Rightarrow> nat \<Rightarrow> 'm \<Rightarrow> fault + 'm"

definition memory_allocator_allocate :: "nat \<Rightarrow> sysmem \<Rightarrow> (fault + nat \<times> nat) \<times> sysmem" where
  "memory_allocator_allocate sz m =
     (case sys_new sz m of
        (None, m') \<Rightarrow> (Inl bad_alloc, m')
      | (Some ptr, m') \<Rightarrow> (Inr (ptr, 0), m'))"

definition memory_allocator_free :: "nat \<Rightarrow> nat \<Rightarrow> sysmem \<Rightarrow> fault + sysmem" where
  "memory_allocator_free ptr user m = sys_delete ptr m"

definition default_ops :: "sysmem allocator_ops" where
  "default_ops = \<lparr>ao_allocate = memory_allocator_allocate, ao_free = memory_allocator_free\<rparr>"

text \<open>A mapping with \<^verbatim>\<open>MAP_HUGETLB\<close> fails when there are no huge pages; then a normal one is tried.\<close>

definition mmap_allocate :: "bool \<Rightarrow> nat \<Rightarrow> sysmem \<Rightarrow> (fault + nat \<times> nat) \<times> sysmem" where
  "mmap_allocate prefer_huge sz m =
     (let (ptr, m1) = (if prefer_huge \<and> sm_huge m then sys_new sz m else (None, m));
          (ptr, m2) = (if ptr = None then sys_new sz m1 else (ptr, m1))
      in case ptr of None \<Rightarrow> (Inl bad_alloc, m2) | Some p \<Rightarrow> (Inr (p, sz), m2))"

definition mmap_free :: "nat \<Rightarrow> nat \<Rightarrow> sysmem \<Rightarrow> fault + sysmem" where
  "mmap_free ptr user m = sys_munmap ptr user m"

definition mmap_ops :: "bool \<Rightarrow> sysmem allocator_ops" where
  "mmap_ops prefer_huge = \<lparr>ao_allocate = mmap_allocate prefer_huge, ao_free = mmap_free\<rparr>"

section \<open>The memory pool\<close>

text \<open>
  A pointer that the client holds: who its deleter gives it back to, its address and user pointer.
  \<open>mp_posted\<close> counts the refill tasks handed to the I/O service and not finished.
\<close>

datatype owner = Base_allocator | Pool

type_synonym pool_pointer = "owner \<times> nat \<times> nat"

record 'm memory_pool =
  mp_io_service :: bool
  mp_lower :: nat
  mp_upper :: nat
  mp_max_free :: nat
  mp_initial :: nat
  mp_low_water :: nat
  mp_base :: 'm
  mp_pool :: "(nat \<times> nat) list"
  mp_refilling :: bool
  mp_warn_on_empty :: bool
  mp_posted :: nat

text \<open>The constructor.  If an allocation throws, the blocks obtained so far are given back.\<close>

fun free_all :: "'m allocator_ops \<Rightarrow> (nat \<times> nat) list \<Rightarrow> 'm \<Rightarrow> fault + 'm" where
  "free_all ops [] m = Inr m"
| "free_all ops ((p, u) # ps) m = bind_result (ao_free ops p u m) (free_all ops ps)"

fun fill_pool :: "'m allocator_ops \<Rightarrow> nat \<Rightarrow> nat \<Rightarrow> (nat \<times> nat) list \<Rightarrow> 'm \<Rightarrow> (fault + (nat \<times> nat) list) \<times> 'm" where
  "fill_pool ops 0 upper ps m = (Inr ps, m)"
| "fill_pool ops (Suc n) upper ps m =
     (case ao_allocate ops upper m of
        (Inl e, m') \<Rightarrow> (case free_all ops ps m' of Inl e' \<Rightarrow> (Inl e', m') | Inr m'' \<Rightarrow> (Inl e, m''))
      | (Inr b, m') \<Rightarrow> fill_pool ops n upper (b # ps) m')"

definition make_memory_pool ::
  "'m allocator_ops \<Rightarrow> bool \<Rightarrow> nat \<Rightarrow> nat \<Rightarrow> nat \<Rightarrow> nat \<Rightarrow> nat \<Rightarrow> 'm \<Rightarrow> (fault + 'm memory_pool) \<times> 'm" where
  "make_memory_pool ops io_service lower upper max_free initial low_water m =
     (if lower \<le> upper \<and> initial \<le> max_free \<and> low_water \<le> initial \<and> (low_water = 0 \<or> io_service) then
        (case fill_pool ops initial upper [] m of
           (Inl e, m') \<Rightarrow> (Inl e, m')
         | (Inr ps, m') \<Rightarrow>
             (Inr \<lparr>mp_io_service = io_service, mp_lower = lower, mp_upper = upper, mp_max_free = max_free,
                   mp_initial = initial, mp_low_water = low_water, mp_base = m', mp_pool = ps,
                   mp_refilling = False, mp_warn_on_empty = True, mp_posted = 0\<rparr>, m'))
      else (Inl Assertion_failed, m))"

definition pool_free :: "'m allocator_ops \<Rightarrow> nat \<Rightarrow> nat \<Rightarrow> 'm memory_pool \<Rightarrow> fault + 'm memory_pool" where
  "pool_free ops ptr user mp =
     (if length (mp_pool mp) < mp_max_free mp then Inr (mp\<lparr>mp_pool := (ptr, user) # mp_pool mp\<rparr>)
      else bind_result (ao_free ops ptr user (mp_base mp)) (\<lambda>m. Inr (mp\<lparr>mp_base := m\<rparr>)))"

definition pool_convert :: "nat \<times> nat \<Rightarrow> pool_pointer" where
  "pool_convert base = (Pool, base)"

definition pool_allocate :: "'m allocator_ops \<Rightarrow> nat \<Rightarrow> 'm memory_pool \<Rightarrow> (fault + pool_pointer) \<times> 'm memory_pool" where
  "pool_allocate ops sz mp =
     (if mp_lower mp \<le> sz \<and> sz \<le> mp_upper mp then
        (case mp_pool mp of
           b # rest \<Rightarrow>
             (let mp1 = mp\<lparr>mp_pool := rest\<rparr> in
              if length rest < mp_low_water mp \<and> \<not> mp_refilling mp then
                (if mp_io_service mp
                 then (Inr (pool_convert b), mp1\<lparr>mp_refilling := True, mp_posted := mp_posted mp + 1\<rparr>)
                 else (Inl Null_dereference, mp1))
              else (Inr (pool_convert b), mp1))
         | [] \<Rightarrow>
             (case ao_allocate ops (mp_upper mp) (mp_base mp) of
                (Inl e, m) \<Rightarrow> (Inl e, mp\<lparr>mp_base := m\<rparr>)
              | (Inr b, m) \<Rightarrow> (Inr (pool_convert b), mp\<lparr>mp_base := m\<rparr>)))
      else
        (case ao_allocate ops sz (mp_base mp) of
           (Inl e, m) \<Rightarrow> (Inl e, mp\<lparr>mp_base := m\<rparr>)
         | (Inr b, m) \<Rightarrow> (Inr (Base_allocator, b), mp\<lparr>mp_base := m\<rparr>)))"

text \<open>The deleter of a pointer.\<close>

definition pool_delete :: "'m allocator_ops \<Rightarrow> pool_pointer \<Rightarrow> 'm memory_pool \<Rightarrow> fault + 'm memory_pool" where
  "pool_delete ops ptr mp =
     (case ptr of
        (Pool, p, u) \<Rightarrow> pool_free ops p u mp
      | (Base_allocator, p, u) \<Rightarrow>
          bind_result (ao_free ops p u (mp_base mp)) (\<lambda>m. Inr (mp\<lparr>mp_base := m\<rparr>)))"

text \<open>
  An iteration of \<^verbatim>\<open>refill\<close> while the pool exists: whether the loop goes on.  A block for which there is no
  room is given back at the end of the iteration.  An exception leaves the task.
\<close>

definition refill_once :: "'m allocator_ops \<Rightarrow> 'm memory_pool \<Rightarrow> (fault + bool) \<times> 'm memory_pool" where
  "refill_once ops mp =
     (case ao_allocate ops (mp_upper mp) (mp_base mp) of
        (Inl e, m) \<Rightarrow> (Inl e, mp\<lparr>mp_base := m, mp_posted := mp_posted mp - 1\<rparr>)
      | (Inr (p, u), m) \<Rightarrow>
          (let room = length (mp_pool mp) < mp_max_free mp;
               mp1 = mp\<lparr>mp_base := m, mp_pool := (if room then (p, u) # mp_pool mp else mp_pool mp)\<rparr>;
               finished = (mp_initial mp \<le> length (mp_pool mp1));
               mp2 = (if finished then mp1\<lparr>mp_refilling := False, mp_posted := mp_posted mp - 1\<rparr> else mp1)
           in if room then (Inr (\<not> finished), mp2)
              else (case ao_free ops p u m of
                      Inl e \<Rightarrow> (Inl e, mp2)
                    | Inr m' \<Rightarrow> (Inr (\<not> finished), mp2\<lparr>mp_base := m'\<rparr>))))"

fun refill :: "'m allocator_ops \<Rightarrow> nat \<Rightarrow> 'm memory_pool \<Rightarrow> (fault + unit) \<times> 'm memory_pool" where
  "refill ops 0 mp = (Inl Loop_overrun, mp)"
| "refill ops (Suc fuel) mp =
     (case refill_once ops mp of
        (Inl e, mp') \<Rightarrow> (Inl e, mp')
      | (Inr True, mp') \<Rightarrow> refill ops fuel mp'
      | (Inr False, mp') \<Rightarrow> (Inr (), mp'))"

definition set_warn_on_empty :: "bool \<Rightarrow> 'm memory_pool \<Rightarrow> 'm memory_pool" where
  "set_warn_on_empty warn mp = mp\<lparr>mp_warn_on_empty := warn\<rparr>"

definition get_warn_on_empty :: "'m memory_pool \<Rightarrow> bool" where
  "get_warn_on_empty mp = mp_warn_on_empty mp"

section \<open>Clients of the pool\<close>

text \<open>
  What clients and the I/O service do with the pool, in any order: allocate, destroy the \<open>i\<close>-th of the
  pointers they hold, run an iteration of a posted refill task.
\<close>

datatype pool_op = Pool_allocate nat | Pool_release nat | Pool_refill

fun pool_step :: "'m allocator_ops \<Rightarrow> pool_op \<Rightarrow> 'm memory_pool \<times> pool_pointer list \<Rightarrow> fault + ('m memory_pool \<times> pool_pointer list)" where
  "pool_step ops (Pool_allocate n) (mp, out) =
     (case pool_allocate ops n mp of
        (Inr ptr, mp') \<Rightarrow> Inr (mp', ptr # out)
      | (Inl e, mp') \<Rightarrow> if e = bad_alloc then Inr (mp', out) else Inl e)"
| "pool_step ops (Pool_release i) (mp, out) =
     (if i < length out then
        bind_result (pool_delete ops (out ! i) mp) (\<lambda>mp'. Inr (mp', take i out @ drop (Suc i) out))
      else Inr (mp, out))"
| "pool_step ops Pool_refill (mp, out) =
     (if mp_posted mp = 0 then Inr (mp, out)
      else case refill_once ops mp of
        (Inr _, mp') \<Rightarrow> Inr (mp', out)
      | (Inl e, mp') \<Rightarrow> if e = bad_alloc then Inr (mp', out) else Inl e)"

section \<open>The invariant\<close>

fun ptr_addr :: "pool_pointer \<Rightarrow> nat" where
  "ptr_addr (w, p, u) = p"

text \<open>All blocks of the pool and of its clients; those in the pool come back to the pool.\<close>

definition pool_blocks :: "'m memory_pool \<Rightarrow> pool_pointer list \<Rightarrow> pool_pointer list" where
  "pool_blocks mp out = map (\<lambda>(p, u). (Pool, p, u)) (mp_pool mp) @ out"

text \<open>
  Relative to \<open>live\<close>, which maps the addresses of allocated blocks to their sizes and user pointers: the blocks
  are different, no other block is allocated, each has the user pointer it was allocated with, and those that
  belong to the pool have the size \<^verbatim>\<open>upper\<close>.
\<close>

definition blocks_ok :: "(nat \<Rightarrow> (nat \<times> nat) option) \<Rightarrow> nat \<Rightarrow> pool_pointer list \<Rightarrow> bool" where
  "blocks_ok live upper bs \<longleftrightarrow>
     distinct (map ptr_addr bs) \<and> dom live = ptr_addr ` set bs \<and>
     (\<forall>(w, p, u) \<in> set bs. \<exists>n. live p = Some (n, u) \<and> (w = Pool \<longrightarrow> n = upper))"

definition pool_limits :: "'m memory_pool \<Rightarrow> bool" where
  "pool_limits mp \<longleftrightarrow> length (mp_pool mp) \<le> mp_max_free mp \<and> mp_initial mp \<le> mp_max_free mp \<and>
     (mp_low_water mp = 0 \<or> mp_io_service mp)"

definition pool_params :: "'m memory_pool \<Rightarrow> nat \<times> nat \<times> nat \<times> nat" where
  "pool_params mp = (mp_lower mp, mp_upper mp, mp_max_free mp, mp_initial mp)"

lemma blocks_ok_mset:
  assumes "mset bs = mset bs'"
  shows "blocks_ok live upper bs \<longleftrightarrow> blocks_ok live upper bs'"
proof -
  have "mset (map ptr_addr bs) = mset (map ptr_addr bs')" using assms by simp
  then show ?thesis
    using mset_eq_imp_distinct_iff [of "map ptr_addr bs" "map ptr_addr bs'"] mset_eq_setD [OF assms]
    by (simp add: blocks_ok_def)
qed

lemma blocks_ok_insert:
  assumes "blocks_ok live upper bs" "live p = None" "w = Pool \<Longrightarrow> n = upper"
  shows "blocks_ok (live(p \<mapsto> (n, u))) upper ((w, p, u) # bs)"
proof -
  have "p \<notin> ptr_addr ` set bs" using assms(1,2) by (auto simp: blocks_ok_def)
  moreover from this have "p' \<noteq> p" if "(w', p', u') \<in> set bs" for w' p' u' using that by force
  ultimately show ?thesis using assms by (auto simp: blocks_ok_def)
qed

lemma blocks_ok_remove:
  assumes "blocks_ok live upper ((w, p, u) # bs)"
  shows "blocks_ok (live(p := None)) upper bs" "\<exists>n. live p = Some (n, u)"
proof -
  have "p \<notin> ptr_addr ` set bs" using assms by (auto simp: blocks_ok_def)
  moreover from this have "p' \<noteq> p" if "(w', p', u') \<in> set bs" for w' p' u' using that by force
  ultimately show "blocks_ok (live(p := None)) upper bs" using assms by (auto simp: blocks_ok_def)
  show "\<exists>n. live p = Some (n, u)" using assms by (auto simp: blocks_ok_def)
qed

text \<open>
  What a client may rely on, given the sizes of the allocated blocks: the free list is bounded, all blocks
  are different and are exactly the allocated ones, and the next allocation yields a block that nobody else
  has and that is large enough, or throws \<^verbatim>\<open>std::bad_alloc\<close> without effect.
\<close>

definition pool_spec ::
  "'m allocator_ops \<Rightarrow> ('m \<Rightarrow> nat \<Rightarrow> nat option) \<Rightarrow> nat \<Rightarrow> 'm memory_pool \<Rightarrow> pool_pointer list \<Rightarrow> bool" where
  "pool_spec ops sizes max_free mp out \<longleftrightarrow>
     length (mp_pool mp) \<le> max_free \<and> distinct (map ptr_addr (pool_blocks mp out)) \<and>
     dom (sizes (mp_base mp)) = ptr_addr ` set (pool_blocks mp out) \<and>
     (\<forall>n. case pool_allocate ops n mp of
        (Inl e, mp') \<Rightarrow> e = bad_alloc \<and> mp' = mp
      | (Inr ptr, mp') \<Rightarrow> ptr_addr ptr \<notin> ptr_addr ` set out \<and>
          (\<exists>k. sizes (mp_base mp') (ptr_addr ptr) = Some k \<and> n \<le> k))"

text \<open>A refill task ends, with a full pool or with \<^verbatim>\<open>std::bad_alloc\<close>.\<close>

definition refill_spec :: "'m allocator_ops \<Rightarrow> 'm memory_pool \<Rightarrow> bool" where
  "refill_spec ops mp \<longleftrightarrow>
     (case refill ops (mp_initial mp + 1) mp of
        (Inl e, mp') \<Rightarrow> e = bad_alloc
      | (Inr _, mp') \<Rightarrow> mp_initial mp \<le> length (mp_pool mp') \<and> \<not> mp_refilling mp')"

section \<open>The interface of a block allocator\<close>

text \<open>
  \<open>live m\<close> maps the addresses of the allocated blocks to their sizes and user pointers.  Allocation yields a
  block that was not live, freeing a live block with its own user pointer succeeds.
\<close>

locale block_allocator =
  fixes ops :: "'m allocator_ops"
    and live :: "'m \<Rightarrow> nat \<Rightarrow> (nat \<times> nat) option"
    and ok :: "'m \<Rightarrow> bool"
  assumes allocate_ok: "ok m \<Longrightarrow> ao_allocate ops n m = (Inr (p, u), m') \<Longrightarrow>
      ok m' \<and> live m p = None \<and> live m' = (live m)(p \<mapsto> (n, u))"
    and allocate_throws: "ok m \<Longrightarrow> ao_allocate ops n m = (Inl e, m') \<Longrightarrow> e = bad_alloc \<and> m' = m"
    and free_ok: "ok m \<Longrightarrow> live m p = Some (n, u) \<Longrightarrow>
      \<exists>m'. ao_free ops p u m = Inr m' \<and> ok m' \<and> live m' = (live m)(p := None)"
begin

definition pool_ok :: "'m memory_pool \<Rightarrow> pool_pointer list \<Rightarrow> bool" where
  "pool_ok mp out \<longleftrightarrow> ok (mp_base mp) \<and> pool_limits mp \<and>
     blocks_ok (live (mp_base mp)) (mp_upper mp) (pool_blocks mp out)"

lemma allocate_cases:
  assumes "ok m" "blocks_ok (live m) upper bs" "w \<noteq> Pool \<or> n = upper"
  obtains (throws) "ao_allocate ops n m = (Inl bad_alloc, m)"
  | (block) p u m' where "ao_allocate ops n m = (Inr (p, u), m')" "ok m'" "blocks_ok (live m') upper ((w, p, u) # bs)"
      "live m' p = Some (n, u)"
proof (cases "ao_allocate ops n m")
  case (Pair r m')
  show ?thesis
  proof (cases r)
    case (Inl e)
    with Pair allocate_throws [OF assms(1), of n e m'] throws show ?thesis by simp
  next
    case (Inr b)
    obtain p u where b: "b = (p, u)" by fastforce
    with Pair Inr allocate_ok [OF assms(1), of n p u m'] block blocks_ok_insert [OF assms(2), of p w n u] assms(3)
    show ?thesis by auto
  qed
qed

lemma free_block:
  assumes "ok m" "blocks_ok (live m) upper ((w, p, u) # bs)"
  obtains m' where "ao_free ops p u m = Inr m'" "ok m'" "blocks_ok (live m') upper bs"
  using blocks_ok_remove [OF assms(2)] free_ok [OF assms(1), of p _ u] that by metis

lemma pool_allocate_ok:
  assumes inv: "pool_ok mp out"
  obtains (throws) "pool_allocate ops n mp = (Inl bad_alloc, mp)"
  | (block) w p u k mp' where "pool_allocate ops n mp = (Inr (w, p, u), mp')" "pool_ok mp' ((w, p, u) # out)"
      "live (mp_base mp') p = Some (k, u)" "n \<le> k" "pool_params mp' = pool_params mp"
proof (cases "mp_lower mp \<le> n \<and> n \<le> mp_upper mp")
  case pooled: True
  show ?thesis
  proof (cases "mp_pool mp")
    case Nil
    have bs: "ok (mp_base mp)" "blocks_ok (live (mp_base mp)) (mp_upper mp) out" "pool_limits mp"
      using inv Nil by (auto simp: pool_ok_def pool_blocks_def)
    have "Pool \<noteq> Pool \<or> mp_upper mp = mp_upper mp" by simp
    with bs(1,2) show ?thesis
    proof (cases rule: allocate_cases)
      case throws': throws
      with pooled Nil throws show ?thesis by (simp add: pool_allocate_def)
    next
      case block': (block p u m')
      with pooled Nil bs show ?thesis
        by (intro block [of Pool p u "mp\<lparr>mp_base := m'\<rparr>" "mp_upper mp"])
          (auto simp: pool_allocate_def pool_convert_def pool_ok_def pool_blocks_def pool_limits_def pool_params_def)
    qed
  next
    case (Cons b rest)
    obtain p u where b: "b = (p, u)" by fastforce
    define post where "post \<longleftrightarrow> length rest < mp_low_water mp \<and> \<not> mp_refilling mp"
    define mp' where "mp' = (if post
      then mp\<lparr>mp_pool := rest, mp_refilling := True, mp_posted := mp_posted mp + 1\<rparr> else mp\<lparr>mp_pool := rest\<rparr>)"
    have io: "post \<Longrightarrow> mp_io_service mp"
      using inv by (auto simp: pool_ok_def pool_limits_def post_def)
    have "pool_allocate ops n mp = (Inr (Pool, p, u), mp')"
      using pooled io unfolding pool_allocate_def Cons b list.case Let_def post_def [symmetric]
      by (simp add: mp'_def pool_convert_def)
    moreover have "mp_pool mp' = rest" "mp_base mp' = mp_base mp" "mp_upper mp' = mp_upper mp"
        "pool_params mp' = pool_params mp" by (simp_all add: mp'_def pool_params_def)
    moreover have "pool_limits mp" "length rest \<le> length (mp_pool mp)"
      using inv Cons by (simp_all add: pool_ok_def)
    then have lim: "pool_limits mp'" by (cases post) (simp_all add: mp'_def pool_limits_def)
    ultimately have mp': "pool_allocate ops n mp = (Inr (Pool, p, u), mp')" "mp_pool mp' = rest"
        "mp_base mp' = mp_base mp" "mp_upper mp' = mp_upper mp" "pool_limits mp'" "pool_params mp' = pool_params mp"
      using lim by blast+
    have "mset (pool_blocks mp out) = mset (pool_blocks mp' ((Pool, p, u) # out))"
      by (simp add: pool_blocks_def Cons b mp'(2))
    from blocks_ok_mset [OF this] inv
    have blocks: "blocks_ok (live (mp_base mp)) (mp_upper mp) (pool_blocks mp' ((Pool, p, u) # out))"
      by (simp add: pool_ok_def)
    then have "live (mp_base mp) p = Some (mp_upper mp, u)" by (auto simp: blocks_ok_def pool_blocks_def)
    with blocks mp' inv pooled show ?thesis
      by (intro block [of Pool p u mp' "mp_upper mp"]) (simp_all add: pool_ok_def)
  qed
next
  case direct: False
  have bs: "ok (mp_base mp)" "blocks_ok (live (mp_base mp)) (mp_upper mp) (pool_blocks mp out)" "pool_limits mp"
    using inv by (auto simp: pool_ok_def)
  have "Base_allocator \<noteq> Pool \<or> n = mp_upper mp" by simp
  with bs(1,2) show ?thesis
  proof (cases rule: allocate_cases)
    case throws': throws
    with direct have "pool_allocate ops n mp = (Inl bad_alloc, mp)" by (auto simp: pool_allocate_def)
    then show ?thesis by (rule throws)
  next
    case block': (block p u m')
    let ?mp = "mp\<lparr>mp_base := m'\<rparr>"
    have "mset ((Base_allocator, p, u) # pool_blocks mp out) = mset (pool_blocks ?mp ((Base_allocator, p, u) # out))"
      by (simp add: pool_blocks_def)
    from blocks_ok_mset [OF this] block'(3)
    have "blocks_ok (live m') (mp_upper mp) (pool_blocks ?mp ((Base_allocator, p, u) # out))" by simp
    with direct bs(3) block' show ?thesis
      by (intro block [of Base_allocator p u ?mp n])
        (auto simp: pool_allocate_def pool_ok_def pool_limits_def pool_params_def)
  qed
qed

lemma pool_delete_ok:
  assumes inv: "pool_ok mp out" and i: "i < length out"
  obtains mp' where "pool_delete ops (out ! i) mp = Inr mp'" "pool_ok mp' (take i out @ drop (Suc i) out)"
    "pool_params mp' = pool_params mp"
proof -
  obtain w p u where b: "out ! i = (w, p, u)" by (metis prod_cases3)
  let ?out = "take i out @ drop (Suc i) out"
  have perm: "mset out = mset (out ! i # ?out)"
    using i by (metis id_take_nth_drop mset.simps(2) mset_append union_mset_add_mset_right)
  then have blocks: "blocks_ok (live (mp_base mp)) (mp_upper mp) ((w, p, u) # pool_blocks mp ?out)"
    using inv blocks_ok_mset [of "pool_blocks mp out" "(w, p, u) # pool_blocks mp ?out"]
    by (simp add: pool_ok_def pool_blocks_def b)
  have ok: "ok (mp_base mp)" "pool_limits mp" using inv by (auto simp: pool_ok_def)
  from free_block [OF ok(1) blocks] obtain m' where m': "ao_free ops p u (mp_base mp) = Inr m'" "ok m'"
      "blocks_ok (live m') (mp_upper mp) (pool_blocks mp ?out)" .
  show ?thesis
  proof (cases "w = Pool \<and> length (mp_pool mp) < mp_max_free mp")
    case True
    then show ?thesis
      using blocks ok by (intro that [of "mp\<lparr>mp_pool := (p, u) # mp_pool mp\<rparr>"])
        (auto simp: pool_delete_def b pool_free_def pool_ok_def pool_blocks_def pool_limits_def pool_params_def)
  next
    case False
    then have "pool_delete ops (out ! i) mp = Inr (mp\<lparr>mp_base := m'\<rparr>)"
      using m'(1) by (cases w) (auto simp: pool_delete_def b pool_free_def)
    then show ?thesis
      using m' ok(2) by (intro that [of "mp\<lparr>mp_base := m'\<rparr>"])
        (auto simp: pool_ok_def pool_blocks_def pool_limits_def pool_params_def)
  qed
qed

lemma refill_once_ok:
  assumes inv: "pool_ok mp out"
  obtains (throws) mp' where "refill_once ops mp = (Inl bad_alloc, mp')" "pool_ok mp' out" "pool_params mp' = pool_params mp"
  | (more) mp' where "refill_once ops mp = (Inr True, mp')" "pool_ok mp' out" "pool_params mp' = pool_params mp"
      "length (mp_pool mp') = Suc (length (mp_pool mp))" "length (mp_pool mp') < mp_initial mp"
  | (finished) mp' where "refill_once ops mp = (Inr False, mp')" "pool_ok mp' out" "pool_params mp' = pool_params mp"
      "mp_initial mp \<le> length (mp_pool mp')" "\<not> mp_refilling mp'"
proof -
  have ok: "ok (mp_base mp)" "blocks_ok (live (mp_base mp)) (mp_upper mp) (pool_blocks mp out)" "pool_limits mp"
    using inv by (auto simp: pool_ok_def)
  have "Pool \<noteq> Pool \<or> mp_upper mp = mp_upper mp" by simp
  with ok(1,2) show ?thesis
  proof (cases rule: allocate_cases)
    case throws': throws
    with inv show ?thesis
      by (intro throws [of "mp\<lparr>mp_posted := mp_posted mp - 1\<rparr>"]) (auto simp: refill_once_def pool_ok_def pool_blocks_def pool_limits_def pool_params_def)
  next
    case (block p u m')
    let ?n = "length (mp_pool mp)"
    show ?thesis
    proof (cases "?n < mp_max_free mp")
      case True
      let ?mp = "mp\<lparr>mp_base := m', mp_pool := (p, u) # mp_pool mp\<rparr>"
      let ?mp' = "?mp\<lparr>mp_refilling := False, mp_posted := mp_posted mp - 1\<rparr>"
      have inv': "pool_ok ?mp out" "pool_ok ?mp' out"
        using block ok(3) True by (simp_all add: pool_ok_def pool_blocks_def pool_limits_def)
      show ?thesis
      proof (cases "mp_initial mp \<le> Suc ?n")
        case True
        have "refill_once ops mp = (Inr False, ?mp')"
          using \<open>?n < mp_max_free mp\<close> True block(1) by (simp add: refill_once_def Let_def)
        with inv'(2) True show ?thesis by (intro finished [of ?mp']) (simp_all add: pool_params_def)
      next
        case False
        have "refill_once ops mp = (Inr True, ?mp)"
          using \<open>?n < mp_max_free mp\<close> False block(1) by (simp add: refill_once_def Let_def)
        with inv'(1) False show ?thesis by (intro more [of ?mp]) (simp_all add: pool_params_def)
      qed
    next
      case False
      from free_block [OF block(2,3)] obtain m'' where m'': "ao_free ops p u m' = Inr m''" "ok m''"
          "blocks_ok (live m'') (mp_upper mp) (pool_blocks mp out)" .
      let ?mp = "mp\<lparr>mp_base := m'', mp_refilling := False, mp_posted := mp_posted mp - 1\<rparr>"
      have "mp_initial mp \<le> ?n" using False ok(3) by (simp add: pool_limits_def)
      moreover have "pool_ok ?mp out" using m'' ok(3) by (simp add: pool_ok_def pool_blocks_def pool_limits_def)
      moreover have "refill_once ops mp = (Inr False, ?mp)"
        using False \<open>mp_initial mp \<le> ?n\<close> block(1) m''(1) by (simp add: refill_once_def Let_def)
      ultimately show ?thesis by (intro finished [of ?mp]) (simp_all add: pool_params_def)
    qed
  qed
qed

lemma refill_ok:
  assumes "pool_ok mp out" "mp_initial mp - length (mp_pool mp) < fuel"
  shows "\<exists>mp'. pool_ok mp' out \<and> pool_params mp' = pool_params mp \<and>
    (refill ops fuel mp = (Inl bad_alloc, mp') \<or>
     refill ops fuel mp = (Inr (), mp') \<and> mp_initial mp \<le> length (mp_pool mp') \<and> \<not> mp_refilling mp')"
  using assms
proof (induction fuel arbitrary: mp)
  case (Suc fuel)
  from Suc.prems(1) show ?case
  proof (cases rule: refill_once_ok)
    case (more mp1)
    have "mp_initial mp1 = mp_initial mp" using more(3) by (simp add: pool_params_def)
    with more Suc.prems(2) have "mp_initial mp1 - length (mp_pool mp1) < fuel" by simp
    from Suc.IH [OF more(2) this] more(1,3) \<open>mp_initial mp1 = mp_initial mp\<close> show ?thesis by simp
  qed auto
qed simp

lemma free_all_ok:
  assumes "ok m" "blocks_ok (live m) upper (map (\<lambda>(p, u). (Pool, p, u)) ps)"
  shows "\<exists>m'. free_all ops ps m = Inr m' \<and> ok m' \<and> dom (live m') = {}"
  using assms
proof (induction ps arbitrary: m)
  case Nil
  then show ?case by (simp add: blocks_ok_def)
next
  case (Cons b ps)
  obtain p u where b: "b = (p, u)" by fastforce
  with Cons.prems have "blocks_ok (live m) upper ((Pool, p, u) # map (\<lambda>(p, u). (Pool, p, u)) ps)" by simp
  from free_block [OF Cons.prems(1) this] obtain m' where m': "ao_free ops p u m = Inr m'" "ok m'"
      "blocks_ok (live m') upper (map (\<lambda>(p, u). (Pool, p, u)) ps)" .
  from Cons.IH [OF m'(2,3)] m'(1) b show ?case by simp
qed

lemma fill_pool_ok:
  assumes "ok m" "blocks_ok (live m) upper (map (\<lambda>(p, u). (Pool, p, u)) ps)"
  obtains (throws) m' where "fill_pool ops n upper ps m = (Inl bad_alloc, m')" "ok m'" "dom (live m') = {}"
  | (filled) ps' m' where "fill_pool ops n upper ps m = (Inr ps', m')" "ok m'" "length ps' = n + length ps"
      "blocks_ok (live m') upper (map (\<lambda>(p, u). (Pool, p, u)) ps')"
  using assms
proof (induction n arbitrary: ps m thesis)
  case 0
  then show ?case by simp
next
  case (Suc n)
  have "Pool \<noteq> Pool \<or> upper = upper" by simp
  with Suc.prems(3,4) show ?case
  proof (cases rule: allocate_cases)
    case throws
    with free_all_ok [OF Suc.prems(3,4)] Suc.prems(1) show ?thesis by auto
  next
    case (block p u m')
    have "blocks_ok (live m') upper (map (\<lambda>(p, u). (Pool, p, u)) ((p, u) # ps))" using block(3) by simp
    with block(2) show ?thesis
      by (rule Suc.IH [rotated 2]) (use block(1) Suc.prems(1,2) in auto)
  qed
qed

lemma pool_step_ok:
  assumes "pool_ok mp out"
  obtains mp' out' where "pool_step ops act (mp, out) = Inr (mp', out')" "pool_ok mp' out'" "pool_params mp' = pool_params mp"
proof (cases act)
  case (Pool_allocate n)
  from assms show ?thesis
    by (cases rule: pool_allocate_ok [where n = n]) (use assms Pool_allocate that in auto)
next
  case (Pool_release i)
  with assms that pool_delete_ok [OF assms, of i] show ?thesis
    by (cases "i < length out") (auto elim: pool_delete_ok [OF assms])
next
  case Pool_refill
  show ?thesis
  proof (cases "mp_posted mp = 0")
    case False
    from assms show ?thesis
      by (cases rule: refill_once_ok) (use assms Pool_refill False that in auto)
  qed (use assms that Pool_refill in auto)
qed

lemma pool_history_ok:
  assumes "pool_ok mp out"
  obtains mp' out' where "fold_result (pool_step ops) acts (mp, out) = Inr (mp', out')" "pool_ok mp' out'"
    "pool_params mp' = pool_params mp"
  using assms
proof (induction acts arbitrary: mp out thesis)
  case (Cons act acts)
  from Cons.prems(2) obtain mp1 out1 where 1: "pool_step ops act (mp, out) = Inr (mp1, out1)" "pool_ok mp1 out1"
      "pool_params mp1 = pool_params mp" by (rule pool_step_ok)
  show ?case by (rule Cons.IH [OF _ 1(2)]) (use 1 Cons.prems(1) in auto)
qed simp

lemma make_pool_ok:
  assumes "make_memory_pool ops io_service lower upper max_free initial low_water m = (r, m1)" "ok m" "dom (live m) = {}"
  shows "case r of Inl e \<Rightarrow> (e = bad_alloc \<or> e = Assertion_failed) \<and> dom (live m1) = {}
    | Inr mp \<Rightarrow> pool_ok mp [] \<and> pool_params mp = (lower, upper, max_free, initial) \<and> length (mp_pool mp) = initial"
proof (cases "lower \<le> upper \<and> initial \<le> max_free \<and> low_water \<le> initial \<and> (low_water = 0 \<or> io_service)")
  case True
  have "blocks_ok (live m) upper (map (\<lambda>(p, u). (Pool, p, u)) [])" using assms(3) by (simp add: blocks_ok_def)
  with assms(2) show ?thesis
  proof (cases rule: fill_pool_ok [where n = initial])
    case (throws m')
    with assms(1) True show ?thesis by (auto simp: make_memory_pool_def)
  next
    case (filled ps' m')
    with assms(1) True show ?thesis
      by (auto simp: make_memory_pool_def pool_ok_def pool_limits_def pool_blocks_def pool_params_def)
  qed
next
  case False
  with assms show ?thesis by (auto simp: make_memory_pool_def split: if_splits)
qed

lemma pool_ok_spec:
  assumes "pool_ok mp out"
  shows "pool_spec ops (\<lambda>m p. map_option fst (live m p)) (mp_max_free mp) mp out"
proof -
  have next_ok: "case pool_allocate ops n mp of
        (Inl e, mp') \<Rightarrow> e = bad_alloc \<and> mp' = mp
      | (Inr ptr, mp') \<Rightarrow> ptr_addr ptr \<notin> ptr_addr ` set out \<and>
          (\<exists>k. map_option fst (live (mp_base mp') (ptr_addr ptr)) = Some k \<and> n \<le> k)" for n
    using assms
  proof (cases rule: pool_allocate_ok [where n = n])
    case (block w p u k mp')
    then have "p \<notin> ptr_addr ` set out" by (auto simp: pool_ok_def blocks_ok_def pool_blocks_def)
    with block show ?thesis by simp
  qed simp
  have "dom (\<lambda>p. map_option fst (live (mp_base mp) p)) = dom (live (mp_base mp))" by (auto simp: dom_def)
  with next_ok assms show ?thesis
    by (simp add: pool_spec_def pool_ok_def blocks_ok_def pool_limits_def)
qed

lemma pool_ok_refill:
  assumes "pool_ok mp out"
  shows "refill_spec ops mp"
proof -
  have "mp_initial mp - length (mp_pool mp) < mp_initial mp + 1" by simp
  from refill_ok [OF assms this] show ?thesis unfolding refill_spec_def by (elim exE conjE disjE) simp_all
qed

lemma pool_history:
  assumes "make_memory_pool ops io_service lower upper max_free initial low_water m = (Inr mp0, m1)"
    "ok m" "dom (live m) = {}"
  shows "\<exists>mp out. fold_result (pool_step ops) acts (mp0, []) = Inr (mp, out) \<and>
    pool_spec ops (\<lambda>m p. map_option fst (live m p)) max_free mp out \<and> refill_spec ops mp"
proof -
  have mp0: "pool_ok mp0 []" "pool_params mp0 = (lower, upper, max_free, initial)"
    using make_pool_ok [OF assms] by simp_all
  from pool_history_ok [OF mp0(1), of acts] obtain mp out where
    mp: "fold_result (pool_step ops) acts (mp0, []) = Inr (mp, out)" "pool_ok mp out" "pool_params mp = pool_params mp0" .
  have "mp_max_free mp = max_free" using mp(3) mp0(2) by (simp add: pool_params_def)
  with mp(1) pool_ok_spec [OF mp(2)] pool_ok_refill [OF mp(2)] show ?thesis by auto
qed

end

section \<open>The allocators provide the interface\<close>

definition sys_ok :: "sysmem \<Rightarrow> bool" where
  "sys_ok m \<longleftrightarrow> (\<forall>p. sm_next m \<le> p \<longrightarrow> sm_live m p = None)"

definition default_live :: "sysmem \<Rightarrow> nat \<Rightarrow> (nat \<times> nat) option" where
  "default_live m p = map_option (\<lambda>n. (n, 0)) (sm_live m p)"

definition mmap_live :: "sysmem \<Rightarrow> nat \<Rightarrow> (nat \<times> nat) option" where
  "mmap_live m p = map_option (\<lambda>n. (n, n)) (sm_live m p)"

interpretation default_blocks: block_allocator default_ops default_live sys_ok
  by unfold_locales
    (auto simp: default_ops_def memory_allocator_allocate_def memory_allocator_free_def sys_new_def sys_delete_def
      sys_ok_def default_live_def fun_eq_iff split: if_splits)

interpretation mmap_blocks: block_allocator "mmap_ops prefer_huge" mmap_live sys_ok for prefer_huge
  by unfold_locales
    (auto simp: mmap_ops_def mmap_allocate_def mmap_free_def sys_new_def sys_munmap_def Let_def
      sys_ok_def mmap_live_def fun_eq_iff split: if_splits)

lemma live_sizes:
  "(\<lambda>m p. map_option fst (default_live m p)) = sm_live" "(\<lambda>m p. map_option fst (mmap_live m p)) = sm_live"
  "dom (default_live m) = dom (sm_live m)" "dom (mmap_live m) = dom (sm_live m)"
  by (auto simp: default_live_def mmap_live_def fun_eq_iff dom_def option.map_comp comp_def option.map_ident)

section \<open>Properties\<close>

text \<open>
  C19: The memory pool is safe over the default allocator and over \<^verbatim>\<open>mmap_allocator\<close>.  Whatever sequence of
  allocations, releases and refill iterations follows the construction, no block is given back twice or
  with the wrong size, none is lost, no two clients share one, the free list stays within
  \<^verbatim>\<open>max_free\<close>, and every allocation gets a block of at least the size it asks for unless memory is
  exhausted.  A refill task that runs by itself ends, after at most \<^verbatim>\<open>initial\<close> plus one iterations, with at least
  \<^verbatim>\<open>initial\<close> free blocks.
\<close>

theorem memory_pool_safe:
  assumes "ops = default_ops \<or> ops = mmap_ops prefer_huge" "sys_ok m" "dom (sm_live m) = {}"
    "make_memory_pool ops io_service lower upper max_free initial low_water m = (Inr mp0, m1)"
  shows "\<exists>mp out. fold_result (pool_step ops) acts (mp0, []) = Inr (mp, out) \<and>
    pool_spec ops sm_live max_free mp out \<and> refill_spec ops mp"
  using assms(1)
proof
  assume "ops = default_ops"
  with default_blocks.pool_history [of io_service lower upper max_free initial low_water m mp0 m1 acts] assms(2-4)
  show ?thesis by (simp add: live_sizes)
next
  assume "ops = mmap_ops prefer_huge"
  with mmap_blocks.pool_history [of prefer_huge io_service lower upper max_free initial low_water m mp0 m1 acts] assms(2-4)
  show ?thesis by (simp add: live_sizes)
qed

theorem memory_pool_safe_witness:
  "\<exists>mp0 m1 mp out. make_memory_pool (mmap_ops True) True 1 64 2 1 1
      \<lparr>sm_live = \<lambda>_. None, sm_next = 0, sm_limit = 1000, sm_huge = False\<rparr> = (Inr mp0, m1) \<and>
    fold_result (pool_step (mmap_ops True)) [Pool_allocate 10, Pool_allocate 70, Pool_refill, Pool_release 1] (mp0, []) = Inr (mp, out) \<and>
    pool_spec (mmap_ops True) sm_live 2 mp out"
proof -
  let ?m = "\<lparr>sm_live = \<lambda>_. None, sm_next = 0, sm_limit = 1000, sm_huge = False\<rparr>"
  obtain mp0 m1 where run: "make_memory_pool (mmap_ops True) True 1 64 2 1 1 ?m = (Inr mp0, m1)"
    by (simp add: make_memory_pool_def mmap_ops_def mmap_allocate_def sys_new_def)
  have "sys_ok ?m" "dom (sm_live ?m) = {}" by (simp_all add: sys_ok_def)
  from memory_pool_safe [of "mmap_ops True" True, OF _ this run] run show ?thesis by blast
qed

end
