(* ===== verification/TcpReader.thy ===== *)
theory TcpReader
  imports RecvPacket
begin

text \<open>
  The TCP reader, \<^verbatim>\<open>recv_tcp.h\<close> and \<^verbatim>\<open>recv_tcp.cpp\<close>: how a stream of bytes that arrives in pieces
  is cut into packets.  The pointers \<^verbatim>\<open>head\<close> and \<^verbatim>\<open>tail\<close> are offsets into the buffer.  What is done with a
  packet is a parameter \<open>deliver\<close>, which returns whether the stream has stopped; the theory Readers
  instantiates it with the receiving stream.
\<close>

section \<open>Definitions\<close>

definition pkts_per_buffer :: nat where
  "pkts_per_buffer = 64"

definition tcp_default_max_size :: nat where
  "tcp_default_max_size = 65536"

record tcp_reader =
  tr_max_size :: nat
  tr_buffer :: "byte list"
  tr_head :: nat
  tr_tail :: nat
  tr_pkt_size :: nat
  tr_to_skip :: nat

text \<open>The buffer comes from \<^verbatim>\<open>new\<close>, with contents \<open>fresh\<close>.\<close>

definition make_tcp_reader :: "(nat \<Rightarrow> byte) \<Rightarrow> nat \<Rightarrow> tcp_reader" where
  "make_tcp_reader fresh max_size =
     \<lparr>tr_max_size = max_size, tr_buffer = map fresh [0..<max_size * pkts_per_buffer], tr_head = 0, tr_tail = 0,
      tr_pkt_size = 0, tr_to_skip = 0\<rparr>"

text \<open>The bytes from head to tail.\<close>

definition tr_data :: "tcp_reader \<Rightarrow> byte list" where
  "tr_data r = take (tr_tail r - tr_head r) (drop (tr_head r) (tr_buffer r))"

definition parse_packet_size :: "tcp_reader \<Rightarrow> bool \<times> tcp_reader" where
  "parse_packet_size r =
     (if tr_pkt_size r > 0 then (False, r)
      else
        (let bufsize = tr_tail r - tr_head r;
             s_pkt_size = get_packet_size (tr_data r)
         in if s_pkt_size = - 1 then (False, r\<lparr>tr_head := tr_head r + 8\<rparr>)
            else if s_pkt_size = 0 then
              (if bufsize = tr_max_size r * pkts_per_buffer then (False, r\<lparr>tr_head := tr_tail r\<rparr>)
               else (True, r))
            else
              (let r1 = r\<lparr>tr_pkt_size := nat s_pkt_size\<rparr> in
               (False, if tr_pkt_size r1 > tr_max_size r1 then r1\<lparr>tr_to_skip := tr_pkt_size r1\<rparr> else r1))))"

definition skip_bytes :: "tcp_reader \<Rightarrow> bool \<times> tcp_reader" where
  "skip_bytes r =
     (if tr_to_skip r = 0 then (False, r)
      else if tr_tail r = tr_head r then (True, r)
      else
        (let diff = min (tr_tail r - tr_head r) (tr_to_skip r);
             r1 = r\<lparr>tr_head := tr_head r + diff, tr_to_skip := tr_to_skip r - diff\<rparr>;
             r2 = (if tr_to_skip r1 = 0 then r1\<lparr>tr_pkt_size := 0\<rparr> else r1)
         in (tr_to_skip r2 > 0, r2)))"

definition parse_packet ::
  "(byte list \<Rightarrow> 'x \<Rightarrow> fault + (bool \<times> 'x)) \<Rightarrow> tcp_reader \<Rightarrow> 'x \<Rightarrow> fault + (bool \<times> tcp_reader \<times> 'x)" where
  "parse_packet deliver r x =
     (if \<not> (tr_pkt_size r > 0 \<and> tr_tail r - tr_head r \<ge> tr_pkt_size r) then Inl Assertion_failed
      else
        (let r1 = r\<lparr>tr_head := tr_head r + tr_pkt_size r, tr_pkt_size := 0\<rparr> in
         bind_result (deliver (take (tr_pkt_size r) (tr_data r)) x) (\<lambda>(stopped, x1).
         Inr (stopped, r1, x1))))"

text \<open>
  The loop of \<^verbatim>\<open>process_buffer\<close>; the result is its return value, whether to read more.  Every turn moves
  the head, so the number of bytes is fuel enough.
\<close>

fun process_loop ::
  "(byte list \<Rightarrow> 'x \<Rightarrow> fault + (bool \<times> 'x)) \<Rightarrow> nat \<Rightarrow> tcp_reader \<Rightarrow> 'x \<Rightarrow> fault + (bool \<times> tcp_reader \<times> 'x)" where
  "process_loop deliver fuel r x =
     (if tr_tail r \<le> tr_head r then Inr (True, r, x)
      else case fuel of
        0 \<Rightarrow> Inl Loop_overrun
      | Suc k \<Rightarrow>
          (case parse_packet_size r of
             (True, r1) \<Rightarrow> Inr (True, r1, x)
           | (False, r1) \<Rightarrow>
               (case skip_bytes r1 of
                  (True, r2) \<Rightarrow> Inr (True, r2, x)
                | (False, r2) \<Rightarrow>
                    if tr_pkt_size r2 = 0 then process_loop deliver k r2 x
                    else if tr_tail r2 - tr_head r2 < tr_pkt_size r2 then Inr (True, r2, x)
                    else bind_result (parse_packet deliver r2 x) (\<lambda>(stopped, r3, x1).
                         if stopped then Inr (False, r3, x1) else process_loop deliver k r3 x1))))"

declare process_loop.simps [simp del]

definition process_buffer ::
  "(byte list \<Rightarrow> 'x \<Rightarrow> fault + (bool \<times> 'x)) \<Rightarrow> nat \<Rightarrow> tcp_reader \<Rightarrow> 'x \<Rightarrow> fault + (bool \<times> tcp_reader \<times> 'x)" where
  "process_buffer deliver bytes_recv r x =
     (let r1 = r\<lparr>tr_tail := tr_tail r + bytes_recv\<rparr>
      in process_loop deliver (tr_tail r1 - tr_head r1) r1 x)"

text \<open>
  \<^verbatim>\<open>enqueue_receive\<close>: the new state and the number of bytes that the next receive may write at the tail.
\<close>

definition enqueue_receive :: "tcp_reader \<Rightarrow> fault + (tcp_reader \<times> nat)" where
  "enqueue_receive r =
     (let bufsize = tr_max_size r * pkts_per_buffer in
      if \<not> tr_head r \<le> tr_tail r then Inl Assertion_failed
      else
        bind_result
          (if tr_head r > bufsize div 2 then
             bind_result (mem_write (tr_buffer r) 0 (tr_data r)) (\<lambda>buf.
             Inr (r\<lparr>tr_buffer := buf, tr_head := 0, tr_tail := tr_tail r - tr_head r\<rparr>))
           else Inr r) (\<lambda>r1.
        Inr (r1, bufsize - tr_tail r1)))"

text \<open>
  A receive that completes with the bytes \<open>bs\<close>: they are in the buffer from the tail on, then the
  reader processes them and starts the next receive.  \<open>Inr (False, \<dots>)\<close> when the stream has stopped.
\<close>

definition tcp_receive ::
  "(byte list \<Rightarrow> 'x \<Rightarrow> fault + (bool \<times> 'x)) \<Rightarrow> byte list \<Rightarrow> tcp_reader \<Rightarrow> 'x \<Rightarrow> fault + (bool \<times> tcp_reader \<times> 'x)" where
  "tcp_receive deliver bs r x =
     bind_result (mem_write (tr_buffer r) (tr_tail r) bs) (\<lambda>buf.
     bind_result (process_buffer deliver (length bs) (r\<lparr>tr_buffer := buf\<rparr>) x) (\<lambda>(more, r1, x1).
     if more then bind_result (enqueue_receive r1) (\<lambda>(r2, _). Inr (True, r2, x1))
     else Inr (False, r1, x1)))"

section \<open>Reference: cutting a whole stream of bytes into packets\<close>

lemma get_packet_size_cases:
  obtains "get_packet_size bs = - 1" "8 \<le> length bs"
  | "get_packet_size bs = 0" "length bs < 524288"
  | n where "get_packet_size bs = int n" "8 \<le> n"
proof -
  show ?thesis
  proof (cases "length bs < 8")
    case True
    then show ?thesis by (intro that(2)) (simp_all add: get_packet_size_def)
  next
    case False
    show ?thesis
    proof (cases "decode_header bs")
      case None
      with False show ?thesis by (intro that(1)) (simp_all add: get_packet_size_def)
    next
      case (Some nk)
      obtain n k where nk: "nk = (n, k)" by fastforce
      note hd = decode_header_Some [OF Some [unfolded nk]]
      show ?thesis
      proof (cases "k * 8 + 8 > length bs")
        case True
        with hd(2) False Some nk show ?thesis
          by (intro that(2)) (simp_all add: get_packet_size_def item_pointer_size_def)
      next
        case room: False
        let ?d = "make_pointer_decoder n"
        have "find_payload_length ?d bs is = - 1 \<or> 0 \<le> find_payload_length ?d bs is" for "is"
          using get_address_nonneg [OF hd(1)] by (induction "is") (auto simp: Let_def get_immediate_def)
        then consider "find_payload_length ?d bs [0..<k] = - 1" | "0 \<le> find_payload_length ?d bs [0..<k]" by blast
        then show ?thesis
        proof cases
          case 1
          with room False Some nk show ?thesis
            by (intro that(1)) (simp_all add: get_packet_size_def item_pointer_size_def)
        next
          case 2
          with room False Some nk show ?thesis
            by (intro that(3) [of "nat (find_payload_length ?d bs [0..<k]) + k * 8 + 8"])
              (simp_all add: get_packet_size_def item_pointer_size_def Let_def)
        qed
      qed
    qed
  qed
qed

text \<open>Bytes that arrive later do not change a size that is known.\<close>

lemma load_be64_append:
  assumes "8 \<le> length bs"
  shows "load_be64 (bs @ ys) = load_be64 bs"
  using assms by (simp add: load_be64_def)

lemma get_packet_size_append:
  assumes "get_packet_size bs \<noteq> 0"
  shows "get_packet_size (bs @ ys) = get_packet_size bs"
proof -
  have len: "8 \<le> length bs" using assms by (auto simp: get_packet_size_def split: if_splits)
  have hdr: "decode_header (bs @ ys) = decode_header bs"
    by (simp add: decode_header_def load_be64_append [OF len])
  show ?thesis
  proof (cases "decode_header bs")
    case None
    with len hdr show ?thesis by (simp add: get_packet_size_def)
  next
    case (Some nk)
    obtain n k where nk: "nk = (n, k)" by fastforce
    have k: "k * 8 + 8 \<le> length bs"
      using assms len Some nk by (auto simp: get_packet_size_def item_pointer_size_def split: if_splits)
    have "item_at (bs @ ys) i = item_at bs i" if "i < k" for i
    proof -
      have "8 \<le> length (drop (8 + i * 8) bs)" using k that by simp
      from load_be64_append [OF this, of ys] show ?thesis
        using k that by (simp add: item_at_def item_pointer_size_def)
    qed
    then have "find_payload_length d (bs @ ys) is = find_payload_length d bs is" if "set is \<subseteq> {..<k}" for d "is"
      using that by (induction "is") (auto simp: Let_def)
    then have "find_payload_length d (bs @ ys) [0..<k] = find_payload_length d bs [0..<k]" for d
      by (simp add: lessThan_atLeast0)
    with len hdr k Some nk show ?thesis
      by (simp add: get_packet_size_def item_pointer_size_def)
  qed
qed

text \<open>
  The packets in \<open>bs\<close> of at most \<open>m\<close> bytes, and what remains for the bytes still to come.  Headers that
  make no sense are skipped by eight bytes, packets that are too long are left out.
\<close>

function frames :: "nat \<Rightarrow> byte list \<Rightarrow> byte list list \<times> byte list" where
  "frames m bs =
     (if get_packet_size bs = - 1 then frames m (drop 8 bs)
      else if get_packet_size bs \<le> 0 \<or> int (length bs) < get_packet_size bs then ([], bs)
      else
        (let n = nat (get_packet_size bs); (fs, rest) = frames m (drop n bs)
         in (if n \<le> m then take n bs # fs else fs, rest)))"
  by pat_completeness auto
termination
proof (relation "measure (\<lambda>(m, bs). length bs)")
  fix m :: nat and bs :: "byte list"
  assume "get_packet_size bs = - 1"
  then show "((m, drop 8 bs), m, bs) \<in> measure (\<lambda>(m, bs). length bs)"
    by (cases rule: get_packet_size_cases [of bs]) auto
qed auto

declare frames.simps [simp del]

lemma frames_append:
  "frames m (bs @ ys) =
     (let (fs, rest) = frames m bs; (fs', rest') = frames m (rest @ ys) in (fs @ fs', rest'))"
proof (induction m bs rule: frames.induct)
  case (1 m bs)
  show ?case
  proof (cases rule: get_packet_size_cases [of bs])
    case 1: 1
    with "1.IH"(1) get_packet_size_append [of bs ys] show ?thesis
      by (subst (1 2) frames.simps) simp
  next
    case 2
    then show ?thesis by (subst (2) frames.simps) (simp split: prod.splits)
  next
    case (3 n)
    show ?thesis
    proof (cases "length bs < n")
      case True
      with 3 show ?thesis by (subst (2) frames.simps) (simp split: prod.splits)
    next
      case False
      have "\<not> (get_packet_size bs \<le> 0 \<or> int (length bs) < get_packet_size bs)" "get_packet_size bs \<noteq> - 1"
        using 3 False by simp_all
      note IH = "1.IH"(2) [OF this(2,1) refl]
      have "n - length bs = 0" using False by simp
      then have "frames m (bs @ ys) = (let (fs, rest) = frames m (drop n bs @ ys)
          in (if n \<le> m then take n bs # fs else fs, rest))"
        using 3 False get_packet_size_append [of bs ys] by (subst frames.simps) (simp split: prod.split)
      moreover have "frames m bs = (let (fs, rest) = frames m (drop n bs)
          in (if n \<le> m then take n bs # fs else fs, rest))"
        using 3 False by (subst frames.simps) simp
      ultimately show ?thesis using IH 3 by (simp split: prod.splits)
    qed
  qed
qed

section \<open>The reader against the reference\<close>

fun deliver_all :: "(byte list \<Rightarrow> 'x \<Rightarrow> fault + (bool \<times> 'x)) \<Rightarrow> byte list list \<Rightarrow> 'x \<Rightarrow> fault + (bool \<times> 'x)" where
  "deliver_all deliver [] x = Inr (False, x)"
| "deliver_all deliver (f # fs) x =
     bind_result (deliver f x) (\<lambda>(stopped, x1). if stopped then Inr (True, x1) else deliver_all deliver fs x1)"

definition tr_ok :: "tcp_reader \<Rightarrow> bool" where
  "tr_ok r \<longleftrightarrow> length (tr_buffer r) = tr_max_size r * pkts_per_buffer \<and> tr_head r \<le> tr_tail r \<and>
     tr_tail r \<le> length (tr_buffer r)"

text \<open>
  The reader has the bytes \<open>bs\<close> left over, of which a part \<open>pre\<close> may be gone already: that of a packet which it
  is skipping.
\<close>

definition tr_view :: "tcp_reader \<Rightarrow> byte list \<Rightarrow> bool" where
  "tr_view r bs \<longleftrightarrow> (\<exists>pre. bs = pre @ tr_data r \<and>
     (if tr_to_skip r = 0
      then pre = [] \<and> (tr_pkt_size r = 0 \<or> get_packet_size bs = int (tr_pkt_size r) \<and> tr_pkt_size r \<le> tr_max_size r)
      else get_packet_size bs = int (tr_pkt_size r) \<and> tr_max_size r < tr_pkt_size r \<and>
        tr_to_skip r + length pre = tr_pkt_size r))"

lemma length_tr_data: "tr_ok r \<Longrightarrow> length (tr_data r) = tr_tail r - tr_head r"
  by (auto simp: tr_ok_def tr_data_def)

lemma tr_data_advance:
  assumes "tr_ok r" "k \<le> length (tr_data r)"
  shows "tr_data (r\<lparr>tr_head := tr_head r + k\<rparr>) = drop k (tr_data r)" "tr_ok (r\<lparr>tr_head := tr_head r + k\<rparr>)"
  using assms length_tr_data [OF assms(1)]
  by (auto simp: tr_data_def tr_ok_def drop_take add.commute)

lemma tr_frame [simp]:
  "tr_data (r\<lparr>tr_pkt_size := a\<rparr>) = tr_data r" "tr_data (r\<lparr>tr_to_skip := b\<rparr>) = tr_data r"
  "tr_ok (r\<lparr>tr_pkt_size := a\<rparr>) = tr_ok r" "tr_ok (r\<lparr>tr_to_skip := b\<rparr>) = tr_ok r"
  by (simp_all add: tr_data_def tr_ok_def)

definition agrees :: "fault + (bool \<times> tcp_reader \<times> 'x) \<Rightarrow> fault + (bool \<times> 'x) \<Rightarrow> nat \<Rightarrow> byte list \<Rightarrow> bool" where
  "agrees res dres m rest \<longleftrightarrow>
     (case dres of
        Inl e \<Rightarrow> res = Inl e
      | Inr (stopped, x1) \<Rightarrow> \<exists>r'. res = Inr (\<not> stopped, r', x1) \<and> tr_ok r' \<and> tr_max_size r' = m \<and>
          (\<not> stopped \<longrightarrow> tr_view r' rest \<and> length (tr_data r') < max 524288 m))"

text \<open>One turn of the loop, by what is at the head of the buffer.\<close>

lemma turn_bad_header:
  assumes "tr_ok r" "tr_to_skip r = 0" "tr_pkt_size r = 0" "get_packet_size (tr_data r) = - 1" "tr_data r \<noteq> []"
  shows "process_loop deliver (Suc k) r x = process_loop deliver k (r\<lparr>tr_head := tr_head r + 8\<rparr>) x"
proof -
  have "tr_head r < tr_tail r" using assms(5) length_tr_data [OF assms(1)] by (cases "tr_data r") auto
  with assms show ?thesis
    by (subst process_loop.simps) (simp add: parse_packet_size_def skip_bytes_def Let_def)
qed

lemma turn_unknown:
  assumes "tr_ok r" "tr_to_skip r = 0" "tr_pkt_size r = 0" "get_packet_size (tr_data r) = 0" "tr_data r \<noteq> []"
    "524288 \<le> tr_max_size r * pkts_per_buffer"
  shows "process_loop deliver (Suc k) r x = Inr (True, r, x)"
proof -
  have "length (tr_data r) < 524288"
    using assms(4) by (cases rule: get_packet_size_cases [of "tr_data r"]) auto
  with assms length_tr_data [OF assms(1)] show ?thesis
    by (subst process_loop.simps) (auto simp: parse_packet_size_def Let_def)
qed

lemma turn_skip:
  assumes "tr_ok r" "tr_data r \<noteq> []" "0 < n" "tr_max_size r < n"
    "(if tr_to_skip r = 0 then tr_pkt_size r = 0 \<and> get_packet_size (tr_data r) = int n \<and> skip = n
      else tr_pkt_size r = n \<and> tr_to_skip r = skip)"
  shows "process_loop deliver (Suc k) r x =
    (if length (tr_data r) < skip
     then Inr (True, r\<lparr>tr_head := tr_head r + length (tr_data r), tr_pkt_size := n, tr_to_skip := skip - length (tr_data r)\<rparr>, x)
     else process_loop deliver k (r\<lparr>tr_head := tr_head r + skip, tr_pkt_size := 0, tr_to_skip := 0\<rparr>) x)"
proof -
  have head: "tr_head r < tr_tail r" using assms(2) length_tr_data [OF assms(1)] by (cases "tr_data r") auto
  have skip: "0 < skip" using assms(3,5) by (auto split: if_splits)
  have parse: "parse_packet_size r = (False, r\<lparr>tr_pkt_size := n, tr_to_skip := skip\<rparr>)"
    using assms(3-5) by (auto simp: parse_packet_size_def Let_def split: if_splits)
  have "skip_bytes (r\<lparr>tr_pkt_size := n, tr_to_skip := skip\<rparr>) =
    (if length (tr_data r) < skip
     then (True, r\<lparr>tr_head := tr_head r + length (tr_data r), tr_pkt_size := n, tr_to_skip := skip - length (tr_data r)\<rparr>)
     else (False, r\<lparr>tr_head := tr_head r + skip, tr_pkt_size := 0, tr_to_skip := 0\<rparr>))"
    using head skip unfolding length_tr_data [OF assms(1)]
    by (cases r) (auto simp: skip_bytes_def Let_def)
  then show ?thesis
    using head by (subst process_loop.simps) (simp add: parse)
qed

lemma turn_packet:
  assumes "tr_ok r" "tr_data r \<noteq> []" "0 < n" "n \<le> tr_max_size r" "tr_to_skip r = 0"
    "tr_pkt_size r = 0 \<and> get_packet_size (tr_data r) = int n \<or> tr_pkt_size r = n"
  shows "process_loop deliver (Suc k) r x =
    (if length (tr_data r) < n then Inr (True, r\<lparr>tr_pkt_size := n\<rparr>, x)
     else bind_result (deliver (take n (tr_data r)) x) (\<lambda>(stopped, x1).
       if stopped then Inr (False, r\<lparr>tr_head := tr_head r + n, tr_pkt_size := 0\<rparr>, x1)
       else process_loop deliver k (r\<lparr>tr_head := tr_head r + n, tr_pkt_size := 0\<rparr>) x1))"
proof -
  have head: "tr_head r < tr_tail r" using assms(2) length_tr_data [OF assms(1)] by (cases "tr_data r") auto
  have parse: "parse_packet_size r = (False, r\<lparr>tr_pkt_size := n\<rparr>)"
    using assms(3-6) by (auto simp: parse_packet_size_def Let_def)
  have "process_loop deliver (Suc k) r x =
    (if length (tr_data r) < n then Inr (True, r\<lparr>tr_pkt_size := n\<rparr>, x)
     else bind_result (parse_packet deliver (r\<lparr>tr_pkt_size := n\<rparr>) x) (\<lambda>(stopped, r3, x1).
       if stopped then Inr (False, r3, x1) else process_loop deliver k r3 x1))"
    using head assms(3,5) length_tr_data [OF assms(1)]
    by (subst process_loop.simps) (simp add: parse skip_bytes_def)
  then show ?thesis
    using head assms(3) length_tr_data [OF assms(1)]
    by (cases "deliver (take n (tr_data r)) x") (auto simp: parse_packet_def Let_def)
qed

lemma frames_skip: "get_packet_size bs = - 1 \<Longrightarrow> frames m bs = frames m (drop 8 bs)"
  by (subst frames.simps) simp

lemma frames_wait:
  "get_packet_size bs = 0 \<or> get_packet_size bs = int n \<and> length bs < n \<Longrightarrow> frames m bs = ([], bs)"
  by (subst frames.simps) auto

lemma frames_packet:
  assumes "get_packet_size bs = int n" "0 < n" "n \<le> length bs"
  shows "frames m bs =
    ((if n \<le> m then [take n bs] else []) @ fst (frames m (drop n bs)), snd (frames m (drop n bs)))"
  using assms by (subst frames.simps) (auto split: prod.splits)

lemma agrees_Inr:
  "tr_ok r \<Longrightarrow> tr_max_size r = m \<Longrightarrow> tr_view r rest \<Longrightarrow> length (tr_data r) < max 524288 m \<Longrightarrow>
   agrees (Inr (True, r, x)) (Inr (False, x)) m rest"
  by (simp add: agrees_def)

lemma process_loop_agrees:
  assumes "tr_ok r" "tr_view r bs" "length (tr_data r) \<le> fuel" "524288 \<le> tr_max_size r * pkts_per_buffer"
  shows "agrees (process_loop deliver fuel r x)
    (deliver_all deliver (fst (frames (tr_max_size r) bs)) x) (tr_max_size r) (snd (frames (tr_max_size r) bs))"
  using assms
proof (induction fuel arbitrary: r bs x)
  case 0
  then have empty: "tr_data r = []" "tr_tail r \<le> tr_head r" using length_tr_data [of r] by auto
  have "frames (tr_max_size r) bs = ([], bs)"
    using "0.prems"(2) empty(1)
    by (intro frames_wait [where n = "tr_pkt_size r"]) (auto simp: tr_view_def get_packet_size_def split: if_splits)
  with empty "0.prems" show ?case by (subst process_loop.simps) (simp add: agrees_Inr)
next
  case (Suc k)
  let ?m = "tr_max_size r"
  obtain pre where pre: "bs = pre @ tr_data r" and view:
    "if tr_to_skip r = 0
      then pre = [] \<and> (tr_pkt_size r = 0 \<or> get_packet_size bs = int (tr_pkt_size r) \<and> tr_pkt_size r \<le> ?m)
      else get_packet_size bs = int (tr_pkt_size r) \<and> ?m < tr_pkt_size r \<and> tr_to_skip r + length pre = tr_pkt_size r"
    using Suc.prems(2) by (auto simp: tr_view_def)
  have fresh: "tr_view (r\<lparr>tr_head := tr_head r + j, tr_pkt_size := 0, tr_to_skip := 0\<rparr>) (drop j (tr_data r))"
      "tr_ok (r\<lparr>tr_head := tr_head r + j, tr_pkt_size := 0, tr_to_skip := 0\<rparr>)"
      "tr_data (r\<lparr>tr_head := tr_head r + j, tr_pkt_size := 0, tr_to_skip := 0\<rparr>) = drop j (tr_data r)"
    if "j \<le> length (tr_data r)" for j
    using tr_data_advance [OF Suc.prems(1) that] by (simp_all add: tr_view_def tr_data_def tr_ok_def)
  have next_turn: "agrees (process_loop deliver k (r\<lparr>tr_head := tr_head r + j, tr_pkt_size := 0, tr_to_skip := 0\<rparr>) y)
      (deliver_all deliver (fst (frames ?m (drop j (tr_data r)))) y) ?m (snd (frames ?m (drop j (tr_data r))))"
    if "0 < j" "j \<le> length (tr_data r)" for j y
    using Suc.IH [OF fresh(2,1), OF that(2,2)] fresh(3) [OF that(2)] that Suc.prems(3,4) by simp
  show ?case
  proof (cases "tr_data r = []")
    case True
    then have "frames ?m bs = ([], bs)"
      using view pre by (intro frames_wait [where n = "tr_pkt_size r"]) (auto simp: get_packet_size_def split: if_splits)
    moreover have "tr_tail r \<le> tr_head r" using True length_tr_data [OF Suc.prems(1)] by simp
    ultimately show ?thesis using True Suc.prems(1,2) by (subst process_loop.simps) (simp add: agrees_Inr)
  next
    case data: False
    consider (bad) "tr_to_skip r = 0" "tr_pkt_size r = 0" "get_packet_size (tr_data r) = - 1" "bs = tr_data r"
      | (unknown) "tr_to_skip r = 0" "tr_pkt_size r = 0" "get_packet_size (tr_data r) = 0" "bs = tr_data r"
      | (packet) n where "0 < n" "n \<le> ?m" "get_packet_size bs = int n" "tr_to_skip r = 0" "bs = tr_data r"
          "tr_pkt_size r = 0 \<and> get_packet_size (tr_data r) = int n \<or> tr_pkt_size r = n"
      | (long) n skip where "0 < n" "?m < n" "get_packet_size bs = int n" "skip + length pre = n"
          "if tr_to_skip r = 0 then tr_pkt_size r = 0 \<and> get_packet_size (tr_data r) = int n \<and> skip = n
           else tr_pkt_size r = n \<and> tr_to_skip r = skip"
    proof (cases "tr_to_skip r = 0")
      case True
      then have bs: "bs = tr_data r" "pre = []" using view pre by auto
      show ?thesis
      proof (cases "tr_pkt_size r = 0")
        case False
        with view True bs that(3) show ?thesis by auto
      next
        case pkt: True
        show ?thesis
        proof (cases rule: get_packet_size_cases [of bs])
          case (3 n)
          then show ?thesis
          proof (cases "n \<le> ?m")
            case True
            with 3 \<open>tr_to_skip r = 0\<close> bs pkt that(3) [of n] show ?thesis by auto
          next
            case False
            with 3 \<open>tr_to_skip r = 0\<close> bs pkt that(4) [of n n] show ?thesis by auto
          qed
        qed (use True bs pkt that(1,2) in auto)
      qed
    next
      case False
      with view that(4) [of "tr_pkt_size r" "tr_to_skip r"] show ?thesis by auto
    qed
    then show ?thesis
    proof cases
      case bad
      then have "8 \<le> length (tr_data r)" by (cases rule: get_packet_size_cases [of "tr_data r"]) auto
      moreover have "r\<lparr>tr_head := tr_head r + 8, tr_pkt_size := 0, tr_to_skip := 0\<rparr> = r\<lparr>tr_head := tr_head r + 8\<rparr>"
        using bad by (cases r) simp
      then have "process_loop deliver (Suc k) r x =
          process_loop deliver k (r\<lparr>tr_head := tr_head r + 8, tr_pkt_size := 0, tr_to_skip := 0\<rparr>) x"
        using turn_bad_header [OF Suc.prems(1) bad(1-3) data, of deliver k x] by simp
      ultimately show ?thesis
        using next_turn [of 8 x] bad(3,4) frames_skip [of bs ?m] by simp
    next
      case unknown
      then have "length (tr_data r) < 524288" by (cases rule: get_packet_size_cases [of "tr_data r"]) auto
      with unknown show ?thesis
        using turn_unknown [OF Suc.prems(1) unknown(1-3) data Suc.prems(4), of deliver k x] frames_wait [of bs] Suc.prems(1,2)
        by (simp add: agrees_Inr)
    next
      case (packet n)
      note turn = turn_packet [OF Suc.prems(1) data packet(1,2,4,6), of deliver k x]
      show ?thesis
      proof (cases "length (tr_data r) < n")
        case True
        have "tr_view (r\<lparr>tr_pkt_size := n\<rparr>) bs" using packet by (simp add: tr_view_def)
        with True turn packet frames_wait [of bs n ?m] Suc.prems(1) show ?thesis by (simp add: agrees_Inr)
      next
        case False
        define r1 where "r1 = r\<lparr>tr_head := tr_head r + n, tr_pkt_size := 0\<rparr>"
        have eq: "r\<lparr>tr_head := tr_head r + n, tr_pkt_size := 0, tr_to_skip := 0\<rparr> = r1"
          using packet(4) by (cases r) (simp add: r1_def)
        have n: "n \<le> length (tr_data r)" using False by simp
        have r1: "tr_ok r1" "tr_max_size r1 = ?m" using fresh(2) [OF n, unfolded eq] by (simp_all add: r1_def)
        note fr = frames_packet [OF packet(3,1), of ?m, unfolded packet(5), OF n]
        show ?thesis
        proof (cases "deliver (take n (tr_data r)) x")
          case (Inl e)
          with False turn fr packet(2,5) show ?thesis by (simp add: agrees_def)
        next
          case (Inr y)
          obtain stopped x1 where y: "y = (stopped, x1)" by fastforce
          with Inr False turn fr packet(2,5) r1 next_turn [OF packet(1) n, of x1, unfolded eq] show ?thesis
            by (cases stopped) (simp_all add: agrees_def [of "Inr _" "Inr _"] r1_def [symmetric])
        qed
      qed
    next
      case (long n skip)
      note turn = turn_skip [OF Suc.prems(1) data long(1,2,5), of deliver k x]
      show ?thesis
      proof (cases "length (tr_data r) < skip")
        case True
        let ?r = "r\<lparr>tr_head := tr_head r + length (tr_data r), tr_pkt_size := n, tr_to_skip := skip - length (tr_data r)\<rparr>"
        have "tr_data ?r = []" "tr_ok ?r"
          using tr_data_advance [OF Suc.prems(1) order_refl] by simp_all
        moreover from this have "tr_view ?r bs"
          using True long pre by (auto simp: tr_view_def intro!: exI [of _ bs])
        ultimately show ?thesis
          using True turn long pre frames_wait [of bs n ?m] by (simp add: agrees_Inr)
      next
        case False
        have "drop n bs = drop skip (tr_data r)" "0 < skip" "n \<le> length bs"
          using long(1,4,5) pre False by (auto split: if_splits)
        with False turn long next_turn [of skip x] frames_packet [of bs n ?m] show ?thesis by simp
      qed
    qed
  qed
qed

lemma enqueue_receive_ok:
  assumes "tr_ok r"
  obtains r' where "enqueue_receive r = Inr (r', tr_max_size r * pkts_per_buffer - tr_tail r')" "tr_ok r'"
    "tr_data r' = tr_data r" "tr_max_size r' = tr_max_size r" "tr_pkt_size r' = tr_pkt_size r" "tr_to_skip r' = tr_to_skip r"
    "tr_head r' \<le> tr_max_size r * pkts_per_buffer div 2"
proof (cases "tr_head r > tr_max_size r * pkts_per_buffer div 2")
  case True
  have len: "length (tr_data r) = tr_tail r - tr_head r" by (rule length_tr_data [OF assms])
  let ?buf = "tr_data r @ drop (length (tr_data r)) (tr_buffer r)"
  let ?r = "r\<lparr>tr_buffer := ?buf, tr_head := 0, tr_tail := tr_tail r - tr_head r\<rparr>"
  have "mem_write (tr_buffer r) 0 (tr_data r) = Inr ?buf"
    using assms len by (auto simp: mem_write_def tr_ok_def)
  moreover have "tr_ok ?r" using assms len by (auto simp: tr_ok_def)
  moreover have "tr_data ?r = tr_data r" unfolding tr_data_def [of ?r] using len by simp
  ultimately show ?thesis
    using True assms by (intro that [of ?r]) (simp_all add: enqueue_receive_def Let_def tr_ok_def)
next
  case False
  with assms show ?thesis by (intro that [of r]) (simp_all add: enqueue_receive_def Let_def tr_ok_def)
qed

lemma view_receive:
  assumes "tr_ok r" "tr_view r rest" "tr_tail r + length c \<le> length (tr_buffer r)"
  shows "\<exists>buf. mem_write (tr_buffer r) (tr_tail r) c = Inr buf \<and>
    tr_ok (r\<lparr>tr_buffer := buf, tr_tail := tr_tail r + length c\<rparr>) \<and>
    tr_view (r\<lparr>tr_buffer := buf, tr_tail := tr_tail r + length c\<rparr>) (rest @ c)"
proof -
  define buf where "buf = take (tr_tail r) (tr_buffer r) @ c @ drop (tr_tail r + length c) (tr_buffer r)"
  let ?r = "r\<lparr>tr_buffer := buf, tr_tail := tr_tail r + length c\<rparr>"
  have bnd: "tr_head r \<le> tr_tail r" "tr_tail r \<le> length (tr_buffer r)" using assms(1) by (auto simp: tr_ok_def)
  have "tr_data ?r = tr_data r @ c"
  proof -
    have "drop (tr_head r) buf = drop (tr_head r) (take (tr_tail r) (tr_buffer r)) @ c @ drop (tr_tail r + length c) (tr_buffer r)"
      using bnd by (simp add: buf_def)
    moreover have "drop (tr_head r) (take (tr_tail r) (tr_buffer r)) = tr_data r"
      by (simp add: tr_data_def drop_take)
    ultimately show ?thesis
      using bnd length_tr_data [OF assms(1)] by (simp add: tr_data_def [of ?r])
  qed
  moreover have "get_packet_size (rest @ c) = get_packet_size rest" if "get_packet_size rest = int (tr_pkt_size r)" "tr_pkt_size r \<noteq> 0"
    using that by (intro get_packet_size_append) simp
  ultimately have "tr_view ?r (rest @ c)"
    using assms(2) by (auto simp: tr_view_def split: if_splits)
  moreover have "tr_ok ?r" using assms(1,3) bnd by (auto simp: tr_ok_def buf_def)
  moreover have "mem_write (tr_buffer r) (tr_tail r) c = Inr buf" using assms(3) by (simp add: mem_write_def buf_def)
  ultimately show ?thesis by blast
qed

lemma frames_rest: "frames m (snd (frames m bs)) = ([], snd (frames m bs))"
proof (induction m bs rule: frames.induct)
  case (1 m bs)
  show ?case
  proof (cases rule: get_packet_size_cases [of bs])
    case 1: 1
    with "1.IH"(1) frames_skip [of bs m] show ?thesis by simp
  next
    case 2
    then show ?thesis using frames_wait [of bs] by simp
  next
    case (3 n)
    show ?thesis
    proof (cases "length bs < n")
      case True
      with 3 frames_wait [of bs n m] show ?thesis by simp
    next
      case False
      with 3 have "\<not> (get_packet_size bs \<le> 0 \<or> int (length bs) < get_packet_size bs)" "get_packet_size bs \<noteq> - 1"
        by simp_all
      note IH = "1.IH"(2) [OF this(2,1) refl]
      with 3 False frames_packet [of bs n m] show ?thesis by simp
    qed
  qed
qed

lemma deliver_all_append:
  "deliver_all deliver (fs @ gs) x =
     bind_result (deliver_all deliver fs x) (\<lambda>(stopped, x1). if stopped then Inr (True, x1) else deliver_all deliver gs x1)"
proof (induction fs arbitrary: x)
  case (Cons f fs)
  then show ?case by (cases "deliver f x") (auto split: prod.splits)
qed simp

section \<open>A session\<close>

text \<open>
  The reader on a connection that carries \<open>bytes\<close>: each receive yields at most the number of bytes in the
  list, and at most as many as there is room for.
\<close>

fun tcp_session ::
  "(byte list \<Rightarrow> 'x \<Rightarrow> fault + (bool \<times> 'x)) \<Rightarrow> nat list \<Rightarrow> byte list \<Rightarrow> tcp_reader \<Rightarrow> 'x \<Rightarrow>
   fault + (bool \<times> byte list \<times> tcp_reader \<times> 'x)" where
  "tcp_session deliver [] bytes r x = Inr (True, bytes, r, x)"
| "tcp_session deliver (n # ns) bytes r x =
     (let k = min n (tr_max_size r * pkts_per_buffer - tr_tail r) in
      bind_result (tcp_receive deliver (take k bytes) r x) (\<lambda>(more, r1, x1).
      if more then tcp_session deliver ns (drop k bytes) r1 x1 else Inr (False, drop k bytes, r1, x1)))"

definition session_result ::
  "fault + (bool \<times> byte list \<times> tcp_reader \<times> 'x) \<Rightarrow> fault + (bool \<times> 'x) \<Rightarrow> bool" where
  "session_result res dres \<longleftrightarrow>
     (case dres of
        Inl e \<Rightarrow> res = Inl e
      | Inr (True, x1) \<Rightarrow> \<exists>left r. res = Inr (False, left, r, x1)
      | Inr (False, x1) \<Rightarrow> \<exists>r. res = Inr (True, [], r, x1))"

lemma receive_agrees:
  assumes r: "tr_ok r" "tr_view r rest" and fits: "tr_tail r + length c \<le> tr_max_size r * pkts_per_buffer"
    and size: "16384 \<le> tr_max_size r"
  defines "m \<equiv> tr_max_size r"
  shows "case deliver_all deliver (fst (frames m (rest @ c))) x of
      Inl e \<Rightarrow> tcp_receive deliver c r x = Inl e
    | Inr (stopped, x1) \<Rightarrow> \<exists>r'. tcp_receive deliver c r x = Inr (\<not> stopped, r', x1) \<and>
        (\<not> stopped \<longrightarrow> tr_ok r' \<and> tr_view r' (snd (frames m (rest @ c))) \<and> tr_max_size r' = m \<and>
          tr_tail r' < m * pkts_per_buffer)"
proof -
  have "tr_tail r + length c \<le> length (tr_buffer r)" using r(1) fits by (simp add: tr_ok_def)
  from view_receive [OF r this] obtain buf where
    buf: "mem_write (tr_buffer r) (tr_tail r) c = Inr buf" and
    r1: "tr_ok (r\<lparr>tr_buffer := buf, tr_tail := tr_tail r + length c\<rparr>)" (is "tr_ok ?r1")
      "tr_view (r\<lparr>tr_buffer := buf, tr_tail := tr_tail r + length c\<rparr>) (rest @ c)" by blast
  have big: "524288 \<le> tr_max_size ?r1 * pkts_per_buffer" using size by (simp add: pkts_per_buffer_def)
  have loop: "agrees (process_loop deliver (length (tr_data ?r1)) ?r1 x)
      (deliver_all deliver (fst (frames m (rest @ c))) x) m (snd (frames m (rest @ c)))"
    using process_loop_agrees [OF r1 order_refl big] by (simp add: m_def)
  have recv: "tcp_receive deliver c r x = bind_result (process_loop deliver (length (tr_data ?r1)) ?r1 x) (\<lambda>(more, r1, x1).
     if more then bind_result (enqueue_receive r1) (\<lambda>(r2, _). Inr (True, r2, x1)) else Inr (False, r1, x1))"
    using buf length_tr_data [OF r1(1)] by (simp add: tcp_receive_def process_buffer_def Let_def)
  show ?thesis
  proof (cases "deliver_all deliver (fst (frames m (rest @ c))) x")
    case (Inl e)
    with loop recv show ?thesis by (simp add: agrees_def)
  next
    case (Inr y)
    obtain stopped x1 where y: "y = (stopped, x1)" by fastforce
    with Inr loop obtain r2 where r2: "process_loop deliver (length (tr_data ?r1)) ?r1 x = Inr (\<not> stopped, r2, x1)" "tr_ok r2"
        "tr_max_size r2 = m" "\<not> stopped \<Longrightarrow> tr_view r2 (snd (frames m (rest @ c)))" "\<not> stopped \<Longrightarrow> length (tr_data r2) < max 524288 m"
      by (auto simp: agrees_def)
    show ?thesis
    proof (cases stopped)
      case True
      with recv r2(1) Inr y show ?thesis by simp
    next
      case False
      from enqueue_receive_ok [OF r2(2)] obtain r3 where r3: "enqueue_receive r2 = Inr (r3, tr_max_size r2 * pkts_per_buffer - tr_tail r3)"
          "tr_ok r3" "tr_data r3 = tr_data r2" "tr_max_size r3 = tr_max_size r2" "tr_pkt_size r3 = tr_pkt_size r2"
          "tr_to_skip r3 = tr_to_skip r2" "tr_head r3 \<le> tr_max_size r2 * pkts_per_buffer div 2" .
      have "tr_view r3 bs = tr_view r2 bs" for bs unfolding tr_view_def r3(3-6) by (rule refl)
      then have "tr_view r3 (snd (frames m (rest @ c)))" using r2(4) False by simp
      moreover have "tr_tail r3 < m * pkts_per_buffer"
        using r2(5) False r3(2,7) length_tr_data [OF r3(2)] size r2(3)
        by (simp add: r3(3) m_def pkts_per_buffer_def tr_ok_def)
      ultimately show ?thesis using recv r2(1,3) r3 False Inr y by simp
    qed
  qed
qed

lemma session_agrees:
  assumes "tr_ok r" "tr_view r rest" "frames (tr_max_size r) rest = ([], rest)" "tr_tail r < tr_max_size r * pkts_per_buffer"
    "16384 \<le> tr_max_size r" "\<forall>n \<in> set ns. 0 < n" "length bytes \<le> length ns"
  shows "session_result (tcp_session deliver ns bytes r x)
    (deliver_all deliver (fst (frames (tr_max_size r) (rest @ bytes))) x)"
  using assms
proof (induction ns arbitrary: bytes r rest x)
  case Nil
  then show ?case by (simp add: session_result_def)
next
  case (Cons n ns)
  define m where "m = tr_max_size r"
  define k where "k = min n (m * pkts_per_buffer - tr_tail r)"
  define c where "c = take k bytes"
  have k: "0 < k" using Cons.prems(4,6) by (simp add: k_def m_def)
  have fits: "tr_tail r + length c \<le> tr_max_size r * pkts_per_buffer"
    using Cons.prems(4) by (simp add: c_def k_def m_def)
  note step = receive_agrees [OF Cons.prems(1,2) fits Cons.prems(5), of deliver x, folded m_def]
  obtain fs rest' where fs: "frames m (rest @ c) = (fs, rest')" by fastforce
  obtain gs rest'' where gs: "frames m (rest' @ drop k bytes) = (gs, rest'')" by fastforce
  have split: "fst (frames m (rest @ bytes)) = fs @ gs"
    using frames_append [of m "rest @ c" "drop k bytes"] fs gs by (simp add: c_def)
  have unfold: "tcp_session deliver (n # ns) bytes r x = bind_result (tcp_receive deliver c r x) (\<lambda>(more, r1, x1).
      if more then tcp_session deliver ns (drop k bytes) r1 x1 else Inr (False, drop k bytes, r1, x1))"
    unfolding tcp_session.simps Let_def c_def k_def m_def by (rule refl)
  show ?case
  proof (cases "deliver_all deliver fs x")
    case (Inl e)
    with step fs show ?thesis
      unfolding unfold m_def [symmetric] split by (simp add: deliver_all_append session_result_def)
  next
    case (Inr y)
    obtain stopped x1 where y: "y = (stopped, x1)" by fastforce
    show ?thesis
    proof (cases stopped)
      case True
      with step fs Inr y show ?thesis
        unfolding unfold m_def [symmetric] split by (auto simp: deliver_all_append session_result_def)
    next
      case False
      with step fs Inr y obtain r' where r': "tcp_receive deliver c r x = Inr (True, r', x1)" "tr_ok r'" "tr_view r' rest'"
          "tr_max_size r' = m" "tr_tail r' < m * pkts_per_buffer" by auto
      have "frames m rest' = ([], rest')" using frames_rest [of m "rest @ c"] fs by simp
      moreover have "length (drop k bytes) \<le> length ns" using Cons.prems(7) k by simp
      ultimately have "session_result (tcp_session deliver ns (drop k bytes) r' x1) (deliver_all deliver gs x1)"
        using Cons.IH [of r' rest' "drop k bytes" x1] r' Cons.prems(5,6) gs by (simp add: m_def)
      then show ?thesis
        unfolding unfold m_def [symmetric] split using r'(1) Inr y False by (simp add: deliver_all_append)
    qed
  qed
qed

section \<open>Properties\<close>

text \<open>
  C9: How the network cuts the byte stream into pieces does not matter.  For every size limit from 16384 up, and
  whatever number of bytes each receive yields, the reader delivers exactly the packets that the reference
  finds in the whole stream of bytes, in order, up to the one that stops the stream; there is always room
  for at least one byte, so all bytes are read in the end; and no receive writes outside the buffer.
\<close>

theorem tcp_segmentation:
  assumes "16384 \<le> max_size" "\<forall>n \<in> set ns. 0 < n" "length bytes \<le> length ns"
  shows "session_result (tcp_session deliver ns bytes (make_tcp_reader fresh max_size) x)
    (deliver_all deliver (fst (frames max_size bytes)) x)"
proof -
  let ?r = "make_tcp_reader fresh max_size"
  have r: "tr_ok ?r" "tr_view ?r []" "tr_max_size ?r = max_size" "tr_tail ?r < max_size * pkts_per_buffer"
    using assms(1) by (simp_all add: make_tcp_reader_def tr_ok_def tr_view_def tr_data_def pkts_per_buffer_def)
  have "frames max_size [] = ([], [])" by (rule frames_wait) (simp add: get_packet_size_def)
  with session_agrees [of ?r "[]" ns bytes deliver x] r assms show ?thesis by simp
qed

theorem tcp_segmentation_witness:
  "session_result (tcp_session (\<lambda>f fs. Inr (False, fs @ [f])) [2, 1, 4] [1, 2, 3] (make_tcp_reader (\<lambda>_. 0) 65536) [])
     (Inr (False, []))"
proof -
  have "frames 65536 [1, 2, 3] = ([], [1, 2, 3])" by (rule frames_wait) (simp add: get_packet_size_def)
  with tcp_segmentation [of 65536 "[2, 1, 4]" "[1, 2, 3]" "\<lambda>f fs. Inr (False, fs @ [f])" "\<lambda>_. 0" "[]"]
  show ?thesis by simp
qed

text \<open>
  Bytes for a reader with a buffer of 1024: a header that makes no sense, then one that announces 60000 items,
  then as much as fits.
\<close>

definition stuck_bytes :: "byte list" where
  "stuck_bytes = replicate 8 0 @ [0x53, 0x04, 0x03, 0x05, 0, 0, 0xEA, 0x60] @ replicate 1008 0"

lemma stuck_sizes:
  "get_packet_size stuck_bytes = - 1" "get_packet_size (drop 8 stuck_bytes) = 0" "length stuck_bytes = 1024"
proof -
  show len: "length stuck_bytes = 1024" by (simp add: stuck_bytes_def)
  have "take 8 stuck_bytes = replicate 8 0" by (simp add: stuck_bytes_def)
  then have "load_be64 stuck_bytes = 0" by (simp add: load_be64_def be_nat_def eval_simps)
  then have "decode_header stuck_bytes = None"
    by (simp add: decode_header_def extract_bits_def magic_version_def Let_def)
  with len show "get_packet_size stuck_bytes = - 1" by (simp add: get_packet_size_def)
  have "take 8 (drop 8 stuck_bytes) = [0x53, 0x04, 0x03, 0x05, 0, 0, 0xEA, 0x60]" by (simp add: stuck_bytes_def)
  then have "load_be64 (drop 8 stuck_bytes) = 0x530403050000EA60"
    by (simp add: load_be64_def be_nat_def)
  then have "decode_header (drop 8 stuck_bytes) = Some (40, 60000)"
    by (simp add: decode_header_def extract_bits_def magic_version_def Let_def item_pointer_size_def)
  with len show "get_packet_size (drop 8 stuck_bytes) = 0" by (simp add: get_packet_size_def item_pointer_size_def)
qed

text \<open>
  C37: With a small size limit the reader can be made to spin.  For a limit of 16 bytes, a sender of
  1024 chosen bytes brings the reader into a state in which the buffer is full up to its end but not moved, so
  that the next receive asks for zero bytes; such a receive completes at once and leaves the state
  unchanged.
\<close>

theorem tcp_livelock:
  "\<exists>r. tcp_receive deliver stuck_bytes (make_tcp_reader fresh 16) x = Inr (True, r, x) \<and>
     enqueue_receive r = Inr (r, 0) \<and> tcp_receive deliver [] r x = Inr (True, r, x)"
proof -
  define r0 where "r0 = \<lparr>tr_max_size = 16, tr_buffer = stuck_bytes, tr_head = 0, tr_tail = 1024, tr_pkt_size = 0, tr_to_skip = 0\<rparr>"
  define r where "r = r0\<lparr>tr_head := 8\<rparr>"
  have ok: "tr_ok r0" by (simp add: tr_ok_def r0_def stuck_sizes pkts_per_buffer_def)
  have data: "tr_data r0 = stuck_bytes" "tr_data r = drop 8 stuck_bytes"
    by (simp_all add: tr_data_def r0_def r_def stuck_sizes)
  have turn: "process_loop deliver (Suc k) r x = Inr (True, r, x)" for k
    using stuck_sizes data
    by (subst process_loop.simps) (simp add: parse_packet_size_def Let_def r_def r0_def pkts_per_buffer_def)
  have "stuck_bytes \<noteq> []" by (simp add: stuck_bytes_def)
  then have "process_loop deliver (Suc (Suc 1022)) r0 x = process_loop deliver (Suc 1022) r x"
    using turn_bad_header [OF ok, of deliver "Suc 1022" x] stuck_sizes data by (auto simp: r_def r0_def)
  then have loop: "process_loop deliver 1024 r0 x = Inr (True, r, x)" using turn [of 1022] by simp
  have enq: "enqueue_receive r = Inr (r, 0)"
    by (simp add: enqueue_receive_def r_def r0_def pkts_per_buffer_def)
  have "tcp_receive deliver stuck_bytes (make_tcp_reader fresh 16) x = Inr (True, r, x)"
    using loop enq
    by (simp add: tcp_receive_def make_tcp_reader_def mem_write_def process_buffer_def stuck_sizes pkts_per_buffer_def r0_def)
  moreover have "process_loop deliver 1016 r x = Inr (True, r, x)" using turn [of 1015] by simp
  then have "tcp_receive deliver [] r x = Inr (True, r, x)"
    using enq by (simp add: tcp_receive_def mem_write_def process_buffer_def stuck_sizes r_def r0_def)
  ultimately show ?thesis using enq by blast
qed

end
