(* ===== verification/RawPacket.thy ===== *)
theory RawPacket
  imports Prelude
begin

text \<open>
  Raw ethernet frames: \<^verbatim>\<open>common_raw_packet.h\<close> and \<^verbatim>\<open>common_raw_packet.cpp\<close>, and the frames that
  \<^verbatim>\<open>send_udp_ibv.cpp\<close> prepares and fills.  A \<^verbatim>\<open>packet_buffer\<close> is an offset and a length in the memory of the frame;
  every access is checked against that memory.
\<close>

section \<open>Packet buffers and their fields\<close>

record packet_buffer =
  pb_data :: nat
  pb_size :: nat

definition pb_get8 :: "packet_buffer \<Rightarrow> nat \<Rightarrow> byte list \<Rightarrow> fault + byte" where
  "pb_get8 pb offset m = (if pb_data pb + offset < length m then Inr (m ! (pb_data pb + offset)) else Inl Out_of_bounds)"

definition pb_get_be16 :: "packet_buffer \<Rightarrow> nat \<Rightarrow> byte list \<Rightarrow> fault + 16 word" where
  "pb_get_be16 pb offset m =
     (if pb_data pb + offset + 2 \<le> length m then Inr (load_be16 (drop (pb_data pb + offset) m)) else Inl Out_of_bounds)"

definition pb_set :: "packet_buffer \<Rightarrow> nat \<Rightarrow> byte list \<Rightarrow> byte list \<Rightarrow> fault + byte list" where
  "pb_set pb offset v m = mem_write m (pb_data pb + offset) v"

definition pb_set_be16 :: "packet_buffer \<Rightarrow> nat \<Rightarrow> 16 word \<Rightarrow> byte list \<Rightarrow> fault + byte list" where
  "pb_set_be16 pb offset v m = pb_set pb offset (htobe16 v) m"

definition length_error :: "string \<Rightarrow> fault" where
  "length_error s = Exception s"

definition packet_type_error :: "string \<Rightarrow> fault" where
  "packet_type_error s = Exception s"

section \<open>UDP\<close>

definition udp_min_size :: nat where "udp_min_size = 8"

definition udp_protocol :: byte where "udp_protocol = 0x11"

definition make_udp_packet :: "nat \<Rightarrow> nat \<Rightarrow> fault + packet_buffer" where
  "make_udp_packet ptr sz =
     (if sz < udp_min_size then Inl (length_error ''packet is too small to be a UDP packet'')
      else Inr \<lparr>pb_data = ptr, pb_size = sz\<rparr>)"

definition udp_payload :: "packet_buffer \<Rightarrow> byte list \<Rightarrow> fault + packet_buffer" where
  "udp_payload udp m =
     bind_result (pb_get_be16 udp 4 m) (\<lambda>len.
     if unat len > pb_size udp \<or> unat len < udp_min_size then Inl (length_error ''length header is invalid'')
     else Inr \<lparr>pb_data = pb_data udp + udp_min_size, pb_size = unat len - udp_min_size\<rparr>)"

section \<open>IPv4\<close>

definition ipv4_min_size :: nat where "ipv4_min_size = 20"

definition ipv4_ethertype :: "16 word" where "ipv4_ethertype = 0x0800"

definition flag_do_not_fragment :: "16 word" where "flag_do_not_fragment = 0x4000"

definition flag_more_fragments :: "16 word" where "flag_more_fragments = 0x2000"

definition make_ipv4_packet :: "nat \<Rightarrow> nat \<Rightarrow> fault + packet_buffer" where
  "make_ipv4_packet ptr sz =
     (if sz < ipv4_min_size then Inl (length_error ''packet is too small to be an IPv4 packet'')
      else Inr \<lparr>pb_data = ptr, pb_size = sz\<rparr>)"

definition ipv4_header_length :: "packet_buffer \<Rightarrow> byte list \<Rightarrow> fault + nat" where
  "ipv4_header_length ip m = bind_result (pb_get8 ip 0 m) (\<lambda>v. Inr (4 * unat (v AND 0xf)))"

definition ipv4_version :: "packet_buffer \<Rightarrow> byte list \<Rightarrow> fault + nat" where
  "ipv4_version ip m = bind_result (pb_get8 ip 0 m) (\<lambda>v. Inr (unat (drop_bit 4 v)))"

definition is_fragment :: "packet_buffer \<Rightarrow> byte list \<Rightarrow> fault + bool" where
  "is_fragment ip m = bind_result (pb_get_be16 ip 6 m) (\<lambda>v. Inr (v AND (flag_more_fragments OR 0x1fff) \<noteq> 0))"

text \<open>
  The two loops of \<^verbatim>\<open>update_checksum\<close>.  A header has at most 30 words, so the 32-bit sum does not wrap.
\<close>

fun sum_words :: "packet_buffer \<Rightarrow> nat list \<Rightarrow> byte list \<Rightarrow> fault + nat" where
  "sum_words ip [] m = Inr 0"
| "sum_words ip (i # is) m =
     bind_result (pb_get_be16 ip i m) (\<lambda>v. bind_result (sum_words ip is m) (\<lambda>s. Inr (unat v + s)))"

function fold_sum :: "nat \<Rightarrow> nat" where
  "fold_sum s = (if s > 0xffff then fold_sum (s mod 65536 + s div 65536) else s)"
  by pat_completeness auto
termination
proof (relation "measure id")
  fix s :: nat
  assume "s > 0xffff"
  then have "1 \<le> s div 65536" by (simp add: Suc_le_eq div_greater_zero_iff)
  moreover have "s = s div 65536 * 65536 + s mod 65536" by simp
  ultimately have "s mod 65536 + s div 65536 < s" by linarith
  then show "(s mod 65536 + s div 65536, s) \<in> measure id" by simp
qed simp

declare fold_sum.simps [simp del]

definition update_checksum :: "packet_buffer \<Rightarrow> byte list \<Rightarrow> fault + byte list" where
  "update_checksum ip m =
     bind_result (ipv4_header_length ip m) (\<lambda>h.
     bind_result (pb_set_be16 ip 10 0 m) (\<lambda>m1.
     bind_result (sum_words ip (map (\<lambda>i. 2 * i) [0..<h div 2]) m1) (\<lambda>s.
     pb_set_be16 ip 10 (NOT (word_of_nat (fold_sum s))) m1)))"

definition payload_udp :: "packet_buffer \<Rightarrow> byte list \<Rightarrow> fault + packet_buffer" where
  "payload_udp ip m =
     bind_result (ipv4_header_length ip m) (\<lambda>h.
     bind_result (pb_get_be16 ip 2 m) (\<lambda>len.
     if h > pb_size ip \<or> h < ipv4_min_size then Inl (length_error ''ihl header is invalid'')
     else if unat len > pb_size ip \<or> unat len < h then Inl (length_error ''length header is invalid'')
     else make_udp_packet (pb_data ip + h) (unat len - h)))"

section \<open>Ethernet\<close>

definition ethernet_min_size :: nat where "ethernet_min_size = 14"

definition make_ethernet_frame :: "nat \<Rightarrow> nat \<Rightarrow> fault + packet_buffer" where
  "make_ethernet_frame ptr sz =
     (if sz < ethernet_min_size then Inl (length_error ''packet is too small to be an ethernet frame'')
      else Inr \<lparr>pb_data = ptr, pb_size = sz\<rparr>)"

definition payload_ipv4 :: "packet_buffer \<Rightarrow> fault + packet_buffer" where
  "payload_ipv4 eth = make_ipv4_packet (pb_data eth + ethernet_min_size) (pb_size eth - ethernet_min_size)"

definition udp_from_ethernet :: "nat \<Rightarrow> nat \<Rightarrow> byte list \<Rightarrow> fault + packet_buffer" where
  "udp_from_ethernet ptr sz m =
     bind_result (make_ethernet_frame ptr sz) (\<lambda>eth.
     bind_result (pb_get_be16 eth 12 m) (\<lambda>ethertype.
     if ethertype \<noteq> ipv4_ethertype
       then Inl (packet_type_error ''Frame has wrong ethernet type (VLAN tagging?), discarding'')
     else
       bind_result (payload_ipv4 eth) (\<lambda>ipv4.
       bind_result (ipv4_version ipv4 m) (\<lambda>version.
       if version \<noteq> 4 then Inl (packet_type_error ''Frame is not IPv4, discarding'')
       else
         bind_result (is_fragment ipv4 m) (\<lambda>fragment.
         if fragment then Inl (packet_type_error ''IP datagram is fragmented, discarding'')
         else
           bind_result (pb_get8 ipv4 9 m) (\<lambda>protocol.
           if protocol \<noteq> udp_protocol then Inl (packet_type_error ''Packet is not UDP, discarding'')
           else bind_result (payload_udp ipv4 m) (\<lambda>udp. udp_payload udp m)))))))"

text \<open>The group address is its four bytes.\<close>

definition multicast_mac :: "byte list \<Rightarrow> byte list" where
  "multicast_mac address = [0x01, 0x00, 0x5e, (address ! 1) AND 0x7f, address ! 2, address ! 3]"

section \<open>The frames of the sender\<close>

text \<open>
  The constructor of \<^verbatim>\<open>udp_ibv_stream\<close> prepares every frame; addresses are their bytes.
\<close>

record frame_config =
  fc_max_packet_size :: nat
  fc_source_mac :: "byte list"
  fc_interface_address :: "byte list"
  fc_address :: "byte list"
  fc_ttl :: byte
  fc_source_port :: "16 word"
  fc_port :: "16 word"

definition setup_frame :: "frame_config \<Rightarrow> byte list \<Rightarrow> fault + byte list" where
  "setup_frame c m0 =
     bind_result (make_ethernet_frame 0 (length m0)) (\<lambda>frame.
     bind_result (pb_set frame 0 (multicast_mac (fc_address c)) m0) (\<lambda>m1.
     bind_result (pb_set frame 6 (fc_source_mac c) m1) (\<lambda>m2.
     bind_result (pb_set_be16 frame 12 ipv4_ethertype m2) (\<lambda>m3.
     bind_result (payload_ipv4 frame) (\<lambda>ipv4.
     bind_result (pb_set ipv4 0 [0x45] m3) (\<lambda>m4.
     bind_result (pb_set_be16 ipv4 2 (word_of_nat (fc_max_packet_size c + ipv4_min_size + udp_min_size)) m4) (\<lambda>m5.
     bind_result (pb_set_be16 ipv4 6 flag_do_not_fragment m5) (\<lambda>m6.
     bind_result (pb_set ipv4 8 [fc_ttl c] m6) (\<lambda>m7.
     bind_result (pb_set ipv4 9 [udp_protocol] m7) (\<lambda>m8.
     bind_result (pb_set ipv4 12 (fc_interface_address c) m8) (\<lambda>m9.
     bind_result (pb_set ipv4 16 (fc_address c) m9) (\<lambda>m10.
     bind_result (payload_udp ipv4 m10) (\<lambda>udp.
     bind_result (pb_set_be16 udp 0 (fc_source_port c) m10) (\<lambda>m11.
     bind_result (pb_set_be16 udp 2 (fc_port c) m11) (\<lambda>m12.
     bind_result (pb_set_be16 udp 4 (word_of_nat (fc_max_packet_size c + udp_min_size)) m12) (\<lambda>m13.
     pb_set_be16 udp 6 0 m13))))))))))))))))"

text \<open>
  The part of \<^verbatim>\<open>async_send_packets\<close> that puts a packet into a frame: the memory and the number of bytes to
  send.
\<close>

definition fill_frame :: "byte list \<Rightarrow> byte list \<Rightarrow> fault + (byte list \<times> nat)" where
  "fill_frame packet m0 =
     bind_result (payload_ipv4 \<lparr>pb_data = 0, pb_size = length m0\<rparr>) (\<lambda>ipv4.
     bind_result (ipv4_header_length ipv4 m0) (\<lambda>h.
     bind_result (pb_set_be16 ipv4 2 (word_of_nat (length packet + udp_min_size + h)) m0) (\<lambda>m1.
     bind_result (update_checksum ipv4 m1) (\<lambda>m2.
     bind_result (payload_udp ipv4 m2) (\<lambda>udp.
     bind_result (pb_set_be16 udp 4 (word_of_nat (length packet + udp_min_size)) m2) (\<lambda>m3.
     bind_result (udp_payload udp m3) (\<lambda>payload.
     bind_result (mem_write m3 (pb_data payload) (take (pb_size payload) packet)) (\<lambda>m4.
     Inr (m4, length packet + pb_data payload)))))))))"

section \<open>Parsing is safe\<close>

lemmas raw_sizes = udp_min_size_def ipv4_min_size_def ethernet_min_size_def

text \<open>A result that is an exception, or a value that satisfies \<open>Q\<close>: no access out of bounds.\<close>

definition exception_or :: "('a \<Rightarrow> bool) \<Rightarrow> fault + 'a \<Rightarrow> bool" where
  "exception_or Q r \<longleftrightarrow> (case r of Inl e \<Rightarrow> (\<exists>s. e = Exception s) | Inr x \<Rightarrow> Q x)"

lemma exception_or_bind:
  assumes "exception_or Q r" "\<And>x. Q x \<Longrightarrow> exception_or R (f x)"
  shows "exception_or R (bind_result r f)"
  using assms by (cases r) (auto simp: exception_or_def)

lemma exception_or_simps [simp]:
  "exception_or Q (Inr x) = Q x" "exception_or Q (Inl (Exception s))"
  "exception_or Q (Inl (length_error s))" "exception_or Q (Inl (packet_type_error s))"
  by (simp_all add: exception_or_def length_error_def packet_type_error_def)

text \<open>The view \<open>pb\<close> lies within the \<open>n\<close> bytes from \<open>ptr\<close> on.\<close>

definition pb_within :: "nat \<Rightarrow> nat \<Rightarrow> packet_buffer \<Rightarrow> bool" where
  "pb_within ptr n pb \<longleftrightarrow> ptr \<le> pb_data pb \<and> pb_data pb + pb_size pb \<le> ptr + n"

lemma get_within:
  assumes "pb_within ptr n pb" "ptr + n \<le> length m"
  shows "offset < pb_size pb \<Longrightarrow> pb_get8 pb offset m = Inr (m ! (pb_data pb + offset))"
    and "offset + 2 \<le> pb_size pb \<Longrightarrow> pb_get_be16 pb offset m = Inr (load_be16 (drop (pb_data pb + offset) m))"
  using assms by (simp_all add: pb_within_def pb_get8_def pb_get_be16_def)

lemma udp_payload_within:
  assumes "pb_within ptr n udp" "udp_min_size \<le> pb_size udp" "ptr + n \<le> length m"
  shows "exception_or (pb_within ptr n) (udp_payload udp m)"
  using get_within(2) [OF assms(1,3), of 4] assms(1,2)
  by (auto simp: udp_payload_def raw_sizes pb_within_def)

lemma payload_udp_within:
  assumes "pb_within ptr n ip" "ipv4_min_size \<le> pb_size ip" "ptr + n \<le> length m"
  shows "exception_or (\<lambda>udp. pb_within ptr n udp \<and> udp_min_size \<le> pb_size udp) (payload_udp ip m)"
  using get_within(1) [OF assms(1,3), of 0] get_within(2) [OF assms(1,3), of 2] assms(1,2)
  by (auto simp: payload_udp_def ipv4_header_length_def make_udp_packet_def raw_sizes pb_within_def)

lemma payload_ipv4_within:
  assumes "pb_within ptr n eth" "ethernet_min_size \<le> pb_size eth"
  shows "exception_or (\<lambda>ip. pb_within ptr n ip \<and> ipv4_min_size \<le> pb_size ip) (payload_ipv4 eth)"
  using assms by (auto simp: payload_ipv4_def make_ipv4_packet_def raw_sizes pb_within_def)

lemma udp_from_ethernet_within:
  assumes "ptr + n \<le> length m"
  shows "exception_or (pb_within ptr n) (udp_from_ethernet ptr n m)"
  unfolding udp_from_ethernet_def
proof (rule exception_or_bind)
  show "exception_or (\<lambda>eth. pb_within ptr n eth \<and> ethernet_min_size \<le> pb_size eth) (make_ethernet_frame ptr n)"
    by (auto simp: make_ethernet_frame_def pb_within_def)
next
  fix eth
  assume eth: "pb_within ptr n eth \<and> ethernet_min_size \<le> pb_size eth"
  have ip: "exception_or (pb_within ptr n) (bind_result (payload_ipv4 eth) g)"
    if "\<And>ip. pb_within ptr n ip \<Longrightarrow> ipv4_min_size \<le> pb_size ip \<Longrightarrow> exception_or (pb_within ptr n) (g ip)" for g
    using payload_ipv4_within [of ptr n eth] eth by (auto intro: exception_or_bind that)
  show "exception_or (pb_within ptr n) (bind_result (pb_get_be16 eth 12 m) (\<lambda>ethertype.
     if ethertype \<noteq> ipv4_ethertype
       then Inl (packet_type_error ''Frame has wrong ethernet type (VLAN tagging?), discarding'')
     else
       bind_result (payload_ipv4 eth) (\<lambda>ipv4.
       bind_result (ipv4_version ipv4 m) (\<lambda>version.
       if version \<noteq> 4 then Inl (packet_type_error ''Frame is not IPv4, discarding'')
       else
         bind_result (is_fragment ipv4 m) (\<lambda>fragment.
         if fragment then Inl (packet_type_error ''IP datagram is fragmented, discarding'')
         else
           bind_result (pb_get8 ipv4 9 m) (\<lambda>protocol.
           if protocol \<noteq> udp_protocol then Inl (packet_type_error ''Packet is not UDP, discarding'')
           else bind_result (payload_udp ipv4 m) (\<lambda>udp. udp_payload udp m)))))))"
  proof -
    have "exception_or (pb_within ptr n) (bind_result (payload_udp ip m) (\<lambda>udp. udp_payload udp m))"
      if "pb_within ptr n ip" "ipv4_min_size \<le> pb_size ip" for ip
      using payload_udp_within [OF that assms] udp_payload_within [OF _ _ assms]
      by (auto intro: exception_or_bind)
    moreover have "pb_get8 ip 0 m = Inr (m ! pb_data ip)" "pb_get8 ip 9 m = Inr (m ! (pb_data ip + 9))"
        "pb_get_be16 ip 6 m = Inr (load_be16 (drop (pb_data ip + 6) m))"
      if "pb_within ptr n ip" "ipv4_min_size \<le> pb_size ip" for ip
      using get_within [OF that(1) assms] that(2) by (simp_all add: raw_sizes)
    moreover have "pb_get_be16 eth 12 m = Inr (load_be16 (drop (pb_data eth + 12) m))"
      using get_within(2) [of ptr n eth m 12] eth assms by (simp add: raw_sizes)
    ultimately show ?thesis
      by (auto intro!: ip simp: ipv4_version_def is_fragment_def)
  qed
qed

section \<open>The checksum\<close>

lemma fold_sum_value: "fold_sum s = (if s = 0 then 0 else (s - 1) mod 65535 + 1)"
proof (induction s rule: fold_sum.induct)
  case (1 s)
  show ?case
  proof (cases "s > 0xffff")
    case True
    define q r where "q = s div 65536" "r = s mod 65536"
    have s: "s = q * 65536 + r" by (simp add: q_r_def)
    have "1 \<le> q" using True by (simp add: q_r_def Suc_le_eq div_greater_zero_iff)
    then have "s - 1 = (r + q - 1) + q * 65535" using s by simp
    then have "(s - 1) mod 65535 = (r + q - 1) mod 65535" by (metis mod_mult_self1)
    with True 1 \<open>1 \<le> q\<close> show ?thesis by (subst fold_sum.simps) (simp add: q_r_def)
  next
    case False
    then show ?thesis by (subst fold_sum.simps) auto
  qed
qed

text \<open>Adding the complement of the folded sum gives a sum that folds to all ones.\<close>

lemma fold_sum_checksum:
  assumes "0 < s"
  shows "fold_sum s \<le> 65535" "fold_sum (s + (65535 - fold_sum s)) = 65535"
proof -
  have f: "fold_sum s = (s - 1) mod 65535 + 1" using assms by (simp add: fold_sum_value)
  have lt: "(s - 1) mod 65535 < 65535" by simp
  then show "fold_sum s \<le> 65535" unfolding f by linarith
  have "s - 1 = (s - 1) div 65535 * 65535 + (s - 1) mod 65535" by simp
  then have "s + (65535 - fold_sum s) - 1 = (s - 1) div 65535 * 65535 + 65534"
    using f lt assms by linarith
  then have "(s + (65535 - fold_sum s) - 1) mod 65535 = 65534"
    by (simp add: mod_mult_self3)
  with assms show "fold_sum (s + (65535 - fold_sum s)) = 65535" by (simp add: fold_sum_value [of "s + _"])
qed

lemma unat16: "n < 65536 \<Longrightarrow> unat (word_of_nat n :: 16 word) = n"
  by (simp add: unat_of_nat)

text \<open>Reading a word after writing another, and the sum of the words of a header.\<close>

lemma be16_after_write:
  assumes "mem_write m a (htobe16 v) = Inr m'" "b + 2 \<le> a \<or> a + 2 \<le> b \<or> b = a" "b + 2 \<le> length m"
  shows "load_be16 (drop b m') = (if b = a then v else load_be16 (drop b m))" "length m' = length m"
proof -
  have m': "m' = take a m @ htobe16 v @ drop (a + 2) m" "a + 2 \<le> length m"
    using assms(1) by (auto simp: mem_write_def split: if_splits)
  show "length m' = length m" using m' by simp
  have "take 2 (drop b m') = (if b = a then htobe16 v else take 2 (drop b m))"
  proof (cases "a + 2 \<le> b")
    case True
    then obtain k where b: "b = a + 2 + k" using le_Suc_ex by blast
    have "drop b m' = drop k (drop (a + 2) m)" using m'(2) unfolding m'(1) b by simp
    also have "\<dots> = drop b m" unfolding b by (simp add: add.commute)
    finally show ?thesis using True by simp
  next
    case False
    then show ?thesis using m'(2) assms(2,3) unfolding m'(1) by (auto simp: drop_take min_def)
  qed
  then show "load_be16 (drop b m') = (if b = a then v else load_be16 (drop b m))"
    using load_htobe16 [of v "[]"] by (simp add: load_be16_def split: if_splits)
qed

definition word_at :: "packet_buffer \<Rightarrow> byte list \<Rightarrow> nat \<Rightarrow> nat" where
  "word_at ip m i = unat (load_be16 (drop (pb_data ip + i) m))"

lemma sum_words_value:
  assumes "\<forall>i \<in> set is. pb_data ip + i + 2 \<le> length m"
  shows "sum_words ip is m = Inr (sum_list (map (word_at ip m) is))"
  using assms by (induction "is") (simp_all add: pb_get_be16_def word_at_def)

abbreviation header_words :: "nat \<Rightarrow> nat list" where
  "header_words h \<equiv> map (\<lambda>i. 2 * i) [0..<h div 2]"

text \<open>\<^verbatim>\<open>update_checksum\<close> leaves a header whose words add up to all ones.\<close>

lemma update_checksum_ok:
  assumes h: "ipv4_header_length ip m = Inr h" "12 \<le> h" and len: "pb_data ip + h \<le> length m" and nonzero: "0 < word_at ip m 0"
  obtains m' w where "update_checksum ip m = Inr m'" "mem_write m (pb_data ip + 10) (htobe16 w) = Inr m'"
    "fold_sum (sum_list (map (word_at ip m') (header_words h))) = 65535"
proof -
  let ?ws = "header_words h"
  have ten: "pb_data ip + 12 \<le> length m" using h(2) len by simp
  obtain m1 where m1: "mem_write m (pb_data ip + 10) (htobe16 0) = Inr m1" using ten by (simp add: mem_write_def)
  define s where "s = sum_list (map (word_at ip m1) ?ws)"
  define w :: "16 word" where "w = NOT (word_of_nat (fold_sum s))"
  have len1: "length m1 = length m" using m1 ten by (auto simp: mem_write_def)
  obtain m2 where m2: "mem_write m1 (pb_data ip + 10) (htobe16 w) = Inr m2" using ten len1 by (simp add: mem_write_def)
  have lens: "length m1 = length m" "length m2 = length m"
    using m1 m2 ten by (auto simp: mem_write_def split: if_splits)
  have bnd: "\<forall>i \<in> set ?ws. pb_data ip + i + 2 \<le> length m" using len by auto
  have apart: "i = 10 \<or> i + 2 \<le> 10 \<or> 12 \<le> i" if "i \<in> set ?ws" for i using that by auto
  have read1: "word_at ip m1 i = (if i = 10 then 0 else word_at ip m i)" if "i \<in> set ?ws" for i
    using be16_after_write(1) [OF m1, of "pb_data ip + i"] bnd that apart [OF that] by (auto simp: word_at_def)
  have read2: "word_at ip m2 i = (if i = 10 then unat w else word_at ip m1 i)" if "i \<in> set ?ws" for i
    using be16_after_write(1) [OF m2, of "pb_data ip + i"] bnd that lens apart [OF that] by (auto simp: word_at_def)
  have dist: "distinct ?ws" by (simp add: distinct_map inj_on_def)
  have "5 \<in> {0..<h div 2}" using h(2) by auto
  then have mem: "10 \<in> set ?ws" by force
  have zero: "0 \<in> set ?ws" using h(2) by force
  have "word_at ip m1 0 \<in> set (map (word_at ip m1) ?ws)" using zero by (metis image_eqI set_map)
  then have "word_at ip m1 0 \<le> s" unfolding s_def by (rule member_le_sum_list) simp
  with read1 [OF zero] nonzero have "0 < s" by simp
  have "sum_list (map (word_at ip m2) ?ws) = (\<Sum>i \<in> set ?ws. word_at ip m2 i)"
    by (rule sum_list_distinct_conv_sum_set [OF dist])
  also have "\<dots> = unat w + (\<Sum>i \<in> set ?ws - {10}. word_at ip m2 i)"
    using mem read2 by (subst sum.remove [of _ 10]) auto
  also have "(\<Sum>i \<in> set ?ws - {10}. word_at ip m2 i) = (\<Sum>i \<in> set ?ws - {10}. word_at ip m1 i)"
    using read2 by (intro sum.cong) auto
  also have "\<dots> = (\<Sum>i \<in> set ?ws. word_at ip m1 i)"
    using mem read1 [OF mem] by (subst (2) sum.remove [of _ 10]) auto
  also have "\<dots> = s" unfolding s_def by (rule sum_list_distinct_conv_sum_set [OF dist, symmetric])
  finally have "sum_list (map (word_at ip m2) ?ws) = s + unat w" by simp
  moreover have "unat w = 65535 - fold_sum s"
  proof -
    have "unat (word_of_nat (fold_sum s) :: 16 word) = fold_sum s"
      using fold_sum_checksum(1) [OF \<open>0 < s\<close>] by (simp add: unat_of_nat)
    moreover have "unat (NOT x) = 65535 - unat x" for x :: "16 word"
    proof -
      have "NOT x = - 1 - x" by (simp add: not_eq_complement)
      moreover have "unat x < 2 ^ LENGTH(16)" by (rule unsigned_less)
      ultimately show ?thesis
        by (simp add: unat_sub_if' unsigned_minus_1_eq_mask mask_eq_exp_minus_1)
    qed
    ultimately show ?thesis by (simp add: w_def)
  qed
  ultimately have good: "fold_sum (sum_list (map (word_at ip m2) ?ws)) = 65535"
    using fold_sum_checksum(2) [OF \<open>0 < s\<close>] by simp
  have "mem_write m (pb_data ip + 10) (htobe16 w) = Inr m2"
    using m1 m2 by (auto simp: mem_write_def min_def split: if_splits)
  moreover have "update_checksum ip m = Inr m2"
    using m1 m2 h(1) sum_words_value [of ?ws ip m1] bnd lens
    by (simp add: update_checksum_def pb_set_be16_def pb_set_def s_def w_def)
  ultimately show ?thesis using good by (intro that)
qed

section \<open>Frames\<close>

text \<open>The layout of a prepared frame; the bytes \<open>d\<close> and \<open>ident\<close> are never written.\<close>

definition frame_bytes ::
  "frame_config \<Rightarrow> byte \<Rightarrow> byte list \<Rightarrow> 16 word \<Rightarrow> 16 word \<Rightarrow> 16 word \<Rightarrow> byte list \<Rightarrow> byte list" where
  "frame_bytes c d ident totlen checksum len rest =
     multicast_mac (fc_address c) @ fc_source_mac c @ htobe16 ipv4_ethertype @ [0x45] @ [d] @ htobe16 totlen @ ident @
     htobe16 flag_do_not_fragment @ [fc_ttl c] @ [udp_protocol] @ htobe16 checksum @ fc_interface_address c @ fc_address c @
     htobe16 (fc_source_port c) @ htobe16 (fc_port c) @ htobe16 len @ htobe16 0 @ rest"

definition wf_config :: "frame_config \<Rightarrow> bool" where
  "wf_config c \<longleftrightarrow> length (fc_source_mac c) = 6 \<and> length (fc_interface_address c) = 4 \<and> length (fc_address c) = 4 \<and>
     fc_max_packet_size c + 28 < 65536"

definition frame_ready :: "frame_config \<Rightarrow> byte list \<Rightarrow> bool" where
  "frame_ready c m \<longleftrightarrow> (\<exists>d ident totlen checksum len rest. length ident = 2 \<and> length rest = fc_max_packet_size c \<and>
     m = frame_bytes c d ident totlen checksum len rest)"

lemma length_multicast_mac [simp]: "length (multicast_mac a) = 6"
  by (simp add: multicast_mac_def)

lemma cut:
  assumes "n \<le> length m"
  obtains a b where "m = a @ b" "length a = n"
  using assms by (intro that [of "take n m" "drop n m"]) simp_all

lemma write_middle:
  assumes "length a = n" "length b = length b'"
  shows "mem_write (a @ b @ c) n b' = Inr (a @ b' @ c)"
  using assms by (simp add: mem_write_def)

lemma be16_value [simp]: "word_of_nat (be_nat_acc 0 (htobe16 w)) = w"
  using load_htobe16 [of w "[]"] by (simp add: load_be16_def be_nat_def)

lemma frame_rest:
  "frame_bytes c d ident totlen checksum len rest = frame_bytes c d ident totlen checksum len [] @ rest"
  by (simp add: frame_bytes_def)

text \<open>Reading and writing the fields of a frame in this layout.\<close>

lemma frame_fields:
  assumes "wf_config c" "length ident = 2" and m_def: "m = frame_bytes c d ident totlen checksum len rest"
  shows "length m = 42 + length rest"
    and "m ! 14 = 0x45" "m ! 23 = udp_protocol"
    and "load_be16 (drop 12 m) = ipv4_ethertype" "load_be16 (drop 16 m) = totlen"
      "load_be16 (drop 20 m) = flag_do_not_fragment" "load_be16 (drop 38 m) = len"
      "load_be16 (drop 14 m) = word_of_nat (256 * 0x45 + unat d)"
    and "mem_write m 16 (htobe16 v) = Inr (frame_bytes c d ident v checksum len rest)"
    and "mem_write m 24 (htobe16 v) = Inr (frame_bytes c d ident totlen v len rest)"
    and "mem_write m 38 (htobe16 v) = Inr (frame_bytes c d ident totlen checksum v rest)"
    and "drop 42 m = rest"
  using assms
  by (simp_all add: frame_bytes_def wf_config_def m_def nth_append be_simps mem_write_def load_be16_def be_nat_def)

lemma frame_write_payload:
  assumes "wf_config c" "length ident = 2" "length p \<le> length rest"
  shows "mem_write (frame_bytes c d ident totlen checksum len rest) 42 p =
    Inr (frame_bytes c d ident totlen checksum len (p @ drop (length p) rest))"
proof -
  have "length (frame_bytes c d ident totlen checksum len []) = 42"
    using frame_fields(1) [OF assms(1,2) refl, of d totlen checksum len "[]"] by simp
  with assms(3) show ?thesis
    unfolding frame_rest [of c d ident totlen checksum len rest]
      frame_rest [of c d ident totlen checksum len "p @ drop (length p) rest"]
    by (simp add: mem_write_def)
qed

lemma setup_frame_ok:
  assumes "wf_config c" "length m0 = fc_max_packet_size c + 42"
  obtains m where "setup_frame c m0 = Inr m" "frame_ready c m"
proof -
  let ?n = "fc_max_packet_size c"
  obtain a1 r1 where 1: "m0 = a1 @ r1" "length a1 = 6" using cut [of 6 m0] assms(2) by auto
  obtain a2 r2 where 2: "r1 = a2 @ r2" "length a2 = 6" using cut [of 6 r1] assms(2) 1 by auto
  obtain a3 r3 where 3: "r2 = a3 @ r3" "length a3 = 2" using cut [of 2 r2] assms(2) 1 2 by auto
  obtain b1 r4 where 4: "r3 = b1 @ r4" "length b1 = 1" using cut [of 1 r3] assms(2) 1 2 3 by auto
  obtain d r5 where 5: "r4 = d # r5" using assms(2) 1 2 3 4 by (cases r4) auto
  obtain b2 r6 where 6: "r5 = b2 @ r6" "length b2 = 2" using cut [of 2 r5] assms(2) 1 2 3 4 5 by auto
  obtain ident r7 where 7: "r6 = ident @ r7" "length ident = 2" using cut [of 2 r6] assms(2) 1 2 3 4 5 6 by auto
  obtain b3 r8 where 8: "r7 = b3 @ r8" "length b3 = 2" using cut [of 2 r7] assms(2) 1 2 3 4 5 6 7 by auto
  obtain b4 r9 where 9: "r8 = b4 @ r9" "length b4 = 1" using cut [of 1 r8] assms(2) 1 2 3 4 5 6 7 8 by auto
  obtain b5 r10 where 10: "r9 = b5 @ r10" "length b5 = 1" using cut [of 1 r9] assms(2) 1 2 3 4 5 6 7 8 9 by auto
  obtain b6 r11 where 11: "r10 = b6 @ r11" "length b6 = 2" using cut [of 2 r10] assms(2) 1 2 3 4 5 6 7 8 9 10 by auto
  obtain b7 r12 where 12: "r11 = b7 @ r12" "length b7 = 4" using cut [of 4 r11] assms(2) 1 2 3 4 5 6 7 8 9 10 11 by auto
  obtain b8 r13 where 13: "r12 = b8 @ r13" "length b8 = 4" using cut [of 4 r12] assms(2) 1 2 3 4 5 6 7 8 9 10 11 12 by auto
  obtain u1 r14 where 14: "r13 = u1 @ r14" "length u1 = 2" using cut [of 2 r13] assms(2) 1 2 3 4 5 6 7 8 9 10 11 12 13 by auto
  obtain u2 r15 where 15: "r14 = u2 @ r15" "length u2 = 2" using cut [of 2 r14] assms(2) 1 2 3 4 5 6 7 8 9 10 11 12 13 14 by auto
  obtain u3 r16 where 16: "r15 = u3 @ r16" "length u3 = 2" using cut [of 2 r15] assms(2) 1 2 3 4 5 6 7 8 9 10 11 12 13 14 15 by auto
  obtain u4 rest where 17: "r16 = u4 @ rest" "length u4 = 2" using cut [of 2 r16] assms(2) 1 2 3 4 5 6 7 8 9 10 11 12 13 14 15 16 by auto
  note m0 = 1(1) [unfolded 2(1) 3(1) 4(1) 5 6(1) 7(1) 8(1) 9(1) 10(1) 11(1) 12(1) 13(1) 14(1) 15(1) 16(1) 17(1)]
  note lens = 1(2) 2(2) 3(2) 4(2) 6(2) 7(2) 8(2) 9(2) 10(2) 11(2) 12(2) 13(2) 14(2) 15(2) 16(2) 17(2)
  have rest: "length rest = ?n" using assms(2) lens unfolding m0 by simp
  obtain checksum where "b6 = htobe16 checksum"
    using be_bytes_be_nat [of b6] be_nat_less [of b6] lens(10)
    by (intro that [of "word_of_nat (be_nat b6)"]) (simp add: htobe16_def unat_of_nat)
  have "unat (word_of_nat (28 + ?n) :: 16 word) = 28 + ?n"
    using assms(1) by (intro unat16) (simp add: wf_config_def)
  then have "setup_frame c m0 = Inr (frame_bytes c d ident (word_of_nat (28 + ?n)) checksum (word_of_nat (?n + 8)) rest)"
    using assms(1) lens rest \<open>b6 = htobe16 checksum\<close> unfolding m0
    by (simp add: setup_frame_def make_ethernet_frame_def payload_ipv4_def make_ipv4_packet_def raw_sizes pb_set_be16_def
        pb_set_def mem_write_def payload_udp_def ipv4_header_length_def pb_get8_def pb_get_be16_def make_udp_packet_def
        nth_append be_simps frame_bytes_def wf_config_def del: of_nat_add)
  moreover have "frame_ready c (frame_bytes c d ident (word_of_nat (28 + ?n)) checksum (word_of_nat (?n + 8)) rest)"
    unfolding frame_ready_def using rest lens(6) by blast
  ultimately show ?thesis by (rule that)
qed

text \<open>What \<^verbatim>\<open>fill_frame\<close> leaves in a prepared frame.\<close>

definition frame_carries :: "byte list \<Rightarrow> byte list \<times> nat \<Rightarrow> bool" where
  "frame_carries p mn \<longleftrightarrow>
     (let (m, n) = mn in
      udp_from_ethernet 0 n m = Inr \<lparr>pb_data = 42, pb_size = length p\<rparr> \<and> n = 42 + length p \<and> take (length p) (drop 42 m) = p \<and>
      (\<exists>s. sum_words \<lparr>pb_data = 14, pb_size = n - 14\<rparr> (header_words 20) m = Inr s \<and> fold_sum s = 0xffff))"

lemma fill_frame_ok:
  assumes c: "wf_config c" and ready: "frame_ready c m" and p: "length p \<le> fc_max_packet_size c"
  obtains m' where "fill_frame p m = Inr (m', length p + 42)" "frame_ready c m'" "frame_carries p (m', length p + 42)"
proof -
  obtain d ident totlen checksum len rest where m: "length ident = 2" "length rest = fc_max_packet_size c"
      "m = frame_bytes c d ident totlen checksum len rest"
    using ready by (auto simp: frame_ready_def)
  let ?ip = "\<lparr>pb_data = 14, pb_size = 28 + length rest\<rparr>"
  let ?t = "word_of_nat (length p + 28) :: 16 word" and ?u = "word_of_nat (length p + 8) :: 16 word"
  have small: "length p + 28 < 65536" using c p by (simp add: wf_config_def)
  then have unats: "unat ?t = length p + 28" "unat ?u = length p + 8" by (intro unat16, simp)+
  note ff = frame_fields [OF c m(1) refl]
  define m1 where "m1 = frame_bytes c d ident ?t checksum len rest"
  have get: "ipv4_header_length ?ip (frame_bytes c d ident t k l rest) = Inr 20"
      "length (frame_bytes c d ident t k l rest) = 42 + length rest" for t k l
    using ff(1,2) [of d t k l rest] by (simp_all add: ipv4_header_length_def pb_get8_def)
  have "0 < word_at ?ip m1 0"
  proof -
    have "unat d < 2 ^ LENGTH(8)" by (rule unsigned_less)
    then have "256 * 0x45 + unat d < 65536" by simp
    from unat16 [OF this] ff(8) [of d ?t checksum len rest] show ?thesis
      by (simp add: word_at_def m1_def del: of_nat_add)
  qed
  moreover have "ipv4_header_length ?ip m1 = Inr 20" "pb_data ?ip + 20 \<le> length m1" using get by (simp_all add: m1_def)
  ultimately obtain m2 w where m2: "update_checksum ?ip m1 = Inr m2" "mem_write m1 (pb_data ?ip + 10) (htobe16 w) = Inr m2"
      "fold_sum (sum_list (map (word_at ?ip m2) (header_words 20))) = 65535"
    using update_checksum_ok [of ?ip m1 20] by auto
  have m2_bytes: "m2 = frame_bytes c d ident ?t w len rest"
    using m2(2) ff(10) [of d ?t checksum len rest w] by (simp add: m1_def)
  define m4 where "m4 = frame_bytes c d ident ?t w ?u (p @ drop (length p) rest)"
  have fill: "fill_frame p m = Inr (m4, length p + 42)"
  proof -
    have "pb_set_be16 ?ip 2 ?t m = Inr m1"
      using ff(9) [of d totlen checksum len rest ?t] by (simp add: pb_set_be16_def pb_set_def m m1_def)
    moreover have "payload_udp ?ip m2 = Inr \<lparr>pb_data = 34, pb_size = length p + 8\<rparr>"
      using get ff(5) [of d ?t w len rest] unats p m(2)
      by (simp add: payload_udp_def pb_get_be16_def raw_sizes make_udp_packet_def m2_bytes)
    moreover have "pb_set_be16 \<lparr>pb_data = 34, pb_size = length p + 8\<rparr> 4 ?u m2 = Inr (frame_bytes c d ident ?t w ?u rest)"
      using ff(11) [of d ?t w len rest ?u] by (simp add: pb_set_be16_def pb_set_def m2_bytes)
    moreover have "udp_payload \<lparr>pb_data = 34, pb_size = length p + 8\<rparr> (frame_bytes c d ident ?t w ?u rest) =
        Inr \<lparr>pb_data = 42, pb_size = length p\<rparr>"
      using get(2) ff(7) [of d ?t w ?u rest] unats by (simp add: udp_payload_def pb_get_be16_def raw_sizes)
    moreover have "mem_write (frame_bytes c d ident ?t w ?u rest) 42 p = Inr m4"
      using frame_write_payload [OF c m(1), of p rest] p m(2) by (simp add: m4_def)
    ultimately show ?thesis
      using m2(1) get [of totlen checksum len] p
      by (simp add: fill_frame_def payload_ipv4_def make_ipv4_packet_def raw_sizes m(3) add.commute)
  qed
  have ready': "frame_ready c m4"
    unfolding frame_ready_def m4_def using m(1,2) p
    by (intro exI [of _ d] exI [of _ ident] exI [of _ ?t] exI [of _ w] exI [of _ ?u] exI [of _ "p @ drop (length p) rest"]) simp
  note f4 = frame_fields [OF c m(1) m4_def]
  have len4: "length m4 = 42 + length rest" using f4(1) p m(2) by simp
  have parse: "udp_from_ethernet 0 (length p + 42) m4 = Inr \<lparr>pb_data = 42, pb_size = length p\<rparr>"
    using len4 f4(2-7) unats p m(2)
    by (simp add: udp_from_ethernet_def make_ethernet_frame_def payload_ipv4_def make_ipv4_packet_def raw_sizes pb_get8_def
        pb_get_be16_def ipv4_version_def is_fragment_def payload_udp_def ipv4_header_length_def make_udp_packet_def udp_payload_def
        flag_do_not_fragment_def flag_more_fragments_def)
  have words: "word_at \<lparr>pb_data = 14, pb_size = n\<rparr> m4 i = word_at ?ip m2 i" if "i \<in> set (header_words 20)" for i n
  proof -
    have "take 34 (frame_bytes c d ident t k l r) = take 34 (frame_bytes c d ident t k l' r')" for t k l l' r r'
      using c m(1) by (simp add: frame_bytes_def wf_config_def)
    then have "take 34 m4 = take 34 m2" unfolding m4_def m2_bytes by blast
    moreover have "take 2 (drop (14 + i) x) = take 2 (drop (14 + i) (take 34 x))" for x :: "byte list"
      using that by (simp add: drop_take min_def) auto
    ultimately have "take 2 (drop (14 + i) m4) = take 2 (drop (14 + i) m2)" by metis
    then show ?thesis by (simp add: word_at_def load_be16_def)
  qed
  have "sum_words \<lparr>pb_data = 14, pb_size = length p + 42 - 14\<rparr> (header_words 20) m4 =
      Inr (sum_list (map (word_at \<lparr>pb_data = 14, pb_size = length p + 42 - 14\<rparr> m4) (header_words 20)))"
    using len4 by (intro sum_words_value) auto
  also have "map (word_at \<lparr>pb_data = 14, pb_size = length p + 42 - 14\<rparr> m4) (header_words 20) = map (word_at ?ip m2) (header_words 20)"
    using words by (intro map_cong refl)
  finally have "frame_carries p (m4, length p + 42)"
    using parse m2(3) f4(12) by (simp add: frame_carries_def)
  with fill ready' show ?thesis by (rule that)
qed

fun fill_frames :: "byte list list \<Rightarrow> byte list \<Rightarrow> fault + byte list" where
  "fill_frames [] m = Inr m"
| "fill_frames (p # ps) m = bind_result (fill_frame p m) (\<lambda>(m', n). fill_frames ps m')"

lemma fill_frames_ok:
  assumes "wf_config c" "frame_ready c m" "\<forall>p \<in> set ps. length p \<le> fc_max_packet_size c"
  shows "\<exists>m'. fill_frames ps m = Inr m' \<and> frame_ready c m'"
  using assms(2,3)
proof (induction ps arbitrary: m)
  case (Cons p ps)
  from fill_frame_ok [OF assms(1) Cons.prems(1), of p] Cons.prems(2) obtain m1 where
    "fill_frame p m = Inr (m1, length p + 42)" "frame_ready c m1" by auto
  with Cons.IH [of m1] Cons.prems(2) show ?case by simp
qed simp

section \<open>Properties\<close>

text \<open>
  Whatever a network card delivers, \<^verbatim>\<open>udp_from_ethernet\<close> reads only the bytes of the frame, and
  it either throws one of its exceptions or returns a payload that lies within the frame.
\<close>

lemma udp_from_ethernet_safe:
  "exception_or (pb_within (length pre) (length frame))
     (udp_from_ethernet (length pre) (length frame) (pre @ frame @ post))"
  by (rule udp_from_ethernet_within) simp

text \<open>
  C22: The frames that the sender makes are the ones the receiver expects.  A frame that was prepared
  by the constructor and has carried any packets before is filled with a packet without an error; the
  receiver extracts exactly that packet from the bytes sent, and the checksum of the IPv4 header is right: its
  words add up to all ones in one's complement.
\<close>

theorem frame_roundtrip:
  assumes "wf_config c" "length m0 = fc_max_packet_size c + 42" "\<forall>q \<in> set (ps @ [p]). length q \<le> fc_max_packet_size c"
  shows "\<exists>m1 m2 m3 n. setup_frame c m0 = Inr m1 \<and> fill_frames ps m1 = Inr m2 \<and> fill_frame p m2 = Inr (m3, n) \<and>
    frame_carries p (m3, n)"
proof -
  obtain m1 where m1: "setup_frame c m0 = Inr m1" "frame_ready c m1" by (rule setup_frame_ok [OF assms(1,2)])
  obtain m2 where m2: "fill_frames ps m1 = Inr m2" "frame_ready c m2"
    using fill_frames_ok [OF assms(1) m1(2), of ps] assms(3) by auto
  obtain m3 where "fill_frame p m2 = Inr (m3, length p + 42)" "frame_carries p (m3, length p + 42)"
    using fill_frame_ok [OF assms(1) m2(2), of p] assms(3) by auto
  with m1 m2 show ?thesis by blast
qed

theorem frame_roundtrip_witness:
  "\<exists>m1 m2 m3 n. setup_frame \<lparr>fc_max_packet_size = 4, fc_source_mac = [2, 0, 0, 0, 0, 1], fc_interface_address = [10, 0, 0, 1],
      fc_address = [239, 129, 2, 3], fc_ttl = 1, fc_source_port = 5000, fc_port = 8888\<rparr> (replicate 46 0) = Inr m1 \<and>
    fill_frames [[1, 2, 3, 4], []] m1 = Inr m2 \<and> fill_frame [7, 8] m2 = Inr (m3, n) \<and> frame_carries [7, 8] (m3, n)"
  using frame_roundtrip [of "\<lparr>fc_max_packet_size = 4, fc_source_mac = [2, 0, 0, 0, 0, 1], fc_interface_address = [10, 0, 0, 1],
      fc_address = [239, 129, 2, 3], fc_ttl = 1, fc_source_port = 5000, fc_port = 8888\<rparr>" "replicate 46 0" "[[1, 2, 3, 4], []]" "[7, 8]"]
  by (simp add: wf_config_def)

end
