(* ===== verification/SendStream.thy ===== *)
theory SendStream
  imports HeapPackets Complex_Main
begin

text \<open>
  The sending stream: \<^verbatim>\<open>send_stream.h\<close> and \<^verbatim>\<open>send_stream.cpp\<close>.  Heaps wait in a circular queue; the callback
  \<^verbatim>\<open>do_next\<close> cuts them into packets, hands batches of packets to the transport, paces them, and posts
  the completion handlers.  This theory holds the definitions of the code and the system of threads and
  callbacks that run it; the theory SendStreamSafety proves what they do.

  Conventions.  A finite \<^verbatim>\<open>double\<close> is the rational number it denotes, and rounding of its
  arithmetic is not modelled.  Times are integers, in ticks of the clock.  A pointer to an item of the queue is the index of its slot,
  and a slot that is \<open>None\<close> is raw storage.  The handlers of the user are values of a type variable;
  posting one to the \<^verbatim>\<open>io_service\<close> appends to a list.
\<close>

section \<open>Configuration\<close>

datatype double = Finite rat | Positive_infinity | Negative_infinity | NaN

fun isfinite :: "double \<Rightarrow> bool" where
  "isfinite (Finite x) \<longleftrightarrow> True"
| "isfinite _ \<longleftrightarrow> False"

text \<open>The comparison \<^verbatim>\<open>x < y\<close> with a finite \<open>y\<close>; a comparison with a NaN is false.\<close>

fun double_less :: "double \<Rightarrow> rat \<Rightarrow> bool" where
  "double_less (Finite x) y \<longleftrightarrow> x < y"
| "double_less Negative_infinity y \<longleftrightarrow> True"
| "double_less _ y \<longleftrightarrow> False"

fun finite_part :: "double \<Rightarrow> rat" where
  "finite_part (Finite x) = x"
| "finite_part _ = 0"

record stream_config =
  sc_max_packet_size :: nat
  sc_rate :: rat
  sc_burst_size :: nat
  sc_max_heaps :: nat
  sc_burst_rate_ratio :: rat

definition default_stream_config :: stream_config where
  "default_stream_config =
     \<lparr>sc_max_packet_size = 1472, sc_rate = 0, sc_burst_size = 65536, sc_max_heaps = 4,
      sc_burst_rate_ratio = 105 / 100\<rparr>"

definition set_max_packet_size :: "nat \<Rightarrow> stream_config \<Rightarrow> stream_config" where
  "set_max_packet_size max_packet_size c = c\<lparr>sc_max_packet_size := max_packet_size\<rparr>"

definition set_rate :: "double \<Rightarrow> stream_config \<Rightarrow> fault + stream_config" where
  "set_rate rate c =
     (if double_less rate 0 \<or> \<not> isfinite rate then Inl (Exception ''rate must be non-negative'')
      else Inr (c\<lparr>sc_rate := finite_part rate\<rparr>))"

definition set_max_heaps :: "nat \<Rightarrow> stream_config \<Rightarrow> fault + stream_config" where
  "set_max_heaps max_heaps c =
     (if max_heaps = 0 then Inl (Exception ''max_heaps must be positive'')
      else Inr (c\<lparr>sc_max_heaps := max_heaps\<rparr>))"

definition set_burst_size :: "nat \<Rightarrow> stream_config \<Rightarrow> stream_config" where
  "set_burst_size burst_size c = c\<lparr>sc_burst_size := burst_size\<rparr>"

definition set_burst_rate_ratio :: "double \<Rightarrow> stream_config \<Rightarrow> fault + stream_config" where
  "set_burst_rate_ratio ratio c =
     (if double_less ratio 1 \<or> \<not> isfinite ratio
      then Inl (Exception ''burst rate ratio must be at least 1.0 and finite'')
      else Inr (c\<lparr>sc_burst_rate_ratio := finite_part ratio\<rparr>))"

definition get_burst_rate :: "stream_config \<Rightarrow> rat" where
  "get_burst_rate c = sc_rate c * sc_burst_rate_ratio c"

definition make_stream_config :: "nat \<Rightarrow> double \<Rightarrow> nat \<Rightarrow> nat \<Rightarrow> double \<Rightarrow> fault + stream_config" where
  "make_stream_config max_packet_size rate burst_size max_heaps ratio =
     (let c = set_max_packet_size max_packet_size default_stream_config in
      bind_result (set_rate rate c) (\<lambda>c.
      bind_result (set_max_heaps max_heaps (set_burst_size burst_size c)) (\<lambda>c.
      set_burst_rate_ratio ratio c)))"

section \<open>State\<close>

datatype error_code = Success | Would_block | Invalid_argument | Operation_aborted | Eof | Other_error int

datatype state_t = QUEUED | SENDING | SLEEPING | EMPTY

record 'h queue_item =
  qi_h :: send_heap
  qi_cnt :: item_pointer_t
  qi_handler :: 'h
  qi_bytes_sent :: item_pointer_t

record transmit_packet =
  tp_pkt :: send_packet
  tp_size :: nat
  tp_last :: bool
  tp_item :: nat
  tp_result :: error_code

text \<open>
  Handlers posted to the \<^verbatim>\<open>io_service\<close> with the arguments they are called with: by
  \<^verbatim>\<open>async_send_heap\<close> for a heap it refuses, and by \<^verbatim>\<open>post_handler\<close> for a heap of the queue.
\<close>

datatype 'h posted = Refused 'h error_code | Completed 'h error_code item_pointer_t

text \<open>
  The first \<^verbatim>\<open>n_current_packets\<close> elements of \<^verbatim>\<open>current_packets\<close> are the list
  \<open>ss_current_packets\<close>.
\<close>

record 'h send_stream =
  ss_current_packets :: "transmit_packet list"
  ss_max_current_packets :: nat
  ss_config :: stream_config
  ss_queue :: "'h queue_item option list"
  ss_queue_head :: nat
  ss_queue_tail :: nat
  ss_active :: nat
  ss_state :: state_t
  ss_send_time_burst :: int
  ss_send_time :: int
  ss_rate_bytes :: "64 word"
  ss_next_cnt :: item_pointer_t
  ss_step_cnt :: item_pointer_t
  ss_gen :: "packet_generator option"
  ss_posted :: "'h posted list"

definition seconds_per_byte_burst :: "'h send_stream \<Rightarrow> rat" where
  "seconds_per_byte_burst s =
     (let r = get_burst_rate (ss_config s) in if r > 0 then 1 / r else 0)"

definition seconds_per_byte :: "'h send_stream \<Rightarrow> rat" where
  "seconds_per_byte s = (let r = sc_rate (ss_config s) in if r > 0 then 1 / r else 0)"

definition make_send_stream :: "stream_config \<Rightarrow> nat \<Rightarrow> 'h send_stream" where
  "make_send_stream config max_current_packets =
     \<lparr>ss_current_packets = [], ss_max_current_packets = max_current_packets, ss_config = config,
      ss_queue = replicate (sc_max_heaps config + 1) None, ss_queue_head = 0, ss_queue_tail = 0,
      ss_active = 0, ss_state = EMPTY, ss_send_time_burst = 0, ss_send_time = 0, ss_rate_bytes = 0,
      ss_next_cnt = 1, ss_step_cnt = 1, ss_gen = None, ss_posted = []\<rparr>"

section \<open>The queue\<close>

definition next_queue_slot :: "'h send_stream \<Rightarrow> nat \<Rightarrow> nat" where
  "next_queue_slot s cur = (if cur + 1 = sc_max_heaps (ss_config s) + 1 then 0 else cur + 1)"

text \<open>Access to an item through \<^verbatim>\<open>get_queue\<close>: a fault if the slot holds no item.\<close>

definition get_queue :: "nat \<Rightarrow> 'h send_stream \<Rightarrow> fault + 'h queue_item" where
  "get_queue idx s =
     (if idx < length (ss_queue s)
      then (case ss_queue s ! idx of None \<Rightarrow> Inl Null_dereference | Some it \<Rightarrow> Inr it)
      else Inl Out_of_bounds)"

definition next_active :: "'h send_stream \<Rightarrow> 'h send_stream" where
  "next_active s = s\<lparr>ss_active := next_queue_slot s (ss_active s), ss_gen := None\<rparr>"

definition post_handler :: "error_code \<Rightarrow> 'h send_stream \<Rightarrow> fault + 'h send_stream" where
  "post_handler result s =
     bind_result (get_queue (ss_queue_head s) s) (\<lambda>front.
     let s1 = s\<lparr>ss_posted := ss_posted s @ [Completed (qi_handler front) result (qi_bytes_sent front)]\<rparr> in
     bind_result
       (if ss_active s1 = ss_queue_head s1
        then (if result = Success then Inl Assertion_failed else Inr (next_active s1))
        else Inr s1) (\<lambda>s2.
     Inr (s2\<lparr>ss_queue := (ss_queue s2)[ss_queue_head s2 := None],
             ss_queue_head := next_queue_slot s2 (ss_queue_head s2)\<rparr>)))"

definition must_sleep :: "'h send_stream \<Rightarrow> bool" where
  "must_sleep s \<longleftrightarrow> unat (ss_rate_bytes s) \<ge> sc_burst_size (ss_config s)"

text \<open>The body of the loop of \<^verbatim>\<open>process_results\<close>.\<close>

definition process_result :: "transmit_packet \<Rightarrow> 'h send_stream \<Rightarrow> fault + 'h send_stream" where
  "process_result item s =
     (if tp_item item \<noteq> ss_queue_head s then Inr s
      else if tp_result item \<noteq> Success then post_handler (tp_result item) s
      else
        bind_result (get_queue (tp_item item) s) (\<lambda>it.
        let it1 = it\<lparr>qi_bytes_sent := qi_bytes_sent it + word_of_nat (tp_size item)\<rparr>;
            s1 = s\<lparr>ss_queue := (ss_queue s)[tp_item item := Some it1]\<rparr>
        in if tp_last item then post_handler (tp_result item) s1 else Inr s1))"

definition process_results :: "'h send_stream \<Rightarrow> fault + 'h send_stream" where
  "process_results s =
     bind_result (fold_result process_result (ss_current_packets s) s) (\<lambda>s1.
     Inr (s1\<lparr>ss_current_packets := []\<rparr>))"

section \<open>Pacing\<close>

text \<open>
  \<^verbatim>\<open>duration_cast\<close> from seconds to the ticks of a nanosecond clock truncates towards zero.
\<close>

definition ticks_per_second :: rat where
  "ticks_per_second = 1000000000"

definition duration_cast :: "rat \<Rightarrow> int" where
  "duration_cast seconds =
     (if seconds < 0 then \<lceil>seconds * ticks_per_second\<rceil> else \<lfloor>seconds * ticks_per_second\<rfloor>)"

definition update_send_times :: "int \<Rightarrow> 'h send_stream \<Rightarrow> int \<times> 'h send_stream" where
  "update_send_times now s =
     (let bytes = of_nat (unat (ss_rate_bytes s));
          wait_burst = bytes * seconds_per_byte_burst s;
          wait = bytes * seconds_per_byte s;
          send_time_burst = ss_send_time_burst s + duration_cast wait_burst;
          send_time = ss_send_time s + duration_cast wait;
          target_time = max send_time_burst send_time
      in (target_time,
          s\<lparr>ss_send_time_burst := max now target_time, ss_send_time := send_time, ss_rate_bytes := 0\<rparr>))"

definition update_send_time_empty :: "int \<Rightarrow> 'h send_stream \<Rightarrow> 'h send_stream" where
  "update_send_time_empty now s =
     (let wait = of_nat (unat (ss_rate_bytes s)) * seconds_per_byte s;
          backdate = now - duration_cast wait
      in s\<lparr>ss_send_time := max (ss_send_time s) backdate\<rparr>)"

section \<open>Loading packets\<close>

definition packet_size :: "send_packet \<Rightarrow> nat" where
  "packet_size p = sum_list (map length (sp_buffers p))"

text \<open>One iteration of the loop of \<^verbatim>\<open>load_packets\<close>.\<close>

definition load_packet :: "'h send_stream \<Rightarrow> fault + 'h send_stream" where
  "load_packet s =
     bind_result (get_queue (ss_active s) s) (\<lambda>cur.
     bind_result
       (case ss_gen s of
          None \<Rightarrow> make_packet_generator (qi_h cur) (qi_cnt cur) (sc_max_packet_size (ss_config s))
        | Some g \<Rightarrow> Inr g) (\<lambda>gen.
     if \<not> has_next_packet gen then Inl Assertion_failed
     else
       bind_result (next_packet gen) (\<lambda>(pkt, gen1).
       let data = \<lparr>tp_pkt = pkt, tp_size = packet_size pkt, tp_last = \<not> has_next_packet gen1,
                   tp_item = ss_active s, tp_result = Success\<rparr>;
           s1 = s\<lparr>ss_gen := Some gen1, ss_current_packets := ss_current_packets s @ [data],
                  ss_rate_bytes := ss_rate_bytes s + word_of_nat (tp_size data)\<rparr>
       in Inr (if tp_last data then next_active s1 else s1))))"

text \<open>Every iteration adds a packet, so \<^verbatim>\<open>max_current_packets\<close> bounds the number of iterations.\<close>

fun load_loop :: "nat \<Rightarrow> nat \<Rightarrow> 'h send_stream \<Rightarrow> fault + 'h send_stream" where
  "load_loop 0 tail s = Inr s"
| "load_loop (Suc k) tail s =
     (if must_sleep s \<or> ss_active s = tail then Inr s
      else bind_result (load_packet s) (load_loop k tail))"

definition load_packets :: "nat \<Rightarrow> 'h send_stream \<Rightarrow> fault + 'h send_stream" where
  "load_packets tail s =
     load_loop (ss_max_current_packets s) tail (s\<lparr>ss_current_packets := []\<rparr>)"

section \<open>The state machine\<close>

text \<open>
  What \<^verbatim>\<open>do_next\<close> does before it releases the mutex for good: it starts the timer, finds the queue empty, or
  goes on to load packets up to the tail it has read.
\<close>

datatype next_action = Start_timer int | Became_empty | Load_up_to nat

definition do_next_tail :: "int \<Rightarrow> 'h send_stream \<Rightarrow> next_action \<times> 'h send_stream" where
  "do_next_tail now s =
     (let (target_time, s1) = (if must_sleep s then update_send_times now s else (now, s)) in
      if now < target_time then (Start_timer target_time, s1\<lparr>ss_state := SLEEPING\<rparr>)
      else if ss_queue_head s1 = ss_queue_tail s1 then (Became_empty, s1\<lparr>ss_state := EMPTY\<rparr>)
      else (Load_up_to (ss_queue_tail s1), s1\<lparr>ss_state := SENDING\<rparr>))"

definition do_next_locked :: "int \<Rightarrow> int \<Rightarrow> 'h send_stream \<Rightarrow> fault + (next_action \<times> 'h send_stream)" where
  "do_next_locked now_empty now s =
     bind_result
       (case ss_state s of
          SENDING \<Rightarrow> process_results s
        | QUEUED \<Rightarrow> Inr (update_send_time_empty now_empty s)
        | _ \<Rightarrow> Inr s) (\<lambda>s1.
     if ss_active s1 \<noteq> ss_queue_head s1 then Inl Assertion_failed
     else Inr (do_next_tail now s1))"

text \<open>The rest, without the mutex: the packets are then in \<open>ss_current_packets\<close> for the transport.\<close>

definition do_next_send :: "nat \<Rightarrow> 'h send_stream \<Rightarrow> fault + 'h send_stream" where
  "do_next_send tail s =
     bind_result (load_packets tail s) (\<lambda>s1.
     if ss_current_packets s1 = [] then Inl Assertion_failed else Inr s1)"

text \<open>
  \<^verbatim>\<open>async_send_heap\<close>: whether the heap is accepted, and whether a call of \<^verbatim>\<open>do_next\<close> is dispatched.
\<close>

definition async_send_heap ::
  "send_heap \<Rightarrow> 'h \<Rightarrow> s_item_pointer_t \<Rightarrow> 'h send_stream \<Rightarrow> bool \<times> bool \<times> 'h send_stream" where
  "async_send_heap h handler cnt s =
     (let new_tail = next_queue_slot s (ss_queue_tail s);
          cnt_mask = push_bit (fl_heap_address_bits (sh_flavour h)) 1 - 1 :: item_pointer_t
      in if new_tail = ss_queue_head s then
           (False, False, s\<lparr>ss_posted := ss_posted s @ [Refused handler Would_block]\<rparr>)
         else if 0 \<le> cnt \<and> (word_of_int cnt :: item_pointer_t) > cnt_mask then
           (False, False, s\<lparr>ss_posted := ss_posted s @ [Refused handler Invalid_argument]\<rparr>)
         else
           (let (c, s1) = (if cnt < 0 then (ss_next_cnt s AND cnt_mask, s\<lparr>ss_next_cnt := ss_next_cnt s + ss_step_cnt s\<rparr>)
                           else (word_of_int cnt, s));
                item = \<lparr>qi_h = h, qi_cnt = c, qi_handler = handler, qi_bytes_sent = 0\<rparr>;
                s2 = s1\<lparr>ss_queue := (ss_queue s1)[ss_queue_tail s1 := Some item], ss_queue_tail := new_tail\<rparr>
            in if ss_state s2 = EMPTY then (True, True, s2\<lparr>ss_state := QUEUED\<rparr>)
               else (True, False, s2)))"

definition set_cnt_sequence ::
  "item_pointer_t \<Rightarrow> item_pointer_t \<Rightarrow> 'h send_stream \<Rightarrow> fault + 'h send_stream" where
  "set_cnt_sequence n step s =
     (if step = 0 then Inl (Exception ''step cannot be 0'')
      else Inr (s\<lparr>ss_next_cnt := n, ss_step_cnt := step\<rparr>))"

text \<open>\<^verbatim>\<open>flush\<close> waits for the condition that it returns under.\<close>

definition flush_returns :: "'h send_stream \<Rightarrow> bool" where
  "flush_returns s \<longleftrightarrow> ss_state s = EMPTY"

text \<open>The destructor, with the number of slots as fuel for its loop.\<close>

fun destroy_queue :: "nat \<Rightarrow> nat \<Rightarrow> 'h send_stream \<Rightarrow> fault + 'h send_stream" where
  "destroy_queue fuel i s =
     (if i = ss_queue_tail s then Inr s
      else case fuel of
        0 \<Rightarrow> Inl Loop_overrun
      | Suc k \<Rightarrow>
          bind_result (get_queue i s) (\<lambda>_.
          destroy_queue k (next_queue_slot s i) (s\<lparr>ss_queue := (ss_queue s)[i := None]\<rparr>)))"

declare destroy_queue.simps [simp del]

definition destroy_send_stream :: "'h send_stream \<Rightarrow> fault + 'h send_stream" where
  "destroy_send_stream s = destroy_queue (length (ss_queue s)) (ss_queue_head s) s"

end
