(* ===== verification/SendSystem.thy ===== *)
theory SendSystem
  imports SendStream
begin

text \<open>
  The sending stream at work: user threads that call \<^verbatim>\<open>async_send_heap\<close>, the callback \<^verbatim>\<open>do_next\<close> with its two
  critical parts, the timer and the transport, interleaved in any order.  The invariant relates
  the circular queue to the list of all heaps ever accepted, by counters that only grow: the slot of a
  heap is its number modulo the number of slots.
\<close>

section \<open>The system\<close>

text \<open>Which callback is pending.  \<^verbatim>\<open>do_next\<close> has read the tail when it starts to load packets.\<close>

datatype pending = No_callback | Do_next_pending | Timer_set int | Loading nat | Transmitting

text \<open>
  The fields after \<open>sy_now\<close>, the time, record what has happened: the heaps accepted with their
  cnts, the packets transmitted with the number of their heap and their result, the time of
  the first call of \<^verbatim>\<open>do_next\<close>, and the number of bursts accounted for by \<^verbatim>\<open>update_send_times\<close>, with their bytes.
\<close>

record 'h send_system =
  sy_stream :: "'h send_stream"
  sy_pending :: pending
  sy_now :: int
  sy_accepted :: "(send_heap \<times> item_pointer_t \<times> 'h) list"
  sy_log :: "(nat \<times> send_packet \<times> error_code) list"
  sy_start :: "int option"
  sy_bursts :: nat
  sy_paced :: nat

definition new_system :: "stream_config \<Rightarrow> nat \<Rightarrow> int \<Rightarrow> 'h send_system" where
  "new_system config max_current_packets now =
     \<lparr>sy_stream = make_send_stream config max_current_packets, sy_pending = No_callback, sy_now = now,
      sy_accepted = [], sy_log = [], sy_start = None, sy_bursts = 0, sy_paced = 0\<rparr>"

fun is_completed :: "'h posted \<Rightarrow> bool" where
  "is_completed (Completed _ _ _) \<longleftrightarrow> True"
| "is_completed (Refused _ _) \<longleftrightarrow> False"

definition completions :: "'h send_stream \<Rightarrow> 'h posted list" where
  "completions s = filter is_completed (ss_posted s)"

text \<open>The number of the heap in a slot, counting accepted heaps from zero.\<close>

definition heap_number :: "'h send_stream \<Rightarrow> nat \<Rightarrow> nat" where
  "heap_number s slot =
     length (completions s) + (slot + length (ss_queue s) - ss_queue_head s) mod length (ss_queue s)"

definition set_results :: "error_code list \<Rightarrow> transmit_packet list \<Rightarrow> transmit_packet list" where
  "set_results errs ps = map2 (\<lambda>e p. p\<lparr>tp_result := e\<rparr>) errs ps"

definition log_entries :: "'h send_stream \<Rightarrow> transmit_packet list \<Rightarrow> (nat \<times> send_packet \<times> error_code) list" where
  "log_entries s ps = map (\<lambda>p. (heap_number s (tp_item p), tp_pkt p, tp_result p)) ps"

text \<open>
  Events carry what is not determined by the state: the arguments of the user, the readings of the
  clock, and the results of the transport.
\<close>

datatype 'h send_event =
    Send_heap send_heap 'h s_item_pointer_t
  | Set_cnt item_pointer_t item_pointer_t
  | Do_next int int
  | Load_and_send
  | Transport_done "error_code list"

fun pending_of :: "next_action \<Rightarrow> pending" where
  "pending_of (Start_timer t) = Timer_set t"
| "pending_of Became_empty = No_callback"
| "pending_of (Load_up_to t) = Loading t"

fun do_next_due :: "int \<Rightarrow> pending \<Rightarrow> bool" where
  "do_next_due now Do_next_pending \<longleftrightarrow> True"
| "do_next_due now (Timer_set t) \<longleftrightarrow> t \<le> now"
| "do_next_due now _ \<longleftrightarrow> False"

definition step_send :: "send_heap \<Rightarrow> 'h \<Rightarrow> s_item_pointer_t \<Rightarrow> 'h send_system \<Rightarrow> 'h send_system" where
  "step_send h handler cnt sys =
     (case async_send_heap h handler cnt (sy_stream sys) of
        (accepted, dispatched, s) \<Rightarrow>
          sys\<lparr>sy_stream := s,
              sy_pending := (if dispatched then Do_next_pending else sy_pending sys),
              sy_accepted := sy_accepted sys @
                (if accepted
                 then (case ss_queue s ! ss_queue_tail (sy_stream sys) of
                         Some it \<Rightarrow> [(qi_h it, qi_cnt it, qi_handler it)] | None \<Rightarrow> [])
                 else [])\<rparr>)"

definition step_do_next :: "int \<Rightarrow> int \<Rightarrow> 'h send_system \<Rightarrow> fault + 'h send_system" where
  "step_do_next now_empty now sys =
     bind_result (do_next_locked now_empty now (sy_stream sys)) (\<lambda>(action, s).
     let slept = must_sleep (sy_stream sys) in
     Inr (sys\<lparr>sy_stream := s, sy_pending := pending_of action, sy_now := now,
              sy_start := (case sy_start sys of None \<Rightarrow> Some now_empty | Some t \<Rightarrow> Some t),
              sy_bursts := sy_bursts sys + of_bool slept,
              sy_paced := sy_paced sys + (if slept then unat (ss_rate_bytes (sy_stream sys)) else 0)\<rparr>))"

definition step_transport :: "error_code list \<Rightarrow> 'h send_system \<Rightarrow> 'h send_system" where
  "step_transport errs sys =
     (let s = sy_stream sys; ps = set_results errs (ss_current_packets s) in
      sys\<lparr>sy_stream := s\<lparr>ss_current_packets := ps\<rparr>, sy_pending := Do_next_pending,
          sy_log := sy_log sys @ log_entries s ps\<rparr>)"

text \<open>\<open>None\<close> if the event cannot happen in the state.\<close>

fun system_step :: "'h send_event \<Rightarrow> 'h send_system \<Rightarrow> (fault + 'h send_system) option" where
  "system_step (Send_heap h handler cnt) sys = Some (Inr (step_send h handler cnt sys))"
| "system_step (Set_cnt n step) sys =
     Some (case set_cnt_sequence n step (sy_stream sys) of
             Inl _ \<Rightarrow> Inr sys | Inr s \<Rightarrow> Inr (sys\<lparr>sy_stream := s\<rparr>))"
| "system_step (Do_next now_empty now) sys =
     (if do_next_due now_empty (sy_pending sys) \<and> sy_now sys \<le> now_empty \<and> now_empty \<le> now
      then Some (step_do_next now_empty now sys) else None)"
| "system_step Load_and_send sys =
     (case sy_pending sys of
        Loading t \<Rightarrow> Some (bind_result (do_next_send t (sy_stream sys)) (\<lambda>s.
                       Inr (sys\<lparr>sy_stream := s, sy_pending := Transmitting\<rparr>)))
      | _ \<Rightarrow> None)"
| "system_step (Transport_done errs) sys =
     (if sy_pending sys = Transmitting \<and> length errs = length (ss_current_packets (sy_stream sys))
      then Some (Inr (step_transport errs sys)) else None)"

fun system_run :: "'h send_event list \<Rightarrow> 'h send_system \<Rightarrow> (fault + 'h send_system) option" where
  "system_run [] sys = Some (Inr sys)"
| "system_run (ev # evs) sys =
     (case system_step ev sys of
        None \<Rightarrow> None
      | Some (Inl e) \<Rightarrow> Some (Inl e)
      | Some (Inr sys1) \<Rightarrow> system_run evs sys1)"

section \<open>What heaps and transmissions mean\<close>

text \<open>The packets that a generator has left, and those of a heap.\<close>

definition gen_rest :: "packet_generator \<Rightarrow> send_packet list" where
  "gen_rest g = (case all_packets (pg_payload_size g) g of Inl _ \<Rightarrow> [] | Inr ps \<Rightarrow> ps)"

definition heap_packets :: "nat \<Rightarrow> send_heap \<Rightarrow> item_pointer_t \<Rightarrow> send_packet list" where
  "heap_packets m h cnt =
     (case make_packet_generator h cnt m of Inl _ \<Rightarrow> [] | Inr g \<Rightarrow> gen_rest g)"

type_synonym 'h accepted = "(send_heap \<times> item_pointer_t \<times> 'h) list"

definition packets_of :: "nat \<Rightarrow> 'h accepted \<Rightarrow> nat \<Rightarrow> send_packet list" where
  "packets_of m acc k = (if k < length acc then (case acc ! k of (h, cnt, _) \<Rightarrow> heap_packets m h cnt) else [])"

text \<open>Heaps that the generator can cut, and configurations with room for a burst.\<close>

definition heap_good :: "nat \<Rightarrow> send_heap \<Rightarrow> bool" where
  "heap_good m h \<longleftrightarrow> sendable h 0 \<and> (sh_repeat_pointers h \<longrightarrow> length (sh_items h) < (m - 48) div 8)"

definition config_good :: "stream_config \<Rightarrow> bool" where
  "config_good c \<longleftrightarrow> 0 < sc_burst_size c \<and> 0 < sc_max_heaps c \<and>
     sc_max_packet_size c mod 8 = 0 \<and> 56 \<le> sc_max_packet_size c"

fun event_good :: "nat \<Rightarrow> 'h send_event \<Rightarrow> bool" where
  "event_good m (Send_heap h _ _) \<longleftrightarrow> heap_good m h"
| "event_good m _ \<longleftrightarrow> True"

text \<open>The transmissions of heap number \<open>k\<close>.\<close>

definition log_of :: "nat \<Rightarrow> (nat \<times> send_packet \<times> error_code) list \<Rightarrow> (send_packet \<times> error_code) list" where
  "log_of k sent = map snd (filter (\<lambda>e. fst e = k) sent)"

definition total_size :: "send_packet list \<Rightarrow> nat" where
  "total_size ps = sum_list (map packet_size ps)"

text \<open>
  The result that the transmissions \<open>es\<close> of a heap with packets \<open>ps\<close> deserve: the first error, or
  success when all packets were sent; the bytes are those of the packets before the first error.
\<close>

definition result_right :: "send_packet list \<Rightarrow> (send_packet \<times> error_code) list \<Rightarrow> error_code \<Rightarrow> item_pointer_t \<Rightarrow> bool" where
  "result_right ps es err bytes \<longleftrightarrow>
     (let good = takeWhile (\<lambda>e. snd e = Success) es in
      map fst es = take (length es) ps \<and> bytes = word_of_nat (total_size (map fst good)) \<and>
      (if length good < length es then err = snd (es ! length good)
       else err = Success \<and> map fst es = ps))"

section \<open>The invariant\<close>

text \<open>
  \<open>batch_ok P n N k j xs a ja\<close>: the packets \<open>xs\<close> continue the heaps from packet \<open>j\<close> of heap
  \<open>k\<close> to packet \<open>ja\<close> of heap \<open>a\<close>, out of \<open>n\<close> heaps with packets \<open>P\<close>, in \<open>N\<close> slots.
\<close>

fun batch_ok :: "(nat \<Rightarrow> send_packet list) \<Rightarrow> nat \<Rightarrow> nat \<Rightarrow> nat \<Rightarrow> nat \<Rightarrow> transmit_packet list \<Rightarrow> nat \<Rightarrow> nat \<Rightarrow> bool" where
  "batch_ok P n N k j [] a ja \<longleftrightarrow> k = a \<and> j = ja"
| "batch_ok P n N k j (x # xs) a ja \<longleftrightarrow>
     k < n \<and> j < length (P k) \<and> tp_pkt x = P k ! j \<and> tp_size x = packet_size (P k ! j) \<and>
     tp_item x = k mod N \<and> (tp_last x \<longleftrightarrow> Suc j = length (P k)) \<and>
     (if Suc j = length (P k) then batch_ok P n N (Suc k) 0 xs a ja else batch_ok P n N k (Suc j) xs a ja)"

definition position_in :: "(nat \<Rightarrow> send_packet list) \<Rightarrow> nat \<Rightarrow> nat \<Rightarrow> nat \<Rightarrow> bool" where
  "position_in P n k j \<longleftrightarrow> k < n \<and> j < length (P k) \<or> k = n \<and> j = 0"

definition gen_at :: "(nat \<Rightarrow> send_packet list) \<Rightarrow> nat \<Rightarrow> nat \<Rightarrow> packet_generator option \<Rightarrow> bool" where
  "gen_at P a ja gen \<longleftrightarrow>
     (case gen of None \<Rightarrow> ja = 0
      | Some g \<Rightarrow> gen_inv g \<and> has_next_packet g \<and> gen_rest g = drop ja (P a))"

definition slots_ok :: "'h accepted \<Rightarrow> nat \<Rightarrow> 'h send_stream \<Rightarrow> bool" where
  "slots_ok acc d s \<longleftrightarrow>
     (let N = length (ss_queue s) in
      N = sc_max_heaps (ss_config s) + 1 \<and> d \<le> length acc \<and> length acc < d + N \<and>
      ss_queue_head s = d mod N \<and> ss_queue_tail s = length acc mod N \<and>
      (\<forall>k. d \<le> k \<and> k < length acc \<longrightarrow>
        (\<exists>it. ss_queue s ! (k mod N) = Some it \<and> acc ! k = (qi_h it, qi_cnt it, qi_handler it) \<and>
          (d < k \<longrightarrow> qi_bytes_sent it = 0))))"

text \<open>Heaps before \<open>d\<close> are completed, \<open>j\<close> packets of heap \<open>d\<close> have been sent and none of a later one.\<close>

definition progress_ok :: "(nat \<Rightarrow> send_packet list) \<Rightarrow> 'h accepted \<Rightarrow> nat \<Rightarrow> nat \<Rightarrow>
    (nat \<times> send_packet \<times> error_code) list \<Rightarrow> 'h send_stream \<Rightarrow> bool" where
  "progress_ok P acc d j sent s \<longleftrightarrow>
     length (completions s) = d \<and>
     (\<forall>k < d. \<exists>err bytes. completions s ! k = Completed (snd (snd (acc ! k))) err bytes \<and>
        result_right (P k) (log_of k sent) err bytes) \<and>
     log_of d sent = map (\<lambda>p. (p, Success)) (take j (P d)) \<and> (\<forall>k > d. log_of k sent = []) \<and>
     (d < length acc \<longrightarrow> (\<exists>it. ss_queue s ! ss_queue_head s = Some it \<and>
        qi_bytes_sent it = word_of_nat (total_size (take j (P d)))))"

definition core_inv :: "(nat \<Rightarrow> send_packet list) \<Rightarrow> 'h accepted \<Rightarrow> (nat \<times> send_packet \<times> error_code) list \<Rightarrow>
    nat \<Rightarrow> nat \<Rightarrow> nat \<Rightarrow> nat \<Rightarrow> 'h send_stream \<Rightarrow> bool" where
  "core_inv P acc sent d j a ja s \<longleftrightarrow>
     slots_ok acc d s \<and> progress_ok P acc d j sent s \<and> gen_at P a ja (ss_gen s) \<and>
     ss_active s = a mod length (ss_queue s) \<and> d \<le> a \<and>
     position_in P (length acc) d j \<and> position_in P (length acc) a ja"

text \<open>The results of the transport are in, and not yet processed.\<close>

definition results_in :: "'h send_system \<Rightarrow> bool" where
  "results_in sys \<longleftrightarrow> sy_pending sys = Do_next_pending \<and> ss_state (sy_stream sys) = SENDING"

text \<open>The log entries of a batch that starts at packet \<open>jc\<close> of heap \<open>c\<close>.\<close>

definition advance :: "(nat \<Rightarrow> send_packet list) \<Rightarrow> nat \<times> nat \<Rightarrow> nat \<times> nat" where
  "advance P = (\<lambda>(k, j). if Suc j = length (P k) then (Suc k, 0) else (k, Suc j))"

fun numbered :: "(nat \<Rightarrow> send_packet list) \<Rightarrow> nat \<Rightarrow> nat \<Rightarrow> transmit_packet list \<Rightarrow> (nat \<times> send_packet \<times> error_code) list" where
  "numbered P c jc [] = []"
| "numbered P c jc (x # xs) =
     (c, tp_pkt x, tp_result x) # numbered P (fst (advance P (c, jc))) (snd (advance P (c, jc))) xs"

text \<open>The states of the stream that go with the pending callback, when heaps before \<open>d\<close> are completed.\<close>

fun pending_ok :: "nat \<Rightarrow> nat \<Rightarrow> 'h send_stream \<Rightarrow> pending \<Rightarrow> bool" where
  "pending_ok d n s No_callback \<longleftrightarrow> ss_state s = EMPTY \<and> d = n \<and> ss_current_packets s = []"
| "pending_ok d n s Do_next_pending \<longleftrightarrow> ss_state s = QUEUED \<and> ss_current_packets s = [] \<or> ss_state s = SENDING"
| "pending_ok d n s (Timer_set t) \<longleftrightarrow> ss_state s = SLEEPING \<and> ss_current_packets s = [] \<and> \<not> must_sleep s"
| "pending_ok d n s (Loading t) \<longleftrightarrow> ss_state s = SENDING \<and> ss_current_packets s = [] \<and> \<not> must_sleep s \<and>
     (\<exists>T. d < T \<and> T \<le> n \<and> t = T mod length (ss_queue s))"
| "pending_ok d n s Transmitting \<longleftrightarrow> ss_state s = SENDING \<and> ss_current_packets s \<noteq> []"

definition at_position :: "nat \<Rightarrow> 'h send_system \<Rightarrow> nat \<Rightarrow> nat \<Rightarrow> nat \<Rightarrow> nat \<Rightarrow> bool" where
  "at_position m sys d j a ja \<longleftrightarrow>
     (let s = sy_stream sys; acc = sy_accepted sys; P = packets_of m acc in
      batch_ok P (length acc) (length (ss_queue s)) d j (ss_current_packets s) a ja \<and>
      pending_ok d (length acc) s (sy_pending sys) \<and>
      (\<exists>sent. core_inv P acc sent d j a ja s \<and>
        sy_log sys = sent @ (if results_in sys then numbered P d j (ss_current_packets s) else [])))"

definition accepted_good :: "nat \<Rightarrow> 'h accepted \<Rightarrow> bool" where
  "accepted_good m acc \<longleftrightarrow>
     m mod 8 = 0 \<and> 56 \<le> m \<and> (\<forall>(h, cnt, _) \<in> set acc. heap_good m h \<and> unat cnt < 2 ^ heap_bits h)"

definition setup_ok :: "nat \<Rightarrow> 'h send_system \<Rightarrow> bool" where
  "setup_ok m sys \<longleftrightarrow>
     accepted_good m (sy_accepted sys) \<and> config_good (ss_config (sy_stream sys)) \<and>
     sc_max_packet_size (ss_config (sy_stream sys)) = m \<and> 0 < ss_max_current_packets (sy_stream sys)"

definition system_inv :: "nat \<Rightarrow> 'h send_system \<Rightarrow> bool" where
  "system_inv m sys \<longleftrightarrow> setup_ok m sys \<and> (\<exists>d j a ja. at_position m sys d j a ja)"

end
