(* ===== verification/SendProgress.thy ===== *)
theory SendProgress
  imports SendSystem
begin

text \<open>
  What the sending stream does: the invariant of SendSystem is kept by every event, so no assertion
  fails, handlers are called in order with the right results, every heap is sent in a bounded
  number of steps, and the rate is respected.
\<close>

section \<open>Generators and the packets of a heap\<close>

lemma all_packets_fuel:
  assumes "gen_inv g" "pg_payload_size g - pg_payload_offset g \<le> f" "pg_payload_size g - pg_payload_offset g \<le> f'"
  shows "all_packets f g = all_packets f' g"
  using assms
proof (induction f arbitrary: g f')
  case 0
  then show ?case by (cases f') (auto simp: has_next_packet_def)
next
  case (Suc f)
  show ?case
  proof (cases "has_next_packet g")
    case True
    then obtain k where k: "f' = Suc k" using Suc.prems by (cases f') (auto simp: has_next_packet_def)
    have st: "gen_static g" using Suc.prems by (simp add: gen_inv_def)
    obtain p g' where n: "next_packet g = Inr (p, g')" "gen_inv g'"
        "pg_payload_offset g' = pg_payload_offset g + n_bytes g" "pg_payload_size g' = pg_payload_size g"
      using next_packet_ok [OF Suc.prems(1) True refl] by metis
    have "all_packets f g' = all_packets k g'"
      using Suc.prems n n_bytes_facts(1) [OF st True] k by (intro Suc.IH) auto
    with n k True show ?thesis by simp
  next
    case False
    then show ?thesis by (cases f') simp_all
  qed
qed

lemma gen_rest_end: "\<not> has_next_packet g \<Longrightarrow> gen_rest g = []"
  by (cases "pg_payload_size g") (simp_all add: gen_rest_def)

lemma gen_rest_step:
  assumes inv: "gen_inv g" and more: "has_next_packet g"
  obtains p g' where "next_packet g = Inr (p, g')" "gen_inv g'" "gen_rest g = p # gen_rest g'"
proof -
  have st: "gen_static g" using inv by (simp add: gen_inv_def)
  obtain p g' where n: "next_packet g = Inr (p, g')" "gen_inv g'"
      "pg_payload_offset g' = pg_payload_offset g + n_bytes g" "pg_payload_size g' = pg_payload_size g"
    using next_packet_ok [OF inv more refl] by metis
  obtain f where f: "pg_payload_size g = Suc f" using more by (cases "pg_payload_size g") (auto simp: has_next_packet_def)
  have "all_packets f g' = all_packets (pg_payload_size g') g'"
    using n f n_bytes_facts(1) [OF st more] by (intro all_packets_fuel) auto
  moreover obtain ps where "all_packets (pg_payload_size g') g' = Inr ps"
    using all_packets_ok [OF n(2), of "pg_payload_size g'" "heap_bits (pg_h g')"] by auto
  ultimately have "gen_rest g = p # gen_rest g'" using more n(1) f by (simp add: gen_rest_def)
  with n(1,2) show ?thesis by (rule that)
qed

lemma gen_rest_more: "gen_inv g \<Longrightarrow> gen_rest g \<noteq> [] \<longleftrightarrow> has_next_packet g"
  using gen_rest_end gen_rest_step by (metis list.distinct(1))

lemma heap_packets_ok:
  assumes "m mod 8 = 0" "56 \<le> m" "heap_good m h" "unat cnt < 2 ^ heap_bits h"
  obtains g where "make_packet_generator h cnt m = Inr g" "gen_inv g" "has_next_packet g"
    "gen_rest g = heap_packets m h cnt"
proof -
  have "sendable h cnt" using assms by (auto simp: heap_good_def sendable_def)
  then obtain g where g: "make_packet_generator h cnt m = Inr g" "gen_inv g" "pg_payload_offset g = 0"
    using make_packet_generator_ok [of h cnt m] assms by (metis heap_good_def)
  moreover have "has_next_packet g"
    using g gen_static_facts(4) by (auto simp: has_next_packet_def gen_inv_def)
  ultimately show ?thesis by (intro that) (auto simp: heap_packets_def)
qed

lemma accepted_packets:
  assumes "accepted_good m acc" "k < length acc" "acc ! k = (h, cnt, handler)"
  obtains g where "make_packet_generator h cnt m = Inr g" "gen_inv g" "has_next_packet g"
    "gen_rest g = packets_of m acc k" "packets_of m acc k \<noteq> []"
proof -
  have "(h, cnt, handler) \<in> set acc" using assms(2,3) by (metis nth_mem)
  then have "m mod 8 = 0" "56 \<le> m" "heap_good m h" "unat cnt < 2 ^ heap_bits h"
    using assms(1) by (auto simp: accepted_good_def)
  from heap_packets_ok [OF this] obtain g where g: "make_packet_generator h cnt m = Inr g" "gen_inv g"
      "has_next_packet g" "gen_rest g = heap_packets m h cnt" .
  moreover have "packets_of m acc k = heap_packets m h cnt" using assms(2,3) by (simp add: packets_of_def)
  ultimately show ?thesis using gen_rest_more [OF g(2)] by (intro that) auto
qed

lemma packets_of_append:
  "k < length acc \<Longrightarrow> packets_of m (acc @ xs) k = packets_of m acc k"
  by (simp add: packets_of_def nth_append)

section \<open>Slots\<close>

lemma next_slot_mod:
  assumes "N = sc_max_heaps (ss_config s) + 1"
  shows "next_queue_slot s (k mod N) = Suc k mod N"
  using assms by (auto simp: next_queue_slot_def mod_Suc)

lemma mod_inj_window:
  fixes a b d N :: nat
  assumes "d \<le> a" "a < d + N" "d \<le> b" "b < d + N" "a mod N = b mod N"
  shows "a = b"
proof -
  have "a = b" if "a \<le> b" "b < a + N" "a mod N = b mod N" for a b :: nat
  proof -
    have "N dvd b - a" using mod_eq_dvd_iff_nat [OF that(1), of N] that(3) by simp
    then show ?thesis using that by (auto dest: dvd_imp_le)
  qed
  from this [of a b] this [of b a] assms show ?thesis by (cases "a \<le> b") simp_all
qed

lemma get_queue_Some: "idx < length (ss_queue s) \<Longrightarrow> ss_queue s ! idx = Some it \<Longrightarrow> get_queue idx s = Inr it"
  by (simp add: get_queue_def)

lemma slots_item:
  assumes "slots_ok acc d s" "d \<le> k" "k < length acc"
  obtains it where "get_queue (k mod length (ss_queue s)) s = Inr it"
    "ss_queue s ! (k mod length (ss_queue s)) = Some it"
    "acc ! k = (qi_h it, qi_cnt it, qi_handler it)" "d < k \<Longrightarrow> qi_bytes_sent it = 0"
proof -
  let ?N = "length (ss_queue s)"
  have "?N = sc_max_heaps (ss_config s) + 1" using assms(1) unfolding slots_ok_def Let_def by blast
  then have "k mod ?N < ?N" by simp
  moreover obtain it where "ss_queue s ! (k mod ?N) = Some it" "acc ! k = (qi_h it, qi_cnt it, qi_handler it)"
      "d < k \<Longrightarrow> qi_bytes_sent it = 0"
    using assms unfolding slots_ok_def Let_def by blast
  ultimately show ?thesis by (intro that [of it] get_queue_Some)
qed

lemma slots_dims:
  assumes "slots_ok acc d s"
  shows "length (ss_queue s) = sc_max_heaps (ss_config s) + 1" "d \<le> length acc"
    "length acc < d + length (ss_queue s)" "ss_queue_head s = d mod length (ss_queue s)"
    "ss_queue_tail s = length acc mod length (ss_queue s)"
  using assms unfolding slots_ok_def Let_def by blast+

lemma slots_mod:
  assumes "slots_ok acc d s" "d \<le> k" "k \<le> length acc"
  shows "k mod length (ss_queue s) = d mod length (ss_queue s) \<longleftrightarrow> k = d"
proof
  assume "k mod length (ss_queue s) = d mod length (ss_queue s)"
  then show "k = d"
    using slots_dims(1,3) [OF assms(1)] assms(2,3) by (intro mod_inj_window [of d k "length (ss_queue s)" d]) linarith+
qed simp

lemma slots_okI:
  assumes "length (ss_queue s) = sc_max_heaps (ss_config s) + 1" "d \<le> length acc" "length acc < d + length (ss_queue s)"
    "ss_queue_head s = d mod length (ss_queue s)" "ss_queue_tail s = length acc mod length (ss_queue s)"
    "\<And>k. d \<le> k \<Longrightarrow> k < length acc \<Longrightarrow> \<exists>it. ss_queue s ! (k mod length (ss_queue s)) = Some it \<and>
      acc ! k = (qi_h it, qi_cnt it, qi_handler it) \<and> (d < k \<longrightarrow> qi_bytes_sent it = 0)"
  shows "slots_ok acc d s"
  using assms unfolding slots_ok_def Let_def by blast

section \<open>Loading packets\<close>

lemma batch_ok_snoc:
  assumes "batch_ok P n N k j xs a ja" "a < n" "ja < length (P a)"
    and "tp_pkt x = P a ! ja" "tp_size x = packet_size (P a ! ja)" "tp_item x = a mod N"
    and "tp_last x \<longleftrightarrow> Suc ja = length (P a)"
  shows "batch_ok P n N k j (xs @ [x]) (fst (advance P (a, ja))) (snd (advance P (a, ja)))"
  using assms by (induction xs arbitrary: k j) (auto simp: advance_def)

text \<open>The fields that loading does not touch.\<close>

definition load_frame :: "'h send_stream \<Rightarrow> 'h send_stream \<Rightarrow> bool" where
  "load_frame s s' \<longleftrightarrow> ss_queue s' = ss_queue s \<and> ss_queue_head s' = ss_queue_head s \<and>
     ss_queue_tail s' = ss_queue_tail s \<and> ss_posted s' = ss_posted s \<and> ss_config s' = ss_config s \<and>
     ss_state s' = ss_state s \<and> ss_max_current_packets s' = ss_max_current_packets s \<and>
     ss_send_time s' = ss_send_time s \<and> ss_send_time_burst s' = ss_send_time_burst s"

lemma core_inv_load_frame:
  assumes "core_inv P acc sent d j a ja s" "load_frame s s'" "gen_at P a' ja' (ss_gen s')"
    "ss_active s' = a' mod length (ss_queue s)" "a \<le> a'" "position_in P (length acc) a' ja'"
  shows "core_inv P acc sent d j a' ja' s'"
  using assms unfolding core_inv_def load_frame_def
  by (auto simp: slots_ok_def progress_ok_def completions_def Let_def)

lemma load_packet_ok:
  assumes core: "core_inv P acc sent d j a ja s" and good: "accepted_good m acc"
    and P: "P = packets_of m acc" and m: "m = sc_max_packet_size (ss_config s)" and a: "a < length acc"
  obtains s' x where "load_packet s = Inr s'" "ss_current_packets s' = ss_current_packets s @ [x]"
    "core_inv P acc sent d j (fst (advance P (a, ja))) (snd (advance P (a, ja))) s'"
    "load_frame s s'" "ss_rate_bytes s' = ss_rate_bytes s + word_of_nat (packet_size (P a ! ja))"
    "tp_pkt x = P a ! ja" "tp_size x = packet_size (P a ! ja)" "tp_item x = a mod length (ss_queue s)"
    "tp_last x \<longleftrightarrow> Suc ja = length (P a)" "ja < length (P a)"
proof -
  have slots: "slots_ok acc d s" and gen: "gen_at P a ja (ss_gen s)"
    and act: "ss_active s = a mod length (ss_queue s)" and d: "d \<le> a" and ja: "ja < length (P a)"
    using core a by (auto simp: core_inv_def position_in_def)
  obtain it where it: "get_queue (a mod length (ss_queue s)) s = Inr it" "acc ! a = (qi_h it, qi_cnt it, qi_handler it)"
    using slots_item [OF slots d a] by metis
  obtain g0 where g0: "make_packet_generator (qi_h it) (qi_cnt it) m = Inr g0" "gen_inv g0" "has_next_packet g0"
      "gen_rest g0 = P a"
    using accepted_packets [OF good a it(2)] P by metis
  obtain g where g: "(case ss_gen s of None \<Rightarrow> make_packet_generator (qi_h it) (qi_cnt it) m | Some g \<Rightarrow> Inr g) = Inr g"
      "gen_inv g" "has_next_packet g" "gen_rest g = drop ja (P a)"
    using gen g0 by (cases "ss_gen s") (auto simp: gen_at_def)
  obtain p g' where n: "next_packet g = Inr (p, g')" "gen_inv g'" "gen_rest g = p # gen_rest g'"
    using gen_rest_step [OF g(2,3)] .
  have p: "p = P a ! ja" "gen_rest g' = drop (Suc ja) (P a)"
    using n(3) g(4) Cons_nth_drop_Suc [OF ja] by simp_all
  have more: "has_next_packet g' \<longleftrightarrow> Suc ja \<noteq> length (P a)"
    using gen_rest_more [OF n(2)] p(2) ja by auto
  define x where "x = \<lparr>tp_pkt = p, tp_size = packet_size p, tp_last = \<not> has_next_packet g',
      tp_item = ss_active s, tp_result = Success\<rparr>"
  define s1 where "s1 = s\<lparr>ss_gen := Some g', ss_current_packets := ss_current_packets s @ [x],
      ss_rate_bytes := ss_rate_bytes s + word_of_nat (tp_size x)\<rparr>"
  define s' where "s' = (if tp_last x then next_active s1 else s1)"
  have l: "load_packet s = Inr s'"
    using it(1) act g n(1) unfolding m load_packet_def Let_def
    by (simp add: s'_def s1_def x_def)
  have N: "length (ss_queue s) = sc_max_heaps (ss_config s1) + 1"
    using slots by (simp add: slots_ok_def Let_def s1_def)
  have frame: "load_frame s s'" by (simp add: load_frame_def s'_def s1_def next_active_def)
  have pos: "position_in P (length acc) (fst (advance P (a, ja))) (snd (advance P (a, ja)))"
  proof (cases "Suc ja = length (P a)")
    case True
    show ?thesis
    proof (cases "Suc a < length acc")
      case Sa: True
      obtain h cnt handler where "acc ! Suc a = (h, cnt, handler)" by (cases "acc ! Suc a") auto
      from accepted_packets [OF good Sa this] have "P (Suc a) \<noteq> []" using P by metis
      with True Sa show ?thesis by (simp add: advance_def position_in_def)
    qed (use True a in \<open>simp add: advance_def position_in_def\<close>)
  qed (use ja a in \<open>simp add: advance_def position_in_def\<close>)
  have "core_inv P acc sent d j (fst (advance P (a, ja))) (snd (advance P (a, ja))) s'"
  proof (rule core_inv_load_frame [OF core frame _ _ _ pos])
    show "gen_at P (fst (advance P (a, ja))) (snd (advance P (a, ja))) (ss_gen s')"
      using more n(2) p(2) by (auto simp: advance_def gen_at_def s'_def s1_def next_active_def x_def)
    show "ss_active s' = fst (advance P (a, ja)) mod length (ss_queue s)"
      using more act next_slot_mod [OF N, of a]
      by (auto simp: advance_def s'_def next_active_def x_def) (simp_all add: s1_def)
  qed (simp add: advance_def)
  with l frame more act p ja show ?thesis
    by (intro that [of s' x]) (auto simp: s'_def s1_def x_def next_active_def)
qed

text \<open>A call of the loop adds packets up to the limit, the end of the burst or the tail, whichever comes first.\<close>

lemma load_loop_ok:
  assumes "core_inv P acc sent d j a ja s" and "accepted_good m acc" "P = packets_of m acc"
    and "m = sc_max_packet_size (ss_config s)" "N = length (ss_queue s)"
    and "batch_ok P (length acc) N d j (ss_current_packets s) a ja" "a \<le> T" "T \<le> length acc"
  shows "\<exists>s' a' ja' new. load_loop k (T mod N) s = Inr s' \<and> core_inv P acc sent d j a' ja' s' \<and>
    batch_ok P (length acc) N d j (ss_current_packets s') a' ja' \<and> load_frame s s' \<and>
    ss_current_packets s' = ss_current_packets s @ new \<and>
    ss_rate_bytes s' = ss_rate_bytes s + word_of_nat (sum_list (map tp_size new)) \<and>
    (k \<noteq> 0 \<and> \<not> must_sleep s \<and> a < T \<longrightarrow> new \<noteq> [])"
  using assms
proof (induction k arbitrary: s a ja)
  case 0
  then show ?case by (auto simp: load_frame_def)
next
  case (Suc k)
  have slots: "slots_ok acc d s" and act: "ss_active s = a mod N" and da: "d \<le> a"
    using Suc.prems by (auto simp: core_inv_def)
  have window: "length acc < d + N" using slots Suc.prems(5) by (simp add: slots_ok_def Let_def)
  have same: "ss_active s = T mod N \<longleftrightarrow> a = T"
    using mod_inj_window [of d a N T] act da window Suc.prems(7,8) by auto
  show ?case
  proof (cases "must_sleep s \<or> ss_active s = T mod N")
    case True
    then show ?thesis using Suc.prems same
      by (intro exI [of _ s] exI [of _ a] exI [of _ ja] exI [of _ "[]"]) (auto simp: load_frame_def)
  next
    case False
    then have aT: "a < T" "a < length acc" using same Suc.prems(7,8) by auto
    obtain s1 x where l: "load_packet s = Inr s1" "ss_current_packets s1 = ss_current_packets s @ [x]"
        "core_inv P acc sent d j (fst (advance P (a, ja))) (snd (advance P (a, ja))) s1"
        "load_frame s s1" "ss_rate_bytes s1 = ss_rate_bytes s + word_of_nat (packet_size (P a ! ja))"
      and x: "tp_pkt x = P a ! ja" "tp_size x = packet_size (P a ! ja)" "tp_item x = a mod length (ss_queue s)"
        "tp_last x \<longleftrightarrow> Suc ja = length (P a)" "ja < length (P a)"
      using load_packet_ok [OF Suc.prems(1-4) aT(2)] by metis
    have b: "batch_ok P (length acc) N d j (ss_current_packets s1) (fst (advance P (a, ja))) (snd (advance P (a, ja)))"
      unfolding l(2) using Suc.prems(5,6) x aT by (intro batch_ok_snoc) auto
    have aT': "fst (advance P (a, ja)) \<le> T" using aT by (simp add: advance_def)
    have "m = sc_max_packet_size (ss_config s1)" "N = length (ss_queue s1)"
      using l(4) Suc.prems(4,5) by (simp_all add: load_frame_def)
    from Suc.IH [OF l(3) Suc.prems(2,3) this b aT' Suc.prems(8)]
    obtain s' a' ja' new where s': "load_loop k (T mod N) s1 = Inr s'" "core_inv P acc sent d j a' ja' s'"
        "batch_ok P (length acc) N d j (ss_current_packets s') a' ja'" "load_frame s1 s'"
        "ss_current_packets s' = ss_current_packets s1 @ new"
        "ss_rate_bytes s' = ss_rate_bytes s1 + word_of_nat (sum_list (map tp_size new))"
      by blast
    have "load_loop (Suc k) (T mod N) s = Inr s'" using False l(1) s'(1) by simp
    moreover have "load_frame s s'" using l(4) s'(4) by (simp add: load_frame_def)
    moreover have "ss_current_packets s' = ss_current_packets s @ (x # new)" using s'(5) l(2) by simp
    moreover have "ss_rate_bytes s' = ss_rate_bytes s + word_of_nat (sum_list (map tp_size (x # new)))"
      using s'(6) l(5) x(2) by (simp add: algebra_simps)
    ultimately show ?thesis using s'(2,3) by blast
  qed
qed

text \<open>The bytes of a burst: loading goes on only below the burst size, so it is exceeded by at most a packet.\<close>

lemma batch_ok_append:
  "batch_ok P n N k j (xs @ ys) a ja \<longleftrightarrow> (\<exists>a' ja'. batch_ok P n N k j xs a' ja' \<and> batch_ok P n N a' ja' ys a ja)"
  by (induction xs arbitrary: k j) auto

lemma load_packet_append:
  assumes "load_packet s = Inr s'"
  obtains x where "ss_current_packets s' = ss_current_packets s @ [x]" "ss_config s' = ss_config s"
    "ss_rate_bytes s' = ss_rate_bytes s + word_of_nat (tp_size x)"
  using assms
  by (auto simp: load_packet_def Let_def bind_result_Inr_iff next_active_def split: if_splits option.splits prod.splits)

lemma load_loop_bytes:
  assumes "load_loop k t s = Inr s'" "ss_current_packets s' = ss_current_packets s @ new"
    and "\<forall>x \<in> set new. tp_size x \<le> m" "sc_burst_size (ss_config s) + m \<le> 2 ^ 64"
  shows "unat (ss_rate_bytes s') = unat (ss_rate_bytes s) + sum_list (map tp_size new) \<and>
    (new \<noteq> [] \<longrightarrow> unat (ss_rate_bytes s') < sc_burst_size (ss_config s) + m)"
  using assms
proof (induction k arbitrary: s new)
  case (Suc k)
  show ?case
  proof (cases "must_sleep s \<or> ss_active s = t")
    case False
    then obtain s1 where s1: "load_packet s = Inr s1" "load_loop k t s1 = Inr s'"
      using Suc.prems(1) by (auto simp: bind_result_Inr_iff)
    obtain x where x: "ss_current_packets s1 = ss_current_packets s @ [x]" "ss_config s1 = ss_config s"
        "ss_rate_bytes s1 = ss_rate_bytes s + word_of_nat (tp_size x)"
      using load_packet_append [OF s1(1)] .
    have "\<exists>more. ss_current_packets s' = ss_current_packets s1 @ more"
      using s1(2)
    proof (induction k arbitrary: s1)
      case (Suc k)
      then show ?case
        by (fastforce simp: bind_result_Inr_iff split: if_splits elim: load_packet_append)
    qed simp
    then obtain more where more: "ss_current_packets s' = ss_current_packets s1 @ more" ..
    then have new: "new = x # more" using Suc.prems(2) x(1) by simp
    have small: "unat (ss_rate_bytes s) + tp_size x < sc_burst_size (ss_config s) + m"
      using False Suc.prems(3) new by (simp add: must_sleep_def)
    have "unat (ss_rate_bytes s1) = unat (ss_rate_bytes s) + tp_size x"
    proof -
      have "ss_rate_bytes s1 = word_of_nat (unat (ss_rate_bytes s) + tp_size x)" using x(3) by simp
      then show ?thesis using small Suc.prems(4) by (simp add: unat_of_nat del: of_nat_add)
    qed
    with Suc.IH [OF s1(2) more] Suc.prems(3,4) new x(2) small show ?thesis by (cases more) auto
  qed (use Suc.prems in auto)
qed simp

lemma do_next_send_ok:
  assumes core: "core_inv P acc sent d j d j s" and good: "accepted_good m acc" "P = packets_of m acc"
    and m: "m = sc_max_packet_size (ss_config s)" and N: "N = length (ss_queue s)"
    and T: "d < T" "T \<le> length acc" and awake: "\<not> must_sleep s" "0 < ss_max_current_packets s"
  obtains s' a' ja' where "do_next_send (T mod N) s = Inr s'" "core_inv P acc sent d j a' ja' s'"
    "batch_ok P (length acc) N d j (ss_current_packets s') a' ja'" "load_frame s s'"
    "ss_current_packets s' \<noteq> []"
    "load_loop (ss_max_current_packets s) (T mod N) (s\<lparr>ss_current_packets := []\<rparr>) = Inr s'"
proof -
  let ?s = "s\<lparr>ss_current_packets := []\<rparr>"
  have frame: "load_frame s ?s" by (simp add: load_frame_def)
  have "core_inv P acc sent d j d j ?s"
    using core by (intro core_inv_load_frame [OF core frame]) (auto simp: core_inv_def)
  moreover have "m = sc_max_packet_size (ss_config ?s)" "N = length (ss_queue ?s)" using m N by simp_all
  moreover have "batch_ok P (length acc) N d j (ss_current_packets ?s) d j" by simp
  ultimately obtain s' a' ja' new where "load_loop (ss_max_current_packets s) (T mod N) ?s = Inr s'"
      "core_inv P acc sent d j a' ja' s'" "batch_ok P (length acc) N d j (ss_current_packets s') a' ja'"
      "load_frame ?s s'" "ss_current_packets s' = new"
      "ss_max_current_packets s \<noteq> 0 \<and> \<not> must_sleep ?s \<and> d < T \<longrightarrow> new \<noteq> []"
    using load_loop_ok [OF _ good, of sent d j d j ?s N T "ss_max_current_packets s"] T by (auto simp del: load_loop.simps)
  moreover have "must_sleep ?s = must_sleep s" by (simp add: must_sleep_def)
  ultimately show ?thesis using T awake
    by (intro that [of s' a' ja']) (auto simp: do_next_send_def load_packets_def load_frame_def)
qed

section \<open>Processing results\<close>

lemma log_of_append:
  "log_of k (sent @ [(c, p, e)]) = log_of k sent @ (if c = k then [(p, e)] else [])"
  by (simp add: log_of_def)

lemma takeWhile_all_success: "takeWhile (\<lambda>e. snd e = Success) (map (\<lambda>p. (p, Success)) ps) = map (\<lambda>p. (p, Success)) ps"
  by (induction ps) simp_all

lemma map_fst_success: "map fst (map (\<lambda>p. (p, Success)) ps) = ps"
  by (induction ps) simp_all

lemma result_right_error:
  assumes "j < length ps" "e \<noteq> Success"
  shows "result_right ps (map (\<lambda>p. (p, Success)) (take j ps) @ [(ps ! j, e)]) e (word_of_nat (total_size (take j ps)))"
proof -
  let ?es = "map (\<lambda>p. (p, Success)) (take j ps)"
  have "takeWhile (\<lambda>e. snd e = Success) (?es @ [(ps ! j, e)]) = ?es"
    using assms(2) by (subst takeWhile_append2) auto
  moreover have "map fst ?es = take j ps" by (rule map_fst_success)
  ultimately show ?thesis using assms(1)
    by (simp add: result_right_def Let_def nth_append take_Suc_conv_app_nth del: map_map)
qed

lemma result_right_success:
  assumes "length ps = Suc j"
  shows "result_right ps (map (\<lambda>p. (p, Success)) (take j ps) @ [(ps ! j, Success)]) Success (word_of_nat (total_size ps))"
proof -
  have "ps = take j ps @ [ps ! j]" using assms by (simp add: take_Suc_conv_app_nth [symmetric])
  then have "map (\<lambda>p. (p, Success)) (take j ps) @ [(ps ! j, Success)] = map (\<lambda>p. (p, Success)) ps"
    by (metis list.simps(8,9) map_append)
  moreover have "map fst (map (\<lambda>p. (p, Success)) ps) = ps" by (rule map_fst_success)
  ultimately show ?thesis
    by (simp add: result_right_def Let_def takeWhile_all_success del: map_map)
qed

lemma result_right_stale:
  assumes "result_right ps es err bytes" "\<exists>e \<in> set es. snd e \<noteq> Success" "length es < length ps"
  shows "result_right ps (es @ [(ps ! length es, e)]) err bytes"
proof -
  let ?good = "takeWhile (\<lambda>e. snd e = Success) es"
  obtain x where x: "x \<in> set es" "snd x \<noteq> Success" using assms(2) by blast
  then have "takeWhile (\<lambda>e. snd e = Success) (es @ [(ps ! length es, e)]) = ?good"
    by (intro takeWhile_append1) auto
  moreover have "length ?good < length es"
    using x length_takeWhile_le [of "\<lambda>e. snd e = Success" es] takeWhile_eq_all_conv [of "\<lambda>e. snd e = Success" es]
    by (metis le_neq_implies_less takeWhile_eq_take take_all)
  ultimately show ?thesis using assms(1,3)
    by (simp add: result_right_def Let_def nth_append take_Suc_conv_app_nth)
qed

lemma total_size_take_Suc:
  "j < length ps \<Longrightarrow> total_size (take (Suc j) ps) = total_size (take j ps) + packet_size (ps ! j)"
  by (simp add: total_size_def take_Suc_conv_app_nth)

lemma completions_post [simp]:
  "completions (s\<lparr>ss_posted := ss_posted s @ [Completed handler err bytes]\<rparr>) = completions s @ [Completed handler err bytes]"
  by (simp add: completions_def)

text \<open>\<^verbatim>\<open>post_handler\<close> as an update of the state.\<close>

definition completed_state :: "nat \<Rightarrow> nat \<Rightarrow> 'h queue_item \<Rightarrow> error_code \<Rightarrow> 'h send_stream \<Rightarrow> 'h send_stream" where
  "completed_state d a it err s =
     (let N = length (ss_queue s) in
      s\<lparr>ss_posted := ss_posted s @ [Completed (qi_handler it) err (qi_bytes_sent it)],
        ss_active := (if a = d then Suc a mod N else ss_active s),
        ss_gen := (if a = d then None else ss_gen s),
        ss_queue := (ss_queue s)[d mod N := None], ss_queue_head := Suc d mod N\<rparr>)"

lemma post_handler_ok:
  assumes slots: "slots_ok acc d s" and a: "ss_active s = a mod length (ss_queue s)" "d \<le> a" "a \<le> length acc"
    and err: "a = d \<Longrightarrow> err \<noteq> Success" and it: "ss_queue s ! (d mod length (ss_queue s)) = Some it"
  shows "post_handler err s = Inr (completed_state d a it err s)"
proof -
  let ?N = "length (ss_queue s)"
  have N: "?N = sc_max_heaps (ss_config s) + 1" and head: "ss_queue_head s = d mod ?N" and win: "length acc < d + ?N"
    using slots by (simp_all add: slots_ok_def Let_def)
  have "d mod ?N < ?N" using N by simp
  then have get: "get_queue (ss_queue_head s) s = Inr it" unfolding head using it by (rule get_queue_Some)
  have eq: "ss_active s = ss_queue_head s \<longleftrightarrow> a = d"
    using slots_mod [OF slots a(2,3)] a(1) head by simp
  have nx: "next_queue_slot s' (k mod ?N) = Suc k mod ?N" if "ss_config s' = ss_config s" for s' :: "'a send_stream" and k
    using next_slot_mod [of ?N s' k] N that by simp
  show ?thesis
  proof (cases "a = d")
    case True
    then show ?thesis using get err eq a(1) head nx
      by (simp add: post_handler_def completed_state_def Let_def next_active_def)
  next
    case False
    then show ?thesis using get eq head nx
      by (simp add: post_handler_def completed_state_def Let_def)
  qed
qed

lemma slots_completed:
  assumes slots: "slots_ok acc d s" and d: "d < length acc"
  shows "slots_ok acc (Suc d) (completed_state d a it err s)"
proof -
  let ?N = "length (ss_queue s)"
  have other: "k mod ?N \<noteq> d mod ?N" if "Suc d \<le> k" "k < length acc" for k
    using slots_mod [OF slots, of k] that by simp
  have items: "\<exists>it. ss_queue s ! (k mod ?N) = Some it \<and> acc ! k = (qi_h it, qi_cnt it, qi_handler it) \<and> qi_bytes_sent it = 0"
    if "Suc d \<le> k" "k < length acc" for k
    using slots_item [OF slots, of k] that by (metis Suc_le_lessD less_imp_le_nat)
  show ?thesis
  proof (rule slots_okI)
    fix k
    assume "Suc d \<le> k" "k < length acc"
    with items [of k] other [of k] show "\<exists>x. ss_queue (completed_state d a it err s) !
        (k mod length (ss_queue (completed_state d a it err s))) = Some x \<and>
        acc ! k = (qi_h x, qi_cnt x, qi_handler x) \<and> (Suc d < k \<longrightarrow> qi_bytes_sent x = 0)"
      by (auto simp: completed_state_def Let_def)
  qed (use slots_dims [OF slots] d in \<open>simp_all add: completed_state_def Let_def\<close>)
qed

lemma progress_completed:
  assumes slots: "slots_ok acc d s" and prog: "progress_ok P acc d j sent s" and d: "d < length acc"
    and it: "acc ! d = (qi_h it, qi_cnt it, qi_handler it)"
    and right: "result_right (P d) (log_of d sent') err (qi_bytes_sent it)"
    and sent': "\<And>k. k \<noteq> d \<Longrightarrow> log_of k sent' = log_of k sent"
  shows "progress_ok P acc (Suc d) 0 sent' (completed_state d a it err s)"
proof -
  let ?s = "completed_state d a it err s"
  have comp: "completions ?s = completions s @ [Completed (qi_handler it) err (qi_bytes_sent it)]"
    by (simp add: completions_def completed_state_def Let_def)
  have len: "length (completions s) = d" using prog by (simp add: progress_ok_def)
  have finished: "\<exists>err bytes. completions ?s ! k = Completed (snd (snd (acc ! k))) err bytes \<and>
      result_right (P k) (log_of k sent') err bytes" if "k < Suc d" for k
  proof (cases "k = d")
    case True
    then show ?thesis using comp len it right by (simp add: nth_append)
  next
    case False
    then show ?thesis using that prog sent' [of k] comp len by (auto simp: progress_ok_def nth_append)
  qed
  have rest: "log_of k sent' = []" if "k \<ge> Suc d" for k
    using that prog sent' [of k] by (auto simp: progress_ok_def)
  have "\<exists>it. ss_queue ?s ! ss_queue_head ?s = Some it \<and> qi_bytes_sent it = word_of_nat (total_size (take 0 (P (Suc d))))"
    if sd: "Suc d < length acc"
  proof -
    have s': "slots_ok acc (Suc d) ?s" by (rule slots_completed [OF slots d])
    let ?N = "length (ss_queue s)"
    have "Suc d mod ?N \<noteq> d mod ?N"
      using slots_mod [OF slots, of "Suc d"] sd by simp
    moreover obtain it' where "ss_queue s ! (Suc d mod ?N) = Some it'" "qi_bytes_sent it' = 0"
      using slots_item [OF slots, of "Suc d"] sd by (metis lessI less_imp_le_nat)
    ultimately show ?thesis by (simp add: completed_state_def Let_def total_size_def)
  qed
  with comp len finished rest show ?thesis by (auto simp: progress_ok_def)
qed

lemma batch_ok_mono: "batch_ok P n N k j xs a ja \<Longrightarrow> k \<le> a"
  by (induction xs arbitrary: k j) (auto split: if_splits dest: Suc_leD)

text \<open>
  What is left of a batch while its results are processed, at packet \<open>jc\<close> of heap \<open>c\<close>.  Either that is
  the head of the queue, or the head has moved past it because one of its packets failed; if
  that was also the active heap, loading continues at the new head.
\<close>

definition to_process :: "(nat \<Rightarrow> send_packet list) \<Rightarrow> nat \<Rightarrow> nat \<Rightarrow> (nat \<times> send_packet \<times> error_code) list \<Rightarrow>
    nat \<Rightarrow> nat \<Rightarrow> nat \<Rightarrow> nat \<Rightarrow> transmit_packet list \<Rightarrow> nat \<Rightarrow> nat \<Rightarrow> bool" where
  "to_process P n N sent d j c jc xs a ja \<longleftrightarrow>
     c = d \<and> jc = j \<and> batch_ok P n N c jc xs a ja \<or>
     d = Suc c \<and> j = 0 \<and> length (log_of c sent) = jc \<and> (\<exists>e \<in> set (log_of c sent). snd e \<noteq> Success) \<and>
       (batch_ok P n N c jc xs a ja \<and> d \<le> a \<or> (\<exists>ja'. batch_ok P n N c jc xs c ja') \<and> a = d \<and> ja = 0)"

lemma to_process_end:
  assumes "to_process P n N sent d j c jc [] a ja"
  shows "a = d" "ja = j"
  using assms by (auto simp: to_process_def)

definition results_frame :: "'h send_stream \<Rightarrow> 'h send_stream \<Rightarrow> bool" where
  "results_frame s s' \<longleftrightarrow> length (ss_queue s') = length (ss_queue s) \<and> ss_queue_tail s' = ss_queue_tail s \<and>
     ss_config s' = ss_config s \<and> ss_state s' = ss_state s \<and> ss_rate_bytes s' = ss_rate_bytes s \<and>
     ss_max_current_packets s' = ss_max_current_packets s \<and> ss_send_time s' = ss_send_time s \<and>
     ss_send_time_burst s' = ss_send_time_burst s"

lemma results_frame_trans: "results_frame s s' \<Longrightarrow> results_frame s' s'' \<Longrightarrow> results_frame s s''"
  by (simp add: results_frame_def)

lemma results_frame_completed: "results_frame s (completed_state d a it err s)"
  by (simp add: results_frame_def completed_state_def Let_def)

text \<open>A packet of an aborted heap.\<close>

lemma stale_ok:
  assumes core: "core_inv P acc sent (Suc c) 0 a ja s" and len: "length (log_of c sent) < length (P c)"
    and err: "\<exists>e \<in> set (log_of c sent). snd e \<noteq> Success" and p: "p = P c ! length (log_of c sent)"
  shows "core_inv P acc (sent @ [(c, p, e)]) (Suc c) 0 a ja s"
proof -
  have prog: "progress_ok P acc (Suc c) 0 sent s" using core by (simp add: core_inv_def)
  have "\<exists>err bytes. completions s ! k = Completed (snd (snd (acc ! k))) err bytes \<and>
      result_right (P k) (log_of k (sent @ [(c, p, e)])) err bytes" if lt: "k < Suc c" for k
  proof -
    obtain er bytes where "completions s ! k = Completed (snd (snd (acc ! k))) er bytes"
        "result_right (P k) (log_of k sent) er bytes"
      using prog lt unfolding progress_ok_def by blast
    then show ?thesis using result_right_stale [OF _ err len, of er bytes e] p
      by (cases "k = c") (simp_all add: log_of_append)
  qed
  then have "progress_ok P acc (Suc c) 0 (sent @ [(c, p, e)]) s"
    using prog by (auto simp: progress_ok_def log_of_append)
  then show ?thesis using core by (simp add: core_inv_def)
qed

text \<open>A packet of the head of the queue that was sent.\<close>

definition counted_state :: "nat \<Rightarrow> 'h queue_item \<Rightarrow> nat \<Rightarrow> 'h send_stream \<Rightarrow> 'h send_stream" where
  "counted_state slot it n s =
     s\<lparr>ss_queue := (ss_queue s)[slot := Some (it\<lparr>qi_bytes_sent := qi_bytes_sent it + word_of_nat n\<rparr>)]\<rparr>"

lemma counted_ok:
  assumes slots: "slots_ok acc d s" and prog: "progress_ok P acc d j sent s" and d: "d < length acc" and j: "j < length (P d)"
    and it: "ss_queue s ! (d mod length (ss_queue s)) = Some it"
    and s': "s' = counted_state (d mod length (ss_queue s)) it (packet_size (P d ! j)) s"
  shows "slots_ok acc d s'" "progress_ok P acc d (Suc j) (sent @ [(d, P d ! j, Success)]) s'"
proof -
  note dims = slots_dims [OF slots]
  let ?N = "length (ss_queue s)"
  have slot: "d mod ?N < ?N" using dims(1) by simp
  show "slots_ok acc d s'"
  proof (rule slots_okI)
    fix k
    assume k: "d \<le> k" "k < length acc"
    obtain x where x: "ss_queue s ! (k mod ?N) = Some x" "acc ! k = (qi_h x, qi_cnt x, qi_handler x)"
        "d < k \<Longrightarrow> qi_bytes_sent x = 0"
      using slots_item [OF slots k] by metis
    show "\<exists>x. ss_queue s' ! (k mod length (ss_queue s')) = Some x \<and>
        acc ! k = (qi_h x, qi_cnt x, qi_handler x) \<and> (d < k \<longrightarrow> qi_bytes_sent x = 0)"
      using x it slot slots_mod [OF slots, of k] k by (cases "k = d") (auto simp: s' counted_state_def)
  qed (use dims in \<open>simp_all add: s' counted_state_def\<close>)
  have "qi_bytes_sent it = word_of_nat (total_size (take j (P d)))"
    using prog d it dims(4) by (auto simp: progress_ok_def)
  then have "\<exists>it. ss_queue s' ! ss_queue_head s' = Some it \<and>
      qi_bytes_sent it = word_of_nat (total_size (take (Suc j) (P d)))"
    using slot dims(4) j by (simp add: s' counted_state_def total_size_take_Suc)
  moreover have "completions s' = completions s" by (simp add: s' counted_state_def completions_def)
  ultimately show "progress_ok P acc d (Suc j) (sent @ [(d, P d ! j, Success)]) s'"
    using prog j by (auto simp: progress_ok_def log_of_append take_Suc_conv_app_nth)
qed

text \<open>The head of the queue is completed.\<close>

lemma completed_ok:
  assumes core: "core_inv P acc sent0 d j0 a ja s0" and slots: "slots_ok acc d s" and prog: "progress_ok P acc d j sent s"
    and same: "ss_gen s = ss_gen s0" "ss_active s = ss_active s0" "length (ss_queue s) = length (ss_queue s0)"
    and d: "d < length acc" and nonempty: "\<And>k. k < length acc \<Longrightarrow> P k \<noteq> []"
    and it: "ss_queue s ! (d mod length (ss_queue s)) = Some it" "acc ! d = (qi_h it, qi_cnt it, qi_handler it)"
    and right: "result_right (P d) (log_of d sent') err (qi_bytes_sent it)"
    and sent': "\<And>k. k \<noteq> d \<Longrightarrow> log_of k sent' = log_of k sent" and err: "a = d \<Longrightarrow> err \<noteq> Success"
  shows "post_handler err s = Inr (completed_state d a it err s)"
    "core_inv P acc sent' (Suc d) 0 (if a = d then Suc d else a) (if a = d then 0 else ja) (completed_state d a it err s)"
proof -
  have a: "ss_active s = a mod length (ss_queue s)" "d \<le> a" "a \<le> length acc" "gen_at P a ja (ss_gen s)"
      "position_in P (length acc) a ja"
    using core same by (auto simp: core_inv_def position_in_def)
  show "post_handler err s = Inr (completed_state d a it err s)"
    by (rule post_handler_ok [OF slots a(1-3) err it(1)])
  have "position_in P (length acc) (Suc d) 0"
    using d nonempty [of "Suc d"] by (cases "Suc d < length acc") (auto simp: position_in_def)
  moreover have "slots_ok acc (Suc d) (completed_state d a it err s)" by (rule slots_completed [OF slots d])
  moreover have "progress_ok P acc (Suc d) 0 sent' (completed_state d a it err s)"
    by (rule progress_completed [OF slots prog d it(2) right sent'])
  ultimately show "core_inv P acc sent' (Suc d) 0 (if a = d then Suc d else a) (if a = d then 0 else ja)
      (completed_state d a it err s)"
    using a by (auto simp: core_inv_def completed_state_def Let_def gen_at_def)
qed

text \<open>One turn of the loop of \<^verbatim>\<open>process_results\<close>.\<close>

definition later :: "nat \<Rightarrow> nat \<Rightarrow> nat \<Rightarrow> nat \<Rightarrow> bool" where
  "later a ja a' ja' \<longleftrightarrow> a' = a \<and> ja' = ja \<or> a < a'"

lemma process_stale_ok:
  assumes core: "core_inv P acc sent (Suc c) 0 a ja s" and N: "N = length (ss_queue s)" "2 \<le> N"
    and todo: "length (log_of c sent) = jc" "\<exists>e \<in> set (log_of c sent). snd e \<noteq> Success"
      "batch_ok P (length acc) N c jc (x # xs) a ja \<and> Suc c \<le> a \<or>
       (\<exists>ja'. batch_ok P (length acc) N c jc (x # xs) c ja') \<and> a = Suc c \<and> ja = 0"
    and sent': "sent' = sent @ [(c, tp_pkt x, tp_result x)]" and nx: "(c', jc') = advance P (c, jc)"
  shows "process_result x s = Inr s" "core_inv P acc sent' (Suc c) 0 a ja s"
    "to_process P (length acc) N sent' (Suc c) 0 c' jc' xs a ja"
proof -
  have slots: "slots_ok acc (Suc c) s" using core by (simp add: core_inv_def)
  have x: "jc < length (P c)" "tp_pkt x = P c ! jc" "tp_item x = c mod N" using todo(3) by auto
  have "c mod N \<noteq> Suc c mod N" using N(2) by (auto simp: mod_Suc)
  with x(3) slots_dims(4) [OF slots] N(1) show "process_result x s = Inr s" by (simp add: process_result_def)
  show "core_inv P acc sent' (Suc c) 0 a ja s"
    unfolding sent' by (rule stale_ok [OF core]) (use todo x in simp_all)
  have log: "length (log_of c sent') = Suc jc" "\<exists>e \<in> set (log_of c sent'). snd e \<noteq> Success"
    using todo(1,2) by (auto simp: sent' log_of_append)
  show "to_process P (length acc) N sent' (Suc c) 0 c' jc' xs a ja"
  proof (cases "Suc jc = length (P c)")
    case True
    moreover have "\<not> batch_ok P (length acc) N (Suc c) 0 xs c ja'" for ja' by (auto dest: batch_ok_mono)
    ultimately show ?thesis using todo(3) nx by (auto simp: to_process_def advance_def)
  next
    case False
    then show ?thesis using todo(3) nx log by (auto simp: to_process_def advance_def)
  qed
qed

lemma process_head_ok:
  assumes core: "core_inv P acc sent d j a ja s" and N: "N = length (ss_queue s)"
    and nonempty: "\<And>k. k < length acc \<Longrightarrow> P k \<noteq> []"
    and todo: "batch_ok P (length acc) N d j (x # xs) a ja"
    and sent': "sent' = sent @ [(d, tp_pkt x, tp_result x)]" and nx: "(c', jc') = advance P (d, j)"
  obtains s' d' j' a' ja' where "process_result x s = Inr s'" "core_inv P acc sent' d' j' a' ja' s'"
    "to_process P (length acc) N sent' d' j' c' jc' xs a' ja'" "results_frame s s'" "later a ja a' ja'"
proof -
  have slots: "slots_ok acc d s" and prog: "progress_ok P acc d j sent s" using core by (simp_all add: core_inv_def)
  note dims = slots_dims [OF slots]
  have d: "d < length acc" and j: "j < length (P d)" and x: "tp_pkt x = P d ! j" "tp_size x = packet_size (P d ! j)"
      "tp_item x = d mod N" "tp_last x \<longleftrightarrow> Suc j = length (P d)"
    using todo by auto
  obtain it where it: "get_queue (d mod N) s = Inr it" "ss_queue s ! (d mod N) = Some it"
      "acc ! d = (qi_h it, qi_cnt it, qi_handler it)"
    using slots_item [OF slots _ d] N by auto
  have head: "tp_item x = ss_queue_head s" using x(3) dims(4) N by simp
  have log: "log_of d sent = map (\<lambda>p. (p, Success)) (take j (P d))"
    and bytes: "qi_bytes_sent it = word_of_nat (total_size (take j (P d)))"
    using prog d it(2) dims(4) N by (auto simp: progress_ok_def)
  have other: "log_of k sent' = log_of k sent" if "k \<noteq> d" for k using that by (simp add: sent' log_of_append)
  have past: "Suc d \<le> a" if "Suc j = length (P d)" using todo that batch_ok_mono by fastforce
  show ?thesis
  proof (cases "tp_result x = Success")
    case False
    have right: "result_right (P d) (log_of d sent') (tp_result x) (qi_bytes_sent it)"
      using result_right_error [OF j False] log bytes x(1) by (simp add: sent' log_of_append)
    have c: "post_handler (tp_result x) s = Inr (completed_state d a it (tp_result x) s)"
        "core_inv P acc sent' (Suc d) 0 (if a = d then Suc d else a) (if a = d then 0 else ja)
          (completed_state d a it (tp_result x) s)"
      using completed_ok [OF core slots prog refl refl refl d nonempty _ it(3) right other] it(2) N False by auto
    have "\<exists>e \<in> set (log_of d sent'). snd e \<noteq> Success" "length (log_of d sent') = Suc j"
      using False log j by (auto simp: sent' log_of_append)
    then have "to_process P (length acc) N sent' (Suc d) 0 c' jc' xs (if a = d then Suc d else a) (if a = d then 0 else ja)"
      using todo nx past batch_ok_mono [OF todo] by (auto simp: to_process_def advance_def split: if_splits)
    then show ?thesis using c False head batch_ok_mono [OF todo]
      by (intro that [OF _ c(2) _ results_frame_completed]) (auto simp: process_result_def later_def)
  next
    case True
    define s1 where "s1 = counted_state (d mod N) it (packet_size (P d ! j)) s"
    have s1: "slots_ok acc d s1" "progress_ok P acc d (Suc j) sent' s1"
      using counted_ok [OF slots prog d j, of it s1] it(2) N True x(1) by (simp_all add: s1_def sent')
    have step: "process_result x s = (if tp_last x then post_handler Success s1 else Inr s1)"
      using True head it(1) x(2,3) by (simp add: process_result_def s1_def counted_state_def Let_def)
    have fr: "results_frame s s1" by (simp add: results_frame_def s1_def counted_state_def)
    have gen: "ss_gen s1 = ss_gen s" "ss_active s1 = ss_active s" "length (ss_queue s1) = length (ss_queue s)"
      by (simp_all add: s1_def counted_state_def)
    show ?thesis
    proof (cases "Suc j = length (P d)")
      case last: False
      have "position_in P (length acc) d (Suc j)" using d j last by (simp add: position_in_def)
      then have "core_inv P acc sent' d (Suc j) a ja s1" using core s1 gen by (simp add: core_inv_def)
      moreover have "to_process P (length acc) N sent' d (Suc j) c' jc' xs a ja"
        using todo last nx by (simp add: to_process_def advance_def)
      moreover have "process_result x s = Inr s1" using step x(4) last by simp
      moreover have "later a ja a ja" by (simp add: later_def)
      ultimately show ?thesis using fr by (intro that)
    next
      case last: True
      let ?it = "it\<lparr>qi_bytes_sent := qi_bytes_sent it + word_of_nat (packet_size (P d ! j))\<rparr>"
      have q: "ss_queue s1 ! (d mod length (ss_queue s1)) = Some ?it"
        using dims(1) N by (simp add: s1_def counted_state_def)
      have "total_size (P d) = total_size (take j (P d)) + packet_size (P d ! j)"
        using total_size_take_Suc [OF j] last by simp
      then have right: "result_right (P d) (log_of d sent') Success (qi_bytes_sent ?it)"
        using result_right_success [of "P d" j] last log bytes x(1) True by (simp add: sent' log_of_append)
      have c: "post_handler Success s1 = Inr (completed_state d a ?it Success s1)"
          "core_inv P acc sent' (Suc d) 0 a ja (completed_state d a ?it Success s1)"
        using completed_ok [OF core s1 gen d nonempty q _ right] past [OF last] it(3) by auto
      have "to_process P (length acc) N sent' (Suc d) 0 c' jc' xs a ja"
        using todo last nx by (simp add: to_process_def advance_def)
      then show ?thesis using step c last x(4)
        by (intro that [OF _ c(2) _ results_frame_trans [OF fr results_frame_completed]]) (simp_all add: later_def)
    qed
  qed
qed

lemma later_trans: "later a ja a' ja' \<Longrightarrow> later a' ja' a'' ja'' \<Longrightarrow> later a ja a'' ja''"
  by (auto simp: later_def)

lemma fold_process_ok:
  assumes "core_inv P acc sent d j a ja s" "N = length (ss_queue s)" "2 \<le> N" "\<And>k. k < length acc \<Longrightarrow> P k \<noteq> []"
    and "to_process P (length acc) N sent d j c jc xs a ja"
  shows "\<exists>s' d' j'. fold_result process_result xs s = Inr s' \<and> core_inv P acc (sent @ numbered P c jc xs) d' j' d' j' s' \<and>
    results_frame s s' \<and> later a ja d' j'"
  using assms
proof (induction xs arbitrary: s sent d j a ja c jc)
  case Nil
  then show ?case using to_process_end [OF Nil(5)]
    by (auto simp: results_frame_def later_def)
next
  case (Cons x xs)
  let ?sent = "sent @ [(c, tp_pkt x, tp_result x)]"
  obtain c' jc' where nx: "(c', jc') = advance P (c, jc)" by (cases "advance P (c, jc)") auto
  obtain s1 d1 j1 a1 ja1 where s1: "process_result x s = Inr s1" "core_inv P acc ?sent d1 j1 a1 ja1 s1"
      "to_process P (length acc) N ?sent d1 j1 c' jc' xs a1 ja1" "results_frame s s1" "later a ja a1 ja1"
  proof (cases "c = d \<and> jc = j \<and> batch_ok P (length acc) N c jc (x # xs) a ja")
    case True
    then show ?thesis
      using process_head_ok [OF Cons.prems(1,2,4), of x xs ?sent c' jc'] nx that by blast
  next
    case False
    then have st: "d = Suc c" "j = 0" "length (log_of c sent) = jc" "\<exists>e \<in> set (log_of c sent). snd e \<noteq> Success"
        "batch_ok P (length acc) N c jc (x # xs) a ja \<and> Suc c \<le> a \<or>
         (\<exists>ja'. batch_ok P (length acc) N c jc (x # xs) c ja') \<and> a = Suc c \<and> ja = 0"
      using Cons.prems(5) unfolding to_process_def by blast+
    have "core_inv P acc sent (Suc c) 0 a ja s" using Cons.prems(1) st(1,2) by simp
    note * = process_stale_ok [OF this Cons.prems(2,3) st(3-5) refl nx]
    show ?thesis by (rule that [of s "Suc c" 0 a ja])
        (use * in \<open>simp_all add: results_frame_def later_def\<close>)
  qed
  have "N = length (ss_queue s1)" using s1(4) Cons.prems(2) by (simp add: results_frame_def)
  from Cons.IH [OF s1(2) this Cons.prems(3,4) s1(3)] obtain s' d' j' where
    "fold_result process_result xs s1 = Inr s'" "core_inv P acc (?sent @ numbered P c' jc' xs) d' j' d' j' s'"
    "results_frame s1 s'" "later a1 ja1 d' j'"
    by auto
  moreover have "numbered P c jc (x # xs) = (c, tp_pkt x, tp_result x) # numbered P c' jc' xs"
    using nx by (metis fst_conv numbered.simps(2) snd_conv)
  ultimately show ?case using s1(1) results_frame_trans [OF s1(4)] later_trans [OF s1(5)]
    by (intro exI [of _ s'] exI [of _ d'] exI [of _ j']) auto
qed

section \<open>Events keep the invariant\<close>

lemma core_inv_cong:
  assumes "ss_queue s' = ss_queue s" "ss_queue_head s' = ss_queue_head s" "ss_queue_tail s' = ss_queue_tail s"
    "ss_active s' = ss_active s" "ss_gen s' = ss_gen s" "completions s' = completions s" "ss_config s' = ss_config s"
  shows "core_inv P acc sent d j a ja s' \<longleftrightarrow> core_inv P acc sent d j a ja s"
  using assms by (simp add: core_inv_def slots_ok_def progress_ok_def)

lemma packets_nonempty:
  assumes "accepted_good m acc" "k < length acc"
  shows "packets_of m acc k \<noteq> []"
  using accepted_packets [OF assms] by (metis prod_cases3)

text \<open>\<^verbatim>\<open>do_next\<close> up to its assertion.\<close>

lemma do_next_results_ok:
  assumes ready: "setup_ok m sys" and pos: "at_position m sys d j a ja"
    and due: "sy_pending sys = Do_next_pending \<or> (\<exists>t. sy_pending sys = Timer_set t)"
    and names: "s = sy_stream sys" "acc = sy_accepted sys" "P = packets_of m acc"
  obtains s1 d' j' where "(case ss_state s of SENDING \<Rightarrow> process_results s
      | QUEUED \<Rightarrow> Inr (update_send_time_empty now_empty s) | _ \<Rightarrow> Inr s) = Inr s1"
    "core_inv P acc (sy_log sys) d' j' d' j' s1" "ss_current_packets s1 = []" "ss_config s1 = ss_config s"
    "ss_rate_bytes s1 = ss_rate_bytes s" "ss_max_current_packets s1 = ss_max_current_packets s"
    "later a ja d' j'" "ss_send_time_burst s1 = ss_send_time_burst s"
    "ss_send_time s1 = (if ss_state s = QUEUED then ss_send_time (update_send_time_empty now_empty s) else ss_send_time s)"
proof -
  obtain sent where core: "core_inv P acc sent d j a ja s" and batch: "batch_ok P (length acc) (length (ss_queue s)) d j (ss_current_packets s) a ja"
      and log: "sy_log sys = sent @ (if results_in sys then numbered P d j (ss_current_packets s) else [])"
      and pend: "pending_ok d (length acc) s (sy_pending sys)"
    using pos by (auto simp: at_position_def Let_def names)
  consider "ss_state s = SENDING" "results_in sys" | "ss_state s = QUEUED" "\<not> results_in sys" "ss_current_packets s = []"
    | "ss_state s = SLEEPING" "\<not> results_in sys" "ss_current_packets s = []"
    using due pend by (auto simp: results_in_def names)
  then show ?thesis
  proof cases
    case 1
    have "2 \<le> length (ss_queue s)"
      using core ready slots_dims(1) [of acc d s] by (auto simp: core_inv_def setup_ok_def config_good_def names)
    moreover have "packets_of m acc k \<noteq> []" if "k < length acc" for k
      using ready that packets_nonempty by (auto simp: setup_ok_def names)
    moreover have "to_process P (length acc) (length (ss_queue s)) sent d j d j (ss_current_packets s) a ja"
      using batch by (simp add: to_process_def)
    ultimately obtain s1 d' j' where s1: "fold_result process_result (ss_current_packets s) s = Inr s1"
        "core_inv P acc (sent @ numbered P d j (ss_current_packets s)) d' j' d' j' s1" "results_frame s s1" "later a ja d' j'"
      using fold_process_ok [OF core refl] names(3) by blast
    let ?s = "s1\<lparr>ss_current_packets := []\<rparr>"
    have "core_inv P acc (sy_log sys) d' j' d' j' ?s"
      using s1(2) 1 log core_inv_cong [of ?s s1] by (simp add: completions_def)
    moreover have "process_results s = Inr ?s" using s1(1) by (simp add: process_results_def)
    ultimately show ?thesis using 1 s1(3,4) by (intro that [of ?s d' j']) (auto simp: results_frame_def)
  next
    case 2
    let ?s = "update_send_time_empty now_empty s"
    have "core_inv P acc sent d j a ja ?s"
      using core core_inv_cong [of ?s s] by (simp add: completions_def update_send_time_empty_def Let_def)
    then show ?thesis using 2 log batch
      by (intro that [of ?s d j]) (auto simp: later_def update_send_time_empty_def Let_def)
  next
    case 3
    then show ?thesis using core log batch by (intro that [of s d j]) (auto simp: later_def)
  qed
qed

text \<open>The packets that are still to be loaded, and a rank that goes down with every event of the stream's own.\<close>

definition packets_left :: "(nat \<Rightarrow> send_packet list) \<Rightarrow> nat \<Rightarrow> nat \<Rightarrow> nat \<Rightarrow> nat" where
  "packets_left P n a ja = (\<Sum>k = a..<n. length (P k)) - ja"

fun stage :: "pending \<Rightarrow> nat" where
  "stage No_callback = 0"
| "stage (Loading t) = 1"
| "stage (Timer_set t) = 2"
| "stage Do_next_pending = 3"
| "stage Transmitting = 4"

definition rank :: "nat \<Rightarrow> 'h send_system \<Rightarrow> nat \<Rightarrow> nat \<Rightarrow> nat" where
  "rank m sys a ja =
     5 * packets_left (packets_of m (sy_accepted sys)) (length (sy_accepted sys)) a ja + stage (sy_pending sys)"

lemma packets_left_later:
  assumes "later a ja a' ja'" "position_in P n a ja" "a' \<le> n"
  shows "packets_left P n a' ja' \<le> packets_left P n a ja"
proof (cases "a' = a \<and> ja' = ja")
  case False
  then have a: "a < a'" using assms(1) by (auto simp: later_def)
  with assms(3) have "a < n" by simp
  with assms(2) have ja: "ja \<le> length (P a)" by (auto simp: position_in_def)
  have "(\<Sum>k = a'..<n. length (P k)) \<le> (\<Sum>k = Suc a..<n. length (P k))"
    using a by (intro sum_mono2) auto
  moreover have "(\<Sum>k = a..<n. length (P k)) = length (P a) + (\<Sum>k = Suc a..<n. length (P k))"
    using \<open>a < n\<close> by (rule sum.atLeast_Suc_lessThan)
  ultimately show ?thesis using ja by (simp add: packets_left_def)
qed simp

lemma packets_left_batch:
  assumes "batch_ok P n N k j xs a ja"
  shows "packets_left P n k j = length xs + packets_left P n a ja"
  using assms
proof (induction xs arbitrary: k j)
  case (Cons x xs)
  have "k < n" "j < length (P k)" using Cons.prems by auto
  moreover have "(\<Sum>i = k..<n. length (P i)) = length (P k) + (\<Sum>i = Suc k..<n. length (P i))"
    using \<open>k < n\<close> by (rule sum.atLeast_Suc_lessThan)
  moreover have "packets_left P n (if Suc j = length (P k) then Suc k else k) (if Suc j = length (P k) then 0 else Suc j) =
      length xs + packets_left P n a ja"
    using Cons by (auto split: if_splits)
  ultimately show ?case by (auto simp: packets_left_def split: if_splits)
qed simp

lemma do_next_tail_sel:
  assumes "do_next_tail now s = (action, s')"
  shows "ss_queue s' = ss_queue s" "ss_queue_head s' = ss_queue_head s" "ss_queue_tail s' = ss_queue_tail s"
    "ss_active s' = ss_active s" "ss_gen s' = ss_gen s" "ss_posted s' = ss_posted s" "ss_config s' = ss_config s"
    "ss_current_packets s' = ss_current_packets s" "ss_max_current_packets s' = ss_max_current_packets s"
    "ss_rate_bytes s' = (if must_sleep s then 0 else ss_rate_bytes s)"
  using assms by (auto simp: do_next_tail_def update_send_times_def Let_def split: if_splits)

lemma do_next_tail_action:
  assumes "do_next_tail now s = (action, s')"
  shows "pending_of action = (case action of Start_timer t \<Rightarrow> Timer_set t | Became_empty \<Rightarrow> No_callback | Load_up_to t \<Rightarrow> Loading t)"
    "case action of
       Start_timer t \<Rightarrow> must_sleep s \<and> ss_state s' = SLEEPING
     | Became_empty \<Rightarrow> ss_queue_head s = ss_queue_tail s \<and> ss_state s' = EMPTY
     | Load_up_to t \<Rightarrow> ss_queue_head s \<noteq> ss_queue_tail s \<and> t = ss_queue_tail s \<and> ss_state s' = SENDING"
  using assms by (auto simp: do_next_tail_def update_send_times_def Let_def split: if_splits next_action.splits)

lemma step_do_next_ok:
  assumes ready: "setup_ok m sys" and pos: "at_position m sys d j a ja"
    and due: "sy_pending sys = Do_next_pending \<or> (\<exists>t. sy_pending sys = Timer_set t)"
  obtains sys' d' j' where "step_do_next now_empty now sys = Inr sys'" "setup_ok m sys'"
    "at_position m sys' d' j' d' j'" "rank m sys' d' j' < rank m sys a ja" "sy_accepted sys' = sy_accepted sys"
proof -
  let ?s = "sy_stream sys" and ?acc = "sy_accepted sys"
  let ?P = "packets_of m ?acc"
  obtain s1 d' j' where s1: "(case ss_state ?s of SENDING \<Rightarrow> process_results ?s
      | QUEUED \<Rightarrow> Inr (update_send_time_empty now_empty ?s) | _ \<Rightarrow> Inr ?s) = Inr s1"
    "core_inv ?P ?acc (sy_log sys) d' j' d' j' s1" "ss_current_packets s1 = []" "ss_config s1 = ss_config ?s"
    "ss_rate_bytes s1 = ss_rate_bytes ?s" "ss_max_current_packets s1 = ss_max_current_packets ?s" "later a ja d' j'"
    using do_next_results_ok [OF ready pos due refl refl refl, where now_empty = now_empty] by metis
  have slots: "slots_ok ?acc d' s1" and act: "ss_active s1 = ss_queue_head s1"
    using s1(2) slots_dims(4) [of ?acc d' s1] by (simp_all add: core_inv_def)
  note dims = slots_dims [OF slots]
  have empty: "ss_queue_head s1 = ss_queue_tail s1 \<longleftrightarrow> d' = length ?acc"
    using slots_mod [OF slots dims(2)] dims(4,5) by auto
  obtain action s' where tl: "do_next_tail now s1 = (action, s')" by (cases "do_next_tail now s1") auto
  note sel = do_next_tail_sel [OF tl] and action = do_next_tail_action [OF tl]
  have burst: "0 < sc_burst_size (ss_config s1)" using ready s1(4) by (simp add: setup_ok_def config_good_def)
  have awake: "\<not> must_sleep s'" using sel(7,10) burst by (auto simp: must_sleep_def)
  have core: "core_inv ?P ?acc (sy_log sys) d' j' d' j' s'"
    using s1(2) sel core_inv_cong [of s' s1] by (simp add: completions_def)
  obtain sys' where sys': "step_do_next now_empty now sys = Inr sys'" "sy_stream sys' = s'"
      "sy_pending sys' = pending_of action" "sy_accepted sys' = ?acc" "sy_log sys' = sy_log sys"
    using s1(1) act tl by (simp add: step_do_next_def do_next_locked_def Let_def)
  have pend: "pending_ok d' (length ?acc) s' (sy_pending sys')" "\<not> results_in sys'"
    using action empty awake sel dims(2,5) s1(3)
    by (auto simp: sys' results_in_def split: next_action.splits intro!: exI [of _ "length ?acc"])
  have "at_position m sys' d' j' d' j'"
    using core pend sel(8) s1(3) by (auto simp: at_position_def Let_def sys')
  moreover have "setup_ok m sys'" using ready sel s1(4,6) unfolding setup_ok_def sys' by auto
  moreover have "rank m sys' d' j' < rank m sys a ja"
  proof -
    obtain sent where "core_inv ?P ?acc sent d j a ja ?s" "pending_ok d (length ?acc) ?s (sy_pending sys)"
      using pos by (auto simp: at_position_def Let_def)
    then have "position_in ?P (length ?acc) a ja" and slp: "sy_pending sys = Timer_set t \<Longrightarrow> \<not> must_sleep s1" for t
      using s1(4,5) by (auto simp: core_inv_def must_sleep_def)
    then have "packets_left ?P (length ?acc) d' j' \<le> packets_left ?P (length ?acc) a ja"
      using packets_left_later [OF s1(7)] dims(2) by blast
    moreover have "stage (pending_of action) < stage (sy_pending sys)"
      using due action slp by (cases action) auto
    ultimately show ?thesis by (simp add: rank_def sys')
  qed
  ultimately show ?thesis using that sys'(1,4) by blast
qed

lemma batch_ok_packets:
  assumes "batch_ok P n N k j xs a ja"
  shows "\<forall>x \<in> set xs. \<exists>k < n. tp_size x = packet_size (tp_pkt x) \<and> tp_pkt x \<in> set (P k)"
  using assms by (induction xs arbitrary: k j) (auto split: if_splits)

lemma step_load_ok:
  assumes ready: "setup_ok m sys" and pos: "at_position m sys d j a ja" and load: "sy_pending sys = Loading t"
  obtains s' d' j' a' ja' where "do_next_send t (sy_stream sys) = Inr s'"
    "setup_ok m (sys\<lparr>sy_stream := s', sy_pending := Transmitting\<rparr>)"
    "at_position m (sys\<lparr>sy_stream := s', sy_pending := Transmitting\<rparr>) d' j' a' ja'"
    "rank m (sys\<lparr>sy_stream := s', sy_pending := Transmitting\<rparr>) a' ja' < rank m sys a ja"
    "load_loop (ss_max_current_packets (sy_stream sys)) t ((sy_stream sys)\<lparr>ss_current_packets := []\<rparr>) = Inr s'"
    "\<forall>x \<in> set (ss_current_packets s'). \<exists>k < length (sy_accepted sys).
       tp_size x = packet_size (tp_pkt x) \<and> tp_pkt x \<in> set (packets_of m (sy_accepted sys) k)"
    "load_frame (sy_stream sys) s'"
proof -
  let ?s = "sy_stream sys" and ?acc = "sy_accepted sys"
  let ?P = "packets_of m ?acc"
  obtain sent T where batch: "batch_ok ?P (length ?acc) (length (ss_queue ?s)) d j (ss_current_packets ?s) a ja"
      and core: "core_inv ?P ?acc sent d j a ja ?s" and log: "sy_log sys = sent"
      and st: "ss_state ?s = SENDING" "ss_current_packets ?s = []" "\<not> must_sleep ?s"
      and T: "d < T" "T \<le> length ?acc" "t = T mod length (ss_queue ?s)"
    using pos load by (auto simp: at_position_def Let_def results_in_def)
  have a: "a = d" "ja = j" using batch st(2) by simp_all
  have m: "accepted_good m ?acc" "m = sc_max_packet_size (ss_config ?s)" "0 < ss_max_current_packets ?s"
    using ready by (simp_all add: setup_ok_def)
  obtain s' a' ja' where s': "do_next_send t ?s = Inr s'" "core_inv ?P ?acc sent d j a' ja' s'"
      "batch_ok ?P (length ?acc) (length (ss_queue ?s)) d j (ss_current_packets s') a' ja'" "load_frame ?s s'"
      "ss_current_packets s' \<noteq> []"
      "load_loop (ss_max_current_packets ?s) t (?s\<lparr>ss_current_packets := []\<rparr>) = Inr s'"
    using do_next_send_ok [OF _ m(1) refl m(2) refl T(1,2) st(3) m(3)] core a T(3) by metis
  let ?sys = "sys\<lparr>sy_stream := s', sy_pending := Transmitting\<rparr>"
  have "setup_ok m ?sys" using ready s'(4) unfolding setup_ok_def load_frame_def by auto
  moreover have "at_position m ?sys d j a' ja'"
    using s' st(1) log by (auto simp: at_position_def Let_def results_in_def load_frame_def)
  moreover have "rank m ?sys a' ja' < rank m sys a ja"
    using packets_left_batch [OF s'(3)] s'(5) a load by (cases "ss_current_packets s'") (simp_all add: rank_def)
  ultimately show ?thesis using that [OF s'(1) _ _ _ s'(6) batch_ok_packets [OF s'(3)] s'(4)] by blast
qed

lemma batch_ok_results:
  "length errs = length xs \<Longrightarrow> batch_ok P n N k j (set_results errs xs) a ja \<longleftrightarrow> batch_ok P n N k j xs a ja"
proof (induction errs xs arbitrary: k j rule: list_induct2)
  case (Cons e errs x xs)
  then show ?case by (simp add: set_results_def)
qed (simp add: set_results_def)

lemma heap_number_slot:
  assumes "slots_ok acc d s" "length (completions s) = d" "d \<le> k" "k < length acc"
  shows "heap_number s (k mod length (ss_queue s)) = k"
proof -
  let ?N = "length (ss_queue s)"
  note dims = slots_dims [OF assms(1)]
  have "k mod ?N + ?N - d mod ?N = k mod ?N + (?N - d mod ?N)"
    using dims(1) by (simp add: less_imp_le_nat)
  also have "(k mod ?N + (?N - d mod ?N)) mod ?N = (k + (?N - d mod ?N)) mod ?N" by (simp add: mod_add_left_eq)
  also have "k + (?N - d mod ?N) = (k - d) + ?N * (d div ?N + 1)"
  proof -
    have "d mod ?N < ?N" using dims(1) by simp
    moreover have "?N * (d div ?N) = d - d mod ?N" by (rule minus_mod_eq_mult_div [symmetric])
    moreover have "d mod ?N \<le> d" by simp
    ultimately show ?thesis using assms(3) by simp
  qed
  also have "((k - d) + ?N * (d div ?N + 1)) mod ?N = (k - d) mod ?N" by (rule mod_mult_self2)
  also have "\<dots> = k - d" using assms(3,4) dims(3) by (intro mod_less) simp
  finally show ?thesis using assms(2,3) dims(4) by (simp add: heap_number_def)
qed

lemma log_entries_batch:
  assumes "slots_ok acc d s" "length (completions s) = d" "N = length (ss_queue s)"
    and "batch_ok P (length acc) N k j xs a ja" "d \<le> k"
  shows "log_entries s xs = numbered P k j xs"
  using assms(4,5)
proof (induction xs arbitrary: k j)
  case (Cons x xs)
  then have "heap_number s (tp_item x) = k" using heap_number_slot [OF assms(1,2)] assms(3) by simp
  with Cons show ?case by (auto simp: log_entries_def advance_def split: if_splits)
qed (simp add: log_entries_def)

lemma step_transport_ok:
  assumes ready: "setup_ok m sys" and pos: "at_position m sys d j a ja" and tr: "sy_pending sys = Transmitting"
    and len: "length errs = length (ss_current_packets (sy_stream sys))"
  shows "setup_ok m (step_transport errs sys)" "at_position m (step_transport errs sys) d j a ja"
    "rank m (step_transport errs sys) a ja < rank m sys a ja"
proof -
  let ?s = "sy_stream sys" and ?acc = "sy_accepted sys"
  let ?P = "packets_of m ?acc" and ?xs = "set_results errs (ss_current_packets (sy_stream sys))"
  obtain sent where batch: "batch_ok ?P (length ?acc) (length (ss_queue ?s)) d j (ss_current_packets ?s) a ja"
      and core: "core_inv ?P ?acc sent d j a ja ?s" and log: "sy_log sys = sent" and st: "ss_state ?s = SENDING"
    using pos tr by (auto simp: at_position_def Let_def results_in_def)
  have b: "batch_ok ?P (length ?acc) (length (ss_queue ?s)) d j ?xs a ja"
    using batch batch_ok_results [OF len] by simp
  have e: "log_entries ?s ?xs = numbered ?P d j ?xs"
    using core by (intro log_entries_batch [of ?acc d, OF _ _ refl b]) (simp_all add: core_inv_def progress_ok_def)
  have c: "core_inv ?P ?acc sent d j a ja (?s\<lparr>ss_current_packets := ?xs\<rparr>)"
    using core core_inv_cong [of "?s\<lparr>ss_current_packets := ?xs\<rparr>" ?s] by (simp add: completions_def)
  show "setup_ok m (step_transport errs sys)" using ready by (simp add: setup_ok_def step_transport_def Let_def)
  show "at_position m (step_transport errs sys) d j a ja"
    using b c st e log by (auto simp: at_position_def step_transport_def Let_def results_in_def)
  show "rank m (step_transport errs sys) a ja < rank m sys a ja"
    by (simp add: rank_def step_transport_def Let_def tr)
qed

text \<open>Accepting a heap extends the list of accepted heaps and leaves the positions alone.\<close>

lemma batch_ok_extend:
  assumes "batch_ok P n N k j xs a ja" "n \<le> n'" "\<And>k. k < n \<Longrightarrow> P' k = P k"
  shows "batch_ok P' n' N k j xs a ja" "numbered P' k j xs = numbered P k j xs"
proof -
  have "batch_ok P' n' N k j xs a ja \<and> numbered P' k j xs = numbered P k j xs"
    using assms(1)
  proof (induction xs arbitrary: k j)
    case (Cons x xs)
    then have "k < n" "P' k = P k" using assms(3) by auto
    with Cons assms(2) show ?case by (auto simp: advance_def split: if_splits)
  qed simp
  then show "batch_ok P' n' N k j xs a ja" "numbered P' k j xs = numbered P k j xs" by simp_all
qed

lemma slots_extend:
  assumes slots: "slots_ok acc d s" and room: "Suc (length acc) mod length (ss_queue s) \<noteq> ss_queue_head s"
    and s': "ss_queue s' = (ss_queue s)[ss_queue_tail s := Some it]" "ss_queue_head s' = ss_queue_head s"
      "ss_queue_tail s' = Suc (length acc) mod length (ss_queue s)" "ss_config s' = ss_config s"
    and it: "qi_bytes_sent it = 0"
  shows "slots_ok (acc @ [(qi_h it, qi_cnt it, qi_handler it)]) d s'"
    "\<And>k. d \<le> k \<Longrightarrow> k < length acc \<Longrightarrow> ss_queue s' ! (k mod length (ss_queue s)) = ss_queue s ! (k mod length (ss_queue s))"
proof -
  let ?N = "length (ss_queue s)"
  note dims = slots_dims [OF slots]
  have "Suc (length acc) \<noteq> d + ?N"
  proof
    assume "Suc (length acc) = d + ?N"
    then have "Suc (length acc) mod ?N = d mod ?N" by simp
    with room dims(4) show False by simp
  qed
  with dims(3) have win: "Suc (length acc) < d + ?N" by simp
  have other: "k mod ?N \<noteq> length acc mod ?N" if "d \<le> k" "k < length acc" for k
    using mod_inj_window [of d k ?N "length acc"] that win by auto
  have tl: "length acc mod ?N < ?N" using dims(1) by simp
  show keep: "ss_queue s' ! (k mod ?N) = ss_queue s ! (k mod ?N)" if "d \<le> k" "k < length acc" for k
    using other [OF that] dims(5) by (simp add: s'(1))
  show "slots_ok (acc @ [(qi_h it, qi_cnt it, qi_handler it)]) d s'"
  proof (rule slots_okI)
    fix k
    assume k: "d \<le> k" "k < length (acc @ [(qi_h it, qi_cnt it, qi_handler it)])"
    show "\<exists>x. ss_queue s' ! (k mod length (ss_queue s')) = Some x \<and>
        (acc @ [(qi_h it, qi_cnt it, qi_handler it)]) ! k = (qi_h x, qi_cnt x, qi_handler x) \<and>
        (d < k \<longrightarrow> qi_bytes_sent x = 0)"
    proof (cases "k = length acc")
      case True
      then show ?thesis using tl dims(5) it by (auto simp: s'(1))
    next
      case False
      then have "k < length acc" using k(2) by simp
      then show ?thesis using keep [OF k(1)] slots_item [OF slots k(1)] by (auto simp: s'(1) nth_append)
    qed
  qed (use dims win in \<open>simp_all add: s'\<close>)
qed

lemma core_extend:
  assumes core: "core_inv P acc sent d j a ja s" and room: "Suc (length acc) mod length (ss_queue s) \<noteq> ss_queue_head s"
    and s': "ss_queue s' = (ss_queue s)[ss_queue_tail s := Some it]" "ss_queue_head s' = ss_queue_head s"
      "ss_queue_tail s' = Suc (length acc) mod length (ss_queue s)" "ss_config s' = ss_config s"
    and same: "ss_active s' = ss_active s" "ss_gen s' = ss_gen s" "completions s' = completions s"
    and it: "qi_bytes_sent it = 0" "acc' = acc @ [(qi_h it, qi_cnt it, qi_handler it)]"
    and P: "P = packets_of m acc" "P' = packets_of m acc'" and nonempty: "P' (length acc) \<noteq> []"
  shows "core_inv P' acc' sent d j a ja s'"
proof -
  have slots: "slots_ok acc d s" and prog: "progress_ok P acc d j sent s" and gen: "gen_at P a ja (ss_gen s)"
    and a: "ss_active s = a mod length (ss_queue s)" "d \<le> a"
    and pos: "position_in P (length acc) d j" "position_in P (length acc) a ja"
    using core by (simp_all add: core_inv_def)
  note dims = slots_dims [OF slots] and ext = slots_extend [OF slots room s' it(1)]
  have P': "P' k = P k" if "k < length acc" for k using that by (simp add: P it(2) packets_of_append)
  have fin: "P (length acc) = []" by (simp add: P(1) packets_of_def)
  have pos': "position_in P' (length acc') k i" if "position_in P (length acc) k i" for k i
    using that P' [of k] nonempty by (auto simp: position_in_def it(2))
  have gen': "gen_at P' a ja (ss_gen s')"
  proof (cases "ss_gen s")
    case (Some g)
    then have "gen_rest g \<noteq> []" using gen gen_rest_more [of g] by (simp add: gen_at_def)
    then have "a < length acc" using Some gen pos(2) fin by (auto simp: gen_at_def position_in_def)
    then have "P' a = P a" by (rule P')
    then show ?thesis using gen unfolding gen_at_def same(2) by (simp only:)
  qed (use gen in \<open>simp add: gen_at_def same(2)\<close>)
  have "progress_ok P' acc' d j sent s'"
  proof -
    have le: "d \<le> length acc" by (rule dims(2))
    have tk: "take j (P' d) = take j (P d)" using pos(1) P' [of d] by (auto simp: position_in_def)
    have old: "P' k = P k" "acc' ! k = acc ! k" if "k < d" for k using that le P' by (simp_all add: it(2) nth_append)
    have bytes: "\<exists>x. ss_queue s' ! ss_queue_head s' = Some x \<and> qi_bytes_sent x = word_of_nat (total_size (take j (P d)))"
    proof (cases "d < length acc")
      case True
      then show ?thesis using prog ext(2) [of d] dims(4) s'(2) by (auto simp: progress_ok_def)
    next
      case False
      then have "d = length acc" "j = 0" using le pos(1) by (auto simp: position_in_def)
      moreover have "length acc mod length (ss_queue s) < length (ss_queue s)" using dims(1) by simp
      ultimately show ?thesis using it(1) dims(4,5) by (simp add: s'(1,2) total_size_def)
    qed
    show ?thesis
      using prog bytes unfolding progress_ok_def same(3) tk by (simp add: old)
  qed
  with ext(1) gen' a pos pos' show ?thesis by (simp add: core_inv_def same s'(1) it(2))
qed

lemma cnt_mask_bounds:
  assumes "w \<le> push_bit n 1 - (1 :: 64 word)"
  shows "unat w < 2 ^ n"
proof -
  have "unat w \<le> unat (push_bit n 1 - (1 :: 64 word))" using assms by (simp add: word_le_nat_alt)
  also have "push_bit n 1 - (1 :: 64 word) = (- 1) AND (push_bit n 1 - 1)" by simp
  also have "unat \<dots> < 2 ^ n" unfolding unat_and_mask by simp
  finally show ?thesis .
qed

text \<open>The outcomes of \<^verbatim>\<open>async_send_heap\<close>: refused and posted at once, or stored at the tail.\<close>

definition cnt_accepted :: "send_heap \<Rightarrow> s_item_pointer_t \<Rightarrow> bool" where
  "cnt_accepted h cnt \<longleftrightarrow> cnt < 0 \<or> (word_of_int cnt :: item_pointer_t) \<le> push_bit (heap_bits h) 1 - 1"

definition cnt_chosen :: "send_heap \<Rightarrow> s_item_pointer_t \<Rightarrow> item_pointer_t \<Rightarrow> item_pointer_t" where
  "cnt_chosen h cnt next_cnt =
     (if cnt < 0 then next_cnt AND (push_bit (heap_bits h) 1 - 1) else word_of_int cnt)"

lemma cnt_chosen_fits: "cnt_accepted h cnt \<Longrightarrow> unat (cnt_chosen h cnt n) < 2 ^ heap_bits h"
proof (cases "cnt < 0")
  case True
  then show ?thesis unfolding cnt_chosen_def by (simp only: if_True unat_and_mask) simp
qed (simp add: cnt_accepted_def cnt_chosen_def cnt_mask_bounds del: push_bit_of_1)

text \<open>What \<^verbatim>\<open>async_send_heap\<close> does with a heap that it accepts.\<close>

lemma async_send_heap_accepts:
  assumes nx: "next_queue_slot s (ss_queue_tail s) = T" and "T \<noteq> ss_queue_head s" and cnt: "cnt_accepted h cnt"
    and item: "item = \<lparr>qi_h = h, qi_cnt = cnt_chosen h cnt (ss_next_cnt s), qi_handler = handler, qi_bytes_sent = 0\<rparr>"
  shows "async_send_heap h handler cnt s =
    (True, ss_state s = EMPTY, s\<lparr>ss_next_cnt := (if cnt < 0 then ss_next_cnt s + ss_step_cnt s else ss_next_cnt s),
        ss_queue := (ss_queue s)[ss_queue_tail s := Some item], ss_queue_tail := T,
        ss_state := (if ss_state s = EMPTY then QUEUED else ss_state s)\<rparr>)"
proof -
  have ok: "\<not> (0 \<le> cnt \<and> (word_of_int cnt :: item_pointer_t) > push_bit (heap_bits h) 1 - 1)"
    using cnt by (auto simp: cnt_accepted_def not_less)
  have "async_send_heap h handler cnt s =
      (let t = (if cnt < 0 then s\<lparr>ss_next_cnt := ss_next_cnt s + ss_step_cnt s\<rparr> else s);
           t1 = t\<lparr>ss_queue := (ss_queue t)[ss_queue_tail t := Some item], ss_queue_tail := T\<rparr>
       in if ss_state t1 = EMPTY then (True, True, t1\<lparr>ss_state := QUEUED\<rparr>) else (True, False, t1))"
  proof (cases "cnt < 0")
    case True
    then show ?thesis using assms(2) unfolding async_send_heap_def Let_def nx item cnt_chosen_def
      by (simp only: if_True if_False if_not_P case_prod_conv not_le [symmetric]) auto
  next
    case False
    then show ?thesis using assms(2) ok unfolding async_send_heap_def Let_def nx item cnt_chosen_def
      by (simp only: if_True if_False if_not_P case_prod_conv)
  qed
  then show ?thesis
    by (cases "cnt < 0"; cases "ss_state s = EMPTY") (auto intro!: send_stream.equality simp: Let_def)
qed

lemma async_send_heap_cases:
  fixes s :: "'h send_stream"
  assumes slots: "slots_ok acc d s"
    and item: "item = \<lparr>qi_h = h, qi_cnt = cnt_chosen h cnt (ss_next_cnt s), qi_handler = handler, qi_bytes_sent = 0\<rparr>"
    and s1: "s1 = s\<lparr>ss_next_cnt := (if cnt < 0 then ss_next_cnt s + ss_step_cnt s else ss_next_cnt s),
        ss_queue := (ss_queue s)[ss_queue_tail s := Some item],
        ss_queue_tail := Suc (length acc) mod length (ss_queue s),
        ss_state := (if ss_state s = EMPTY then QUEUED else ss_state s)\<rparr>"
  shows "async_send_heap h handler cnt s =
    (if length acc - d = sc_max_heaps (ss_config s)
     then (False, False, s\<lparr>ss_posted := ss_posted s @ [Refused handler Would_block]\<rparr>)
     else if \<not> cnt_accepted h cnt
     then (False, False, s\<lparr>ss_posted := ss_posted s @ [Refused handler Invalid_argument]\<rparr>)
     else (True, ss_state s = EMPTY, s1))"
    "length acc - d = sc_max_heaps (ss_config s) \<longleftrightarrow> Suc (length acc) mod length (ss_queue s) = ss_queue_head s"
proof -
  let ?N = "length (ss_queue s)"
  note dims = slots_dims [OF slots]
  have nx: "next_queue_slot s (ss_queue_tail s) = Suc (length acc) mod ?N"
    unfolding dims(5) by (rule next_slot_mod [OF dims(1)])
  have "Suc (length acc) mod ?N = d mod ?N \<longleftrightarrow> Suc (length acc) = d + ?N"
  proof
    assume eq: "Suc (length acc) mod ?N = d mod ?N"
    show "Suc (length acc) = d + ?N"
    proof (rule ccontr)
      assume "Suc (length acc) \<noteq> d + ?N"
      then have "Suc (length acc) = d"
        using mod_inj_window [of d "Suc (length acc)" ?N d] eq dims(1-3) by linarith
      then show False using dims(2) by linarith
    qed
  qed simp
  then show full: "length acc - d = sc_max_heaps (ss_config s) \<longleftrightarrow> Suc (length acc) mod ?N = ss_queue_head s"
    using dims(1-4) by auto
  have acc: "cnt_accepted h cnt \<longleftrightarrow> \<not> (0 \<le> cnt \<and> (word_of_int cnt :: item_pointer_t) > push_bit (heap_bits h) 1 - 1)"
    by (auto simp: cnt_accepted_def)
  show "async_send_heap h handler cnt s =
    (if length acc - d = sc_max_heaps (ss_config s)
     then (False, False, s\<lparr>ss_posted := ss_posted s @ [Refused handler Would_block]\<rparr>)
     else if \<not> cnt_accepted h cnt
     then (False, False, s\<lparr>ss_posted := ss_posted s @ [Refused handler Invalid_argument]\<rparr>)
     else (True, ss_state s = EMPTY, s1))"
  proof (cases "Suc (length acc) mod ?N = ss_queue_head s \<or> \<not> cnt_accepted h cnt")
    case True
    then show ?thesis unfolding full acc async_send_heap_def Let_def nx by auto
  next
    case False
    then show ?thesis using async_send_heap_accepts [OF nx _ _ item] full s1 by simp
  qed
qed

lemma step_send_ok:
  assumes ready: "setup_ok m sys" and pos: "at_position m sys d j a ja" and h: "heap_good m h"
  shows "setup_ok m (step_send h handler cnt sys)" "at_position m (step_send h handler cnt sys) d j a ja"
proof -
  let ?s = "sy_stream sys" and ?acc = "sy_accepted sys"
  let ?P = "packets_of m ?acc" and ?N = "length (ss_queue (sy_stream sys))"
  obtain sent where batch: "batch_ok ?P (length ?acc) ?N d j (ss_current_packets ?s) a ja"
      and core: "core_inv ?P ?acc sent d j a ja ?s"
      and log: "sy_log sys = sent @ (if results_in sys then numbered ?P d j (ss_current_packets ?s) else [])"
      and pend: "pending_ok d (length ?acc) ?s (sy_pending sys)"
    using pos by (auto simp: at_position_def Let_def)
  have slots: "slots_ok ?acc d ?s" using core by (simp add: core_inv_def)
  note dims = slots_dims [OF slots]
  define item where "item = \<lparr>qi_h = h, qi_cnt = cnt_chosen h cnt (ss_next_cnt ?s), qi_handler = handler, qi_bytes_sent = 0\<rparr>"
  define s1 where "s1 = ?s\<lparr>ss_next_cnt := (if cnt < 0 then ss_next_cnt ?s + ss_step_cnt ?s else ss_next_cnt ?s),
        ss_queue := (ss_queue ?s)[ss_queue_tail ?s := Some item],
        ss_queue_tail := Suc (length ?acc) mod length (ss_queue ?s),
        ss_state := (if ss_state ?s = EMPTY then QUEUED else ss_state ?s)\<rparr>"
  note cases = async_send_heap_cases [OF slots item_def s1_def]
  have refused: "setup_ok m (sys\<lparr>sy_stream := ?s\<lparr>ss_posted := ss_posted ?s @ [Refused handler e]\<rparr>\<rparr>)"
      "at_position m (sys\<lparr>sy_stream := ?s\<lparr>ss_posted := ss_posted ?s @ [Refused handler e]\<rparr>\<rparr>) d j a ja" for e
  proof -
    let ?t = "?s\<lparr>ss_posted := ss_posted ?s @ [Refused handler e]\<rparr>"
    have c: "core_inv ?P ?acc sent d j a ja ?t"
      using core core_inv_cong [of ?t ?s] by (simp add: completions_def)
    have "pending_ok d (length ?acc) ?t (sy_pending sys)"
      using pend by (cases "sy_pending sys") (auto simp: must_sleep_def)
    with c batch log show "at_position m (sys\<lparr>sy_stream := ?t\<rparr>) d j a ja"
      by (auto simp: at_position_def Let_def results_in_def)
    show "setup_ok m (sys\<lparr>sy_stream := ?t\<rparr>)" using ready by (simp add: setup_ok_def)
  qed
  have accepted: "setup_ok m sys'" "at_position m sys' d j a ja"
    if c: "cnt_accepted h cnt" and room: "Suc (length ?acc) mod ?N \<noteq> ss_queue_head ?s"
      and sys': "sys' = sys\<lparr>sy_stream := s1, sy_pending := (if ss_state ?s = EMPTY then Do_next_pending else sy_pending sys),
        sy_accepted := ?acc @ [(qi_h item, qi_cnt item, qi_handler item)]\<rparr>" for sys'
  proof -
    let ?acc' = "?acc @ [(qi_h item, qi_cnt item, qi_handler item)]"
    let ?P' = "packets_of m ?acc'"
    have good: "accepted_good m ?acc'"
      using ready h cnt_chosen_fits [OF c] by (auto simp: setup_ok_def accepted_good_def item_def)
    have core': "core_inv ?P' ?acc' sent d j a ja s1"
      by (rule core_extend [OF core room _ _ _ _ _ _ _ _ refl refl refl])
        (use packets_nonempty [OF good, of "length ?acc"] in \<open>simp_all add: s1_def item_def completions_def\<close>)
    have same: "?P' k = ?P k" if "k < length ?acc" for k using that by (rule packets_of_append)
    note ext = batch_ok_extend [OF batch _ same, of "length ?acc'", simplified]
    have sel: "ss_queue s1 = (ss_queue ?s)[ss_queue_tail ?s := Some item]" "ss_current_packets s1 = ss_current_packets ?s"
        "ss_config s1 = ss_config ?s" "ss_rate_bytes s1 = ss_rate_bytes ?s" "ss_max_current_packets s1 = ss_max_current_packets ?s"
        "ss_state s1 = (if ss_state ?s = EMPTY then QUEUED else ss_state ?s)"
      by (simp_all add: s1_def)
    show "setup_ok m sys'" using ready good by (simp add: setup_ok_def sys' sel)
    have "pending_ok d (Suc (length ?acc)) s1 (sy_pending sys')"
      using pend by (cases "sy_pending sys") (auto simp: sys' sel must_sleep_def intro: le_SucI)
    moreover have "results_in sys' = results_in sys"
      using pend by (cases "sy_pending sys") (auto simp: sys' sel results_in_def)
    ultimately show "at_position m sys' d j a ja"
      using core' ext log by (auto simp: at_position_def Let_def sys' sel)
  qed
  have new: "ss_queue s1 ! ss_queue_tail ?s = Some item" using dims(1,5) by (simp add: s1_def)
  show "setup_ok m (step_send h handler cnt sys)" "at_position m (step_send h handler cnt sys) d j a ja"
  proof (atomize (full), cases "Suc (length ?acc) mod ?N = ss_queue_head ?s \<or> \<not> cnt_accepted h cnt")
    case True
    define e where "e = (if Suc (length ?acc) mod ?N = ss_queue_head ?s then Would_block else Invalid_argument)"
    have "async_send_heap h handler cnt ?s = (False, False, ?s\<lparr>ss_posted := ss_posted ?s @ [Refused handler e]\<rparr>)"
      unfolding cases(1) cases(2) e_def using True by (simp only: if_cancel split: if_split) blast
    then have "step_send h handler cnt sys = sys\<lparr>sy_stream := ?s\<lparr>ss_posted := ss_posted ?s @ [Refused handler e]\<rparr>\<rparr>"
      by (simp add: step_send_def)
    with refused show "setup_ok m (step_send h handler cnt sys) \<and> at_position m (step_send h handler cnt sys) d j a ja"
      by simp
  next
    case False
    then have "step_send h handler cnt sys = sys\<lparr>sy_stream := s1,
        sy_pending := (if ss_state ?s = EMPTY then Do_next_pending else sy_pending sys),
        sy_accepted := ?acc @ [(qi_h item, qi_cnt item, qi_handler item)]\<rparr>"
      using new unfolding step_send_def cases(1) cases(2) by simp
    with accepted [OF _ _ this] False show "setup_ok m (step_send h handler cnt sys) \<and> at_position m (step_send h handler cnt sys) d j a ja"
      by simp
  qed
qed

section \<open>Runs\<close>

text \<open>The events that do not depend on the user: callbacks of the stream and results of the transport.\<close>

fun own_event :: "'h send_event \<Rightarrow> bool" where
  "own_event (Send_heap _ _ _) \<longleftrightarrow> False"
| "own_event (Set_cnt _ _) \<longleftrightarrow> False"
| "own_event _ \<longleftrightarrow> True"

lemma own_step_ok:
  assumes "setup_ok m sys" "at_position m sys d j a ja" "own_event ev" "system_step ev sys = Some r"
  obtains sys' d' j' a' ja' where "r = Inr sys'" "setup_ok m sys'" "at_position m sys' d' j' a' ja'"
    "rank m sys' a' ja' < rank m sys a ja"
proof (cases ev)
  case (Do_next t1 t2)
  then have "sy_pending sys = Do_next_pending \<or> (\<exists>t. sy_pending sys = Timer_set t)"
    using assms(4) by (cases "sy_pending sys") (auto split: if_splits)
  from step_do_next_ok [OF assms(1,2) this, of t1 t2] obtain sys' d' j' where
    "step_do_next t1 t2 sys = Inr sys'" "setup_ok m sys'" "at_position m sys' d' j' d' j'"
    "rank m sys' d' j' < rank m sys a ja"
    by metis
  with Do_next assms(4) show ?thesis by (intro that [of sys' d' j' d' j']) (auto split: if_splits)
next
  case Load_and_send
  then obtain t where t: "sy_pending sys = Loading t" using assms(4) by (cases "sy_pending sys") auto
  from step_load_ok [OF assms(1,2) t] obtain s' d' j' a' ja' where "do_next_send t (sy_stream sys) = Inr s'"
    "setup_ok m (sys\<lparr>sy_stream := s', sy_pending := Transmitting\<rparr>)"
    "at_position m (sys\<lparr>sy_stream := s', sy_pending := Transmitting\<rparr>) d' j' a' ja'"
    "rank m (sys\<lparr>sy_stream := s', sy_pending := Transmitting\<rparr>) a' ja' < rank m sys a ja"
    by metis
  with Load_and_send t assms(4) show ?thesis by (intro that) auto
next
  case (Transport_done errs)
  then have "sy_pending sys = Transmitting" "length errs = length (ss_current_packets (sy_stream sys))"
      "r = Inr (step_transport errs sys)"
    using assms(4) by (auto split: if_splits)
  with step_transport_ok [OF assms(1,2)] show ?thesis by (intro that) auto
qed (use assms(3) in auto)

lemma set_cnt_ok:
  assumes "setup_ok m sys" "at_position m sys d j a ja" "set_cnt_sequence n step (sy_stream sys) = Inr s"
  shows "setup_ok m (sys\<lparr>sy_stream := s\<rparr>)" "at_position m (sys\<lparr>sy_stream := s\<rparr>) d j a ja"
proof -
  have s: "s = (sy_stream sys)\<lparr>ss_next_cnt := n, ss_step_cnt := step\<rparr>"
    using assms(3) by (auto simp: set_cnt_sequence_def split: if_splits)
  show "setup_ok m (sys\<lparr>sy_stream := s\<rparr>)" using assms(1) by (simp add: setup_ok_def s)
  have "core_inv P acc sent d j a ja s = core_inv P acc sent d j a ja (sy_stream sys)" for P acc sent
    by (rule core_inv_cong) (simp_all add: s completions_def)
  moreover have "pending_ok d k s p = pending_ok d k (sy_stream sys) p" for k p
    by (cases p) (simp_all add: s must_sleep_def)
  ultimately show "at_position m (sys\<lparr>sy_stream := s\<rparr>) d j a ja"
    using assms(2) by (simp add: at_position_def Let_def results_in_def) (auto simp: s)
qed

lemma step_inv:
  assumes "system_inv m sys" "event_good m ev" "system_step ev sys = Some r"
  obtains sys' where "r = Inr sys'" "system_inv m sys'"
proof -
  obtain d j a ja where inv: "setup_ok m sys" "at_position m sys d j a ja"
    using assms(1) by (auto simp: system_inv_def)
  show ?thesis
  proof (cases "own_event ev")
    case True
    from own_step_ok [OF inv True assms(3)] that show ?thesis unfolding system_inv_def by metis
  next
    case False
    show ?thesis
    proof (cases ev)
      case (Send_heap h handler cnt)
      then have "r = Inr (step_send h handler cnt sys)" "heap_good m h" using assms(2,3) by simp_all
      with step_send_ok [OF inv] that show ?thesis unfolding system_inv_def by metis
    next
      case (Set_cnt n step)
      show ?thesis
      proof (cases "set_cnt_sequence n step (sy_stream sys)")
        case (Inr s)
        then have "r = Inr (sys\<lparr>sy_stream := s\<rparr>)" using assms(3) Set_cnt by simp
        with set_cnt_ok [OF inv Inr] that show ?thesis unfolding system_inv_def by metis
      next
        case (Inl e)
        then have "r = Inr sys" using assms(3) Set_cnt by simp
        with assms(1) that show ?thesis by blast
      qed
    qed (use False in simp_all)
  qed
qed

lemma new_system_inv:
  assumes "config_good cfg" "0 < n" "m = sc_max_packet_size cfg"
  shows "system_inv m (new_system cfg n t)"
proof -
  let ?s = "make_send_stream cfg n"
  have "slots_ok [] 0 ?s" by (rule slots_okI) (simp_all add: make_send_stream_def)
  then have "core_inv (packets_of m []) [] [] 0 0 0 0 ?s"
    by (simp add: core_inv_def progress_ok_def gen_at_def position_in_def log_of_def completions_def)
      (simp add: make_send_stream_def)
  then have "at_position m (new_system cfg n t) 0 0 0 0"
    by (auto simp: at_position_def Let_def new_system_def results_in_def) (simp_all add: make_send_stream_def)
  moreover have "setup_ok m (new_system cfg n t)"
    using assms by (simp add: setup_ok_def new_system_def make_send_stream_def accepted_good_def config_good_def)
  ultimately show ?thesis unfolding system_inv_def by blast
qed

lemma system_run_inv:
  assumes "system_inv m sys" "\<forall>ev \<in> set evs. event_good m ev" "system_run evs sys = Some r"
  obtains sys' where "r = Inr sys'" "system_inv m sys'"
proof -
  have "\<exists>sys'. r = Inr sys' \<and> system_inv m sys'"
    using assms
  proof (induction evs arbitrary: sys)
    case (Cons ev evs)
    obtain r1 where r1: "system_step ev sys = Some r1" using Cons.prems(3) by (cases "system_step ev sys") auto
    obtain sys1 where "r1 = Inr sys1" "system_inv m sys1"
      using step_inv [OF Cons.prems(1) _ r1] Cons.prems(2) by auto
    with Cons r1 show ?case by auto
  qed auto
  with that show ?thesis by blast
qed

lemma numbered_log:
  assumes "batch_ok P n N k j xs a ja" "i < k"
  shows "log_of i (sent @ numbered P k j xs) = log_of i sent"
proof -
  have "log_of i (numbered P k j xs) = []"
    using assms by (induction xs arbitrary: k j) (auto simp: log_of_def advance_def split: if_splits)
  then show ?thesis by (simp add: log_of_def)
qed

text \<open>What the invariant says of the completed heaps.\<close>

lemma system_inv_results:
  assumes "system_inv m sys" "acc = sy_accepted sys" "s = sy_stream sys" "d = length (completions s)"
  shows "d \<le> length acc" "length acc - d \<le> sc_max_heaps (ss_config s)"
    "\<And>k. k < d \<Longrightarrow> \<exists>err bytes. completions s ! k = Completed (snd (snd (acc ! k))) err bytes \<and>
      result_right (packets_of m acc k) (log_of k (sy_log sys)) err bytes"
    "flush_returns s \<longleftrightarrow> sy_pending sys = No_callback" "flush_returns s \<Longrightarrow> d = length acc"
proof -
  obtain d' j a ja sent where pend: "pending_ok d' (length acc) s (sy_pending sys)"
      and core: "core_inv (packets_of m acc) acc sent d' j a ja s"
      and log: "sy_log sys = sent @ (if results_in sys then numbered (packets_of m acc) d' j (ss_current_packets s) else [])"
      and batch: "batch_ok (packets_of m acc) (length acc) (length (ss_queue s)) d' j (ss_current_packets s) a ja"
    using assms(1) unfolding system_inv_def at_position_def Let_def assms(2,3) by blast
  have slots: "slots_ok acc d' s" and prog: "progress_ok (packets_of m acc) acc d' j sent s"
    using core by (simp_all add: core_inv_def)
  have d: "d' = d" using prog assms(4) by (simp add: progress_ok_def)
  note dims = slots_dims [OF slots]
  show "d \<le> length acc" "length acc - d \<le> sc_max_heaps (ss_config s)" using dims(1-3) d by simp_all
  show "\<exists>err bytes. completions s ! k = Completed (snd (snd (acc ! k))) err bytes \<and>
      result_right (packets_of m acc k) (log_of k (sy_log sys)) err bytes" if "k < d" for k
    using prog that d numbered_log [OF batch, of k sent] unfolding log progress_ok_def by (auto split: if_splits)
  show "flush_returns s \<longleftrightarrow> sy_pending sys = No_callback" "flush_returns s \<Longrightarrow> d = length acc"
    using pend d by (cases "sy_pending sys"; auto simp: flush_returns_def)+
qed

end
