(* ===== verification/SendDelivery.thy ===== *)
theory SendDelivery
  imports SendProgress
begin

text \<open>
  The properties of the sending stream that follow from the invariant: order and results of the
  completion handlers, progress, the outcomes of \<^verbatim>\<open>async_send_heap\<close>, valid configurations, and the
  configuration that makes an assertion fail.
\<close>

section \<open>An example\<close>

definition small_config :: stream_config where
  "small_config = default_stream_config\<lparr>sc_max_packet_size := 64\<rparr>"

definition send_example :: "nat send_event list" where
  "send_example = [Send_heap immediates_heap 7 (- 1), Do_next 5 6, Load_and_send, Transport_done [Success], Do_next 8 8]"

lemma small_config_good: "config_good small_config" "sc_max_packet_size small_config = 64"
  by (simp_all add: config_good_def small_config_def default_stream_config_def)

lemma send_example_good: "\<forall>ev \<in> set send_example. event_good 64 ev"
  using immediates_sendable by (simp add: send_example_def heap_good_def immediates_heap_def sendable_def)

lemma next_slot_small:
  "next_queue_slot s (ss_queue_tail s) \<noteq> ss_queue_head s \<Longrightarrow> async_send_heap h handler (- 1) s =
    (True, ss_state s = EMPTY, s\<lparr>ss_next_cnt := ss_next_cnt s + ss_step_cnt s,
      ss_queue := (ss_queue s)[ss_queue_tail s := Some \<lparr>qi_h = h, qi_cnt = cnt_chosen h (- 1) (ss_next_cnt s),
        qi_handler = handler, qi_bytes_sent = 0\<rparr>], ss_queue_tail := next_queue_slot s (ss_queue_tail s),
      ss_state := (if ss_state s = EMPTY then QUEUED else ss_state s)\<rparr>)"
  by (subst async_send_heap_accepts [OF refl _ _ refl]) (simp_all add: cnt_accepted_def)

lemma first_send:
  assumes "0 < sc_max_heaps cfg"
  shows "step_send h handler (- 1) (new_system cfg n t) =
    (new_system cfg n t)\<lparr>sy_stream := (make_send_stream cfg n)\<lparr>ss_next_cnt := 2,
        ss_queue := (replicate (sc_max_heaps cfg + 1) None)[0 := Some \<lparr>qi_h = h, qi_cnt = cnt_chosen h (- 1) 1,
          qi_handler = handler, qi_bytes_sent = 0\<rparr>], ss_queue_tail := 1, ss_state := QUEUED\<rparr>,
      sy_pending := Do_next_pending, sy_accepted := [(h, cnt_chosen h (- 1) 1, handler)]\<rparr>"
proof -
  let ?s = "make_send_stream cfg n :: 'a send_stream"
  have nx: "next_queue_slot ?s (ss_queue_tail ?s) = 1"
    using assms by (simp add: next_queue_slot_def make_send_stream_def)
  then have "next_queue_slot ?s (ss_queue_tail ?s) \<noteq> ss_queue_head ?s" by (simp add: make_send_stream_def)
  note step = next_slot_small [OF this, of h handler, unfolded nx]
  show ?thesis unfolding step_send_def
    by (simp add: new_system_def step) (simp add: make_send_stream_def)
qed

lemma first_do_next:
  assumes "0 < sc_max_heaps cfg" "0 \<le> t1" "t1 \<le> t2"
  obtains sys where "step_do_next t1 t2 (step_send h handler (- 1) (new_system cfg n t)) = Inr sys"
    "sy_pending sys = Loading 1" "ss_active (sy_stream sys) = 0" "ss_config (sy_stream sys) = cfg"
    "ss_rate_bytes (sy_stream sys) = 0" "ss_max_current_packets (sy_stream sys) = n"
proof -
  have "sc_burst_size cfg = 0 \<or> 0 < sc_burst_size cfg" by auto
  then show ?thesis using assms that unfolding first_send [OF assms(1)]
    by (auto simp: step_do_next_def do_next_locked_def do_next_tail_def must_sleep_def make_send_stream_def
        update_send_time_empty_def update_send_times_def duration_cast_def Let_def new_system_def max_def)
qed

lemma load_loop_length:
  assumes "load_loop k t s = Inr s'"
  shows "length (ss_current_packets s') \<le> length (ss_current_packets s) + k"
  using assms
proof (induction k arbitrary: s)
  case (Suc k)
  show ?case
  proof (cases "must_sleep s \<or> ss_active s = t")
    case False
    then obtain s1 where s1: "load_packet s = Inr s1" "load_loop k t s1 = Inr s'"
      using Suc.prems by (auto simp: bind_result_Inr_iff)
    obtain x where "ss_current_packets s1 = ss_current_packets s @ [x]" using load_packet_append [OF s1(1)] by metis
    then show ?thesis using Suc.IH [OF s1(2)] by simp
  qed (use Suc.prems in auto)
qed simp

lemma send_example_runs:
  obtains sys where "system_run send_example (new_system small_config 1 0) = Some (Inr sys)" "length (sy_log sys) = 1"
proof -
  let ?sys0 = "new_system small_config 1 0 :: nat send_system"
  let ?sys1 = "step_send immediates_heap 7 (- 1) ?sys0"
  have inv0: "system_inv 64 ?sys0" using small_config_good by (intro new_system_inv) simp_all
  have run1: "system_step (Send_heap immediates_heap 7 (- 1)) ?sys0 = Some (Inr ?sys1)" by simp
  have inv1: "system_inv 64 ?sys1"
    using step_inv [OF inv0 _ run1] send_example_good by (auto simp: send_example_def)
  have pend1: "sy_pending ?sys1 = Do_next_pending" "sy_now ?sys1 = 0" "sy_log ?sys1 = []"
    by (simp_all add: first_send small_config_def default_stream_config_def) (simp_all add: new_system_def)
  obtain sys2 where sys2: "step_do_next 5 6 ?sys1 = Inr sys2" "sy_pending sys2 = Loading 1"
      "ss_max_current_packets (sy_stream sys2) = 1"
    by (rule first_do_next [of small_config 5 6 immediates_heap 7 1 0])
      (auto simp: small_config_def default_stream_config_def)
  have run2: "system_step (Do_next 5 6) ?sys1 = Some (Inr sys2)" using pend1 sys2(1) by simp
  have inv2: "system_inv 64 sys2" using step_inv [OF inv1 _ run2] by auto
  have log2: "sy_log sys2 = []"
    using sys2(1) pend1(3) by (auto simp: step_do_next_def bind_result_Inr_iff Let_def)
  obtain d j a ja where pos2: "setup_ok 64 sys2" "at_position 64 sys2 d j a ja"
    using inv2 by (auto simp: system_inv_def)
  obtain s3 d' j' a' ja' where s3: "do_next_send 1 (sy_stream sys2) = Inr s3"
      "at_position 64 (sys2\<lparr>sy_stream := s3, sy_pending := Transmitting\<rparr>) d' j' a' ja'"
      "load_loop (ss_max_current_packets (sy_stream sys2)) 1 ((sy_stream sys2)\<lparr>ss_current_packets := []\<rparr>) = Inr s3"
    using step_load_ok [OF pos2 sys2(2)] by metis
  let ?sys3 = "sys2\<lparr>sy_stream := s3, sy_pending := Transmitting\<rparr>"
  have run3: "system_step Load_and_send sys2 = Some (Inr ?sys3)" using sys2(2) s3(1) by simp
  have inv3: "system_inv 64 ?sys3" using step_inv [OF inv2 _ run3] by auto
  have "ss_current_packets s3 \<noteq> []" using s3(2) by (simp add: at_position_def Let_def)
  then have len: "length (ss_current_packets s3) = 1"
    using load_loop_length [OF s3(3)] sys2(3) by (cases "ss_current_packets s3") auto
  let ?sys4 = "step_transport [Success] ?sys3"
  have run4: "system_step (Transport_done [Success]) ?sys3 = Some (Inr ?sys4)" using len by simp
  have inv4: "system_inv 64 ?sys4" using step_inv [OF inv3 _ run4] by auto
  have sys4: "sy_pending ?sys4 = Do_next_pending" "sy_now ?sys4 = 6" "length (sy_log ?sys4) = 1"
    using sys2(1) len log2
    by (auto simp: step_transport_def Let_def log_entries_def set_results_def step_do_next_def bind_result_Inr_iff)
  obtain sys5 where sys5: "step_do_next 8 8 ?sys4 = Inr sys5"
    using inv4 step_do_next_ok [of 64 ?sys4] sys4(1) unfolding system_inv_def by metis
  have run5: "system_step (Do_next 8 8) ?sys4 = Some (Inr sys5)" using sys4 sys5 by simp
  have "length (sy_log sys5) = 1"
    using sys5 sys4(3) by (auto simp: step_do_next_def bind_result_Inr_iff Let_def)
  moreover have "system_run send_example ?sys0 = Some (Inr sys5)"
    by (simp only: send_example_def system_run.simps run1 run2 run3 run4 run5 option.case sum.case)
  ultimately show ?thesis by (intro that)
qed

text \<open>The destructor visits exactly the slots from the head to the tail.\<close>

lemma destroy_queue_ok:
  assumes slots: "slots_ok acc d s" and "d \<le> k" "k \<le> length acc" "length acc - k \<le> fuel"
    and t: "length (ss_queue t) = length (ss_queue s)" "ss_queue_tail t = ss_queue_tail s" "ss_config t = ss_config s"
      "\<And>i. k \<le> i \<Longrightarrow> i < length acc \<Longrightarrow> ss_queue t ! (i mod length (ss_queue s)) = ss_queue s ! (i mod length (ss_queue s))"
  shows "\<exists>t'. destroy_queue fuel (k mod length (ss_queue s)) t = Inr t' \<and>
    (\<forall>i. k \<le> i \<and> i < length acc \<longrightarrow> ss_queue t' ! (i mod length (ss_queue s)) = None) \<and>
    (\<forall>i < length (ss_queue s). ss_queue t ! i = None \<longrightarrow> ss_queue t' ! i = None)"
  using assms(2-8)
proof (induction fuel arbitrary: k t)
  case 0
  then have "k mod length (ss_queue s) = ss_queue_tail t" using slots_dims(5) [OF slots] by simp
  then show ?case using 0 by (auto simp: destroy_queue.simps)
next
  case (Suc fuel)
  let ?N = "length (ss_queue s)"
  note dims = slots_dims [OF slots]
  show ?case
  proof (cases "k = length acc")
    case True
    then have "k mod ?N = ss_queue_tail t" using dims(5) Suc.prems(5) by simp
    then show ?thesis using True by (auto simp: destroy_queue.simps)
  next
    case False
    then have k: "k < length acc" using Suc.prems(2) by simp
    have other: "i mod ?N \<noteq> k mod ?N" if "Suc k \<le> i" "i \<le> length acc" for i
      using mod_inj_window [of d i ?N k] that Suc.prems(1) dims(3) by auto
    have kN: "k mod ?N < ?N" using dims(1) by simp
    obtain it where it: "ss_queue s ! (k mod ?N) = Some it" using slots_item [OF slots Suc.prems(1) k] by metis
    then have "get_queue (k mod ?N) t = Inr it"
      using Suc.prems(4,7) k kN by (intro get_queue_Some) simp_all
    moreover have "k mod ?N \<noteq> ss_queue_tail t" using other [of "length acc"] k dims(5) Suc.prems(5) by simp
    moreover have "next_queue_slot t (k mod ?N) = Suc k mod ?N"
      using dims(1) Suc.prems(6) by (intro next_slot_mod) simp
    ultimately have step: "destroy_queue (Suc fuel) (k mod ?N) t =
        destroy_queue fuel (Suc k mod ?N) (t\<lparr>ss_queue := (ss_queue t)[k mod ?N := None]\<rparr>)"
      by (simp add: destroy_queue.simps [of "Suc fuel"])
    let ?t = "t\<lparr>ss_queue := (ss_queue t)[k mod ?N := None]\<rparr>"
    have keep: "ss_queue ?t ! (i mod ?N) = ss_queue s ! (i mod ?N)" if "Suc k \<le> i" "i < length acc" for i
      using other [of i] that Suc.prems(7) [of i] by simp
    have "\<exists>t'. destroy_queue fuel (Suc k mod ?N) ?t = Inr t' \<and>
        (\<forall>i. Suc k \<le> i \<and> i < length acc \<longrightarrow> ss_queue t' ! (i mod ?N) = None) \<and>
        (\<forall>i < ?N. ss_queue ?t ! i = None \<longrightarrow> ss_queue t' ! i = None)"
      using Suc.prems(1,3-6) k keep by (intro Suc.IH) simp_all
    then obtain t' where t': "destroy_queue fuel (Suc k mod ?N) ?t = Inr t'"
        "\<And>i. Suc k \<le> i \<Longrightarrow> i < length acc \<Longrightarrow> ss_queue t' ! (i mod ?N) = None"
        "\<And>i. i < ?N \<Longrightarrow> ss_queue ?t ! i = None \<Longrightarrow> ss_queue t' ! i = None"
      by blast
    have "ss_queue t' ! (k mod ?N) = None" using t'(3) [OF kN] kN Suc.prems(4) by simp
    then have "ss_queue t' ! (i mod ?N) = None" if "k \<le> i" "i < length acc" for i
      using t'(2) [of i] that by (cases "i = k") simp_all
    moreover have "ss_queue t' ! i = None" if "i < ?N" "ss_queue t ! i = None" for i
      using t'(3) [OF that(1)] that Suc.prems(4) by (cases "i = k mod ?N") simp_all
    ultimately show ?thesis using step t'(1) by auto
  qed
qed

section \<open>Properties\<close>

text \<open>
  C4: In every interleaving of user calls, callbacks, timer and transport, with any results of
  the transport, no assertion of the sending stream fails and no slot of raw storage is used;
  the handlers of accepted heaps are called once each and in the order in which the heaps were
  accepted; each is called with the first error among its packets and the bytes sent
  before it, or with success and the size of all packets of the heap once all were sent;
  at most \<^verbatim>\<open>max_heaps\<close> heaps wait, and when \<^verbatim>\<open>flush\<close> returns none does.
\<close>

theorem send_stream_in_order:
  assumes "config_good cfg" "0 < n" "\<forall>ev \<in> set evs. event_good (sc_max_packet_size cfg) ev"
    and "system_run evs (new_system cfg n t) = Some r"
  shows "\<exists>sys. r = Inr sys \<and>
    (let s = sy_stream sys; acc = sy_accepted sys; d = length (completions s) in
     d \<le> length acc \<and> length acc - d \<le> sc_max_heaps (ss_config s) \<and>
     (\<forall>k < d. \<exists>h cnt handler err bytes. acc ! k = (h, cnt, handler) \<and>
        completions s ! k = Completed handler err bytes \<and>
        result_right (heap_packets (sc_max_packet_size cfg) h cnt) (log_of k (sy_log sys)) err bytes) \<and>
     (flush_returns s \<longrightarrow> d = length acc))"
proof -
  let ?m = "sc_max_packet_size cfg"
  obtain sys where sys: "r = Inr sys" "system_inv ?m sys"
    using system_run_inv [OF new_system_inv [OF assms(1,2) refl] assms(3,4)] .
  note facts = system_inv_results [OF sys(2) refl refl refl]
  have "\<exists>h cnt handler err bytes. sy_accepted sys ! k = (h, cnt, handler) \<and>
      completions (sy_stream sys) ! k = Completed handler err bytes \<and>
      result_right (heap_packets ?m h cnt) (log_of k (sy_log sys)) err bytes"
    if "k < length (completions (sy_stream sys))" for k
    using facts(1) facts(3) [OF that] that by (cases "sy_accepted sys ! k") (auto simp: packets_of_def)
  with sys(1) facts(1,2,5) show ?thesis by (auto simp: Let_def)
qed

theorem send_stream_in_order_witness:
  "\<exists>sys. system_run send_example (new_system small_config 1 0) = Some (Inr sys) \<and> length (sy_log sys) = 1 \<and>
    length (completions (sy_stream sys)) \<le> length (sy_accepted sys)"
proof -
  obtain sys where sys: "system_run send_example (new_system small_config 1 0) = Some (Inr sys)" "length (sy_log sys) = 1"
    by (rule send_example_runs)
  have good: "\<forall>ev \<in> set send_example. event_good (sc_max_packet_size small_config) ev"
    using send_example_good small_config_good(2) by simp
  from send_stream_in_order [OF small_config_good(1) zero_less_one good sys(1)] sys show ?thesis
    by (auto simp: Let_def)
qed

text \<open>
  C14: The sending stream makes progress.  Whenever heaps are waiting, a callback is pending and
  can run, whatever the clock and the transport answer; and without further calls of the user only a
  bounded number of callbacks can follow, so that \<^verbatim>\<open>flush\<close> returns.
\<close>

theorem send_stream_drains:
  assumes "config_good cfg" "0 < n" "\<forall>ev \<in> set evs. event_good (sc_max_packet_size cfg) ev"
    and "system_run evs (new_system cfg n t) = Some (Inr sys)"
  shows "(flush_returns (sy_stream sys) \<or>
      (\<exists>ev. own_event ev \<and> (\<exists>sys'. system_step ev sys = Some (Inr sys')))) \<and>
    (\<exists>B. \<forall>evs'. list_all own_event evs' \<and> system_run evs' sys \<noteq> None \<longrightarrow> length evs' \<le> B)"
proof -
  let ?m = "sc_max_packet_size cfg"
  have inv: "system_inv ?m sys"
    using system_run_inv [OF new_system_inv [OF assms(1,2) refl] assms(3,4)] by auto
  then obtain d j a ja where pos: "setup_ok ?m sys" "at_position ?m sys d j a ja" by (auto simp: system_inv_def)
  have enabled: "\<exists>ev. own_event ev \<and> system_step ev sys \<noteq> None" if "sy_pending sys \<noteq> No_callback"
  proof (cases "sy_pending sys")
    case (Timer_set t)
    let ?t = "max t (sy_now sys)"
    show ?thesis using Timer_set by (intro exI [of _ "Do_next ?t ?t"]) simp
  next
    case Do_next_pending
    then show ?thesis by (intro exI [of _ "Do_next (sy_now sys) (sy_now sys)"]) simp
  next
    case (Loading t)
    then show ?thesis by (intro exI [of _ Load_and_send]) simp
  next
    case Transmitting
    then show ?thesis
      by (intro exI [of _ "Transport_done (replicate (length (ss_current_packets (sy_stream sys))) Success)"]) simp
  qed (use that in simp)
  have "flush_returns (sy_stream sys) \<or> (\<exists>ev. own_event ev \<and> (\<exists>sys'. system_step ev sys = Some (Inr sys')))"
    using enabled own_step_ok [OF pos] system_inv_results(4) [OF inv refl refl refl] by (metis not_None_eq)
  moreover have "length evs' \<le> rank ?m sys a ja" if "list_all own_event evs'" "system_run evs' sys \<noteq> None" for evs'
    using pos that
  proof (induction evs' arbitrary: sys d j a ja)
    case (Cons ev evs')
    then obtain r where r: "system_step ev sys = Some r" by (cases "system_step ev sys") auto
    from Cons.prems(3) have own: "own_event ev" by simp
    obtain sys' d' j' a' ja' where s: "r = Inr sys'" "setup_ok ?m sys'" "at_position ?m sys' d' j' a' ja'"
        "rank ?m sys' a' ja' < rank ?m sys a ja"
      using own_step_ok [OF Cons.prems(1,2) own r] .
    then show ?case using Cons.IH [OF s(2,3)] Cons.prems(3,4) r by simp
  qed simp
  ultimately show ?thesis by blast
qed

theorem send_stream_drains_witness:
  "\<exists>sys :: nat send_system. system_run send_example (new_system small_config 1 0) = Some (Inr sys) \<and>
    (\<exists>B. \<forall>evs'. list_all own_event evs' \<and> system_run evs' sys \<noteq> None \<longrightarrow> length evs' \<le> B)"
proof -
  obtain sys where sys: "system_run send_example (new_system small_config 1 0) = Some (Inr sys)"
    using send_example_runs by metis
  have good: "\<forall>ev \<in> set send_example. event_good (sc_max_packet_size small_config) ev"
    using send_example_good small_config_good(2) by simp
  from send_stream_drains [OF small_config_good(1) zero_less_one good sys] sys show ?thesis by blast
qed

text \<open>
  The outcomes of \<^verbatim>\<open>async_send_heap\<close> in every reachable state, and of the destructor.  A heap is refused
  with \<^verbatim>\<open>would_block\<close> exactly if \<^verbatim>\<open>max_heaps\<close> heaps are waiting, and with \<^verbatim>\<open>invalid_argument\<close> exactly if
  an explicit cnt does not fit the address bits of its flavour; its handler is posted at once.
  Otherwise it is stored at the tail, with a cnt that fits: the given one or the next of the
  sequence, which then advances.  \<^verbatim>\<open>do_next\<close> is dispatched exactly if the stream was empty.  The
  destructor destroys the waiting items and touches no raw storage.
\<close>

lemma async_send_heap_outcome:
  assumes "config_good cfg" "0 < n" "\<forall>ev \<in> set evs. event_good (sc_max_packet_size cfg) ev"
    and "system_run evs (new_system cfg n t) = Some (Inr sys)" and s: "s = sy_stream sys"
    and waiting: "waiting = length (sy_accepted sys) - length (completions s)"
  shows "(case async_send_heap h handler cnt s of (accepted, dispatched, s') \<Rightarrow>
      (accepted \<longleftrightarrow> waiting < sc_max_heaps (ss_config s) \<and> cnt_accepted h cnt) \<and>
      (\<not> accepted \<longrightarrow> \<not> dispatched \<and> s' = s\<lparr>ss_posted := ss_posted s @
        [Refused handler (if waiting < sc_max_heaps (ss_config s) then Invalid_argument else Would_block)]\<rparr>) \<and>
      (accepted \<longrightarrow> (dispatched \<longleftrightarrow> flush_returns s) \<and> ss_posted s' = ss_posted s \<and>
        ss_queue s' = (ss_queue s)[ss_queue_tail s := Some \<lparr>qi_h = h, qi_cnt = cnt_chosen h cnt (ss_next_cnt s),
          qi_handler = handler, qi_bytes_sent = 0\<rparr>] \<and>
        ss_queue_head s' = ss_queue_head s \<and> ss_queue_tail s' = next_queue_slot s (ss_queue_tail s) \<and>
        unat (cnt_chosen h cnt (ss_next_cnt s)) < 2 ^ heap_bits h \<and>
        ss_next_cnt s' = (if cnt < 0 then ss_next_cnt s + ss_step_cnt s else ss_next_cnt s))) \<and>
    (\<exists>s'. destroy_send_stream s = Inr s' \<and>
      (\<forall>k. length (completions s) \<le> k \<and> k < length (sy_accepted sys) \<longrightarrow>
        ss_queue s' ! (k mod length (ss_queue s)) = None))"
proof -
  let ?m = "sc_max_packet_size cfg" and ?acc = "sy_accepted sys" and ?d = "length (completions s)"
  have inv: "system_inv ?m sys"
    using system_run_inv [OF new_system_inv [OF assms(1,2) refl] assms(3,4)] by auto
  then obtain d' j a ja sent where "core_inv (packets_of ?m ?acc) ?acc sent d' j a ja s"
    unfolding system_inv_def at_position_def Let_def s by blast
  then have slots: "slots_ok ?acc ?d s" by (auto simp: core_inv_def progress_ok_def)
  note cases = async_send_heap_cases [OF slots, where h = h and cnt = cnt and handler = handler, OF refl refl] and dims = slots_dims [OF slots]
  have w: "waiting \<le> sc_max_heaps (ss_config s)" using dims(1-3) waiting by simp
  have nx: "next_queue_slot s (ss_queue_tail s) = Suc (length ?acc) mod length (ss_queue s)"
    unfolding dims(5) by (rule next_slot_mod [OF dims(1)])
  have "\<exists>s'. destroy_send_stream s = Inr s' \<and>
      (\<forall>k. ?d \<le> k \<and> k < length ?acc \<longrightarrow> ss_queue s' ! (k mod length (ss_queue s)) = None)"
  proof -
    have "length ?acc - ?d \<le> length (ss_queue s)" using dims(3) by simp
    from destroy_queue_ok [OF slots order_refl dims(2) this refl refl refl refl] dims(4) show ?thesis
      unfolding destroy_send_stream_def by auto
  qed
  then show ?thesis
    unfolding cases(1) waiting [symmetric] using w cnt_chosen_fits [of h cnt "ss_next_cnt s"]
    by (auto simp: flush_returns_def nx split: if_splits)
qed

lemma async_send_heap_outcome_witness:
  "\<exists>sys :: nat send_system. system_run send_example (new_system small_config 1 0) = Some (Inr sys) \<and>
    \<not> fst (async_send_heap immediates_heap 9 (2 ^ 50) (sy_stream sys))"
proof -
  obtain sys where sys: "system_run send_example (new_system small_config 1 0) = Some (Inr sys)"
    using send_example_runs by metis
  have good: "\<forall>ev \<in> set send_example. event_good (sc_max_packet_size small_config) ev"
    using send_example_good small_config_good(2) by simp
  have bits: "heap_bits immediates_heap = 40" by (simp add: immediates_heap_def default_flavour_def)
  have "\<not> cnt_accepted immediates_heap (2 ^ 50)"
    unfolding cnt_accepted_def bits by (simp add: word_le_nat_alt)
  with async_send_heap_outcome [OF small_config_good(1) zero_less_one good sys refl refl,
      where h = immediates_heap and handler = 9 and cnt = "2 ^ 50"] sys
  show ?thesis by (auto split: prod.splits)
qed

text \<open>
  A burst size of zero is accepted by the configuration, but the stream always finds that it has to sleep
  and loads no packet: whatever the heap, the first one fails the assertion
  \<^verbatim>\<open>n_current_packets > 0\<close>.
\<close>

lemma burst_size_zero:
  assumes "make_stream_config m rate 0 k ratio = Inr cfg" "0 \<le> t0" "t0 \<le> t1" "t1 \<le> t2"
  shows "system_run [Send_heap h handler (- 1), Do_next t1 t2, Load_and_send] (new_system cfg n t0) =
    Some (Inl Assertion_failed)"
proof -
  have cfg: "sc_burst_size cfg = 0" "0 < sc_max_heaps cfg"
    using assms(1)
    by (auto simp: make_stream_config_def set_rate_def set_max_heaps_def set_burst_rate_ratio_def Let_def
        set_max_packet_size_def set_burst_size_def split: if_splits)
  let ?sys1 = "step_send h handler (- 1) (new_system cfg n t0)"
  have p: "sy_pending ?sys1 = Do_next_pending" "sy_now ?sys1 = t0"
    by (simp_all add: first_send [OF cfg(2)]) (simp_all add: new_system_def)
  obtain sys where sys: "step_do_next t1 t2 ?sys1 = Inr sys" "sy_pending sys = Loading 1"
      "ss_config (sy_stream sys) = cfg"
    using first_do_next [OF cfg(2) _ assms(4), of h handler n t0] assms(2,3) by (metis order_trans)
  have sleep: "must_sleep ((sy_stream sys)\<lparr>ss_current_packets := []\<rparr>)" using cfg(1) sys(3) by (simp add: must_sleep_def)
  have "load_packets 1 (sy_stream sys) = Inr ((sy_stream sys)\<lparr>ss_current_packets := []\<rparr>)"
    unfolding load_packets_def using sleep by (cases "ss_max_current_packets (sy_stream sys)") simp_all
  then have "system_step Load_and_send sys = Some (Inl Assertion_failed)"
    using sys(2) by (simp add: do_next_send_def)
  moreover have "system_step (Do_next t1 t2) ?sys1 = Some (Inr sys)" using p assms(3,4) sys(1) by simp
  moreover have "system_step (Send_heap h handler (- 1)) (new_system cfg n t0) = Some (Inr ?sys1)" by simp
  ultimately show ?thesis by (simp only: system_run.simps option.case sum.case)
qed

lemma burst_size_zero_witness:
  "\<exists>cfg. make_stream_config 1472 (Finite 0) 0 4 (Finite (105 / 100)) = Inr cfg \<and>
    system_run [Send_heap immediates_heap (7 :: nat) (- 1), Do_next 1 2, Load_and_send] (new_system cfg 1 0) =
      Some (Inl Assertion_failed)"
proof -
  obtain cfg where cfg: "make_stream_config 1472 (Finite 0) 0 4 (Finite (105 / 100)) = Inr cfg"
    by (simp add: make_stream_config_def set_rate_def set_max_heaps_def set_burst_rate_ratio_def Let_def)
  have "system_run [Send_heap immediates_heap (7 :: nat) (- 1), Do_next 1 2, Load_and_send] (new_system cfg 1 0) =
      Some (Inl Assertion_failed)"
    by (rule burst_size_zero [OF cfg]) simp_all
  with cfg show ?thesis by blast
qed

text \<open>
  C39: The constructor of \<^verbatim>\<open>stream_config\<close> succeeds exactly on finite rates that are not negative, positive queue
  sizes and finite burst ratios of at least one, and throws otherwise; the resulting
  configuration holds the arguments, and its burst rate is at least its rate.
\<close>

theorem stream_config_valid:
  "(make_stream_config m rate b k ratio = Inr c \<longleftrightarrow>
      (\<exists>r q. rate = Finite r \<and> ratio = Finite q \<and> 0 \<le> r \<and> 1 \<le> q \<and> 0 < k \<and>
        c = \<lparr>sc_max_packet_size = m, sc_rate = r, sc_burst_size = b, sc_max_heaps = k, sc_burst_rate_ratio = q\<rparr>)) \<and>
   (make_stream_config m rate b k ratio = Inr c \<longrightarrow> sc_rate c \<le> get_burst_rate c) \<and>
   (make_stream_config m rate b k ratio = Inl e \<longrightarrow>
      e = Exception (if \<not> (\<exists>r \<ge> 0. rate = Finite r) then ''rate must be non-negative''
        else if k = 0 then ''max_heaps must be positive'' else ''burst rate ratio must be at least 1.0 and finite''))"
proof -
  note unfold = make_stream_config_def set_rate_def set_max_heaps_def set_burst_rate_ratio_def Let_def
      set_max_packet_size_def set_burst_size_def default_stream_config_def
  have iff: "make_stream_config m rate b k ratio = Inr c \<longleftrightarrow>
      (\<exists>r q. rate = Finite r \<and> ratio = Finite q \<and> 0 \<le> r \<and> 1 \<le> q \<and> 0 < k \<and>
        c = \<lparr>sc_max_packet_size = m, sc_rate = r, sc_burst_size = b, sc_max_heaps = k, sc_burst_rate_ratio = q\<rparr>)"
    by (cases rate; cases ratio) (auto simp: unfold)
  have "sc_rate c \<le> get_burst_rate c" if "make_stream_config m rate b k ratio = Inr c"
    using that mult_left_mono [of 1 "sc_burst_rate_ratio c" "sc_rate c"] unfolding iff by (auto simp: get_burst_rate_def)
  moreover have "e = Exception (if \<not> (\<exists>r \<ge> 0. rate = Finite r) then ''rate must be non-negative''
        else if k = 0 then ''max_heaps must be positive'' else ''burst rate ratio must be at least 1.0 and finite'')"
    if "make_stream_config m rate b k ratio = Inl e"
    using that by (cases rate; cases ratio) (auto simp: unfold split: if_splits)
  ultimately show ?thesis using iff by blast
qed

theorem stream_config_valid_witness:
  "\<exists>c. make_stream_config 1472 (Finite 1000) 65536 4 (Finite (105 / 100)) = Inr c \<and> sc_rate c \<le> get_burst_rate c"
proof -
  obtain c where c: "make_stream_config 1472 (Finite 1000) 65536 4 (Finite (105 / 100)) = Inr c"
    by (simp add: make_stream_config_def set_rate_def set_max_heaps_def set_burst_rate_ratio_def Let_def)
  with stream_config_valid [of 1472 "Finite 1000" 65536 4 "Finite (105 / 100)" c] show ?thesis by blast
qed

end
