(* ===== verification/SendPacing.thy ===== *)
theory SendPacing
  imports SendDelivery
begin

text \<open>
  The rate limit of the sending stream.  \<^verbatim>\<open>send_time\<close> is the time at which the bytes accounted for so far should
  have been sent; it advances by the time that each burst takes at the configured rate, and nothing
  is loaded before it.  The truncation to ticks loses less than one tick per burst.
\<close>

section \<open>The bytes of a run\<close>

text \<open>All bytes that were handed to the transport.\<close>

definition bytes_sent :: "'h send_system \<Rightarrow> nat" where
  "bytes_sent sys =
     sum_list (map (\<lambda>e. packet_size (fst (snd e))) (sy_log sys)) +
     (if results_in sys then 0 else sum_list (map tp_size (ss_current_packets (sy_stream sys))))"

definition rate_bound :: "stream_config \<Rightarrow> int \<Rightarrow> nat \<Rightarrow> rat" where
  "rate_bound c elapsed bursts =
     sc_rate c * (of_int elapsed + of_nat bursts) / ticks_per_second + of_nat (sc_burst_size c + sc_max_packet_size c)"

fun on_time :: "int \<Rightarrow> int \<Rightarrow> pending \<Rightarrow> bool" where
  "on_time now send_time (Timer_set t) \<longleftrightarrow> send_time \<le> t"
| "on_time now send_time _ \<longleftrightarrow> send_time \<le> now"

definition pace_inv :: "'h send_system \<Rightarrow> bool" where
  "pace_inv sys \<longleftrightarrow>
     (let s = sy_stream sys; c = ss_config s in
      bytes_sent sys = sy_paced sys + unat (ss_rate_bytes s) \<and>
      on_time (sy_now sys) (ss_send_time s) (sy_pending sys) \<and>
      (case sy_start sys of
         None \<Rightarrow> ss_state s \<noteq> SENDING \<and> (\<forall>t. sy_pending sys \<noteq> Timer_set t) \<and> ss_rate_bytes s = 0 \<and>
           ss_send_time s = 0 \<and> sy_paced sys = 0 \<and> sy_bursts sys = 0
       | Some t0 \<Rightarrow> t0 \<le> sy_now sys \<and>
           of_int t0 + of_nat (sy_paced sys) * seconds_per_byte s * ticks_per_second - of_nat (sy_bursts sys)
             \<le> of_int (ss_send_time s) \<and>
           of_nat (bytes_sent sys) < rate_bound c (sy_now sys - t0) (sy_bursts sys)))"

text \<open>Packets are no larger than asked for.\<close>

lemma heap_packet_size:
  assumes "m mod 8 = 0" "56 \<le> m" "heap_good m h" "unat cnt < 2 ^ heap_bits h" "p \<in> set (heap_packets m h cnt)"
  shows "packet_size p \<le> m"
proof -
  have "sendable h cnt" using assms by (auto simp: heap_good_def sendable_def)
  then obtain g where g: "make_packet_generator h cnt m = Inr g" "gen_inv g" "pg_max_packet_size g = m"
    using make_packet_generator_ok [of h cnt m] assms by (metis heap_good_def)
  obtain ps wires where ps: "all_packets (pg_payload_size g) g = Inr ps"
      "map (\<lambda>p. concat (sp_buffers p)) ps = map (wire_bytes (heap_bits (pg_h g)) (sint (pg_cnt g)) (int (pg_payload_size g))) wires"
      and w: "\<forall>w \<in> set wires. length (fst (snd w)) * 8 + length (snd (snd w)) + 40 \<le> m"
    using all_packets_ok [OF g(2) _ refl, of "pg_payload_size g"] g(3) by auto
  have "p \<in> set ps" using assms(5) g(1) ps(1) by (simp add: heap_packets_def gen_rest_def)
  then have "concat (sp_buffers p) \<in> set (map (\<lambda>p. concat (sp_buffers p)) ps)" by simp
  then have "length (concat (sp_buffers p)) \<le> m" unfolding ps(2) using w by (auto simp: length_wire_bytes)
  then show ?thesis by (simp add: packet_size_def length_concat)
qed

lemma accepted_packet_size:
  assumes "accepted_good m acc" "p \<in> set (packets_of m acc k)"
  shows "packet_size p \<le> m"
proof -
  have k: "k < length acc" using assms(2) by (cases "k < length acc") (simp_all add: packets_of_def)
  obtain h cnt handler where a: "acc ! k = (h, cnt, handler)" by (cases "acc ! k") auto
  then have "(h, cnt, handler) \<in> set acc" using k by (metis nth_mem)
  then show ?thesis using assms k a by (intro heap_packet_size [of m h cnt]) (auto simp: accepted_good_def packets_of_def)
qed

section \<open>Time\<close>

lemma seconds_per_byte_nonneg: "0 \<le> seconds_per_byte s"
  by (simp add: seconds_per_byte_def Let_def)

lemma duration_cast_bounds:
  assumes "0 \<le> x"
  shows "0 \<le> duration_cast x" "x * ticks_per_second - 1 < of_int (duration_cast x)"
proof -
  have "0 \<le> x * ticks_per_second" using assms by (simp add: ticks_per_second_def)
  then show "0 \<le> duration_cast x" "x * ticks_per_second - 1 < of_int (duration_cast x)"
    using assms by (simp_all add: duration_cast_def) linarith
qed

declare of_nat_unat [simp del]

lemma wait_nonneg: "0 \<le> of_nat (unat (ss_rate_bytes s)) * seconds_per_byte s"
  by (intro mult_nonneg_nonneg of_nat_0_le_iff seconds_per_byte_nonneg)

text \<open>What \<^verbatim>\<open>do_next\<close> does to the time of the next burst.\<close>

lemma do_next_tail_times:
  assumes "do_next_tail now s = (action, s')"
  shows "of_int (ss_send_time s) + (if must_sleep s then of_nat (unat (ss_rate_bytes s)) * seconds_per_byte s * ticks_per_second - 1 else 0)
      \<le> (of_int (ss_send_time s') :: rat)"
    "ss_send_time s \<le> now \<Longrightarrow> on_time now (ss_send_time s') (pending_of action)"
proof -
  let ?b = "of_nat (unat (ss_rate_bytes s)) * seconds_per_byte s"
  have b: "0 \<le> ?b" by (rule wait_nonneg)
  show "of_int (ss_send_time s) + (if must_sleep s then ?b * ticks_per_second - 1 else 0) \<le> (of_int (ss_send_time s') :: rat)"
    using assms duration_cast_bounds(2) [OF b]
    by (auto simp: do_next_tail_def update_send_times_def Let_def split: if_splits)
  show "on_time now (ss_send_time s') (pending_of action)" if "ss_send_time s \<le> now"
    using assms that
    by (auto simp: do_next_tail_def update_send_times_def Let_def max_def split: if_splits)
qed

lemma send_time_empty:
  "ss_send_time s \<le> now \<Longrightarrow> ss_send_time (update_send_time_empty now s) \<le> now"
  "ss_send_time s \<le> ss_send_time (update_send_time_empty now s)"
  "ss_rate_bytes s = 0 \<Longrightarrow> now \<le> ss_send_time (update_send_time_empty now s)"
  using duration_cast_bounds(1) [OF wait_nonneg [of s]]
  by (auto simp: update_send_time_empty_def Let_def) (simp add: duration_cast_def)

section \<open>Events keep the pace\<close>

lemma rate_bound_mono:
  assumes "0 \<le> sc_rate c" "e \<le> e'" "b \<le> b'"
  shows "rate_bound c e b \<le> rate_bound c e' b'"
proof -
  have "sc_rate c * (of_int e + of_nat b) \<le> sc_rate c * (of_int e' + of_nat b')"
    using assms by (intro mult_left_mono add_mono) simp_all
  then show ?thesis by (simp add: rate_bound_def ticks_per_second_def divide_right_mono)
qed

text \<open>The bytes accounted for are within the rate when the time of the next burst has come.\<close>

lemma paced_bound:
  assumes rate: "0 < sc_rate (ss_config s)"
    and paced: "of_int t0 + of_nat paced * seconds_per_byte s * ticks_per_second - of_nat bursts \<le> (of_int (ss_send_time s) :: rat)"
    and now: "ss_send_time s \<le> now"
  shows "of_nat paced + of_nat (sc_burst_size (ss_config s) + sc_max_packet_size (ss_config s)) \<le>
    rate_bound (ss_config s) (now - t0) bursts"
proof -
  let ?R = "sc_rate (ss_config s)"
  have "(of_int (ss_send_time s) :: rat) \<le> of_int now" using now by simp
  then have "of_nat paced / ?R * ticks_per_second \<le> of_int (now - t0) + of_nat bursts"
    using paced rate by (simp add: seconds_per_byte_def Let_def; linarith)
  then have "of_nat paced \<le> ?R * (of_int (now - t0) + of_nat bursts) / ticks_per_second"
    using rate by (simp add: ticks_per_second_def field_simps)
  then show ?thesis by (simp add: rate_bound_def)
qed

lemma pace_do_next:
  assumes ready: "setup_ok m sys" and pos: "at_position m sys d j a ja" and pace: "pace_inv sys"
    and rate: "0 < sc_rate (ss_config (sy_stream sys))"
    and due: "do_next_due t1 (sy_pending sys)" "sy_now sys \<le> t1" "t1 \<le> t2"
    and step: "step_do_next t1 t2 sys = Inr sys'"
  shows "pace_inv sys'"
proof -
  let ?s = "sy_stream sys"
  have due': "sy_pending sys = Do_next_pending \<or> (\<exists>t. sy_pending sys = Timer_set t)"
    using due(1) by (cases "sy_pending sys") auto
  obtain s1 d' j' where s1: "(case ss_state ?s of SENDING \<Rightarrow> process_results ?s
      | QUEUED \<Rightarrow> Inr (update_send_time_empty t1 ?s) | _ \<Rightarrow> Inr ?s) = Inr s1"
    "ss_current_packets s1 = []" "ss_config s1 = ss_config ?s" "ss_rate_bytes s1 = ss_rate_bytes ?s"
    "ss_send_time s1 = (if ss_state ?s = QUEUED then ss_send_time (update_send_time_empty t1 ?s) else ss_send_time ?s)"
    using do_next_results_ok [OF ready pos due' refl refl refl, where now_empty = t1] by metis
  obtain action s' where tl: "do_next_tail t2 s1 = (action, s')" by (cases "do_next_tail t2 s1") auto
  note sel = do_next_tail_sel [OF tl] and times = do_next_tail_times [OF tl]
  have slept: "must_sleep s1 = must_sleep ?s" using s1(3,4) by (simp add: must_sleep_def)
  have spb: "seconds_per_byte s1 = seconds_per_byte ?s" "seconds_per_byte s' = seconds_per_byte ?s"
    using s1(3) sel(7) by (simp_all add: seconds_per_byte_def)
  have sys': "sy_stream sys' = s'" "sy_pending sys' = pending_of action" "sy_now sys' = t2" "sy_log sys' = sy_log sys"
      "sy_start sys' = (case sy_start sys of None \<Rightarrow> Some t1 | Some t \<Rightarrow> Some t)"
      "sy_bursts sys' = sy_bursts sys + of_bool (must_sleep ?s)"
      "sy_paced sys' = sy_paced sys + (if must_sleep ?s then unat (ss_rate_bytes ?s) else 0)"
    using step s1(1) tl by (auto simp: step_do_next_def do_next_locked_def Let_def split: if_splits)
  have state: "ss_state ?s = SENDING \<and> results_in sys \<or> ss_state ?s \<noteq> SENDING \<and> ss_current_packets ?s = []"
    using pos due' by (auto simp: at_position_def Let_def results_in_def)
  then have bytes: "bytes_sent sys' = bytes_sent sys"
    using sel(8) s1(2) by (auto simp: bytes_sent_def sys')
  have old: "ss_send_time ?s \<le> t1"
    using pace due by (cases "sy_pending sys") (auto simp: pace_inv_def Let_def)
  have "ss_send_time s1 \<le> t1" unfolding s1(5) using old send_time_empty(1) [OF old] by simp
  then have on: "on_time t2 (ss_send_time s') (pending_of action)" using due(3) by (intro times(2)) simp
  have mono: "ss_send_time ?s \<le> ss_send_time s1" unfolding s1(5) using send_time_empty(2) [of ?s t1] by simp
  have total: "bytes_sent sys' = sy_paced sys' + unat (ss_rate_bytes s')"
    using pace sel(10) s1(4) slept by (simp add: bytes sys' pace_inv_def Let_def)
  have "case sy_start sys' of None \<Rightarrow> False | Some t0 \<Rightarrow> t0 \<le> sy_now sys' \<and>
      of_int t0 + of_nat (sy_paced sys') * seconds_per_byte s' * ticks_per_second - of_nat (sy_bursts sys')
        \<le> of_int (ss_send_time s') \<and>
      of_nat (bytes_sent sys') < rate_bound (ss_config s') (sy_now sys' - t0) (sy_bursts sys')"
  proof (cases "sy_start sys")
    case None
    then have zero: "ss_rate_bytes ?s = 0" "sy_paced sys = 0" "sy_bursts sys = 0" "ss_state ?s \<noteq> SENDING"
        "sy_pending sys = Do_next_pending" "bytes_sent sys = 0"
      using pace due' by (auto simp: pace_inv_def Let_def)
    then have awake: "\<not> must_sleep ?s" "ss_state ?s = QUEUED"
      using ready pos by (auto simp: must_sleep_def setup_ok_def config_good_def at_position_def Let_def)
    have "t1 \<le> ss_send_time s1" unfolding s1(5) using send_time_empty(3) [of ?s t1] zero(1) awake(2) by simp
    then have "(of_int t1 :: rat) \<le> of_int (ss_send_time s')" using times(1) awake slept by (simp; linarith)
    moreover have "0 < rate_bound (ss_config s') (t2 - t1) 0"
      using ready due(3) rate s1(3) sel(7)
      by (simp add: rate_bound_def ticks_per_second_def setup_ok_def config_good_def add_nonneg_pos)
    ultimately show ?thesis using None zero awake due(3) bytes by (simp add: sys')
  next
    case (Some t0)
    let ?b = "of_nat (unat (ss_rate_bytes ?s)) * seconds_per_byte ?s * ticks_per_second :: rat"
    have inv: "t0 \<le> sy_now sys" "of_int t0 + of_nat (sy_paced sys) * seconds_per_byte ?s * ticks_per_second - of_nat (sy_bursts sys)
        \<le> (of_int (ss_send_time ?s) :: rat)" "of_nat (bytes_sent sys) < rate_bound (ss_config ?s) (sy_now sys - t0) (sy_bursts sys)"
      using pace Some by (auto simp: pace_inv_def Let_def)
    have "(of_int (ss_send_time ?s) :: rat) + (if must_sleep ?s then ?b - 1 else 0) \<le> of_int (ss_send_time s')"
    proof -
      have "(of_int (ss_send_time ?s) :: rat) \<le> of_int (ss_send_time s1)" using mono by simp
      then show ?thesis using times(1) unfolding slept spb(1) s1(4)
        by (rule order_trans [OF add_right_mono])
    qed
    then have 1: "of_int t0 + of_nat (sy_paced sys') * seconds_per_byte s' * ticks_per_second - of_nat (sy_bursts sys')
        \<le> (of_int (ss_send_time s') :: rat)"
      using inv(2) by (cases "must_sleep ?s") (simp_all add: sys' spb algebra_simps)
    have "rate_bound (ss_config ?s) (sy_now sys - t0) (sy_bursts sys) \<le> rate_bound (ss_config s') (t2 - t0) (sy_bursts sys')"
      unfolding sel(7) s1(3) using rate due by (intro rate_bound_mono) (auto simp: sys')
    with inv(1,3) 1 Some due bytes show ?thesis by (simp add: sys')
  qed
  then show ?thesis using total on by (auto simp: pace_inv_def Let_def sys' split: option.splits)
qed

lemma pace_load:
  assumes ready: "setup_ok m sys" and pos: "at_position m sys d j a ja" and pace: "pace_inv sys"
    and rate: "0 < sc_rate (ss_config (sy_stream sys))" and small: "sc_burst_size (ss_config (sy_stream sys)) + m \<le> 2 ^ 64"
    and load: "sy_pending sys = Loading t" and step: "do_next_send t (sy_stream sys) = Inr s'"
  shows "pace_inv (sys\<lparr>sy_stream := s', sy_pending := Transmitting\<rparr>)"
proof -
  let ?s = "sy_stream sys" and ?sys = "sys\<lparr>sy_stream := s', sy_pending := Transmitting\<rparr>"
  obtain s'' d' j' a' ja' where "do_next_send t ?s = Inr s''"
      "load_loop (ss_max_current_packets ?s) t (?s\<lparr>ss_current_packets := []\<rparr>) = Inr s''"
      "\<forall>x \<in> set (ss_current_packets s''). \<exists>k < length (sy_accepted sys).
         tp_size x = packet_size (tp_pkt x) \<and> tp_pkt x \<in> set (packets_of m (sy_accepted sys) k)"
      "at_position m (sys\<lparr>sy_stream := s'', sy_pending := Transmitting\<rparr>) d' j' a' ja'" "load_frame ?s s''"
    using step_load_ok [OF ready pos load] by metis
  with step have loop: "load_loop (ss_max_current_packets ?s) t (?s\<lparr>ss_current_packets := []\<rparr>) = Inr s'"
      and pk: "\<forall>x \<in> set (ss_current_packets s'). \<exists>k < length (sy_accepted sys).
         tp_size x = packet_size (tp_pkt x) \<and> tp_pkt x \<in> set (packets_of m (sy_accepted sys) k)"
      and ne: "ss_current_packets s' \<noteq> []" and fr: "load_frame ?s s'"
    by (auto simp: at_position_def Let_def)
  have sizes: "\<forall>x \<in> set (ss_current_packets s'). tp_size x \<le> m"
    using pk accepted_packet_size ready by (fastforce simp: setup_ok_def)
  have new: "unat (ss_rate_bytes s') = unat (ss_rate_bytes ?s) + sum_list (map tp_size (ss_current_packets s'))"
      "unat (ss_rate_bytes s') < sc_burst_size (ss_config ?s) + m"
    using load_loop_bytes [OF loop _ sizes] small ne by auto
  have st: "ss_state ?s = SENDING" "ss_current_packets ?s = []" "\<not> results_in sys" "sc_max_packet_size (ss_config ?s) = m"
    using pos load ready by (auto simp: at_position_def Let_def results_in_def setup_ok_def)
  from fr have frame: "ss_config s' = ss_config ?s" "ss_send_time s' = ss_send_time ?s" by (simp_all add: load_frame_def)
  have spb: "seconds_per_byte s' = seconds_per_byte ?s" using frame by (simp add: seconds_per_byte_def)
  obtain t0 where t0: "sy_start sys = Some t0" "t0 \<le> sy_now sys"
      "of_int t0 + of_nat (sy_paced sys) * seconds_per_byte ?s * ticks_per_second - of_nat (sy_bursts sys)
        \<le> (of_int (ss_send_time ?s) :: rat)"
    and now: "ss_send_time ?s \<le> sy_now sys" and total: "bytes_sent sys = sy_paced sys + unat (ss_rate_bytes ?s)"
    using pace st(1) load by (auto simp: pace_inv_def Let_def split: option.splits)
  have bytes: "bytes_sent ?sys = sy_paced sys + unat (ss_rate_bytes s')"
    using total new(1) st(2) by (auto simp: bytes_sent_def results_in_def split: if_splits)
  have "(of_nat (bytes_sent ?sys) :: rat) < of_nat (sy_paced sys) + of_nat (sc_burst_size (ss_config ?s) + m)"
    using new(2) by (simp add: bytes flip: of_nat_add)
  also have "\<dots> \<le> rate_bound (ss_config ?s) (sy_now sys - t0) (sy_bursts sys)"
    using paced_bound [OF rate t0(3) now] st(4) by simp
  finally show ?thesis using bytes t0 now by (simp add: pace_inv_def Let_def frame spb)
qed

lemma set_results_pkt:
  "length errs = length xs \<Longrightarrow> map tp_pkt (set_results errs xs) = map tp_pkt xs"
  by (induction errs xs rule: list_induct2) (simp_all add: set_results_def)

lemma pace_transport:
  assumes pos: "at_position m sys d j a ja" and pace: "pace_inv sys" and tr: "sy_pending sys = Transmitting"
    and len: "length errs = length (ss_current_packets (sy_stream sys))"
  shows "pace_inv (step_transport errs sys)"
proof -
  let ?s = "sy_stream sys" and ?sys = "step_transport errs sys"
  let ?xs = "ss_current_packets ?s"
  have st: "ss_state ?s = SENDING"
      and batch: "batch_ok (packets_of m (sy_accepted sys)) (length (sy_accepted sys)) (length (ss_queue ?s)) d j ?xs a ja"
    using pos tr by (auto simp: at_position_def Let_def)
  have "map packet_size (map tp_pkt (set_results errs ?xs)) = map tp_size ?xs"
    unfolding set_results_pkt [OF len] using batch_ok_packets [OF batch] by auto
  then have "map (\<lambda>e. packet_size (fst (snd e))) (log_entries ?s (set_results errs ?xs)) = map tp_size ?xs"
    by (simp add: log_entries_def comp_def)
  then have bytes: "bytes_sent ?sys = bytes_sent sys"
    using st tr by (simp add: bytes_sent_def step_transport_def Let_def results_in_def)
  have "seconds_per_byte (?s\<lparr>ss_current_packets := ps\<rparr>) = seconds_per_byte ?s" for ps
    by (simp add: seconds_per_byte_def)
  then show ?thesis using pace st tr unfolding pace_inv_def bytes
    by (simp add: step_transport_def Let_def split: option.splits)
qed

lemma async_send_heap_frame:
  assumes "async_send_heap h handler cnt s = (accepted, dispatched, s')"
  shows "ss_rate_bytes s' = ss_rate_bytes s" "ss_send_time s' = ss_send_time s" "ss_config s' = ss_config s"
    "ss_current_packets s' = ss_current_packets s" "ss_state s' = (if dispatched then QUEUED else ss_state s)"
    "dispatched \<Longrightarrow> ss_state s = EMPTY"
  using assms by (auto simp: async_send_heap_def Let_def split: if_splits)

lemma pace_send:
  assumes pos: "at_position m sys d j a ja" and pace: "pace_inv sys"
  shows "pace_inv (step_send h handler cnt sys)"
proof -
  obtain accepted dispatched s' where a: "async_send_heap h handler cnt (sy_stream sys) = (accepted, dispatched, s')"
    by (cases "async_send_heap h handler cnt (sy_stream sys)") auto
  note frame = async_send_heap_frame [OF a]
  let ?sys = "step_send h handler cnt sys"
  have sel: "sy_stream ?sys = s'" "sy_pending ?sys = (if dispatched then Do_next_pending else sy_pending sys)"
      "sy_now ?sys = sy_now sys" "sy_log ?sys = sy_log sys" "sy_start ?sys = sy_start sys"
      "sy_bursts ?sys = sy_bursts sys" "sy_paced ?sys = sy_paced sys"
    by (simp_all add: step_send_def a)
  have idle: "sy_pending sys = No_callback" if dispatched
    using pos frame(6) [OF that] by (cases "sy_pending sys") (auto simp: at_position_def Let_def)
  have "results_in ?sys = results_in sys" using frame(5) idle by (auto simp: results_in_def sel)
  then have bytes: "bytes_sent ?sys = bytes_sent sys" by (simp add: bytes_sent_def sel frame)
  show ?thesis using pace idle unfolding pace_inv_def bytes
    by (auto simp: sel frame Let_def seconds_per_byte_def split: option.splits)
qed

lemma pace_step:
  assumes inv: "system_inv m sys" and pace: "pace_inv sys" and rate: "0 < sc_rate (ss_config (sy_stream sys))"
    and small: "sc_burst_size (ss_config (sy_stream sys)) + m \<le> 2 ^ 64" and step: "system_step ev sys = Some (Inr sys')"
  shows "pace_inv sys' \<and> ss_config (sy_stream sys') = ss_config (sy_stream sys)"
proof -
  obtain d j a ja where ready: "setup_ok m sys" and pos: "at_position m sys d j a ja"
    using inv by (auto simp: system_inv_def)
  show ?thesis
  proof (cases ev)
    case (Send_heap h handler cnt)
    then have sys': "sys' = step_send h handler cnt sys" using step by simp
    moreover have "ss_config (sy_stream (step_send h handler cnt sys)) = ss_config (sy_stream sys)"
      using async_send_heap_frame(3) [of h handler cnt "sy_stream sys"] by (simp add: step_send_def split: prod.splits)
    ultimately show ?thesis using pace_send [OF pos pace] by simp
  next
    case (Set_cnt n k)
    then have "sys' = sys \<or> sys' = sys\<lparr>sy_stream := (sy_stream sys)\<lparr>ss_next_cnt := n, ss_step_cnt := k\<rparr>\<rparr>"
      using step by (auto simp: set_cnt_sequence_def split: if_splits)
    then show ?thesis using pace
      by (auto simp: pace_inv_def Let_def bytes_sent_def results_in_def seconds_per_byte_def split: option.splits)
  next
    case (Do_next t1 t2)
    then have s: "do_next_due t1 (sy_pending sys)" "sy_now sys \<le> t1" "t1 \<le> t2" "step_do_next t1 t2 sys = Inr sys'"
      using step by (auto split: if_splits)
    have due: "sy_pending sys = Do_next_pending \<or> (\<exists>t. sy_pending sys = Timer_set t)"
      using s(1) by (cases "sy_pending sys") auto
    obtain s1 where s1: "(case ss_state (sy_stream sys) of SENDING \<Rightarrow> process_results (sy_stream sys)
        | QUEUED \<Rightarrow> Inr (update_send_time_empty t1 (sy_stream sys)) | _ \<Rightarrow> Inr (sy_stream sys)) = Inr s1"
        "ss_config s1 = ss_config (sy_stream sys)"
      using do_next_results_ok [OF ready pos due refl refl refl, where now_empty = t1] by metis
    have "ss_config (sy_stream sys') = ss_config s1"
      using s(4) s1(1) do_next_tail_sel(7) [of t2 s1]
      by (auto simp: step_do_next_def do_next_locked_def Let_def split: if_splits prod.splits)
    then show ?thesis using pace_do_next [OF ready pos pace rate s] s1(2) by simp
  next
    case Load_and_send
    then obtain t where t: "sy_pending sys = Loading t" using step by (cases "sy_pending sys") auto
    then obtain s' where s': "do_next_send t (sy_stream sys) = Inr s'" "sys' = sys\<lparr>sy_stream := s', sy_pending := Transmitting\<rparr>"
      using step Load_and_send by (auto simp: bind_result_Inr_iff)
    have "load_frame (sy_stream sys) s'" using step_load_ok [OF ready pos t] s'(1) by (metis sum.inject(2))
    then show ?thesis using pace_load [OF ready pos pace rate small t s'(1)] s'(2) by (simp add: load_frame_def)
  next
    case (Transport_done errs)
    then have "sy_pending sys = Transmitting" "length errs = length (ss_current_packets (sy_stream sys))"
        "sys' = step_transport errs sys"
      using step by (auto split: if_splits)
    then show ?thesis using pace_transport [OF pos pace] by (auto simp: step_transport_def Let_def)
  qed
qed

lemma pace_run:
  assumes "system_inv m sys" "pace_inv sys" "0 < sc_rate (ss_config (sy_stream sys))"
    "sc_burst_size (ss_config (sy_stream sys)) + m \<le> 2 ^ 64" "\<forall>ev \<in> set evs. event_good m ev"
    "system_run evs sys = Some (Inr sys')"
  shows "pace_inv sys' \<and> ss_config (sy_stream sys') = ss_config (sy_stream sys)"
  using assms
proof (induction evs arbitrary: sys)
  case (Cons ev evs)
  obtain r where r: "system_step ev sys = Some r" using Cons.prems(6) by (cases "system_step ev sys") auto
  obtain sys1 where sys1: "r = Inr sys1" "system_inv m sys1"
    using step_inv [OF Cons.prems(1) _ r] Cons.prems(5) by auto
  have p: "pace_inv sys1" "ss_config (sy_stream sys1) = ss_config (sy_stream sys)"
    using pace_step [OF Cons.prems(1-4)] r sys1(1) by auto
  have "system_run evs sys1 = Some (Inr sys')" using Cons.prems(6) r sys1(1) by simp
  from Cons.IH [OF sys1(2) p(1) _ _ _ this] p(2) Cons.prems(3-5) show ?case by simp
qed simp

lemma new_system_pace: "0 \<le> t \<Longrightarrow> pace_inv (new_system cfg n t)"
  by (simp add: pace_inv_def Let_def new_system_def make_send_stream_def bytes_sent_def)

section \<open>Properties\<close>



end
