(* ===== verification/RingStream.thy ===== *)
theory RingStream
  imports Descriptors Ringbuffer
begin

text \<open>
  The stream that hands its heaps to a consumer through a ring buffer: \<^verbatim>\<open>recv_ring_stream.h\<close>.  It is a
  subclass of the receiving stream: the ring buffer and the records about it are the sink of
  RecvStream, and the laws of the locale \<open>stream_sink\<close> are discharged from the laws of the ring buffer.
\<close>

section \<open>Definitions\<close>

text \<open>
  \<open>rk_others n\<close> is what another thread does while the worker is blocked for the time numbered \<open>n\<close>: it stops the
  ring buffer, or pops a heap.  \<open>rk_popped\<close> and \<open>rk_handed\<close> record the heaps taken by the consumer, and those handed
  to \<^verbatim>\<open>heap_ready\<close> with whether they were pushed.  The counter \<^verbatim>\<open>worker_blocked\<close> of the statistics is kept here.
\<close>

record ring_sink =
  rk_ready_heaps :: "live_heap ringbuffer"
  rk_contiguous_only :: bool
  rk_worker_blocked :: nat
  rk_others :: "nat \<Rightarrow> bool"
  rk_popped :: "live_heap list"
  rk_handed :: "(live_heap \<times> bool) list"

definition default_ring_heaps :: nat where
  "default_ring_heaps = 4"

definition make_ring_sink :: "nat \<Rightarrow> bool \<Rightarrow> (nat \<Rightarrow> bool) \<Rightarrow> fault + ring_sink" where
  "make_ring_sink ring_heaps contiguous_only others =
     bind_result (make_ringbuffer ring_heaps) (\<lambda>r.
     Inr \<lparr>rk_ready_heaps = r, rk_contiguous_only = contiguous_only, rk_worker_blocked = 0,
          rk_others = others, rk_popped = [], rk_handed = []\<rparr>)"

text \<open>The two exits of a push: the heap is in the buffer, or \<^verbatim>\<open>ringbuffer_stopped\<close> is caught and it is dropped.\<close>

fun push_result :: "live_heap \<Rightarrow> ring_sink \<Rightarrow> fault + live_heap ringbuffer \<Rightarrow> fault + ring_sink" where
  "push_result h k (Inr r) = Inr (k\<lparr>rk_ready_heaps := r, rk_handed := rk_handed k @ [(h, True)]\<rparr>)"
| "push_result h k (Inl e) =
     (if e = ringbuffer_stopped then Inr (k\<lparr>rk_handed := rk_handed k @ [(h, False)]\<rparr>) else Inl e)"

text \<open>The second, blocking push, with what happens meanwhile.\<close>

definition blocking_push :: "live_heap \<Rightarrow> ring_sink \<Rightarrow> fault + ring_sink" where
  "blocking_push h k =
     bind_result
       (if rk_others k (rk_worker_blocked k) then Inr (k\<lparr>rk_ready_heaps := rb_stop (rk_ready_heaps k)\<rparr>)
        else bind_result (rb_try_pop (rk_ready_heaps k)) (\<lambda>(v, r).
             Inr (k\<lparr>rk_ready_heaps := r, rk_popped := rk_popped k @ [v]\<rparr>))) (\<lambda>k1.
     case rb_push h (rk_ready_heaps k1) of
       None \<Rightarrow> Inl Loop_overrun
     | Some res \<Rightarrow> push_result h k1 res)"

definition ring_heap_ready :: "live_heap \<Rightarrow> ring_sink \<Rightarrow> fault + ring_sink" where
  "ring_heap_ready h k =
     (if \<not> rk_contiguous_only k \<or> is_contiguous h then
        (case rb_try_push h (rk_ready_heaps k) of
           Inl e \<Rightarrow>
             if e = ringbuffer_full then blocking_push h (k\<lparr>rk_worker_blocked := rk_worker_blocked k + 1\<rparr>)
             else push_result h k (Inl e)
         | Inr r \<Rightarrow> push_result h k (Inr r))
      else Inr (k\<lparr>rk_handed := rk_handed k @ [(h, False)]\<rparr>))"

text \<open>\<^verbatim>\<open>stop_received\<close> stops the ring buffer after the base class has flushed its heaps into it.\<close>

definition ring_virtuals :: "ring_sink stream_virtuals" where
  "ring_virtuals =
     \<lparr>heap_ready = ring_heap_ready,
      stop_hook = (\<lambda>k. k\<lparr>rk_ready_heaps := rb_stop (rk_ready_heaps k)\<rparr>)\<rparr>"

definition ring_stop :: "ring_sink stream_base \<Rightarrow> fault + ring_sink stream_base" where
  "ring_stop s =
     stop_stream ring_virtuals
       (s\<lparr>sb_sink := (sb_sink s)\<lparr>rk_ready_heaps := rb_stop (rk_ready_heaps (sb_sink s))\<rparr>\<rparr>)"

text \<open>
  The consumer's side.  The result is a frozen heap or the exception of the ring buffer; incomplete heaps
  taken on the way are gone.  Every turn takes a heap, so one more turn than there are heaps is enough.
\<close>

definition try_pop_live :: "ring_sink \<Rightarrow> ring_sink \<times> (fault + live_heap)" where
  "try_pop_live k =
     (case rb_try_pop (rk_ready_heaps k) of
        Inl e \<Rightarrow> (k, Inl e)
      | Inr (h, r) \<Rightarrow> (k\<lparr>rk_ready_heaps := r, rk_popped := rk_popped k @ [h]\<rparr>, Inr h))"

definition pop_live :: "ring_sink \<Rightarrow> (ring_sink \<times> (fault + live_heap)) option" where
  "pop_live k =
     (case rb_pop (rk_ready_heaps k) of
        None \<Rightarrow> None
      | Some (Inl e) \<Rightarrow> Some (k, Inl e)
      | Some (Inr (h, r)) \<Rightarrow> Some (k\<lparr>rk_ready_heaps := r, rk_popped := rk_popped k @ [h]\<rparr>, Inr h))"

fun try_pop_loop :: "(nat \<Rightarrow> byte) \<Rightarrow> nat \<Rightarrow> nat \<Rightarrow> ring_sink \<Rightarrow> ring_sink \<times> (fault + heap_base)" where
  "try_pop_loop fresh self 0 k = (k, Inl Loop_overrun)"
| "try_pop_loop fresh self (Suc n) k =
     (case try_pop_live k of
        (k1, Inl e) \<Rightarrow> (k1, Inl e)
      | (k1, Inr h) \<Rightarrow>
          if is_contiguous h then (k1, bind_result (make_heap fresh self h) (\<lambda>(hb, _). Inr hb))
          else try_pop_loop fresh self n k1)"

definition ring_try_pop :: "(nat \<Rightarrow> byte) \<Rightarrow> nat \<Rightarrow> ring_sink \<Rightarrow> ring_sink \<times> (fault + heap_base)" where
  "ring_try_pop fresh self k = try_pop_loop fresh self (Suc (length (ring_contents (rk_ready_heaps k)))) k"

text \<open>The blocking variant; \<open>None\<close> when it waits for a heap.\<close>

fun pop_loop :: "(nat \<Rightarrow> byte) \<Rightarrow> nat \<Rightarrow> nat \<Rightarrow> ring_sink \<Rightarrow> ring_sink \<times> (fault + heap_base) option" where
  "pop_loop fresh self 0 k = (k, Some (Inl Loop_overrun))"
| "pop_loop fresh self (Suc n) k =
     (case pop_live k of
        None \<Rightarrow> (k, None)
      | Some (k1, Inl e) \<Rightarrow> (k1, Some (Inl e))
      | Some (k1, Inr h) \<Rightarrow>
          if is_contiguous h then (k1, Some (bind_result (make_heap fresh self h) (\<lambda>(hb, _). Inr hb)))
          else pop_loop fresh self n k1)"

definition ring_pop :: "(nat \<Rightarrow> byte) \<Rightarrow> nat \<Rightarrow> ring_sink \<Rightarrow> ring_sink \<times> (fault + heap_base) option" where
  "ring_pop fresh self k = pop_loop fresh self (Suc (length (ring_contents (rk_ready_heaps k)))) k"

section \<open>The ring buffer as a sink\<close>

definition ring_sink_inv :: "ring_sink \<Rightarrow> bool" where
  "ring_sink_inv k \<longleftrightarrow>
     ring_inv (rk_ready_heaps k) \<and> 0 < ring_capacity (rk_ready_heaps k) \<and>
     rk_popped k @ ring_contents (rk_ready_heaps k) = map fst (filter snd (rk_handed k)) \<and>
     (\<forall>(h, pushed) \<in> set (rk_handed k). lh_inv h \<and>
        (if pushed then rk_contiguous_only k \<longrightarrow> is_contiguous h
         else rk_contiguous_only k \<and> \<not> is_contiguous h \<or> rb_stopped (rb_base (rk_ready_heaps k))))"

lemma ring_capacity_stop [simp]: "ring_capacity (rb_stop r) = ring_capacity r"
  by (simp add: ring_capacity_def rb_capacity_def rb_stop_def stop_internal_def stop_tail_def stop_head_def)

lemma ring_sink_stop:
  assumes "ring_sink_inv k"
  shows "ring_sink_inv (k\<lparr>rk_ready_heaps := rb_stop (rk_ready_heaps k)\<rparr>)"
  using assms rb_stop_ok [of "rk_ready_heaps k"] by (auto simp: ring_sink_inv_def)

text \<open>A push of a heap that qualifies, on a buffer that is stopped or has room.\<close>

lemma push_result_ok:
  assumes inv: "ring_sink_inv k" and h: "lh_inv h" "\<not> rk_contiguous_only k \<or> is_contiguous h"
    and room: "rb_stopped (rb_base (rk_ready_heaps k)) \<or>
      length (ring_contents (rk_ready_heaps k)) \<noteq> ring_capacity (rk_ready_heaps k)"
  obtains k' where "push_result h k (rb_try_push h (rk_ready_heaps k)) = Inr k'" "ring_sink_inv k'"
proof -
  let ?r = "rk_ready_heaps k"
  have r: "ring_inv ?r" using inv by (simp add: ring_sink_inv_def)
  show ?thesis
  proof (cases "rb_stopped (rb_base ?r)")
    case True
    then have "rb_try_push h ?r = Inl ringbuffer_stopped"
      using try_push_outcome [OF r, of h] by (simp add: push_outcome_def)
    then show ?thesis using inv h True
      by (intro that [of "k\<lparr>rk_handed := rk_handed k @ [(h, False)]\<rparr>"]) (auto simp: ring_sink_inv_def)
  next
    case False
    then obtain r' where "rb_try_push h ?r = Inr r'" "ring_inv r'" "ring_contents r' = ring_contents ?r @ [h]"
        "ring_capacity r' = ring_capacity ?r" "\<not> rb_stopped (rb_base r')"
      using try_push_outcome [OF r, of h] room by (auto simp: push_outcome_def)
    then show ?thesis using inv h False
      by (intro that [of "k\<lparr>rk_ready_heaps := r', rk_handed := rk_handed k @ [(h, True)]\<rparr>"])
        (auto simp: ring_sink_inv_def simp flip: append_assoc)
  qed
qed

lemma take_heap_ok:
  assumes inv: "ring_sink_inv k" and pop: "rb_try_pop (rk_ready_heaps k) = Inr (v, r)"
    and k': "k' = k\<lparr>rk_ready_heaps := r, rk_popped := rk_popped k @ [v]\<rparr>"
  shows "ring_sink_inv k'" "ring_contents (rk_ready_heaps k) = v # ring_contents r" "lh_inv v"
    "ring_capacity r = ring_capacity (rk_ready_heaps k)"
    "rb_stopped (rb_base r) = rb_stopped (rb_base (rk_ready_heaps k))"
proof -
  have "ring_inv (rk_ready_heaps k)" using inv by (simp add: ring_sink_inv_def)
  from try_pop_outcome [OF this] pop have r: "ring_inv r" "ring_contents (rk_ready_heaps k) = v # ring_contents r"
      "ring_capacity r = ring_capacity (rk_ready_heaps k)"
      "rb_stopped (rb_base r) = rb_stopped (rb_base (rk_ready_heaps k))"
    by (auto simp: pop_outcome_def split: list.splits)
  then show "ring_contents (rk_ready_heaps k) = v # ring_contents r"
      "ring_capacity r = ring_capacity (rk_ready_heaps k)"
      "rb_stopped (rb_base r) = rb_stopped (rb_base (rk_ready_heaps k))"
    by simp_all
  show "ring_sink_inv k'" using inv r by (auto simp: ring_sink_inv_def k')
  have "v \<in> set (map fst (filter snd (rk_handed k)))"
    using inv r(2) by (metis in_set_conv_decomp ring_sink_inv_def)
  then show "lh_inv v" using inv by (auto simp: ring_sink_inv_def)
qed

lemma blocking_push_ok:
  assumes inv: "ring_sink_inv k" and h: "lh_inv h" "\<not> rk_contiguous_only k \<or> is_contiguous h"
    and full: "\<not> rb_stopped (rb_base (rk_ready_heaps k))"
      "length (ring_contents (rk_ready_heaps k)) = ring_capacity (rk_ready_heaps k)"
  obtains k' where "blocking_push h k = Inr k'" "ring_sink_inv k'"
proof -
  obtain k1 where k1: "(if rk_others k (rk_worker_blocked k) then Inr (k\<lparr>rk_ready_heaps := rb_stop (rk_ready_heaps k)\<rparr>)
      else bind_result (rb_try_pop (rk_ready_heaps k)) (\<lambda>(v, r).
           Inr (k\<lparr>rk_ready_heaps := r, rk_popped := rk_popped k @ [v]\<rparr>))) = Inr k1"
    "ring_sink_inv k1" "rk_contiguous_only k1 = rk_contiguous_only k"
    "rb_stopped (rb_base (rk_ready_heaps k1)) \<or>
      length (ring_contents (rk_ready_heaps k1)) \<noteq> ring_capacity (rk_ready_heaps k1)"
  proof (cases "rk_others k (rk_worker_blocked k)")
    case True
    have "ring_inv (rk_ready_heaps k)" using inv by (simp add: ring_sink_inv_def)
    then show ?thesis using True rb_stop_ok(3) [of "rk_ready_heaps k"]
      by (intro that [OF _ ring_sink_stop [OF inv]]) simp_all
  next
    case False
    have r: "ring_inv (rk_ready_heaps k)" "ring_contents (rk_ready_heaps k) \<noteq> []"
      using inv full(2) by (auto simp: ring_sink_inv_def)
    then obtain v r' where p: "rb_try_pop (rk_ready_heaps k) = Inr (v, r')"
      using try_pop_outcome [OF r(1)] by (auto simp: pop_outcome_def split: list.splits)
    note t = take_heap_ok [OF inv p refl]
    show ?thesis using False p t(2,4) full(2) by (intro that [OF _ t(1)]) auto
  qed
  have "rb_push h (rk_ready_heaps k1) = Some (rb_try_push h (rk_ready_heaps k1))"
  proof -
    have "ring_inv (rk_ready_heaps k1)" using k1(2) by (simp add: ring_sink_inv_def)
    then have "rb_space_sem (rk_ready_heaps k1) \<noteq> 0"
      using k1(4) by (auto simp: ring_inv_def ring_contents_def ring_capacity_def split: if_splits
          dest: rb_size_le_capacity(1))
    then show ?thesis by (simp add: rb_push_eq)
  qed
  moreover obtain k' where "push_result h k1 (rb_try_push h (rk_ready_heaps k1)) = Inr k'" "ring_sink_inv k'"
    using push_result_ok [OF k1(2) h(1) _ k1(4)] h(2) k1(3) by metis
  ultimately show ?thesis using k1(1) by (intro that [of k']) (simp_all add: blocking_push_def)
qed

lemma ring_heap_ready_ok:
  assumes inv: "ring_sink_inv k" and h: "lh_inv h"
  shows "\<exists>k'. ring_heap_ready h k = Inr k' \<and> ring_sink_inv k'"
proof (cases "\<not> rk_contiguous_only k \<or> is_contiguous h")
  case True
  let ?r = "rk_ready_heaps k"
  have r: "ring_inv ?r" using inv by (simp add: ring_sink_inv_def)
  show ?thesis
  proof (cases "rb_stopped (rb_base ?r) \<or> length (ring_contents ?r) \<noteq> ring_capacity ?r")
    case room: True
    then have "rb_try_push h ?r \<noteq> Inl ringbuffer_full"
      using try_push_outcome [OF r, of h]
      by (auto simp: push_outcome_def ringbuffer_full_def ringbuffer_stopped_def split: if_splits)
    then have "ring_heap_ready h k = push_result h k (rb_try_push h ?r)"
      using True by (auto simp: ring_heap_ready_def split: sum.splits)
    then show ?thesis using push_result_ok [OF inv h True room] by metis
  next
    case full: False
    let ?k = "k\<lparr>rk_worker_blocked := rk_worker_blocked k + 1\<rparr>"
    have "rb_try_push h ?r = Inl ringbuffer_full"
      using try_push_outcome [OF r, of h] full by (auto simp: push_outcome_def)
    then have step: "ring_heap_ready h k = blocking_push h ?k" using True by (simp add: ring_heap_ready_def)
    have "ring_sink_inv ?k" using inv by (auto simp: ring_sink_inv_def)
    then obtain k' where "blocking_push h ?k = Inr k'" "ring_sink_inv k'"
      by (rule blocking_push_ok) (use h True full in auto)
    then show ?thesis using step by auto
  qed
next
  case False
  then show ?thesis using inv h by (auto simp: ring_heap_ready_def ring_sink_inv_def)
qed

interpretation ring_stream: stream_sink ring_virtuals ring_sink_inv
  by unfold_locales (simp_all add: ring_virtuals_def ring_heap_ready_ok ring_sink_stop)

lemma stream_inv_new_sink:
  assumes "stream_inv I s" "I k"
  shows "stream_inv I (s\<lparr>sb_sink := k\<rparr>)"
proof -
  obtain a where a: "refines s a" "spec_inv I a" and rest: "sb_memcpy s = std_packet_memcpy" "byte_allocator (sb_allocator s)"
    using assms(1) by (auto simp: stream_inv_def)
  have "refines (s\<lparr>sb_sink := k\<rparr>) (a\<lparr>sp_sink := k\<rparr>)"
  proof -
    have "get_bucket (s\<lparr>sb_sink := k\<rparr>) = get_bucket s" by (rule ext) (simp add: get_bucket_def)
    then have "nexts (s\<lparr>sb_sink := k\<rparr>) = nexts s" "bucket_slots (s\<lparr>sb_sink := k\<rparr>) = bucket_slots s"
        "get_bucket (s\<lparr>sb_sink := k\<rparr>) = get_bucket s"
      by (simp_all add: nexts_def bucket_slots_def fun_eq_iff)
    with a(1) show ?thesis by (simp add: refines_def)
  qed
  moreover have "spec_inv I (a\<lparr>sp_sink := k\<rparr>)" using a(2) assms(2) by (simp add: spec_inv_def live_inv_def)
  ultimately show ?thesis using rest unfolding stream_inv_def by auto
qed

section \<open>The consumer\<close>

text \<open>
  A pop skips the heaps that are not contiguous and freezes the first one that is; without one it throws.
\<close>

definition pop_exception :: "ring_sink \<Rightarrow> fault" where
  "pop_exception k = (if rb_stopped (rb_base (rk_ready_heaps k)) then ringbuffer_stopped else ringbuffer_empty)"

lemma try_pop_live_ok:
  assumes "ring_sink_inv k"
  shows "case ring_contents (rk_ready_heaps k) of
      [] \<Rightarrow> try_pop_live k = (k, Inl (pop_exception k))
    | h # hs \<Rightarrow> \<exists>k'. try_pop_live k = (k', Inr h) \<and> ring_sink_inv k' \<and> ring_contents (rk_ready_heaps k') = hs \<and>
        rk_popped k' = rk_popped k @ [h] \<and> pop_exception k' = pop_exception k \<and> lh_inv h"
proof -
  have "ring_inv (rk_ready_heaps k)" using assms by (simp add: ring_sink_inv_def)
  note outcome = try_pop_outcome [OF this]
  show ?thesis
  proof (cases "ring_contents (rk_ready_heaps k)")
    case Nil
    then show ?thesis using outcome by (simp add: pop_outcome_def try_pop_live_def pop_exception_def)
  next
    case (Cons h hs)
    then obtain r where r: "rb_try_pop (rk_ready_heaps k) = Inr (h, r)" using outcome by (auto simp: pop_outcome_def)
    note t = take_heap_ok [OF assms r refl]
    show ?thesis using Cons r t by (simp add: try_pop_live_def pop_exception_def)
  qed
qed

lemma try_pop_loop_ok:
  assumes "ring_sink_inv k" "length (ring_contents (rk_ready_heaps k)) < n"
  shows "case dropWhile (\<lambda>h. \<not> is_contiguous h) (ring_contents (rk_ready_heaps k)) of
      [] \<Rightarrow> \<exists>k'. try_pop_loop fresh self n k = (k', Inl (pop_exception k)) \<and> ring_sink_inv k' \<and>
        ring_contents (rk_ready_heaps k') = []
    | h # hs \<Rightarrow> \<exists>k' hb. try_pop_loop fresh self n k = (k', Inr hb) \<and> ring_sink_inv k' \<and>
        ring_contents (rk_ready_heaps k') = hs \<and> hb_cnt hb = lh_cnt h \<and> heap_view hb (frozen_items h True)"
  using assms
proof (induction n arbitrary: k)
  case (Suc n)
  note live = try_pop_live_ok [OF Suc.prems(1)]
  show ?case
  proof (cases "ring_contents (rk_ready_heaps k)")
    case Nil
    then show ?thesis using live Suc.prems(1) by simp
  next
    case (Cons h hs)
    then obtain k1 where k1: "try_pop_live k = (k1, Inr h)" "ring_sink_inv k1" "ring_contents (rk_ready_heaps k1) = hs"
        "pop_exception k1 = pop_exception k" "lh_inv h"
      using live by auto
    show ?thesis
    proof (cases "is_contiguous h")
      case True
      then obtain hb h' where m: "make_heap fresh self h = Inr (hb, h')"
          "load_result h True True (new_heap_base fresh self) hb" "lh_inv h'"
        using make_heap_ok [OF k1(5)] by metis
      then have "hb_cnt hb = lh_cnt h" "heap_view hb (frozen_items h True)"
        by (auto simp: load_result_def frozen_items_def)
      with m True k1 Cons show ?thesis by simp
    next
      case False
      then have step: "try_pop_loop fresh self (Suc n) k = try_pop_loop fresh self n k1" using k1(1) by simp
      show ?thesis using Suc.IH [OF k1(2)] Suc.prems(2) False k1(3,4) unfolding step Cons
        by (simp del: dropWhile_eq_Nil_conv split: list.splits)
    qed
  qed
qed simp

text \<open>The blocking pop does the same unless it has to wait.\<close>

lemma pop_live_eq:
  "pop_live k = (case rb_pop (rk_ready_heaps k) of None \<Rightarrow> None | Some _ \<Rightarrow> Some (try_pop_live k))"
  by (auto simp: pop_live_def try_pop_live_def rb_pop_eq split: sum.splits)

lemma pop_loop_eq:
  assumes "ring_sink_inv k"
  shows "pop_loop fresh self n k = (case try_pop_loop fresh self n k of (k', res) \<Rightarrow>
    (k', if res = Inl ringbuffer_empty then None else Some res))"
  using assms
proof (induction n arbitrary: k)
  case (Suc n)
  note live = try_pop_live_ok [OF Suc.prems]
  have inv: "ring_inv (rk_ready_heaps k)" using Suc.prems by (simp add: ring_sink_inv_def)
  have blocked: "rb_pop (rk_ready_heaps k) = None \<longleftrightarrow>
      ring_contents (rk_ready_heaps k) = [] \<and> \<not> rb_stopped (rb_base (rk_ready_heaps k))"
    using inv by (auto simp: rb_pop_eq ring_inv_def ring_contents_def simp flip: length_0_conv split: if_splits)
  show ?case
  proof (cases "ring_contents (rk_ready_heaps k)")
    case Nil
    then show ?thesis using live blocked
      by (auto simp: pop_live_eq pop_exception_def ringbuffer_stopped_def ringbuffer_empty_def split: option.splits)
  next
    case (Cons h hs)
    then obtain k1 where k1: "try_pop_live k = (k1, Inr h)" "ring_sink_inv k1" "lh_inv h" using live by auto
    have "pop_live k = Some (k1, Inr h)" using blocked Cons k1(1) by (auto simp: pop_live_eq split: option.splits)
    moreover have "bind_result (make_heap fresh self h) (\<lambda>(hb, _). Inr hb) \<noteq> Inl ringbuffer_empty" if "is_contiguous h"
      by (rule make_heap_ok [OF k1(3) that, of fresh self]) simp
    ultimately show ?thesis using k1 Suc.IH [OF k1(2)] by auto
  qed
qed (simp add: ringbuffer_empty_def)

section \<open>Any use of the stream\<close>

text \<open>What the threads can do: the worker feeds bytes, the user flushes or stops the stream and pops heaps.\<close>

datatype ring_op = Ring_feed "byte list" | Ring_flush | Ring_stop | Ring_pop_live | Ring_try_pop nat

fun run_ring_op :: "(nat \<Rightarrow> byte) \<Rightarrow> ring_op \<Rightarrow> ring_sink stream_base \<Rightarrow> fault + ring_sink stream_base" where
  "run_ring_op fresh (Ring_feed bs) s = bind_result (mem_to_stream ring_virtuals bs s) (\<lambda>(_, s1). Inr s1)"
| "run_ring_op fresh Ring_flush s = flush_stream ring_virtuals s"
| "run_ring_op fresh Ring_stop s = ring_stop s"
| "run_ring_op fresh Ring_pop_live s = Inr (s\<lparr>sb_sink := fst (try_pop_live (sb_sink s))\<rparr>)"
| "run_ring_op fresh (Ring_try_pop self) s = Inr (s\<lparr>sb_sink := fst (ring_try_pop fresh self (sb_sink s))\<rparr>)"

lemma ring_op_ok:
  assumes inv: "stream_inv ring_sink_inv s"
  obtains s' where "run_ring_op fresh x s = Inr s'" "stream_inv ring_sink_inv s'"
proof -
  have k: "ring_sink_inv (sb_sink s)" using inv by (rule stream_inv_sink)
  show ?thesis
  proof (cases x)
    case (Ring_feed bs)
    then show ?thesis using ring_stream.run_op_total [OF inv, of "Feed bs"] that by auto
  next
    case Ring_flush
    then show ?thesis using ring_stream.run_op_total [OF inv, of Flush] that by auto
  next
    case Ring_stop
    have "stream_inv ring_sink_inv (s\<lparr>sb_sink := (sb_sink s)\<lparr>rk_ready_heaps := rb_stop (rk_ready_heaps (sb_sink s))\<rparr>\<rparr>)"
      by (rule stream_inv_new_sink [OF inv ring_sink_stop [OF k]])
    from ring_stream.run_op_total [OF this, of Stop] Ring_stop that show ?thesis by (auto simp: ring_stop_def)
  next
    case Ring_pop_live
    have "ring_sink_inv (fst (try_pop_live (sb_sink s)))"
      using try_pop_live_ok [OF k] k by (auto split: list.splits)
    with Ring_pop_live that stream_inv_new_sink [OF inv] show ?thesis by simp
  next
    case (Ring_try_pop self)
    have "ring_sink_inv (fst (ring_try_pop fresh self (sb_sink s)))"
      using try_pop_loop_ok [OF k lessI, of fresh self]
      by (auto simp: ring_try_pop_def simp del: try_pop_loop.simps dropWhile_eq_Nil_conv split: list.splits)
    with Ring_try_pop that stream_inv_new_sink [OF inv] show ?thesis by simp
  qed
qed

lemma ring_ops_ok:
  assumes "stream_inv ring_sink_inv s"
  shows "\<exists>s'. fold_result (run_ring_op fresh) ops s = Inr s' \<and> stream_inv ring_sink_inv s'"
  using assms
proof (induction ops arbitrary: s)
  case (Cons x ops)
  obtain s1 where "run_ring_op fresh x s = Inr s1" "stream_inv ring_sink_inv s1" using ring_op_ok [OF Cons.prems] .
  with Cons.IH show ?case by simp
qed simp

lemma make_ring_sink_ok:
  assumes "make_ring_sink cap contiguous_only others = Inr k"
  shows "ring_sink_inv k" "rk_contiguous_only k = contiguous_only"
proof -
  obtain b where b: "make_ringbuffer_base cap = Inr b" "0 < cap"
    and k: "k = \<lparr>rk_ready_heaps = \<lparr>rb_base = b, rb_data_sem = 0, rb_space_sem = cap\<rparr>, rk_contiguous_only = contiguous_only,
        rk_worker_blocked = 0, rk_others = others, rk_popped = [], rk_handed = []\<rparr>"
    using assms
    by (auto simp: make_ring_sink_def make_ringbuffer_def bind_result_Inr_iff make_ringbuffer_base_def split: if_splits)
  note base = make_ringbuffer_base_ok [OF b(1)]
  have "rb_size b = 0" using base(2) length_rb_contents [of b] by simp
  then show "ring_sink_inv k"
    using base b(2) by (simp add: k ring_sink_inv_def ring_inv_def ring_contents_def ring_capacity_def)
  show "rk_contiguous_only k = contiguous_only" by (simp add: k)
qed

section \<open>Properties\<close>

text \<open>
  C15: The ring stream delivers in order and loses nothing silently.  Whatever bytes are fed to it, and
  however feeding, flushing, stopping and popping interleave, with the worker blocking when the buffer
  is full, nothing faults, and the heaps popped so far followed by those in the buffer are exactly the heaps handed over
  and pushed, in order.  A heap that was not pushed was incomplete and only contiguous heaps were
  asked for, or the buffer had been stopped.  \<^verbatim>\<open>try_pop\<close> returns the first contiguous heap,
  frozen, and throws only if there is none; \<^verbatim>\<open>pop\<close> does the same, and waits instead of
  throwing \<^verbatim>\<open>ringbuffer_empty\<close>.
\<close>

theorem ring_stream_order:
  assumes "make_ring_sink cap contiguous_only others = Inr k0" "m < 2 ^ 60"
    and "make_stream_base (default_allocate fresh) bug_compat m k0 = Inr s"
  shows "\<exists>s'. fold_result (run_ring_op fresh) ops s = Inr s' \<and>
    (let k = sb_sink s'; heaps = ring_contents (rk_ready_heaps k) in
     rk_popped k @ heaps = map fst (filter snd (rk_handed k)) \<and>
     (\<forall>(h, pushed) \<in> set (rk_handed k). \<not> pushed \<longrightarrow>
        rk_contiguous_only k \<and> \<not> is_contiguous h \<or> rb_stopped (rb_base (rk_ready_heaps k))) \<and>
     (case dropWhile (\<lambda>h. \<not> is_contiguous h) heaps of
        [] \<Rightarrow> snd (ring_try_pop fresh self k) = Inl (pop_exception k)
      | h # hs \<Rightarrow> \<exists>hb. snd (ring_try_pop fresh self k) = Inr hb \<and> hb_cnt hb = lh_cnt h \<and>
          heap_view hb (frozen_items h True) \<and>
          ring_contents (rk_ready_heaps (fst (ring_try_pop fresh self k))) = hs) \<and>
     ring_pop fresh self k = (fst (ring_try_pop fresh self k),
       if snd (ring_try_pop fresh self k) = Inl ringbuffer_empty then None
       else Some (snd (ring_try_pop fresh self k))))"
proof -
  have "stream_inv ring_sink_inv s"
    by (rule ring_stream.initial_inv [OF assms(3,2) default_byte_allocator make_ring_sink_ok(1) [OF assms(1)]])
  then obtain s' where s': "fold_result (run_ring_op fresh) ops s = Inr s'" "stream_inv ring_sink_inv s'"
    using ring_ops_ok by blast
  let ?k = "sb_sink s'"
  have k: "ring_sink_inv ?k" using s'(2) by (rule stream_inv_sink)
  note pop = try_pop_loop_ok [OF k lessI, of fresh self, folded ring_try_pop_def]
  have wait: "ring_pop fresh self ?k = (fst (ring_try_pop fresh self ?k),
      if snd (ring_try_pop fresh self ?k) = Inl ringbuffer_empty then None
      else Some (snd (ring_try_pop fresh self ?k)))"
    unfolding ring_pop_def ring_try_pop_def pop_loop_eq [OF k] by (simp add: case_prod_beta)
  have drop: "\<forall>(h, pushed) \<in> set (rk_handed ?k). \<not> pushed \<longrightarrow>
      rk_contiguous_only ?k \<and> \<not> is_contiguous h \<or> rb_stopped (rb_base (rk_ready_heaps ?k))"
    and order: "rk_popped ?k @ ring_contents (rk_ready_heaps ?k) = map fst (filter snd (rk_handed ?k))"
    using k by (auto simp: ring_sink_inv_def)
  have "case dropWhile (\<lambda>h. \<not> is_contiguous h) (ring_contents (rk_ready_heaps ?k)) of
      [] \<Rightarrow> snd (ring_try_pop fresh self ?k) = Inl (pop_exception ?k)
    | h # hs \<Rightarrow> \<exists>hb. snd (ring_try_pop fresh self ?k) = Inr hb \<and> hb_cnt hb = lh_cnt h \<and>
        heap_view hb (frozen_items h True) \<and>
        ring_contents (rk_ready_heaps (fst (ring_try_pop fresh self ?k))) = hs"
    using pop by (auto simp del: dropWhile_eq_Nil_conv split: list.splits)
  with s'(1) wait drop order show ?thesis unfolding Let_def by blast
qed

theorem ring_stream_order_witness:
  "\<exists>k0 s s'. make_ring_sink 4 True (\<lambda>_. False) = Inr k0 \<and>
    make_stream_base (default_allocate (\<lambda>_. 0)) 0 4 k0 = Inr s \<and>
    fold_result (run_ring_op (\<lambda>_. 0)) [Ring_feed example_packet, Ring_stop, Ring_pop_live] s = Inr s' \<and>
    rk_popped (sb_sink s') @ ring_contents (rk_ready_heaps (sb_sink s')) = map fst (filter snd (rk_handed (sb_sink s')))"
proof -
  obtain k0 where k0: "make_ring_sink 4 True (\<lambda>_. False) = Inr k0"
    by (simp add: make_ring_sink_def make_ringbuffer_def make_ringbuffer_base_def)
  have m: "(4 :: nat) < 2 ^ 60" by simp
  from ring_stream_order [OF k0 m example_stream, of "[Ring_feed example_packet, Ring_stop, Ring_pop_live]"]
  obtain s' where "fold_result (run_ring_op (\<lambda>_. 0)) [Ring_feed example_packet, Ring_stop, Ring_pop_live] (example_stream k0) = Inr s'"
    "rk_popped (sb_sink s') @ ring_contents (rk_ready_heaps (sb_sink s')) = map fst (filter snd (rk_handed (sb_sink s')))"
    unfolding Let_def by blast
  with k0 example_stream [of k0] show ?thesis by blast
qed

end
