(* ===== verification/Readers.thy ===== *)
theory Readers
  imports RingStream TcpReader UnboundedQueue
begin

text \<open>
  The readers of \<^verbatim>\<open>recv_udp_base.cpp\<close>, \<^verbatim>\<open>recv_udp.cpp\<close>, \<^verbatim>\<open>recv_tcp.cpp\<close>, \<^verbatim>\<open>recv_inproc.cpp\<close> and
  \<^verbatim>\<open>recv_mem.cpp\<close>: what the completion handler of each does to the stream.  The operating system is an argument: the
  error code and the bytes with which an operation completes.  The stream is the one of RecvStream
  with any subclass; a handler holds the queue mutex from its first line on, so it is one step.
\<close>

section \<open>Definitions\<close>

text \<open>The error codes that the handlers tell apart.\<close>

datatype 'd completion = Success 'd | Eof | Operation_aborted | Other_error

type_synonym 's batch = "add_packet_state \<times> 's stream_base"

definition udp_default_max_size :: nat where
  "udp_default_max_size = 9200"

definition udp_process_one_packet ::
  "'s stream_virtuals \<Rightarrow> nat \<Rightarrow> byte list \<Rightarrow> 's batch \<Rightarrow> fault + (bool \<times> 's batch)" where
  "udp_process_one_packet vt max_size data b =
     (if length data \<le> max_size \<and> length data > 0 then
        (case decode_packet data of
           None \<Rightarrow> Inr (False, b)
         | Some (packet, sz) \<Rightarrow>
             if sz = length data
             then bind_result (stream_add_packet vt packet (fst b) (snd b)) (\<lambda>(_, b1). Inr (sb_stopped (snd b1), b1))
             else Inr (False, b))
      else Inr (False, b))"

text \<open>
  The handler of the UDP reader; the result says whether it starts another receive.  A datagram is received into
  a buffer of \<^verbatim>\<open>max_size + 1\<close> bytes, and longer ones are cut there.  With \<^verbatim>\<open>recvmmsg\<close> there are up
  to 64 datagrams, or none if it fails; without it there is one.  The loop over them ends when the stream stops.
\<close>

definition udp_packet_handler ::
  "'s stream_virtuals \<Rightarrow> nat \<Rightarrow> byte list list completion \<Rightarrow> 's stream_base \<Rightarrow> fault + (bool \<times> 's stream_base)" where
  "udp_packet_handler vt max_size c s =
     bind_result
       (case c of
          Success datagrams \<Rightarrow>
            if sb_stopped s then Inr (True, begin_batch s, s)
            else deliver_all (udp_process_one_packet vt max_size) (map (take (max_size + 1)) datagrams) (begin_batch s, s)
        | _ \<Rightarrow> Inr (sb_stopped s, begin_batch s, s)) (\<lambda>(_, st, s1).
     Inr (\<not> sb_stopped s1, end_batch st s1))"

definition tcp_deliver :: "'s stream_virtuals \<Rightarrow> byte list \<Rightarrow> 's batch \<Rightarrow> fault + (bool \<times> 's batch)" where
  "tcp_deliver vt data b =
     (case decode_packet data of
        None \<Rightarrow> Inr (False, b)
      | Some (packet, sz) \<Rightarrow>
          if sz = length data
          then bind_result (stream_add_packet vt packet (fst b) (snd b)) (\<lambda>(_, b1). Inr (sb_stopped (snd b1), b1))
          else Inr (False, b))"

text \<open>\<open>tcp_receive\<close> is the part of the handler after a successful receive, with the start of the next one.\<close>

definition tcp_packet_handler ::
  "'s stream_virtuals \<Rightarrow> byte list completion \<Rightarrow> tcp_reader \<Rightarrow> 's stream_base \<Rightarrow>
   fault + (bool \<times> tcp_reader \<times> 's stream_base)" where
  "tcp_packet_handler vt c r s =
     bind_result
       (case c of
          Success bytes \<Rightarrow>
            if sb_stopped s then Inr (False, r, begin_batch s, s)
            else tcp_receive (tcp_deliver vt) bytes r (begin_batch s, s)
        | Eof \<Rightarrow> bind_result (stop_unlocked vt s) (\<lambda>s1. Inr (False, r, begin_batch s, s1))
        | _ \<Rightarrow> Inr (False, r, begin_batch s, s)) (\<lambda>(read_more, r1, st, s1).
     Inr (read_more, r1, end_batch st s1))"

definition tcp_accept_handler ::
  "byte list completion \<Rightarrow> tcp_reader \<Rightarrow> 's stream_base \<Rightarrow> fault + (bool \<times> tcp_reader \<times> 's stream_base)" where
  "tcp_accept_handler c r s =
     bind_result
       (case c of
          Success _ \<Rightarrow> bind_result (enqueue_receive r) (\<lambda>(r1, _). Inr (True, r1))
        | _ \<Rightarrow> Inr (False, r)) (\<lambda>(read_more, r1).
     Inr (read_more, r1, end_batch (begin_batch s) s))"

text \<open>
  Of an empty packet \<^verbatim>\<open>decode_packet\<close> returns the size 0, which is the size of the packet: the reader then adds a header
  that was never filled in.
\<close>

definition inproc_process_one_packet ::
  "'s stream_virtuals \<Rightarrow> byte list \<Rightarrow> 's batch \<Rightarrow> fault + 's batch" where
  "inproc_process_one_packet vt packet b =
     (case decode_packet packet of
        None \<Rightarrow> if length packet = 0 then Inl Uninitialised_read else Inr b
      | Some (header, sz) \<Rightarrow>
          if sz = length packet
          then bind_result (stream_add_packet vt header (fst b) (snd b)) (\<lambda>(_, b1). Inr b1)
          else Inr b)"

definition inproc_packet_handler ::
  "'s stream_virtuals \<Rightarrow> 'd completion \<Rightarrow> byte list unbounded_queue \<Rightarrow> 's stream_base \<Rightarrow>
   fault + (bool \<times> byte list unbounded_queue \<times> 's stream_base)" where
  "inproc_packet_handler vt c q s =
     bind_result
       (case c of
          Success _ \<Rightarrow>
            if sb_stopped s then Inr (q, begin_batch s, s)
            else
              (case uq_try_pop [] q of
                 (Inr packet, q1) \<Rightarrow>
                   bind_result (inproc_process_one_packet vt packet (begin_batch s, s)) (\<lambda>b. Inr (q1, b))
               | (Inl e, q1) \<Rightarrow>
                   if e = ringbuffer_stopped
                   then bind_result (stop_unlocked vt s) (\<lambda>s1. Inr (q1, begin_batch s, s1))
                   else if e = ringbuffer_empty then Inr (q1, begin_batch s, s)
                   else Inl e)
        | _ \<Rightarrow> Inr (q, begin_batch s, s)) (\<lambda>(q1, st, s1).
     Inr (\<not> sb_stopped s1, q1, end_batch st s1))"

text \<open>
  The handler that the memory reader posts.  It releases the queue mutex between feeding its data and stopping the
  stream, so it is two steps.
\<close>

definition mem_reader_feed :: "'s stream_virtuals \<Rightarrow> byte list \<Rightarrow> 's stream_base \<Rightarrow> fault + 's stream_base" where
  "mem_reader_feed vt ptr s = bind_result (mem_to_stream vt ptr s) (\<lambda>(_, s1). Inr s1)"

definition mem_reader_stop :: "'s stream_virtuals \<Rightarrow> 's stream_base \<Rightarrow> fault + 's stream_base" where
  "mem_reader_stop vt s = stop_stream vt s"

section \<open>Steps of the TCP reader\<close>

definition tr_safe :: "tcp_reader \<Rightarrow> bool" where
  "tr_safe r \<longleftrightarrow> tr_ok r \<and> (0 < tr_to_skip r \<longrightarrow> 0 < tr_pkt_size r)"

lemma parse_packet_size_safe:
  assumes "tr_safe r" "tr_head r < tr_tail r" "parse_packet_size r = (b, r1)"
  shows "tr_safe r1" "tr_tail r1 = tr_tail r" "tr_max_size r1 = tr_max_size r"
    "\<not> b \<Longrightarrow> tr_head r < tr_head r1 \<and> tr_pkt_size r1 = 0 \<and> tr_to_skip r1 = 0 \<or> tr_head r1 = tr_head r \<and> 0 < tr_pkt_size r1"
proof -
  have ok: "tr_ok r" using assms(1) by (simp add: tr_safe_def)
  have "length (tr_data r) = tr_tail r - tr_head r" by (rule length_tr_data [OF ok])
  moreover have "8 \<le> length (tr_data r)" if "get_packet_size (tr_data r) = - 1"
    using that by (cases rule: get_packet_size_cases [of "tr_data r"]) auto
  moreover have "0 < get_packet_size (tr_data r)" if "get_packet_size (tr_data r) \<noteq> - 1" "get_packet_size (tr_data r) \<noteq> 0"
    using that by (cases rule: get_packet_size_cases [of "tr_data r"]) auto
  ultimately show "tr_safe r1" "tr_tail r1 = tr_tail r" "tr_max_size r1 = tr_max_size r"
    "\<not> b \<Longrightarrow> tr_head r < tr_head r1 \<and> tr_pkt_size r1 = 0 \<and> tr_to_skip r1 = 0 \<or> tr_head r1 = tr_head r \<and> 0 < tr_pkt_size r1"
    using assms by (auto simp: parse_packet_size_def Let_def tr_safe_def tr_ok_def split: if_splits)
qed

lemma skip_bytes_safe:
  assumes "tr_safe r" "skip_bytes r = (b, r1)"
  shows "tr_safe r1" "tr_tail r1 = tr_tail r" "tr_max_size r1 = tr_max_size r"
    "\<not> b \<Longrightarrow> tr_to_skip r = 0 \<and> r1 = r \<or> tr_head r < tr_head r1 \<and> tr_pkt_size r1 = 0 \<and> tr_to_skip r1 = 0"
  using assms by (auto simp: skip_bytes_def Let_def tr_safe_def tr_ok_def split: if_splits)

section \<open>Consumers of packets\<close>

text \<open>
  What the loops over packets rely on: a packet is consumed without a fault from a state that accepts packets, and
  the state after it accepts packets unless the consumer says that it has stopped.
\<close>

locale packet_consumer =
  fixes deliver :: "byte list \<Rightarrow> 'x \<Rightarrow> fault + (bool \<times> 'x)"
    and accepting stopped :: "'x \<Rightarrow> bool"
  assumes consume: "accepting x \<Longrightarrow> \<exists>b x'. deliver f x = Inr (b, x') \<and> (if b then stopped x' else accepting x')"
begin

lemma deliver_all_consumed:
  assumes "accepting x"
  shows "\<exists>b x'. deliver_all deliver fs x = Inr (b, x') \<and> (if b then stopped x' else accepting x')"
  using assms
proof (induction fs arbitrary: x)
  case (Cons f fs)
  obtain b x1 where "deliver f x = Inr (b, x1)" "if b then stopped x1 else accepting x1" using consume [OF Cons.prems] by blast
  then show ?case using Cons.IH [of x1] by (cases b) auto
qed auto

text \<open>The TCP reader, whatever its size limit.\<close>

lemma process_loop_consumed:
  assumes "tr_safe r" "accepting x" "tr_tail r - tr_head r \<le> fuel"
  shows "\<exists>more r' x'. process_loop deliver fuel r x = Inr (more, r', x') \<and> tr_safe r' \<and> tr_max_size r' = tr_max_size r \<and>
    (if more then accepting x' else stopped x')"
  using assms
proof (induction fuel arbitrary: r x)
  case 0
  then show ?case by (subst process_loop.simps) auto
next
  case (Suc k)
  show ?case
  proof (cases "tr_head r < tr_tail r")
    case False
    then show ?thesis using Suc.prems by (subst process_loop.simps) auto
  next
    case True
    obtain b r1 where p: "parse_packet_size r = (b, r1)" by fastforce
    note p' = parse_packet_size_safe [OF Suc.prems(1) True p]
    obtain b' r2 where sk: "skip_bytes r1 = (b', r2)" by fastforce
    note sk' = skip_bytes_safe [OF p'(1) sk]
    have turn: "process_loop deliver (Suc k) r x =
      (if b then Inr (True, r1, x) else if b' then Inr (True, r2, x)
       else if tr_pkt_size r2 = 0 then process_loop deliver k r2 x
       else if tr_tail r2 - tr_head r2 < tr_pkt_size r2 then Inr (True, r2, x)
       else bind_result (parse_packet deliver r2 x) (\<lambda>(stopped, r3, x1).
         if stopped then Inr (False, r3, x1) else process_loop deliver k r3 x1))"
      using True by (subst process_loop.simps) (simp add: p sk)
    consider "b" | "\<not> b" "b'" | "\<not> b" "\<not> b'" "tr_pkt_size r2 = 0"
      | "\<not> b" "\<not> b'" "tr_pkt_size r2 \<noteq> 0" "tr_tail r2 - tr_head r2 < tr_pkt_size r2"
      | (packet) "\<not> b" "\<not> b'" "tr_pkt_size r2 \<noteq> 0" "\<not> tr_tail r2 - tr_head r2 < tr_pkt_size r2" by blast
    then show ?thesis
    proof cases
      case 3
      then have "tr_head r < tr_head r2" using p'(4) sk'(4) by auto
      then have "tr_tail r2 - tr_head r2 \<le> k" using Suc.prems(3) p'(2) sk'(2) by simp
      from Suc.IH [OF sk'(1) Suc.prems(2) this] 3 show ?thesis using turn p'(3) sk'(3) by simp
    next
      case packet
      define r3 where "r3 = r2\<lparr>tr_head := tr_head r2 + tr_pkt_size r2, tr_pkt_size := 0\<rparr>"
      have skip0: "tr_to_skip r2 = 0" using packet(2,3) sk'(4) by auto
      have r3: "tr_safe r3" "tr_max_size r3 = tr_max_size r"
        using sk'(1,3) p'(3) skip0 packet(4) by (auto simp: r3_def tr_safe_def tr_ok_def)
      have head: "tr_head r \<le> tr_head r2" "tr_tail r2 = tr_tail r" using p'(2,4) sk'(2,4) packet(1,2) by auto
      have less: "tr_tail r3 - tr_head r3 \<le> k" using head packet(3) Suc.prems(3) by (simp add: r3_def)
      obtain fin x1 where d: "deliver (take (tr_pkt_size r2) (tr_data r2)) x = Inr (fin, x1)"
          "if fin then stopped x1 else accepting x1"
        using consume [OF Suc.prems(2)] by blast
      have pk: "parse_packet deliver r2 x = Inr (fin, r3, x1)"
        using d(1) packet(3,4) by (simp add: parse_packet_def Let_def r3_def)
      show ?thesis
      proof (cases "fin")
        case True
        then show ?thesis using turn packet pk d(2) r3 by auto
      next
        case False
        with Suc.IH [OF r3(1) _ less, of x1] d(2) turn packet pk r3(2) show ?thesis by simp
      qed
    qed (use turn p' sk' Suc.prems(2) in auto)
  qed
qed

lemma tcp_receive_consumed:
  assumes r: "tr_safe r" and x: "accepting x" and fits: "tr_tail r + length bs \<le> tr_max_size r * pkts_per_buffer"
  shows "\<exists>more r' x'. tcp_receive deliver bs r x = Inr (more, r', x') \<and> tr_safe r' \<and> tr_max_size r' = tr_max_size r \<and>
    (if more then accepting x' else stopped x')"
proof -
  have "tr_tail r + length bs \<le> length (tr_buffer r)" using r fits by (simp add: tr_safe_def tr_ok_def)
  then obtain buf where buf: "mem_write (tr_buffer r) (tr_tail r) bs = Inr buf" "length buf = length (tr_buffer r)"
    by (auto simp: mem_write_def)
  let ?r = "r\<lparr>tr_buffer := buf, tr_tail := tr_tail r + length bs\<rparr>"
  have "tr_safe ?r" using r fits buf(2) by (simp add: tr_safe_def tr_ok_def)
  from process_loop_consumed [OF this x order_refl] obtain more r1 x1 where
    loop: "process_loop deliver (tr_tail ?r - tr_head ?r) ?r x = Inr (more, r1, x1)" "tr_safe r1" "tr_max_size r1 = tr_max_size r"
      "if more then accepting x1 else stopped x1" by auto
  have "tr_ok r1" using loop(2) by (simp add: tr_safe_def)
  from enqueue_receive_ok [OF this] obtain r2 where
    "enqueue_receive r1 = Inr (r2, tr_max_size r1 * pkts_per_buffer - tr_tail r2)" "tr_ok r2" "tr_max_size r2 = tr_max_size r1"
    "tr_pkt_size r2 = tr_pkt_size r1" "tr_to_skip r2 = tr_to_skip r1" .
  with loop buf show ?thesis by (auto simp: tcp_receive_def process_buffer_def tr_safe_def)
qed

end

section \<open>The handlers on a stream\<close>

text \<open>
  The state of a batch that started with the stream \<open>s0\<close>: \<open>R\<close> says what the operations may do to the subclass.
\<close>

definition in_batch ::
  "('s \<Rightarrow> bool) \<Rightarrow> ('s stream_base \<Rightarrow> 's stream_base \<Rightarrow> bool) \<Rightarrow> 's stream_base \<Rightarrow> bool \<Rightarrow> 's batch \<Rightarrow> bool" where
  "in_batch sink_inv R s0 halted b \<longleftrightarrow>
     stream_inv sink_inv (snd b) \<and> batch_ok (fst b) \<and> R s0 (snd b) \<and> sb_stopped (snd b) = halted"

lemma udp_process_eq:
  "udp_process_one_packet vt max_size data b =
     (if length data \<le> max_size \<and> length data > 0 then tcp_deliver vt data b else Inr (False, b))"
  by (simp add: udp_process_one_packet_def tcp_deliver_def)

locale stream_reader = stream_sink vt sink_inv + stream_frame vt R
  for vt :: "'s stream_virtuals" and sink_inv :: "'s \<Rightarrow> bool" and R :: "'s stream_base \<Rightarrow> 's stream_base \<Rightarrow> bool"
begin

lemma in_batch_start: "stream_inv sink_inv s \<Longrightarrow> in_batch sink_inv R s (sb_stopped s) (begin_batch s, s)"
  by (simp add: in_batch_def begin_batch_ok frame_refl)

lemma in_batch_end:
  assumes "in_batch sink_inv R s0 halted b"
  shows "stream_inv sink_inv (end_batch (fst b) (snd b))" "R s0 (end_batch (fst b) (snd b))"
    "sb_stopped (end_batch (fst b) (snd b)) = halted"
  using assms by (auto simp: in_batch_def end_batch_frame intro: end_batch_inv) (auto simp: end_batch_def Let_def)

lemma add_packet_batch:
  assumes b: "in_batch sink_inv R s0 False b" and d: "decode_packet data = Some (packet, sz)"
  obtains ok b1 where "stream_add_packet vt packet (fst b) (snd b) = Inr (ok, b1)" "in_batch sink_inv R s0 (sb_stopped (snd b1)) b1"
proof -
  have wf: "wf_packet packet" using decode_packet_result [OF d] by simp
  have inv: "stream_inv sink_inv (snd b)" "batch_ok (fst b)" "\<not> sb_stopped (snd b)" "R s0 (snd b)"
    using b by (simp_all add: in_batch_def)
  obtain ok st s where add: "stream_add_packet vt packet (fst b) (snd b) = Inr (ok, st, s)" "stream_inv sink_inv s" "batch_ok st"
    using stream_add_packet_total [OF inv(1) wf inv(2,3)] .
  moreover have "R s0 s" using add_packet_frame [OF inv(4), of packet "fst b"] add(1) by (simp add: post_def)
  ultimately show ?thesis by (intro that [of ok "(st, s)"]) (simp_all add: in_batch_def)
qed

lemma stop_batch:
  assumes "stream_inv sink_inv s"
  obtains s1 where "stop_unlocked vt s = Inr s1" "in_batch sink_inv R s True (begin_batch s, s1)"
proof -
  obtain s1 where s1: "stop_unlocked vt s = Inr s1" "stream_inv sink_inv s1" "sb_stopped s1"
  proof (cases "sb_stopped s")
    case True
    then show ?thesis using assms by (intro that [of s]) (simp_all add: stop_unlocked_def)
  next
    case False
    from stop_total [OF assms False] obtain s1 where "stop_received vt s = Inr s1" "stream_inv sink_inv s1" "sb_stopped s1" .
    with False show ?thesis by (intro that [of s1]) (simp_all add: stop_unlocked_def)
  qed
  moreover have "R s s1" using stop_unlocked_frame [OF frame_refl, of s] s1(1) by (simp add: post_def)
  ultimately show ?thesis using assms by (intro that [of s1]) (simp_all add: in_batch_def begin_batch_ok)
qed

end

sublocale stream_reader \<subseteq> tcp: packet_consumer "tcp_deliver vt" "in_batch sink_inv R s0 False" "in_batch sink_inv R s0 True" for s0
proof unfold_locales
  fix b f
  assume b: "in_batch sink_inv R s0 False b"
  show "\<exists>fin b'. tcp_deliver vt f b = Inr (fin, b') \<and> (if fin then in_batch sink_inv R s0 True b' else in_batch sink_inv R s0 False b')"
  proof (cases "\<exists>p. decode_packet f = Some (p, length f)")
    case True
    then obtain p where p: "decode_packet f = Some (p, length f)" by blast
    obtain ok b1 where "stream_add_packet vt p (fst b) (snd b) = Inr (ok, b1)" "in_batch sink_inv R s0 (sb_stopped (snd b1)) b1"
      using add_packet_batch [OF b p] .
    with p show ?thesis by (cases "sb_stopped (snd b1)") (auto simp: tcp_deliver_def)
  next
    case False
    then have "tcp_deliver vt f b = Inr (False, b)" by (auto simp: tcp_deliver_def split: option.splits)
    with b show ?thesis by auto
  qed
qed

sublocale stream_reader \<subseteq> udp: packet_consumer "udp_process_one_packet vt max_size" "in_batch sink_inv R s0 False"
    "in_batch sink_inv R s0 True"
  for max_size s0
proof unfold_locales
  fix b f
  assume b: "in_batch sink_inv R s0 False b"
  show "\<exists>fin b'. udp_process_one_packet vt max_size f b = Inr (fin, b') \<and>
      (if fin then in_batch sink_inv R s0 True b' else in_batch sink_inv R s0 False b')"
  proof (cases "length f \<le> max_size \<and> length f > 0")
    case True
    with tcp.consume [OF b, of f] show ?thesis by (simp add: udp_process_eq)
  next
    case False
    then have "udp_process_one_packet vt max_size f b = Inr (False, b)" by (auto simp: udp_process_eq)
    with b show ?thesis by auto
  qed
qed

lemma uq_try_pop_ok:
  assumes "uq_inv q"
  obtains "uq_try_pop [] q = (Inl ringbuffer_stopped, q)" "uq_data q = []" "uq_stopped q"
  | "uq_try_pop [] q = (Inl ringbuffer_empty, q)" "uq_data q = []" "\<not> uq_stopped q"
  | v q' where "uq_try_pop [] q = (Inr v, q')" "uq_data q = v # uq_data q'" "uq_inv q'" "uq_stopped q' = uq_stopped q"
  using uq_try_pop_outcome [OF assms, of "[]"] that
  by (cases "uq_data q") (auto simp: uq_pop_outcome_def split: if_splits)

context stream_reader
begin

lemma udp_handler_ok:
  assumes "stream_inv sink_inv s"
  obtains s' where "udp_packet_handler vt max_size c s = Inr (\<not> sb_stopped s', s')" "stream_inv sink_inv s'" "R s s'"
proof -
  obtain fin b where b: "(case c of
      Success datagrams \<Rightarrow>
        if sb_stopped s then Inr (True, begin_batch s, s)
        else deliver_all (udp_process_one_packet vt max_size) (map (take (max_size + 1)) datagrams) (begin_batch s, s)
    | _ \<Rightarrow> Inr (sb_stopped s, begin_batch s, s)) = Inr (fin, b)" "in_batch sink_inv R s fin b"
  proof (cases "sb_stopped s \<or> (\<forall>ds. c \<noteq> Success ds)")
    case True
    then show ?thesis using in_batch_start [OF assms]
      by (intro that [of "sb_stopped s" "(begin_batch s, s)"]) (auto split: completion.splits)
  next
    case False
    then obtain ds where c: "c = Success ds" "\<not> sb_stopped s" by blast
    then have "in_batch sink_inv R s False (begin_batch s, s)" using in_batch_start [OF assms] by simp
    from udp.deliver_all_consumed [OF this, of max_size "map (take (max_size + 1)) ds"] obtain fin b where
      "deliver_all (udp_process_one_packet vt max_size) (map (take (max_size + 1)) ds) (begin_batch s, s) = Inr (fin, b)"
      "if fin then in_batch sink_inv R s True b else in_batch sink_inv R s False b" by blast
    with c show ?thesis by (intro that [of fin b]) (auto split: if_splits)
  qed
  show ?thesis
    using b in_batch_end [OF b(2)]
    by (intro that [of "end_batch (fst b) (snd b)"]) (simp_all add: udp_packet_handler_def in_batch_def prod.case_eq_if)
qed

lemma tcp_handler_ok:
  assumes inv: "stream_inv sink_inv s" and r: "tr_safe r"
    and fits: "\<And>bytes. c = Success bytes \<Longrightarrow> tr_tail r + length bytes \<le> tr_max_size r * pkts_per_buffer"
  obtains more r' s' where "tcp_packet_handler vt c r s = Inr (more, r', s')" "stream_inv sink_inv s'" "R s s'"
    "tr_safe r'" "tr_max_size r' = tr_max_size r" "more \<Longrightarrow> \<not> sb_stopped s'"
proof -
  obtain more r' b where b: "(case c of
      Success bytes \<Rightarrow>
        if sb_stopped s then Inr (False, r, begin_batch s, s)
        else tcp_receive (tcp_deliver vt) bytes r (begin_batch s, s)
    | Eof \<Rightarrow> bind_result (stop_unlocked vt s) (\<lambda>s1. Inr (False, r, begin_batch s, s1))
    | _ \<Rightarrow> Inr (False, r, begin_batch s, s)) = Inr (more, r', b)"
    "in_batch sink_inv R s (sb_stopped (snd b)) b" "tr_safe r'" "tr_max_size r' = tr_max_size r" "more \<Longrightarrow> \<not> sb_stopped (snd b)"
  proof (cases c)
    case (Success bytes)
    show ?thesis
    proof (cases "sb_stopped s")
      case True
      then show ?thesis using Success in_batch_start [OF inv] r
        by (intro that [of False r "(begin_batch s, s)"]) simp_all
    next
      case False
      then have "in_batch sink_inv R s False (begin_batch s, s)" using in_batch_start [OF inv] by simp
      from tcp.tcp_receive_consumed [OF r this fits [OF Success]] obtain more r' b where
        "tcp_receive (tcp_deliver vt) bytes r (begin_batch s, s) = Inr (more, r', b)" "tr_safe r'" "tr_max_size r' = tr_max_size r"
        "in_batch sink_inv R s (\<not> more) b" by (auto split: if_splits)
      with Success False show ?thesis by (intro that [of more r' b]) (auto simp: in_batch_def)
    qed
  next
    case Eof
    obtain s1 where "stop_unlocked vt s = Inr s1" "in_batch sink_inv R s True (begin_batch s, s1)" using stop_batch [OF inv] .
    with Eof r show ?thesis by (intro that [of False r "(begin_batch s, s1)"]) (simp_all add: in_batch_def)
  qed (use that [of False r "(begin_batch s, s)"] in_batch_start [OF inv] r in simp_all)
  show ?thesis
    using b in_batch_end [OF b(2)]
    by (intro that [of more r' "end_batch (fst b) (snd b)"]) (simp_all add: tcp_packet_handler_def prod.case_eq_if)
qed

lemma tcp_accept_ok:
  assumes inv: "stream_inv sink_inv s" and r: "tr_safe r"
  obtains more r' s' where "tcp_accept_handler c r s = Inr (more, r', s')" "stream_inv sink_inv s'" "R s s'"
    "tr_safe r'" "tr_max_size r' = tr_max_size r"
proof -
  note s' = in_batch_end [OF in_batch_start [OF inv]]
  have "tr_ok r" using r by (simp add: tr_safe_def)
  from enqueue_receive_ok [OF this] obtain r' where
    "enqueue_receive r = Inr (r', tr_max_size r * pkts_per_buffer - tr_tail r')" "tr_ok r'" "tr_max_size r' = tr_max_size r"
    "tr_pkt_size r' = tr_pkt_size r" "tr_to_skip r' = tr_to_skip r" .
  with r s' show ?thesis
    by (cases c; intro that [of "\<exists>d. c = Success d" "if \<exists>d. c = Success d then r' else r" "end_batch (begin_batch s) s"])
      (simp_all add: tcp_accept_handler_def tr_safe_def)
qed

text \<open>The queue of an inproc reader must not hold empty packets.\<close>

lemma inproc_handler_ok:
  assumes inv: "stream_inv sink_inv s" and q: "uq_inv q" "[] \<notin> set (uq_data q)"
  obtains q' s' where "inproc_packet_handler vt c q s = Inr (\<not> sb_stopped s', q', s')" "stream_inv sink_inv s'" "R s s'"
    "uq_inv q'" "[] \<notin> set (uq_data q')"
proof -
  have same: "in_batch sink_inv R s (sb_stopped s) (begin_batch s, s)" by (rule in_batch_start [OF inv])
  obtain q' b where b: "(case c of
      Success _ \<Rightarrow>
        if sb_stopped s then Inr (q, begin_batch s, s)
        else
          (case uq_try_pop [] q of
             (Inr packet, q1) \<Rightarrow>
               bind_result (inproc_process_one_packet vt packet (begin_batch s, s)) (\<lambda>b. Inr (q1, b))
           | (Inl e, q1) \<Rightarrow>
               if e = ringbuffer_stopped
               then bind_result (stop_unlocked vt s) (\<lambda>s1. Inr (q1, begin_batch s, s1))
               else if e = ringbuffer_empty then Inr (q1, begin_batch s, s)
               else Inl e)
    | _ \<Rightarrow> Inr (q, begin_batch s, s)) = Inr (q', b)"
    "in_batch sink_inv R s (sb_stopped (snd b)) b" "uq_inv q'" "[] \<notin> set (uq_data q')"
  proof (cases "sb_stopped s \<or> (\<forall>d. c \<noteq> Success d)")
    case True
    then show ?thesis using same q by (intro that [of q "(begin_batch s, s)"]) (auto split: completion.splits)
  next
    case False
    then obtain d where c: "c = Success d" "\<not> sb_stopped s" by blast
    show ?thesis
    proof (cases rule: uq_try_pop_ok [OF q(1)])
      case 1
      obtain s1 where "stop_unlocked vt s = Inr s1" "in_batch sink_inv R s True (begin_batch s, s1)" using stop_batch [OF inv] .
      with 1 c q show ?thesis by (intro that [of q "(begin_batch s, s1)"]) (simp_all add: in_batch_def)
    next
      case 2
      with c q same show ?thesis
        by (intro that [of q "(begin_batch s, s)"]) (simp_all add: ringbuffer_stopped_def ringbuffer_empty_def)
    next
      case (3 v q')
      have v: "v \<noteq> []" "[] \<notin> set (uq_data q')" using q(2) 3(2) by auto
      obtain b where "inproc_process_one_packet vt v (begin_batch s, s) = Inr b" "in_batch sink_inv R s (sb_stopped (snd b)) b"
      proof (cases "\<exists>p. decode_packet v = Some (p, length v)")
        case True
        then obtain p where p: "decode_packet v = Some (p, length v)" by blast
        have "in_batch sink_inv R s False (begin_batch s, s)" using same c(2) by simp
        from add_packet_batch [OF this p] obtain ok b1 where
          "stream_add_packet vt p (begin_batch s) s = Inr (ok, b1)" "in_batch sink_inv R s (sb_stopped (snd b1)) b1" by auto
        with p show ?thesis by (intro that [of b1]) (simp_all add: inproc_process_one_packet_def)
      next
        case False
        with v same show ?thesis
          by (intro that [of "(begin_batch s, s)"]) (auto simp: inproc_process_one_packet_def split: option.splits)
      qed
      with 3 c v(2) show ?thesis by (intro that [of q' b]) simp_all
    qed
  qed
  show ?thesis
    using b in_batch_end [OF b(2)]
    by (intro that [of "end_batch (fst b) (snd b)" q']) (simp_all add: inproc_packet_handler_def prod.case_eq_if)
qed

lemma mem_reader_ok:
  assumes "stream_inv sink_inv s"
  obtains s' where "mem_reader_feed vt ptr s = Inr s'" "stream_inv sink_inv s'" "R s s'"
proof -
  obtain n s' where s': "mem_to_stream vt ptr s = Inr (drop n ptr, s')" "stream_inv sink_inv s'"
    using mem_to_stream_total [OF assms] .
  moreover have "R s s'" using mem_to_stream_frame [OF frame_refl, of s ptr] s'(1) by (simp add: post_def)
  ultimately show ?thesis by (intro that [of s']) (simp_all add: mem_reader_feed_def)
qed

lemma mem_reader_stop_ok:
  assumes "stream_inv sink_inv s"
  obtains s' where "mem_reader_stop vt s = Inr s'" "stream_inv sink_inv s'" "R s s'" "sb_stopped s'"
  using stop_batch [OF assms] by (auto simp: mem_reader_stop_def stop_stream_def in_batch_def)

end

section \<open>TCP against UDP\<close>

lemma frames_concat:
  assumes "\<forall>p \<in> set ps. get_packet_size p = int (length p) \<and> 0 < length p \<and> length p \<le> m"
  shows "frames m (concat ps) = (ps, [])"
  using assms
proof (induction ps)
  case Nil
  show ?case using frames_wait [of "[]"] by (simp add: get_packet_size_def)
next
  case (Cons p ps)
  then have p: "get_packet_size p = int (length p)" "0 < length p" "length p \<le> m" by auto
  have "get_packet_size (p @ concat ps) = int (length p)" using get_packet_size_append [of p "concat ps"] p by simp
  from frames_packet [OF this p(2)] Cons p show ?case by simp
qed

lemma tcp_deliver_flag:
  "tcp_deliver vt f b = Inr (fin, b') \<Longrightarrow> \<not> sb_stopped (snd b) \<Longrightarrow> fin = sb_stopped (snd b')"
  by (auto simp: tcp_deliver_def bind_result_Inr_iff split: option.splits if_splits)

lemma deliver_all_flag:
  "deliver_all (tcp_deliver vt) fs b = Inr (fin, b') \<Longrightarrow> \<not> sb_stopped (snd b) \<Longrightarrow> fin = sb_stopped (snd b')"
proof (induction fs arbitrary: b)
  case (Cons f fs)
  then obtain fin1 b1 where b1: "tcp_deliver vt f b = Inr (fin1, b1)"
      "(if fin1 then Inr (True, b1) else deliver_all (tcp_deliver vt) fs b1) = Inr (fin, b')"
    by (auto simp: bind_result_Inr_iff)
  have "fin1 = sb_stopped (snd b1)" by (rule tcp_deliver_flag [OF b1(1) Cons.prems(2)])
  with b1(2) Cons.IH [of b1] show ?case by (cases fin1) auto
qed auto

lemma deliver_all_udp:
  assumes "\<forall>p \<in> set ps. 0 < length p \<and> length p \<le> m"
  shows "deliver_all (udp_process_one_packet vt m) (map (take (m + 1)) ps) b = deliver_all (tcp_deliver vt) ps b"
  using assms
proof (induction ps arbitrary: b)
  case (Cons p ps)
  then have "take (m + 1) p = p" "udp_process_one_packet vt m p b = tcp_deliver vt p b" by (simp_all add: udp_process_eq)
  with Cons show ?case by (cases "tcp_deliver vt p b") (auto split: prod.splits)
qed simp

section \<open>Properties\<close>

text \<open>
  The transports agree.  Packets that arrive back to back on a TCP connection, in one receive, do to the stream
  exactly what they do when they arrive as datagrams that the UDP reader takes in one batch: the same
  heaps, statistics, faults and decision to read on.
\<close>

lemma tcp_agrees_with_udp:
  assumes "\<forall>p \<in> set ps. get_packet_size p = int (length p) \<and> 0 < length p \<and> length p \<le> tr_max_size r"
    and "tr_ok r" "tr_view r []" "16384 \<le> tr_max_size r"
    and "tr_tail r + length (concat ps) \<le> tr_max_size r * pkts_per_buffer"
  shows "bind_result (tcp_packet_handler vt (Success (concat ps)) r s) (\<lambda>(again, _, s'). Inr (again, s')) =
    udp_packet_handler vt (tr_max_size r) (Success ps) s"
proof (cases "sb_stopped s")
  case True
  then show ?thesis by (simp add: tcp_packet_handler_def udp_packet_handler_def end_batch_def begin_batch_def)
next
  case False
  let ?b = "(begin_batch s, s)"
  have fr: "fst (frames (tr_max_size r) ([] @ concat ps)) = ps" using frames_concat [OF assms(1)] by simp
  note recv = receive_agrees [OF assms(2,3,5,4), of "tcp_deliver vt" ?b, unfolded fr]
  have udp: "udp_packet_handler vt (tr_max_size r) (Success ps) s =
      bind_result (deliver_all (tcp_deliver vt) ps ?b) (\<lambda>(_, st, s1). Inr (\<not> sb_stopped s1, end_batch st s1))"
    using False deliver_all_udp [of ps "tr_max_size r" vt ?b] assms(1) by (simp add: udp_packet_handler_def)
  show ?thesis
  proof (cases "deliver_all (tcp_deliver vt) ps ?b")
    case (Inl e)
    with recv udp False show ?thesis by (simp add: tcp_packet_handler_def)
  next
    case (Inr y)
    obtain fin st s1 where y: "y = (fin, st, s1)" by (cases y)
    have "fin = sb_stopped s1" using deliver_all_flag [OF Inr [unfolded y]] False by simp
    with Inr y recv udp False show ?thesis by (auto simp: tcp_packet_handler_def)
  qed
qed

lemma tcp_agrees_with_udp_witness:
  "bind_result (tcp_packet_handler base_virtuals (Success (concat [example_packet, example_packet]))
       (make_tcp_reader (\<lambda>_. 0) 65536) (example_stream ())) (\<lambda>(again, _, s'). Inr (again, s')) =
     udp_packet_handler base_virtuals 65536 (Success [example_packet, example_packet]) (example_stream ())"
proof -
  let ?r = "make_tcp_reader (\<lambda>_. 0) 65536"
  have r: "tr_max_size ?r = 65536" "tr_ok ?r" "tr_view ?r []" "tr_tail ?r = 0"
    by (simp_all add: make_tcp_reader_def tr_ok_def tr_view_def tr_data_def)
  have len: "length example_packet = 51" by (simp add: example_packet_def)
  have "get_packet_size example_packet = 51" by (simp add: eval_simps get_packet_size_def example_packet_def)
  with tcp_agrees_with_udp [of "[example_packet, example_packet]" ?r base_virtuals "example_stream ()"] r len
  show ?thesis by (simp add: pkts_per_buffer_def)
qed

end
