(* ===== verification/StreamReaders.thy ===== *)
theory StreamReaders
  imports Readers
begin

text \<open>
  The class \<^verbatim>\<open>stream\<close> of \<^verbatim>\<open>recv_stream.h\<close> and \<^verbatim>\<open>recv_stream.cpp\<close>, which owns readers, and the base class
  \<^verbatim>\<open>reader\<close>: how readers come and go, and how stopping the stream waits for them.  The state includes the
  completion handlers that are outstanding, and the operating system, the user and the
  threads of the pool take steps in any order.
\<close>

section \<open>Definitions\<close>

text \<open>
  The four kinds of readers.  The memory reader and the TCP reader have two phases: data and stop, accepting and
  receiving.  An inproc reader knows its queue by a number.
\<close>

datatype reader_kind =
    Mem_reader "byte list" | Mem_stopping
  | Udp_reader nat
  | Tcp_accepting tcp_reader | Tcp_receiving tcp_reader
  | Inproc_reader nat

text \<open>
  \<open>rd_handlers\<close> is the number of handlers of the reader that are outstanding, \<open>rd_posted\<close> how often it has posted
  the last action of \<^verbatim>\<open>stopped\<close> and \<open>rd_put\<close> how often that has run; \<open>rd_cancelled\<close> says that \<^verbatim>\<open>stop\<close> was called,
  which makes the pending operation complete.  \<open>rd_late\<close> records that the reader was added to a stream that had stopped.
\<close>

record reader =
  rd_kind :: reader_kind
  rd_late :: bool
  rd_cancelled :: bool
  rd_handlers :: nat
  rd_posted :: nat
  rd_put :: nat

datatype new_reader = New_mem "byte list" | New_udp nat | New_tcp nat | New_inproc nat

fun initial_kind :: "(nat \<Rightarrow> byte) \<Rightarrow> new_reader \<Rightarrow> reader_kind" where
  "initial_kind fresh (New_mem ptr) = Mem_reader ptr"
| "initial_kind fresh (New_udp max_size) = Udp_reader max_size"
| "initial_kind fresh (New_tcp max_size) = Tcp_accepting (make_tcp_reader fresh max_size)"
| "initial_kind fresh (New_inproc q) = Inproc_reader q"

text \<open>The constructor of every reader starts its first operation.\<close>

definition make_reader :: "(nat \<Rightarrow> byte) \<Rightarrow> bool \<Rightarrow> new_reader \<Rightarrow> reader" where
  "make_reader fresh late args =
     \<lparr>rd_kind = initial_kind fresh args, rd_late = late, rd_cancelled = False, rd_handlers = 1, rd_posted = 0, rd_put = 0\<rparr>"

fun reader_lossy :: "reader_kind \<Rightarrow> bool" where
  "reader_lossy (Udp_reader _) = True"
| "reader_lossy _ = False"

definition stop_reader :: "reader \<Rightarrow> reader" where
  "stop_reader r = r\<lparr>rd_cancelled := True\<rparr>"

text \<open>
  \<^verbatim>\<open>stream\<close> is itself a subclass of \<^verbatim>\<open>stream_base\<close>, and the base class of those that handle heaps: its
  \<^verbatim>\<open>stop_received\<close> stops the readers, and then the subclass does its part.
\<close>

record 'k owner =
  ow_readers :: "reader list"
  ow_sink :: 'k

definition owner_virtuals :: "'k stream_virtuals \<Rightarrow> 'k owner stream_virtuals" where
  "owner_virtuals vt =
     \<lparr>heap_ready = (\<lambda>h ow. bind_result (heap_ready vt h (ow_sink ow)) (\<lambda>k. Inr (ow\<lparr>ow_sink := k\<rparr>))),
      stop_hook = (\<lambda>ow. ow\<lparr>ow_readers := map stop_reader (ow_readers ow), ow_sink := stop_hook vt (ow_sink ow)\<rparr>)\<rparr>"

text \<open>
  What the subclass adds: \<^verbatim>\<open>heap_ready\<close> and \<^verbatim>\<open>stop_received\<close>, what its \<^verbatim>\<open>stop\<close> does before that of \<^verbatim>\<open>stream\<close>, and
  an action of its consumer.
\<close>

record 'k client =
  cl_virtuals :: "'k stream_virtuals"
  cl_unblock :: "'k \<Rightarrow> 'k"
  cl_consume :: "'k \<Rightarrow> 'k"

text \<open>Where the one call of \<^verbatim>\<open>stop_impl\<close> is; it waits for the given number of readers.\<close>

datatype stop_state = Stop_idle | Stop_counting | Stop_waiting nat | Stop_returned

record 'k reader_stream =
  rs_base :: "'k owner stream_base"
  rs_stop_readers :: bool
  rs_lossy :: bool
  rs_readers_stopped :: nat
  rs_stop :: stop_state
  rs_queues :: "nat \<Rightarrow> byte list unbounded_queue"

abbreviation rs_readers :: "'k reader_stream \<Rightarrow> reader list" where
  "rs_readers t \<equiv> ow_readers (sb_sink (rs_base t))"

definition set_owner :: "('k owner \<Rightarrow> 'k owner) \<Rightarrow> 'k reader_stream \<Rightarrow> 'k reader_stream" where
  "set_owner f t = t\<lparr>rs_base := (rs_base t)\<lparr>sb_sink := f (sb_sink (rs_base t))\<rparr>\<rparr>"

definition set_readers :: "(reader list \<Rightarrow> reader list) \<Rightarrow> 'k reader_stream \<Rightarrow> 'k reader_stream" where
  "set_readers f = set_owner (\<lambda>ow. ow\<lparr>ow_readers := f (ow_readers ow)\<rparr>)"

definition make_reader_stream :: "allocator \<Rightarrow> bug_compat_mask \<Rightarrow> nat \<Rightarrow> 'k \<Rightarrow> fault + 'k reader_stream" where
  "make_reader_stream alloc bug_compat max_heaps k =
     bind_result (make_stream_base alloc bug_compat max_heaps \<lparr>ow_readers = [], ow_sink = k\<rparr>) (\<lambda>s.
     Inr \<lparr>rs_base = s, rs_stop_readers = False, rs_lossy = False, rs_readers_stopped = 0, rs_stop = Stop_idle,
          rs_queues = (\<lambda>_. make_unbounded_queue)\<rparr>)"

definition emplace_reader :: "(nat \<Rightarrow> byte) \<Rightarrow> new_reader \<Rightarrow> 'k reader_stream \<Rightarrow> 'k reader_stream" where
  "emplace_reader fresh args t =
     (if \<not> rs_stop_readers t then
        (let ptr = make_reader fresh (sb_stopped (rs_base t)) args in
         set_readers (\<lambda>rs. rs @ [ptr]) (t\<lparr>rs_lossy := rs_lossy t \<or> reader_lossy (rd_kind ptr)\<rparr>))
      else t)"

text \<open>
  A handler of a reader runs.  The result says whether a handler is outstanding afterwards: the reader has started
  another operation, or is in the middle of its handler.
\<close>

fun handle ::
  "'s stream_virtuals \<Rightarrow> byte list list completion \<Rightarrow> reader_kind \<Rightarrow> (nat \<Rightarrow> byte list unbounded_queue) \<Rightarrow> 's stream_base \<Rightarrow>
   fault + (bool \<times> reader_kind \<times> (nat \<Rightarrow> byte list unbounded_queue) \<times> 's stream_base)" where
  "handle vt c (Mem_reader ptr) qs s = bind_result (mem_reader_feed vt ptr s) (\<lambda>s1. Inr (True, Mem_stopping, qs, s1))"
| "handle vt c Mem_stopping qs s = bind_result (mem_reader_stop vt s) (\<lambda>s1. Inr (False, Mem_stopping, qs, s1))"
| "handle vt c (Udp_reader m) qs s =
     bind_result (udp_packet_handler vt m c s) (\<lambda>(again, s1). Inr (again, Udp_reader m, qs, s1))"
| "handle vt c (Tcp_accepting r) qs s =
     bind_result (tcp_accept_handler (map_completion concat c) r s) (\<lambda>(again, r1, s1). Inr (again, Tcp_receiving r1, qs, s1))"
| "handle vt c (Tcp_receiving r) qs s =
     bind_result (tcp_packet_handler vt (map_completion concat c) r s) (\<lambda>(again, r1, s1).
     Inr (again, Tcp_receiving r1, qs, s1))"
| "handle vt c (Inproc_reader q) qs s =
     bind_result (inproc_packet_handler vt c (qs q) s) (\<lambda>(again, q1, s1). Inr (again, Inproc_reader q, qs(q := q1), s1))"

definition finish_handler :: "bool \<Rightarrow> reader_kind \<Rightarrow> reader \<Rightarrow> reader" where
  "finish_handler again kind r =
     r\<lparr>rd_kind := kind, rd_handlers := rd_handlers r - 1 + of_bool again, rd_posted := rd_posted r + of_bool (\<not> again)\<rparr>"

definition run_handler ::
  "'k client \<Rightarrow> nat \<Rightarrow> byte list list completion \<Rightarrow> 'k reader_stream \<Rightarrow> fault + 'k reader_stream" where
  "run_handler cl i c t =
     bind_result (handle (owner_virtuals (cl_virtuals cl)) c (rd_kind (rs_readers t ! i)) (rs_queues t) (rs_base t))
       (\<lambda>(again, kind, qs, s1).
     Inr (set_readers (\<lambda>rs. rs[i := finish_handler again kind (rs ! i)]) (t\<lparr>rs_base := s1, rs_queues := qs\<rparr>)))"

text \<open>The action posted by \<^verbatim>\<open>reader::stopped\<close>.\<close>

definition run_posted :: "nat \<Rightarrow> 'k reader_stream \<Rightarrow> 'k reader_stream" where
  "run_posted i t =
     set_readers (\<lambda>rs. rs[i := (rs ! i)\<lparr>rd_posted := rd_posted (rs ! i) - 1, rd_put := rd_put (rs ! i) + 1\<rparr>])
       (t\<lparr>rs_readers_stopped := sem_put (rs_readers_stopped t)\<rparr>)"

text \<open>
  \<^verbatim>\<open>stop_impl\<close>, called once: it stops the base, then counts the readers with the reader mutex, then waits for each,
  then destroys them.  Destroying a reader with a handler outstanding, or returning with a posted action that
  refers to the stream, is a fault.
\<close>

definition stop_begin :: "'k client \<Rightarrow> 'k reader_stream \<Rightarrow> fault + 'k reader_stream" where
  "stop_begin cl t =
     (let t1 = set_owner (\<lambda>ow. ow\<lparr>ow_sink := cl_unblock cl (ow_sink ow)\<rparr>) t in
      bind_result (stop_stream (owner_virtuals (cl_virtuals cl)) (rs_base t1)) (\<lambda>s1.
      Inr (t1\<lparr>rs_base := s1, rs_stop := Stop_counting\<rparr>)))"

definition stop_count :: "'k reader_stream \<Rightarrow> 'k reader_stream" where
  "stop_count t = t\<lparr>rs_stop_readers := True, rs_stop := Stop_waiting (length (rs_readers t))\<rparr>"

definition stop_wait :: "nat \<Rightarrow> 'k reader_stream \<Rightarrow> 'k reader_stream" where
  "stop_wait n t = t\<lparr>rs_readers_stopped := rs_readers_stopped t - 1, rs_stop := Stop_waiting n\<rparr>"

definition stop_clear :: "'k reader_stream \<Rightarrow> fault + 'k reader_stream" where
  "stop_clear t =
     (if \<exists>r \<in> set (rs_readers t). 0 < rd_handlers r + rd_posted r then Inl Use_after_free
      else Inr (set_readers (\<lambda>_. []) (t\<lparr>rs_stop := Stop_returned\<rparr>)))"

section \<open>Steps\<close>

datatype stream_event =
    Emplace new_reader | Handler nat "byte list list completion" | Posted nat
  | Stop_begin | Stop_count | Stop_wait | Stop_clear
  | Consume | Push_packet nat "byte list" | Stop_queue nat

text \<open>
  How an operation can complete: only a cancelled one is aborted, a posted handler has no error, and a receive
  gives no more bytes than there is room for.
\<close>

definition can_complete :: "reader \<Rightarrow> byte list list completion \<Rightarrow> bool" where
  "can_complete r c \<longleftrightarrow>
     (c = Operation_aborted \<longrightarrow> rd_cancelled r) \<and>
     (case rd_kind r of
        Mem_reader _ \<Rightarrow> c = Success []
      | Mem_stopping \<Rightarrow> c = Success []
      | Tcp_receiving tr \<Rightarrow>
          (case c of Success ds \<Rightarrow> tr_tail tr + length (concat ds) \<le> tr_max_size tr * pkts_per_buffer | _ \<Rightarrow> True)
      | _ \<Rightarrow> True)"

fun enabled :: "stream_event \<Rightarrow> 'k reader_stream \<Rightarrow> bool" where
  "enabled (Emplace _) t = (rs_stop t \<noteq> Stop_returned)"
| "enabled (Handler i c) t =
     (i < length (rs_readers t) \<and> 0 < rd_handlers (rs_readers t ! i) \<and> can_complete (rs_readers t ! i) c)"
| "enabled (Posted i) t = (i < length (rs_readers t) \<and> 0 < rd_posted (rs_readers t ! i))"
| "enabled Stop_begin t = (rs_stop t = Stop_idle)"
| "enabled Stop_count t = (rs_stop t = Stop_counting)"
| "enabled Stop_wait t = (case rs_stop t of Stop_waiting (Suc _) \<Rightarrow> 0 < rs_readers_stopped t | _ \<Rightarrow> False)"
| "enabled Stop_clear t = (rs_stop t = Stop_waiting 0)"
| "enabled Consume t = True"
| "enabled (Push_packet _ _) t = True"
| "enabled (Stop_queue _) t = True"

fun stream_step :: "(nat \<Rightarrow> byte) \<Rightarrow> 'k client \<Rightarrow> stream_event \<Rightarrow> 'k reader_stream \<Rightarrow> fault + 'k reader_stream" where
  "stream_step fresh cl (Emplace args) t = Inr (emplace_reader fresh args t)"
| "stream_step fresh cl (Handler i c) t = run_handler cl i c t"
| "stream_step fresh cl (Posted i) t = Inr (run_posted i t)"
| "stream_step fresh cl Stop_begin t = stop_begin cl t"
| "stream_step fresh cl Stop_count t = Inr (stop_count t)"
| "stream_step fresh cl Stop_wait t =
     (case rs_stop t of Stop_waiting (Suc n) \<Rightarrow> Inr (stop_wait n t) | _ \<Rightarrow> Inr t)"
| "stream_step fresh cl Stop_clear t = stop_clear t"
| "stream_step fresh cl Consume t = Inr (set_owner (\<lambda>ow. ow\<lparr>ow_sink := cl_consume cl (ow_sink ow)\<rparr>) t)"
| "stream_step fresh cl (Push_packet q p) t =
     Inr (case uq_push p (rs_queues t q) of
        Inl _ \<Rightarrow> t | Inr q1 \<Rightarrow> t\<lparr>rs_queues := (rs_queues t)(q := q1)\<rparr>)"
| "stream_step fresh cl (Stop_queue q) t = Inr (t\<lparr>rs_queues := (rs_queues t)(q := uq_stop (rs_queues t q))\<rparr>)"

text \<open>A run; \<open>None\<close> if one of the events cannot happen when it should.\<close>

fun stream_run ::
  "(nat \<Rightarrow> byte) \<Rightarrow> 'k client \<Rightarrow> stream_event list \<Rightarrow> 'k reader_stream \<Rightarrow> (fault + 'k reader_stream) option" where
  "stream_run fresh cl [] t = Some (Inr t)"
| "stream_run fresh cl (ev # evs) t =
     (if enabled ev t then
        (case stream_step fresh cl ev t of Inl e \<Rightarrow> Some (Inl e) | Inr t1 \<Rightarrow> stream_run fresh cl evs t1)
      else None)"

section \<open>Invariant\<close>

fun kind_ok :: "reader_kind \<Rightarrow> bool" where
  "kind_ok (Tcp_accepting r) = tr_safe r"
| "kind_ok (Tcp_receiving r) = tr_safe r"
| "kind_ok _ = True"

text \<open>Every reader has one handler outstanding, or has posted its last action, or that has run.\<close>

definition reader_inv :: "reader \<Rightarrow> bool" where
  "reader_inv r \<longleftrightarrow> rd_handlers r + rd_posted r + rd_put r = 1 \<and> kind_ok (rd_kind r)"

definition queue_ok :: "byte list unbounded_queue \<Rightarrow> bool" where
  "queue_ok q \<longleftrightarrow> uq_inv q \<and> [] \<notin> set (uq_data q)"

fun stop_inv :: "stop_state \<Rightarrow> bool \<Rightarrow> bool \<Rightarrow> nat \<Rightarrow> nat \<Rightarrow> nat \<Rightarrow> bool" where
  "stop_inv Stop_idle halted stop_readers len tokens puts = (\<not> stop_readers \<and> tokens = puts)"
| "stop_inv Stop_counting halted stop_readers len tokens puts = (halted \<and> \<not> stop_readers \<and> tokens = puts)"
| "stop_inv (Stop_waiting n) halted stop_readers len tokens puts =
     (halted \<and> stop_readers \<and> n \<le> len \<and> tokens + (len - n) = puts)"
| "stop_inv Stop_returned halted stop_readers len tokens puts = (halted \<and> stop_readers \<and> len = 0)"

definition life_inv :: "('k \<Rightarrow> bool) \<Rightarrow> 'k reader_stream \<Rightarrow> bool" where
  "life_inv sink_inv t \<longleftrightarrow>
     stream_inv (\<lambda>ow. sink_inv (ow_sink ow)) (rs_base t) \<and>
     (\<forall>r \<in> set (rs_readers t). reader_inv r \<and> (sb_stopped (rs_base t) \<longrightarrow> rd_cancelled r \<or> rd_late r)) \<and>
     (\<forall>q. queue_ok (rs_queues t q)) \<and>
     stop_inv (rs_stop t) (sb_stopped (rs_base t)) (rs_stop_readers t) (length (rs_readers t)) (rs_readers_stopped t)
       (sum_list (map rd_put (rs_readers t)))"

text \<open>What a handler may do to the readers: nothing, or stop them all, with the stream.\<close>

definition owned :: "'k owner stream_base \<Rightarrow> 'k owner stream_base \<Rightarrow> bool" where
  "owned s s' \<longleftrightarrow>
     sb_stopped s' = sb_stopped s \<and> ow_readers (sb_sink s') = ow_readers (sb_sink s) \<or>
     \<not> sb_stopped s \<and> sb_stopped s' \<and> ow_readers (sb_sink s') = map stop_reader (ow_readers (sb_sink s))"

text \<open>
  The interface to the subclass, with what its \<^verbatim>\<open>stop\<close> and its consumer do.
\<close>

locale stream_client = stream_sink "cl_virtuals cl" sink_inv
  for cl :: "'k client" and sink_inv :: "'k \<Rightarrow> bool" +
  assumes unblock_ok: "sink_inv k \<Longrightarrow> sink_inv (cl_unblock cl k)"
    and consume_ok: "sink_inv k \<Longrightarrow> sink_inv (cl_consume cl k)"

sublocale stream_client \<subseteq> owner: stream_reader "owner_virtuals (cl_virtuals cl)" "\<lambda>ow. sink_inv (ow_sink ow)" owned
proof unfold_locales
  fix ow :: "'k owner" and h
  assume "sink_inv (ow_sink ow)" "lh_inv h"
  from ready_ok [OF this] show "\<exists>k'. heap_ready (owner_virtuals (cl_virtuals cl)) h ow = Inr k' \<and> sink_inv (ow_sink k')"
    by (auto simp: owner_virtuals_def)
next
  fix ow :: "'k owner"
  assume "sink_inv (ow_sink ow)"
  then show "sink_inv (ow_sink (stop_hook (owner_virtuals (cl_virtuals cl)) ow))" by (simp add: owner_virtuals_def stop_ok)
next
  fix h k and s :: "'k owner stream_base"
  assume "heap_ready (owner_virtuals (cl_virtuals cl)) h (sb_sink s) = Inr k"
  then show "owned s (s\<lparr>sb_sink := k\<rparr>)" by (auto simp: owner_virtuals_def owned_def bind_result_Inr_iff)
qed (auto simp: owned_def owner_virtuals_def)

text \<open>Work left in a reader of a stopped stream: handlers that can still run.\<close>

fun kind_weight :: "reader_kind \<Rightarrow> nat" where
  "kind_weight (Mem_reader _) = 3"
| "kind_weight (Tcp_accepting _) = 3"
| "kind_weight _ = 2"

fun kind_mem :: "reader_kind \<Rightarrow> bool" where
  "kind_mem (Mem_reader _) = True"
| "kind_mem Mem_stopping = True"
| "kind_mem _ = False"

context stream_reader
begin

lemma handle_ok:
  assumes inv: "stream_inv sink_inv s" and kind: "kind_ok (rd_kind r)" and qs: "\<forall>q. queue_ok (qs q)" and c: "can_complete r c"
  obtains again kind' qs' s' where "handle vt c (rd_kind r) qs s = Inr (again, kind', qs', s')"
    "stream_inv sink_inv s'" "R s s'" "kind_ok kind'" "\<forall>q. queue_ok (qs' q)" "kind_mem kind' = kind_mem (rd_kind r)"
    "again \<and> sb_stopped s' \<longrightarrow> kind_weight kind' < kind_weight (rd_kind r)"
proof (cases "rd_kind r")
  case (Mem_reader ptr)
  obtain s' where "mem_reader_feed vt ptr s = Inr s'" "stream_inv sink_inv s'" "R s s'" using mem_reader_ok [OF inv] .
  with Mem_reader qs show ?thesis by (intro that [of True Mem_stopping qs s']) simp_all
next
  case Mem_stopping
  obtain s' where "mem_reader_stop vt s = Inr s'" "stream_inv sink_inv s'" "R s s'" using mem_reader_stop_ok [OF inv] .
  with Mem_stopping qs show ?thesis by (intro that [of False Mem_stopping qs s']) simp_all
next
  case (Udp_reader m)
  obtain s' where "udp_packet_handler vt m c s = Inr (\<not> sb_stopped s', s')" "stream_inv sink_inv s'" "R s s'"
    using udp_handler_ok [OF inv] .
  with Udp_reader qs show ?thesis by (intro that [of "\<not> sb_stopped s'" "Udp_reader m" qs s']) simp_all
next
  case (Tcp_accepting tr)
  have "tr_safe tr" using kind Tcp_accepting by simp
  from tcp_accept_ok [OF inv this] obtain more r' s' where
    "tcp_accept_handler (map_completion concat c) tr s = Inr (more, r', s')" "stream_inv sink_inv s'" "R s s'" "tr_safe r'"
    by metis
  with Tcp_accepting qs show ?thesis by (intro that [of more "Tcp_receiving r'" qs s']) simp_all
next
  case (Tcp_receiving tr)
  have tr: "tr_safe tr" using kind Tcp_receiving by simp
  have "tr_tail tr + length bytes \<le> tr_max_size tr * pkts_per_buffer" if "map_completion concat c = Success bytes" for bytes
    using that c Tcp_receiving by (cases c) (auto simp: can_complete_def)
  from tcp_handler_ok [OF inv tr this] obtain more r' s' where
    "tcp_packet_handler vt (map_completion concat c) tr s = Inr (more, r', s')" "stream_inv sink_inv s'" "R s s'" "tr_safe r'"
    "more \<Longrightarrow> \<not> sb_stopped s'" by metis
  with Tcp_receiving qs show ?thesis by (intro that [of more "Tcp_receiving r'" qs s']) simp_all
next
  case (Inproc_reader q)
  have "uq_inv (qs q)" "[] \<notin> set (uq_data (qs q))" using qs by (simp_all add: queue_ok_def)
  from inproc_handler_ok [OF inv this] obtain q' s' where
    "inproc_packet_handler vt c (qs q) s = Inr (\<not> sb_stopped s', q', s')" "stream_inv sink_inv s'" "R s s'"
    "uq_inv q'" "[] \<notin> set (uq_data q')" .
  with Inproc_reader qs show ?thesis
    by (intro that [of "\<not> sb_stopped s'" "Inproc_reader q" "qs(q := q')" s']) (simp_all add: queue_ok_def)
qed

end

section \<open>Every step keeps the invariant\<close>

lemma set_readers_sel [simp]:
  "rs_readers (set_readers f t) = f (rs_readers t)" "sb_stopped (rs_base (set_readers f t)) = sb_stopped (rs_base t)"
  "rs_stop (set_readers f t) = rs_stop t" "rs_stop_readers (set_readers f t) = rs_stop_readers t"
  "rs_readers_stopped (set_readers f t) = rs_readers_stopped t" "rs_queues (set_readers f t) = rs_queues t"
  "ow_sink (sb_sink (rs_base (set_readers f t))) = ow_sink (sb_sink (rs_base t))"
  by (simp_all add: set_readers_def set_owner_def)

lemma life_invD:
  assumes "life_inv sink_inv t"
  shows "stream_inv (\<lambda>ow. sink_inv (ow_sink ow)) (rs_base t)" "r \<in> set (rs_readers t) \<Longrightarrow> reader_inv r"
    "r \<in> set (rs_readers t) \<Longrightarrow> sb_stopped (rs_base t) \<Longrightarrow> rd_cancelled r \<or> rd_late r" "queue_ok (rs_queues t q)"
    "stop_inv (rs_stop t) (sb_stopped (rs_base t)) (rs_stop_readers t) (length (rs_readers t)) (rs_readers_stopped t)
       (sum_list (map rd_put (rs_readers t)))" "sink_inv (ow_sink (sb_sink (rs_base t)))"
  using assms stream_inv_sink [of "\<lambda>ow. sink_inv (ow_sink ow)" "rs_base t"] by (auto simp: life_inv_def)

lemma stream_inv_readers:
  assumes "stream_inv (\<lambda>ow. sink_inv (ow_sink ow)) (rs_base t)"
  shows "stream_inv (\<lambda>ow. sink_inv (ow_sink ow)) (rs_base (set_readers f t))"
  using stream_inv_new_sink [OF assms] stream_inv_sink [OF assms] by (simp add: set_readers_def set_owner_def)

lemma puts_update:
  "rd_put x = rd_put (L ! i) \<Longrightarrow> map rd_put (L[i := x]) = map rd_put L"
  by (cases "i < length L") (simp_all add: map_update list_update_same_conv list_update_beyond)

lemma stop_reader_sel [simp]:
  "rd_put (stop_reader r) = rd_put r" "rd_handlers (stop_reader r) = rd_handlers r" "rd_posted (stop_reader r) = rd_posted r"
  "rd_kind (stop_reader r) = rd_kind r" "rd_late (stop_reader r) = rd_late r" "rd_cancelled (stop_reader r)"
  "reader_inv (stop_reader r) = reader_inv r" "rd_put \<circ> stop_reader = rd_put"
  by (simp_all add: stop_reader_def reader_inv_def fun_eq_iff)

text \<open>The readers after a handler has called \<^verbatim>\<open>stop_received\<close>, or not.\<close>

lemma owned_readers:
  assumes "owned s s'"
  obtains f where "ow_readers (sb_sink s') = map f (ow_readers (sb_sink s))" "f = id \<and> sb_stopped s' = sb_stopped s \<or>
    f = stop_reader \<and> \<not> sb_stopped s \<and> sb_stopped s'"
  using assms unfolding owned_def by (metis list.map_id)

context stream_client
begin

lemma run_handler_ok:
  assumes inv: "life_inv sink_inv t" and en: "enabled (Handler i c) t"
  obtains f again kind t' where "run_handler cl i c t = Inr t'"
    "rs_readers t' = (map f (rs_readers t))[i := finish_handler again kind (f (rs_readers t ! i))]"
    "f = id \<and> sb_stopped (rs_base t') = sb_stopped (rs_base t) \<or>
     f = stop_reader \<and> \<not> sb_stopped (rs_base t) \<and> sb_stopped (rs_base t')"
    "rs_stop t' = rs_stop t" "rs_stop_readers t' = rs_stop_readers t" "rs_readers_stopped t' = rs_readers_stopped t"
    "kind_mem kind = kind_mem (rd_kind (rs_readers t ! i))"
    "again \<and> sb_stopped (rs_base t') \<longrightarrow> kind_weight kind < kind_weight (rd_kind (rs_readers t ! i))"
    "life_inv sink_inv t'"
proof -
  let ?r = "rs_readers t ! i"
  have i: "i < length (rs_readers t)" "0 < rd_handlers ?r" "can_complete ?r c" using en by auto
  note d = life_invD [OF inv]
  have r: "reader_inv ?r" "kind_ok (rd_kind ?r)" using d(2) [OF nth_mem [OF i(1)]] by (simp_all add: reader_inv_def)
  have "\<forall>q. queue_ok (rs_queues t q)" using d(4) by simp
  from owner.handle_ok [OF d(1) r(2) this i(3)] obtain again kind qs s where
    h: "handle (owner_virtuals (cl_virtuals cl)) c (rd_kind ?r) (rs_queues t) (rs_base t) = Inr (again, kind, qs, s)"
      "stream_inv (\<lambda>ow. sink_inv (ow_sink ow)) s" "owned (rs_base t) s" "kind_ok kind" "\<forall>q. queue_ok (qs q)"
      "kind_mem kind = kind_mem (rd_kind ?r)" "again \<and> sb_stopped s \<longrightarrow> kind_weight kind < kind_weight (rd_kind ?r)" .
  obtain f where f: "ow_readers (sb_sink s) = map f (rs_readers t)" "f = id \<and> sb_stopped s = sb_stopped (rs_base t) \<or>
      f = stop_reader \<and> \<not> sb_stopped (rs_base t) \<and> sb_stopped s"
    using owned_readers [OF h(3)] .
  define t' where "t' = set_readers (\<lambda>rs. rs[i := finish_handler again kind (rs ! i)]) (t\<lparr>rs_base := s, rs_queues := qs\<rparr>)"
  have rs: "rs_readers t' = (map f (rs_readers t))[i := finish_handler again kind (f ?r)]" using i(1) by (simp add: t'_def f(1))
  have "life_inv sink_inv t'"
  proof -
    have "stream_inv (\<lambda>ow. sink_inv (ow_sink ow)) (rs_base t')" unfolding t'_def by (rule stream_inv_readers) (simp add: h(2))
    moreover have "reader_inv x \<and> (sb_stopped (rs_base t') \<longrightarrow> rd_cancelled x \<or> rd_late x)" if x: "x \<in> set (rs_readers t')" for x
    proof -
      have old: "reader_inv (f y) \<and> (sb_stopped s \<longrightarrow> rd_cancelled (f y) \<or> rd_late (f y))" if "y \<in> set (rs_readers t)" for y
        using f(2) d(2,3) [OF that] by auto
      have "reader_inv (finish_handler again kind (f ?r))"
        using r i(2) f(2) h(4) by (auto simp: reader_inv_def finish_handler_def)
      moreover have "x = finish_handler again kind (f ?r) \<or> (\<exists>y \<in> set (rs_readers t). x = f y)"
        using x set_update_subset_insert [of "map f (rs_readers t)" i] unfolding rs by auto
      ultimately show ?thesis using old [OF nth_mem [OF i(1)]] old by (auto simp: t'_def finish_handler_def)
    qed
    moreover have "map rd_put (rs_readers t') = map rd_put (rs_readers t)"
      unfolding rs using f(2) i(1) by (subst puts_update) (auto simp: finish_handler_def)
    moreover have "stop_inv st True b n k p" if "stop_inv st halted b n k p" for st halted b n k p
      using that by (cases st) auto
    then have "stop_inv (rs_stop t) (sb_stopped s) (rs_stop_readers t) (length (rs_readers t)) (rs_readers_stopped t)
        (sum_list (map rd_put (rs_readers t)))" using d(5) f(2) by (cases "sb_stopped s") auto
    ultimately show ?thesis using h(5) rs unfolding life_inv_def by (simp add: t'_def)
  qed
  moreover have "run_handler cl i c t = Inr t'" by (simp add: run_handler_def h(1) t'_def)
  moreover have "sb_stopped (rs_base t') = sb_stopped s" by (simp add: t'_def)
  ultimately show ?thesis using rs f(2) h(6,7) by (intro that [of t' f again kind]) (simp_all add: t'_def)
qed

end

lemma emplace_life:
  assumes inv: "life_inv sink_inv t" and "rs_stop t \<noteq> Stop_returned"
  shows "life_inv sink_inv (emplace_reader fresh args t)"
proof (cases "rs_stop_readers t")
  case True
  with inv show ?thesis by (simp add: emplace_reader_def)
next
  case False
  note d = life_invD [OF inv]
  have new: "reader_inv (make_reader fresh l args)" for l
    by (cases args) (simp_all add: make_reader_def reader_inv_def tr_safe_def tr_ok_def make_tcp_reader_def)
  have "stream_inv (\<lambda>ow. sink_inv (ow_sink ow)) (rs_base (emplace_reader fresh args t))"
    using d(1) False by (auto simp: emplace_reader_def Let_def intro!: stream_inv_readers)
  moreover have "stop_inv (rs_stop t) (sb_stopped (rs_base t)) False (Suc (length (rs_readers t))) (rs_readers_stopped t)
      (sum_list (map rd_put (rs_readers t)))"
    using d(5) False assms(2) by (cases "rs_stop t") auto
  ultimately show ?thesis
    using d(2-4) new False unfolding life_inv_def by (auto simp: emplace_reader_def Let_def make_reader_def)
qed

lemma posted_life:
  assumes inv: "life_inv sink_inv t" and en: "enabled (Posted i) t"
  shows "life_inv sink_inv (run_posted i t)"
proof -
  let ?r = "rs_readers t ! i"
  let ?x = "?r\<lparr>rd_posted := rd_posted ?r - 1, rd_put := rd_put ?r + 1\<rparr>"
  note d = life_invD [OF inv]
  have i: "i < length (rs_readers t)" "0 < rd_posted ?r" using en by auto
  note r = nth_mem [OF i(1)]
  have x: "reader_inv ?x" "sb_stopped (rs_base t) \<longrightarrow> rd_cancelled ?x \<or> rd_late ?x"
    using d(2) [OF r] d(3) [OF r] i(2) by (auto simp: reader_inv_def)
  have "stream_inv (\<lambda>ow. sink_inv (ow_sink ow)) (rs_base (run_posted i t))"
    unfolding run_posted_def by (rule stream_inv_readers) (simp add: d(1))
  moreover have "sum_list (map rd_put ((rs_readers t)[i := ?x])) = Suc (sum_list (map rd_put (rs_readers t)))"
  proof -
    have "rd_put ?r \<le> sum_list (map rd_put (rs_readers t))" using elem_le_sum_list [of i "map rd_put (rs_readers t)"] i(1) by simp
    then show ?thesis using i(1) by (simp add: map_update sum_list_update)
  qed
  moreover have "stop_inv (rs_stop t) (sb_stopped (rs_base t)) (rs_stop_readers t) (length (rs_readers t))
      (Suc (rs_readers_stopped t)) (Suc (sum_list (map rd_put (rs_readers t))))"
    using d(5) i(1) by (cases "rs_stop t") auto
  moreover have "\<forall>y \<in> set ((rs_readers t)[i := ?x]). reader_inv y \<and> (sb_stopped (rs_base t) \<longrightarrow> rd_cancelled y \<or> rd_late y)"
    using x d(2,3) set_update_subset_insert [of "rs_readers t" i ?x] by blast
  ultimately show ?thesis using d(4) unfolding life_inv_def by (simp add: run_posted_def sem_put_def)
qed

lemma stop_wait_life:
  assumes inv: "life_inv sink_inv t" and w: "rs_stop t = Stop_waiting (Suc n)" "0 < rs_readers_stopped t"
  shows "life_inv sink_inv (stop_wait n t)"
  using inv w by (auto simp: life_inv_def stop_wait_def)

lemma stop_count_life:
  assumes inv: "life_inv sink_inv t" and w: "rs_stop t = Stop_counting"
  shows "life_inv sink_inv (stop_count t)"
  using inv w by (auto simp: life_inv_def stop_count_def)

text \<open>When all tokens have been taken, all readers are over.\<close>

lemma sum_puts_le:
  assumes "\<forall>r \<in> set rs. reader_inv r"
  shows "sum_list (map rd_put rs) \<le> length rs" "sum_list (map rd_put rs) = length rs \<longleftrightarrow> (\<forall>r \<in> set rs. rd_put r = 1)"
proof -
  show le: "sum_list (map rd_put rs) \<le> length rs"
    using assms by (induction rs) (auto simp: reader_inv_def)
  show "sum_list (map rd_put rs) = length rs \<longleftrightarrow> (\<forall>r \<in> set rs. rd_put r = 1)"
    using assms
  proof (induction rs)
    case (Cons r rs)
    have "sum_list (map rd_put rs) \<le> length rs" using Cons.prems by (induction rs) (auto simp: reader_inv_def)
    with Cons show ?case by (auto simp: reader_inv_def)
  qed simp
qed

lemma stop_clear_life:
  assumes inv: "life_inv sink_inv t" and w: "rs_stop t = Stop_waiting 0"
  obtains t' where "stop_clear t = Inr t'" "life_inv sink_inv t'" "rs_stop t' = Stop_returned"
proof -
  note d = life_invD [OF inv]
  have "length (rs_readers t) \<le> sum_list (map rd_put (rs_readers t))" using d(5) w by auto
  then have "\<forall>r \<in> set (rs_readers t). rd_put r = 1" using sum_puts_le [of "rs_readers t"] d(2) by auto
  then have over: "\<forall>r \<in> set (rs_readers t). rd_handlers r + rd_posted r = 0" using d(2) by (auto simp: reader_inv_def)
  let ?t = "set_readers (\<lambda>_. []) (t\<lparr>rs_stop := Stop_returned\<rparr>)"
  have "stream_inv (\<lambda>ow. sink_inv (ow_sink ow)) (rs_base ?t)" by (rule stream_inv_readers) (simp add: d(1))
  then have "life_inv sink_inv ?t" using d(4,5) w by (simp add: life_inv_def)
  then show ?thesis using over by (intro that [of ?t]) (auto simp: stop_clear_def)
qed

lemma queue_steps_ok:
  "queue_ok q \<Longrightarrow> p \<noteq> [] \<Longrightarrow> uq_push p q = Inr q' \<Longrightarrow> queue_ok q'" "queue_ok q \<Longrightarrow> queue_ok (uq_stop q)"
  by (auto simp: queue_ok_def uq_inv_def uq_push_def uq_stop_def sem_put_def split: if_splits)

context stream_client
begin

lemma stop_begin_life:
  assumes inv: "life_inv sink_inv t" and w: "rs_stop t = Stop_idle"
  obtains f t' where "stop_begin cl t = Inr t'" "life_inv sink_inv t'" "rs_stop t' = Stop_counting"
    "rs_readers t' = map f (rs_readers t)" "f = id \<and> sb_stopped (rs_base t) \<or> f = stop_reader \<and> \<not> sb_stopped (rs_base t)"
    "sb_stopped (rs_base t')"
proof -
  note d = life_invD [OF inv]
  let ?t = "set_owner (\<lambda>ow. ow\<lparr>ow_sink := cl_unblock cl (ow_sink ow)\<rparr>) t"
  have "stream_inv (\<lambda>ow. sink_inv (ow_sink ow)) (rs_base ?t)"
    using stream_inv_new_sink [OF d(1)] unblock_ok [OF d(6)] by (simp add: set_owner_def)
  from owner.mem_reader_stop_ok [OF this] obtain s' where
    s': "stop_stream (owner_virtuals (cl_virtuals cl)) (rs_base ?t) = Inr s'" "stream_inv (\<lambda>ow. sink_inv (ow_sink ow)) s'"
      "owned (rs_base ?t) s'" "sb_stopped s'" by (auto simp: mem_reader_stop_def)
  from owned_readers [OF s'(3)] obtain f where f: "ow_readers (sb_sink s') = map f (rs_readers t)"
      "f = id \<and> sb_stopped (rs_base t) \<or> f = stop_reader \<and> \<not> sb_stopped (rs_base t)"
    using s'(4) by (auto simp: set_owner_def)
  let ?t' = "?t\<lparr>rs_base := s', rs_stop := Stop_counting\<rparr>"
  have "stop_inv Stop_counting True (rs_stop_readers t) (length (rs_readers t)) (rs_readers_stopped t)
      (sum_list (map rd_put (rs_readers t)))" using d(5) w by simp
  moreover have "\<forall>r \<in> set (map f (rs_readers t)). reader_inv r \<and> (rd_cancelled r \<or> rd_late r)"
    using f(2) by (auto dest: d(2) d(3))
  moreover have "sum_list (map (rd_put \<circ> f) (rs_readers t)) = sum_list (map rd_put (rs_readers t))" using f(2) by auto
  ultimately have "life_inv sink_inv ?t'" using s'(2,4) f(1) d(4) unfolding life_inv_def by (simp add: set_owner_def)
  then show ?thesis using s' f by (intro that [of ?t' f]) (simp_all add: stop_begin_def Let_def)
qed

lemma consume_life:
  assumes "life_inv sink_inv t"
  shows "life_inv sink_inv (set_owner (\<lambda>ow. ow\<lparr>ow_sink := cl_consume cl (ow_sink ow)\<rparr>) t)"
proof -
  note d = life_invD [OF assms]
  have "stream_inv (\<lambda>ow. sink_inv (ow_sink ow)) ((rs_base t)\<lparr>sb_sink := (sb_sink (rs_base t))
      \<lparr>ow_sink := cl_consume cl (ow_sink (sb_sink (rs_base t)))\<rparr>\<rparr>)"
    by (rule stream_inv_new_sink [OF d(1)]) (simp add: consume_ok d(6))
  with assms show ?thesis by (simp add: life_inv_def set_owner_def)
qed

lemma step_life:
  assumes inv: "life_inv sink_inv t" and en: "enabled ev t" and ne: "\<forall>q. ev \<noteq> Push_packet q []"
  obtains t' where "stream_step fresh cl ev t = Inr t'" "life_inv sink_inv t'"
proof (cases ev)
  case (Handler i c)
  from run_handler_ok [OF inv en [unfolded Handler]] obtain t' where "run_handler cl i c t = Inr t'" "life_inv sink_inv t'" .
  with Handler that show ?thesis by simp
next
  case Stop_wait
  with inv en that stop_wait_life show ?thesis by (auto split: stop_state.splits nat.splits)
next
  case Stop_begin
  from stop_begin_life [OF inv] en [unfolded Stop_begin] obtain t' where "stop_begin cl t = Inr t'" "life_inv sink_inv t'" by auto
  with Stop_begin that show ?thesis by simp
next
  case Stop_clear
  from stop_clear_life [OF inv] en [unfolded Stop_clear] obtain t' where "stop_clear t = Inr t'" "life_inv sink_inv t'" by auto
  with Stop_clear that show ?thesis by simp
next
  case (Push_packet q p)
  then have "p \<noteq> []" using ne by auto
  with inv queue_steps_ok(1) [of "rs_queues t q" p] Push_packet that show ?thesis
    by (auto simp: life_inv_def split: sum.splits)
next
  case (Stop_queue q)
  with inv queue_steps_ok(2) that show ?thesis by (auto simp: life_inv_def)
next
  case (Emplace args)
  with emplace_life [OF inv] en that show ?thesis by simp
next
  case (Posted i)
  with posted_life [OF inv, of i] en that show ?thesis by simp
next
  case Stop_count
  with stop_count_life [OF inv] en that show ?thesis by simp
next
  case Consume
  with consume_life [OF inv] that show ?thesis by simp
qed

lemma run_life:
  assumes "life_inv sink_inv t" "\<forall>q. Push_packet q [] \<notin> set evs" "stream_run fresh cl evs t = Some res"
  shows "\<exists>t'. res = Inr t' \<and> life_inv sink_inv t'"
  using assms
proof (induction evs arbitrary: t)
  case (Cons ev evs)
  have en: "enabled ev t" using Cons.prems(3) by (simp split: if_splits)
  moreover have "\<forall>q. ev \<noteq> Push_packet q []" using Cons.prems(2) by auto
  ultimately obtain t1 where "stream_step fresh cl ev t = Inr t1" "life_inv sink_inv t1" using step_life [OF Cons.prems(1)] by metis
  with Cons.IH [of t1] Cons.prems(2,3) en show ?case by auto
qed auto

lemma initial_life:
  assumes "make_reader_stream (default_allocate fresh) bug_compat m k = Inr t" "m < 2 ^ 60" "sink_inv k"
  shows "life_inv sink_inv t"
proof -
  obtain s where s: "make_stream_base (default_allocate fresh) bug_compat m \<lparr>ow_readers = [], ow_sink = k\<rparr> = Inr s"
    and t: "t = \<lparr>rs_base = s, rs_stop_readers = False, rs_lossy = False, rs_readers_stopped = 0, rs_stop = Stop_idle,
          rs_queues = (\<lambda>_. make_unbounded_queue)\<rparr>"
    using assms(1) by (auto simp: make_reader_stream_def bind_result_Inr_iff)
  have "stream_inv (\<lambda>ow. sink_inv (ow_sink ow)) s"
    by (rule owner.initial_inv [OF s assms(2) default_byte_allocator]) (simp add: assms(3))
  moreover have "ow_readers (sb_sink s) = []" using s by (auto simp: make_stream_base_def Let_def split: if_splits)
  ultimately show ?thesis by (simp add: t life_inv_def queue_ok_def uq_inv_def make_unbounded_queue_def)
qed

end

section \<open>Stopping comes to an end\<close>

definition reader_work :: "reader \<Rightarrow> nat" where
  "reader_work r = kind_weight (rd_kind r) * rd_handlers r + rd_posted r"

fun stop_rank :: "stop_state \<Rightarrow> nat \<Rightarrow> nat" where
  "stop_rank Stop_idle n = n + 3"
| "stop_rank Stop_counting n = n + 2"
| "stop_rank (Stop_waiting k) n = k + 1"
| "stop_rank Stop_returned n = 0"

definition work_left :: "'k reader_stream \<Rightarrow> nat" where
  "work_left t = sum_list (map reader_work (rs_readers t)) + stop_rank (rs_stop t) (length (rs_readers t))"

text \<open>The steps of the handlers and of \<^verbatim>\<open>stop\<close>, and those of them that do not wait for data from outside.\<close>

fun winding :: "stream_event \<Rightarrow> bool" where
  "winding (Handler _ _) = True"
| "winding (Posted _) = True"
| "winding Stop_count = True"
| "winding Stop_wait = True"
| "winding Stop_clear = True"
| "winding _ = False"

definition prompt_event :: "stream_event \<Rightarrow> 'k reader_stream \<Rightarrow> bool" where
  "prompt_event ev t \<longleftrightarrow> winding ev \<and> enabled ev t \<and>
     (case ev of Handler i c \<Rightarrow> c = Operation_aborted \<or> kind_mem (rd_kind (rs_readers t ! i)) | _ \<Rightarrow> True)"

definition no_late_reader :: "'k reader_stream \<Rightarrow> bool" where
  "no_late_reader t \<longleftrightarrow> (\<forall>r \<in> set (rs_readers t). rd_late r \<longrightarrow> kind_mem (rd_kind r))"

lemma sum_work_update:
  fixes x :: reader
  assumes "i < length L" "reader_work x < reader_work (L ! i)"
  shows "sum_list (map reader_work (L[i := x])) < sum_list (map reader_work L)"
proof -
  have "reader_work (L ! i) \<le> sum_list (map reader_work L)"
    using elem_le_sum_list [of i "map reader_work L"] assms(1) by simp
  with assms show ?thesis by (simp add: map_update sum_list_update)
qed

lemma work_left_le:
  assumes "life_inv sink_inv t" "rs_stop t \<noteq> Stop_idle"
  shows "work_left t \<le> 4 * length (rs_readers t) + 2"
proof -
  have "reader_work r \<le> 3" if "r \<in> set (rs_readers t)" for r
  proof -
    have "rd_handlers r + rd_posted r + rd_put r = 1" using life_invD(2) [OF assms(1) that] by (simp add: reader_inv_def)
    moreover have "kind_weight (rd_kind r) \<le> 3" by (cases "rd_kind r") simp_all
    ultimately show ?thesis by (cases "rd_handlers r") (simp_all add: reader_work_def)
  qed
  then have "sum_list (map reader_work (rs_readers t)) \<le> sum_list (map (\<lambda>_. 3) (rs_readers t))" by (intro sum_list_mono)
  moreover have "stop_rank (rs_stop t) (length (rs_readers t)) \<le> length (rs_readers t) + 2"
    using life_invD(5) [OF assms(1)] assms(2) by (cases "rs_stop t") auto
  ultimately show ?thesis by (simp add: work_left_def sum_list_triv)
qed

text \<open>While the call of \<^verbatim>\<open>stop\<close> has not returned, something can happen, unless a late reader is waiting.\<close>

lemma prompt_event_exists:
  assumes inv: "life_inv sink_inv t" and st: "rs_stop t \<noteq> Stop_idle" "rs_stop t \<noteq> Stop_returned" and late: "no_late_reader t"
  shows "\<exists>ev. prompt_event ev t"
proof -
  note d = life_invD [OF inv]
  consider "rs_stop t = Stop_counting" | "rs_stop t = Stop_waiting 0" | n where "rs_stop t = Stop_waiting (Suc n)"
    using st by (metis not0_implies_Suc stop_state.exhaust)
  then show ?thesis
  proof cases
    case 1
    then show ?thesis by (intro exI [of _ Stop_count]) (simp add: prompt_event_def)
  next
    case 2
    then show ?thesis by (intro exI [of _ Stop_clear]) (simp add: prompt_event_def)
  next
    case (3 n)
    show ?thesis
    proof (cases "rs_readers_stopped t = 0")
      case False
      with 3 show ?thesis by (intro exI [of _ Stop_wait]) (simp add: prompt_event_def)
    next
      case True
      with 3 d(5) have halted: "sb_stopped (rs_base t)" and "sum_list (map rd_put (rs_readers t)) \<noteq> length (rs_readers t)" by auto
      then obtain r where r: "r \<in> set (rs_readers t)" "rd_put r \<noteq> 1"
        using sum_puts_le(2) [of "rs_readers t"] d(2) by blast
      then obtain i where i: "i < length (rs_readers t)" "rs_readers t ! i = r" by (auto simp: in_set_conv_nth)
      have "rd_handlers r + rd_posted r = 1" using d(2) [OF r(1)] r(2) by (auto simp: reader_inv_def)
      then consider "0 < rd_posted r" | "0 < rd_handlers r" by linarith
      then show ?thesis
      proof cases
        case 1
        with i show ?thesis by (intro exI [of _ "Posted i"]) (simp add: prompt_event_def)
      next
        case 2
        have "rd_cancelled r \<or> kind_mem (rd_kind r)" using d(3) [OF r(1) halted] late r(1) by (auto simp: no_late_reader_def)
        with 2 i show ?thesis
          by (intro exI [of _ "Handler i (if kind_mem (rd_kind r) then Success [] else Operation_aborted)"])
            (cases "rd_kind r"; simp add: prompt_event_def can_complete_def)
      qed
    qed
  qed
qed

context stream_client
begin

lemma winding_step:
  assumes inv: "life_inv sink_inv t" and halted: "sb_stopped (rs_base t)" and late: "no_late_reader t"
    and en: "enabled ev t" and w: "winding ev" and step: "stream_step fresh cl ev t = Inr t'"
  shows "work_left t' < work_left t \<and> sb_stopped (rs_base t') \<and> no_late_reader t' \<and> (rs_stop t' = Stop_idle \<longleftrightarrow> rs_stop t = Stop_idle)"
proof (cases ev)
  case (Handler i c)
  let ?r = "rs_readers t ! i"
  obtain f again kind t1 where h: "run_handler cl i c t = Inr t1"
    "rs_readers t1 = (map f (rs_readers t))[i := finish_handler again kind (f ?r)]"
    "f = id \<and> sb_stopped (rs_base t1) = sb_stopped (rs_base t) \<or> f = stop_reader \<and> \<not> sb_stopped (rs_base t) \<and> sb_stopped (rs_base t1)"
    "rs_stop t1 = rs_stop t" "kind_mem kind = kind_mem (rd_kind ?r)"
    "again \<and> sb_stopped (rs_base t1) \<longrightarrow> kind_weight kind < kind_weight (rd_kind ?r)"
    using run_handler_ok [OF inv en [unfolded Handler]] by metis
  have t1: "t1 = t'" using step Handler h(1) by simp
  have f: "f = id" "sb_stopped (rs_base t')" using h(3) halted by (simp_all add: t1)
  have i: "i < length (rs_readers t)" "0 < rd_handlers ?r" using en Handler by auto
  have one: "rd_handlers ?r = 1" "rd_posted ?r = 0"
    using life_invD(2) [OF inv nth_mem [OF i(1)]] i(2) by (auto simp: reader_inv_def)
  let ?x = "finish_handler again kind ?r"
  have "reader_work ?x < reader_work ?r"
    using one h(6) f(2) by (cases again; cases "rd_kind ?r") (simp_all add: reader_work_def finish_handler_def t1)
  note less = sum_work_update [OF i(1) this]
  have rs: "rs_readers t' = (rs_readers t)[i := ?x]" using h(2) f(1) by (simp add: t1)
  have "no_late_reader t'"
    using late h(5) i(1) set_update_subset_insert [of "rs_readers t" i ?x] nth_mem [OF i(1)] unfolding no_late_reader_def rs
    by (auto simp: finish_handler_def)
  with less rs f(2) h(4) show ?thesis by (simp add: work_left_def t1)
next
  case (Posted i)
  let ?r = "rs_readers t ! i"
  let ?x = "?r\<lparr>rd_posted := rd_posted ?r - 1, rd_put := rd_put ?r + 1\<rparr>"
  have i: "i < length (rs_readers t)" "0 < rd_posted ?r" using en Posted by auto
  have "reader_work ?x < reader_work ?r" using i(2) by (simp add: reader_work_def)
  note less = sum_work_update [OF i(1) this]
  have t': "t' = run_posted i t" using step Posted by simp
  have "no_late_reader t'"
    using late set_update_subset_insert [of "rs_readers t" i ?x] nth_mem [OF i(1)] unfolding no_late_reader_def t'
    by (auto simp: run_posted_def)
  with less halted show ?thesis by (simp add: work_left_def t' run_posted_def)
next
  case Stop_clear
  then have "t' = set_readers (\<lambda>_. []) (t\<lparr>rs_stop := Stop_returned\<rparr>)" "rs_stop t = Stop_waiting 0"
    using step en by (auto simp: stop_clear_def split: if_splits)
  with halted show ?thesis by (simp add: work_left_def no_late_reader_def)
next
  case Stop_wait
  then obtain n where "rs_stop t = Stop_waiting (Suc n)" using en by (auto split: stop_state.splits nat.splits)
  with step Stop_wait halted late show ?thesis by (auto simp: work_left_def no_late_reader_def stop_wait_def)
qed (use assms in \<open>auto simp: work_left_def no_late_reader_def stop_count_def\<close>)

lemma winding_run:
  assumes "life_inv sink_inv t" "sb_stopped (rs_base t)" "no_late_reader t" "rs_stop t \<noteq> Stop_idle" "\<forall>ev \<in> set evs. winding ev"
    "stream_run fresh cl evs t = Some (Inr t')"
  shows "length evs + work_left t' \<le> work_left t \<and> (rs_stop t' = Stop_returned \<or> (\<exists>ev. prompt_event ev t'))"
  using assms
proof (induction evs arbitrary: t)
  case Nil
  then show ?case using prompt_event_exists [of sink_inv t] by auto
next
  case (Cons ev evs)
  have ev: "enabled ev t" "winding ev" using Cons.prems(5,6) by (auto split: if_splits)
  then have "\<forall>q. ev \<noteq> Push_packet q []" by auto
  then obtain t1 where t1: "stream_step fresh cl ev t = Inr t1" "life_inv sink_inv t1" using step_life [OF Cons.prems(1) ev(1)] by metis
  have "work_left t1 < work_left t \<and> sb_stopped (rs_base t1) \<and> no_late_reader t1 \<and> (rs_stop t1 = Stop_idle \<longleftrightarrow> rs_stop t = Stop_idle)"
    by (rule winding_step [OF Cons.prems(1-3) ev t1(1)])
  with Cons.IH [OF t1(2)] Cons.prems(4-6) ev t1(1) show ?case by auto
qed

text \<open>A reader that waits for data and is not cancelled keeps the stream from stopping.\<close>

lemma waiting_step:
  assumes inv: "life_inv sink_inv t" and halted: "sb_stopped (rs_base t)"
    and n: "n < length (rs_readers t)" "rd_handlers (rs_readers t ! n) = 1" "\<not> rd_cancelled (rs_readers t ! n)"
    and en: "enabled ev t" and ev: "\<forall>c. ev \<noteq> Handler n c" and step: "stream_step fresh cl ev t = Inr t'"
  shows "sb_stopped (rs_base t') \<and> n < length (rs_readers t') \<and> rd_handlers (rs_readers t' ! n) = 1 \<and> \<not> rd_cancelled (rs_readers t' ! n)"
proof (cases ev)
  case (Handler i c)
  obtain f again kind t1 where h: "run_handler cl i c t = Inr t1"
    "rs_readers t1 = (map f (rs_readers t))[i := finish_handler again kind (f (rs_readers t ! i))]"
    "f = id \<and> sb_stopped (rs_base t1) = sb_stopped (rs_base t) \<or> f = stop_reader \<and> \<not> sb_stopped (rs_base t) \<and> sb_stopped (rs_base t1)"
    using run_handler_ok [OF inv en [unfolded Handler]] by metis
  with step Handler halted n ev show ?thesis by auto
next
  case (Posted i)
  with step halted n show ?thesis by (cases "i = n") (auto simp: run_posted_def)
next
  case (Emplace args)
  with step halted n show ?thesis by (cases "rs_stop_readers t") (auto simp: emplace_reader_def Let_def nth_append)
next
  case Stop_begin
  have "rs_stop t = Stop_idle" using en Stop_begin by simp
  from stop_begin_life [OF inv this] obtain f t1 where "stop_begin cl t = Inr t1" "rs_readers t1 = map f (rs_readers t)"
    "f = id \<and> sb_stopped (rs_base t) \<or> f = stop_reader \<and> \<not> sb_stopped (rs_base t)" "sb_stopped (rs_base t1)" .
  with step Stop_begin halted n show ?thesis by auto
next
  case Stop_clear
  have "\<exists>r \<in> set (rs_readers t). 0 < rd_handlers r + rd_posted r" using n(1,2) nth_mem [OF n(1)] by (intro bexI [of _ "rs_readers t ! n"]) auto
  with step Stop_clear show ?thesis by (simp add: stop_clear_def)
next
  case Stop_wait
  with step halted n show ?thesis by (auto simp: stop_wait_def split: stop_state.splits nat.splits)
qed (use step halted n in \<open>auto simp: stop_count_def set_owner_def split: sum.splits\<close>)

lemma waiting_run:
  assumes "life_inv sink_inv t" "sb_stopped (rs_base t)"
    "n < length (rs_readers t)" "rd_handlers (rs_readers t ! n) = 1" "\<not> rd_cancelled (rs_readers t ! n)"
    "\<forall>c. Handler n c \<notin> set evs" "\<forall>q. Push_packet q [] \<notin> set evs" "stream_run fresh cl evs t = Some (Inr t')"
  shows "rs_stop t' \<noteq> Stop_returned \<and> n < length (rs_readers t') \<and> \<not> rd_cancelled (rs_readers t' ! n)"
  using assms
proof (induction evs arbitrary: t)
  case Nil
  then show ?case using life_invD(5) [OF Nil.prems(1)] by (cases "rs_stop t") auto
next
  case (Cons ev evs)
  have en: "enabled ev t" using Cons.prems(8) by (simp split: if_splits)
  have ev: "\<forall>q. ev \<noteq> Push_packet q []" "\<forall>c. ev \<noteq> Handler n c" using Cons.prems(6,7) by auto
  obtain t1 where t1: "stream_step fresh cl ev t = Inr t1" "life_inv sink_inv t1" using step_life [OF Cons.prems(1) en ev(1)] by metis
  note w = waiting_step [OF Cons.prems(1-5) en ev(2) t1(1)]
  have run: "stream_run fresh cl evs t1 = Some (Inr t')" using Cons.prems(8) en t1(1) by simp
  have rest: "\<forall>c. Handler n c \<notin> set evs" "\<forall>q. Push_packet q [] \<notin> set evs" using Cons.prems(6,7) by auto
  show ?case by (rule Cons.IH [OF t1(2)]) (use w run rest in auto)
qed

end

section \<open>The ring stream with readers\<close>

definition ring_client :: "ring_sink client" where
  "ring_client =
     \<lparr>cl_virtuals = ring_virtuals, cl_unblock = (\<lambda>k. k\<lparr>rk_ready_heaps := rb_stop (rk_ready_heaps k)\<rparr>),
      cl_consume = (\<lambda>k. fst (try_pop_live k))\<rparr>"

lemma try_pop_live_inv: "ring_sink_inv k \<Longrightarrow> ring_sink_inv (fst (try_pop_live k))"
  using try_pop_live_ok [of k] by (auto split: list.splits)

interpretation ring_owner: stream_client ring_client ring_sink_inv
  by (simp add: stream_client_def stream_client_axioms_def ring_client_def ring_stream.stream_sink_axioms ring_sink_stop
      try_pop_live_inv)

lemma ring_start:
  assumes "make_ring_sink cap contiguous_only others = Inr k" "m < 2 ^ 60"
    and "make_reader_stream (default_allocate fresh) bug_compat m k = Inr t"
  shows "life_inv ring_sink_inv t"
  by (rule ring_owner.initial_life [OF assms(3,2) make_ring_sink_ok(1) [OF assms(1)]])

text \<open>A stream for examples: four slots, a ring buffer of four heaps.\<close>

definition example_ring :: ring_sink where
  "example_ring = projr (make_ring_sink 4 True (\<lambda>_. False))"

definition example_reader_stream :: "ring_sink reader_stream" where
  "example_reader_stream = projr (make_reader_stream (default_allocate (\<lambda>_. 0)) 0 4 example_ring)"

lemma example_start:
  "make_ring_sink 4 True (\<lambda>_. False) = Inr example_ring"
  "make_reader_stream (default_allocate (\<lambda>_. 0)) 0 4 example_ring = Inr example_reader_stream"
proof -
  show "make_ring_sink 4 True (\<lambda>_. False) = Inr example_ring"
    by (simp add: example_ring_def make_ring_sink_def make_ringbuffer_def make_ringbuffer_base_def)
  show "make_reader_stream (default_allocate (\<lambda>_. 0)) 0 4 example_ring = Inr example_reader_stream"
    by (simp add: example_reader_stream_def make_reader_stream_def example_stream)
qed

lemma example_stream_start:
  "life_inv ring_sink_inv example_reader_stream" "rs_stop example_reader_stream = Stop_idle"
  "\<not> rs_stop_readers example_reader_stream" "\<not> sb_stopped (rs_base example_reader_stream)" "rs_readers example_reader_stream = []"
proof -
  show "life_inv ring_sink_inv example_reader_stream" by (rule ring_start [OF example_start(1) _ example_start(2)]) simp
qed (simp_all add: example_reader_stream_def make_reader_stream_def make_stream_base_def Let_def)

text \<open>A UDP reader is added and the stream is stopped; the steps until \<^verbatim>\<open>stop\<close> returns.\<close>

definition example_begin :: "stream_event list" where
  "example_begin = [Emplace (New_udp 9200), Stop_begin]"

definition example_shutdown :: "stream_event list" where
  "example_shutdown = [Handler 0 Operation_aborted, Posted 0, Stop_count, Stop_wait, Stop_clear]"

abbreviation cancelled_udp :: reader where
  "cancelled_udp \<equiv> stop_reader (make_reader (\<lambda>_. 0) False (New_udp 9200))"

lemma example_begin:
  obtains t where "stream_run (\<lambda>_. 0) ring_client example_begin example_reader_stream = Some (Inr t)" "life_inv ring_sink_inv t"
    "rs_stop t = Stop_counting" "rs_readers t = [cancelled_udp]" "sb_stopped (rs_base t)"
proof -
  note t0 = example_stream_start
  define t1 where "t1 = emplace_reader (\<lambda>_. 0) (New_udp 9200) example_reader_stream"
  have inv1: "life_inv ring_sink_inv t1" unfolding t1_def using t0 by (intro emplace_life) simp_all
  have t1: "rs_stop t1 = Stop_idle" "\<not> sb_stopped (rs_base t1)" "rs_readers t1 = [make_reader (\<lambda>_. 0) False (New_udp 9200)]"
    using t0 by (simp_all add: t1_def emplace_reader_def Let_def)
  from ring_owner.stop_begin_life [OF inv1 t1(1)] obtain f t2 where t2: "stop_begin ring_client t1 = Inr t2"
      "life_inv ring_sink_inv t2" "rs_stop t2 = Stop_counting" "rs_readers t2 = map f (rs_readers t1)"
      "f = id \<and> sb_stopped (rs_base t1) \<or> f = stop_reader \<and> \<not> sb_stopped (rs_base t1)" "sb_stopped (rs_base t2)" .
  show ?thesis
    using t0(2) t1 t2 by (intro that [of t2]) (auto simp: example_begin_def t1_def [symmetric])
qed

lemma example_shutdown:
  assumes t2: "life_inv ring_sink_inv t2" "rs_stop t2 = Stop_counting" "rs_readers t2 = [cancelled_udp]" "sb_stopped (rs_base t2)"
  obtains t where "stream_run (\<lambda>_. 0) ring_client example_shutdown t2 = Some (Inr t)" "rs_stop t = Stop_returned"
proof -
  have en: "enabled (Handler 0 Operation_aborted) t2" by (simp add: t2(3) can_complete_def make_reader_def)
  from ring_owner.run_handler_ok [OF t2(1) en] obtain g again kind t3 where
    t3: "run_handler ring_client 0 Operation_aborted t2 = Inr t3"
      "rs_readers t3 = (map g (rs_readers t2))[0 := finish_handler again kind (g (rs_readers t2 ! 0))]"
      "g = id \<and> sb_stopped (rs_base t3) = sb_stopped (rs_base t2) \<or> g = stop_reader \<and> \<not> sb_stopped (rs_base t2) \<and> sb_stopped (rs_base t3)"
      "rs_stop t3 = rs_stop t2"
      "again \<and> sb_stopped (rs_base t3) \<longrightarrow> kind_weight kind < kind_weight (rd_kind (rs_readers t2 ! 0))"
      "life_inv ring_sink_inv t3" by metis
  have "2 \<le> kind_weight kind" by (cases kind) simp_all
  then have r3: "rs_readers t3 = [finish_handler False kind cancelled_udp]"
    using t3(2,3,5) t2(3,4) by (auto simp: make_reader_def)
  define t4 where "t4 = run_posted 0 t3"
  have en4: "enabled (Posted 0) t3" by (simp add: r3 finish_handler_def)
  have inv4: "life_inv ring_sink_inv t4" unfolding t4_def by (rule posted_life [OF t3(6) en4])
  have t4: "rs_stop t4 = Stop_counting" "length (rs_readers t4) = 1" "0 < rs_readers_stopped t4"
    using t3(4) t2(2) by (simp_all add: t4_def run_posted_def r3 sem_put_def)
  have inv5: "life_inv ring_sink_inv (stop_wait 0 (stop_count t4))"
    using stop_wait_life [OF stop_count_life [OF inv4 t4(1)], of 0] t4 by (simp add: stop_count_def)
  have "rs_stop (stop_wait 0 (stop_count t4)) = Stop_waiting 0" by (simp add: stop_wait_def)
  from stop_clear_life [OF inv5 this] obtain t5 where "stop_clear (stop_wait 0 (stop_count t4)) = Inr t5" "rs_stop t5 = Stop_returned" .
  moreover have "stream_run (\<lambda>_. 0) ring_client example_shutdown t2 =
      stream_run (\<lambda>_. 0) ring_client [Stop_clear] (stop_wait 0 (stop_count t4))"
    using t3(1) en en4 t4
    by (simp add: example_shutdown_def t4_def [symmetric] stop_count_def stop_wait_def del: enabled.simps(2,3))
  ultimately show ?thesis by (intro that [of t5]) (simp_all add: stop_wait_def)
qed

section \<open>Properties\<close>





text \<open>
  C40: A reader added to a stream that has already stopped, for instance because a stop item arrived, is not told to stop, by
  anything that happens later, and until its own receive completes by itself \<^verbatim>\<open>stop\<close> does not return.
\<close>

theorem late_reader_blocks_stop:
  assumes "make_ring_sink cap contiguous_only others = Inr k" "m < 2 ^ 60"
    and "make_reader_stream (default_allocate fresh) bug_compat m k = Inr t0"
    and "\<forall>q. Push_packet q [] \<notin> set (evs @ evs')" "stream_run fresh ring_client evs t0 = Some (Inr t)"
    and "sb_stopped (rs_base t)" "\<not> rs_stop_readers t"
    and "stream_run fresh ring_client evs' (emplace_reader fresh args t) = Some (Inr t')"
    and "\<forall>c. Handler (length (rs_readers t)) c \<notin> set evs'"
  shows "rs_stop t' \<noteq> Stop_returned \<and> \<not> rd_cancelled (rs_readers t' ! length (rs_readers t))"
proof -
  let ?t = "emplace_reader fresh args t"
  have "\<forall>q. Push_packet q [] \<notin> set evs" "\<forall>q. Push_packet q [] \<notin> set evs'" using assms(4) by auto
  note push = this
  have inv: "life_inv ring_sink_inv t"
    using ring_owner.run_life [OF ring_start [OF assms(1-3)] push(1) assms(5)] by auto
  then have "rs_stop t \<noteq> Stop_returned" using life_invD(5) [OF inv] assms(7) by (cases "rs_stop t") auto
  then have inv1: "life_inv ring_sink_inv ?t" by (rule emplace_life [OF inv])
  have "rs_readers ?t = rs_readers t @ [make_reader fresh True args]" "sb_stopped (rs_base ?t)"
    using assms(6,7) by (simp_all add: emplace_reader_def Let_def)
  with ring_owner.waiting_run [OF inv1 _ _ _ _ assms(9) push(2) assms(8)] show ?thesis by (auto simp: make_reader_def)
qed

theorem late_reader_blocks_stop_witness:
  "\<exists>t t'. stream_run (\<lambda>_. 0) ring_client [Stop_begin] example_reader_stream = Some (Inr t) \<and>
     stream_run (\<lambda>_. 0) ring_client [Stop_count] (emplace_reader (\<lambda>_. 0) (New_udp 9200) t) = Some (Inr t') \<and>
     \<not> rd_cancelled (rs_readers t' ! 0)"
proof -
  note t0 = example_stream_start
  from ring_owner.stop_begin_life [OF t0(1,2)] obtain f t where t: "stop_begin ring_client example_reader_stream = Inr t"
      "life_inv ring_sink_inv t" "rs_stop t = Stop_counting" "rs_readers t = map f (rs_readers example_reader_stream)"
      "f = id \<and> sb_stopped (rs_base example_reader_stream) \<or> f = stop_reader \<and> \<not> sb_stopped (rs_base example_reader_stream)"
      "sb_stopped (rs_base t)" .
  have run: "stream_run (\<lambda>_. 0) ring_client [Stop_begin] example_reader_stream = Some (Inr t)" using t(1) t0(2) by simp
  have n: "\<not> rs_stop_readers t" "rs_readers t = []" using life_invD(5) [OF t(2)] t(3,4) t0(5) by simp_all
  have run': "stream_run (\<lambda>_. 0) ring_client [Stop_count] (emplace_reader (\<lambda>_. 0) (New_udp 9200) t) =
      Some (Inr (stop_count (emplace_reader (\<lambda>_. 0) (New_udp 9200) t)))"
    using t(3) n(1) by (simp add: emplace_reader_def Let_def)
  from late_reader_blocks_stop [OF example_start(1) _ example_start(2) _ run t(6) n(1) run'] n(2) run run' show ?thesis by auto
qed

end
