(* ===== verification/Memcpy.thy ===== *)
theory Memcpy
  imports StreamSafety
begin

text \<open>
  The copy with non-temporal stores, \<^verbatim>\<open>memcpy_nontemporal\<close> of \<^verbatim>\<open>common_memcpy.cpp\<close>, and its equivalence with
  \<^verbatim>\<open>std::memcpy\<close>.  The destination is an offset \<open>d\<close> into a block of memory at the address \<open>base\<close>, the source is
  separate from it, as \<^verbatim>\<open>__restrict__\<close> demands.
\<close>

unbundle bit_operations_syntax

section \<open>Definitions\<close>

definition std_memcpy :: "byte list \<Rightarrow> nat \<Rightarrow> byte list \<Rightarrow> nat \<Rightarrow> fault + byte list" where
  "std_memcpy mem d src n = (if n \<le> length src then mem_write mem d (take n src) else Inl Out_of_bounds)"

text \<open>The intrinsics: an unaligned load of 16 bytes, and a streaming store, which traps unless its address is aligned.\<close>

definition misaligned_store :: fault where
  "misaligned_store = Exception ''misaligned store''"

definition mm_loadu_si128 :: "byte list \<Rightarrow> nat \<Rightarrow> fault + byte list" where
  "mm_loadu_si128 src i = (if i + 16 \<le> length src then Inr (take 16 (drop i src)) else Inl Out_of_bounds)"

definition mm_stream_si128 :: "64 word \<Rightarrow> byte list \<Rightarrow> nat \<Rightarrow> byte list \<Rightarrow> fault + byte list" where
  "mm_stream_si128 base mem i v =
     (if unat (base + of_nat i) mod 16 = 0 then mem_write mem i v else Inl misaligned_store)"

text \<open>The body of the loop: four loads, then four stores.\<close>

definition copy_line :: "64 word \<Rightarrow> nat \<Rightarrow> byte list \<Rightarrow> nat \<Rightarrow> byte list \<Rightarrow> fault + byte list" where
  "copy_line base d src i mem =
     bind_result (mm_loadu_si128 src (i + 0)) (\<lambda>value0.
     bind_result (mm_loadu_si128 src (i + 16)) (\<lambda>value1.
     bind_result (mm_loadu_si128 src (i + 32)) (\<lambda>value2.
     bind_result (mm_loadu_si128 src (i + 48)) (\<lambda>value3.
     bind_result (mm_stream_si128 base mem (d + i + 0) value0) (\<lambda>mem0.
     bind_result (mm_stream_si128 base mem0 (d + i + 16) value1) (\<lambda>mem1.
     bind_result (mm_stream_si128 base mem1 (d + i + 32) value2) (\<lambda>mem2.
     mm_stream_si128 base mem2 (d + i + 48) value3)))))))"

function copy_lines :: "64 word \<Rightarrow> nat \<Rightarrow> byte list \<Rightarrow> nat \<Rightarrow> nat \<Rightarrow> byte list \<Rightarrow> fault + (nat \<times> byte list)" where
  "copy_lines base d src n i mem =
     (if i + 64 \<le> n then bind_result (copy_line base d src i mem) (copy_lines base d src n (i + 64))
      else Inr (i, mem))"
  by pat_completeness auto
termination
  by (relation "measure (\<lambda>(base, d, src, n, i, mem). n - i)") auto

declare copy_lines.simps [simp del]

definition copy_aligned :: "64 word \<Rightarrow> byte list \<Rightarrow> nat \<Rightarrow> byte list \<Rightarrow> nat \<Rightarrow> fault + byte list" where
  "copy_aligned base mem d src n =
     bind_result (copy_lines base d src n 0 mem) (\<lambda>(i, mem1).
     let tail = n - i in std_memcpy mem1 (d + i) (drop i src) tail)"

definition memcpy_nontemporal :: "64 word \<Rightarrow> byte list \<Rightarrow> nat \<Rightarrow> byte list \<Rightarrow> nat \<Rightarrow> fault + byte list" where
  "memcpy_nontemporal base mem d src n =
     (let dest_i = base + of_nat d;
          aligned = (dest_i + 63) AND NOT 63;
          head = unat (aligned - dest_i)
      in if head > 0 then
           (if head \<ge> n then std_memcpy mem d src n
            else bind_result (std_memcpy mem d src head) (\<lambda>mem1.
                 copy_aligned base mem1 (d + head) (drop head src) (n - head)))
         else copy_aligned base mem d src n)"

text \<open>
  \<^verbatim>\<open>SPEAD2_ADAPT_MEMCPY\<close> makes a function that copies the payload of a packet from one that copies bytes; for
  \<^verbatim>\<open>memcpy_nontemporal\<close>, \<open>addr\<close> gives the address of a block.
\<close>

definition adapt_memcpy :: "(byte list \<Rightarrow> nat \<Rightarrow> byte list \<Rightarrow> nat \<Rightarrow> fault + byte list) \<Rightarrow> packet_memcpy_function" where
  "adapt_memcpy func allocation packet =
     (case allocation of
        None \<Rightarrow> Inl Null_dereference
      | Some m \<Rightarrow>
          bind_result (func m (nat (ph_payload_offset packet)) (ph_payload packet) (nat (ph_payload_length packet)))
            (\<lambda>m'. Inr (Some m')))"

definition nontemporal_packet_memcpy :: "(byte list \<Rightarrow> 64 word) \<Rightarrow> packet_memcpy_function" where
  "nontemporal_packet_memcpy addr = adapt_memcpy (\<lambda>m. memcpy_nontemporal (addr m) m)"

definition set_memcpy_function ::
  "(byte list \<Rightarrow> nat \<Rightarrow> byte list \<Rightarrow> nat \<Rightarrow> fault + byte list) \<Rightarrow> 's stream_base \<Rightarrow> 's stream_base" where
  "set_memcpy_function memcpy s = set_memcpy (adapt_memcpy memcpy) s"

text \<open>The values of the enumeration \<^verbatim>\<open>memcpy_function_id\<close>.\<close>

definition MEMCPY_STD :: nat where "MEMCPY_STD = 0"
definition MEMCPY_NONTEMPORAL :: nat where "MEMCPY_NONTEMPORAL = 1"

definition set_memcpy_id :: "(byte list \<Rightarrow> 64 word) \<Rightarrow> nat \<Rightarrow> 's stream_base \<Rightarrow> fault + 's stream_base" where
  "set_memcpy_id addr fid s =
     (if fid = MEMCPY_STD then Inr (set_memcpy std_packet_memcpy s)
      else if fid = MEMCPY_NONTEMPORAL then Inr (set_memcpy (nontemporal_packet_memcpy addr) s)
      else Inl (Exception ''Unknown memcpy function''))"

section \<open>Copies put together\<close>

lemma std_memcpy_ok:
  "n \<le> length src \<Longrightarrow> d + n \<le> length mem \<Longrightarrow> std_memcpy mem d src n = Inr (take d mem @ take n src @ drop (d + n) mem)"
  by (simp add: std_memcpy_def mem_write_def)

text \<open>Two copies one after the other are one.\<close>

lemma std_memcpy_append:
  assumes "a + b \<le> length src" "d + a + b \<le> length mem" "mem1 = take d mem @ take a src @ drop (d + a) mem"
  shows "std_memcpy mem1 (d + a) (drop a src) b = std_memcpy mem d src (a + b)"
proof -
  have "length mem1 = length mem" using assms by simp
  moreover have "take (d + a) mem1 = take d mem @ take a src" "drop (d + a + b) mem1 = drop (d + a + b) mem"
    using assms by (simp_all add: ac_simps)
  moreover have "take (a + b) src = take a src @ take b (drop a src)" by (rule take_add)
  ultimately show ?thesis using assms(1,2) by (simp add: std_memcpy_ok add.assoc)
qed

lemma stream_store_eq:
  assumes "i + 16 \<le> length src" "unat base + (d + i) < 2 ^ 64" "(unat base + (d + i)) mod 16 = 0" "d + i + 16 \<le> length mem"
  shows "mm_loadu_si128 src i = Inr (take 16 (drop i src))"
    "mm_stream_si128 base mem (d + i) (take 16 (drop i src)) = std_memcpy mem (d + i) (drop i src) 16"
proof -
  have "unat (base + of_nat (d + i)) = unat base + (d + i)"
    using assms(2) by (simp add: unat_word_ariths unat_of_nat del: of_nat_add)
  with assms show "mm_loadu_si128 src i = Inr (take 16 (drop i src))"
    "mm_stream_si128 base mem (d + i) (take 16 (drop i src)) = std_memcpy mem (d + i) (drop i src) 16"
    by (auto simp: mm_loadu_si128_def mm_stream_si128_def std_memcpy_def)
qed

text \<open>The memory after \<open>n\<close> bytes have been copied.\<close>

definition copied :: "byte list \<Rightarrow> nat \<Rightarrow> byte list \<Rightarrow> nat \<Rightarrow> byte list" where
  "copied mem d src n = take d mem @ take n src @ drop (d + n) mem"

lemma copied_more:
  assumes "a + b \<le> length src" "d + a + b \<le> length mem"
  shows "std_memcpy (copied mem d src a) (d + a) (drop a src) b = Inr (copied mem d src (a + b))"
    "length (copied mem d src a) = length mem"
  using std_memcpy_append [OF assms refl] assms by (simp_all add: copied_def std_memcpy_ok add.assoc)

lemma copy_line_ok:
  assumes src: "i + 64 \<le> length src" and mem: "d + i + 64 \<le> length mem" "unat base + length mem \<le> 2 ^ 64"
    and al: "(unat base + d) mod 64 = 0" "i mod 64 = 0"
  shows "copy_line base d src i (copied mem d src i) = Inr (copied mem d src (i + 64))"
proof -
  have store: "mm_loadu_si128 src (i + j) = Inr (take 16 (drop (i + j) src)) \<and>
      mm_stream_si128 base (copied mem d src (i + j)) (d + (i + j)) (take 16 (drop (i + j) src)) = Inr (copied mem d src (i + j + 16))"
    if "j \<le> 48" "j mod 16 = 0" for j
  proof -
    have "16 dvd (64 :: nat)" by simp
    then have dv: "16 dvd unat base + d" "16 dvd i" "16 dvd j" using al that(2) by (auto simp: mod_eq_0_iff_dvd intro: dvd_trans)
    have "16 dvd (unat base + d) + (i + j)" by (rule dvd_add [OF dv(1) dvd_add [OF dv(2,3)]])
    then have "(unat base + (d + (i + j))) mod 16 = 0" by (simp add: mod_eq_0_iff_dvd add.assoc)
    moreover have "length (copied mem d src (i + j)) = length mem"
      using copied_more(2) [of "i + j" 0 src d mem] src mem(1) that(1) by simp
    ultimately have "mm_loadu_si128 src (i + j) = Inr (take 16 (drop (i + j) src))"
      "mm_stream_si128 base (copied mem d src (i + j)) (d + (i + j)) (take 16 (drop (i + j) src)) =
        std_memcpy (copied mem d src (i + j)) (d + (i + j)) (drop (i + j) src) 16"
      using stream_store_eq [of "i + j" src base d "copied mem d src (i + j)"] src mem that(1) by simp_all
    then show ?thesis using copied_more(1) [of "i + j" 16 src d mem] src mem(1) that(1) by simp
  qed
  from store [of 0] store [of 16] store [of 32] store [of 48] show ?thesis
    by (simp add: copy_line_def add.assoc)
qed

lemma copy_lines_ok:
  assumes "n \<le> length src" "d + n \<le> length mem" "unat base + length mem \<le> 2 ^ 64" "(unat base + d) mod 64 = 0"
    "i mod 64 = 0" "i \<le> n"
  shows "\<exists>k. copy_lines base d src n i (copied mem d src i) = Inr (k, copied mem d src k) \<and> k \<le> n"
  using assms(5,6)
proof (induction "n - i" arbitrary: i rule: less_induct)
  case less
  show ?case
  proof (cases "i + 64 \<le> n")
    case True
    have "(i + 64) mod 64 = 0" using less.prems(1) by simp
    have "n - (i + 64) < n - i" using True by simp
    with less.hyps [of "i + 64"] True \<open>(i + 64) mod 64 = 0\<close> obtain k where
      "copy_lines base d src n (i + 64) (copied mem d src (i + 64)) = Inr (k, copied mem d src k)" "k \<le> n" by auto
    with True copy_line_ok [of i src d mem base] assms less.prems(1) show ?thesis
      by (subst copy_lines.simps) auto
  qed (use less.prems in \<open>subst copy_lines.simps, auto\<close>)
qed

lemma copy_aligned_ok:
  assumes "n \<le> length src" "d + n \<le> length mem" "unat base + length mem \<le> 2 ^ 64" "(unat base + d) mod 64 = 0"
  shows "copy_aligned base mem d src n = std_memcpy mem d src n"
proof -
  have c0: "copied mem d src 0 = mem" using assms(2) by (simp add: copied_def)
  from copy_lines_ok [OF assms, of 0] obtain k where "copy_lines base d src n 0 mem = Inr (k, copied mem d src k)" "k \<le> n"
    by (auto simp: c0)
  with copied_more(1) [of k "n - k" src d mem] assms show ?thesis
    by (simp add: copy_aligned_def Let_def std_memcpy_ok copied_def)
qed

section \<open>Alignment\<close>

text \<open>\<^verbatim>\<open>(x + 63) & ~63\<close> is the next multiple of 64, unless it wraps.\<close>

lemma align_down: "unat (x AND NOT 63 :: 64 word) = unat x - unat x mod 64"
proof -
  have low: "x AND 63 = take_bit 6 x" by (simp add: take_bit_eq_mask mask_eq_exp_minus_1)
  have "x - (x AND 63) = x AND NOT (x AND 63)" by (rule disjunctive_diff) (simp add: bit_and_iff)
  also have "\<dots> = x AND NOT 63" by (rule bit_word_eqI) (auto simp: bit_simps)
  finally have eq: "x AND NOT 63 = x - take_bit 6 x" using low by simp
  have small: "unat (take_bit 6 x) = unat x mod 64" unfolding unsigned_take_bit_eq by (simp add: take_bit_eq_mod)
  then have "take_bit 6 x \<le> x" by (simp add: word_le_nat_alt)
  then show ?thesis unfolding eq by (simp add: unat_sub small)
qed

lemma head_cases:
  fixes dest_i :: "64 word"
  defines "head \<equiv> unat (((dest_i + 63) AND NOT 63) - dest_i)"
  shows "unat dest_i + head = 2 ^ 64 \<or> (unat dest_i + head) mod 64 = 0"
proof (cases "unat dest_i + 63 < 2 ^ 64")
  case True
  let ?a = "(dest_i + 63) AND NOT 63"
  have "unat (dest_i + 63) = unat dest_i + 63" using True by (simp add: unat_word_ariths)
  then have a: "unat ?a = (unat dest_i + 63) div 64 * 64" unfolding align_down by (simp add: minus_mod_eq_div_mult)
  have "unat dest_i \<le> (unat dest_i + 63) div 64 * 64" by presburger
  then have "dest_i \<le> ?a" using a by (simp add: word_le_nat_alt)
  then have "unat dest_i + head = (unat dest_i + 63) div 64 * 64"
    using a word_le_nat_alt [of dest_i ?a] by (simp add: head_def unat_sub)
  then show ?thesis by simp
next
  case False
  have less: "unat dest_i < 2 ^ 64" using unsigned_less [of dest_i, where ?'a = nat] by simp
  have "unat (dest_i + 63) = unat dest_i + 63 - 2 ^ 64"
    using False less by (simp add: unat_word_ariths le_mod_geq)
  then have "unat (dest_i + 63) < 64" using less by simp
  then have "unat ((dest_i + 63) AND NOT 63) = 0" unfolding align_down by simp
  then have "(dest_i + 63) AND NOT 63 = 0" by (simp only: unat_eq_0)
  then have "head = unat (- dest_i)" by (simp only: head_def) simp
  also have "\<dots> = 2 ^ 64 - unat dest_i" using False less unat_sub_if_size [of 0 dest_i] by (simp add: word_size)
  finally show ?thesis using less by simp
qed

section \<open>Properties\<close>

text \<open>
  C23: \<^verbatim>\<open>memcpy_nontemporal\<close> is \<^verbatim>\<open>memcpy\<close>.  For every address, length and alignment of the destination, within one block of
  memory, it has the same result, reads and writes nothing else, and every streaming store is to an aligned
  address.  A stream for which it is selected copies the payload of a packet as one with the default function does.
\<close>

theorem memcpy_nontemporal_correct:
  assumes "n \<le> length src" "d + n \<le> length mem" "unat base + length mem \<le> 2 ^ 64"
  shows "memcpy_nontemporal base mem d src n = Inr (take d mem @ take n src @ drop (d + n) mem) \<and>
    (\<forall>packet. ph_payload packet = src \<and> nat (ph_payload_offset packet) = d \<and> nat (ph_payload_length packet) = n \<longrightarrow>
       nontemporal_packet_memcpy (\<lambda>_. base) (Some mem) packet = std_packet_memcpy (Some mem) packet)"
proof -
  have eq: "memcpy_nontemporal base mem d src n = std_memcpy mem d src n"
  proof (cases "n = 0")
    case True
    then show ?thesis using assms(2)
      by (simp add: memcpy_nontemporal_def Let_def copy_aligned_def copy_lines.simps std_memcpy_def)
  next
    case False
    let ?x = "base + of_nat d :: 64 word"
    define head where "head = unat (((?x + 63) AND NOT 63) - ?x)"
    have "unat ?x = (unat base + d) mod 2 ^ 64" by (simp add: unat_word_ariths unat_of_nat mod_add_right_eq)
    then have x: "unat ?x = unat base + d" using assms False by simp
    have head: "unat base + d + head = 2 ^ 64 \<or> (unat base + d + head) mod 64 = 0"
      using head_cases [of ?x] unfolding x head_def by simp
    have nt: "memcpy_nontemporal base mem d src n =
      (if head > 0 then
         (if head \<ge> n then std_memcpy mem d src n
          else bind_result (std_memcpy mem d src head) (\<lambda>mem1. copy_aligned base mem1 (d + head) (drop head src) (n - head)))
       else copy_aligned base mem d src n)"
      by (simp add: memcpy_nontemporal_def Let_def head_def)
    show ?thesis
    proof (cases "head < n")
      case False
      then show ?thesis using nt \<open>n \<noteq> 0\<close> by simp
    next
      case True
      then have al: "(unat base + (d + head)) mod 64 = 0" using head assms by (auto simp: add.assoc)
      let ?mem1 = "copied mem d src head"
      have m1: "std_memcpy mem d src head = Inr ?mem1" "length ?mem1 = length mem"
        using True assms copied_more(2) [of head 0 src d mem] by (simp_all add: std_memcpy_ok copied_def)
      have "copy_aligned base ?mem1 (d + head) (drop head src) (n - head) = std_memcpy mem d src n"
        using copy_aligned_ok [of "n - head" "drop head src" "d + head" ?mem1 base] copied_more(1) [of head "n - head" src d mem]
          al True assms m1 by (simp add: std_memcpy_ok copied_def)
      moreover have "copy_aligned base mem d src n = std_memcpy mem d src n" if "head = 0"
        using copy_aligned_ok [OF assms] al that by simp
      ultimately show ?thesis using nt m1(1) True by auto
    qed
  qed
  have "std_packet_memcpy (Some mem) packet = nontemporal_packet_memcpy (\<lambda>_. base) (Some mem) packet"
    if "ph_payload packet = src" "nat (ph_payload_offset packet) = d" "nat (ph_payload_length packet) = n" for packet
    using that eq assms(1) by (simp add: std_packet_memcpy_def nontemporal_packet_memcpy_def adapt_memcpy_def std_memcpy_def mem_read_def)
  with eq std_memcpy_ok [OF assms(1,2)] show ?thesis by simp
qed

theorem memcpy_nontemporal_correct_witness:
  "memcpy_nontemporal 1000 (replicate 200 0) 3 [1, 2, 3] 3 = Inr (take 3 (replicate 200 0) @ take 3 [1, 2, 3] @ drop (3 + 3) (replicate 200 0))"
  using memcpy_nontemporal_correct [of 3 "[1, 2, 3]" 3 "replicate 200 0" 1000] by simp

end
