(* ===== verification/SendTransports.thy ===== *)
theory SendTransports
  imports SendStream UnboundedQueue
begin

text \<open>
  Two transports below the sending stream: \<^verbatim>\<open>send_inproc.cpp\<close>, which pushes copies of the packets into a queue, and
  \<^verbatim>\<open>send_streambuf.cpp\<close>, which writes them to a \<^verbatim>\<open>std::streambuf\<close>.  Each sets the results of the current packets and posts
  the handler that continues; that is the event \<open>Transport_done\<close> of SendSystem.
\<close>

section \<open>In-process queue\<close>

definition copy_packet :: "send_packet \<Rightarrow> byte list" where
  "copy_packet p = concat (sp_buffers p)"

fun inproc_send_loop ::
  "transmit_packet list \<Rightarrow> byte list unbounded_queue \<Rightarrow> transmit_packet list \<times> byte list unbounded_queue" where
  "inproc_send_loop [] q = ([], q)"
| "inproc_send_loop (p # ps) q =
     (let (result, q1) =
        (case uq_push (copy_packet (tp_pkt p)) q of Inr q1 \<Rightarrow> (Success, q1) | Inl _ \<Rightarrow> (Operation_aborted, q));
          (ps', q2) = inproc_send_loop ps q1
      in (p\<lparr>tp_result := result\<rparr> # ps', q2))"

definition inproc_async_send_packets ::
  "byte list unbounded_queue \<Rightarrow> 'h send_stream \<Rightarrow> 'h send_stream \<times> byte list unbounded_queue" where
  "inproc_async_send_packets q s =
     (let (ps, q1) = inproc_send_loop (ss_current_packets s) q in (s\<lparr>ss_current_packets := ps\<rparr>, q1))"

section \<open>Stream buffer\<close>

text \<open>
  \<open>sputn\<close> is the stream buffer's method: it takes some of the bytes and returns how many.  A short write ends the packet.
\<close>

fun write_buffers :: "(byte list \<Rightarrow> 'b \<Rightarrow> nat \<times> 'b) \<Rightarrow> byte list list \<Rightarrow> 'b \<Rightarrow> error_code \<times> 'b" where
  "write_buffers sputn [] b = (Success, b)"
| "write_buffers sputn (buffer # buffers) b =
     (let (written, b1) = sputn buffer b
      in if written \<noteq> length buffer then (Eof, b1) else write_buffers sputn buffers b1)"

fun streambuf_send_loop ::
  "(byte list \<Rightarrow> 'b \<Rightarrow> nat \<times> 'b) \<Rightarrow> transmit_packet list \<Rightarrow> 'b \<Rightarrow> transmit_packet list \<times> 'b" where
  "streambuf_send_loop sputn [] b = ([], b)"
| "streambuf_send_loop sputn (p # ps) b =
     (let (result, b1) = write_buffers sputn (sp_buffers (tp_pkt p)) b;
          (ps', b2) = streambuf_send_loop sputn ps b1
      in (p\<lparr>tp_result := result\<rparr> # ps', b2))"

definition streambuf_async_send_packets ::
  "(byte list \<Rightarrow> 'b \<Rightarrow> nat \<times> 'b) \<Rightarrow> 'b \<Rightarrow> 'h send_stream \<Rightarrow> 'h send_stream \<times> 'b" where
  "streambuf_async_send_packets sputn b s =
     (let (ps, b1) = streambuf_send_loop sputn (ss_current_packets s) b in (s\<lparr>ss_current_packets := ps\<rparr>, b1))"

section \<open>What they transmit\<close>

text \<open>
  The queue gets a copy of every packet, in order, and all succeed, unless it has been stopped: then it gets none and all are
  aborted.
\<close>

lemma inproc_send_loop_ok:
  assumes "uq_inv q"
  shows "fst (inproc_send_loop ps q) =
      map (\<lambda>p. p\<lparr>tp_result := if uq_stopped q then Operation_aborted else Success\<rparr>) ps \<and>
    uq_data (snd (inproc_send_loop ps q)) = uq_data q @ (if uq_stopped q then [] else map (copy_packet \<circ> tp_pkt) ps) \<and>
    uq_inv (snd (inproc_send_loop ps q)) \<and> uq_stopped (snd (inproc_send_loop ps q)) = uq_stopped q"
  using assms
proof (induction ps arbitrary: q)
  case (Cons p ps)
  show ?case
  proof (cases "uq_stopped q")
    case True
    with Cons.IH [OF Cons.prems] show ?thesis by (simp add: uq_push_def case_prod_beta)
  next
    case False
    let ?q = "q\<lparr>uq_data := uq_data q @ [copy_packet (tp_pkt p)], uq_data_sem := sem_put (uq_data_sem q)\<rparr>"
    have "uq_inv ?q" using Cons.prems by (simp add: uq_inv_def sem_put_def)
    from Cons.IH [OF this] False show ?thesis by (simp add: uq_push_def case_prod_beta)
  qed
qed simp

lemma inproc_async_send_packets_ok:
  assumes "uq_inv q" "\<not> uq_stopped q"
  shows "inproc_async_send_packets q s =
    (s\<lparr>ss_current_packets := map (\<lambda>p. p\<lparr>tp_result := Success\<rparr>) (ss_current_packets s)\<rparr>,
     snd (inproc_send_loop (ss_current_packets s) q))"
    "uq_data (snd (inproc_async_send_packets q s)) = uq_data q @ map (copy_packet \<circ> tp_pkt) (ss_current_packets s)"
  using inproc_send_loop_ok [OF assms(1), of "ss_current_packets s"] assms(2)
  by (simp_all add: inproc_async_send_packets_def case_prod_beta)

text \<open>A stream buffer that takes everything, a list of bytes, gets the packets one after the other.\<close>

definition append_bytes :: "byte list \<Rightarrow> byte list \<Rightarrow> nat \<times> byte list" where
  "append_bytes bs out = (length bs, out @ bs)"

lemma write_buffers_append: "write_buffers append_bytes bufs out = (Success, out @ concat bufs)"
  by (induction bufs arbitrary: out) (simp_all add: append_bytes_def)

lemma streambuf_send_loop_append:
  "streambuf_send_loop append_bytes ps out =
     (map (\<lambda>p. p\<lparr>tp_result := Success\<rparr>) ps, out @ concat (map (copy_packet \<circ> tp_pkt) ps))"
  by (induction ps arbitrary: out) (simp_all add: write_buffers_append copy_packet_def)

text \<open>A packet has succeeded only if the buffer took all its bytes.\<close>

lemma write_buffers_success:
  assumes "\<And>bs out. case sputn bs out of (n, out') \<Rightarrow> n \<le> length bs \<and> out' = out @ take n bs"
  shows "write_buffers sputn bufs out = (Success, out') \<Longrightarrow> out' = out @ concat bufs"
proof (induction bufs arbitrary: out)
  case (Cons buf bufs)
  from Cons.prems Cons.IH [of "out @ buf"] assms [of buf out] show ?case by (auto split: prod.splits if_splits)
qed simp

end
