(* ===== verification/Verbs.thy ===== *)
theory Verbs
  imports RawPacket
begin

text \<open>
  What the ibverbs sender and the ibverbs readers share: the wrappers of \<^verbatim>\<open>common_ibv.cpp\<close> that turn the results of the verbs library into
  exceptions (\<^verbatim>\<open>throw_errno\<close> of \<^verbatim>\<open>common_logging.cpp\<close>), the search for the device of an address, and the flow rules that tell a
  network card which frames to deliver.  The verbs library is an argument: the status and \<^verbatim>\<open>errno\<close> that it returns.
\<close>

section \<open>Errors\<close>

text \<open>A \<^verbatim>\<open>std::system_error\<close> with its code can be caught as such; other exceptions and faults leave the handler.\<close>

datatype ibv_error = System_error int | Escapes fault

definition EAGAIN :: int where "EAGAIN = 11"
definition EWOULDBLOCK :: int where "EWOULDBLOCK = 11"
definition EINVAL :: int where "EINVAL = 22"
definition ENODEV :: int where "ENODEV = 19"
definition ENOENT :: int where "ENOENT = 2"
definition ENOTSUP :: int where "ENOTSUP = 95"

definition throw_errno :: "int \<Rightarrow> ibv_error" where
  "throw_errno err = (if err = 0 then System_error EINVAL else System_error err)"

definition invalid_argument :: "string \<Rightarrow> fault" where
  "invalid_argument s = Exception s"

section \<open>Wrappers\<close>

text \<open>Functions of the library that return a pointer, or null and an error in \<^verbatim>\<open>errno\<close>.\<close>

definition create_object :: "'p option \<Rightarrow> int \<Rightarrow> ibv_error + 'p" where
  "create_object ptr errno = (case ptr of None \<Rightarrow> Inl (throw_errno errno) | Some p \<Rightarrow> Inr p)"

text \<open>Functions that return an error code, or zero: \<^verbatim>\<open>req_notify\<close>, \<^verbatim>\<open>modify\<close>, \<^verbatim>\<open>post_recv\<close>, \<^verbatim>\<open>post_send\<close>.\<close>

definition check_status :: "int \<Rightarrow> ibv_error option" where
  "check_status status = (if status \<noteq> 0 then Some (throw_errno status) else None)"

definition bind_addr :: "int \<Rightarrow> int \<Rightarrow> bool \<Rightarrow> ibv_error option" where
  "bind_addr status errno has_verbs =
     (if status < 0 then Some (throw_errno errno)
      else if \<not> has_verbs then Some (throw_errno ENODEV)
      else None)"

text \<open>\<^verbatim>\<open>get_event\<close> says whether there was an event; \<^verbatim>\<open>poll\<close> returns the number of completions.\<close>

definition get_event :: "int \<Rightarrow> int \<Rightarrow> ibv_error + bool" where
  "get_event status errno =
     (if status < 0 then (if errno = EAGAIN then Inr False else Inl (throw_errno errno)) else Inr True)"

definition cq_poll :: "int \<Rightarrow> int \<Rightarrow> ibv_error + nat" where
  "cq_poll received errno = (if received < 0 then Inl (throw_errno errno) else Inr (nat received))"

text \<open>
  The loop that takes all events of a completion channel, given the status and \<^verbatim>\<open>errno\<close> of each call.  It is \<open>None\<close> while the
  loop has not ended.
\<close>

fun take_events :: "(int \<times> int) list \<Rightarrow> ibv_error option option" where
  "take_events [] = None"
| "take_events ((status, errno) # es) =
     (case get_event status errno of
        Inl e \<Rightarrow> Some (Some e)
      | Inr True \<Rightarrow> take_events es
      | Inr False \<Rightarrow> Some None)"

text \<open>
  The context of the device that has an address: the device with the identifier of the one that the address is bound to.
  \<open>opened\<close> is what \<^verbatim>\<open>ibv_open_device\<close> returns.
\<close>

fun find_device :: "64 word \<Rightarrow> (64 word \<times> 'd) list \<Rightarrow> 'd option" where
  "find_device guid [] = None"
| "find_device guid ((g, d) # ds) = (if g = guid then Some d else find_device guid ds)"

definition open_device_for ::
  "64 word \<Rightarrow> (64 word \<times> 'd) list option \<Rightarrow> ('d \<Rightarrow> 'c option) \<Rightarrow> int \<Rightarrow> ibv_error + 'c" where
  "open_device_for guid devices opened errno =
     (case devices of
        None \<Rightarrow> Inl (throw_errno errno)
      | Some ds \<Rightarrow>
          (case find_device guid ds of
             None \<Rightarrow> Inl (throw_errno ENOENT)
           | Some d \<Rightarrow> create_object (opened d) errno))"

section \<open>Addresses and flow rules\<close>

text \<open>An address is its bytes with its family; which addresses are multicast or unspecified is Boost's to say.\<close>

datatype ip_address = V4 "byte list" | V6 "byte list"

fun is_v4 :: "ip_address \<Rightarrow> bool" where
  "is_v4 (V4 a) \<longleftrightarrow> True"
| "is_v4 (V6 a) \<longleftrightarrow> False"

fun address_bytes :: "ip_address \<Rightarrow> byte list" where
  "address_bytes (V4 a) = a"
| "address_bytes (V6 a) = a"

record address_tests =
  is_multicast :: "ip_address \<Rightarrow> bool"
  is_unspecified :: "ip_address \<Rightarrow> bool"

definition header_length :: nat where
  "header_length = ethernet_min_size + ipv4_min_size + udp_min_size"

record flow_rule =
  fr_dst_mac :: "byte list"
  fr_dst_mac_mask :: "byte list"
  fr_dst_ip :: "byte list"
  fr_dst_ip_mask :: "byte list"
  fr_dst_port :: "byte list"
  fr_dst_port_mask :: "byte list"

text \<open>\<open>interface_mac\<close> finds the hardware address of the interface that has an address.\<close>

definition create_flow :: "address_tests \<Rightarrow> (ip_address \<Rightarrow> byte list) \<Rightarrow> ip_address \<times> 16 word \<Rightarrow> flow_rule" where
  "create_flow tests interface_mac endpoint =
     (let (address, port) = endpoint;
          rule = \<lparr>fr_dst_mac = replicate 6 0, fr_dst_mac_mask = replicate 6 0, fr_dst_ip = replicate 4 0,
                  fr_dst_ip_mask = replicate 4 0, fr_dst_port = replicate 2 0, fr_dst_port_mask = replicate 2 0\<rparr>;
          rule1 =
            (if \<not> is_unspecified tests address then
               rule\<lparr>fr_dst_mac := (if is_multicast tests address then multicast_mac (address_bytes address) else interface_mac address),
                    fr_dst_mac_mask := replicate 6 0xff, fr_dst_ip := address_bytes address,
                    fr_dst_ip_mask := replicate 4 0xff\<rparr>
             else rule)
      in rule1\<lparr>fr_dst_port := htobe16 port, fr_dst_port_mask := replicate 2 0xff\<rparr>)"

definition create_flows ::
  "address_tests \<Rightarrow> (ip_address \<Rightarrow> byte list) \<Rightarrow> (ip_address \<times> 16 word) list \<Rightarrow> flow_rule list" where
  "create_flows tests interface_mac endpoints = map (create_flow tests interface_mac) endpoints"

text \<open>The card delivers a frame that agrees with a rule where the mask of the rule has ones.\<close>

definition mask_match :: "byte list \<Rightarrow> byte list \<Rightarrow> byte list \<Rightarrow> bool" where
  "mask_match ones val field \<longleftrightarrow> map2 (AND) field ones = map2 (AND) val ones"

definition flow_accepts :: "flow_rule \<Rightarrow> byte list \<Rightarrow> bool" where
  "flow_accepts rule frame \<longleftrightarrow>
     mask_match (fr_dst_mac_mask rule) (fr_dst_mac rule) (take 6 frame) \<and>
     mask_match (fr_dst_ip_mask rule) (fr_dst_ip rule) (take 4 (drop 30 frame)) \<and>
     mask_match (fr_dst_port_mask rule) (fr_dst_port rule) (take 2 (drop 36 frame))"

section \<open>Lemmas\<close>

lemma check_status_simps [simp]:
  "check_status 0 = None" "status \<noteq> 0 \<Longrightarrow> check_status status = Some (System_error status)"
  by (simp_all add: check_status_def throw_errno_def)

lemma find_device_Some: "find_device guid ds = Some d \<Longrightarrow> (guid, d) \<in> set ds"
  by (induction ds) (auto split: if_splits)

lemma find_device_None: "find_device guid ds = None \<longleftrightarrow> guid \<notin> fst ` set ds"
  by (induction ds) (auto split: if_splits)

text \<open>The loop over the events ends at the first call that finds none.\<close>

lemma take_events_returns:
  "(\<forall>(status, errno) \<in> set es. status \<ge> 0) \<Longrightarrow> take_events (es @ [(-1, EAGAIN)]) = Some None"
  by (induction es) (auto simp: get_event_def)

lemma and_ones: "b AND 0xff = (b :: byte)"
proof -
  have "(0xff :: byte) = - 1" by simp
  then show ?thesis by (simp only: and.right_neutral)
qed

lemma mask_match_ones:
  assumes "length val = n" "length field = n"
  shows "mask_match (replicate n 0xff) val field \<longleftrightarrow> field = val"
proof -
  have "map2 (AND) xs (replicate (length xs) 0xff) = (xs :: byte list)" for xs by (induction xs) (simp_all add: and_ones)
  from this [of val] this [of field] assms show ?thesis by (simp add: mask_match_def)
qed

lemma mask_match_zeros: "length val = length field \<Longrightarrow> mask_match (replicate n 0) val field"
proof -
  have "map2 (AND) xs (replicate n 0) = replicate (min (length xs) n) (0 :: byte)" for xs
  proof (induction xs arbitrary: n)
    case (Cons x xs)
    then show ?case by (cases n) simp_all
  qed simp
  from this [of val] this [of field] show "length val = length field \<Longrightarrow> mask_match (replicate n 0) val field"
    by (simp add: mask_match_def)
qed

text \<open>A frame made by the sender matches the rule of an endpoint if it is addressed to it.\<close>

lemma frame_addresses:
  assumes "wf_config c" "frame_ready c m"
  shows "take 6 m = multicast_mac (fc_address c)" "take 4 (drop 30 m) = fc_address c" "take 2 (drop 36 m) = htobe16 (fc_port c)"
  using assms by (auto simp: frame_ready_def frame_bytes_def wf_config_def)

lemma htobe16_inject: "htobe16 v = htobe16 w \<longleftrightarrow> v = w"
  by (metis load_htobe16)

lemma flow_accepts_iff:
  assumes "wf_config c" "frame_ready c m" "length (address_bytes address) = 4" "is_multicast tests address"
  shows "flow_accepts (create_flow tests interface_mac (address, port)) m \<longleftrightarrow>
    (is_unspecified tests address \<or> address_bytes address = fc_address c) \<and> port = fc_port c"
proof -
  have "length (fc_address c) = 4" using assms(1) by (simp add: wf_config_def)
  then show ?thesis
    using assms(3,4)
    by (auto simp: flow_accepts_def create_flow_def Let_def frame_addresses [OF assms(1,2)] mask_match_ones mask_match_zeros htobe16_inject)
qed

end
