(* ===== verification/IbvSender.thy ===== *)
theory IbvSender
  imports Verbs SendTransports "HOL-Library.Sublist"
begin

text \<open>
  The ibverbs sender, \<^verbatim>\<open>send_udp_ibv.cpp\<close>: frames in registered memory (slots), a list of the slots that are free,
  a queue of work requests that the network card processes, and a completion queue that is polled to get the slots
  back.  The verbs library is an argument: what each poll returns, and the results of \<^verbatim>\<open>ibv_req_notify_cq\<close> and
  \<^verbatim>\<open>ibv_post_send\<close>.  The card reads the memory of a slot when it sends the frame, which is later than the call
  that posts it.
\<close>

section \<open>State\<close>

record ibv_slot =
  sl_frame :: "byte list"
  sl_sge_length :: nat
  sl_wr_next :: "nat option"

text \<open>A slot is the index that is its \<^verbatim>\<open>wr_id\<close>; the back of \<^verbatim>\<open>available\<close> is the end of the list.\<close>

record ibv_stream =
  ib_n_slots :: nat
  ib_slots :: "ibv_slot list"
  ib_available :: "nat list"
  ib_max_poll :: int
  ib_comp_channel :: bool

record qp_init_attr =
  cap_max_send_wr :: nat
  cap_max_recv_wr :: nat
  cap_max_send_sge :: nat
  cap_max_recv_sge :: nat
  cap_sq_sig_all :: bool

definition create_qp :: "nat \<Rightarrow> qp_init_attr" where
  "create_qp n_slots =
     \<lparr>cap_max_send_wr = n_slots, cap_max_recv_wr = 1, cap_max_send_sge = 1, cap_max_recv_sge = 1, cap_sq_sig_all = True\<rparr>"

section \<open>Reaping completions\<close>

text \<open>The result of one poll: the \<^verbatim>\<open>wr_id\<close> and the status of each completion, or the error it throws.\<close>

datatype poll_result = Polled "(nat \<times> int) list" | Poll_failed int

definition reap_batch_size :: nat where
  "reap_batch_size = 16"

fun reap_batch :: "(nat \<times> int) list \<Rightarrow> ibv_stream \<Rightarrow> ibv_error option \<times> ibv_stream" where
  "reap_batch [] s = (None, s)"
| "reap_batch ((wr_id, status) # wcs) s =
     (if wr_id < length (ib_slots s) then reap_batch wcs (s\<lparr>ib_available := ib_available s @ [wr_id]\<rparr>)
      else (Some (Escapes Out_of_bounds), s))"

text \<open>
  The loop polls until there is nothing to poll.  The result has the polls that are left, and is \<open>None\<close> while the loop
  has not ended with the polls given.
\<close>

fun reap :: "poll_result list \<Rightarrow> ibv_stream \<Rightarrow> (ibv_error option \<times> ibv_stream \<times> poll_result list) option" where
  "reap [] s = None"
| "reap (Poll_failed e # polls) s = Some (Some (System_error e), s, polls)"
| "reap (Polled wcs # polls) s =
     (if wcs = [] then Some (None, s, polls)
      else
        (case reap_batch wcs s of
           (Some e, s1) \<Rightarrow> Some (Some e, s1, polls)
         | (None, s1) \<Rightarrow> reap polls s1))"

text \<open>The result of \<^verbatim>\<open>make_space\<close>: \<open>True\<close>, or what will call \<^verbatim>\<open>async_send_packets\<close> again.\<close>

datatype space = Space | Wait_event | Rerun_posted

fun make_space_loop ::
  "nat \<Rightarrow> nat \<Rightarrow> poll_result list \<Rightarrow> ibv_stream \<Rightarrow> ((ibv_error + bool) \<times> ibv_stream \<times> poll_result list) option" where
  "make_space_loop 0 n polls s = Some (Inr False, s, polls)"
| "make_space_loop (Suc k) n polls s =
     (case reap polls s of
        None \<Rightarrow> None
      | Some (Some e, s1, polls1) \<Rightarrow> Some (Inl e, s1, polls1)
      | Some (None, s1, polls1) \<Rightarrow>
          if n \<le> length (ib_available s1) then Some (Inr True, s1, polls1)
          else make_space_loop k n polls1 s1)"

text \<open>\<open>n\<close> is \<^verbatim>\<open>n_current_packets\<close>, \<open>notify\<close> the status of \<^verbatim>\<open>ibv_req_notify_cq\<close>.\<close>

definition make_space ::
  "nat \<Rightarrow> poll_result list \<Rightarrow> int \<Rightarrow> ibv_stream \<Rightarrow> ((ibv_error + space) \<times> ibv_stream \<times> poll_result list) option" where
  "make_space n polls notify s =
     (case make_space_loop (nat (ib_max_poll s)) n polls s of
        None \<Rightarrow> None
      | Some (Inl e, s1, polls1) \<Rightarrow> Some (Inl e, s1, polls1)
      | Some (Inr True, s1, polls1) \<Rightarrow> Some (Inr Space, s1, polls1)
      | Some (Inr False, s1, polls1) \<Rightarrow>
          if ib_comp_channel s1 then
            (case check_status notify of
               Some e \<Rightarrow> Some (Inl e, s1, polls1)
             | None \<Rightarrow>
                 (case reap polls1 s1 of
                    None \<Rightarrow> None
                  | Some (Some e, s2, polls2) \<Rightarrow> Some (Inl e, s2, polls2)
                  | Some (None, s2, polls2) \<Rightarrow>
                      if n \<le> length (ib_available s2) then Some (Inr Space, s2, polls2)
                      else Some (Inr Wait_event, s2, polls2)))
          else Some (Inr Rerun_posted, s1, polls1))"

section \<open>Sending\<close>

text \<open>
  The loop that puts the packets into slots and links their work requests; the result is \<^verbatim>\<open>first\<close>.  The size of a
  packet is that of its buffers (\<open>load_packet\<close>).
\<close>

fun fill_loop ::
  "transmit_packet list \<Rightarrow> nat option \<Rightarrow> nat option \<Rightarrow> ibv_stream \<Rightarrow> (ibv_error + nat option) \<times> ibv_stream" where
  "fill_loop [] prev first s = (Inr first, s)"
| "fill_loop (p # ps) prev first s =
     (if ib_available s = [] then (Inl (Escapes Out_of_bounds), s)
      else
        let i = last (ib_available s);
            s1 = s\<lparr>ib_available := butlast (ib_available s)\<rparr>
        in if i < length (ib_slots s1) then
             (case fill_frame (copy_packet (tp_pkt p)) (sl_frame (ib_slots s1 ! i)) of
                Inl e \<Rightarrow> (Inl (Escapes e), s1)
              | Inr (m, n) \<Rightarrow>
                  let slots = (ib_slots s1)[i := \<lparr>sl_frame = m, sl_sge_length = n, sl_wr_next = None\<rparr>] in
                  (case prev of
                     Some j \<Rightarrow>
                       fill_loop ps (Some i) first
                         (s1\<lparr>ib_slots := slots[j := (slots ! j)\<lparr>sl_wr_next := Some i\<rparr>]\<rparr>)
                   | None \<Rightarrow> fill_loop ps (Some i) (Some i) (s1\<lparr>ib_slots := slots\<rparr>)))
           else (Inl (Escapes Out_of_bounds), s1))"

text \<open>
  The work requests that \<^verbatim>\<open>ibv_post_send\<close> finds by following \<^verbatim>\<open>next\<close>, at most \<open>k\<close>; it accepts all, or
  fails with a status after having accepted some.
\<close>

fun wr_chain :: "nat \<Rightarrow> ibv_slot list \<Rightarrow> nat option \<Rightarrow> nat list" where
  "wr_chain 0 slots wr = []"
| "wr_chain (Suc k) slots None = []"
| "wr_chain (Suc k) slots (Some i) = i # wr_chain k slots (sl_wr_next (slots ! i))"

datatype post_result = Posted | Post_failed int nat

fun accepted_by :: "post_result \<Rightarrow> nat list \<Rightarrow> nat list" where
  "accepted_by Posted wrs = wrs"
| "accepted_by (Post_failed e k) wrs = take k wrs"

datatype ibv_action = Retry space | Handler_posted

definition set_all_results :: "error_code \<Rightarrow> transmit_packet list \<Rightarrow> transmit_packet list" where
  "set_all_results ec ps = map (\<lambda>p. p\<lparr>tp_result := ec\<rparr>) ps"

text \<open>
  The whole of \<^verbatim>\<open>async_send_packets\<close>.  The result has the current packets with their results, and the work requests that
  the card has accepted, and the polls that are left.
\<close>

definition ibv_async_send_packets ::
  "poll_result list \<Rightarrow> int \<Rightarrow> post_result \<Rightarrow> transmit_packet list \<Rightarrow> ibv_stream \<Rightarrow>
   (fault + (ibv_action \<times> transmit_packet list \<times> ibv_stream \<times> nat list \<times> poll_result list)) option" where
  "ibv_async_send_packets polls notify post ps s =
     (case make_space (length ps) polls notify s of
        None \<Rightarrow> None
      | Some (Inl (Escapes e), s1, left) \<Rightarrow> Some (Inl e)
      | Some (Inl (System_error e), s1, left) \<Rightarrow>
          Some (Inr (Handler_posted, set_all_results (Other_error e) ps, s1, [], left))
      | Some (Inr Space, s1, left) \<Rightarrow>
          Some (case fill_loop ps None None s1 of
                  (Inl (Escapes e), s2) \<Rightarrow> Inl e
                | (Inl (System_error e), s2) \<Rightarrow> Inr (Handler_posted, set_all_results (Other_error e) ps, s2, [], left)
                | (Inr None, s2) \<Rightarrow> Inl Null_dereference
                | (Inr (Some first), s2) \<Rightarrow>
                    let wrs = accepted_by post (wr_chain (length (ib_slots s2)) (ib_slots s2) (Some first)) in
                    Inr (Handler_posted,
                      set_all_results (case post of Posted \<Rightarrow> Success | Post_failed e k \<Rightarrow> Other_error e) ps, s2, wrs, left))
      | Some (Inr again, s1, left) \<Rightarrow> Some (Inr (Retry again, ps, s1, [], left)))"

text \<open>
  The handler \<^verbatim>\<open>rerun\<close> that waits for an event of the completion channel: with an error it fails the packets, otherwise it
  takes the events (\<open>events\<close> are the results of the calls of the library) and sends again.
\<close>

datatype rerun_action = Call_handler "transmit_packet list" | Send_again | Throws ibv_error

definition rerun :: "error_code \<Rightarrow> (int \<times> int) list \<Rightarrow> transmit_packet list \<Rightarrow> rerun_action option" where
  "rerun ec events ps =
     (if ec \<noteq> Success then Some (Call_handler (set_all_results ec ps))
      else
        (case take_events events of
           None \<Rightarrow> None
         | Some None \<Rightarrow> Some Send_again
         | Some (Some e) \<Rightarrow> Some (Throws e)))"

section \<open>Construction and destruction\<close>

definition calc_n_slots :: "stream_config \<Rightarrow> nat \<Rightarrow> nat" where
  "calc_n_slots config buffer_size = max 1 (buffer_size div (sc_max_packet_size config + header_length))"

definition ibv_max_current_packets :: "stream_config \<Rightarrow> nat \<Rightarrow> nat" where
  "ibv_max_current_packets config buffer_size = max 1 (calc_n_slots config buffer_size div 2)"

fun setup_slots :: "frame_config \<Rightarrow> byte list list \<Rightarrow> nat \<Rightarrow> ibv_stream \<Rightarrow> fault + ibv_stream" where
  "setup_slots c [] i s = Inr s"
| "setup_slots c (m # ms) i s =
     bind_result (setup_frame c m) (\<lambda>m1.
     setup_slots c ms (Suc i)
       (s\<lparr>ib_slots := ib_slots s @ [\<lparr>sl_frame = m1, sl_sge_length = 0, sl_wr_next = None\<rparr>],
          ib_available := ib_available s @ [i]\<rparr>))"

text \<open>
  \<open>device\<close> is the result of
  setting up the socket and the device: an exception, or the address of the interface card and the local port.  \<open>buffer\<close> is the
  contents of the memory that was allocated.
\<close>

definition slot_memory :: "nat \<Rightarrow> byte list \<Rightarrow> nat \<Rightarrow> byte list" where
  "slot_memory max_raw_size buffer i = take max_raw_size (drop (i * max_raw_size) buffer)"

record ibv_args =
  ia_address :: ip_address
  ia_port :: "16 word"
  ia_config :: stream_config
  ia_interface_address :: ip_address
  ia_buffer_size :: nat
  ia_ttl :: int
  ia_comp_vector :: int
  ia_max_poll :: int

definition frame_config_of :: "ibv_args \<Rightarrow> byte list \<Rightarrow> 16 word \<Rightarrow> frame_config" where
  "frame_config_of a mac local_port =
     \<lparr>fc_max_packet_size = sc_max_packet_size (ia_config a), fc_source_mac = mac,
      fc_interface_address = address_bytes (ia_interface_address a), fc_address = address_bytes (ia_address a),
      fc_ttl = word_of_int (ia_ttl a), fc_source_port = local_port, fc_port = ia_port a\<rparr>"

abbreviation ibv_slots_of :: "ibv_args \<Rightarrow> nat" where
  "ibv_slots_of a \<equiv> calc_n_slots (ia_config a) (ia_buffer_size a)"

definition make_ibv_stream ::
  "address_tests \<Rightarrow> ibv_args \<Rightarrow> fault + (byte list \<times> 16 word) \<Rightarrow> byte list \<Rightarrow> fault + ibv_stream" where
  "make_ibv_stream tests a device buffer =
     (if \<not> is_v4 (ia_address a) \<or> \<not> is_multicast tests (ia_address a)
        then Inl (invalid_argument ''endpoint is not an IPv4 multicast address'')
      else if \<not> is_v4 (ia_interface_address a) then Inl (invalid_argument ''interface address is not an IPv4 address'')
      else if ia_max_poll a \<le> 0 then Inl (invalid_argument ''max_poll must be positive'')
      else
        bind_result device (\<lambda>(mac, local_port).
        let n_slots = ibv_slots_of a;
            max_raw_size = sc_max_packet_size (ia_config a) + header_length
        in setup_slots (frame_config_of a mac local_port) (map (slot_memory max_raw_size buffer) [0..<n_slots]) 0
             \<lparr>ib_n_slots = n_slots, ib_slots = [], ib_available = [], ib_max_poll = ia_max_poll a,
              ib_comp_channel = (ia_comp_vector a \<ge> 0)\<rparr>))"

text \<open>
  The loop of the destructor, after \<^verbatim>\<open>flush\<close>.  It runs until every slot is back; \<open>None\<close> says that it has not ended with
  the polls given.  An exception of a poll leaves the destructor.  A turn takes at least one poll.
\<close>

lemma reap_takes_poll: "reap polls s = Some (e, s1, polls1) \<Longrightarrow> length polls1 < length polls"
proof (induction polls s rule: reap.induct)
  case (3 wcs polls s)
  then show ?case by (fastforce split: if_splits prod.splits option.splits)
qed auto

function destroy_loop :: "poll_result list \<Rightarrow> ibv_stream \<Rightarrow> (ibv_error option \<times> ibv_stream) option" where
  "destroy_loop polls s =
     (if ib_n_slots s \<le> length (ib_available s) then Some (None, s)
      else
        (case reap polls s of
           None \<Rightarrow> None
         | Some (Some e, s1, _) \<Rightarrow> Some (Some e, s1)
         | Some (None, s1, polls1) \<Rightarrow> destroy_loop polls1 s1))"
  by pat_completeness auto
termination by (relation "measure (length \<circ> fst)") (auto dest: reap_takes_poll)

declare destroy_loop.simps [simp del]

section \<open>The sender and the card\<close>

text \<open>
  The card holds the work requests it has accepted and not yet carried out, in order, and the completions that were not
  polled yet.  \<open>iv_wire\<close> is what it has sent: the memory of the slot and the length at the time of sending.  The last
  fields record the packets whose work requests were accepted, the packets reported to the stream with their results, and
  how many calls had a post that fails.
\<close>

record ibv_system =
  iv_stream :: ibv_stream
  iv_current :: "transmit_packet list"
  iv_posted :: "nat list"
  iv_cq :: "nat list"
  iv_wire :: "(byte list \<times> nat) list"
  iv_sent :: "byte list list"
  iv_reported :: "(byte list \<times> error_code) list"
  iv_failed_posts :: nat

definition new_ibv_system :: "ibv_stream \<Rightarrow> ibv_system" where
  "new_ibv_system s =
     \<lparr>iv_stream = s, iv_current = [], iv_posted = [], iv_cq = [], iv_wire = [], iv_sent = [], iv_reported = [],
      iv_failed_posts = 0\<rparr>"

definition frame_of :: "ibv_slot list \<Rightarrow> nat \<Rightarrow> byte list \<times> nat" where
  "frame_of slots i = (sl_frame (slots ! i), sl_sge_length (slots ! i))"

text \<open>
  Polls take completions from the front of the queue.  What the card completes during a call of
  \<^verbatim>\<open>async_send_packets\<close>, before the call touches a frame, counts as completed before the call.
\<close>

fun polled_ids :: "poll_result list \<Rightarrow> nat list" where
  "polled_ids [] = []"
| "polled_ids (Polled wcs # polls) = map fst wcs @ polled_ids polls"
| "polled_ids (Poll_failed e # polls) = polled_ids polls"

fun batch_fits :: "poll_result \<Rightarrow> bool" where
  "batch_fits (Polled wcs) \<longleftrightarrow> length wcs \<le> reap_batch_size"
| "batch_fits (Poll_failed e) \<longleftrightarrow> True"

definition polls_valid :: "nat list \<Rightarrow> poll_result list \<Rightarrow> bool" where
  "polls_valid cq polls \<longleftrightarrow> polled_ids polls = take (length (polled_ids polls)) cq \<and> list_all batch_fits polls"

datatype ibv_event = Load "transmit_packet list" | Attempt "poll_result list" int post_result | Card_sends

fun post_failures :: "post_result \<Rightarrow> nat" where
  "post_failures Posted = 0"
| "post_failures (Post_failed e k) = 1"

definition ibv_attempt ::
  "poll_result list \<Rightarrow> int \<Rightarrow> post_result \<Rightarrow> ibv_system \<Rightarrow> (fault + ibv_system) option" where
  "ibv_attempt polls notify post sys =
     (case ibv_async_send_packets polls notify post (iv_current sys) (iv_stream sys) of
        None \<Rightarrow> None
      | Some (Inl e) \<Rightarrow> Some (Inl e)
      | Some (Inr (action, ps, s, wrs, left)) \<Rightarrow>
          let sys1 = sys\<lparr>iv_stream := s, iv_posted := iv_posted sys @ wrs,
                iv_cq := drop (length (polled_ids polls) - length (polled_ids left)) (iv_cq sys)\<rparr>
          in Some (Inr (case action of
               Retry _ \<Rightarrow> sys1
             | Handler_posted \<Rightarrow>
                 sys1\<lparr>iv_current := [],
                   iv_sent := iv_sent sys @ map (copy_packet \<circ> tp_pkt) (take (length wrs) ps),
                   iv_reported := iv_reported sys @ map (\<lambda>p. (copy_packet (tp_pkt p), tp_result p)) ps,
                   iv_failed_posts := iv_failed_posts sys + post_failures post\<rparr>)))"

fun ibv_step :: "ibv_event \<Rightarrow> ibv_system \<Rightarrow> (fault + ibv_system) option" where
  "ibv_step (Load ps) sys =
     (if iv_current sys = [] \<and> ps \<noteq> [] then Some (Inr (sys\<lparr>iv_current := ps\<rparr>)) else None)"
| "ibv_step (Attempt polls notify post) sys =
     (if iv_current sys \<noteq> [] \<and> polls_valid (iv_cq sys) polls then ibv_attempt polls notify post sys else None)"
| "ibv_step Card_sends sys =
     (case iv_posted sys of
        [] \<Rightarrow> None
      | i # posted \<Rightarrow>
          Some (Inr (sys\<lparr>iv_posted := posted, iv_cq := iv_cq sys @ [i],
            iv_wire := iv_wire sys @ [frame_of (ib_slots (iv_stream sys)) i]\<rparr>)))"

fun ibv_run :: "ibv_event list \<Rightarrow> ibv_system \<Rightarrow> (fault + ibv_system) option" where
  "ibv_run [] sys = Some (Inr sys)"
| "ibv_run (e # es) sys =
     (case ibv_step e sys of
        None \<Rightarrow> None
      | Some (Inl f) \<Rightarrow> Some (Inl f)
      | Some (Inr sys1) \<Rightarrow> ibv_run es sys1)"

text \<open>The slots that nobody has any more.\<close>

definition slots_lost :: "ibv_system \<Rightarrow> nat list" where
  "slots_lost sys =
     filter (\<lambda>i. i \<notin> set (ib_available (iv_stream sys) @ iv_posted sys @ iv_cq sys)) [0..<ib_n_slots (iv_stream sys)]"

section \<open>Reaping\<close>

lemma polled_ids_append [simp]: "polled_ids (ps @ qs) = polled_ids ps @ polled_ids qs"
  by (induction ps rule: polled_ids.induct) simp_all

lemma reap_batch_ok:
  "set (map fst wcs) \<subseteq> {..<length (ib_slots s)} \<Longrightarrow>
   reap_batch wcs s = (None, s\<lparr>ib_available := ib_available s @ map fst wcs\<rparr>)"
  by (induction wcs s rule: reap_batch.induct) auto

lemma polls_valid_iff:
  "polls_valid cq polls \<longleftrightarrow> (\<exists>rest. cq = polled_ids polls @ rest) \<and> list_all batch_fits polls"
  unfolding polls_valid_def by (metis append_eq_conv_conj append_take_drop_id)

text \<open>The polls from \<open>polls\<close> to \<open>left\<close> have moved completions from the front of the queue to the available slots.\<close>

definition reaped ::
  "nat list \<Rightarrow> poll_result list \<Rightarrow> ibv_stream \<Rightarrow> nat list \<Rightarrow> ibv_stream \<Rightarrow> poll_result list \<Rightarrow> bool" where
  "reaped cq polls s cq1 s1 left \<longleftrightarrow>
     (\<exists>ids. polled_ids polls = ids @ polled_ids left \<and> cq = ids @ cq1 \<and>
        s1 = s\<lparr>ib_available := ib_available s @ ids\<rparr> \<and> polls_valid cq1 left)"

lemma reaped_refl: "polls_valid cq polls \<Longrightarrow> reaped cq polls s cq s polls"
  by (simp add: reaped_def)

lemma reaped_trans: "reaped cq polls s cq1 s1 polls1 \<Longrightarrow> reaped cq1 polls1 s1 cq2 s2 polls2 \<Longrightarrow> reaped cq polls s cq2 s2 polls2"
  unfolding reaped_def by fastforce

lemma reaped_facts:
  assumes "reaped cq polls s cq1 s1 left"
  shows "ib_slots s1 = ib_slots s" "ib_n_slots s1 = ib_n_slots s" "ib_max_poll s1 = ib_max_poll s"
    "ib_comp_channel s1 = ib_comp_channel s" "polls_valid cq1 left" "set cq1 \<subseteq> set cq"
    "drop (length (polled_ids polls) - length (polled_ids left)) cq = cq1"
    "\<exists>ids. cq = ids @ cq1 \<and> ib_available s1 = ib_available s @ ids"
  using assms by (auto simp: reaped_def)

lemma reaped_skip:
  assumes "polls_valid cq (p # polls)" "polled_ids (p # polls) = polled_ids polls"
  shows "reaped cq (p # polls) s cq s polls"
  using assms by (simp add: reaped_def polls_valid_def)

lemma reaped_batch:
  assumes "polls_valid cq (Polled wcs # polls)"
  obtains cq1 where "reaped cq (Polled wcs # polls) s cq1 (s\<lparr>ib_available := ib_available s @ map fst wcs\<rparr>) polls"
    "cq = map fst wcs @ cq1"
proof -
  obtain rest where "cq = map fst wcs @ polled_ids polls @ rest" using assms by (auto simp: polls_valid_iff)
  then show ?thesis using assms by (intro that [of "polled_ids polls @ rest"]) (auto simp: reaped_def polls_valid_iff)
qed

text \<open>The loops over polls end with an error of a poll, never with a fault.\<close>

lemma reap_ok:
  assumes "reap polls s = Some (e, s1, left)" "polls_valid cq polls" "set cq \<subseteq> {..<length (ib_slots s)}"
  shows "(\<exists>cq1. reaped cq polls s cq1 s1 left) \<and> (\<forall>f. e \<noteq> Some (Escapes f))"
  using assms
proof (induction polls s arbitrary: cq rule: reap.induct)
  case (2 x polls s)
  then show ?case using reaped_skip [OF 2(2)] by auto
next
  case (3 wcs polls s)
  show ?case
  proof (cases "wcs = []")
    case True
    with 3 show ?thesis using reaped_skip [OF 3(3)] by auto
  next
    case False
    let ?s = "s\<lparr>ib_available := ib_available s @ map fst wcs\<rparr>"
    obtain cq1 where cq1: "reaped cq (Polled wcs # polls) s cq1 ?s polls" "cq = map fst wcs @ cq1"
      using reaped_batch [OF 3(3)] .
    have rb: "reap_batch wcs s = (None, ?s)" using cq1(2) 3(4) by (intro reap_batch_ok) simp
    have "reap polls ?s = Some (e, s1, left)" using 3(2) False rb by simp
    then have "(\<exists>cq2. reaped cq1 polls ?s cq2 s1 left) \<and> (\<forall>f. e \<noteq> Some (Escapes f))"
      using 3(1) [OF False, of None ?s cq1] rb reaped_facts(5) [OF cq1(1)] 3(4) cq1(2) by simp
    with reaped_trans [OF cq1(1)] show ?thesis by blast
  qed
qed simp

lemma make_space_loop_ok:
  assumes "make_space_loop k n polls s = Some (r, s1, left)" "polls_valid cq polls" "set cq \<subseteq> {..<length (ib_slots s)}"
  shows "(\<exists>cq1. reaped cq polls s cq1 s1 left) \<and> (\<forall>f. r \<noteq> Inl (Escapes f)) \<and>
    (r = Inr True \<longrightarrow> n \<le> length (ib_available s1))"
  using assms
proof (induction k arbitrary: polls s cq)
  case 0
  then show ?case using reaped_refl [OF 0(2), of s] by auto
next
  case (Suc k)
  then obtain e s2 polls2 where r: "reap polls s = Some (e, s2, polls2)" by (auto split: option.splits)
  obtain cq2 where step: "reaped cq polls s cq2 s2 polls2" "\<forall>f. e \<noteq> Some (Escapes f)"
    using reap_ok [OF r Suc.prems(2,3)] by blast
  show ?case
  proof (cases "e = None \<and> \<not> n \<le> length (ib_available s2)")
    case False
    with Suc.prems(1) r step show ?thesis by (cases e) (auto split: if_splits)
  next
    case True
    note f = reaped_facts [OF step(1)]
    have "make_space_loop k n polls2 s2 = Some (r, s1, left)" using Suc.prems(1) r True by simp
    with Suc.IH [of polls2 s2 cq2] f Suc.prems(3) have "(\<exists>cq1. reaped cq2 polls2 s2 cq1 s1 left) \<and>
      (\<forall>f. r \<noteq> Inl (Escapes f)) \<and> (r = Inr True \<longrightarrow> n \<le> length (ib_available s1))" by simp
    with reaped_trans [OF step(1)] show ?thesis by blast
  qed
qed

lemma make_space_ok:
  assumes "make_space n polls notify s = Some (r, s1, left)" "polls_valid cq polls" "set cq \<subseteq> {..<length (ib_slots s)}"
  shows "(\<exists>cq1. reaped cq polls s cq1 s1 left) \<and> (\<forall>f. r \<noteq> Inl (Escapes f)) \<and>
    (r = Inr Space \<longrightarrow> n \<le> length (ib_available s1))"
proof -
  obtain r1 s2 polls2 where l: "make_space_loop (nat (ib_max_poll s)) n polls s = Some (r1, s2, polls2)"
    using assms(1) by (auto simp: make_space_def split: option.splits)
  obtain cq2 where step: "reaped cq polls s cq2 s2 polls2" "\<forall>f. r1 \<noteq> Inl (Escapes f)"
      "r1 = Inr True \<longrightarrow> n \<le> length (ib_available s2)"
    using make_space_loop_ok [OF l assms(2,3)] by blast
  note f = reaped_facts [OF step(1)]
  show ?thesis
  proof (cases "r1 = Inr False \<and> ib_comp_channel s2 \<and> notify = 0")
    case False
    with assms(1) l step show ?thesis
      by (cases r1) (auto simp: make_space_def split: bool.splits if_splits)
  next
    case True
    then obtain e s3 polls3 where r3: "reap polls2 s2 = Some (e, s3, polls3)"
      using assms(1) l by (auto simp: make_space_def split: option.splits)
    have "(\<exists>cq3. reaped cq2 polls2 s2 cq3 s3 polls3) \<and> (\<forall>f. e \<noteq> Some (Escapes f))"
      using reap_ok [OF r3 f(5)] f(1,6) assms(3) by simp
    with reaped_trans [OF step(1)] have e: "\<exists>cq3. reaped cq polls s cq3 s3 polls3" "\<forall>f. e \<noteq> Some (Escapes f)" by blast+
    show ?thesis
    proof (cases e)
      case None
      with True l r3 assms(1) e(1) show ?thesis by (auto simp: make_space_def split: if_splits)
    next
      case (Some err)
      with True l r3 assms(1) e show ?thesis by (auto simp: make_space_def)
    qed
  qed
qed

section \<open>Filling the slots\<close>

text \<open>The work requests of \<open>is\<close> are linked in this order.\<close>

fun linked :: "ibv_slot list \<Rightarrow> nat list \<Rightarrow> bool" where
  "linked slots [] \<longleftrightarrow> True"
| "linked slots [i] \<longleftrightarrow> sl_wr_next (slots ! i) = None"
| "linked slots (i # j # is) \<longleftrightarrow> sl_wr_next (slots ! i) = Some j \<and> linked slots (j # is)"

lemma wr_chain_linked: "linked slots (i # is) \<Longrightarrow> length (i # is) \<le> k \<Longrightarrow> wr_chain k slots (Some i) = i # is"
proof (induction "is" arbitrary: i k)
  case Nil
  then obtain k1 where "k = Suc k1" by (cases k) auto
  with Nil show ?case by (cases k1) simp_all
next
  case (Cons j js)
  then show ?case by (cases k) simp_all
qed

definition slots_ready :: "frame_config \<Rightarrow> ibv_slot list \<Rightarrow> bool" where
  "slots_ready c slots \<longleftrightarrow> (\<forall>x \<in> set slots. frame_ready c (sl_frame x))"

definition packets_fit :: "frame_config \<Rightarrow> transmit_packet list \<Rightarrow> bool" where
  "packets_fit c ps \<longleftrightarrow> (\<forall>p \<in> set ps. length (copy_packet (tp_pkt p)) \<le> fc_max_packet_size c)"

lemma slots_ready_update:
  "slots_ready c slots \<Longrightarrow> frame_ready c (sl_frame x) \<Longrightarrow> slots_ready c (slots[i := x])"
  using set_update_subset_insert [of slots i x] by (auto simp: slots_ready_def)

abbreviation carries :: "ibv_slot list \<Rightarrow> transmit_packet \<Rightarrow> nat \<Rightarrow> bool" where
  "carries slots p i \<equiv> frame_carries (copy_packet (tp_pkt p)) (frame_of slots i)"

text \<open>The first turn of the loop, whatever \<^verbatim>\<open>prev\<close> is.\<close>

lemma fill_slot:
  assumes c: "wf_config c" and fit: "length q \<le> fc_max_packet_size c" and ready: "slots_ready c slots" and i: "i < length slots"
  obtains m n where "fill_frame q (sl_frame (slots ! i)) = Inr (m, n)" "frame_ready c m" "frame_carries q (m, n)"
proof -
  have "frame_ready c (sl_frame (slots ! i))" using ready i by (simp add: slots_ready_def)
  from fill_frame_ok [OF c this fit] that show ?thesis by blast
qed

text \<open>The rest of the loop, after a packet has been put into the slot \<open>j\<close>.\<close>

lemma fill_loop_rest:
  assumes c: "wf_config c" and "packets_fit c ps" "slots_ready c (ib_slots s)" "ib_available s = av @ rev is"
    "length is = length ps" "distinct (j # av @ is)" "set (j # av @ is) \<subseteq> {..<length (ib_slots s)}"
    "sl_wr_next (ib_slots s ! j) = None"
  shows "\<exists>slots. fill_loop ps (Some j) first s = (Inr first, s\<lparr>ib_slots := slots, ib_available := av\<rparr>) \<and>
    length slots = length (ib_slots s) \<and> slots_ready c slots \<and> linked slots (j # is) \<and>
    list_all2 (carries slots) ps is \<and> frame_of slots j = frame_of (ib_slots s) j \<and>
    (\<forall>k. k \<notin> set (j # is) \<longrightarrow> slots ! k = ib_slots s ! k)"
  using assms(2-)
proof (induction ps arbitrary: s j "is")
  case Nil
  then show ?case by (intro exI [of _ "ib_slots s"]) auto
next
  case (Cons p ps)
  obtain i is' where "is": "is = i # is'" using Cons.prems(4) by (cases "is") auto
  let ?q = "copy_packet (tp_pkt p)"
  have i: "i < length (ib_slots s)" "i \<noteq> j" "j < length (ib_slots s)" using Cons.prems(5,6) "is" by auto
  have "length ?q \<le> fc_max_packet_size c" using Cons.prems(1) by (simp add: packets_fit_def)
  then obtain m n where m: "fill_frame ?q (sl_frame (ib_slots s ! i)) = Inr (m, n)" "frame_ready c m" "frame_carries ?q (m, n)"
    by (rule fill_slot [OF c _ Cons.prems(2) i(1)])
  let ?x = "\<lparr>sl_frame = m, sl_sge_length = n, sl_wr_next = None\<rparr>"
  let ?slots = "(ib_slots s)[i := ?x, j := (ib_slots s ! j)\<lparr>sl_wr_next := Some i\<rparr>]"
  let ?s = "s\<lparr>ib_available := av @ rev is', ib_slots := ?slots\<rparr>"
  have turn: "fill_loop (p # ps) (Some j) first s = fill_loop ps (Some i) first ?s"
    using i m(1) Cons.prems(3) by (simp add: "is" Let_def butlast_append nth_list_update)
  have "frame_ready c (sl_frame (ib_slots s ! j))" using Cons.prems(2) i(3) by (simp add: slots_ready_def)
  then have ready: "slots_ready c ?slots" using m(2) by (intro slots_ready_update Cons.prems(2)) simp_all
  have "\<exists>slots. fill_loop ps (Some i) first ?s = (Inr first, ?s\<lparr>ib_slots := slots, ib_available := av\<rparr>) \<and>
    length slots = length (ib_slots ?s) \<and> slots_ready c slots \<and> linked slots (i # is') \<and>
    list_all2 (carries slots) ps is' \<and> frame_of slots i = frame_of (ib_slots ?s) i \<and>
    (\<forall>k. k \<notin> set (i # is') \<longrightarrow> slots ! k = ib_slots ?s ! k)"
    using Cons.prems i ready unfolding "is"
    by (intro Cons.IH) (auto simp: packets_fit_def nth_list_update)
  then obtain slots where slots: "fill_loop ps (Some i) first ?s = (Inr first, ?s\<lparr>ib_slots := slots, ib_available := av\<rparr>)"
    "length slots = length (ib_slots ?s)" "slots_ready c slots" "linked slots (i # is')" "list_all2 (carries slots) ps is'"
    "frame_of slots i = frame_of (ib_slots ?s) i" "\<forall>k. k \<notin> set (i # is') \<longrightarrow> slots ! k = ib_slots ?s ! k" by blast
  have j: "j \<notin> set (i # is')" using Cons.prems(5) "is" by auto
  have fi: "frame_of slots i = (m, n)" using slots(6) i by (simp add: frame_of_def nth_list_update)
  have fj: "slots ! j = (ib_slots s ! j)\<lparr>sl_wr_next := Some i\<rparr>" using slots(7) j i by (simp add: nth_list_update)
  have other: "slots ! k = ib_slots s ! k" if "k \<notin> set (j # is)" for k
    using slots(7) that "is" by (simp add: nth_list_update)
  show ?case
    using slots turn fi fj other m(3) unfolding "is"
    by (intro exI [of _ slots]) (simp add: frame_of_def)
qed

text \<open>The slots are taken from the back of the list, so the chain is the end of the list reversed.\<close>

lemma fill_loop_ok:
  assumes c: "wf_config c" and fit: "packets_fit c ps" and ready: "slots_ready c (ib_slots s)"
    and av: "ps \<noteq> []" "length ps \<le> length (ib_available s)" "distinct (ib_available s)"
      "set (ib_available s) \<subseteq> {..<length (ib_slots s)}"
  obtains "is" av' slots where "ib_available s = av' @ rev is" "length is = length ps" "is \<noteq> []"
    "fill_loop ps None None s = (Inr (Some (hd is)), s\<lparr>ib_slots := slots, ib_available := av'\<rparr>)"
    "length slots = length (ib_slots s)" "slots_ready c slots" "linked slots is" "list_all2 (carries slots) ps is"
    "\<forall>k. k \<notin> set is \<longrightarrow> slots ! k = ib_slots s ! k"
proof -
  obtain p ps' where ps: "ps = p # ps'" using av(1) by (cases ps) auto
  define av' where "av' = take (length (ib_available s) - length ps) (ib_available s)"
  define "is" where "is = rev (drop (length (ib_available s) - length ps) (ib_available s))"
  have split: "ib_available s = av' @ rev is" "length is = length ps" using av(2) by (simp_all add: av'_def is_def)
  obtain i is' where i: "is = i # is'" using split(2) ps by (cases "is") auto
  have dist: "distinct (i # av' @ is')" "set (i # av' @ is') \<subseteq> {..<length (ib_slots s)}" "length is' = length ps'"
    using av(3,4) split i ps by auto
  let ?q = "copy_packet (tp_pkt p)"
  have "length ?q \<le> fc_max_packet_size c" "i < length (ib_slots s)" using fit dist(2) ps by (simp_all add: packets_fit_def)
  then obtain m n where m: "fill_frame ?q (sl_frame (ib_slots s ! i)) = Inr (m, n)" "frame_ready c m" "frame_carries ?q (m, n)"
    using fill_slot [OF c _ ready] by blast
  let ?x = "\<lparr>sl_frame = m, sl_sge_length = n, sl_wr_next = None\<rparr>"
  let ?s = "s\<lparr>ib_available := av' @ rev is', ib_slots := (ib_slots s)[i := ?x]\<rparr>"
  have turn: "fill_loop ps None None s = fill_loop ps' (Some i) (Some i) ?s"
    using m(1) dist split by (simp add: ps i Let_def butlast_append)
  have "slots_ready c (ib_slots ?s)" using m(2) by (simp add: slots_ready_update ready)
  moreover have "packets_fit c ps'" using fit ps by (simp add: packets_fit_def)
  moreover have "sl_wr_next (ib_slots ?s ! i) = None" "frame_of (ib_slots ?s) i = (m, n)" using dist(2) by (simp_all add: frame_of_def)
  ultimately obtain slots where "fill_loop ps' (Some i) (Some i) ?s = (Inr (Some i), ?s\<lparr>ib_slots := slots, ib_available := av'\<rparr>)"
    "length slots = length (ib_slots ?s)" "slots_ready c slots" "linked slots (i # is')" "list_all2 (carries slots) ps' is'"
    "frame_of slots i = (m, n)" "\<forall>k. k \<notin> set (i # is') \<longrightarrow> slots ! k = ib_slots ?s ! k"
    using fill_loop_rest [OF c, of ps' ?s av' is' i "Some i"] dist by auto
  then show ?thesis using turn split m(3) by (intro that [of av' "is" slots]) (auto simp: i ps)
qed

section \<open>The invariant\<close>

definition slots_used :: "ibv_system \<Rightarrow> nat list" where
  "slots_used sys = ib_available (iv_stream sys) @ iv_posted sys @ iv_cq sys"

definition reported_sent :: "ibv_system \<Rightarrow> byte list list" where
  "reported_sent sys = map fst (filter (\<lambda>(p, ec). ec = Success) (iv_reported sys))"

definition ibv_inv :: "frame_config \<Rightarrow> nat \<Rightarrow> ibv_system \<Rightarrow> bool" where
  "ibv_inv c n sys \<longleftrightarrow>
     distinct (slots_used sys) \<and> set (slots_used sys) \<subseteq> {..<n} \<and>
     ib_n_slots (iv_stream sys) = n \<and> length (ib_slots (iv_stream sys)) = n \<and> slots_ready c (ib_slots (iv_stream sys)) \<and>
     packets_fit c (iv_current sys) \<and>
     list_all2 frame_carries (iv_sent sys) (iv_wire sys @ map (frame_of (ib_slots (iv_stream sys))) (iv_posted sys)) \<and>
     subseq (reported_sent sys) (iv_sent sys) \<and>
     (iv_failed_posts sys = 0 \<longrightarrow> set (slots_used sys) = {..<n} \<and> reported_sent sys = iv_sent sys)"

fun event_fits :: "frame_config \<Rightarrow> ibv_event \<Rightarrow> bool" where
  "event_fits c (Load ps) \<longleftrightarrow> packets_fit c ps"
| "event_fits c (Attempt polls notify post) \<longleftrightarrow> True"
| "event_fits c Card_sends \<longleftrightarrow> True"

lemma reported_sent_snoc:
  "reported_sent (sys\<lparr>iv_reported := iv_reported sys @ map (\<lambda>p. (copy_packet (tp_pkt p), tp_result p)) (set_all_results ec ps)\<rparr>) =
     reported_sent sys @ (if ec = Success then map (copy_packet \<circ> tp_pkt) ps else [])"
  by (induction ps) (auto simp: reported_sent_def set_all_results_def)

text \<open>A call that finds space posts the packets, in order.\<close>

lemma ibv_async_space:
  assumes m: "make_space (length ps) polls notify s = Some (Inr Space, s1, left)"
    and c: "wf_config c" and fit: "packets_fit c ps" "ps \<noteq> []" and ready: "slots_ready c (ib_slots s1)"
    and av: "length ps \<le> length (ib_available s1)" "distinct (ib_available s1)" "set (ib_available s1) \<subseteq> {..<length (ib_slots s1)}"
  obtains av' wrs slots where
    "ibv_async_send_packets polls notify post ps s =
       Some (Inr (Handler_posted, set_all_results (case post of Posted \<Rightarrow> Success | Post_failed e k \<Rightarrow> Other_error e) ps,
         s1\<lparr>ib_slots := slots, ib_available := av'\<rparr>, accepted_by post wrs, left))"
    "ib_available s1 = av' @ rev wrs" "length wrs = length ps" "length slots = length (ib_slots s1)"
    "slots_ready c slots" "list_all2 (carries slots) ps wrs" "\<forall>k. k \<notin> set wrs \<longrightarrow> slots ! k = ib_slots s1 ! k"
proof -
  obtain wrs av' slots where l: "ib_available s1 = av' @ rev wrs" "length wrs = length ps" "wrs \<noteq> []"
      "fill_loop ps None None s1 = (Inr (Some (hd wrs)), s1\<lparr>ib_slots := slots, ib_available := av'\<rparr>)"
      "length slots = length (ib_slots s1)" "slots_ready c slots" "linked slots wrs" "list_all2 (carries slots) ps wrs"
      "\<forall>k. k \<notin> set wrs \<longrightarrow> slots ! k = ib_slots s1 ! k"
    by (rule fill_loop_ok [OF c fit(1) ready fit(2) av])
  have "distinct wrs" "set wrs \<subseteq> {..<length slots}" using l(1,5) av(2,3) by auto
  then have len: "length wrs \<le> length slots" by (metis card_lessThan card_mono distinct_card finite_lessThan)
  have chain: "wr_chain (length slots) slots (Some (hd wrs)) = wrs"
    using wr_chain_linked [of slots "hd wrs" "tl wrs" "length slots"] l(3,7) len by simp
  have run: "ibv_async_send_packets polls notify post ps s =
      Some (Inr (Handler_posted, set_all_results (case post of Posted \<Rightarrow> Success | Post_failed e k \<Rightarrow> Other_error e) ps,
        s1\<lparr>ib_slots := slots, ib_available := av'\<rparr>, accepted_by post wrs, left))"
    using m l chain by (simp add: ibv_async_send_packets_def Let_def)
  from that [OF run l(1,2,5,6,8,9)] show ?thesis .
qed

text \<open>What a call that is about to return has done, case by case.\<close>

lemma ibv_async_cases:
  assumes run: "ibv_async_send_packets polls notify post ps s = Some r"
    and c: "wf_config c" and fit: "packets_fit c ps" "ps \<noteq> []" and ready: "slots_ready c (ib_slots s)"
    and used: "distinct (ib_available s @ cq)" "set (ib_available s @ cq) \<subseteq> {..<length (ib_slots s)}"
    and polls: "polls_valid cq polls"
  obtains
    (retry) s1 cq1 left a where "r = Inr (Retry a, ps, s1, [], left)" "reaped cq polls s cq1 s1 left"
  | (failed) s1 cq1 left e where "r = Inr (Handler_posted, set_all_results (Other_error e) ps, s1, [], left)"
      "reaped cq polls s cq1 s1 left"
  | (sent) s1 cq1 left av wrs slots where
      "r = Inr (Handler_posted, set_all_results (case post of Posted \<Rightarrow> Success | Post_failed e k \<Rightarrow> Other_error e) ps,
         s1\<lparr>ib_slots := slots, ib_available := av\<rparr>, accepted_by post wrs, left)"
      "reaped cq polls s cq1 s1 left" "ib_available s1 = av @ rev wrs" "length wrs = length ps" "length slots = length (ib_slots s)"
      "slots_ready c slots" "list_all2 (carries slots) ps wrs" "\<forall>k. k \<notin> set wrs \<longrightarrow> slots ! k = ib_slots s ! k"
proof -
  obtain r1 s1 left where m: "make_space (length ps) polls notify s = Some (r1, s1, left)"
    using run by (auto simp: ibv_async_send_packets_def split: option.splits)
  obtain cq1 where m1: "reaped cq polls s cq1 s1 left" "\<forall>f. r1 \<noteq> Inl (Escapes f)" "r1 = Inr Space \<longrightarrow> length ps \<le> length (ib_available s1)"
    using make_space_ok [OF m polls] used by auto
  consider e where "r1 = Inl (System_error e)" | "r1 = Inr Space" | a where "r1 = Inr a" "a \<noteq> Space"
    using m1(2) by (cases r1) (auto intro: ibv_error.exhaust)
  then show ?thesis
  proof cases
    case 1
    with m run m1 show ?thesis by (intro failed [of e s1 left cq1]) (simp_all add: ibv_async_send_packets_def)
  next
    case 3
    with m run m1 show ?thesis by (intro retry [of a s1 left cq1]) (auto simp: ibv_async_send_packets_def split: space.splits)
  next
    case 2
    obtain ids where ids: "cq = ids @ cq1" "ib_available s1 = ib_available s @ ids" using reaped_facts(8) [OF m1(1)] by blast
    note f = reaped_facts [OF m1(1)]
    have "distinct (ib_available s1)" "set (ib_available s1) \<subseteq> {..<length (ib_slots s1)}" "slots_ready c (ib_slots s1)"
      using used ids ready f(1) by auto
    moreover have "length ps \<le> length (ib_available s1)" using m1(3) 2 by simp
    ultimately obtain av wrs slots where l: "ibv_async_send_packets polls notify post ps s =
        Some (Inr (Handler_posted, set_all_results (case post of Posted \<Rightarrow> Success | Post_failed e k \<Rightarrow> Other_error e) ps,
          s1\<lparr>ib_slots := slots, ib_available := av\<rparr>, accepted_by post wrs, left))"
        "ib_available s1 = av @ rev wrs" "length wrs = length ps" "length slots = length (ib_slots s1)"
        "slots_ready c slots" "list_all2 (carries slots) ps wrs" "\<forall>k. k \<notin> set wrs \<longrightarrow> slots ! k = ib_slots s1 ! k"
      using ibv_async_space [OF m [unfolded 2] c fit] by metis
    have "r = Inr (Handler_posted, set_all_results (case post of Posted \<Rightarrow> Success | Post_failed e k \<Rightarrow> Other_error e) ps,
        s1\<lparr>ib_slots := slots, ib_available := av\<rparr>, accepted_by post wrs, left)"
      using run l(1) by simp
    from sent [OF this m1(1) l(2,3) l(4,5,6,7) [unfolded f(1)]] show ?thesis .
  qed
qed

lemma frames_unchanged:
  assumes "\<forall>k. k \<notin> set is \<longrightarrow> slots ! k = slots0 ! k" "set is \<inter> set js = {}"
  shows "map (frame_of slots) js = map (frame_of slots0) js"
  using assms by (auto simp: frame_of_def)

lemma accepted_prefix:
  obtains k where "accepted_by post wrs = take k wrs" "post = Posted \<Longrightarrow> take k wrs = wrs"
  by (cases post) (auto intro: that [of "length wrs"])

text \<open>The frames of the requests that were accepted, after those that were posted before.\<close>

lemma sent_frames:
  assumes "list_all2 frame_carries sent (wire @ map (frame_of slots0) posted)"
    and "\<forall>k. k \<notin> set wrs \<longrightarrow> slots ! k = slots0 ! k" "set wrs \<inter> set posted = {}" "list_all2 (carries slots) ps wrs"
  shows "list_all2 frame_carries (sent @ map (copy_packet \<circ> tp_pkt) (take k ps))
    (wire @ map (frame_of slots) (posted @ take k wrs))"
proof -
  have "list_all2 (carries slots) (take k ps) (take k wrs)" using assms(4) by (rule list_all2_takeI)
  then have "list_all2 frame_carries (map (copy_packet \<circ> tp_pkt) (take k ps)) (map (frame_of slots) (take k wrs))"
    by (simp add: list_all2_map1 list_all2_map2)
  with assms(1) show ?thesis
    unfolding map_append frames_unchanged [OF assms(2,3)] append_assoc [symmetric] by (rule list_all2_appendI)
qed

lemma ibv_attempt_inv:
  assumes inv: "ibv_inv c n sys" and c: "wf_config c" and cur: "iv_current sys \<noteq> []" and polls: "polls_valid (iv_cq sys) polls"
    and r: "ibv_attempt polls notify post sys = Some r"
  shows "\<exists>sys1. r = Inr sys1 \<and> ibv_inv c n sys1 \<and> set (slots_used sys1) \<subseteq> set (slots_used sys)"
proof -
  let ?s = "iv_stream sys" and ?cq = "iv_cq sys" and ?ps = "iv_current sys"
  note I = inv [unfolded ibv_inv_def slots_used_def]
  have used: "distinct (ib_available ?s @ ?cq)" "set (ib_available ?s @ ?cq) \<subseteq> {..<length (ib_slots ?s)}"
      and fit: "packets_fit c ?ps" and ready: "slots_ready c (ib_slots ?s)" using I by auto
  obtain r1 where run: "ibv_async_send_packets polls notify post ?ps ?s = Some r1"
    using r by (auto simp: ibv_attempt_def split: option.splits)
  show ?thesis
  proof (cases rule: ibv_async_cases [OF run c fit cur ready used polls])
    case retry: (1 s1 cq1 left a)
    note f = reaped_facts [OF retry(2)]
    obtain ids where ids: "?cq = ids @ cq1" "ib_available s1 = ib_available ?s @ ids" using f(8) by blast
    let ?sys = "sys\<lparr>iv_stream := s1, iv_posted := iv_posted sys, iv_cq := cq1\<rparr>"
    have "r = Inr ?sys" using r run retry(1) f(7) by (simp add: ibv_attempt_def)
    moreover have "ibv_inv c n ?sys"
      unfolding ibv_inv_def slots_used_def reported_sent_def using I ids f(1,2) by (auto simp: reported_sent_def)
    moreover have "set (slots_used ?sys) \<subseteq> set (slots_used sys)" using ids by (auto simp: slots_used_def)
    ultimately show ?thesis by blast
  next
    case failed: (2 s1 cq1 left e)
    note f = reaped_facts [OF failed(2)]
    obtain ids where ids: "?cq = ids @ cq1" "ib_available s1 = ib_available ?s @ ids" using f(8) by blast
    let ?rep = "iv_reported sys @ map (\<lambda>p. (copy_packet (tp_pkt p), tp_result p)) (set_all_results (Other_error e) ?ps)"
    let ?sys = "sys\<lparr>iv_stream := s1, iv_cq := cq1, iv_current := [], iv_reported := ?rep,
      iv_failed_posts := iv_failed_posts sys + post_failures post\<rparr>"
    have "r = Inr ?sys" using r run failed(1) f(7) cur by (simp add: ibv_attempt_def set_all_results_def)
    moreover have "reported_sent ?sys = reported_sent sys"
      using reported_sent_snoc [of sys "Other_error e" ?ps] by (simp add: reported_sent_def)
    moreover have "packets_fit c []" by (simp add: packets_fit_def)
    ultimately have "r = Inr ?sys" "ibv_inv c n ?sys" unfolding ibv_inv_def slots_used_def using I ids f(1,2) by auto
    moreover have "set (slots_used ?sys) \<subseteq> set (slots_used sys)" using ids by (auto simp: slots_used_def)
    ultimately show ?thesis by blast
  next
    case sent: (3 s1 cq1 left av wrs slots)
    note f = reaped_facts [OF sent(2)]
    obtain ids where ids: "?cq = ids @ cq1" "ib_available s1 = ib_available ?s @ ids" using f(8) by blast
    obtain k where k: "accepted_by post wrs = take k wrs" "post = Posted \<longrightarrow> take k wrs = wrs" using accepted_prefix by metis
    define ec where "ec = (case post of Posted \<Rightarrow> Success | Post_failed e k \<Rightarrow> Other_error e)"
    let ?rep = "iv_reported sys @ map (\<lambda>p. (copy_packet (tp_pkt p), tp_result p)) (set_all_results ec ?ps)"
    let ?sys = "sys\<lparr>iv_stream := s1\<lparr>ib_slots := slots, ib_available := av\<rparr>, iv_posted := iv_posted sys @ take k wrs, iv_cq := cq1,
      iv_current := [], iv_sent := iv_sent sys @ map (copy_packet \<circ> tp_pkt) (take k ?ps), iv_reported := ?rep,
      iv_failed_posts := iv_failed_posts sys + post_failures post\<rparr>"
    have "take (length (take k wrs)) ?ps = take k ?ps" using sent(4) by (simp add: min_def)
    then have r: "r = Inr ?sys" using r run sent(1) f(7) k(1)
      by (simp add: ibv_attempt_def set_all_results_def take_map ec_def comp_def)
    have avs: "av @ rev wrs = ib_available ?s @ ids" using sent(3) ids(2) by simp
    then have all: "set av \<union> set wrs = set (ib_available ?s) \<union> set ids" "distinct (av @ wrs) = distinct (ib_available ?s @ ids)"
      by (metis set_append set_rev, metis distinct_append distinct_rev set_rev)
    then have d: "distinct (av @ wrs @ iv_posted sys @ cq1)" using I ids(1) by auto
    have tk: "set (take k wrs) \<subseteq> set wrs" by (rule set_take_subset)
    have sub: "set (slots_used ?sys) \<subseteq> set (slots_used sys)" using all(1) ids(1) tk by (auto simp: slots_used_def)
    moreover have "distinct (slots_used ?sys)" using d tk by (auto simp: slots_used_def)
    moreover have "list_all2 frame_carries (iv_sent ?sys)
        (iv_wire ?sys @ map (frame_of (ib_slots (iv_stream ?sys))) (iv_posted ?sys))"
    proof -
      have "list_all2 frame_carries (iv_sent sys) (iv_wire sys @ map (frame_of (ib_slots ?s)) (iv_posted sys))"
          "set wrs \<inter> set (iv_posted sys) = {}" using I d by auto
      from sent_frames [OF this(1) sent(8) this(2) sent(7), of k] show ?thesis by simp
    qed
    moreover have rep: "reported_sent ?sys = reported_sent sys @ (if ec = Success then map (copy_packet \<circ> tp_pkt) ?ps else [])"
      using reported_sent_snoc [of sys ec ?ps] by (simp add: reported_sent_def)
    moreover have pk: "post = Posted" "take k ?ps = ?ps" if "ec = Success"
    proof -
      show "post = Posted" using that by (cases post) (simp_all add: ec_def)
      then have "length (take k wrs) = length wrs" using k(2) by simp
      then show "take k ?ps = ?ps" using sent(4) by simp
    qed
    moreover have "subseq (reported_sent ?sys) (iv_sent ?sys)"
      using rep pk I by (auto intro: list_emb_append_mono subseq_rev_drop_many)
    moreover have "set (slots_used ?sys) = {..<n}" "reported_sent ?sys = iv_sent ?sys" if "iv_failed_posts ?sys = 0"
    proof -
      have z: "iv_failed_posts sys = 0" "post = Posted" using that by (cases post; simp)+
      then have "take k wrs = wrs" "ec = Success" using k(2) by (simp_all add: ec_def)
      then show "set (slots_used ?sys) = {..<n}" "reported_sent ?sys = iv_sent ?sys"
        using I z(1) rep pk(2) all(1) ids(1) by (auto simp: slots_used_def)
    qed
    ultimately have "ibv_inv c n ?sys"
      unfolding ibv_inv_def using I sent(5,6) f(2) by (auto simp: slots_used_def packets_fit_def)
    with r sub show ?thesis by blast
  qed
qed

lemma ibv_step_inv:
  assumes inv: "ibv_inv c n sys" and c: "wf_config c" and fits: "event_fits c e" and r: "ibv_step e sys = Some r"
  shows "\<exists>sys1. r = Inr sys1 \<and> ibv_inv c n sys1 \<and> set (slots_used sys1) \<subseteq> set (slots_used sys)"
proof (cases e)
  case (Load ps)
  then have "r = Inr (sys\<lparr>iv_current := ps\<rparr>)" using r by (simp split: if_splits)
  with inv fits Load show ?thesis by (auto simp: ibv_inv_def slots_used_def reported_sent_def)
next
  case (Attempt polls notify post)
  with r ibv_attempt_inv [OF inv c] show ?thesis by (simp split: if_splits)
next
  case Card_sends
  then obtain i posted where i: "iv_posted sys = i # posted" using r by (cases "iv_posted sys") simp_all
  let ?sys = "sys\<lparr>iv_posted := posted, iv_cq := iv_cq sys @ [i], iv_wire := iv_wire sys @ [frame_of (ib_slots (iv_stream sys)) i]\<rparr>"
  have "r = Inr ?sys" using r Card_sends i by simp
  moreover have "ibv_inv c n ?sys" using inv i by (auto simp: ibv_inv_def slots_used_def reported_sent_def)
  moreover have "set (slots_used ?sys) \<subseteq> set (slots_used sys)" using i by (auto simp: slots_used_def)
  ultimately show ?thesis by blast
qed

lemma ibv_run_inv:
  assumes "wf_config c" "ibv_inv c n sys" "list_all (event_fits c) es" "ibv_run es sys = Some r"
  shows "\<exists>sys1. r = Inr sys1 \<and> ibv_inv c n sys1 \<and> set (slots_used sys1) \<subseteq> set (slots_used sys)"
  using assms(2-)
proof (induction es arbitrary: sys)
  case (Cons e es)
  then obtain r1 where r1: "ibv_step e sys = Some r1" by (auto split: option.splits)
  from ibv_step_inv [OF Cons.prems(1) assms(1) _ r1] Cons.prems(2) obtain sys1 where
    s: "r1 = Inr sys1" "ibv_inv c n sys1" "set (slots_used sys1) \<subseteq> set (slots_used sys)" by auto
  with Cons.IH [of sys1] Cons.prems r1 show ?case by auto
qed auto

text \<open>The constructor.\<close>

lemma setup_slots_ok:
  assumes c: "wf_config c" and "\<forall>m \<in> set ms. length m = fc_max_packet_size c + header_length" "slots_ready c (ib_slots s)"
  shows "\<exists>slots. setup_slots c ms i s = Inr (s\<lparr>ib_slots := slots, ib_available := ib_available s @ [i..<i + length ms]\<rparr>) \<and>
    length slots = length (ib_slots s) + length ms \<and> slots_ready c slots"
  using assms(2-)
proof (induction ms arbitrary: i s)
  case (Cons m ms)
  have "length m = fc_max_packet_size c + 42" using Cons.prems(1) by (simp add: header_length_def raw_sizes)
  then obtain m1 where m1: "setup_frame c m = Inr m1" "frame_ready c m1" by (rule setup_frame_ok [OF c])
  let ?s = "s\<lparr>ib_slots := ib_slots s @ [\<lparr>sl_frame = m1, sl_sge_length = 0, sl_wr_next = None\<rparr>],
    ib_available := ib_available s @ [i]\<rparr>"
  have "slots_ready c (ib_slots ?s)" using Cons.prems(2) m1(2) by (auto simp: slots_ready_def)
  with Cons.IH [of ?s "Suc i"] Cons.prems(1) obtain slots where
    "setup_slots c ms (Suc i) ?s = Inr (?s\<lparr>ib_slots := slots, ib_available := ib_available ?s @ [Suc i..<Suc i + length ms]\<rparr>)"
    "length slots = length (ib_slots ?s) + length ms" "slots_ready c slots" by auto
  moreover have "[i..<i + length (m # ms)] = i # [Suc i..<Suc i + length ms]" by (simp add: upt_conv_Cons del: upt_Suc)
  ultimately show ?case using m1(1) by (intro exI [of _ slots]) (simp del: upt_Suc)
next
  case Nil
  then show ?case by (intro exI [of _ "ib_slots s"]) simp
qed

definition ibv_setup_ok :: "ibv_args \<Rightarrow> byte list \<Rightarrow> 16 word \<Rightarrow> byte list \<Rightarrow> bool" where
  "ibv_setup_ok a mac local_port buffer \<longleftrightarrow>
     wf_config (frame_config_of a mac local_port) \<and>
     length buffer = ibv_slots_of a * (sc_max_packet_size (ia_config a) + header_length)"

lemma slot_memory_size:
  assumes "ibv_setup_ok a mac port buffer"
  shows "\<forall>x \<in> set (map (slot_memory (sc_max_packet_size (ia_config a) + header_length) buffer) [0..<ibv_slots_of a]).
    length x = fc_max_packet_size (frame_config_of a mac port) + header_length"
proof -
  let ?raw = "sc_max_packet_size (ia_config a) + header_length"
  have "length (slot_memory ?raw buffer i) = ?raw" if "i < ibv_slots_of a" for i
  proof -
    have "(Suc i) * ?raw \<le> ibv_slots_of a * ?raw" using that by (intro mult_le_mono1) simp
    with assms show ?thesis by (simp add: slot_memory_def ibv_setup_ok_def)
  qed
  then show ?thesis by (auto simp: frame_config_of_def)
qed

lemma make_ibv_stream_inv:
  assumes s: "make_ibv_stream tests a (Inr (mac, port)) buffer = Inr s" and m: "ibv_setup_ok a mac port buffer"
  shows "ibv_inv (frame_config_of a mac port) (ibv_slots_of a) (new_ibv_system s)" "0 < ib_max_poll s"
    "ib_max_poll s = ia_max_poll a" "wf_config (frame_config_of a mac port)" "length (ib_available s) = ibv_slots_of a"
proof -
  define n where "n = ibv_slots_of a"
  define raw where "raw = sc_max_packet_size (ia_config a) + header_length"
  let ?c = "frame_config_of a mac port"
  let ?ms = "map (slot_memory raw buffer) [0..<n]"
  let ?s = "\<lparr>ib_n_slots = n, ib_slots = [], ib_available = [], ib_max_poll = ia_max_poll a, ib_comp_channel = (ia_comp_vector a \<ge> 0)\<rparr>"
  have s': "setup_slots ?c ?ms 0 ?s = Inr s" "0 < ia_max_poll a"
    using s by (auto simp: make_ibv_stream_def Let_def n_def raw_def split: if_splits)
  have mem: "\<forall>x \<in> set ?ms. length x = fc_max_packet_size ?c + header_length"
    using slot_memory_size [OF m] by (simp add: n_def raw_def)
  show c: "wf_config ?c" using m by (simp add: ibv_setup_ok_def)
  from setup_slots_ok [OF c mem, of ?s 0] s' obtain slots where
    "s = ?s\<lparr>ib_slots := slots, ib_available := [0..<n]\<rparr>" "length slots = n" "slots_ready ?c slots" by (auto simp: slots_ready_def)
  then show "ibv_inv ?c (ibv_slots_of a) (new_ibv_system s)" "0 < ib_max_poll s" "ib_max_poll s = ia_max_poll a"
      "length (ib_available s) = ibv_slots_of a"
    using s'(2) by (auto simp: ibv_inv_def new_ibv_system_def slots_used_def reported_sent_def packets_fit_def n_def)
qed

text \<open>The constructor succeeds with valid arguments.\<close>

lemma make_ibv_stream_total:
  assumes "is_v4 (ia_address a)" "is_multicast tests (ia_address a)" "is_v4 (ia_interface_address a)" "0 < ia_max_poll a"
    and m: "ibv_setup_ok a mac port buffer"
  obtains s where "make_ibv_stream tests a (Inr (mac, port)) buffer = Inr s"
proof -
  define raw where "raw = sc_max_packet_size (ia_config a) + header_length"
  let ?ms = "map (slot_memory raw buffer) [0..<ibv_slots_of a]"
  have mem: "\<forall>x \<in> set ?ms. length x = fc_max_packet_size (frame_config_of a mac port) + header_length"
    using slot_memory_size [OF m] by (simp add: raw_def)
  have c: "wf_config (frame_config_of a mac port)" using m by (simp add: ibv_setup_ok_def)
  let ?s = "\<lparr>ib_n_slots = ibv_slots_of a, ib_slots = [], ib_available = [], ib_max_poll = ia_max_poll a,
    ib_comp_channel = (ia_comp_vector a \<ge> 0)\<rparr>"
  from setup_slots_ok [OF c mem, of ?s 0] obtain s where "setup_slots (frame_config_of a mac port) ?ms 0 ?s = Inr s"
    by (auto simp: slots_ready_def)
  with assms(1-4) show ?thesis by (intro that [of s]) (simp add: make_ibv_stream_def Let_def raw_def)
qed

section \<open>The loops end\<close>

text \<open>Every poll but the last of a call of \<^verbatim>\<open>reap\<close> takes a completion.\<close>

lemma reap_length:
  "reap polls s = Some (e, s1, left) \<Longrightarrow>
   length polls + length (polled_ids left) \<le> Suc (length left + length (polled_ids polls))"
proof (induction polls s rule: reap.induct)
  case (3 wcs polls s)
  show ?case
  proof (cases "wcs = []")
    case False
    then have "0 < length wcs" by simp
    moreover obtain e1 s2 where b: "reap_batch wcs s = (e1, s2)" by fastforce
    ultimately show ?thesis using 3(1) [OF False b [symmetric]] 3(2) False by (cases e1; cases wcs) auto
  qed (use 3 in simp)
qed auto

lemma reap_returns: "length (polled_ids polls) < length polls \<Longrightarrow> reap polls s \<noteq> None"
proof (induction polls s rule: reap.induct)
  case (3 wcs polls s)
  then show ?case by (cases wcs) (auto split: prod.splits option.splits)
qed auto

lemma make_space_loop_returns:
  "length (polled_ids polls) + k \<le> length polls \<Longrightarrow>
   \<exists>r s1 left. make_space_loop k n polls s = Some (r, s1, left) \<and> (r = Inr False \<longrightarrow>
     length (polled_ids left) + length polls \<le> length left + length (polled_ids polls) + k)"
proof (induction k arbitrary: polls s)
  case (Suc k)
  obtain e s1 left where r: "reap polls s = Some (e, s1, left)"
    using reap_returns [of polls s] Suc.prems by fastforce
  note len = reap_length [OF r]
  show ?case
  proof (cases "e = None \<and> \<not> n \<le> length (ib_available s1)")
    case True
    with Suc.IH [of left s1] r len Suc.prems show ?thesis by fastforce
  next
    case False
    with r show ?thesis by (cases e) auto
  qed
qed simp

lemma make_space_returns:
  assumes "length (polled_ids polls) + nat (ib_max_poll s) < length polls"
  shows "make_space n polls notify s \<noteq> None"
proof -
  obtain r s1 left where l: "make_space_loop (nat (ib_max_poll s)) n polls s = Some (r, s1, left)"
      "r = Inr False \<longrightarrow> length (polled_ids left) + length polls \<le> length left + length (polled_ids polls) + nat (ib_max_poll s)"
    using make_space_loop_returns [of polls "nat (ib_max_poll s)" n s] assms by auto
  have "reap left s1 \<noteq> None" if "r = Inr False" using l(2) that assms by (intro reap_returns) simp
  with l(1) show ?thesis by (auto simp: make_space_def split: sum.splits bool.splits option.splits)
qed

text \<open>Polls that find completions, one after the other.\<close>

definition all_completions :: "poll_result list \<Rightarrow> bool" where
  "all_completions polls \<longleftrightarrow> (\<forall>p \<in> set polls. \<exists>wcs. p = Polled wcs \<and> wcs \<noteq> [])"

lemma reap_all:
  assumes "all_completions polls" "set (polled_ids polls) \<subseteq> {..<length (ib_slots s)}"
  shows "reap (polls @ Polled [] # left) s = Some (None, s\<lparr>ib_available := ib_available s @ polled_ids polls\<rparr>, left)"
  using assms
proof (induction polls arbitrary: s)
  case (Cons p polls)
  then obtain wcs where p: "p = Polled wcs" "wcs \<noteq> []" by (auto simp: all_completions_def)
  with Cons.prems reap_batch_ok [of wcs s] Cons.IH [of "s\<lparr>ib_available := ib_available s @ map fst wcs\<rparr>"] show ?case
    by (simp add: all_completions_def)
qed simp

lemma slots_lost_iff:
  assumes "ibv_inv c n sys"
  shows "set (slots_lost sys) = {..<n} - set (slots_used sys)" "slots_lost sys = [] \<longleftrightarrow> length (slots_used sys) = n"
proof -
  show lost: "set (slots_lost sys) = {..<n} - set (slots_used sys)"
    using assms by (auto simp: slots_lost_def slots_used_def ibv_inv_def)
  have "length (slots_used sys) = card (set (slots_used sys))" "set (slots_used sys) \<subseteq> {..<n}"
    using assms by (simp_all add: ibv_inv_def distinct_card)
  then have "length (slots_used sys) = n \<longleftrightarrow> set (slots_used sys) = {..<n}"
    by (metis card_lessThan card_subset_eq finite_lessThan)
  with lost \<open>set (slots_used sys) \<subseteq> {..<n}\<close> show "slots_lost sys = [] \<longleftrightarrow> length (slots_used sys) = n"
    by (metis Diff_eq_empty_iff set_empty2 subset_antisym)
qed

lemma reap_suffix:
  "reap polls s = Some (e, s1, left) \<Longrightarrow>
   set left \<subseteq> set polls \<and> (\<forall>x. e = Some (System_error x) \<longrightarrow> Poll_failed x \<in> set polls \<or> (\<exists>wcs s'. reap_batch wcs s' = (e, s1)))"
proof (induction polls s rule: reap.induct)
  case (3 wcs polls s)
  then show ?case by (fastforce split: if_splits prod.splits option.splits)
qed auto

lemma reap_batch_escapes: "reap_batch wcs s = (Some e, s1) \<Longrightarrow> e = Escapes Out_of_bounds"
  by (induction wcs s rule: reap_batch.induct) (auto split: if_splits)

text \<open>The destructor ends only when every slot is back.\<close>

lemma destroy_loop_none:
  assumes "length (ib_available s) + length cq < ib_n_slots s" "polls_valid cq polls" "set cq \<subseteq> {..<length (ib_slots s)}"
    "\<forall>e. Poll_failed e \<notin> set polls"
  shows "destroy_loop polls s = None"
  using assms
proof (induction polls s arbitrary: cq rule: destroy_loop.induct)
  case (1 polls s)
  show ?case
  proof (cases "reap polls s")
    case None
    with 1(2) show ?thesis by (subst destroy_loop.simps) simp
  next
    case (Some x)
    obtain e s1 left where x: "x = (e, s1, left)" by (cases x)
    obtain cq1 where cq1: "reaped cq polls s cq1 s1 left" "\<forall>f. e \<noteq> Some (Escapes f)"
      using reap_ok [OF Some [unfolded x] 1(3,4)] by blast
    note f = reaped_facts [OF cq1(1)]
    obtain ids where ids: "cq = ids @ cq1" "ib_available s1 = ib_available s @ ids" using f(8) by blast
    have "\<forall>x. e \<noteq> Some (System_error x)" "set left \<subseteq> set polls"
      using reap_suffix [of polls s e s1 left] Some x 1(5) by (auto dest: reap_batch_escapes)
    with cq1(2) have e: "e = None" by (metis ibv_error.exhaust option.exhaust)
    have "destroy_loop left s1 = None"
      using 1(2,4,5) Some x e ids f \<open>set left \<subseteq> set polls\<close> by (intro 1(1) [of x e "(s1, left)" s1 left cq1]) auto
    then show ?thesis using Some x e 1(2) by (subst destroy_loop.simps) simp
  qed
qed

lemma destroy_loop_all:
  assumes "all_completions polls" "set (polled_ids polls) \<subseteq> {..<length (ib_slots s)}"
    "length (ib_available s) + length (polled_ids polls) = ib_n_slots s"
  shows "\<exists>s1. destroy_loop (polls @ [Polled []]) s = Some (None, s1) \<and> length (ib_available s1) = ib_n_slots s1"
proof (cases "polled_ids polls = []")
  case True
  with assms(3) show ?thesis by (subst destroy_loop.simps) simp
next
  case False
  with assms(3) have "length (ib_available s) < ib_n_slots s" by (cases "polled_ids polls") simp_all
  with assms reap_all [OF assms(1,2), of "[]"] show ?thesis by (subst destroy_loop.simps, subst destroy_loop.simps) simp
qed

lemma max_current_le_slots: "ibv_max_current_packets config buffer_size \<le> calc_n_slots config buffer_size"
  by (simp add: ibv_max_current_packets_def calc_n_slots_def)

text \<open>An attempt that finds everything completed sends the packets.\<close>

lemma ibv_attempt_sends:
  assumes inv: "ibv_inv c n sys" and c: "wf_config c" and none: "iv_failed_posts sys = 0" and posted: "iv_posted sys = []"
    and poll: "0 < ib_max_poll (iv_stream sys)"
    and cur: "iv_current sys \<noteq> []" "length (iv_current sys) \<le> n"
    and polls: "all_completions polls" "polled_ids polls = iv_cq sys" "polls_valid (iv_cq sys) (polls @ [Polled []])"
  shows "\<exists>sys1. ibv_attempt (polls @ [Polled []]) notify Posted sys = Some (Inr sys1) \<and> iv_current sys1 = [] \<and>
    iv_sent sys1 = iv_sent sys @ map (copy_packet \<circ> tp_pkt) (iv_current sys) \<and> iv_cq sys1 = [] \<and> iv_wire sys1 = iv_wire sys \<and>
    iv_failed_posts sys1 = 0 \<and> length (iv_posted sys1) = length (iv_current sys)"
proof -
  let ?s = "iv_stream sys" and ?ps = "iv_current sys"
  note I = inv [unfolded ibv_inv_def slots_used_def]
  let ?s1 = "?s\<lparr>ib_available := ib_available ?s @ iv_cq sys\<rparr>"
  have range: "set (iv_cq sys) \<subseteq> {..<length (ib_slots ?s)}" using I by auto
  then have reap: "reap (polls @ [Polled []]) ?s = Some (None, ?s1, [])" using reap_all [OF polls(1), of ?s "[]"] polls(2) by simp
  have "length (slots_used sys) = n" using slots_lost_iff [OF inv] inv none by (auto simp: ibv_inv_def distinct_card)
  then have len: "length ?ps \<le> length (ib_available ?s1)" using cur(2) posted by (simp add: slots_used_def)
  moreover obtain k where "nat (ib_max_poll ?s) = Suc k" using poll by (cases "nat (ib_max_poll ?s)") simp_all
  ultimately have space: "make_space (length ?ps) (polls @ [Polled []]) notify ?s = Some (Inr Space, ?s1, [])"
    using reap by (simp add: make_space_def)
  have "packets_fit c ?ps" "slots_ready c (ib_slots ?s1)" "distinct (ib_available ?s1)"
      "set (ib_available ?s1) \<subseteq> {..<length (ib_slots ?s1)}" using I by auto
  note sends = ibv_async_space [OF space c this(1) cur(1) this(2) len this(3,4), of Posted, simplified]
  obtain av wrs slots where "ibv_async_send_packets (polls @ [Polled []]) notify Posted ?ps ?s =
      Some (Inr (Handler_posted, set_all_results Success ?ps, ?s1\<lparr>ib_slots := slots, ib_available := av\<rparr>, wrs, []))"
      "length wrs = length ?ps"
    by (rule sends) auto
  moreover have "drop (length (polled_ids (polls @ [Polled []])) - 0) (iv_cq sys) = []"
    using polls(2) by (simp add: polled_ids_append)
  ultimately show ?thesis using posted none by (auto simp: ibv_attempt_def set_all_results_def comp_def)
qed

section \<open>A failed post\<close>

text \<open>An attempt that finds enough free slots and fails to post all its packets loses slots.\<close>

lemma ibv_attempt_loses:
  assumes inv: "ibv_inv c n sys" and c: "wf_config c" and poll: "0 < ib_max_poll (iv_stream sys)"
    and cur: "iv_current sys \<noteq> []" "length (iv_current sys) \<le> length (ib_available (iv_stream sys))"
    and k: "k < length (iv_current sys)"
  shows "\<exists>sys1. ibv_attempt [Polled []] notify (Post_failed e k) sys = Some (Inr sys1) \<and> ibv_inv c n sys1 \<and> slots_lost sys1 \<noteq> []"
proof -
  let ?s = "iv_stream sys" and ?ps = "iv_current sys"
  note I = inv [unfolded ibv_inv_def slots_used_def]
  obtain m where "nat (ib_max_poll ?s) = Suc m" using poll by (cases "nat (ib_max_poll ?s)") simp_all
  then have space: "make_space (length ?ps) [Polled []] notify ?s = Some (Inr Space, ?s, [])" using cur(2) by (simp add: make_space_def)
  have "packets_fit c ?ps" "slots_ready c (ib_slots ?s)" "distinct (ib_available ?s)"
      "set (ib_available ?s) \<subseteq> {..<length (ib_slots ?s)}" using I by auto
  note sends = ibv_async_space [OF space c this(1) cur(1) this(2) cur(2) this(3,4), of "Post_failed e k", simplified]
  obtain av wrs slots where send: "ibv_async_send_packets [Polled []] notify (Post_failed e k) ?ps ?s =
      Some (Inr (Handler_posted, set_all_results (Other_error e) ?ps, ?s\<lparr>ib_slots := slots, ib_available := av\<rparr>, take k wrs, []))"
      "ib_available ?s = av @ rev wrs" "length wrs = length ?ps"
    by (rule sends) auto
  then obtain sys1 where sys1: "ibv_attempt [Polled []] notify (Post_failed e k) sys = Some (Inr sys1)"
      "slots_used sys1 = av @ iv_posted sys @ take k wrs @ iv_cq sys"
    by (auto simp: ibv_attempt_def Let_def slots_used_def)
  have "polls_valid (iv_cq sys) [Polled []]" by (simp add: polls_valid_def)
  from ibv_attempt_inv [OF inv c cur(1) this sys1(1)] have inv1: "ibv_inv c n sys1" by auto
  have "length (slots_used sys1) < length (slots_used sys)" using sys1(2) send(2,3) k by (simp add: slots_used_def)
  moreover have "length (slots_used sys) \<le> n"
    using inv by (metis card_lessThan card_mono distinct_card finite_lessThan ibv_inv_def)
  ultimately show ?thesis using sys1(1) inv1 slots_lost_iff(2) [OF inv1] by auto
qed

lemma lost_destructor:
  assumes "ibv_inv c n sys" "slots_lost sys \<noteq> []" "polls_valid (iv_cq sys @ iv_posted sys) polls" "\<forall>e. Poll_failed e \<notin> set polls"
  shows "destroy_loop polls (iv_stream sys) = None"
proof (rule destroy_loop_none [OF _ assms(3) _ assms(4)])
  have "length (slots_used sys) \<noteq> n" using slots_lost_iff(2) [OF assms(1)] assms(2) by simp
  moreover have "length (slots_used sys) \<le> n"
    using assms(1) by (metis card_lessThan card_mono distinct_card finite_lessThan ibv_inv_def)
  ultimately show "length (ib_available (iv_stream sys)) + length (iv_cq sys @ iv_posted sys) < ib_n_slots (iv_stream sys)"
    using assms(1) by (simp add: ibv_inv_def slots_used_def)
  show "set (iv_cq sys @ iv_posted sys) \<subseteq> {..<length (ib_slots (iv_stream sys))}"
    using assms(1) by (auto simp: ibv_inv_def slots_used_def)
qed

lemma ibv_run_append:
  "ibv_run (es @ es') sys = (case ibv_run es sys of Some (Inr sys1) \<Rightarrow> ibv_run es' sys1 | r \<Rightarrow> r)"
  by (induction es arbitrary: sys) (auto split: option.splits sum.splits)

text \<open>The number of polls per call does not change.\<close>

lemma ibv_async_max_poll:
  assumes "ibv_async_send_packets polls notify post (iv_current sys) (iv_stream sys) = Some (Inr (a, ps, s, wrs, left))"
    and inv: "ibv_inv c n sys" and c: "wf_config c" and cur: "iv_current sys \<noteq> []" and polls: "polls_valid (iv_cq sys) polls"
  shows "ib_max_poll s = ib_max_poll (iv_stream sys)"
proof -
  let ?s = "iv_stream sys"
  have "distinct (ib_available ?s @ iv_cq sys)" "set (ib_available ?s @ iv_cq sys) \<subseteq> {..<length (ib_slots ?s)}"
    "packets_fit c (iv_current sys)" "slots_ready c (ib_slots ?s)" using inv by (auto simp: ibv_inv_def slots_used_def)
  from ibv_async_cases [OF assms(1) c this(3) cur this(4,1,2) polls] show ?thesis
    by cases (auto dest: reaped_facts(3))
qed

lemma ibv_run_max_poll:
  assumes "wf_config c" "ibv_inv c n sys" "list_all (event_fits c) es" "ibv_run es sys = Some (Inr sys1)"
  shows "ib_max_poll (iv_stream sys1) = ib_max_poll (iv_stream sys)"
  using assms(2-)
proof (induction es arbitrary: sys)
  case (Cons e es)
  then obtain sys2 where step: "ibv_step e sys = Some (Inr sys2)" "ibv_run es sys2 = Some (Inr sys1)"
    by (auto split: option.splits sum.splits)
  have "ibv_inv c n sys2" using ibv_step_inv [OF Cons.prems(1) assms(1) _ step(1)] Cons.prems(2) by auto
  moreover have "ib_max_poll (iv_stream sys2) = ib_max_poll (iv_stream sys)"
  proof (cases e)
    case (Attempt polls notify post)
    with step(1) have "ibv_attempt polls notify post sys = Some (Inr sys2)" "iv_current sys \<noteq> []" "polls_valid (iv_cq sys) polls"
      by (auto split: if_splits)
    then show ?thesis using ibv_async_max_poll [OF _ Cons.prems(1) assms(1)]
      by (auto simp: ibv_attempt_def Let_def split: option.splits sum.splits ibv_action.splits)
  qed (use step(1) in \<open>auto split: if_splits list.splits\<close>)
  ultimately show ?case using Cons.IH [of sys2] Cons.prems(2) step(2) by simp
qed simp

section \<open>Properties\<close>

text \<open>A small sender and a packet.\<close>

definition example_tests :: address_tests where
  "example_tests = \<lparr>is_multicast = (\<lambda>_. True), is_unspecified = (\<lambda>_. False)\<rparr>"

definition example_args :: ibv_args where
  "example_args =
     \<lparr>ia_address = V4 [239, 129, 2, 3], ia_port = 8888, ia_config = set_max_packet_size 4 default_stream_config,
      ia_interface_address = V4 [10, 0, 0, 1], ia_buffer_size = 92, ia_ttl = 1, ia_comp_vector = 0, ia_max_poll = 10\<rparr>"

definition example_ibv_stream :: "fault + ibv_stream" where
  "example_ibv_stream = make_ibv_stream example_tests example_args (Inr ([2, 0, 0, 0, 0, 1], 5000)) (replicate 92 0)"

abbreviation example_frames :: frame_config where
  "example_frames \<equiv> frame_config_of example_args [2, 0, 0, 0, 0, 1] 5000"

definition example_tp :: "byte list \<Rightarrow> transmit_packet" where
  "example_tp bs =
     \<lparr>tp_pkt = \<lparr>sp_buffers = [bs]\<rparr>, tp_size = length bs, tp_last = True, tp_item = 0, tp_result = Success\<rparr>"

lemma example_slots: "ibv_slots_of example_args = 2"
  by (simp add: calc_n_slots_def header_length_def raw_sizes set_max_packet_size_def default_stream_config_def example_args_def)

lemma example_setup: "ibv_setup_ok example_args [2, 0, 0, 0, 0, 1] 5000 (replicate 92 0)"
  using example_slots
  by (simp add: ibv_setup_ok_def header_length_def raw_sizes set_max_packet_size_def default_stream_config_def example_args_def
      frame_config_of_def wf_config_def)

lemma example_fits: "packets_fit example_frames [example_tp [7, 8]]"
  by (simp add: packets_fit_def copy_packet_def example_tp_def frame_config_of_def example_args_def set_max_packet_size_def)

lemma example_ibv:
  obtains s where "example_ibv_stream = Inr s"
    "make_ibv_stream example_tests example_args (Inr ([2, 0, 0, 0, 0, 1], 5000)) (replicate 92 0) = Inr s"
proof -
  obtain s where "make_ibv_stream example_tests example_args (Inr ([2, 0, 0, 0, 0, 1], 5000)) (replicate 92 0) = Inr s"
    using make_ibv_stream_total [OF _ _ _ _ example_setup, of example_tests] by (auto simp: example_args_def example_tests_def)
  then show ?thesis by (intro that [of s]) (simp_all add: example_ibv_stream_def)
qed

definition example_events :: "ibv_event list" where
  "example_events = [Load [example_tp [7, 8]], Attempt [Polled []] 0 Posted, Card_sends]"

lemma example_events_fit: "list_all (event_fits example_frames) example_events"
  using example_fits by (simp add: example_events_def)

lemma example_ibv_run:
  obtains s sys i where "example_ibv_stream = Inr s" "ibv_run example_events (new_ibv_system s) = Some (Inr sys)"
    "iv_sent sys = [[7, 8]]" "iv_posted sys = []" "iv_failed_posts sys = 0" "iv_cq sys = [i]"
proof -
  obtain s where s: "example_ibv_stream = Inr s"
    "make_ibv_stream example_tests example_args (Inr ([2, 0, 0, 0, 0, 1], 5000)) (replicate 92 0) = Inr s" by (rule example_ibv)
  let ?sys = "(new_ibv_system s)\<lparr>iv_current := [example_tp [7, 8]]\<rparr>"
  note inv0 = make_ibv_stream_inv [OF s(2) example_setup, unfolded example_slots]
  note c = inv0(4)
  have "ibv_inv example_frames 2 ?sys" using ibv_step_inv [OF inv0(1) c, of "Load [example_tp [7, 8]]"] example_events_fit
    by (auto simp: new_ibv_system_def example_events_def)
  from ibv_attempt_sends [OF this c, of "[]" 0] inv0(2) obtain sys where
    a: "ibv_attempt [Polled []] 0 Posted ?sys = Some (Inr sys)" "iv_sent sys = [[7, 8]]" "iv_cq sys = []" "iv_failed_posts sys = 0"
      "length (iv_posted sys) = 1"
    by (auto simp: new_ibv_system_def all_completions_def polls_valid_def reap_batch_size_def copy_packet_def example_tp_def)
  then obtain i where i: "iv_posted sys = [i]" by (cases "iv_posted sys") auto
  let ?sys1 = "sys\<lparr>iv_posted := [], iv_cq := [i], iv_wire := iv_wire sys @ [frame_of (ib_slots (iv_stream sys)) i]\<rparr>"
  have "ibv_run example_events (new_ibv_system s) = Some (Inr ?sys1)"
    using a i by (simp add: example_events_def new_ibv_system_def polls_valid_def reap_batch_size_def)
  with s(1) a i show ?thesis by (intro that [of s ?sys1 i]) simp_all
qed

text \<open>
  C10: The ibverbs sender is safe whatever the card and the verbs library do: any interleaving of calls, retries, completions,
  failing polls, failing notifications and failing or partial posts.  No call faults; no slot is ever in two places, so the memory of a frame
  is not written while the card may still read it; and what the card has sent, followed by what is posted, is frames from which a
  receiver extracts exactly the packets whose work requests were accepted, in order.  Packets reported as sent are among those, in
  order.  The queues of the card never overflow.  If no post fails, all accepted packets are reported as sent and every slot is
  accounted for.
\<close>

theorem ibv_sender_safe:
  assumes "make_ibv_stream tests a (Inr (mac, port)) buffer = Inr s" "ibv_setup_ok a mac port buffer"
    and "c = frame_config_of a mac port" "list_all (event_fits c) es"
    and "ibv_run es (new_ibv_system s) = Some r"
  shows "\<exists>sys. r = Inr sys \<and>
    list_all2 frame_carries (iv_sent sys) (iv_wire sys @ map (frame_of (ib_slots (iv_stream sys))) (iv_posted sys)) \<and>
    distinct (ib_available (iv_stream sys) @ iv_posted sys @ iv_cq sys) \<and>
    length (iv_posted sys @ iv_cq sys) \<le> cap_max_send_wr (create_qp (ib_n_slots (iv_stream sys))) \<and>
    subseq (reported_sent sys) (iv_sent sys) \<and>
    (iv_failed_posts sys = 0 \<longrightarrow> reported_sent sys = iv_sent sys \<and> slots_lost sys = [])"
proof -
  note inv0 = make_ibv_stream_inv [OF assms(1,2), folded assms(3)]
  note c = inv0(4)
  obtain sys where sys: "r = Inr sys" "ibv_inv c (ibv_slots_of a) sys"
    using ibv_run_inv [OF c inv0(1) assms(4,5)] by blast
  have d: "distinct (slots_used sys)" "set (slots_used sys) \<subseteq> {..<ib_n_slots (iv_stream sys)}" using sys(2) by (simp_all add: ibv_inv_def)
  have "length (slots_used sys) \<le> ib_n_slots (iv_stream sys)"
    using d by (metis card_lessThan card_mono distinct_card finite_lessThan)
  then have "length (iv_posted sys @ iv_cq sys) \<le> cap_max_send_wr (create_qp (ib_n_slots (iv_stream sys)))"
    by (simp add: slots_used_def create_qp_def)
  moreover have "slots_lost sys = []" if "iv_failed_posts sys = 0"
    using slots_lost_iff(1) [OF sys(2)] sys(2) that by (simp add: ibv_inv_def)
  ultimately show ?thesis using sys d(1) by (simp add: ibv_inv_def slots_used_def)
qed

theorem ibv_sender_safe_witness:
  "\<exists>s sys. example_ibv_stream = Inr s \<and>
     ibv_run [Load [example_tp [7, 8]], Attempt [Polled []] 0 Posted, Card_sends] (new_ibv_system s) = Some (Inr sys) \<and>
     list_all2 frame_carries [[7, 8]] (iv_wire sys) \<and> reported_sent sys = [[7, 8]]"
proof -
  obtain s sys where e: "example_ibv_stream = Inr s" "ibv_run example_events (new_ibv_system s) = Some (Inr sys)"
    "iv_sent sys = [[7, 8]]" "iv_posted sys = []" "iv_failed_posts sys = 0" by (rule example_ibv_run)
  from ibv_sender_safe [OF e(1) [unfolded example_ibv_stream_def] example_setup refl example_events_fit e(2)] e(3-5)
  have "list_all2 frame_carries [[7, 8]] (iv_wire sys) \<and> reported_sent sys = [[7, 8]]" by auto
  with e(1,2) show ?thesis unfolding example_events_def by blast
qed

text \<open>
  C26: The sender makes progress.  A call of \<^verbatim>\<open>async_send_packets\<close> returns: enough polls are one for every outstanding completion, one
  for every time \<^verbatim>\<open>make_space\<close> may poll, and one more.  As long as no post has failed, once the card has finished what was posted and its completions
  are polled, the pending packets, which are at most half of the slots, are sent in one call, and the destructor returns
  with every slot back.
\<close>

theorem ibv_sender_progress:
  assumes "make_ibv_stream tests a (Inr (mac, port)) buffer = Inr s" "ibv_setup_ok a mac port buffer"
    and "c = frame_config_of a mac port" "list_all (event_fits c) es"
    and "ibv_run es (new_ibv_system s) = Some (Inr sys)" "iv_failed_posts sys = 0"
  shows "(polls_valid (iv_cq sys) polls0 \<and> length (iv_cq sys) + nat (ia_max_poll a) < length polls0 \<longrightarrow>
      ibv_async_send_packets polls0 notify post (iv_current sys) (iv_stream sys) \<noteq> None) \<and>
    (iv_posted sys = [] \<and> all_completions polls \<and> polls_valid (iv_cq sys) polls \<and> polled_ids polls = iv_cq sys \<longrightarrow>
      (iv_current sys \<noteq> [] \<and> length (iv_current sys) \<le> ibv_max_current_packets (ia_config a) (ia_buffer_size a) \<longrightarrow>
        (\<exists>sys1. ibv_attempt (polls @ [Polled []]) notify Posted sys = Some (Inr sys1) \<and> iv_current sys1 = [] \<and>
           iv_sent sys1 = iv_sent sys @ map (copy_packet \<circ> tp_pkt) (iv_current sys))) \<and>
      (\<exists>s1. destroy_loop (polls @ [Polled []]) (iv_stream sys) = Some (None, s1) \<and> length (ib_available s1) = ib_n_slots s1))"
proof -
  let ?n = "ibv_slots_of a"
  note inv0 = make_ibv_stream_inv [OF assms(1,2), folded assms(3)]
  note c = inv0(4)
  have inv: "ibv_inv c ?n sys" using ibv_run_inv [OF c inv0(1) assms(4,5)] by blast
  have poll: "ib_max_poll (iv_stream sys) = ia_max_poll a" "0 < ib_max_poll (iv_stream sys)"
    using ibv_run_max_poll [OF c inv0(1) assms(4,5)] inv0(2,3) by (simp_all add: new_ibv_system_def)
  have used: "length (slots_used sys) = ?n" using slots_lost_iff [OF inv] inv assms(6) by (auto simp: ibv_inv_def)
  have "polls_valid (iv_cq sys) polls0 \<and> length (iv_cq sys) + nat (ia_max_poll a) < length polls0 \<longrightarrow>
      ibv_async_send_packets polls0 notify post (iv_current sys) (iv_stream sys) \<noteq> None"
  proof
    assume a: "polls_valid (iv_cq sys) polls0 \<and> length (iv_cq sys) + nat (ia_max_poll a) < length polls0"
    then have "length (polled_ids polls0) \<le> length (iv_cq sys)" by (auto simp: polls_valid_iff)
    then have "make_space (length (iv_current sys)) polls0 notify (iv_stream sys) \<noteq> None"
      using a poll(1) by (intro make_space_returns) simp
    then show "ibv_async_send_packets polls0 notify post (iv_current sys) (iv_stream sys) \<noteq> None"
      by (auto simp: ibv_async_send_packets_def split: sum.splits ibv_error.splits space.splits)
  qed
  moreover have "iv_posted sys = [] \<and> all_completions polls \<and> polls_valid (iv_cq sys) polls \<and> polled_ids polls = iv_cq sys \<longrightarrow>
      (iv_current sys \<noteq> [] \<and> length (iv_current sys) \<le> ibv_max_current_packets (ia_config a) (ia_buffer_size a) \<longrightarrow>
        (\<exists>sys1. ibv_attempt (polls @ [Polled []]) notify Posted sys = Some (Inr sys1) \<and> iv_current sys1 = [] \<and>
           iv_sent sys1 = iv_sent sys @ map (copy_packet \<circ> tp_pkt) (iv_current sys))) \<and>
      (\<exists>s1. destroy_loop (polls @ [Polled []]) (iv_stream sys) = Some (None, s1) \<and> length (ib_available s1) = ib_n_slots s1)"
  proof (intro impI conjI; elim conjE)
    assume p: "iv_posted sys = []" "all_completions polls" "polls_valid (iv_cq sys) polls" "polled_ids polls = iv_cq sys"
    have v: "polls_valid (iv_cq sys) (polls @ [Polled []])" using p(3) by (simp add: polls_valid_def)
    show "\<exists>s1. destroy_loop (polls @ [Polled []]) (iv_stream sys) = Some (None, s1) \<and> length (ib_available s1) = ib_n_slots s1"
      using p used inv by (intro destroy_loop_all) (auto simp: ibv_inv_def slots_used_def)
    assume cur: "iv_current sys \<noteq> []" "length (iv_current sys) \<le> ibv_max_current_packets (ia_config a) (ia_buffer_size a)"
    then have "length (iv_current sys) \<le> ?n" using max_current_le_slots order_trans by blast
    from ibv_attempt_sends [OF inv c assms(6) p(1) poll(2) cur(1) this p(2,4) v]
    show "\<exists>sys1. ibv_attempt (polls @ [Polled []]) notify Posted sys = Some (Inr sys1) \<and> iv_current sys1 = [] \<and>
           iv_sent sys1 = iv_sent sys @ map (copy_packet \<circ> tp_pkt) (iv_current sys)" by blast
  qed
  ultimately show ?thesis by (rule conjI)
qed

theorem ibv_sender_progress_witness:
  "\<exists>s sys i s1. example_ibv_stream = Inr s \<and>
     ibv_run [Load [example_tp [7, 8]], Attempt [Polled []] 0 Posted, Card_sends] (new_ibv_system s) = Some (Inr sys) \<and>
     destroy_loop [Polled [(i, 0)], Polled []] (iv_stream sys) = Some (None, s1) \<and> length (ib_available s1) = ib_n_slots s1"
proof -
  obtain s sys i where e: "example_ibv_stream = Inr s" "ibv_run example_events (new_ibv_system s) = Some (Inr sys)"
    "iv_sent sys = [[7, 8]]" "iv_posted sys = []" "iv_failed_posts sys = 0" "iv_cq sys = [i]" by (rule example_ibv_run)
  from ibv_sender_progress [OF e(1) [unfolded example_ibv_stream_def] example_setup refl example_events_fit e(2,5), of "[]" 0 Posted "[Polled [(i, 0)]]"] e(4,6)
  have "\<exists>s1. destroy_loop [Polled [(i, 0)], Polled []] (iv_stream sys) = Some (None, s1) \<and> length (ib_available s1) = ib_n_slots s1"
    by (auto simp: all_completions_def polls_valid_def reap_batch_size_def)
  with e(1,2) show ?thesis unfolding example_events_def by blast
qed

text \<open>
  C31: A failed post is never recovered from.  When \<^verbatim>\<open>ibv_post_send\<close> fails for some of the packets of a call that had found space,
  the slots of those packets are lost: they are neither available nor with the card, then or ever after.  Whatever happens
  later, and even if the card completes everything it has, the loop of the destructor that waits for all slots never ends.
\<close>

theorem ibv_failed_post_hangs:
  assumes "make_ibv_stream tests a (Inr (mac, port)) buffer = Inr s" "ibv_setup_ok a mac port buffer"
    and "c = frame_config_of a mac port" "list_all (event_fits c) es" "packets_fit c ps"
    and "ibv_run es (new_ibv_system s) = Some (Inr sys0)" "iv_current sys0 = []"
    and "k < length ps" "length ps \<le> length (ib_available (iv_stream sys0))"
  shows "\<exists>sys. ibv_run (es @ [Load ps, Attempt [Polled []] notify (Post_failed e k)]) (new_ibv_system s) = Some (Inr sys) \<and>
    (\<forall>es' sys' polls. list_all (event_fits c) es' \<and> ibv_run es' sys = Some (Inr sys') \<and>
       polls_valid (iv_cq sys' @ iv_posted sys') polls \<and> (\<forall>e. Poll_failed e \<notin> set polls) \<longrightarrow>
       slots_lost sys' \<noteq> [] \<and> destroy_loop polls (iv_stream sys') = None)"
proof -
  let ?n = "ibv_slots_of a" and ?sys = "sys0\<lparr>iv_current := ps\<rparr>"
  note inv0 = make_ibv_stream_inv [OF assms(1,2), folded assms(3)]
  note c = inv0(4)
  have inv1: "ibv_inv c ?n sys0" using ibv_run_inv [OF c inv0(1) assms(4,6)] by blast
  have poll: "0 < ib_max_poll (iv_stream sys0)"
    using ibv_run_max_poll [OF c inv0(1) assms(4,6)] inv0(2) by (simp add: new_ibv_system_def)
  have "ibv_inv c ?n ?sys" using ibv_step_inv [OF inv1 c, of "Load ps"] assms(5,7,8) by (cases ps) auto
  from ibv_attempt_loses [OF this c, of k notify e] poll assms(8,9) obtain sys where
    sys: "ibv_attempt [Polled []] notify (Post_failed e k) ?sys = Some (Inr sys)" "ibv_inv c ?n sys" "slots_lost sys \<noteq> []"
    by (cases ps) auto
  have run: "ibv_run (es @ [Load ps, Attempt [Polled []] notify (Post_failed e k)]) (new_ibv_system s) = Some (Inr sys)"
    using assms(6-8) sys(1) by (cases ps) (simp_all add: ibv_run_append polls_valid_def)
  have "slots_lost sys' \<noteq> [] \<and> destroy_loop polls (iv_stream sys') = None"
    if a: "list_all (event_fits c) es'" "ibv_run es' sys = Some (Inr sys')" "polls_valid (iv_cq sys' @ iv_posted sys') polls"
      "\<forall>e. Poll_failed e \<notin> set polls" for es' sys' polls
  proof -
    have later: "ibv_inv c ?n sys'" "set (slots_used sys') \<subseteq> set (slots_used sys)"
      using ibv_run_inv [OF c sys(2) a(1,2)] by auto
    then have "set (slots_lost sys) \<subseteq> set (slots_lost sys')"
      using slots_lost_iff(1) [OF sys(2)] slots_lost_iff(1) [OF later(1)] by auto
    then have "slots_lost sys' \<noteq> []" using sys(3) by auto
    with lost_destructor [OF later(1) _ a(3,4)] show ?thesis by blast
  qed
  with run show ?thesis by blast
qed

theorem ibv_failed_post_hangs_witness:
  "\<exists>s sys. example_ibv_stream = Inr s \<and>
     ibv_run [Load [example_tp [7, 8]], Attempt [Polled []] 0 (Post_failed 12 0)] (new_ibv_system s) = Some (Inr sys) \<and>
     destroy_loop (replicate 100 (Polled [])) (iv_stream sys) = None"
proof -
  obtain s where s: "example_ibv_stream = Inr s"
    "make_ibv_stream example_tests example_args (Inr ([2, 0, 0, 0, 0, 1], 5000)) (replicate 92 0) = Inr s" by (rule example_ibv)
  have av: "length (ib_available s) = 2" using make_ibv_stream_inv(5) [OF s(2) example_setup] example_slots by simp
  have empty: "polled_ids (replicate n (Polled [])) = []" "list_all batch_fits (replicate n (Polled []))" for n
    by (induction n) simp_all
  from ibv_failed_post_hangs [OF s(2) example_setup refl, of "[]" "[example_tp [7, 8]]" "new_ibv_system s" 0 0 12] av example_fits
  obtain sys where sys: "ibv_run [Load [example_tp [7, 8]], Attempt [Polled []] 0 (Post_failed 12 0)] (new_ibv_system s) = Some (Inr sys)"
    "\<forall>es' sys' polls. list_all (event_fits example_frames) es' \<and> ibv_run es' sys = Some (Inr sys') \<and>
       polls_valid (iv_cq sys' @ iv_posted sys') polls \<and> (\<forall>e. Poll_failed e \<notin> set polls) \<longrightarrow>
       slots_lost sys' \<noteq> [] \<and> destroy_loop polls (iv_stream sys') = None"
    by (auto simp: new_ibv_system_def)
  from sys(2) [rule_format, of "[]" sys "replicate 100 (Polled [])"] empty
  have "destroy_loop (replicate 100 (Polled [])) (iv_stream sys) = None" by (simp add: polls_valid_def)
  with s(1) sys(1) show ?thesis by blast
qed

end
