(* ===== verification/RawReaders.thy ===== *)
theory RawReaders
  imports Readers Verbs
begin

text \<open>
  The readers that get raw ethernet frames: the file reader of \<^verbatim>\<open>recv_udp_pcap.cpp\<close>, and the two ibverbs readers of \<^verbatim>\<open>recv_udp_ibv.h\<close>,
  \<^verbatim>\<open>recv_udp_ibv.cpp\<close> and \<^verbatim>\<open>recv_udp_ibv_mprq.cpp\<close>.  They take the UDP payload out of every frame and hand it to the same routine as the UDP
  reader.  What \<^verbatim>\<open>libpcap\<close> and the verbs library return are arguments.
\<close>

section \<open>Frames\<close>

text \<open>
  The \<^verbatim>\<open>try\<close> block that all three have: \<open>m\<close> is the memory from the start of the frame on, \<open>len\<close> the length of the frame.  The exceptions of
  \<^verbatim>\<open>udp_from_ethernet\<close> are caught.  \<open>limit\<close> computes the maximum size from the size of the payload.
\<close>

definition process_frame ::
  "'s stream_virtuals \<Rightarrow> (nat \<Rightarrow> nat) \<Rightarrow> nat \<Rightarrow> byte list \<Rightarrow> 's batch \<Rightarrow> fault + (bool \<times> 's batch)" where
  "process_frame vt limit len m b =
     (case udp_from_ethernet 0 len m of
        Inr payload \<Rightarrow>
          udp_process_one_packet vt (limit (pb_size payload)) (take (pb_size payload) (drop (pb_data payload) m)) b
      | Inl (Exception _) \<Rightarrow> Inr (False, b)
      | Inl e \<Rightarrow> Inl e)"

section \<open>Capture files\<close>

text \<open>
  The result of \<^verbatim>\<open>pcap_next_ex\<close>: a packet with the bytes that were captured and its length on the wire, an error, the end of the recs, or
  something else.
\<close>

datatype pcap_result = Pcap_packet "byte list" nat | Pcap_error | Pcap_eof | Pcap_other int

definition pcap_batch :: nat where
  "pcap_batch = 64"

definition pcap_step :: "'s stream_virtuals \<Rightarrow> pcap_result \<Rightarrow> 's batch \<Rightarrow> fault + 's batch" where
  "pcap_step vt r b =
     (case r of
        Pcap_packet bytes len \<Rightarrow>
          if length bytes < len then Inr b
          else bind_result (process_frame vt (\<lambda>n. n) len bytes b) (\<lambda>(_, b1). Inr b1)
      | Pcap_error \<Rightarrow> Inr b
      | Pcap_eof \<Rightarrow> bind_result (stop_unlocked vt (snd b)) (\<lambda>s1. Inr (fst b, s1))
      | Pcap_other _ \<Rightarrow> Inr b)"

text \<open>The loop over \<open>k\<close> passes; \<open>recs\<close> are the results of the calls to come, and after them there is the end of the recs.\<close>

fun pcap_loop :: "'s stream_virtuals \<Rightarrow> nat \<Rightarrow> pcap_result list \<Rightarrow> 's batch \<Rightarrow> fault + (pcap_result list \<times> 's batch)" where
  "pcap_loop vt 0 recs b = Inr (recs, b)"
| "pcap_loop vt (Suc k) recs b =
     (if sb_stopped (snd b) then Inr (recs, b)
      else
        (case recs of
           [] \<Rightarrow> bind_result (pcap_step vt Pcap_eof b) (pcap_loop vt k [])
         | r # recs1 \<Rightarrow> bind_result (pcap_step vt r b) (pcap_loop vt k recs1)))"

text \<open>The result says whether the reader runs again, and what is left of the file.\<close>

definition pcap_run ::
  "'s stream_virtuals \<Rightarrow> pcap_result list \<Rightarrow> 's stream_base \<Rightarrow> fault + (bool \<times> pcap_result list \<times> 's stream_base)" where
  "pcap_run vt recs s =
     bind_result (pcap_loop vt pcap_batch recs (begin_batch s, s)) (\<lambda>(recs1, st, s1).
     Inr (\<not> sb_stopped s1, recs1, end_batch st s1))"

text \<open>The constructor: \<open>opened\<close>, \<open>compiled\<close> and \<open>filtered\<close> are the results of the calls, with the messages they leave.\<close>

definition make_pcap_reader :: "string + unit \<Rightarrow> string + unit \<Rightarrow> string + unit \<Rightarrow> fault + unit" where
  "make_pcap_reader opened compiled filtered =
     (case opened of
        Inl errbuf \<Rightarrow> Inl (Exception errbuf)
      | Inr _ \<Rightarrow>
          (case compiled of
             Inl err \<Rightarrow> Inl (Exception err)
           | Inr _ \<Rightarrow> (case filtered of Inl err \<Rightarrow> Inl (Exception err) | Inr _ \<Rightarrow> Inr ())))"

text \<open>
  The handler posts itself until the stream has stopped.  Every call takes at least one result of the file or stops the stream, so one more call than there are
  results is enough.
\<close>

fun pcap_runs :: "'s stream_virtuals \<Rightarrow> nat \<Rightarrow> pcap_result list \<Rightarrow> 's stream_base \<Rightarrow> fault + (bool \<times> 's stream_base)" where
  "pcap_runs vt 0 recs s = Inr (True, s)"
| "pcap_runs vt (Suc k) recs s =
     bind_result (pcap_run vt recs s) (\<lambda>(again, recs1, s1). if again then pcap_runs vt k recs1 s1 else Inr (False, s1))"

section \<open>The ibverbs reader\<close>

datatype ibv_poll = Poll_stopped | Poll_partial | Poll_drained

text \<open>
  The state of the two readers.  \<open>ir_slots\<close> is the memory of the slots.
\<close>

record ibv_reader =
  ir_max_size :: nat
  ir_max_poll :: int
  ir_comp_channel :: bool
  ir_stop_poll :: bool
  ir_slots :: "byte list list"

text \<open>A work completion: the slot, whether it succeeded, and the length of the frame.\<close>

type_synonym recv_wc = "nat \<times> bool \<times> nat"

definition post_batch :: "nat \<Rightarrow> nat" where
  "post_batch n_slots = min (max (n_slots div 4) 1) 64"

text \<open>
  What a pass over the completion queue works on: the batch, and what the reader keeps about the card.  Here that is the
  slots posted again, in order.  A chain of work requests, from \<^verbatim>\<open>head\<close> to \<^verbatim>\<open>tail\<close>, is a list; \<open>status\<close> is what
  \<^verbatim>\<open>ibv_post_recv\<close> returns for it.
\<close>

type_synonym ('s, 'p) polling = "'s batch \<times> 'p"

definition post_chain ::
  "(nat list \<Rightarrow> int) \<Rightarrow> nat list \<Rightarrow> ('s, nat list) polling \<Rightarrow> ibv_error option \<times> ('s, nat list) polling" where
  "post_chain status chain x =
     (case check_status (status chain) of
        Some e \<Rightarrow> (Some e, x)
      | None \<Rightarrow> (None, fst x, snd x @ chain))"

fun poll_loop ::
  "'s stream_virtuals \<Rightarrow> ibv_reader \<Rightarrow> (nat list \<Rightarrow> int) \<Rightarrow> recv_wc list \<Rightarrow> nat list \<Rightarrow> ('s, nat list) polling \<Rightarrow>
   fault + (ibv_error + ibv_poll) \<times> ('s, nat list) polling" where
  "poll_loop vt r status [] chain x =
     (if chain \<noteq> [] then
        (case post_chain status chain x of
           (Some e, x1) \<Rightarrow> Inr (Inl e, x1)
         | (None, x1) \<Rightarrow> Inr (Inr Poll_drained, x1))
      else Inr (Inr Poll_drained, x))"
| "poll_loop vt r status ((index, success, len) # wcs) chain x =
     (if index < length (ir_slots r) then
        bind_result
          (if success then process_frame vt (\<lambda>_. ir_max_size r) len (ir_slots r ! index) (fst x)
           else Inr (False, fst x)) (\<lambda>(stopped, b).
        if stopped then Inr (Inr Poll_stopped, b, snd x)
        else
          let chain1 = chain @ [index] in
          if length chain1 = post_batch (length (ir_slots r)) then
            (case post_chain status chain1 (b, snd x) of
               (Some e, x1) \<Rightarrow> Inr (Inl e, x1)
             | (None, x1) \<Rightarrow> poll_loop vt r status wcs [] x1)
          else poll_loop vt r status wcs chain1 (b, snd x))
      else Inl Out_of_bounds)"

text \<open>One pass; \<open>wcs\<close> is what the poll returns, or the error it throws.\<close>

definition ibv_poll_once ::
  "'s stream_virtuals \<Rightarrow> ibv_reader \<Rightarrow> (nat list \<Rightarrow> int) \<Rightarrow> ibv_error + recv_wc list \<Rightarrow> ('s, nat list) polling \<Rightarrow>
   fault + (ibv_error + ibv_poll) \<times> ('s, nat list) polling" where
  "ibv_poll_once vt r status wcs x =
     (case wcs of
        Inl e \<Rightarrow> Inr (Inl e, x)
      | Inr wcs \<Rightarrow> poll_loop vt r status wcs [] x)"

section \<open>The multi-packet reader\<close>

text \<open>
  One buffer is divided into work queue entries that each take many packets.  \<open>mq_last_flag\<close> is the bit with which the card marks the last
  packet of an entry.
\<close>

record mprq_reader =
  mq_max_size :: nat
  mq_buffer :: "byte list"
  mq_wqe_size :: nat
  mq_last_flag :: "32 word"

text \<open>The entry that is being read, and the entries posted again.\<close>

record mprq_state =
  ms_wqe_start :: nat
  ms_posted :: "nat list"

text \<open>The length (negative for an error), offset and flags that a poll returns; it returns zeros when there is nothing.\<close>

type_synonym mprq_wc = "int \<times> nat \<times> 32 word"

definition mprq_advance :: "mprq_reader \<Rightarrow> mprq_state \<Rightarrow> mprq_state" where
  "mprq_advance r d =
     (let start = ms_wqe_start d + mq_wqe_size r in
      d\<lparr>ms_posted := ms_posted d @ [ms_wqe_start d],
        ms_wqe_start := (if start = length (mq_buffer r) then 0 else start)\<rparr>)"

definition mprq_one ::
  "'s stream_virtuals \<Rightarrow> mprq_reader \<Rightarrow> (nat \<Rightarrow> int) \<Rightarrow> mprq_wc \<Rightarrow> ('s, mprq_state) polling \<Rightarrow>
   fault + (ibv_error + ibv_poll) \<times> ('s, mprq_state) polling" where
  "mprq_one vt r status wc x =
     (let (len, offset, flags) = wc in
      bind_result
        (if len > 0 then
           process_frame vt (\<lambda>_. mq_max_size r) (nat len) (drop (ms_wqe_start (snd x) + offset) (mq_buffer r)) (fst x)
         else Inr (False, fst x)) (\<lambda>(stopped, b).
      if stopped then Inr (Inr Poll_stopped, b, snd x)
      else
        (case (if flags AND mq_last_flag r \<noteq> 0
               then (case check_status (status (ms_wqe_start (snd x))) of
                       Some e \<Rightarrow> (Some e, snd x)
                     | None \<Rightarrow> (None, mprq_advance r (snd x)))
               else (None, snd x)) of
           (Some e, d) \<Rightarrow> Inr (Inl e, b, d)
         | (None, d) \<Rightarrow> Inr (Inr (if len = 0 \<and> flags = 0 then Poll_drained else Poll_partial), b, d))))"

definition mprq_max_iter :: nat where
  "mprq_max_iter = 256"

fun mprq_loop ::
  "'s stream_virtuals \<Rightarrow> mprq_reader \<Rightarrow> (nat \<Rightarrow> int) \<Rightarrow> nat \<Rightarrow> mprq_wc list \<Rightarrow> ('s, mprq_state) polling \<Rightarrow>
   fault + (ibv_error + ibv_poll) \<times> ('s, mprq_state) polling" where
  "mprq_loop vt r status 0 wcs x = Inr (Inr Poll_partial, x)"
| "mprq_loop vt r status (Suc k) wcs x =
     bind_result (mprq_one vt r status (case wcs of [] \<Rightarrow> (0, 0, 0) | wc # _ \<Rightarrow> wc) x) (\<lambda>(res, x1).
     case res of Inr Poll_partial \<Rightarrow> mprq_loop vt r status k (tl wcs) x1 | _ \<Rightarrow> Inr (res, x1))"

definition mprq_poll_once ::
  "'s stream_virtuals \<Rightarrow> mprq_reader \<Rightarrow> (nat \<Rightarrow> int) \<Rightarrow> mprq_wc list \<Rightarrow> ('s, mprq_state) polling \<Rightarrow>
   fault + (ibv_error + ibv_poll) \<times> ('s, mprq_state) polling" where
  "mprq_poll_once vt r status wcs x = mprq_loop vt r status mprq_max_iter wcs x"

section \<open>The completion handler\<close>

text \<open>
  The handler is a template over \<^verbatim>\<open>poll_once\<close>.  There is one pass per element of \<open>passes\<close>, which are \<^verbatim>\<open>max_poll\<close> many: the value of
  \<^verbatim>\<open>stop_poll\<close> before the pass, and the pass.  The result is an exception, or \<^verbatim>\<open>need_poll\<close>.
\<close>

type_synonym ('s, 'p) pass = "('s, 'p) polling \<Rightarrow> fault + (ibv_error + ibv_poll) \<times> ('s, 'p) polling"

fun poll_passes ::
  "bool \<Rightarrow> int \<Rightarrow> (bool \<times> ('s, 'p) pass) list \<Rightarrow> bool \<Rightarrow> ('s, 'p) polling \<Rightarrow> fault + (ibv_error + bool) \<times> ('s, 'p) polling" where
  "poll_passes comp_channel notify [] need_poll x = Inr (Inr need_poll, x)"
| "poll_passes comp_channel notify ((stop_poll, pass) # passes) need_poll x =
     (if comp_channel \<and> passes = [] \<and> notify \<noteq> 0 then Inr (Inl (throw_errno notify), x)
      else if \<not> comp_channel \<and> stop_poll then Inr (Inr need_poll, x)
      else
        let need_poll1 = (if comp_channel \<and> passes = [] then False else need_poll) in
        bind_result (pass x) (\<lambda>(res, x1).
        case res of
          Inl e \<Rightarrow> Inr (Inl e, x1)
        | Inr Poll_stopped \<Rightarrow> Inr (Inr need_poll1, x1)
        | Inr Poll_partial \<Rightarrow> poll_passes comp_channel notify passes True x1
        | Inr Poll_drained \<Rightarrow> poll_passes comp_channel notify passes need_poll1 x1))"

text \<open>How the handler ends: it waits for an event, posts itself, calls \<^verbatim>\<open>stopped\<close>, or an exception leaves it.\<close>

datatype ibv_outcome = Waits_for_event | Posts_itself | Calls_stopped | Throws ibv_error

definition ibv_enqueue_receive :: "bool \<Rightarrow> bool \<Rightarrow> ibv_outcome" where
  "ibv_enqueue_receive comp_channel need_poll = (if comp_channel \<and> \<not> need_poll then Waits_for_event else Posts_itself)"

text \<open>
  The handler; the destructor of the state ends the batch on every path.  It is \<open>None\<close> while the loop over the events has not ended.
\<close>

definition ibv_packet_handler ::
  "bool \<Rightarrow> unit completion \<Rightarrow> (int \<times> int) list option \<Rightarrow> int \<Rightarrow> (bool \<times> ('s, 'p) pass) list \<Rightarrow> 'p \<Rightarrow> 's stream_base \<Rightarrow>
   (fault + ibv_outcome \<times> 'p \<times> 's stream_base) option" where
  "ibv_packet_handler comp_channel error events notify passes p s =
     (case (if error = Success () then (case events of None \<Rightarrow> Some None | Some es \<Rightarrow> take_events es) else Some None) of
        None \<Rightarrow> None
      | Some (Some e) \<Rightarrow> Some (Inr (Throws e, p, end_batch (begin_batch s) s))
      | Some None \<Rightarrow>
          Some (bind_result
            (if error = Success () \<and> \<not> sb_stopped s
             then poll_passes comp_channel notify passes True ((begin_batch s, s), p)
             else Inr (Inr True, (begin_batch s, s), p)) (\<lambda>(res, (st, s1), p1).
          Inr ((case res of
                  Inl e \<Rightarrow> Throws e
                | Inr need_poll \<Rightarrow>
                    if \<not> sb_stopped s1 then ibv_enqueue_receive comp_channel need_poll else Calls_stopped),
               p1, end_batch st s1))))"

definition ibv_stop :: "ibv_reader \<Rightarrow> ibv_reader" where
  "ibv_stop r = (if ir_comp_channel r then r else r\<lparr>ir_stop_poll := True\<rparr>)"

section \<open>Construction\<close>

text \<open>The limits of a device that the code looks at.\<close>

record device_attr =
  da_max_mr_size :: nat
  da_max_qp_wr :: nat
  da_max_cqe :: nat

definition compute_n_slots :: "device_attr \<Rightarrow> nat \<Rightarrow> nat \<Rightarrow> fault + nat" where
  "compute_n_slots attr buffer_size max_raw_size =
     (if da_max_mr_size attr < max_raw_size
        then Inl (invalid_argument ''Packet size is larger than biggest MR supported by device'')
      else
        let buffer_size1 = (if da_max_mr_size attr < buffer_size then da_max_mr_size attr else buffer_size);
            n_slots = max 1 (buffer_size1 div max_raw_size);
            hw_slots = min (da_max_qp_wr attr) (da_max_cqe attr)
        in if hw_slots = 0 then Inl (invalid_argument ''This device does not have a usable verbs implementation'')
           else if hw_slots < n_slots then Inr hw_slots
           else Inr n_slots)"

definition join_groups :: "address_tests \<Rightarrow> (ip_address \<times> 16 word) list \<Rightarrow> ip_address list" where
  "join_groups tests endpoints = map fst (filter (\<lambda>(address, _). is_multicast tests address) endpoints)"

text \<open>
  The constructor of the base class.  \<open>show_endpoint\<close> prints an endpoint, \<open>device\<close> is the exception of the calls that set up the device, if any.
\<close>

fun check_endpoints ::
  "address_tests \<Rightarrow> (ip_address \<times> 16 word \<Rightarrow> string) \<Rightarrow> (ip_address \<times> 16 word) list \<Rightarrow> fault + unit" where
  "check_endpoints tests show_endpoint [] = Inr ()"
| "check_endpoints tests show_endpoint (ep # eps) =
     (if \<not> is_unspecified tests (fst ep) \<and> \<not> is_v4 (fst ep)
      then Inl (invalid_argument (''endpoint '' @ show_endpoint ep @ '' is not an IPv4 address''))
      else check_endpoints tests show_endpoint eps)"

definition ibv_reader_core ::
  "address_tests \<Rightarrow> (ip_address \<times> 16 word \<Rightarrow> string) \<Rightarrow> (ip_address \<times> 16 word) list \<Rightarrow> ip_address \<Rightarrow> int \<Rightarrow> fault option \<Rightarrow>
   fault + unit" where
  "ibv_reader_core tests show_endpoint endpoints interface_address max_poll device =
     bind_result (check_endpoints tests show_endpoint endpoints) (\<lambda>_.
     if max_poll \<le> 0 then Inl (invalid_argument ''max_poll must be non-negative'')
     else if \<not> is_v4 interface_address then Inl (invalid_argument ''interface address is not an IPv4 address'')
     else (case device of Some e \<Rightarrow> Inl e | None \<Rightarrow> Inr ()))"

text \<open>
  The constructor of the ibverbs reader.  The result has the number of handlers it has posted: the first one is posted before the calls that may
  still fail, whose exception is \<open>late\<close>.  The slots are posted in order.
\<close>

definition make_ibv_reader ::
  "device_attr \<Rightarrow> nat \<Rightarrow> nat \<Rightarrow> int \<Rightarrow> int \<Rightarrow> byte list \<Rightarrow> fault option \<Rightarrow> nat \<times> (fault + (ibv_reader \<times> nat list))" where
  "make_ibv_reader attr max_size buffer_size comp_vector max_poll memory late =
     (let max_raw_size = max_size + header_length in
      case compute_n_slots attr buffer_size max_raw_size of
        Inl e \<Rightarrow> (0, Inl e)
      | Inr n_slots \<Rightarrow>
          (1, case late of
                Some e \<Rightarrow> Inl e
              | None \<Rightarrow>
                  Inr (\<lparr>ir_max_size = max_size, ir_max_poll = max_poll, ir_comp_channel = (comp_vector \<ge> 0), ir_stop_poll = False,
                        ir_slots = map (\<lambda>i. take max_raw_size (drop (i * max_raw_size) memory)) [0..<n_slots]\<rparr>,
                       [0..<n_slots])))"

text \<open>The sizes of the multi-packet receive queue, from the limits of the device.\<close>

definition clamp :: "int \<Rightarrow> int \<Rightarrow> int \<Rightarrow> int" where
  "clamp x low high = min (max x low) high"

record mprq_caps =
  mc_min_stride :: int
  mc_max_stride :: int
  mc_min_strides :: int
  mc_max_strides :: int

record mprq_sizes =
  mz_wqe_size :: nat
  mz_buffer_size :: nat
  mz_strides :: nat
  mz_wqe :: nat

definition compute_mprq_sizes :: "device_attr \<Rightarrow> mprq_caps \<Rightarrow> nat \<Rightarrow> ibv_error + mprq_sizes" where
  "compute_mprq_sizes attr caps buffer_size =
     (let stride = clamp 6 (mc_min_stride caps) (mc_max_stride caps);
          n_strides = clamp (20 - stride) (mc_min_strides caps) (mc_max_strides caps);
          wqe_size = 2 ^ nat (stride + n_strides);
          buffer_size1 = (if buffer_size < 2 * wqe_size then 2 * wqe_size else buffer_size);
          strides0 = buffer_size1 div 2 ^ nat stride;
          strides = (if da_max_cqe attr < strides0 then da_max_cqe attr else strides0);
          wqe0 = strides div 2 ^ nat n_strides;
          wqe = (if da_max_qp_wr attr < wqe0 then da_max_qp_wr attr else wqe0)
      in if wqe < 2 then Inl (System_error ENOTSUP)
         else Inr \<lparr>mz_wqe_size = wqe_size, mz_buffer_size = wqe * wqe_size, mz_strides = strides, mz_wqe = wqe\<rparr>)"

definition make_mprq_reader :: "bool \<Rightarrow> device_attr \<Rightarrow> mprq_caps \<Rightarrow> nat \<Rightarrow> nat \<Rightarrow> 32 word \<Rightarrow> (nat \<Rightarrow> byte list) \<Rightarrow>
   ibv_error + (mprq_reader \<times> mprq_state)" where
  "make_mprq_reader supported attr caps max_size buffer_size last_flag alloc =
     (if \<not> supported then Inl (System_error ENOTSUP)
      else
        bind_result (compute_mprq_sizes attr caps buffer_size) (\<lambda>z.
        Inr (\<lparr>mq_max_size = max_size, mq_buffer = alloc (mz_buffer_size z), mq_wqe_size = mz_wqe_size z, mq_last_flag = last_flag\<rparr>,
             \<lparr>ms_wqe_start = 0, ms_posted = map (\<lambda>i. i * mz_wqe_size z) [0..<mz_wqe z]\<rparr>)))"

text \<open>\<^verbatim>\<open>make_reader\<close> falls back to the plain reader if multi-packet queues are not supported.\<close>

definition make_ibv_reader_any :: "ibv_error + 'r \<Rightarrow> (unit \<Rightarrow> ibv_error + 'r) \<Rightarrow> ibv_error + 'r" where
  "make_ibv_reader_any mprq plain =
     (case mprq of
        Inr r \<Rightarrow> Inr r
      | Inl (System_error e) \<Rightarrow> if e \<noteq> ENOTSUP then Inl (System_error e) else plain ()
      | Inl e \<Rightarrow> Inl e)"

section \<open>Frames that carry packets\<close>

text \<open>A frame that carries a packet has the effect of the datagram.\<close>

lemma process_frame_carries:
  assumes "frame_carries p (m, n)"
  shows "process_frame vt limit n m b = udp_process_one_packet vt (limit (length p)) p b"
  using assms unfolding frame_carries_def by (auto simp: process_frame_def)

lemma udp_process_limit:
  "length p \<le> k \<Longrightarrow> length p \<le> l \<Longrightarrow> udp_process_one_packet vt k p b = udp_process_one_packet vt l p b"
  by (simp add: udp_process_one_packet_def)

lemma udp_process_flag:
  "udp_process_one_packet vt k p b = Inr (fin, b') \<Longrightarrow> \<not> sb_stopped (snd b) \<Longrightarrow> fin = sb_stopped (snd b')"
  by (auto simp: udp_process_eq dest: tcp_deliver_flag split: if_splits)

lemma deliver_all_udp_flag:
  "deliver_all (udp_process_one_packet vt k) ps b = Inr (fin, b') \<Longrightarrow> \<not> sb_stopped (snd b) \<Longrightarrow> fin = sb_stopped (snd b')"
proof (induction ps arbitrary: b)
  case (Cons p ps)
  then obtain fin1 b1 where b1: "udp_process_one_packet vt k p b = Inr (fin1, b1)"
      "(if fin1 then Inr (True, b1) else deliver_all (udp_process_one_packet vt k) ps b1) = Inr (fin, b')"
    by (auto simp: bind_result_Inr_iff)
  have "fin1 = sb_stopped (snd b1)" by (rule udp_process_flag [OF b1(1) Cons.prems(2)])
  with b1(2) Cons.IH [of b1] show ?case by (cases fin1) auto
qed auto

section \<open>Capture files: proofs\<close>

text \<open>The results that hold the frames of the packets \<open>ps\<close>.\<close>

definition holds_packet :: "byte list \<Rightarrow> pcap_result \<Rightarrow> bool" where
  "holds_packet p r \<longleftrightarrow> (\<exists>bytes len. r = Pcap_packet bytes len \<and> len \<le> length bytes \<and> frame_carries p (bytes, len))"

lemma pcap_loop_stopped: "sb_stopped (snd b) \<Longrightarrow> pcap_loop vt k recs b = Inr (recs, b)"
  by (cases k) simp_all

lemma pcap_loop_packets:
  assumes "list_all2 holds_packet ps rs" "\<forall>p \<in> set ps. length p \<le> max_size" "\<not> sb_stopped (snd b)"
  shows "bind_result (pcap_loop vt (length ps) (rs @ recs) b) (\<lambda>(_, b1). Inr b1) =
    bind_result (deliver_all (udp_process_one_packet vt max_size) ps b) (\<lambda>(_, b1). Inr b1)"
  using assms
proof (induction ps rs arbitrary: b rule: list_all2_induct)
  case (Cons p ps r rs)
  obtain bytes len where r: "r = Pcap_packet bytes len" "len \<le> length bytes" "frame_carries p (bytes, len)"
    using Cons.hyps(1) by (auto simp: holds_packet_def)
  have one: "pcap_step vt r b = bind_result (udp_process_one_packet vt max_size p b) (\<lambda>(_, b1). Inr b1)"
    using r Cons.prems(1) by (simp add: pcap_step_def process_frame_carries udp_process_limit [of p "length p" max_size])
  show ?case
  proof (cases "udp_process_one_packet vt max_size p b")
    case (Inl e)
    with one Cons.prems(2) show ?thesis by simp
  next
    case (Inr y)
    obtain fin b1 where y: "y = (fin, b1)" by (cases y)
    have fin: "fin = sb_stopped (snd b1)" using udp_process_flag [OF Inr [unfolded y] Cons.prems(2)] .
    show ?thesis
    proof (cases fin)
      case True
      with fin one Inr y Cons.prems(2) show ?thesis by (simp add: pcap_loop_stopped)
    next
      case False
      with fin one Inr y Cons.prems Cons.IH [of b1] show ?thesis by simp
    qed
  qed
qed simp

section \<open>The ibverbs reader: proofs\<close>

text \<open>A completion whose slot holds the frame of a packet.\<close>

definition completes_packet :: "ibv_reader \<Rightarrow> byte list \<Rightarrow> recv_wc \<Rightarrow> bool" where
  "completes_packet r p wc \<longleftrightarrow>
     (case wc of (index, success, len) \<Rightarrow> index < length (ir_slots r) \<and> success \<and> frame_carries p (ir_slots r ! index, len))"

lemma poll_loop_packets:
  assumes "list_all2 (completes_packet r) ps wcs" "\<And>c. status c = 0"
  shows "bind_result (poll_loop vt r status wcs chain x) (\<lambda>(res, x1). Inr (res, fst x1, res = Inr Poll_drained \<longrightarrow> snd x1 = snd x @ chain @ map fst wcs)) =
    bind_result (deliver_all (udp_process_one_packet vt (ir_max_size r)) ps (fst x)) (\<lambda>(fin, b1).
      Inr (Inr (if fin then Poll_stopped else Poll_drained), b1, True))"
  using assms(1)
proof (induction ps wcs arbitrary: chain x rule: list_all2_induct)
  case Nil
  then show ?case using assms(2) by (simp add: post_chain_def)
next
  case (Cons p ps wc wcs)
  obtain index len where wc: "wc = (index, True, len)" "index < length (ir_slots r)" "frame_carries p (ir_slots r ! index, len)"
    using Cons.hyps(1) by (auto simp: completes_packet_def split: prod.splits)
  show ?case
  proof (cases "udp_process_one_packet vt (ir_max_size r) p (fst x)")
    case (Inl e)
    with wc show ?thesis by (simp add: process_frame_carries)
  next
    case (Inr y)
    obtain fin b1 where y: "y = (fin, b1)" by (cases y)
    let ?chain = "chain @ [index]"
    show ?thesis
    proof (cases "fin \<or> length ?chain \<noteq> post_batch (length (ir_slots r))")
      case True
      then show ?thesis using wc Inr y Cons.IH [of ?chain "(b1, snd x)"] by (auto simp: process_frame_carries)
    next
      case False
      then show ?thesis using wc Inr y Cons.IH [of "[]" "(b1, snd x @ ?chain)"] assms(2)
        by (simp add: process_frame_carries post_chain_def)
    qed
  qed
qed

section \<open>The multi-packet reader: proofs\<close>

definition mprq_inv :: "mprq_reader \<Rightarrow> mprq_state \<Rightarrow> bool" where
  "mprq_inv r d \<longleftrightarrow> 0 < mq_wqe_size r \<and> mq_wqe_size r dvd length (mq_buffer r) \<and> mq_wqe_size r dvd ms_wqe_start d \<and>
     ms_wqe_start d < length (mq_buffer r)"

lemma mprq_inv_room: "mprq_inv r d \<Longrightarrow> ms_wqe_start d + mq_wqe_size r \<le> length (mq_buffer r)"
  unfolding mprq_inv_def by (elim conjE dvdE) (metis Suc_leI mult_Suc_right mult_le_mono2 mult_less_cancel1 add.commute)

lemma mprq_advance_inv: "mprq_inv r d \<Longrightarrow> mprq_inv r (mprq_advance r d)"
  using mprq_inv_room [of r d] by (auto simp: mprq_inv_def mprq_advance_def Let_def)

section \<open>Safety\<close>

text \<open>Completions that the card may return: of slots of the reader, for frames that fit.\<close>

definition wc_valid :: "ibv_reader \<Rightarrow> recv_wc \<Rightarrow> bool" where
  "wc_valid r wc \<longleftrightarrow> (case wc of (index, success, len) \<Rightarrow> index < length (ir_slots r) \<and> len \<le> length (ir_slots r ! index))"

definition mprq_wc_valid :: "mprq_reader \<Rightarrow> mprq_wc \<Rightarrow> bool" where
  "mprq_wc_valid r wc \<longleftrightarrow> (case wc of (len, offset, flags) \<Rightarrow> offset + nat len \<le> mq_wqe_size r)"

text \<open>The result of a pass, for a batch that started with \<open>s0\<close>.\<close>

definition pass_result ::
  "('s \<Rightarrow> bool) \<Rightarrow> ('s stream_base \<Rightarrow> 's stream_base \<Rightarrow> bool) \<Rightarrow> ('p \<Rightarrow> bool) \<Rightarrow> 's stream_base \<Rightarrow>
   fault + (ibv_error + ibv_poll) \<times> ('s, 'p) polling \<Rightarrow> bool" where
  "pass_result sink_inv R P s0 y \<longleftrightarrow>
     (case y of
        Inl _ \<Rightarrow> False
      | Inr (res, x1) \<Rightarrow> P (snd x1) \<and> in_batch sink_inv R s0 (res = Inr Poll_stopped) (fst x1))"

text \<open>
  All passes of the handler.  It wants to wait for an event only if it has asked for a notification and then found the queue
  drained.
\<close>

definition drained_after :: "('s, 'p) pass \<Rightarrow> ('s, 'p) polling \<Rightarrow> bool" where
  "drained_after pass x1 \<longleftrightarrow> (\<exists>x. pass x = Inr (Inr Poll_drained, x1))"

definition passes_result ::
  "('s \<Rightarrow> bool) \<Rightarrow> ('s stream_base \<Rightarrow> 's stream_base \<Rightarrow> bool) \<Rightarrow> ('p \<Rightarrow> bool) \<Rightarrow> 's stream_base \<Rightarrow> (('s, 'p) polling \<Rightarrow> bool) \<Rightarrow>
   fault + (ibv_error + bool) \<times> ('s, 'p) polling \<Rightarrow> bool" where
  "passes_result sink_inv R P s0 wait y \<longleftrightarrow>
     (case y of
        Inl _ \<Rightarrow> False
      | Inr (res, x1) \<Rightarrow> P (snd x1) \<and> in_batch sink_inv R s0 (sb_stopped (snd (fst x1))) (fst x1) \<and>
          (res = Inr False \<and> \<not> sb_stopped (snd (fst x1)) \<longrightarrow> wait x1))"

definition passes_ok ::
  "('s \<Rightarrow> bool) \<Rightarrow> ('s stream_base \<Rightarrow> 's stream_base \<Rightarrow> bool) \<Rightarrow> ('p \<Rightarrow> bool) \<Rightarrow> 's stream_base \<Rightarrow> (bool \<times> ('s, 'p) pass) list \<Rightarrow> bool" where
  "passes_ok sink_inv R P s0 passes \<longleftrightarrow>
     (\<forall>pass \<in> snd ` set passes. \<forall>x. in_batch sink_inv R s0 False (fst x) \<and> P (snd x) \<longrightarrow> pass_result sink_inv R P s0 (pass x))"

lemma pass_resultE:
  assumes "pass_result sink_inv R P s0 y"
  obtains res x1 where "y = Inr (res, x1)" "P (snd x1)" "in_batch sink_inv R s0 (res = Inr Poll_stopped) (fst x1)"
  using assms by (cases y) (auto simp: pass_result_def)

lemma passes_resultE:
  assumes "passes_result sink_inv R P s0 wait z"
  obtains res st s1 p1 where "z = Inr (res, (st, s1), p1)" "P p1" "in_batch sink_inv R s0 (sb_stopped s1) (st, s1)"
    "res = Inr False \<and> \<not> sb_stopped s1 \<longrightarrow> wait ((st, s1), p1)"
proof (cases z)
  case (Inr y)
  obtain res st s1 p1 where "y = (res, (st, s1), p1)" by (metis surj_pair)
  with Inr assms that show ?thesis by (simp add: passes_result_def)
qed (use assms in \<open>simp add: passes_result_def\<close>)

lemma in_batch_halted: "in_batch sink_inv R s0 h b \<Longrightarrow> sb_stopped (snd b) = h \<and> in_batch sink_inv R s0 (sb_stopped (snd b)) b"
  by (simp add: in_batch_def)

context stream_reader
begin

lemma process_frame_ok:
  assumes b: "in_batch sink_inv R s0 False b" and len: "len \<le> length m"
  obtains fin b' where "process_frame vt limit len m b = Inr (fin, b')" "in_batch sink_inv R s0 fin b'"
proof (cases "udp_from_ethernet 0 len m")
  case (Inl e)
  have "exception_or (pb_within 0 len) (udp_from_ethernet 0 len m)" using len by (intro udp_from_ethernet_within) simp
  with Inl obtain msg where "e = Exception msg" by (auto simp: exception_or_def)
  with Inl b show ?thesis by (intro that [of False b]) (simp_all add: process_frame_def)
next
  case (Inr payload)
  let ?f = "take (pb_size payload) (drop (pb_data payload) m)"
  obtain fin b' where "udp_process_one_packet vt (limit (pb_size payload)) ?f b = Inr (fin, b')"
      "if fin then in_batch sink_inv R s0 True b' else in_batch sink_inv R s0 False b'"
    using udp.consume [OF b] by blast
  with Inr show ?thesis by (intro that [of fin b']) (auto simp: process_frame_def split: if_splits)
qed

lemma pcap_step_ok:
  assumes b: "in_batch sink_inv R s0 False b"
  shows "\<exists>halted b'. pcap_step vt r b = Inr b' \<and> in_batch sink_inv R s0 halted b' \<and> (r = Pcap_eof \<longrightarrow> halted)"
proof (cases r)
  case (Pcap_packet bytes len)
  show ?thesis
  proof (cases "length bytes < len")
    case False
    then obtain fin b' where "process_frame vt (\<lambda>n. n) len bytes b = Inr (fin, b')" "in_batch sink_inv R s0 fin b'"
      using process_frame_ok [OF b, of len bytes "\<lambda>n. n"] by auto
    with Pcap_packet False show ?thesis by (auto simp: pcap_step_def)
  qed (use Pcap_packet b in \<open>auto simp: pcap_step_def\<close>)
next
  case Pcap_eof
  have "stream_inv sink_inv (snd b)" "batch_ok (fst b)" "R s0 (snd b)" using b by (simp_all add: in_batch_def)
  moreover obtain s1 where "stop_unlocked vt (snd b) = Inr s1" "in_batch sink_inv R (snd b) True (begin_batch (snd b), s1)"
    using stop_batch [OF \<open>stream_inv sink_inv (snd b)\<close>] .
  ultimately show ?thesis using Pcap_eof
    by (auto simp: pcap_step_def in_batch_def intro: frame_trans)
qed (use b in \<open>auto simp: pcap_step_def\<close>)

text \<open>A loop that does not stop the stream takes one result per pass.\<close>

lemma pcap_loop_ok:
  assumes "in_batch sink_inv R s0 halted b"
  shows "\<exists>recs' halted' b'. pcap_loop vt k recs b = Inr (recs', b') \<and> in_batch sink_inv R s0 halted' b' \<and>
    (\<not> halted' \<longrightarrow> length recs' + k = length recs)"
  using assms
proof (induction k arbitrary: recs halted b)
  case (Suc k)
  show ?case
  proof (cases halted)
    case True
    with Suc.prems show ?thesis by (auto simp: in_batch_def)
  next
    case False
    then have b: "in_batch sink_inv R s0 False b" using Suc.prems by simp
    then have run: "\<not> sb_stopped (snd b)" by (simp add: in_batch_def)
    obtain h1 b1 where b1: "pcap_step vt (case recs of [] \<Rightarrow> Pcap_eof | r # _ \<Rightarrow> r) b = Inr b1" "in_batch sink_inv R s0 h1 b1"
        "recs = [] \<longrightarrow> h1"
      using pcap_step_ok [OF b, of "case recs of [] \<Rightarrow> Pcap_eof | r # _ \<Rightarrow> r"] by (cases recs) auto
    from Suc.IH [OF b1(2), of "tl recs"] obtain recs' h' b' where l: "pcap_loop vt k (tl recs) b1 = Inr (recs', b')"
        "in_batch sink_inv R s0 h' b'" "\<not> h' \<longrightarrow> length recs' + k = length (tl recs)" by blast
    have "h'" if "h1"
      using that b1(2) l(1,2) by (auto simp: in_batch_def pcap_loop_stopped)
    then show ?thesis using run b1 l by (cases recs) auto
  qed
qed (use assms in auto)

lemma pcap_run_ok:
  assumes "stream_inv sink_inv s"
  shows "\<exists>recs' s'. pcap_run vt recs s = Inr (\<not> sb_stopped s', recs', s') \<and> stream_inv sink_inv s' \<and> R s s' \<and>
    (\<not> sb_stopped s' \<longrightarrow> length recs' + pcap_batch = length recs)"
proof -
  obtain recs' h b where l: "pcap_loop vt pcap_batch recs (begin_batch s, s) = Inr (recs', b)" "in_batch sink_inv R s h b"
      "\<not> h \<longrightarrow> length recs' + pcap_batch = length recs"
    using pcap_loop_ok [OF in_batch_start [OF assms]] by blast
  have "sb_stopped (snd b) = h" using l(2) by (simp add: in_batch_def)
  with l in_batch_end [OF l(2)] show ?thesis
    by (intro exI [of _ recs'] exI [of _ "end_batch (fst b) (snd b)"]) (simp add: pcap_run_def prod.case_eq_if)
qed

lemma pcap_runs_ok:
  assumes "stream_inv sink_inv s" "length recs < pcap_batch * k"
  shows "\<exists>s'. pcap_runs vt k recs s = Inr (False, s') \<and> stream_inv sink_inv s' \<and> R s s' \<and> sb_stopped s'"
  using assms
proof (induction k arbitrary: recs s)
  case (Suc k)
  obtain recs1 s1 where r: "pcap_run vt recs s = Inr (\<not> sb_stopped s1, recs1, s1)" "stream_inv sink_inv s1" "R s s1"
      "\<not> sb_stopped s1 \<longrightarrow> length recs1 + pcap_batch = length recs"
    using pcap_run_ok [OF Suc.prems(1)] by blast
  show ?case
  proof (cases "sb_stopped s1")
    case False
    with r(4) Suc.prems(2) have "length recs1 < pcap_batch * k" by simp
    from Suc.IH [OF r(2) this] r False show ?thesis by (auto intro: frame_trans)
  qed (use r in auto)
qed simp

lemma poll_loop_ok:
  assumes "in_batch sink_inv R s0 False (fst x)" "list_all (wc_valid r) wcs"
  shows "pass_result sink_inv R (\<lambda>_. True) s0 (poll_loop vt r status wcs chain x)"
  using assms
proof (induction wcs arbitrary: chain x)
  case Nil
  then show ?case by (auto simp: pass_result_def post_chain_def split: option.splits)
next
  case (Cons wc wcs)
  obtain index success len where wc: "wc = (index, success, len)" by (cases wc)
  have v: "index < length (ir_slots r)" "len \<le> length (ir_slots r ! index)" using Cons.prems(2) wc by (simp_all add: wc_valid_def)
  obtain fin b where b: "(if success then process_frame vt (\<lambda>_. ir_max_size r) len (ir_slots r ! index) (fst x) else Inr (False, fst x)) = Inr (fin, b)"
      "in_batch sink_inv R s0 fin b"
  proof (cases success)
    case True
    with process_frame_ok [OF Cons.prems(1) v(2), of "\<lambda>_. ir_max_size r"] that show ?thesis by auto
  next
    case False
    with Cons.prems(1) that show ?thesis by auto
  qed
  show ?case
  proof (cases fin)
    case True
    with wc v b show ?thesis by (auto simp: pass_result_def)
  next
    case False
    have tl: "list_all (wc_valid r) wcs" using Cons.prems(2) by simp
    have "in_batch sink_inv R s0 False b" using b(2) False by simp
    then show ?thesis using wc v b(1) False Cons.IH [OF _ tl, of "(b, snd x)"] Cons.IH [OF _ tl, of "(b, snd x @ chain @ [index])"]
      by (auto simp: Let_def post_chain_def pass_result_def split: option.splits)
  qed
qed

lemma ibv_poll_once_ok:
  assumes "in_batch sink_inv R s0 False (fst x)" "case wcs of Inl e \<Rightarrow> True | Inr l \<Rightarrow> list_all (wc_valid r) l"
  shows "pass_result sink_inv R (\<lambda>_. True) s0 (ibv_poll_once vt r status wcs x)"
  using assms poll_loop_ok [OF assms(1), of r] by (cases wcs) (auto simp: ibv_poll_once_def pass_result_def)

lemma mprq_one_ok:
  assumes "in_batch sink_inv R s0 False (fst x)" "mprq_inv r (snd x)" "mprq_wc_valid r wc"
  shows "pass_result sink_inv R (mprq_inv r) s0 (mprq_one vt r status wc x)"
proof -
  obtain len offset flags where wc: "wc = (len, offset, flags)" by (cases wc)
  let ?m = "drop (ms_wqe_start (snd x) + offset) (mq_buffer r)"
  have "nat len \<le> length ?m"
    using mprq_inv_room [OF assms(2)] assms(3) wc by (simp add: mprq_wc_valid_def)
  then obtain fin b where b: "(if len > 0 then process_frame vt (\<lambda>_. mq_max_size r) (nat len) ?m (fst x) else Inr (False, fst x)) = Inr (fin, b)"
      "in_batch sink_inv R s0 fin b"
  proof (cases "len > 0")
    case True
    with process_frame_ok [OF assms(1) \<open>nat len \<le> length ?m\<close>, of "\<lambda>_. mq_max_size r"] that show ?thesis by auto
  next
    case False
    with assms(1) that show ?thesis by auto
  qed
  then show ?thesis using assms(2) mprq_advance_inv [OF assms(2)]
    by (cases fin) (auto simp: wc mprq_one_def pass_result_def split: option.splits)
qed

lemma mprq_loop_ok:
  assumes "in_batch sink_inv R s0 False (fst x)" "mprq_inv r (snd x)" "list_all (mprq_wc_valid r) wcs"
  shows "pass_result sink_inv R (mprq_inv r) s0 (mprq_loop vt r status k wcs x)"
  using assms
proof (induction k arbitrary: wcs x)
  case 0
  then show ?case by (simp add: pass_result_def)
next
  case (Suc k)
  let ?wc = "case wcs of [] \<Rightarrow> (0, 0, 0) | wc # _ \<Rightarrow> wc"
  have "mprq_wc_valid r ?wc" using Suc.prems(3) by (cases wcs) (simp_all add: mprq_wc_valid_def)
  from mprq_one_ok [OF Suc.prems(1,2) this] obtain res x1 where
    one: "mprq_one vt r status ?wc x = Inr (res, x1)" "mprq_inv r (snd x1)" "in_batch sink_inv R s0 (res = Inr Poll_stopped) (fst x1)"
    by (rule pass_resultE)
  show ?case
  proof (cases "res = Inr Poll_partial")
    case True
    have "list_all (mprq_wc_valid r) (tl wcs)" using Suc.prems(3) by (cases wcs) simp_all
    with Suc.IH [of x1 "tl wcs"] one True show ?thesis by simp
  next
    case False
    with one show ?thesis by (auto simp: pass_result_def split: sum.splits ibv_poll.splits)
  qed
qed

lemma poll_passes_ok:
  assumes "in_batch sink_inv R s0 False (fst x)" "P (snd x)"
    and "passes_ok sink_inv R P s0 passes"
  shows "passes_result sink_inv R P s0
    (\<lambda>x1. need \<longrightarrow> cc \<and> notify = 0 \<and> passes \<noteq> [] \<and> drained_after (snd (last passes)) x1) (poll_passes cc notify passes need x)"
  using assms
proof (induction passes arbitrary: need x)
  case Nil
  then show ?case using in_batch_halted [OF Nil(1)] by (simp add: passes_result_def)
next
  case (Cons sp passes)
  obtain stop pass where sp: "sp = (stop, pass)" by (cases sp)
  show ?case
  proof (cases "cc \<and> passes = [] \<and> notify \<noteq> 0 \<or> \<not> cc \<and> stop")
    case True
    then show ?thesis using Cons.prems(2) in_batch_halted [OF Cons.prems(1)] by (auto simp: sp passes_result_def)
  next
    case False
    have "pass_result sink_inv R P s0 (pass x)" using Cons.prems unfolding passes_ok_def by (auto simp: sp simp del: split_paired_All)
    then obtain res x1 where pass: "pass x = Inr (res, x1)" "P (snd x1)" "in_batch sink_inv R s0 (res = Inr Poll_stopped) (fst x1)"
      by (rule pass_resultE)
    note h = in_batch_halted [OF pass(3)]
    have IH: "passes_result sink_inv R P s0 (\<lambda>x2. n \<longrightarrow> cc \<and> notify = 0 \<and> passes \<noteq> [] \<and> drained_after (snd (last passes)) x2)
        (poll_passes cc notify passes n x1)" if "res \<noteq> Inr Poll_stopped" for n
      using that pass(2,3) Cons.prems(3) by (intro Cons.IH) (auto simp: passes_ok_def)
    have last: "passes \<noteq> [] \<Longrightarrow> last (sp # passes) = last passes" by simp
    consider e where "res = Inl e" | "res = Inr Poll_stopped" | "res = Inr Poll_partial" | "res = Inr Poll_drained"
      by (metis ibv_poll.exhaust sum.exhaust)
    then show ?thesis
    proof cases
      case 3
      with pass False IH [of True] show ?thesis
        by (cases "passes = []") (auto simp: sp passes_result_def split: sum.splits)
    next
      case 4
      then have "drained_after pass x1" unfolding drained_after_def using pass(1) by blast
      with 4 pass False IH [of need] h show ?thesis
        by (cases "passes = []") (auto simp: sp passes_result_def split: sum.splits)
    qed (use pass False h in \<open>auto simp: sp passes_result_def\<close>)
  qed
qed

text \<open>The handler.\<close>

lemma ibv_packet_handler_ok:
  assumes inv: "stream_inv sink_inv s" and P: "P p"
    and passes: "passes_ok sink_inv R P s passes"
    and y: "ibv_packet_handler cc error events notify passes p s = Some y"
  obtains outcome p' s' where "y = Inr (outcome, p', s')" "P p'" "stream_inv sink_inv s'" "R s s'"
    "(\<forall>e. outcome \<noteq> Throws e) \<longrightarrow> (outcome = Calls_stopped \<longleftrightarrow> sb_stopped s')"
    "outcome = Waits_for_event \<longrightarrow> cc \<and> notify = 0 \<and> passes \<noteq> [] \<and> (\<exists>x1. drained_after (snd (last passes)) x1)"
proof -
  have b0: "in_batch sink_inv R s (sb_stopped s) (begin_batch s, s)" by (rule in_batch_start [OF inv])
  consider (event) e where "y = Inr (Throws e, p, end_batch (begin_batch s) s)"
    | (polled) "y = bind_result
            (if error = Success () \<and> \<not> sb_stopped s
             then poll_passes cc notify passes True ((begin_batch s, s), p)
             else Inr (Inr True, (begin_batch s, s), p)) (\<lambda>(res, (st, s1), p1).
          Inr ((case res of
                  Inl e \<Rightarrow> Throws e
                | Inr need_poll \<Rightarrow> if \<not> sb_stopped s1 then ibv_enqueue_receive cc need_poll else Calls_stopped),
               p1, end_batch st s1))"
    using y by (auto simp: ibv_packet_handler_def split: option.splits)
  then show ?thesis
  proof cases
    case event
    with in_batch_end [OF b0] P show ?thesis by (intro that) auto
  next
    case polled
    define z where "z = (if error = Success () \<and> \<not> sb_stopped s
      then poll_passes cc notify passes True ((begin_batch s, s), p) else Inr (Inr True, (begin_batch s, s), p))"
    have "passes_result sink_inv R P s (\<lambda>x1. cc \<and> notify = 0 \<and> passes \<noteq> [] \<and> drained_after (snd (last passes)) x1) z"
    proof (cases "error = Success () \<and> \<not> sb_stopped s")
      case True
      then have "in_batch sink_inv R s False (fst ((begin_batch s, s), p))" using b0 by simp
      then have "passes_result sink_inv R P s (\<lambda>x1. True \<longrightarrow> cc \<and> notify = 0 \<and> passes \<noteq> [] \<and> drained_after (snd (last passes)) x1)
        (poll_passes cc notify passes True ((begin_batch s, s), p))"
        by (rule poll_passes_ok) (use P passes in auto)
      with True show ?thesis by (simp add: z_def)
    next
      case False
      then show ?thesis using b0 P unfolding z_def by (auto simp: passes_result_def)
    qed
    then obtain res st s1 p1 where z: "z = Inr (res, (st, s1), p1)" "P p1" "in_batch sink_inv R s (sb_stopped s1) (st, s1)"
        "res = Inr False \<and> \<not> sb_stopped s1 \<longrightarrow> cc \<and> notify = 0 \<and> passes \<noteq> [] \<and> drained_after (snd (last passes)) ((st, s1), p1)"
      by (rule passes_resultE)
    define outcome where "outcome = (case res of Inl e \<Rightarrow> Throws e
      | Inr need_poll \<Rightarrow> if \<not> sb_stopped s1 then ibv_enqueue_receive cc need_poll else Calls_stopped)"
    have "y = Inr (outcome, p1, end_batch st s1)" using polled z(1) by (simp add: z_def [symmetric] outcome_def)
    moreover have "sb_stopped (end_batch st s1) = sb_stopped s1" using in_batch_end(3) [OF z(3)] by simp
    moreover have "(\<forall>e. outcome \<noteq> Throws e) \<longrightarrow> (outcome = Calls_stopped \<longleftrightarrow> sb_stopped s1)"
      by (auto simp: outcome_def ibv_enqueue_receive_def split: sum.splits)
    moreover have "outcome = Waits_for_event \<longrightarrow> cc \<and> notify = 0 \<and> passes \<noteq> [] \<and> (\<exists>x1. drained_after (snd (last passes)) x1)"
      using z(4) by (auto simp: outcome_def ibv_enqueue_receive_def simp del: split_paired_Ex split: sum.splits if_splits)
    ultimately show ?thesis using in_batch_end [OF z(3)] z(2) by (intro that [of outcome p1 "end_batch st s1"]) simp_all
  qed
qed

end

section \<open>The readers on a ring stream\<close>

interpretation ring_raw: stream_reader ring_virtuals ring_sink_inv same_config
  by unfold_locales

text \<open>The passes of the two ibverbs readers: what the card does in each.\<close>

type_synonym ibv_env = "bool \<times> (nat list \<Rightarrow> int) \<times> (ibv_error + recv_wc list)"
type_synonym mprq_env = "bool \<times> (nat \<Rightarrow> int) \<times> mprq_wc list"

definition ibv_passes :: "'s stream_virtuals \<Rightarrow> ibv_reader \<Rightarrow> ibv_env list \<Rightarrow> (bool \<times> ('s, nat list) pass) list" where
  "ibv_passes vt r env = map (\<lambda>(stop_poll, status, wcs). (stop_poll, ibv_poll_once vt r status wcs)) env"

definition mprq_passes :: "'s stream_virtuals \<Rightarrow> mprq_reader \<Rightarrow> mprq_env list \<Rightarrow> (bool \<times> ('s, mprq_state) pass) list" where
  "mprq_passes vt r env = map (\<lambda>(stop_poll, status, wcs). (stop_poll, mprq_poll_once vt r status wcs)) env"

fun ibv_env_valid :: "ibv_reader \<Rightarrow> ibv_env \<Rightarrow> bool" where
  "ibv_env_valid r (stop_poll, status, wcs) \<longleftrightarrow> (case wcs of Inl _ \<Rightarrow> True | Inr l \<Rightarrow> list_all (wc_valid r) l)"

fun mprq_env_valid :: "mprq_reader \<Rightarrow> mprq_env \<Rightarrow> bool" where
  "mprq_env_valid r (stop_poll, status, wcs) \<longleftrightarrow> list_all (mprq_wc_valid r) wcs"

datatype raw_event =
    Pcap_call "pcap_result list"
  | Ibv_call bool "unit completion" "(int \<times> int) list option" int "ibv_env list"
  | Mprq_call bool "unit completion" "(int \<times> int) list option" int "mprq_env list"

fun raw_event_valid :: "ibv_reader \<Rightarrow> mprq_reader \<Rightarrow> raw_event \<Rightarrow> bool" where
  "raw_event_valid r q (Pcap_call recs) \<longleftrightarrow> True"
| "raw_event_valid r q (Ibv_call cc error events notify env) \<longleftrightarrow> list_all (ibv_env_valid r) env"
| "raw_event_valid r q (Mprq_call cc error events notify env) \<longleftrightarrow> list_all (mprq_env_valid q) env"

text \<open>A handler of one of the readers runs; \<open>None\<close> if it does not return.\<close>

fun raw_call ::
  "'s stream_virtuals \<Rightarrow> ibv_reader \<Rightarrow> mprq_reader \<Rightarrow> raw_event \<Rightarrow> mprq_state \<times> 's stream_base \<Rightarrow>
   (fault + mprq_state \<times> 's stream_base) option" where
  "raw_call vt r q (Pcap_call recs) (d, s) = Some (bind_result (pcap_run vt recs s) (\<lambda>(_, _, s1). Inr (d, s1)))"
| "raw_call vt r q (Ibv_call cc error events notify env) (d, s) =
     map_option (\<lambda>y. bind_result y (\<lambda>(_, _, s1). Inr (d, s1)))
       (ibv_packet_handler cc error events notify (ibv_passes vt r env) [] s)"
| "raw_call vt r q (Mprq_call cc error events notify env) (d, s) =
     map_option (\<lambda>y. bind_result y (\<lambda>(_, d1, s1). Inr (d1, s1)))
       (ibv_packet_handler cc error events notify (mprq_passes vt q env) d s)"

fun raw_calls ::
  "'s stream_virtuals \<Rightarrow> ibv_reader \<Rightarrow> mprq_reader \<Rightarrow> raw_event list \<Rightarrow> mprq_state \<times> 's stream_base \<Rightarrow>
   (fault + mprq_state \<times> 's stream_base) option" where
  "raw_calls vt r q [] x = Some (Inr x)"
| "raw_calls vt r q (e # es) x =
     (case raw_call vt r q e x of
        None \<Rightarrow> None
      | Some (Inl f) \<Rightarrow> Some (Inl f)
      | Some (Inr x1) \<Rightarrow> raw_calls vt r q es x1)"

context stream_reader
begin

lemma ibv_passes_ok:
  assumes "list_all (ibv_env_valid r) env"
  shows "passes_ok sink_inv R (\<lambda>_. True) s0 (ibv_passes vt r env)"
  using assms ibv_poll_once_ok by (fastforce simp: passes_ok_def ibv_passes_def list_all_iff)

lemma mprq_passes_ok:
  assumes "list_all (mprq_env_valid r) env"
  shows "passes_ok sink_inv R (mprq_inv r) s0 (mprq_passes vt r env)"
  using assms mprq_loop_ok by (fastforce simp: passes_ok_def mprq_passes_def mprq_poll_once_def list_all_iff)

lemma ibv_handler_ok:
  assumes "stream_inv sink_inv s" "list_all (ibv_env_valid r) env"
    "ibv_packet_handler cc error events notify (ibv_passes vt r env) posted s = Some z"
  shows "\<exists>outcome posted' s'. z = Inr (outcome, posted', s') \<and> stream_inv sink_inv s' \<and> R s s' \<and>
    ((\<forall>e. outcome \<noteq> Throws e) \<longrightarrow> (outcome = Calls_stopped \<longleftrightarrow> sb_stopped s')) \<and>
    (outcome = Waits_for_event \<longrightarrow> cc \<and> notify = 0 \<and> env \<noteq> [] \<and> (\<exists>x1. drained_after (snd (last (ibv_passes vt r env))) x1))"
proof -
  have "ibv_passes vt r env \<noteq> [] \<longleftrightarrow> env \<noteq> []" by (simp add: ibv_passes_def)
  with ibv_packet_handler_ok [OF assms(1) TrueI ibv_passes_ok [OF assms(2)] assms(3)] show ?thesis by metis
qed

lemma mprq_handler_ok:
  assumes "stream_inv sink_inv s" "mprq_inv q d" "list_all (mprq_env_valid q) env"
    "ibv_packet_handler cc error events notify (mprq_passes vt q env) d s = Some z"
  shows "\<exists>outcome d' s'. z = Inr (outcome, d', s') \<and> mprq_inv q d' \<and> stream_inv sink_inv s' \<and> R s s' \<and>
    ((\<forall>e. outcome \<noteq> Throws e) \<longrightarrow> (outcome = Calls_stopped \<longleftrightarrow> sb_stopped s')) \<and>
    (outcome = Waits_for_event \<longrightarrow> cc \<and> notify = 0 \<and> env \<noteq> [] \<and> (\<exists>x1. drained_after (snd (last (mprq_passes vt q env))) x1))"
proof -
  have "mprq_passes vt q env \<noteq> [] \<longleftrightarrow> env \<noteq> []" by (simp add: mprq_passes_def)
  with ibv_packet_handler_ok [OF assms(1,2) mprq_passes_ok [OF assms(3)] assms(4)] show ?thesis by metis
qed

lemma raw_call_ok:
  assumes "stream_inv sink_inv s" "mprq_inv q d" "raw_event_valid r q e" "raw_call vt r q e (d, s) = Some y"
  shows "\<exists>d' s'. y = Inr (d', s') \<and> mprq_inv q d' \<and> stream_inv sink_inv s'"
proof (cases e)
  case (Pcap_call recs)
  with assms(2,4) pcap_run_ok [OF assms(1), of recs] show ?thesis by auto
next
  case (Ibv_call cc error events notify env)
  with assms(4) obtain z where z: "ibv_packet_handler cc error events notify (ibv_passes vt r env) [] s = Some z"
      "y = bind_result z (\<lambda>(_, _, s1). Inr (d, s1))" by auto
  have "list_all (ibv_env_valid r) env" using assms(3) Ibv_call by simp
  from ibv_handler_ok [OF assms(1) this z(1)] obtain outcome p' s' where "z = Inr (outcome, p', s')" "stream_inv sink_inv s'" by blast
  with z(2) assms(2) show ?thesis by simp
next
  case (Mprq_call cc error events notify env)
  with assms(4) obtain z where z: "ibv_packet_handler cc error events notify (mprq_passes vt q env) d s = Some z"
      "y = bind_result z (\<lambda>(_, d1, s1). Inr (d1, s1))" by auto
  have "list_all (mprq_env_valid q) env" using assms(3) Mprq_call by simp
  from mprq_handler_ok [OF assms(1,2) this z(1)] obtain outcome p' s' where
    "z = Inr (outcome, p', s')" "stream_inv sink_inv s'" "mprq_inv q p'" by blast
  with z(2) show ?thesis by simp
qed

lemma raw_calls_ok:
  assumes "stream_inv sink_inv s" "mprq_inv q d" "list_all (raw_event_valid r q) es" "raw_calls vt r q es (d, s) = Some y"
  shows "\<exists>d' s'. y = Inr (d', s') \<and> mprq_inv q d' \<and> stream_inv sink_inv s'"
  using assms
proof (induction es arbitrary: d s)
  case (Cons e es)
  then obtain z where z: "raw_call vt r q e (d, s) = Some z" by (auto split: option.splits)
  from raw_call_ok [OF Cons.prems(1,2) _ this] Cons.prems(3) obtain d1 s1 where
    "z = Inr (d1, s1)" "mprq_inv q d1" "stream_inv sink_inv s1" by auto
  with Cons.IH [of s1 d1] Cons.prems(3,4) z show ?case by simp
qed auto

end

section \<open>Sizes\<close>

lemma post_batch_pos: "0 < post_batch n"
  by (simp add: post_batch_def)

lemma compute_n_slots_ok:
  assumes "compute_n_slots attr buffer_size raw = Inr n" "0 < raw"
  shows "0 < n" "n \<le> da_max_qp_wr attr" "n \<le> da_max_cqe attr" "n * raw \<le> da_max_mr_size attr" "n * raw \<le> max raw buffer_size"
proof -
  let ?b = "if da_max_mr_size attr < buffer_size then da_max_mr_size attr else buffer_size"
  have n: "0 < n" "n \<le> max 1 (?b div raw)" "n \<le> min (da_max_qp_wr attr) (da_max_cqe attr)" "raw \<le> da_max_mr_size attr"
    using assms by (auto simp: compute_n_slots_def Let_def split: if_splits)
  then show "0 < n" "n \<le> da_max_qp_wr attr" "n \<le> da_max_cqe attr" by simp_all
  have "n * raw \<le> max 1 (?b div raw) * raw" using n(2) by (rule mult_le_mono1)
  also have "\<dots> \<le> max raw ?b" by (simp add: max_def)
  finally have "n * raw \<le> max raw ?b" .
  with n(4) show "n * raw \<le> da_max_mr_size attr" "n * raw \<le> max raw buffer_size" by (simp_all split: if_splits)
qed

lemma compute_mprq_sizes_ok:
  assumes "compute_mprq_sizes attr caps buffer_size = Inr z" "0 \<le> mc_min_stride caps" "0 \<le> mc_max_stride caps"
    "0 \<le> mc_min_strides caps" "0 \<le> mc_max_strides caps"
  shows "2 \<le> mz_wqe z" "mz_wqe z \<le> da_max_qp_wr attr" "mz_strides z \<le> da_max_cqe attr"
    "mz_buffer_size z = mz_wqe z * mz_wqe_size z" "0 < mz_wqe_size z"
    "\<exists>stride n_strides. mz_wqe_size z = 2 ^ stride * 2 ^ n_strides \<and> mz_wqe z * 2 ^ n_strides \<le> mz_strides z"
proof -
  define st where "st = clamp 6 (mc_min_stride caps) (mc_max_stride caps)"
  define ns where "ns = clamp (20 - st) (mc_min_strides caps) (mc_max_strides caps)"
  have nonneg: "0 \<le> st" "0 \<le> ns" using assms(2-) by (auto simp: st_def ns_def clamp_def)
  have pow: "(2 :: nat) ^ nat (st + ns) = 2 ^ nat st * 2 ^ nat ns" using nonneg by (simp add: nat_add_distrib power_add)
  define size :: nat where "size = 2 ^ nat (st + ns)"
  define b where "b = (if buffer_size < 2 * size then 2 * size else buffer_size)"
  define s0 where "s0 = b div 2 ^ nat st"
  define strides where "strides = (if da_max_cqe attr < s0 then da_max_cqe attr else s0)"
  define w0 where "w0 = strides div 2 ^ nat ns"
  define w where "w = (if da_max_qp_wr attr < w0 then da_max_qp_wr attr else w0)"
  have "compute_mprq_sizes attr caps buffer_size = (if w < 2 then Inl (System_error ENOTSUP)
      else Inr \<lparr>mz_wqe_size = size, mz_buffer_size = w * size, mz_strides = strides, mz_wqe = w\<rparr>)"
    unfolding compute_mprq_sizes_def Let_def w_def w0_def strides_def s0_def b_def size_def ns_def st_def ..
  with assms(1) have zz: "\<not> w < 2" "z = \<lparr>mz_wqe_size = size, mz_buffer_size = w * size, mz_strides = strides, mz_wqe = w\<rparr>"
    by (simp_all split: if_splits)
  have "strides \<le> da_max_cqe attr" "w \<le> da_max_qp_wr attr" "w \<le> w0" "0 < size" by (simp_all add: strides_def w_def size_def)
  with zz have z: "mz_wqe_size z = 2 ^ nat (st + ns)" "2 \<le> mz_wqe z" "mz_wqe z \<le> da_max_qp_wr attr" "mz_strides z \<le> da_max_cqe attr"
      "mz_buffer_size z = mz_wqe z * mz_wqe_size z" "mz_wqe z \<le> strides div 2 ^ nat ns" "mz_strides z = strides" "0 < mz_wqe_size z"
    by (simp_all add: w0_def size_def)
  then show "2 \<le> mz_wqe z" "mz_wqe z \<le> da_max_qp_wr attr" "mz_strides z \<le> da_max_cqe attr"
    "mz_buffer_size z = mz_wqe z * mz_wqe_size z" "0 < mz_wqe_size z" by blast+
  have "mz_wqe z * 2 ^ nat ns \<le> strides div 2 ^ nat ns * 2 ^ nat ns" using z(6) by (rule mult_le_mono1)
  also have "\<dots> \<le> strides" by simp
  finally show "\<exists>stride n_strides. mz_wqe_size z = 2 ^ stride * 2 ^ n_strides \<and> mz_wqe z * 2 ^ n_strides \<le> mz_strides z"
    using z(1,7) pow by (intro exI [of _ "nat st"] exI [of _ "nat ns"]) simp
qed

definition caps_nonneg :: "mprq_caps \<Rightarrow> bool" where
  "caps_nonneg caps \<longleftrightarrow> 0 \<le> mc_min_stride caps \<and> 0 \<le> mc_max_stride caps \<and> 0 \<le> mc_min_strides caps \<and> 0 \<le> mc_max_strides caps"

lemma make_mprq_reader_inv:
  assumes "make_mprq_reader supported attr caps max_size buffer_size flag alloc = Inr (q, d)" "caps_nonneg caps" "\<And>n. length (alloc n) = n"
  shows "mprq_inv q d"
proof -
  obtain z where z: "compute_mprq_sizes attr caps buffer_size = Inr z"
      "q = \<lparr>mq_max_size = max_size, mq_buffer = alloc (mz_buffer_size z), mq_wqe_size = mz_wqe_size z, mq_last_flag = flag\<rparr>"
      "ms_wqe_start d = 0"
    using assms(1) by (auto simp: make_mprq_reader_def bind_result_Inr_iff split: if_splits)
  note s = compute_mprq_sizes_ok [OF z(1)]
  have "2 \<le> mz_wqe z" "mz_buffer_size z = mz_wqe z * mz_wqe_size z" "0 < mz_wqe_size z" using s(1,4,5) assms(2) by (simp_all add: caps_nonneg_def)
  then show ?thesis using assms(3) z(2,3) by (simp add: mprq_inv_def)
qed

section \<open>Properties\<close>

text \<open>A frame that carries a packet, and a ring stream.\<close>

lemma example_frame:
  obtains m where "frame_carries [7, 8] (m, 44)" "length m = 46"
proof -
  define c where "c = \<lparr>fc_max_packet_size = 4, fc_source_mac = [2, 0, 0, 0, 0, 1], fc_interface_address = [10, 0, 0, 1],
    fc_address = [239, 129, 2, 3], fc_ttl = 1, fc_source_port = 5000, fc_port = 8888\<rparr>"
  have c: "wf_config c" "length (replicate 46 (0 :: byte)) = fc_max_packet_size c + 42" by (simp_all add: c_def wf_config_def)
  obtain m0 where "frame_ready c m0" using setup_frame_ok [OF c] .
  from fill_frame_ok [OF c(1) this, of "[7, 8]"] obtain m where m: "frame_ready c m" "frame_carries [7, 8] (m, 44)"
    by (auto simp: c_def)
  have "length m = 46" using m(1) frame_fields(1) [OF c(1)] by (auto simp: frame_ready_def c_def)
  with m(2) show ?thesis by (rule that)
qed

lemma example_ring:
  obtains k s where "make_ring_sink 4 True (\<lambda>_. False) = Inr k" "make_stream_base (default_allocate (\<lambda>_. 0)) 0 4 k = Inr s"
    "stream_inv ring_sink_inv s"
proof -
  obtain k where k: "make_ring_sink 4 True (\<lambda>_. False) = Inr k"
    by (simp add: make_ring_sink_def make_ringbuffer_def make_ringbuffer_base_def)
  have "(4 :: nat) < 2 ^ 60" by simp
  from ring_stream.initial_inv [OF example_stream this default_byte_allocator make_ring_sink_ok(1) [OF k]] k example_stream
  show ?thesis by (intro that)
qed





text \<open>
  A capture file is read to its end.  However the file goes on, with errors and packets of any kind, enough calls are one for
  every 64 results and one more; after them the stream has stopped and the reader has called \<^verbatim>\<open>stopped\<close>.
\<close>

lemma pcap_reader_terminates:
  assumes "make_ring_sink cap contiguous_only others = Inr k" "m < 2 ^ 60"
    and "make_stream_base (default_allocate fresh) bug_compat m k = Inr s"
  shows "\<exists>s'. pcap_runs ring_virtuals (length recs div pcap_batch + 1) recs s = Inr (False, s') \<and> sb_stopped s' \<and> stream_inv ring_sink_inv s'"
proof -
  have inv: "stream_inv ring_sink_inv s"
    by (rule ring_stream.initial_inv [OF assms(3,2) default_byte_allocator make_ring_sink_ok(1) [OF assms(1)]])
  have "length recs < pcap_batch * (length recs div pcap_batch + 1)"
    using div_mult_mod_eq [of "length recs" pcap_batch] mod_less_divisor [of pcap_batch "length recs"] by (simp add: pcap_batch_def algebra_simps)
  from ring_raw.pcap_runs_ok [OF inv this] show ?thesis by blast
qed

lemma pcap_reader_terminates_witness:
  "\<exists>k s s'. make_ring_sink 4 True (\<lambda>_. False) = Inr k \<and> make_stream_base (default_allocate (\<lambda>_. 0)) 0 4 k = Inr s \<and>
     pcap_runs ring_virtuals 2 (replicate 64 Pcap_error) s = Inr (False, s') \<and> sb_stopped s'"
proof -
  obtain k s where k: "make_ring_sink 4 True (\<lambda>_. False) = Inr k" "make_stream_base (default_allocate (\<lambda>_. 0)) 0 4 k = Inr s"
    by (rule example_ring)
  have two: "length (replicate 64 Pcap_error) div pcap_batch + 1 = 2" by (simp add: pcap_batch_def)
  have "(4 :: nat) < 2 ^ 60" by simp
  from pcap_reader_terminates [OF k(1) this k(2), of "replicate 64 Pcap_error", unfolded two] obtain s' where
    "pcap_runs ring_virtuals 2 (replicate 64 Pcap_error) s = Inr (False, s')" "sb_stopped s'" by blast
  with k show ?thesis by blast
qed



end
