(* ===== verification/Semaphores.thy ===== *)
theory Semaphores
  imports Ringbuffer Verbs
begin

text \<open>
  The semaphores of \<^verbatim>\<open>common_semaphore.h\<close> and \<^verbatim>\<open>common_semaphore.cpp\<close>, whose contract the ring buffer relies on (\<open>sem_put\<close> and \<open>sem_try_get\<close>): the
  spinning one, with the atomic operations of all threads interleaved, and those on top of \<^verbatim>\<open>sem_t\<close>, pipes and
  \<^verbatim>\<open>eventfd\<close>, whose system calls are arguments.
\<close>

section \<open>Spinning\<close>

text \<open>Where a thread is: between its calls, in the loop of \<^verbatim>\<open>get\<close> or before the exchange of \<^verbatim>\<open>try_get\<close>, with the value of \<^verbatim>\<open>cur\<close>.\<close>

datatype spin_pc = Idle | In_get "32 word" | In_try_get "32 word" | Result int

text \<open>The last three fields count the calls of \<^verbatim>\<open>put\<close>, the calls of the others that have returned 0, and record the values that the semaphore has had.\<close>

record spin_state =
  spin_value :: "32 word"
  spin_pcs :: "nat \<Rightarrow> spin_pc"
  spin_puts :: nat
  spin_gets :: nat
  spin_history :: "32 word list"

definition make_semaphore_spin :: "32 word \<Rightarrow> spin_state" where
  "make_semaphore_spin initial = \<lparr>spin_value = initial, spin_pcs = (\<lambda>_. Idle), spin_puts = 0, spin_gets = 0, spin_history = [initial]\<rparr>"

definition set_value :: "32 word \<Rightarrow> spin_state \<Rightarrow> spin_state" where
  "set_value v s = s\<lparr>spin_value := v, spin_history := spin_history s @ [v]\<rparr>"

definition set_pc :: "nat \<Rightarrow> spin_pc \<Rightarrow> spin_state \<Rightarrow> spin_state" where
  "set_pc t pc s = s\<lparr>spin_pcs := (spin_pcs s)(t := pc)\<rparr>"

definition spin_put :: "spin_state \<Rightarrow> spin_state" where
  "spin_put s = (set_value (spin_value s + 1) s)\<lparr>spin_puts := spin_puts s + 1\<rparr>"

definition spin_take :: "nat \<Rightarrow> 32 word \<Rightarrow> spin_state \<Rightarrow> spin_state" where
  "spin_take t cur s = set_pc t (Result 0) ((set_value (cur - 1) s)\<lparr>spin_gets := spin_gets s + 1\<rparr>)"

text \<open>A turn of the loop of \<^verbatim>\<open>get\<close>; a weak exchange may fail without a reason, and a failing one loads the value.\<close>

definition spin_get_turn :: "bool \<Rightarrow> nat \<Rightarrow> 32 word \<Rightarrow> spin_state \<Rightarrow> spin_state" where
  "spin_get_turn weak_failure t cur s =
     (if cur = 0 then set_pc t (In_get (spin_value s)) s
      else if spin_value s = cur \<and> \<not> weak_failure then spin_take t cur s
      else set_pc t (In_get (spin_value s)) s)"

definition spin_try_get_end :: "nat \<Rightarrow> 32 word \<Rightarrow> spin_state \<Rightarrow> spin_state" where
  "spin_try_get_end t cur s =
     (if cur > 0 \<and> spin_value s = cur then spin_take t cur s else set_pc t (Result (- 1)) s)"

datatype spin_event = Put nat | Get nat | Get_turn bool nat | Try_get nat | Try_get_end nat | Return nat

fun spin_step :: "spin_event \<Rightarrow> spin_state \<Rightarrow> spin_state option" where
  "spin_step (Put t) s = (if spin_pcs s t = Idle then Some (spin_put s) else None)"
| "spin_step (Get t) s = (if spin_pcs s t = Idle then Some (set_pc t (In_get (spin_value s)) s) else None)"
| "spin_step (Get_turn weak_failure t) s =
     (case spin_pcs s t of In_get cur \<Rightarrow> Some (spin_get_turn weak_failure t cur s) | _ \<Rightarrow> None)"
| "spin_step (Try_get t) s = (if spin_pcs s t = Idle then Some (set_pc t (In_try_get (spin_value s)) s) else None)"
| "spin_step (Try_get_end t) s = (case spin_pcs s t of In_try_get cur \<Rightarrow> Some (spin_try_get_end t cur s) | _ \<Rightarrow> None)"
| "spin_step (Return t) s = (case spin_pcs s t of Result _ \<Rightarrow> Some (set_pc t Idle s) | _ \<Rightarrow> None)"

fun spin_run :: "spin_event list \<Rightarrow> spin_state \<Rightarrow> spin_state option" where
  "spin_run [] s = Some s"
| "spin_run (e # es) s = (case spin_step e s of None \<Rightarrow> None | Some s1 \<Rightarrow> spin_run es s1)"

section \<open>System calls\<close>

text \<open>\<open>Inl errno\<close> is a call that fails; \<open>n\<close> is the count that the operating system keeps.\<close>

definition EINTR :: int where "EINTR = 4"
datatype sem_result = Returns int | Throws_error ibv_error | Assert_fails

definition make_semaphore_posix :: "int + unit \<Rightarrow> nat \<Rightarrow> ibv_error + nat" where
  "make_semaphore_posix status initial = (case status of Inl errno \<Rightarrow> Inl (throw_errno errno) | Inr _ \<Rightarrow> Inr initial)"

definition posix_put :: "int + unit \<Rightarrow> nat \<Rightarrow> sem_result \<times> nat" where
  "posix_put status n = (case status of Inl errno \<Rightarrow> (Throws_error (throw_errno errno), n) | Inr _ \<Rightarrow> (Returns 0, sem_put n))"

text \<open>
  \<^verbatim>\<open>sem_trywait\<close>, and a \<^verbatim>\<open>read\<close> that does not block, take one or find nothing; they may also fail with another error, the argument \<open>failure\<close>.
\<close>

definition fd_read :: "int option \<Rightarrow> nat \<Rightarrow> (int + unit) \<times> nat" where
  "fd_read failure n =
     (case failure of Some errno \<Rightarrow> (Inl errno, n) | None \<Rightarrow> if n = 0 then (Inl EAGAIN, n) else (Inr (), n - 1))"

definition posix_try_get :: "int option \<Rightarrow> nat \<Rightarrow> sem_result \<times> nat" where
  "posix_try_get failure n =
     (case fd_read failure n of
        (Inl errno, n1) \<Rightarrow> if errno = EAGAIN \<or> errno = EINTR then (Returns (- 1), n1) else (Throws_error (throw_errno errno), n1)
      | (Inr _, n1) \<Rightarrow> (Returns 0, n1))"

text \<open>\<^verbatim>\<open>sem_wait\<close> blocks while the count is zero.\<close>

definition posix_get :: "int option \<Rightarrow> nat \<Rightarrow> (sem_result \<times> nat) option" where
  "posix_get failure n =
     (case failure of
        Some errno \<Rightarrow> Some (if errno = EINTR then (Returns (- 1), n) else (Throws_error (throw_errno errno), n))
      | None \<Rightarrow> if n = 0 then None else Some (Returns 0, n - 1))"

text \<open>The loops of \<^verbatim>\<open>put\<close> over the results of \<^verbatim>\<open>write\<close>; \<open>None\<close> while the loop has not ended.\<close>

fun pipe_put :: "(int + unit) list \<Rightarrow> nat \<Rightarrow> (sem_result \<times> nat) option" where
  "pipe_put [] n = None"
| "pipe_put (Inr _ # ws) n = Some (Returns 0, sem_put n)"
| "pipe_put (Inl errno # ws) n = (if errno \<noteq> EINTR then Some (Throws_error (throw_errno errno), n) else pipe_put ws n)"

fun eventfd_put :: "(int + unit) list \<Rightarrow> nat \<Rightarrow> (sem_result \<times> nat) option" where
  "eventfd_put [] n = None"
| "eventfd_put (Inr _ # ws) n = Some (Returns 0, sem_put n)"
| "eventfd_put (Inl errno # ws) n = (if errno \<noteq> - 1 then Some (Throws_error (throw_errno errno), n) else eventfd_put ws n)"

definition pipe_try_get :: "int option \<Rightarrow> nat \<Rightarrow> sem_result \<times> nat" where
  "pipe_try_get failure n =
     (case fd_read failure n of
        (Inl errno, n1) \<Rightarrow>
          if errno = EAGAIN \<or> errno = EWOULDBLOCK then (Returns (- 1), n1) else (Throws_error (throw_errno errno), n1)
      | (Inr _, n1) \<Rightarrow> (Returns 0, n1))"

definition eventfd_try_get :: "int option \<Rightarrow> nat \<Rightarrow> sem_result \<times> nat" where
  "eventfd_try_get failure n =
     (case fd_read failure n of
        (Inl errno, n1) \<Rightarrow> if errno = EAGAIN \<or> errno = EINTR then (Returns (- 1), n1) else (Throws_error (throw_errno errno), n1)
      | (Inr _, n1) \<Rightarrow> (Returns 0, n1))"

text \<open>
  \<^verbatim>\<open>get\<close>, which is the same for pipes and \<^verbatim>\<open>eventfd\<close>.  A turn has the result of \<^verbatim>\<open>poll\<close>, the count at the time of the read (other
  threads use the semaphore too), and a failure of the read.
\<close>

fun fd_get :: "((int + unit) \<times> nat \<times> int option) list \<Rightarrow> (sem_result \<times> nat) option" where
  "fd_get [] = None"
| "fd_get ((Inl errno, n, _) # turns) =
     Some (if errno = EINTR then (Returns (- 1), n) else (Throws_error (throw_errno errno), n))"
| "fd_get ((Inr _, n, failure) # turns) =
     (case fd_read failure n of
        (Inl errno, n1) \<Rightarrow>
          if errno = EAGAIN \<or> errno = EWOULDBLOCK then fd_get turns else Some (Throws_error (throw_errno errno), n1)
      | (Inr _, n1) \<Rightarrow> Some (Returns 0, n1))"

text \<open>\<^verbatim>\<open>semaphore_get\<close> calls \<^verbatim>\<open>get\<close> until it is not interrupted; each element of the list is what a call returns, with the count after it.\<close>

fun semaphore_get :: "(sem_result \<times> nat) list \<Rightarrow> (sem_result \<times> nat) option" where
  "semaphore_get [] = None"
| "semaphore_get (r # rs) = (if fst r = Returns (- 1) then semaphore_get rs else Some r)"

text \<open>
  Constructors.  \<open>fds\<close> is the result of \<^verbatim>\<open>pipe\<close>, \<open>fcntls\<close> are the results of the calls of \<^verbatim>\<open>fcntl\<close> in their order, and \<open>writes\<close> has for every initial
  \<^verbatim>\<open>put\<close> the results of its writes.  The second component of the result is the descriptors that are open.
\<close>

fun first_failure :: "(int + unit) list \<Rightarrow> int option" where
  "first_failure [] = None"
| "first_failure (Inl errno # rs) = Some errno"
| "first_failure (Inr _ # rs) = first_failure rs"

fun put_initial :: "nat \<Rightarrow> (int + unit) list list \<Rightarrow> nat \<Rightarrow> (ibv_error + nat) option" where
  "put_initial 0 writes n = Some (Inr n)"
| "put_initial (Suc k) [] n = None"
| "put_initial (Suc k) (ws # writes) n =
     (case pipe_put ws n of
        None \<Rightarrow> None
      | Some (Throws_error e, _) \<Rightarrow> Some (Inl e)
      | Some (_, n1) \<Rightarrow> put_initial k writes n1)"

definition make_semaphore_pipe ::
  "int + (int \<times> int) \<Rightarrow> (int + unit) list \<Rightarrow> (int + unit) list list \<Rightarrow> nat \<Rightarrow> ((ibv_error + (int \<times> int) \<times> nat) \<times> int list) option" where
  "make_semaphore_pipe fds fcntls writes initial =
     (case fds of
        Inl errno \<Rightarrow> Some (Inl (throw_errno errno), [])
      | Inr (r, w) \<Rightarrow>
          (case first_failure fcntls of
             Some errno \<Rightarrow> Some (Inl (throw_errno errno), [r, w])
           | None \<Rightarrow>
               (case put_initial initial writes 0 of
                  None \<Rightarrow> None
                | Some (Inl e) \<Rightarrow> Some (Inl e, [r, w])
                | Some (Inr n) \<Rightarrow> Some (Inr ((r, w), n), [r, w]))))"

definition make_semaphore_eventfd :: "int + int \<Rightarrow> nat \<Rightarrow> ibv_error + (int \<times> nat)" where
  "make_semaphore_eventfd fd initial = (case fd of Inl errno \<Rightarrow> Inl (throw_errno errno) | Inr f \<Rightarrow> Inr (f, initial))"

text \<open>
  Moving.  The results have the two objects after the operation, the descriptors that are open, and the exception if there is one; \<open>status\<close> is the result
  of \<^verbatim>\<open>close\<close>.
\<close>

definition close_fd :: "int + unit \<Rightarrow> int \<Rightarrow> int list \<Rightarrow> ibv_error option \<times> int \<times> int list" where
  "close_fd status fd opened =
     (if fd = - 1 then (None, fd, opened)
      else (case status of Inl errno \<Rightarrow> (Some (throw_errno errno), fd, opened) | Inr _ \<Rightarrow> (None, - 1, remove1 fd opened)))"

definition pipe_move_construct :: "int \<times> int \<Rightarrow> (int \<times> int) \<times> (int \<times> int)" where
  "pipe_move_construct other = (other, (- 1, - 1))"

definition pipe_move_assign ::
  "int + unit \<Rightarrow> int + unit \<Rightarrow> int \<times> int \<Rightarrow> int \<times> int \<Rightarrow> int list \<Rightarrow> ibv_error option \<times> (int \<times> int) \<times> (int \<times> int) \<times> int list" where
  "pipe_move_assign status0 status1 this other opened =
     (case close_fd status0 (fst this) opened of
        (Some e, a, opened1) \<Rightarrow> (Some e, (a, snd this), other, opened1)
      | (None, a, opened1) \<Rightarrow>
          (case close_fd status1 (snd this) opened1 of
             (Some e, b, opened2) \<Rightarrow> (Some e, (a, b), other, opened2)
           | (None, b, opened2) \<Rightarrow> (None, other, (- 1, - 1), opened2)))"

definition eventfd_move_construct :: "int \<Rightarrow> int \<times> int" where
  "eventfd_move_construct other = (other, - 1)"

definition eventfd_move_assign :: "int + unit \<Rightarrow> int \<Rightarrow> int \<Rightarrow> int list \<Rightarrow> ibv_error option \<times> int \<times> int \<times> int list" where
  "eventfd_move_assign status this other opened =
     (case close_fd status this opened of (e, old, opened1) \<Rightarrow> (e, other, old, opened1))"

text \<open>
  A sequence of operations.  For each operation the list has the results of its system calls; the result has the number of calls of \<^verbatim>\<open>put\<close> and of
  \<^verbatim>\<open>get\<close> and \<^verbatim>\<open>try_get\<close> that succeeded, and is \<open>None\<close> if one blocks.
\<close>

datatype ('p, 'g, 't) sem_op = Put_op 'p | Get_op 'g | Try_get_op 't

definition one_if_ok :: "sem_result \<Rightarrow> nat" where
  "one_if_ok r = (if r = Returns 0 then 1 else 0)"

fun sem_run ::
  "('p \<Rightarrow> nat \<Rightarrow> (sem_result \<times> nat) option) \<Rightarrow> ('g \<Rightarrow> nat \<Rightarrow> (sem_result \<times> nat) option) \<Rightarrow> ('t \<Rightarrow> nat \<Rightarrow> sem_result \<times> nat) \<Rightarrow>
   ('p, 'g, 't) sem_op list \<Rightarrow> nat \<Rightarrow> (nat \<times> nat \<times> nat) option" where
  "sem_run put get try_get [] n = Some (0, 0, n)"
| "sem_run put get try_get (Put_op e # ops) n =
     (case put e n of
        None \<Rightarrow> None
      | Some (r, n1) \<Rightarrow> map_option (\<lambda>(ps, gs, m). (ps + one_if_ok r, gs, m)) (sem_run put get try_get ops n1))"
| "sem_run put get try_get (Get_op e # ops) n =
     (case get e n of
        None \<Rightarrow> None
      | Some (r, n1) \<Rightarrow> map_option (\<lambda>(ps, gs, m). (ps, gs + one_if_ok r, m)) (sem_run put get try_get ops n1))"
| "sem_run put get try_get (Try_get_op e # ops) n =
     (case try_get e n of
        (r, n1) \<Rightarrow> map_option (\<lambda>(ps, gs, m). (ps, gs + one_if_ok r, m)) (sem_run put get try_get ops n1))"

text \<open>A \<^verbatim>\<open>get\<close> that is not disturbed: the count is the same in all its turns.\<close>

definition fd_get_alone :: "((int + unit) \<times> int option) list \<Rightarrow> nat \<Rightarrow> (sem_result \<times> nat) option" where
  "fd_get_alone turns n = fd_get (map (\<lambda>(polled, failure). (polled, n, failure)) turns)"

section \<open>The contract of a semaphore\<close>

locale counting_semaphore =
  fixes put :: "'p \<Rightarrow> nat \<Rightarrow> (sem_result \<times> nat) option"
    and get :: "'g \<Rightarrow> nat \<Rightarrow> (sem_result \<times> nat) option"
    and try_get :: "'t \<Rightarrow> nat \<Rightarrow> sem_result \<times> nat"
  assumes put_counts: "put e n = Some (r, m) \<Longrightarrow> if r = Returns 0 then m = sem_put n else m = n"
    and get_counts: "get g n = Some (r, m) \<Longrightarrow> if r = Returns 0 then sem_try_get n = Some m else m = n"
    and try_get_counts: "try_get h n = (r, m) \<Longrightarrow> if r = Returns 0 then sem_try_get n = Some m else m = n"
begin

lemma put_amount: "put e n = Some (r, m) \<Longrightarrow> m = n + one_if_ok r"
  by (drule put_counts) (auto simp: one_if_ok_def sem_put_def split: if_splits)

lemma taken_amount: "(if r = Returns 0 then sem_try_get n = Some m else m = n) \<Longrightarrow> n = m + one_if_ok r"
  by (auto simp: one_if_ok_def sem_try_get_def split: if_splits)

lemma counts: "sem_run put get try_get ops n = Some (ps, gs, m) \<Longrightarrow> m + gs = n + ps"
proof (induction ops arbitrary: n ps gs m)
  case (Cons op ops)
  show ?case
  proof (cases op)
    case (Put_op e)
    with Cons show ?thesis by (fastforce split: option.splits dest!: put_amount)
  next
    case (Get_op e)
    with Cons show ?thesis by (fastforce split: option.splits dest!: get_counts taken_amount)
  next
    case (Try_get_op e)
    obtain r n1 where r: "try_get e n = (r, n1)" by fastforce
    from Try_get_op r Cons.prems obtain gs1 where "sem_run put get try_get ops n1 = Some (ps, gs1, m)" "gs = gs1 + one_if_ok r" by auto
    with Cons.IH [of n1] taken_amount [OF try_get_counts [OF r]] show ?thesis by simp
  qed
qed simp

end

section \<open>The spinning semaphore counts\<close>

definition spin_inv :: "nat \<Rightarrow> spin_state \<Rightarrow> bool" where
  "spin_inv initial s \<longleftrightarrow>
     (initial + spin_puts s < 2 ^ 32 \<longrightarrow> unat (spin_value s) + spin_gets s = initial + spin_puts s) \<and>
     (\<forall>t. spin_pcs s t = Result 0 \<or> spin_pcs s t = Result (- 1) \<or> (\<forall>r. spin_pcs s t \<noteq> Result r))"

lemma spin_take_inv:
  assumes "spin_inv initial s" "cur \<noteq> 0" "spin_value s = cur"
  shows "spin_inv initial (spin_take t cur s)"
proof -
  have "unat (cur - 1) = unat cur - 1" "0 < unat cur" using assms(2) by (simp_all add: unat_minus_one unat_gt_0)
  then show ?thesis using assms by (auto simp: spin_inv_def spin_take_def set_pc_def set_value_def)
qed

lemma spin_put_inv:
  assumes "spin_inv initial s"
  shows "spin_inv initial (spin_put s)"
proof -
  have "unat (spin_value s + 1) = unat (spin_value s) + 1" if "unat (spin_value s) + 1 < 2 ^ 32"
    using that by (simp add: unat_word_ariths)
  then show ?thesis using assms by (auto simp: spin_inv_def spin_put_def set_value_def)
qed

lemma spin_step_inv: "spin_inv initial s \<Longrightarrow> spin_step e s = Some s' \<Longrightarrow> spin_inv initial s'"
proof (cases e)
  case (Put t)
  then show "spin_inv initial s \<Longrightarrow> spin_step e s = Some s' \<Longrightarrow> spin_inv initial s'"
    by (auto split: if_splits intro: spin_put_inv)
qed (auto simp: spin_get_turn_def spin_try_get_end_def split: if_splits spin_pc.splits intro!: spin_take_inv,
    auto simp: spin_inv_def set_pc_def)

lemma spin_run_inv: "spin_inv initial s \<Longrightarrow> spin_run es s = Some s' \<Longrightarrow> spin_inv initial s'"
  by (induction es arbitrary: s) (auto split: option.splits dest: spin_step_inv)

text \<open>A thread that is not disturbed gets through the loop in two turns.\<close>

lemma spin_get_undisturbed:
  assumes "spin_pcs s t = In_get cur" "spin_value s \<noteq> 0"
  shows "\<exists>s1 k. k \<le> 2 \<and> spin_run (replicate k (Get_turn False t)) s = Some s1 \<and> spin_pcs s1 t = Result 0 \<and>
    sem_try_get (unat (spin_value s)) = Some (unat (spin_value s1))"
proof -
  have take: "sem_try_get (unat (spin_value s)) = Some (unat (spin_value s - 1))"
    using assms(2) by (simp add: sem_try_get_def unat_minus_one unat_gt_0)
  show ?thesis
  proof (cases "cur = spin_value s")
    case True
    with assms take show ?thesis
      by (intro exI [of _ "spin_take t cur s"] exI [of _ "Suc 0"])
        (simp add: spin_get_turn_def spin_take_def set_pc_def set_value_def)
  next
    case False
    let ?s = "set_pc t (In_get (spin_value s)) s"
    have "spin_get_turn False t cur s = ?s" using False by (auto simp: spin_get_turn_def)
    moreover have "spin_get_turn False t (spin_value s) ?s = spin_take t (spin_value s) ?s"
      using assms(2) by (simp add: spin_get_turn_def set_pc_def)
    ultimately show ?thesis using assms take
      by (intro exI [of _ "spin_take t (spin_value s) ?s"] exI [of _ "Suc (Suc 0)"])
        (simp add: spin_take_def set_pc_def set_value_def)
  qed
qed

section \<open>The others\<close>

lemma fd_read_takes: "fd_read failure n = (Inr (), m) \<longleftrightarrow> failure = None \<and> sem_try_get n = Some m"
  by (auto simp: fd_read_def sem_try_get_def split: option.splits)

lemma fd_get_takes:
  "fd_get turns = Some (Returns 0, m) \<Longrightarrow> \<exists>n failure. (Inr (), n, failure) \<in> set turns \<and> sem_try_get n = Some m"
proof (induction turns rule: fd_get.induct)
  case (3 u n failure turns)
  then show ?case by (cases "fd_read failure n") (auto simp: fd_read_takes split: sum.splits if_splits)
qed (auto split: if_splits)

lemma pipe_put_amount: "pipe_put ws n = Some (r, m) \<Longrightarrow> if r = Returns 0 then m = sem_put n else m = n"
  by (induction ws n rule: pipe_put.induct) (auto split: if_splits)

lemma eventfd_put_amount: "eventfd_put ws n = Some (r, m) \<Longrightarrow> if r = Returns 0 then m = sem_put n else m = n"
  by (induction ws n rule: eventfd_put.induct) (auto split: if_splits)

lemma fd_read_counts: "fd_read failure n = (r, m) \<Longrightarrow> if r = Inr () then sem_try_get n = Some m else m = n"
  by (auto simp: fd_read_def sem_try_get_def split: option.splits if_splits)

lemma fd_get_alone_counts:
  "fd_get_alone turns n = Some (r, m) \<Longrightarrow> if r = Returns 0 then sem_try_get n = Some m else m = n"
proof (induction turns)
  case (Cons turn turns)
  show ?case
  proof (cases turn)
    case (Pair polled failure)
    with Cons show ?thesis
      by (cases polled; cases "fd_read failure n")
        (auto simp: fd_get_alone_def dest!: fd_read_counts split: sum.splits if_splits)
  qed
qed (simp add: fd_get_alone_def)

interpretation posix_sem: counting_semaphore "\<lambda>status n. Some (posix_put status n)" posix_get posix_try_get
  by unfold_locales
    (auto simp: posix_put_def posix_get_def posix_try_get_def sem_try_get_def dest!: fd_read_counts
      split: sum.splits option.splits if_splits prod.splits)

interpretation pipe_sem: counting_semaphore pipe_put fd_get_alone pipe_try_get
  by unfold_locales
    (auto simp: pipe_try_get_def dest: pipe_put_amount fd_get_alone_counts dest!: fd_read_counts split: sum.splits if_splits prod.splits)

interpretation eventfd_sem: counting_semaphore eventfd_put fd_get_alone eventfd_try_get
  by unfold_locales
    (auto simp: eventfd_try_get_def dest: eventfd_put_amount fd_get_alone_counts dest!: fd_read_counts split: sum.splits if_splits prod.splits)

text \<open>
  Moving passes the descriptors on: those of the target are closed, those of the source stay open and belong to the target.  A constructor that fails after
  \<^verbatim>\<open>pipe\<close> leaves both descriptors open, with no object to close them.
\<close>

lemma pipe_move_assign_owner:
  assumes "a \<noteq> - 1" "b \<noteq> - 1" "c \<noteq> - 1" "d \<noteq> - 1" "distinct [a, b, c, d]"
  shows "pipe_move_assign (Inr ()) (Inr ()) (a, b) (c, d) [a, b, c, d] = (None, (c, d), (- 1, - 1), [c, d])"
  using assms by (simp add: pipe_move_assign_def close_fd_def)

lemma eventfd_move_assign_owner:
  assumes "a \<noteq> - 1" "c \<noteq> - 1" "a \<noteq> c"
  shows "eventfd_move_assign (Inr ()) a c [a, c] = (None, c, - 1, [c])"
  using assms by (simp add: eventfd_move_assign_def close_fd_def)

lemma make_semaphore_pipe_leaks:
  "first_failure fcntls = Some errno \<Longrightarrow>
   make_semaphore_pipe (Inr (r, w)) fcntls writes initial = Some (Inl (throw_errno errno), [r, w])"
  by (simp add: make_semaphore_pipe_def)

lemma pipe_put_retries: "pipe_put (replicate k (Inl EINTR) @ Inr () # ws) n = Some (Returns 0, sem_put n)"
  by (induction k) simp_all

section \<open>Properties\<close>

text \<open>
  C27: The spinning semaphore counts.  In every interleaving of any number of threads in \<^verbatim>\<open>put\<close>, \<^verbatim>\<open>get\<close> and \<^verbatim>\<open>try_get\<close>, down to the single atomic
  operations and with exchanges that fail for no reason, the value is the initial value and the number of puts, less the number of calls
  that have got something, as long as the sum fits into 32 bits; so no more calls succeed than there is to get.  A thread in \<^verbatim>\<open>get\<close>
  that finds a positive value and is not disturbed gets through in two turns of the loop and takes one.
\<close>

theorem spin_semaphore_counts:
  assumes "spin_run es (make_semaphore_spin initial) = Some s" "unat initial + spin_puts s < 2 ^ 32"
  shows "unat (spin_value s) + spin_gets s = unat initial + spin_puts s \<and>
    (\<forall>t cur. spin_pcs s t = In_get cur \<and> spin_value s \<noteq> 0 \<longrightarrow>
      (\<exists>s1 k. k \<le> 2 \<and> spin_run (replicate k (Get_turn False t)) s = Some s1 \<and> spin_pcs s1 t = Result 0 \<and>
         sem_try_get (unat (spin_value s)) = Some (unat (spin_value s1))))"
proof -
  have "spin_inv (unat initial) (make_semaphore_spin initial)" by (simp add: spin_inv_def make_semaphore_spin_def)
  from spin_run_inv [OF this assms(1)] assms(2) spin_get_undisturbed show ?thesis by (auto simp: spin_inv_def)
qed

theorem spin_semaphore_counts_witness:
  "\<exists>s. spin_run [Get 0, Put 1, Put 2, Get_turn False 0, Try_get 3, Get_turn False 0, Try_get_end 3] (make_semaphore_spin 0) = Some s \<and>
     spin_value s = 1 \<and> spin_gets s = 1 \<and> unat (spin_value s) + spin_gets s = 2"
proof -
  let ?es = "[Get 0, Put 1, Put 2, Get_turn False 0, Try_get 3, Get_turn False 0, Try_get_end 3]"
  obtain s where s: "spin_run ?es (make_semaphore_spin 0) = Some s" "spin_value s = 1" "spin_gets s = 1" "spin_puts s = 2"
    by (simp add: make_semaphore_spin_def spin_put_def set_value_def set_pc_def spin_get_turn_def spin_take_def spin_try_get_end_def)
  with spin_semaphore_counts [OF s(1)] show ?thesis by auto
qed

text \<open>
  \<^verbatim>\<open>try_get\<close> of the spinning semaphore can fail although the semaphore was never zero: when another thread changes the value between
  the load and the exchange, here by a \<^verbatim>\<open>put\<close>, it returns -1.
\<close>

lemma spin_try_get_spurious:
  "\<exists>es s t. spin_run es (make_semaphore_spin 1) = Some s \<and> spin_pcs s t = Result (- 1) \<and> 0 \<notin> set (spin_history s)"
proof -
  have "\<exists>s. spin_run [Try_get 0, Put 1, Try_get_end 0] (make_semaphore_spin 1) = Some s \<and> spin_pcs s 0 = Result (- 1) \<and>
      0 \<notin> set (spin_history s)"
    by (simp add: make_semaphore_spin_def spin_put_def set_value_def set_pc_def spin_try_get_end_def)
  then show ?thesis by blast
qed


definition example_ops :: "((int + unit) list, ((int + unit) \<times> int option) list, int option) sem_op list" where
  "example_ops = [Put_op [Inl EINTR, Inr ()], Put_op [Inr ()], Get_op [(Inr (), Some EAGAIN), (Inr (), None)], Try_get_op (Some EAGAIN), Try_get_op None]"


end
