(* ===== verification/SocketSenders.thy ===== *)
theory SocketSenders
  imports SendTransports SendSystem Verbs
begin

text \<open>
  The transports on sockets: \<^verbatim>\<open>send_udp.cpp\<close>, with \<^verbatim>\<open>sendmmsg\<close> and without, and \<^verbatim>\<open>send_tcp.cpp\<close>, and the checks with which the sockets of
  senders and of the UDP reader (\<^verbatim>\<open>recv_udp.cpp\<close>) are made.  The operating system is an argument: the results of its calls and of
  asynchronous operations.
\<close>

section \<open>UDP with \<^verbatim>\<open>sendmmsg\<close>\<close>

text \<open>
  \<^verbatim>\<open>async_send_packets\<close> puts the buffers of all packets into one vector, and for every packet its offset and number of buffers into another; the
  message that the system sends for a packet is that slice.
\<close>

definition make_msg_iov :: "transmit_packet list \<Rightarrow> byte list list" where
  "make_msg_iov ps = concat (map (\<lambda>p. sp_buffers (tp_pkt p)) ps)"

fun make_msgvec :: "nat \<Rightarrow> transmit_packet list \<Rightarrow> (nat \<times> nat) list" where
  "make_msgvec offset [] = []"
| "make_msgvec offset (p # ps) =
     (let iovlen = length (sp_buffers (tp_pkt p)) in (offset, iovlen) # make_msgvec (offset + iovlen) ps)"

definition gather :: "byte list list \<Rightarrow> nat \<times> nat \<Rightarrow> byte list" where
  "gather iov msg = concat (take (snd msg) (drop (fst msg) iov))"

text \<open>The result of a call of \<^verbatim>\<open>sendmmsg\<close>: the number of messages sent, or an error.\<close>

datatype mmsg_result = Mmsg_sent nat | Mmsg_error int

definition set_result :: "nat \<Rightarrow> error_code \<Rightarrow> transmit_packet list \<Rightarrow> transmit_packet list" where
  "set_result i ec ps = ps[i := (ps ! i)\<lparr>tp_result := ec\<rparr>]"

text \<open>
  One call: the index of the first packet not dealt with, the packets, and the messages that were sent.
\<close>

definition mmsg_step ::
  "byte list list \<Rightarrow> mmsg_result \<Rightarrow> nat \<times> transmit_packet list \<times> byte list list \<Rightarrow> nat \<times> transmit_packet list \<times> byte list list" where
  "mmsg_step msgs r x =
     (let (first, ps, out) = x in
      case r of
        Mmsg_error errno \<Rightarrow>
          if errno \<noteq> EAGAIN \<and> errno \<noteq> EWOULDBLOCK then (first + 1, set_result first (Other_error errno) ps, out) else x
      | Mmsg_sent k \<Rightarrow>
          (first + k, fold (\<lambda>i. set_result (first + i) Success) [0..<k] ps, out @ take k (drop first msgs)))"

text \<open>
  \<^verbatim>\<open>send_packets\<close>, with the callbacks that continue when the socket is writable.  The result is \<open>None\<close> while it has not posted the handler.
\<close>

fun udp_send_mmsg ::
  "byte list list \<Rightarrow> mmsg_result list \<Rightarrow> nat \<times> transmit_packet list \<times> byte list list \<Rightarrow> (transmit_packet list \<times> byte list list) option" where
  "udp_send_mmsg msgs rs (first, ps, out) =
     (if first < length ps then
        (case rs of
           [] \<Rightarrow> None
         | r # rs1 \<Rightarrow>
             let (first1, ps1, out1) = mmsg_step msgs r (first, ps, out) in
             if first1 < length ps1 then udp_send_mmsg msgs rs1 (first1, ps1, out1) else Some (ps1, out1))
      else Some (ps, out))"

declare udp_send_mmsg.simps [simp del]

definition udp_async_send_mmsg :: "mmsg_result list \<Rightarrow> transmit_packet list \<Rightarrow> (transmit_packet list \<times> byte list list) option" where
  "udp_async_send_mmsg rs ps = udp_send_mmsg (map (gather (make_msg_iov ps)) (make_msgvec 0 ps)) rs (0, ps, [])"

section \<open>UDP without \<^verbatim>\<open>sendmmsg\<close>\<close>

text \<open>
  For every packet the result of the synchronous \<^verbatim>\<open>send_to\<close>, and if that would block the result of the asynchronous one, which
  may not have come yet.
\<close>

fun udp_send_to :: "(error_code \<times> error_code option) list \<Rightarrow> transmit_packet list \<Rightarrow> (transmit_packet list \<times> byte list list) option" where
  "udp_send_to rs [] = Some ([], [])"
| "udp_send_to [] (p # ps) = None"
| "udp_send_to ((ec, async) # rs) (p # ps) =
     (case (if ec = Would_block then async else Some ec) of
        None \<Rightarrow> None
      | Some result \<Rightarrow>
          (case udp_send_to rs ps of
             None \<Rightarrow> None
           | Some (ps1, out) \<Rightarrow>
               Some (p\<lparr>tp_result := result\<rparr> # ps1, (if result = Success then [copy_packet (tp_pkt p)] else []) @ out)))"

section \<open>TCP\<close>

text \<open>There is one current packet.  \<open>result\<close> is that of \<^verbatim>\<open>async_write\<close>, which may not have come yet.\<close>

definition not_connected :: error_code where
  "not_connected = Other_error 107"

definition tcp_async_send_packets :: "bool \<Rightarrow> error_code option \<Rightarrow> transmit_packet list \<Rightarrow> transmit_packet list option" where
  "tcp_async_send_packets is_connected result ps =
     (if \<not> is_connected then Some (set_result 0 not_connected ps)
      else map_option (\<lambda>ec. set_result 0 ec ps) result)"

text \<open>The handler of the connection: whether the stream is connected afterwards, and the argument of the user's handler.\<close>

definition tcp_connect_handler :: "error_code \<Rightarrow> bool \<Rightarrow> bool \<times> error_code" where
  "tcp_connect_handler ec is_connected = (if ec = Success then (True, ec) else (is_connected, ec))"

section \<open>Making sockets\<close>

text \<open>What is done to a socket before it is used.\<close>

datatype socket_option =
    Bind ip_address | Hops int | Outbound_interface ip_address | Outbound_index nat | Reuse_address | Join_group ip_address ip_address
  | Join_group_index ip_address nat | Join_group_any ip_address

definition is_v6 :: "ip_address \<Rightarrow> bool" where
  "is_v6 a \<longleftrightarrow> \<not> is_v4 a"

definition make_socket :: "address_tests \<Rightarrow> ip_address \<Rightarrow> socket_option list" where
  "make_socket tests interface_address = (if \<not> is_unspecified tests interface_address then [Bind interface_address] else [])"

definition make_multicast_socket :: "address_tests \<Rightarrow> ip_address \<Rightarrow> int \<Rightarrow> fault + socket_option list" where
  "make_multicast_socket tests address ttl =
     (if \<not> is_multicast tests address then Inl (invalid_argument ''endpoint is not a multicast address'')
      else Inr [Hops ttl])"

definition make_multicast_v4_socket :: "address_tests \<Rightarrow> ip_address \<Rightarrow> int \<Rightarrow> ip_address \<Rightarrow> fault + socket_option list" where
  "make_multicast_v4_socket tests address ttl interface_address =
     (if \<not> is_v4 address \<or> \<not> is_multicast tests address
        then Inl (invalid_argument ''endpoint is not an IPv4 multicast address'')
      else if \<not> is_unspecified tests interface_address \<and> \<not> is_v4 interface_address
        then Inl (invalid_argument ''interface address is not an IPv4 address'')
      else Inr (Hops ttl # (if \<not> is_unspecified tests interface_address then [Outbound_interface interface_address] else [])))"

definition make_multicast_v6_socket :: "address_tests \<Rightarrow> ip_address \<Rightarrow> int \<Rightarrow> nat \<Rightarrow> fault + socket_option list" where
  "make_multicast_v6_socket tests address ttl interface_index =
     (if \<not> is_v6 address \<or> \<not> is_multicast tests address
        then Inl (invalid_argument ''endpoint is not an IPv4 multicast address'')
      else Inr [Hops ttl, Outbound_index interface_index])"

definition udp_batch_size :: nat where "udp_batch_size = 64"

text \<open>The constructors of the streams from a socket: the number of packets they take at a time.\<close>

definition make_udp_stream :: "bool \<Rightarrow> fault + nat" where
  "make_udp_stream same_io_service =
     (if \<not> same_io_service then Inl (invalid_argument ''I/O service does not match the socket's I/O service'') else Inr udp_batch_size)"

definition make_tcp_stream :: "bool \<Rightarrow> fault + nat" where
  "make_tcp_stream same_io_service =
     (if \<not> same_io_service then Inl (invalid_argument ''I/O service does not match the socket's I/O service'') else Inr 1)"

text \<open>The sockets of the UDP reader.\<close>

definition make_bound_v4_socket :: "address_tests \<Rightarrow> ip_address \<Rightarrow> ip_address \<Rightarrow> fault + socket_option list" where
  "make_bound_v4_socket tests address interface_address =
     (if \<not> is_v4 interface_address then Inl (invalid_argument ''interface address is not an IPv4 address'')
      else
        let ep = (if is_unspecified tests address then interface_address else address) in
        if \<not> is_v4 ep then Inl (invalid_argument ''endpoint is not an IPv4 address'')
        else if \<not> is_multicast tests ep \<and> ep \<noteq> interface_address
          then Inl (invalid_argument ''endpoint is not multicast and does not match interface address'')
        else Inr ((if is_multicast tests ep then [Reuse_address, Join_group ep interface_address] else []) @ [Bind ep]))"

definition make_reader_v6_socket :: "address_tests \<Rightarrow> ip_address \<Rightarrow> nat \<Rightarrow> fault + socket_option list" where
  "make_reader_v6_socket tests address interface_index =
     (if \<not> is_v6 address \<or> \<not> is_multicast tests address
        then Inl (invalid_argument ''endpoint is not an IPv6 multicast address'')
      else Inr [Reuse_address, Join_group_index address interface_index, Bind address])"

definition make_reader_socket :: "address_tests \<Rightarrow> ip_address \<Rightarrow> socket_option list" where
  "make_reader_socket tests address =
     (if is_multicast tests address then [Reuse_address, Join_group_any address] else []) @ [Bind address]"

section \<open>Which reader takes an endpoint\<close>

text \<open>
  \<^verbatim>\<open>init_ibv_override\<close> reads two environment variables: the interface on which every IPv4 reader is to use ibverbs, and the completion
  vector, 0 if there is none or it is not a number.  The parsers of the library are arguments.
\<close>

definition init_ibv_override ::
  "bool \<Rightarrow> (string \<Rightarrow> ip_address option) \<Rightarrow> (string \<Rightarrow> int option) \<Rightarrow> string option \<Rightarrow> string option \<Rightarrow> (ip_address \<times> int) option" where
  "init_ibv_override use_ibv parse_address parse_int interface_var comp_vector_var =
     (case interface_var of
        None \<Rightarrow> None
      | Some s \<Rightarrow>
          if s = [] \<or> \<not> use_ibv then None
          else (case parse_address s of
                  None \<Rightarrow> None
                | Some ibv_interface \<Rightarrow>
                    Some (ibv_interface,
                      (case comp_vector_var of
                         None \<Rightarrow> 0
                       | Some c \<Rightarrow> if c = [] then 0 else (case parse_int c of None \<Rightarrow> 0 | Some v \<Rightarrow> v)))))"

datatype reader_choice = Udp_reader_on "ip_address option" | Ibv_reader_on ip_address int

text \<open>\<open>interface_address\<close> is given to one of the two overloads of \<^verbatim>\<open>make_reader\<close>.\<close>

definition choose_reader :: "(ip_address \<times> int) option \<Rightarrow> ip_address \<Rightarrow> ip_address option \<Rightarrow> reader_choice" where
  "choose_reader ibv_override address interface_address =
     (case ibv_override of
        Some (ibv_interface, comp_vector) \<Rightarrow>
          if is_v4 address
          then Ibv_reader_on (case interface_address of None \<Rightarrow> ibv_interface | Some a \<Rightarrow> a) comp_vector
          else Udp_reader_on interface_address
      | None \<Rightarrow> Udp_reader_on interface_address)"

section \<open>Slices of the vector of buffers\<close>

lemma gather_messages_from:
  "map (gather (before @ make_msg_iov ps)) (make_msgvec (length before) ps) = map (copy_packet \<circ> tp_pkt) ps"
proof (induction ps arbitrary: before)
  case (Cons p ps)
  show ?case using Cons.IH [of "before @ sp_buffers (tp_pkt p)"]
    by (simp add: make_msg_iov_def gather_def copy_packet_def Let_def)
qed simp

lemma gather_messages: "map (gather (make_msg_iov ps)) (make_msgvec 0 ps) = map (copy_packet \<circ> tp_pkt) ps"
  using gather_messages_from [of "[]" ps] by simp

section \<open>The state between calls of \<^verbatim>\<open>sendmmsg\<close>\<close>

definition succeeded :: "transmit_packet list \<Rightarrow> transmit_packet list" where
  "succeeded ps = filter (\<lambda>p. tp_result p = Success) ps"

definition sent_of :: "transmit_packet list \<Rightarrow> byte list list" where
  "sent_of ps = map (copy_packet \<circ> tp_pkt) (succeeded ps)"

lemma succeeded_simps [simp]:
  "succeeded [] = []" "succeeded (ps @ qs) = succeeded ps @ succeeded qs"
  by (simp_all add: succeeded_def)

lemma sent_of_simps [simp]:
  "sent_of [] = []" "sent_of (ps @ qs) = sent_of ps @ sent_of qs"
  "sent_of (p # ps) = (if tp_result p = Success then copy_packet (tp_pkt p) # sent_of ps else sent_of ps)"
  by (simp_all add: sent_of_def succeeded_def)

lemma set_results_simps [simp]:
  "set_results [] ps = []" "set_results es [] = []"
  "set_results (e # es) (p # ps) = p\<lparr>tp_result := e\<rparr> # set_results es ps"
  by (simp_all add: set_results_def)

lemma set_results_append:
  "length es = length ps \<Longrightarrow> set_results (es @ fs) (ps @ qs) = set_results es ps @ set_results fs qs"
  by (simp add: set_results_def)

lemma length_set_results [simp]: "length (set_results es ps) = min (length es) (length ps)"
  by (simp add: set_results_def)

lemma set_results_success:
  "set_results (replicate (length ps) Success) ps = map (\<lambda>p. p\<lparr>tp_result := Success\<rparr>) ps"
  by (induction ps) simp_all

lemma sent_of_success: "sent_of (map (\<lambda>p. p\<lparr>tp_result := Success\<rparr>) ps) = map (copy_packet \<circ> tp_pkt) ps"
  by (induction ps) simp_all

lemma set_result_at: "set_result (length ps) ec (ps @ p # qs) = ps @ p\<lparr>tp_result := ec\<rparr> # qs"
  by (simp add: set_result_def)

lemma fold_set_success:
  "k \<le> length qs \<Longrightarrow>
   fold (\<lambda>i. set_result (length ps + i) Success) [0..<k] (ps @ qs) =
     ps @ map (\<lambda>p. p\<lparr>tp_result := Success\<rparr>) (take k qs) @ drop k qs"
proof (induction k)
  case (Suc k)
  define front where "front = ps @ map (\<lambda>p. p\<lparr>tp_result := Success\<rparr>) (take k qs)"
  from Suc.prems have k: "k < length qs" "length front = length ps + k" by (simp_all add: front_def)
  have "fold (\<lambda>i. set_result (length ps + i) Success) [0..<k] (ps @ qs) = front @ qs ! k # drop (Suc k) qs"
    using Suc.IH Suc.prems k(1) by (simp add: front_def Cons_nth_drop_Suc)
  then have "fold (\<lambda>i. set_result (length ps + i) Success) [0..<Suc k] (ps @ qs) =
      set_result (length front) Success (front @ qs ! k # drop (Suc k) qs)" by (simp add: k(2))
  also have "\<dots> = front @ (qs ! k)\<lparr>tp_result := Success\<rparr> # drop (Suc k) qs" by (rule set_result_at)
  also have "\<dots> = ps @ map (\<lambda>p. p\<lparr>tp_result := Success\<rparr>) (take (Suc k) qs) @ drop (Suc k) qs"
    by (simp add: front_def take_Suc_conv_app_nth [OF k(1)])
  finally show ?case .
qed simp

text \<open>
  The packets before \<open>first\<close> have their results and the others are untouched; what was sent are the packets before \<open>first\<close> that
  succeeded.
\<close>

definition mmsg_inv :: "transmit_packet list \<Rightarrow> nat \<times> transmit_packet list \<times> byte list list \<Rightarrow> bool" where
  "mmsg_inv ps0 x \<longleftrightarrow> (\<exists>errs. length errs = fst x \<and> fst x \<le> length ps0 \<and>
     fst (snd x) = set_results errs (take (fst x) ps0) @ drop (fst x) ps0 \<and>
     snd (snd x) = sent_of (set_results errs (take (fst x) ps0)))"

text \<open>What \<^verbatim>\<open>sendmmsg\<close> promises: it sends no more messages than it is given, and an error is not 0.\<close>

fun mmsg_valid :: "nat \<Rightarrow> mmsg_result \<Rightarrow> bool" where
  "mmsg_valid given (Mmsg_sent k) \<longleftrightarrow> k \<le> given"
| "mmsg_valid given (Mmsg_error errno) \<longleftrightarrow> errno \<noteq> 0"

fun blocked :: "mmsg_result \<Rightarrow> bool" where
  "blocked (Mmsg_sent k) \<longleftrightarrow> k = 0"
| "blocked (Mmsg_error errno) \<longleftrightarrow> errno = EAGAIN \<or> errno = EWOULDBLOCK"

lemma mmsg_inv_extend:
  assumes "mmsg_inv ps0 (first, ps, out)" "first + length fs \<le> length ps0"
  shows "mmsg_inv ps0 (first + length fs,
      take first ps @ set_results fs (take (length fs) (drop first ps0)) @ drop (first + length fs) ps0,
      out @ sent_of (set_results fs (take (length fs) (drop first ps0))))"
proof -
  from assms(1) obtain errs where e: "length errs = first" "first \<le> length ps0"
    "ps = set_results errs (take first ps0) @ drop first ps0" "out = sent_of (set_results errs (take first ps0))"
    by (auto simp: mmsg_inv_def)
  then have "set_results (errs @ fs) (take (first + length fs) ps0) =
      set_results errs (take first ps0) @ set_results fs (take (length fs) (drop first ps0))"
    by (simp add: take_add set_results_append)
  with e assms(2) show ?thesis unfolding mmsg_inv_def by (intro exI [of _ "errs @ fs"]) simp
qed

lemma mmsg_step_inv:
  assumes "mmsg_inv ps0 (first, ps, out)" "first < length ps0" "mmsg_valid (length ps0 - first) r"
  shows "mmsg_inv ps0 (mmsg_step (map (copy_packet \<circ> tp_pkt) ps0) r (first, ps, out)) \<and>
    fst (mmsg_step (map (copy_packet \<circ> tp_pkt) ps0) r (first, ps, out)) =
      first + (case r of Mmsg_sent k \<Rightarrow> k | Mmsg_error _ \<Rightarrow> if blocked r then 0 else 1)"
proof -
  from assms(1) obtain errs where e: "length errs = first" "ps = set_results errs (take first ps0) @ drop first ps0"
    by (auto simp: mmsg_inv_def)
  define front where "front = set_results errs (take first ps0)"
  have front: "length front = first" "ps = front @ drop first ps0" "take first ps = front"
    using e assms(2) by (simp_all add: front_def)
  show ?thesis
  proof (cases r)
    case (Mmsg_sent k)
    with assms(3) have k: "first + k \<le> length ps0" "k \<le> length (drop first ps0)" using assms(2) by auto
    have "fold (\<lambda>i. set_result (first + i) Success) [0..<k] ps =
        front @ map (\<lambda>p. p\<lparr>tp_result := Success\<rparr>) (take k (drop first ps0)) @ drop (first + k) ps0"
      using fold_set_success [OF k(2), of front] front by (simp add: add.commute)
    moreover have "set_results (replicate k Success) (take k (drop first ps0)) =
        map (\<lambda>p. p\<lparr>tp_result := Success\<rparr>) (take k (drop first ps0))"
      using set_results_success [of "take k (drop first ps0)"] k(2) by (simp add: min_absorb2)
    ultimately show ?thesis
      using mmsg_inv_extend [OF assms(1), of "replicate k Success"] k(1) front Mmsg_sent
      by (simp add: mmsg_step_def sent_of_success take_map drop_map)
  next
    case (Mmsg_error errno)
    from assms(2) obtain q where q: "drop first ps0 = q # drop (Suc first) ps0" by (metis Cons_nth_drop_Suc)
    with set_result_at [of front "Other_error errno" q "drop (Suc first) ps0"] front
    have "set_result first (Other_error errno) ps = front @ q\<lparr>tp_result := Other_error errno\<rparr> # drop (Suc first) ps0" by simp
    with mmsg_inv_extend [OF assms(1), of "[Other_error errno]"] assms q front Mmsg_error show ?thesis
      by (simp add: mmsg_step_def)
  qed
qed

section \<open>All calls\<close>

fun dealt_with :: "mmsg_result \<Rightarrow> nat" where
  "dealt_with (Mmsg_sent k) = k"
| "dealt_with (Mmsg_error errno) = (if blocked (Mmsg_error errno) then 0 else 1)"

fun results_valid :: "nat \<Rightarrow> mmsg_result list \<Rightarrow> bool" where
  "results_valid remaining [] \<longleftrightarrow> True"
| "results_valid remaining (r # rs) \<longleftrightarrow> remaining = 0 \<or> mmsg_valid remaining r \<and> results_valid (remaining - dealt_with r) rs"

definition fully_reported :: "transmit_packet list \<Rightarrow> transmit_packet list \<times> byte list list \<Rightarrow> bool" where
  "fully_reported ps0 res \<longleftrightarrow> (\<exists>errs. length errs = length ps0 \<and> fst res = set_results errs ps0 \<and> snd res = sent_of (fst res))"

lemma dealt_with_pos: "\<not> blocked r \<Longrightarrow> 0 < dealt_with r"
  by (cases r) auto

lemma mmsg_inv_length: "mmsg_inv ps0 (first, ps, out) \<Longrightarrow> length ps = length ps0 \<and> first \<le> length ps0"
  by (auto simp: mmsg_inv_def)

lemma mmsg_inv_reported: "mmsg_inv ps0 (first, ps, out) \<Longrightarrow> \<not> first < length ps0 \<Longrightarrow> fully_reported ps0 (ps, out)"
  by (auto simp: mmsg_inv_def fully_reported_def)

lemma mmsg_step_dealt:
  assumes "mmsg_inv ps0 (first, ps, out)" "first < length ps0" "mmsg_valid (length ps0 - first) r"
  obtains ps1 out1 where "mmsg_step (map (copy_packet \<circ> tp_pkt) ps0) r (first, ps, out) = (first + dealt_with r, ps1, out1)"
    "mmsg_inv ps0 (first + dealt_with r, ps1, out1)"
proof (cases "mmsg_step (map (copy_packet \<circ> tp_pkt) ps0) r (first, ps, out)")
  case (fields first1 ps1 out1)
  moreover have d: "(case r of Mmsg_sent k \<Rightarrow> k | Mmsg_error _ \<Rightarrow> if blocked r then 0 else 1) = dealt_with r" by (cases r) auto
  moreover from calculation mmsg_step_inv [OF assms] have "first1 = first + dealt_with r" "mmsg_inv ps0 (first1, ps1, out1)" by auto
  ultimately show thesis using that [of ps1 out1] by simp
qed

lemma udp_send_mmsg_reports:
  assumes "mmsg_inv ps0 (first, ps, out)" "results_valid (length ps0 - first) rs"
  shows "(udp_send_mmsg (map (copy_packet \<circ> tp_pkt) ps0) rs (first, ps, out) = Some res \<longrightarrow> fully_reported ps0 res) \<and>
    (length ps0 - first \<le> length (filter (Not \<circ> blocked) rs) \<longrightarrow>
       (\<exists>res. udp_send_mmsg (map (copy_packet \<circ> tp_pkt) ps0) rs (first, ps, out) = Some res))"
  using assms
proof (induction rs arbitrary: first ps out)
  case Nil
  then show ?case using mmsg_inv_length [OF Nil.prems(1)] mmsg_inv_reported [OF Nil.prems(1)]
    by (auto simp: udp_send_mmsg.simps)
next
  case (Cons r rs)
  show ?case
  proof (cases "first < length ps0")
    case False
    then show ?thesis using mmsg_inv_length [OF Cons.prems(1)] mmsg_inv_reported [OF Cons.prems(1)]
      by (auto simp: udp_send_mmsg.simps)
  next
    case True
    with Cons.prems(2) have v: "mmsg_valid (length ps0 - first) r" "results_valid (length ps0 - (first + dealt_with r)) rs" by auto
    from mmsg_step_dealt [OF Cons.prems(1) True v(1)] obtain ps1 out1 where
      step: "mmsg_step (map (copy_packet \<circ> tp_pkt) ps0) r (first, ps, out) = (first + dealt_with r, ps1, out1)"
      and inv: "mmsg_inv ps0 (first + dealt_with r, ps1, out1)" by metis
    have u: "udp_send_mmsg (map (copy_packet \<circ> tp_pkt) ps0) (r # rs) (first, ps, out) =
        udp_send_mmsg (map (copy_packet \<circ> tp_pkt) ps0) rs (first + dealt_with r, ps1, out1)"
      using True mmsg_inv_length [OF Cons.prems(1)] mmsg_inv_length [OF inv] step
      by (simp add: udp_send_mmsg.simps [of _ "r # rs"]) (simp add: udp_send_mmsg.simps)
    have "length ps0 - first \<le> length (filter (Not \<circ> blocked) (r # rs)) \<longrightarrow>
        length ps0 - (first + dealt_with r) \<le> length (filter (Not \<circ> blocked) rs)"
      using dealt_with_pos [of r] by (cases "blocked r") auto
    with Cons.IH [OF inv v(2)] u show ?thesis by metis
  qed
qed

lemma udp_async_send_mmsg_reports:
  assumes "results_valid (length ps) rs"
  shows "(udp_async_send_mmsg rs ps = Some res \<longrightarrow> fully_reported ps res) \<and>
    (length ps \<le> length (filter (Not \<circ> blocked) rs) \<longrightarrow> (\<exists>res. udp_async_send_mmsg rs ps = Some res))"
proof -
  have "mmsg_inv ps (0, ps, [])" by (simp add: mmsg_inv_def)
  from udp_send_mmsg_reports [OF this] assms show ?thesis by (simp add: udp_async_send_mmsg_def gather_messages)
qed

lemma udp_send_to_reports: "udp_send_to rs ps = Some res \<Longrightarrow> fully_reported ps res"
proof (induction rs ps arbitrary: res rule: udp_send_to.induct)
  case (3 ec async rs p ps)
  then obtain result ps1 out where r: "(if ec = Would_block then async else Some ec) = Some result"
    "udp_send_to rs ps = Some (ps1, out)"
    "res = (p\<lparr>tp_result := result\<rparr> # ps1, (if result = Success then [copy_packet (tp_pkt p)] else []) @ out)"
    by (auto split: option.splits prod.splits simp del: if_split_asm)
  from "3.IH" [OF r(1,2)] obtain errs where "length errs = length ps" "ps1 = set_results errs ps" "out = sent_of ps1"
    by (auto simp: fully_reported_def)
  with r(3) show ?case by (auto simp: fully_reported_def intro!: exI [of _ "result # errs"])
qed (simp_all add: fully_reported_def)

lemma udp_send_to_returns:
  "list_all (\<lambda>(ec, async). ec = Would_block \<longrightarrow> async \<noteq> None) rs \<Longrightarrow> length ps \<le> length rs \<Longrightarrow> \<exists>res. udp_send_to rs ps = Some res"
proof (induction rs ps rule: udp_send_to.induct)
  case (3 ec async rs p ps)
  then have "\<exists>result. (if ec = Would_block then async else Some ec) = Some result" by auto
  then obtain result where r: "(if ec = Would_block then async else Some ec) = Some result" ..
  from "3.IH" [OF r] "3.prems" obtain res where "udp_send_to rs ps = Some res" by auto
  with r show ?case by (cases res) (simp del: split_paired_Ex)
qed simp_all

section \<open>The property\<close>

text \<open>
  C28: The socket transports report on every packet they were given.  When \<^verbatim>\<open>udp_stream\<close> has posted its handler, with \<^verbatim>\<open>sendmmsg\<close> or without,
  every current packet has exactly one result and is otherwise unchanged, and the datagrams that left the socket are the packets whose
  result is success, complete and in order, whatever the sequence of partial batches, full buffers and errors; with \<^verbatim>\<open>sendmmsg\<close> the handler is
  posted after at most as many calls that make progress as there are packets.  \<^verbatim>\<open>tcp_stream\<close> reports on its one packet, at once if it is not
  connected.
\<close>

theorem socket_senders_report:
  assumes "results_valid (length ps) rs"
  shows "(\<forall>ps' out. udp_async_send_mmsg rs ps = Some (ps', out) \<or> udp_send_to srs ps = Some (ps', out) \<longrightarrow>
      (\<exists>errs. length errs = length ps \<and> ps' = set_results errs ps) \<and>
      out = map (copy_packet \<circ> tp_pkt) (filter (\<lambda>p. tp_result p = Success) ps')) \<and>
    (length ps \<le> length (filter (Not \<circ> blocked) rs) \<longrightarrow> udp_async_send_mmsg rs ps \<noteq> None) \<and>
    (length ps = length srs \<and> (\<forall>(ec, async) \<in> set srs. ec = Would_block \<longrightarrow> async \<noteq> None) \<longrightarrow> udp_send_to srs ps \<noteq> None) \<and>
    (\<forall>p is_connected. tcp_async_send_packets is_connected result [p] =
       (if is_connected then map_option (\<lambda>ec. set_results [ec] [p]) result else Some (set_results [not_connected] [p])))"
proof (intro conjI allI impI)
  fix ps' out
  assume "udp_async_send_mmsg rs ps = Some (ps', out) \<or> udp_send_to srs ps = Some (ps', out)"
  then have r: "fully_reported ps (ps', out)" using udp_async_send_mmsg_reports [OF assms] udp_send_to_reports by blast
  from r show "\<exists>errs. length errs = length ps \<and> ps' = set_results errs ps" by (auto simp: fully_reported_def)
  from r show "out = map (copy_packet \<circ> tp_pkt) (filter (\<lambda>p. tp_result p = Success) ps')"
    by (auto simp: fully_reported_def sent_of_def succeeded_def)
next
  assume "length ps \<le> length (filter (Not \<circ> blocked) rs)"
  with udp_async_send_mmsg_reports [OF assms] show "udp_async_send_mmsg rs ps \<noteq> None" by auto
next
  assume "length ps = length srs \<and> (\<forall>(ec, async) \<in> set srs. ec = Would_block \<longrightarrow> async \<noteq> None)"
  with udp_send_to_returns [of srs ps] show "udp_send_to srs ps \<noteq> None" by (auto simp: list_all_iff)
next
  fix p is_connected
  show "tcp_async_send_packets is_connected result [p] =
      (if is_connected then map_option (\<lambda>ec. set_results [ec] [p]) result else Some (set_results [not_connected] [p]))"
    by (simp add: tcp_async_send_packets_def set_result_def)
qed

definition example_packets :: "transmit_packet list" where
  "example_packets =
     map (\<lambda>b. \<lparr>tp_pkt = \<lparr>sp_buffers = [[b], [b, b]]\<rparr>, tp_size = 3, tp_last = False, tp_item = 0, tp_result = Success\<rparr>) [1, 2, 3]"

text \<open>One datagram is sent, the buffer is full, the second datagram is refused, and the third is sent.\<close>

definition example_calls :: "mmsg_result list" where
  "example_calls = [Mmsg_sent 1, Mmsg_error EAGAIN, Mmsg_error 90, Mmsg_sent 1]"

theorem socket_senders_report_witness:
  "\<exists>ps' errs. udp_async_send_mmsg example_calls example_packets = Some (ps', [[1, 1, 1], [3, 3, 3]]) \<and>
     length errs = 3 \<and> ps' = set_results errs example_packets"
proof -
  have v: "results_valid (length example_packets) example_calls"
    by (simp add: example_packets_def example_calls_def EAGAIN_def)
  have "length example_packets \<le> length (filter (Not \<circ> blocked) example_calls)"
    by (simp add: example_packets_def example_calls_def EAGAIN_def EWOULDBLOCK_def)
  with socket_senders_report [OF v] obtain res where "udp_async_send_mmsg example_calls example_packets = Some res" by blast
  moreover from this have "snd res = [[1, 1, 1], [3, 3, 3]]"
    by (simp add: udp_async_send_mmsg_def udp_send_mmsg.simps mmsg_step_def example_packets_def example_calls_def EAGAIN_def
        EWOULDBLOCK_def gather_def make_msg_iov_def set_result_def Let_def split: if_split_asm) auto
  moreover have "length example_packets = 3" by (simp add: example_packets_def)
  ultimately show ?thesis using socket_senders_report [OF v] by (metis prod.collapse)
qed

end
