(* ===== verification/StreamTransfer.thy ===== *)
theory StreamTransfer
  imports HeapTransfer Readers
begin

text \<open>
  Several heaps at the same time, from the generator to the frozen heap: their packets arrive as datagrams, mixed and in any order and
  cut into batches, at the handler of the UDP reader, go through the receiving stream with its queue and its hash table, and every heap is handed
  over once, complete and as it was sent.
\<close>

section \<open>Transfers\<close>

text \<open>The packets of one heap on their way.\<close>

record transfer =
  tf_bits :: nat
  tf_cnt :: int
  tf_payload :: "byte list"
  tf_wires :: "wire_packet list"

definition transfer_ok :: "transfer \<Rightarrow> bool" where
  "transfer_ok t \<longleftrightarrow>
     wf_bits (tf_bits t) \<and> int (length (tf_payload t)) < 2 ^ 56 \<and> 0 \<le> tf_cnt t \<and> tf_cnt t < 2 ^ 56 \<and>
     (\<forall>w \<in> set (tf_wires t). wire_ok (tf_bits t) (tf_payload t) w \<and>
        (\<forall>p \<in> set (fst (snd w)). \<not> stop_pointer (make_pointer_decoder (tf_bits t)) p)) \<and>
     (\<Union>w \<in> set (tf_wires t). wire_range w) = {0..<int (length (tf_payload t))} \<and>
     (\<forall>u \<in> set (tf_wires t). \<forall>v \<in> set (tf_wires t). u \<noteq> v \<longrightarrow> wire_range u \<inter> wire_range v = {})"

definition tf_header :: "transfer \<Rightarrow> wire_packet \<Rightarrow> packet_header" where
  "tf_header t w = wire_header (tf_bits t) (tf_cnt t) (int (length (tf_payload t))) [] w"

text \<open>A heap that has received the packets \<open>W\<close>.\<close>

definition partly :: "bug_compat_mask \<Rightarrow> transfer \<Rightarrow> wire_packet set \<Rightarrow> live_heap \<Rightarrow> bool" where
  "partly bc t W h \<longleftrightarrow>
     receiving (tf_bits t) (tf_cnt t) (tf_payload t) h \<and> dom (lh_data h) = (\<Union>w \<in> W. wire_range w) \<and>
     set (lh_pointers h) = (\<Union>w \<in> W. set (fst (snd w))) \<and> lh_bug_compat h = bc \<and>
     (W \<noteq> {} \<longrightarrow> lh_heap_length h = int (length (tf_payload t)))"

lemma tf_header_sel [simp]:
  "ph_heap_cnt (tf_header t w) = tf_cnt t" "ph_heap_length (tf_header t w) = int (length (tf_payload t))"
  "ph_payload_length (tf_header t w) = int (length (snd (snd w)))"
  by (simp_all add: tf_header_def wire_header_def)

lemma partly_cnt: "partly bc t W h \<Longrightarrow> lh_cnt h = tf_cnt t"
  by (simp add: partly_def receiving_def)

lemma transfer_okD:
  assumes "transfer_ok t"
  shows "w \<in> set (tf_wires t) \<Longrightarrow> wire_ok (tf_bits t) (tf_payload t) w"
    "w \<in> set (tf_wires t) \<Longrightarrow> p \<in> set (fst (snd w)) \<Longrightarrow> \<not> stop_pointer (make_pointer_decoder (tf_bits t)) p"
    "(\<Union>w \<in> set (tf_wires t). wire_range w) = {0..<int (length (tf_payload t))}"
    "u \<in> set (tf_wires t) \<Longrightarrow> v \<in> set (tf_wires t) \<Longrightarrow> u \<noteq> v \<Longrightarrow> wire_range u \<inter> wire_range v = {}"
proof -
  from assms have t: "\<forall>w \<in> set (tf_wires t). wire_ok (tf_bits t) (tf_payload t) w \<and>
        (\<forall>p \<in> set (fst (snd w)). \<not> stop_pointer (make_pointer_decoder (tf_bits t)) p)"
    "(\<Union>w \<in> set (tf_wires t). wire_range w) = {0..<int (length (tf_payload t))}"
    "\<forall>u \<in> set (tf_wires t). \<forall>v \<in> set (tf_wires t). u \<noteq> v \<longrightarrow> wire_range u \<inter> wire_range v = {}"
    unfolding transfer_ok_def by - (elim conjE; assumption)+
  show "w \<in> set (tf_wires t) \<Longrightarrow> wire_ok (tf_bits t) (tf_payload t) w"
    "w \<in> set (tf_wires t) \<Longrightarrow> p \<in> set (fst (snd w)) \<Longrightarrow> \<not> stop_pointer (make_pointer_decoder (tf_bits t)) p"
    using t(1) by simp_all
  show "(\<Union>w \<in> set (tf_wires t). wire_range w) = {0..<int (length (tf_payload t))}" by (rule t(2))
  show "u \<in> set (tf_wires t) \<Longrightarrow> v \<in> set (tf_wires t) \<Longrightarrow> u \<noteq> v \<Longrightarrow> wire_range u \<inter> wire_range v = {}"
    using t(3) by simp
qed

lemma disjoint_from:
  assumes "transfer_ok t" "W \<subseteq> set (tf_wires t)" "w \<in> set (tf_wires t)" "w \<notin> W"
  shows "(\<Union>v \<in> W. wire_range v) \<inter> wire_range w = {}"
proof -
  have "wire_range v \<inter> wire_range w = {}" if "v \<in> W" for v
    using that assms by (intro transfer_okD(4) [OF assms(1)]) auto
  then show ?thesis by blast
qed

lemma wire_range_nonempty: "transfer_ok t \<Longrightarrow> w \<in> set (tf_wires t) \<Longrightarrow> wire_range w \<noteq> {}"
  by (auto simp: transfer_ok_def wire_ok_def wire_range_def)

lemma partly_fresh:
  assumes "transfer_ok t" "w \<in> set (tf_wires t)"
  shows "partly bc t {} (make_live_heap (tf_header t w) bc)"
proof -
  have "wf_packet (tf_header t w)"
    using assms by (auto simp: wf_packet_def tf_header_def wire_header_def wire_ok_def transfer_ok_def item_pointer_size_def)
  then have "lh_inv (make_live_heap (tf_header t w) bc)" by (rule make_live_heap_inv)
  then show ?thesis
    by (simp add: partly_def receiving_def) (simp add: make_live_heap_def tf_header_def wire_header_def)
qed

lemma partly_step:
  assumes t: "transfer_ok t" and h: "partly bc t W h" and W: "W \<subseteq> set (tf_wires t)" "w \<in> set (tf_wires t)" "w \<notin> W"
  obtains h' where "add_packet std_packet_memcpy (default_allocate fresh) (tf_header t w) h = Inr (True, h')"
    "partly bc t (insert w W) h'"
proof -
  have new: "dom (lh_data h) \<inter> wire_range w = {}"
    using h disjoint_from [OF t W] by (simp add: partly_def)
  have r: "receiving (tf_bits t) (tf_cnt t) (tf_payload t) h" using h by (simp add: partly_def)
  have ok: "wf_bits (tf_bits t)" "wire_ok (tf_bits t) (tf_payload t) w" "int (length (tf_payload t)) < 2 ^ 56"
    "0 \<le> tf_cnt t" "tf_cnt t < 2 ^ 56"
    using t W by (simp_all add: transfer_ok_def)
  obtain h' where h': "receive_packet (default_allocate fresh) (tf_header t w) h = Inr h'"
    "receiving (tf_bits t) (tf_cnt t) (tf_payload t) h'" "dom (lh_data h') = dom (lh_data h) \<union> wire_range w"
    "set (lh_pointers h') = set (lh_pointers h) \<union> set (fst (snd w))"
    "lh_heap_length h' = int (length (tf_payload t))" "lh_bug_compat h' = lh_bug_compat h"
    by (rule receive_one [OF r ok(1,2,3,4,5) new tf_header_def])
  from h'(1) have "add_packet std_packet_memcpy (default_allocate fresh) (tf_header t w) h = Inr (True, h')"
    by (auto simp: receive_packet_def split: sum.splits prod.splits if_splits)
  moreover have "partly bc t (insert w W) h'" using h h' by (auto simp: partly_def)
  ultimately show ?thesis by (rule that)
qed

lemma partly_complete:
  assumes t: "transfer_ok t" and h: "partly bc t W h" and W: "W \<subseteq> set (tf_wires t)" "W \<noteq> {}"
  shows "is_complete h \<longleftrightarrow> W = set (tf_wires t)"
proof
  assume "W = set (tf_wires t)"
  with t h W(2) show "is_complete h" by (intro received_complete(1)) (auto simp: partly_def transfer_ok_def)
next
  assume c: "is_complete h"
  have "lh_inv h" using h by (simp add: partly_def receiving_def)
  from completeness_tests [OF this] c h W(2) have d: "(\<Union>w \<in> W. wire_range w) = {0..<int (length (tf_payload t))}"
    by (auto simp: partly_def)
  show "W = set (tf_wires t)"
  proof (rule ccontr)
    assume "W \<noteq> set (tf_wires t)"
    with W obtain v where v: "v \<in> set (tf_wires t)" "v \<notin> W" by blast
    have "wire_range v \<subseteq> (\<Union>w \<in> W. wire_range w)" using transfer_okD(3) [OF t] v(1) d by blast
    moreover have "(\<Union>w \<in> W. wire_range w) \<inter> wire_range v = {}" by (rule disjoint_from [OF t W(1) v])
    ultimately show False using wire_range_nonempty [OF t v(1)] by blast
  qed
qed

lemma partly_no_stop:
  assumes t: "transfer_ok t" and h: "partly bc t W h" and W: "W \<subseteq> set (tf_wires t)"
  shows "\<not> is_end_of_stream h"
proof -
  have "lh_inv h" "lh_decoder h = make_pointer_decoder (tf_bits t)" using h by (simp_all add: partly_def receiving_def)
  moreover have "\<not> stop_pointer (make_pointer_decoder (tf_bits t)) p" if "p \<in> set (lh_pointers h)" for p
  proof -
    from that h obtain w where "w \<in> W" "p \<in> set (fst (snd w))" by (auto simp: partly_def)
    with W transfer_okD(2) [OF t] show ?thesis by blast
  qed
  ultimately show ?thesis by (simp add: is_end_of_stream_def lh_inv_def items_inv_def)
qed

text \<open>A packet that carries the whole heap is its only packet.\<close>

lemma whole_packet:
  assumes t: "transfer_ok t" and "w \<in> set (tf_wires t)" "length (snd (snd w)) = length (tf_payload t)"
  shows "set (tf_wires t) = {w}"
proof -
  have "wire_range w = {0..<int (length (tf_payload t))}"
    using transfer_okD(1) [OF t assms(2)] assms(3) by (auto simp: wire_range_def wire_ok_def)
  moreover have "wire_range v \<subseteq> {0..<int (length (tf_payload t))}" if "v \<in> set (tf_wires t)" for v
    using that transfer_okD(3) [OF t] by blast
  ultimately have "v = w" if "v \<in> set (tf_wires t)" for v
    using transfer_okD(4) [OF t that assms(2)] wire_range_nonempty [OF t that] that by blast
  with assms(2) show ?thesis by blast
qed

section \<open>The stream during the transfers\<close>

text \<open>
  What has arrived is a list of pairs of a transfer and a packet.  In the stream there is one heap for every transfer of which some packets have
  arrived and others not, and the heaps of the finished ones have been handed over.  A new heap goes into the slot after the last one, so
  as long as no more heaps are started than there are slots nothing is evicted.
\<close>

definition got :: "(transfer \<times> wire_packet) list \<Rightarrow> transfer \<Rightarrow> wire_packet set" where
  "got arr t = {w. (t, w) \<in> set arr}"

definition underway :: "transfer list \<Rightarrow> (transfer \<times> wire_packet) list \<Rightarrow> transfer set" where
  "underway T arr = {t \<in> set T. got arr t \<noteq> {} \<and> got arr t \<noteq> set (tf_wires t)}"

definition slots_taken :: "nat \<Rightarrow> nat \<Rightarrow> 's spec_stream \<Rightarrow> bool" where
  "slots_taken m k a \<longleftrightarrow> sp_max_heaps a = m \<and> sp_head a = k mod m \<and> distinct (map fst (sp_live a)) \<and>
     fst ` set (sp_live a) \<subseteq> (\<lambda>j. j mod m) ` {1..k}"

definition live_transfers :: "transfer list \<Rightarrow> bug_compat_mask \<Rightarrow> (transfer \<times> wire_packet) list \<Rightarrow> transfer set \<Rightarrow> 's spec_stream \<Rightarrow> bool" where
  "live_transfers T bc arr U a \<longleftrightarrow>
     \<not> sp_stopped a \<and> sp_bug_compat a = bc \<and> distinct (map (lh_cnt \<circ> snd) (sp_live a)) \<and>
     (lh_cnt \<circ> snd) ` set (sp_live a) = tf_cnt ` U \<and>
     (\<forall>p \<in> set (sp_live a). \<exists>t \<in> set T. partly bc t (got arr t) (snd p))"

definition handed_over :: "transfer list \<Rightarrow> bug_compat_mask \<Rightarrow> (transfer \<times> wire_packet) list \<Rightarrow> live_heap list \<Rightarrow> bool" where
  "handed_over T bc arr sink \<longleftrightarrow>
     (\<exists>ts. distinct ts \<and> set ts = {t \<in> set T. got arr t = set (tf_wires t)} \<and>
        list_all2 (\<lambda>t h. partly bc t (set (tf_wires t)) h) ts sink)"

definition transfers_inv ::
  "transfer list \<Rightarrow> bug_compat_mask \<Rightarrow> nat \<Rightarrow> (transfer \<times> wire_packet) list \<Rightarrow> live_heap list spec_stream \<Rightarrow> bool" where
  "transfers_inv T bc m arr a \<longleftrightarrow>
     slots_taken m (card (fst ` set arr)) a \<and> live_transfers T bc arr (underway T arr) a \<and> handed_over T bc arr (sp_sink a)"

lemma got_snoc: "got (arr @ [(t, w)]) u = (if u = t then insert w (got arr t) else got arr u)"
  by (auto simp: got_def)

text \<open>The slot for a new heap is free.\<close>

lemma next_slot_free:
  assumes "slots_taken m k a" "k < m"
  shows "slots_taken m (Suc k) (spec_advance a)" "sp_head (spec_advance a) \<notin> fst ` set (sp_live a)"
proof -
  have head: "sp_head (spec_advance a) = Suc k mod m" using assms by (simp add: slots_taken_def spec_advance_def mod_Suc_eq)
  show "sp_head (spec_advance a) \<notin> fst ` set (sp_live a)"
  proof
    assume "sp_head (spec_advance a) \<in> fst ` set (sp_live a)"
    then obtain j where j: "1 \<le> j" "j \<le> k" "Suc k mod m = j mod m" using assms head by (auto simp: slots_taken_def)
    then have "Suc k mod m = j" using assms(2) by simp
    then show False using j assms(2) by (cases "Suc k = m") auto
  qed
  have "(\<lambda>j. j mod m) ` {1..k} \<subseteq> (\<lambda>j. j mod m) ` {1..Suc k}" by (rule image_mono) auto
  with assms head show "slots_taken m (Suc k) (spec_advance a)" by (auto simp: slots_taken_def spec_advance_def)
qed

lemma spec_find_transfer:
  assumes "live_transfers T bc arr U a" "inj_on tf_cnt (set T)" "U \<subseteq> set T" "t \<in> set T"
  shows "spec_find (tf_header t w) a = None \<longleftrightarrow> t \<notin> U"
    "spec_find (tf_header t w) a = Some i \<Longrightarrow> \<exists>h. (i, h) \<in> set (sp_live a) \<and> partly bc t (got arr t) h"
proof -
  have "t \<in> U \<longleftrightarrow> tf_cnt t \<in> (lh_cnt \<circ> snd) ` set (sp_live a)"
    using assms by (auto simp: live_transfers_def inj_on_def)
  then show "spec_find (tf_header t w) a = None \<longleftrightarrow> t \<notin> U"
    by (auto simp: spec_find_def find_None_iff image_iff)
  assume "spec_find (tf_header t w) a = Some i"
  then obtain h where h: "(i, h) \<in> set (sp_live a)" "lh_cnt h = tf_cnt t"
    by (auto simp: spec_find_def find_Some_iff) (metis nth_mem snd_conv)
  with assms(1) obtain u where u: "u \<in> set T" "partly bc u (got arr u) h" by (fastforce simp: live_transfers_def)
  with h(2) partly_cnt [OF u(2)] assms(2,4) have "u = t" by (auto dest: inj_onD)
  with h u show "\<exists>h. (i, h) \<in> set (sp_live a) \<and> partly bc t (got arr t) h" by blast
qed

text \<open>The slot of a transfer gets its heap back, or is freed.\<close>

lemma live_unique:
  assumes "live_transfers T bc arr U a" "p \<in> set (sp_live a)" "q \<in> set (sp_live a)" "lh_cnt (snd p) = lh_cnt (snd q)"
  shows "p = q"
proof -
  have "inj_on (lh_cnt \<circ> snd) (set (sp_live a))" using assms(1) by (simp add: live_transfers_def distinct_map)
  then show ?thesis by (rule inj_onD) (simp_all add: assms)
qed

lemma update_transfer:
  assumes a: "live_transfers T bc arr U a" "distinct (map fst (sp_live a))" and t: "t \<in> set T" "(i, h) \<in> set (sp_live a)"
    and h: "partly bc t (got arr t) h" "partly bc t (insert w (got arr t)) h1"
  shows "live_transfers T bc (arr @ [(t, w)]) U (spec_update i h1 a)" "(i, h1) \<in> set (sp_live (spec_update i h1 a))"
proof -
  let ?f = "\<lambda>p. if fst p = i then (i, h1) else p"
  have same: "p = (i, h)" if "p \<in> set (sp_live a)" "fst p = i" for p
    using that t(2) a(2) by (metis eq_key_imp_eq_value prod.collapse)
  have cnt: "lh_cnt h1 = lh_cnt h" using h by (simp add: partly_cnt)
  have "(lh_cnt \<circ> snd) (?f p) = (lh_cnt \<circ> snd) p" if "p \<in> set (sp_live a)" for p
  proof (cases "fst p = i")
    case True
    from same [OF that True] cnt show ?thesis by simp
  qed simp
  then have m: "map (lh_cnt \<circ> snd) (map ?f (sp_live a)) = map (lh_cnt \<circ> snd) (sp_live a)" by simp
  then have s: "(lh_cnt \<circ> snd) ` set (map ?f (sp_live a)) = (lh_cnt \<circ> snd) ` set (sp_live a)" by (metis set_map)
  have "\<exists>u \<in> set T. partly bc u (got (arr @ [(t, w)]) u) (snd (?f p))" if p: "p \<in> set (sp_live a)" for p
  proof (cases "fst p = i")
    case True
    with h(2) t(1) show ?thesis by (auto simp: got_snoc)
  next
    case False
    from a(1) p obtain u where u: "u \<in> set T" "partly bc u (got arr u) (snd p)" by (auto simp: live_transfers_def)
    have "u \<noteq> t"
    proof
      assume "u = t"
      with u(2) h(1) have "lh_cnt (snd p) = lh_cnt (snd (i, h))" by (simp add: partly_cnt)
      with live_unique [OF a(1) p t(2)] False show False by simp
    qed
    with u False show ?thesis by (auto simp: got_snoc)
  qed
  then have each: "\<forall>p \<in> set (map ?f (sp_live a)). \<exists>u \<in> set T. partly bc u (got (arr @ [(t, w)]) u) (snd p)"
    unfolding set_map by (intro ballI) (elim imageE, simp only:)
  have d: "distinct (map (lh_cnt \<circ> snd) (map ?f (sp_live a)))" using a(1) by (simp only: m live_transfers_def)
  have v: "(lh_cnt \<circ> snd) ` set (map ?f (sp_live a)) = tf_cnt ` U" using a(1) by (simp only: s live_transfers_def)
  have fields: "sp_live (spec_update i h1 a) = map ?f (sp_live a)" "sp_stopped (spec_update i h1 a) = sp_stopped a"
    "sp_bug_compat (spec_update i h1 a) = sp_bug_compat a" by (simp_all add: spec_update_def)
  show "live_transfers T bc (arr @ [(t, w)]) U (spec_update i h1 a)"
    unfolding live_transfers_def fields using d v each a(1) by (simp only: live_transfers_def simp_thms)
  have "?f (i, h) \<in> set (map ?f (sp_live a))" unfolding set_map by (rule imageI) (rule t(2))
  then show "(i, h1) \<in> set (sp_live (spec_update i h1 a))" by (simp only: fields) simp
qed

lemma remove_transfer:
  assumes a: "live_transfers T bc arr U a" "distinct (map fst (sp_live a))" and t: "inj_on tf_cnt (set T)" "U \<subseteq> set T" "t \<in> set T"
    and h: "(i, h) \<in> set (sp_live a)" "partly bc t W h"
  shows "live_transfers T bc arr (U - {t}) (spec_remove i a)"
proof -
  have other: "fst p \<noteq> i \<longleftrightarrow> lh_cnt (snd p) \<noteq> tf_cnt t" if p: "p \<in> set (sp_live a)" for p
  proof -
    have "fst p = i \<longleftrightarrow> p = (i, h)" using p h(1) a(2) by (metis eq_key_imp_eq_value prod.collapse fst_conv)
    moreover have "lh_cnt (snd p) = tf_cnt t \<longleftrightarrow> p = (i, h)"
      using live_unique [OF a(1) p h(1)] partly_cnt [OF h(2)] by auto
    ultimately show ?thesis by simp
  qed
  have "(lh_cnt \<circ> snd) ` set (filter (\<lambda>p. fst p \<noteq> i) (sp_live a)) = (lh_cnt \<circ> snd) ` set (sp_live a) - {tf_cnt t}"
    using other by auto
  also have "\<dots> = tf_cnt ` U - {tf_cnt t}" using a(1) by (simp add: live_transfers_def)
  also have "\<dots> = tf_cnt ` (U - {t})" using t by (auto dest: inj_onD)
  finally show ?thesis
    using a(1) by (auto simp: live_transfers_def spec_remove_def distinct_map_filter)
qed

lemma handed_over_step:
  assumes "handed_over T bc arr sink" "t \<in> set T" "got arr t \<noteq> set (tf_wires t)"
  shows "insert w (got arr t) \<noteq> set (tf_wires t) \<Longrightarrow> handed_over T bc (arr @ [(t, w)]) sink"
    "insert w (got arr t) = set (tf_wires t) \<Longrightarrow> partly bc t (set (tf_wires t)) h \<Longrightarrow> handed_over T bc (arr @ [(t, w)]) (sink @ [h])"
proof -
  from assms(1) obtain ts where ts: "distinct ts" "set ts = {t \<in> set T. got arr t = set (tf_wires t)}"
    "list_all2 (\<lambda>t h. partly bc t (set (tf_wires t)) h) ts sink" by (auto simp: handed_over_def)
  have t: "t \<notin> set ts" using ts(2) assms(3) by simp
  show "insert w (got arr t) \<noteq> set (tf_wires t) \<Longrightarrow> handed_over T bc (arr @ [(t, w)]) sink"
    unfolding handed_over_def using ts t assms(2,3) by (intro exI [of _ ts]) (auto simp: got_snoc)
  show "insert w (got arr t) = set (tf_wires t) \<Longrightarrow> partly bc t (set (tf_wires t)) h \<Longrightarrow>
      handed_over T bc (arr @ [(t, w)]) (sink @ [h])"
    unfolding handed_over_def using ts t assms(2)
    by (intro exI [of _ "ts @ [t]"]) (auto simp: got_snoc list_all2_appendI)
qed

lemma underway_snoc:
  assumes "t \<in> set T"
  shows "underway T (arr @ [(t, w)]) =
    (if insert w (got arr t) = set (tf_wires t) then underway T arr - {t} else insert t (underway T arr))"
  using assms by (auto simp: underway_def got_snoc)

definition batch_config :: "(nat \<Rightarrow> byte) \<Rightarrow> add_packet_state \<Rightarrow> bool" where
  "batch_config fresh st \<longleftrightarrow> aps_memcpy st = std_packet_memcpy \<and> aps_allocator st = default_allocate fresh"

lemma slots_taken_update:
  "slots_taken m k a \<Longrightarrow> slots_taken m k (spec_update i h a)"
  "slots_taken m k a \<Longrightarrow> slots_taken m k ((spec_remove i a)\<lparr>sp_sink := s\<rparr>)"
  by (auto simp: slots_taken_def spec_update_def spec_remove_def base_stream.update_fst distinct_map_filter)

lemma spec_sel [simp]:
  "sp_sink (spec_update i h a) = sp_sink a" "sp_sink (spec_remove i a) = sp_sink a"
  by (simp_all add: spec_update_def spec_remove_def)

lemma live_transfers_sink [simp]: "live_transfers T bc arr U (a\<lparr>sp_sink := s\<rparr>) = live_transfers T bc arr U a"
  by (simp add: live_transfers_def)

text \<open>A packet is added to the heap of its transfer.\<close>

lemma add_to_transfer:
  assumes t: "transfer_ok t" "t \<in> set T" "inj_on tf_cnt (set T)"
    and w: "got arr t \<subseteq> set (tf_wires t)" "w \<in> set (tf_wires t)" "w \<notin> got arr t"
    and a: "slots_taken m k a" "live_transfers T bc arr (insert t (underway T arr)) a" "handed_over T bc arr (sp_sink a)"
    and h: "(i, h) \<in> set (sp_live a)" "partly bc t (got arr t) h" and st: "batch_config fresh st"
  obtains st1 a1 where "spec_add_to recording_virtuals (tf_header t w) i st a = Inr (True, st1, a1)" "batch_config fresh st1"
    "slots_taken m k a1" "live_transfers T bc (arr @ [(t, w)]) (underway T (arr @ [(t, w)])) a1"
    "handed_over T bc (arr @ [(t, w)]) (sp_sink a1)"
proof -
  let ?U = "insert t (underway T arr)" and ?arr = "arr @ [(t, w)]"
  from partly_step [OF t(1) h(2) w] obtain h1 where
    h1: "add_packet std_packet_memcpy (default_allocate fresh) (tf_header t w) h = Inr (True, h1)"
    and p1: "partly bc t (insert w (got arr t)) h1" by metis
  have W: "insert w (got arr t) \<subseteq> set (tf_wires t)" "insert w (got arr t) \<noteq> {}" using w by auto
  have dist: "distinct (map fst (sp_live a))" using a(1) by (simp add: slots_taken_def)
  have live: "map_of (sp_live a) i = Some h" using dist h(1) by (simp add: map_of_eq_Some_iff)
  note nostop = partly_no_stop [OF t(1) p1 W(1)] and compl = partly_complete [OF t(1) p1 W]
  note upd = update_transfer [OF a(2) dist t(2) h p1]
  have notall: "got arr t \<noteq> set (tf_wires t)" using w by blast
  note over = handed_over_step [OF a(3) t(2) notall, of w]
  have dist': "distinct (map fst (sp_live (spec_update i h1 a)))" using dist by (simp add: spec_update_def base_stream.update_fst)
  show thesis
  proof (cases "insert w (got arr t) = set (tf_wires t)")
    case True
    let ?a = "(spec_remove i (spec_update i h1 a))\<lparr>sp_sink := sp_sink a @ [h1]\<rparr>"
    have "spec_add_to recording_virtuals (tf_header t w) i st a =
        Inr (True, st\<lparr>aps_complete_heaps := aps_complete_heaps st + 1\<rparr>, ?a)"
      using live h1 st nostop compl True by (simp add: spec_add_to_def batch_config_def)
    moreover have "?U \<subseteq> set T" using t(2) by (auto simp: underway_def)
    then have "live_transfers T bc ?arr (?U - {t}) (spec_remove i (spec_update i h1 a))"
      by (rule remove_transfer [OF upd(1) dist' t(3) _ t(2) upd(2) p1])
    then have "live_transfers T bc ?arr (underway T ?arr) ?a"
      using underway_snoc [OF t(2), of arr w] True by (simp add: insert_Diff_if)
    ultimately show thesis
      using over(2) [OF True p1 [unfolded True]] slots_taken_update(2) [OF slots_taken_update(1) [OF a(1)]] st
      by (intro that [of "st\<lparr>aps_complete_heaps := aps_complete_heaps st + 1\<rparr>" ?a]) (simp_all add: batch_config_def)
  next
    case False
    have "spec_add_to recording_virtuals (tf_header t w) i st a = Inr (True, st, spec_update i h1 a)"
      using live h1 st nostop compl False by (simp add: spec_add_to_def batch_config_def)
    moreover have "live_transfers T bc ?arr (underway T ?arr) (spec_update i h1 a)"
      using upd(1) underway_snoc [OF t(2), of arr w] False by simp
    ultimately show thesis
      using over(1) [OF False] slots_taken_update(1) [OF a(1)] st by (intro that [of st "spec_update i h1 a"]) simp_all
  qed
qed

text \<open>A packet of a transfer arrives at the stream: the first one starts a heap.\<close>

lemma add_transfer_packet:
  assumes ok: "\<forall>t \<in> set T. transfer_ok t" "inj_on tf_cnt (set T)" "length T \<le> m"
    and arr: "set arr \<subseteq> (\<Union>t \<in> set T. {t} \<times> set (tf_wires t))"
    and t: "t \<in> set T" "w \<in> set (tf_wires t)" "(t, w) \<notin> set arr"
    and inv: "transfers_inv T bc m arr a" and st: "batch_config fresh st"
  obtains st1 a1 where "spec_add_packet recording_virtuals (tf_header t w) st a = Inr (True, st1, a1)"
    "batch_config fresh st1" "transfers_inv T bc m (arr @ [(t, w)]) a1"
proof -
  have tok: "transfer_ok t" using ok(1) t(1) by blast
  have w: "got arr t \<subseteq> set (tf_wires t)" "w \<notin> got arr t" using arr t(3) by (auto simp: got_def)
  note w' = w(1) t(2) w(2)
  let ?k = "card (fst ` set arr)" and ?k' = "card (fst ` set (arr @ [(t, w)]))"
  have a: "slots_taken m ?k a" "live_transfers T bc arr (underway T arr) a" "handed_over T bc arr (sp_sink a)"
    using inv by (simp_all add: transfers_inv_def)
  have U: "underway T arr \<subseteq> set T" by (auto simp: underway_def)
  define st0 where "st0 = st\<lparr>aps_packets := aps_packets st + 1\<rparr>"
  define found where "found = fst (spec_locate (tf_header t w) st0 a)"
  define st1 where "st1 = snd (spec_locate (tf_header t w) st0 a)"
  have cfg: "batch_config fresh st1" using st by (auto simp: st1_def st0_def spec_locate_def batch_config_def)
  have run: "spec_add_packet recording_virtuals (tf_header t w) st a =
      bind_result (case found of Some i \<Rightarrow> Inr (i, st1, a) | None \<Rightarrow> spec_new recording_virtuals (tf_header t w) st1 a)
        (\<lambda>(i, st2, a1). spec_add_to recording_virtuals (tf_header t w) i st2 a1)"
    using a(2) unfolding spec_add_packet_def found_def st1_def st0_def Let_def case_prod_beta by (simp add: live_transfers_def)
  show thesis
  proof (cases "got arr t = {}")
    case True
    then have new: "t \<notin> underway T arr" "t \<notin> fst ` set arr" by (auto simp: underway_def got_def)
    then have none: "found = None"
      using spec_find_transfer(1) [OF a(2) ok(2) U t(1)] by (simp add: found_def spec_locate_def)
    have started: "fst ` set arr \<subseteq> set T - {t}" using arr new(2) by auto
    have "card (fst ` set arr) \<le> card (set T - {t})" by (rule card_mono [OF _ started]) simp
    also have "\<dots> < card (set T)" using t(1) by (intro card_Diff1_less) simp_all
    finally have few: "?k < m" using ok(3) card_length [of T] by simp
    have k': "?k' = Suc ?k" using new(2) by simp
    note free = next_slot_free [OF a(1) few]
    let ?i = "sp_head (spec_advance a)" and ?h = "make_live_heap (tf_header t w) bc"
    let ?a = "(spec_advance a)\<lparr>sp_live := (?i, ?h) # sp_live a\<rparr>"
    have sel: "sp_live (spec_advance a) = sp_live a" "sp_bug_compat (spec_advance a) = bc" "sp_stopped (spec_advance a) = sp_stopped a"
      "sp_sink (spec_advance a) = sp_sink a" using a(2) by (simp_all add: spec_advance_def live_transfers_def)
    have "map_of (sp_live a) ?i = None" using free(2) by (simp add: map_of_eq_None_iff)
    then have sn: "spec_new recording_virtuals (tf_header t w) st1 a = Inr (?i, st1, ?a)" by (simp add: spec_new_def Let_def sel)
    note fresh_heap = partly_fresh [OF tok t(2), of bc]
    have in_range: "?i \<in> (\<lambda>j. j mod m) ` {1..Suc ?k}" using free(1) by (auto simp: slots_taken_def)
    have sl: "slots_taken m ?k' ?a" unfolding k' using free in_range by (auto simp: slots_taken_def sel)
    have "tf_cnt t \<notin> tf_cnt ` underway T arr" using new(1) U t(1) ok(2) by (auto dest: inj_onD)
    then have lt: "live_transfers T bc arr (insert t (underway T arr)) ?a"
      using a(2) fresh_heap True by (auto simp: live_transfers_def sel intro: bexI [OF _ t(1)])
    have ho: "handed_over T bc arr (sp_sink ?a)" using a(3) by (simp add: sel)
    have mem: "(?i, ?h) \<in> set (sp_live ?a)" by simp
    have part: "partly bc t (got arr t) ?h" using fresh_heap True by simp
    from add_to_transfer [OF tok t(1) ok(2) w' sl lt ho mem part cfg] obtain st2 a2 where
      "spec_add_to recording_virtuals (tf_header t w) ?i st1 ?a = Inr (True, st2, a2)" "batch_config fresh st2"
      "slots_taken m ?k' a2" "live_transfers T bc (arr @ [(t, w)]) (underway T (arr @ [(t, w)])) a2"
      "handed_over T bc (arr @ [(t, w)]) (sp_sink a2)" .
    with none sn run show thesis by (intro that [of st2 a2]) (simp_all add: transfers_inv_def)
  next
    case False
    then have on: "t \<in> underway T arr" using t(1) w' by (auto simp: underway_def)
    have "length (snd (snd w)) \<noteq> length (tf_payload t)"
    proof
      assume "length (snd (snd w)) = length (tf_payload t)"
      with whole_packet [OF tok t(2)] w(1) have "got arr t \<subseteq> {w}" by simp
      with False w(2) show False by blast
    qed
    then have "found = spec_find (tf_header t w) a" by (simp add: found_def spec_locate_def)
    with spec_find_transfer(1) [OF a(2) ok(2) U t(1), of w] on obtain i where i: "found = Some i" by (cases found) auto
    with spec_find_transfer(2) [OF a(2) ok(2) U t(1), of w i] obtain h where
      h: "(i, h) \<in> set (sp_live a)" "partly bc t (got arr t) h"
      using \<open>found = spec_find (tf_header t w) a\<close> by auto
    have ins: "insert t (underway T arr) = underway T arr" using on by blast
    have k': "?k' = ?k" using False by (auto simp: got_def insert_absorb rev_image_eqI)
    from add_to_transfer [OF tok t(1) ok(2) w' a(1) _ a(3) h cfg] a(2) ins obtain st2 a2 where
      "spec_add_to recording_virtuals (tf_header t w) i st1 a = Inr (True, st2, a2)" "batch_config fresh st2"
      "slots_taken m ?k a2" "live_transfers T bc (arr @ [(t, w)]) (underway T (arr @ [(t, w)])) a2"
      "handed_over T bc (arr @ [(t, w)]) (sp_sink a2)" by metis
    with i run k' show thesis by (intro that [of st2 a2]) (simp_all add: transfers_inv_def)
  qed
qed

section \<open>Datagrams\<close>

text \<open>A datagram that carries a packet of a transfer.\<close>

definition datagram_of :: "nat \<Rightarrow> transfer \<times> wire_packet \<Rightarrow> byte list \<Rightarrow> bool" where
  "datagram_of max_size x d \<longleftrightarrow> decode_packet d = Some (tf_header (fst x) (snd x), length d) \<and> 0 < length d \<and> length d \<le> max_size"

text \<open>The packets of the transfers, each once, of which \<open>arr\<close> have arrived.\<close>

definition arrivals_ok :: "transfer list \<Rightarrow> (transfer \<times> wire_packet) list \<Rightarrow> bool" where
  "arrivals_ok T arr \<longleftrightarrow> distinct arr \<and> set arr \<subseteq> (\<Union>t \<in> set T. {t} \<times> set (tf_wires t))"

definition stream_transfers ::
  "(nat \<Rightarrow> byte) \<Rightarrow> transfer list \<Rightarrow> bug_compat_mask \<Rightarrow> nat \<Rightarrow> (transfer \<times> wire_packet) list \<Rightarrow> live_heap list stream_base \<Rightarrow> bool" where
  "stream_transfers fresh T bc m arr s \<longleftrightarrow>
     (\<exists>a. refines s a \<and> transfers_inv T bc m arr a) \<and> sb_memcpy s = std_packet_memcpy \<and> sb_allocator s = default_allocate fresh"

lemma stream_transfers_running: "stream_transfers fresh T bc m arr s \<Longrightarrow> \<not> sb_stopped s"
  by (auto simp: stream_transfers_def transfers_inv_def live_transfers_def dest: refinesD(12))

lemma udp_transfer_packet:
  assumes ok: "\<forall>t \<in> set T. transfer_ok t" "inj_on tf_cnt (set T)" "length T \<le> m"
    and arr: "arrivals_ok T (arr @ [x])" and d: "datagram_of max_size x d"
    and inv: "stream_transfers fresh T bc m arr s" and st: "batch_config fresh st"
  obtains st1 s1 where "udp_process_one_packet recording_virtuals max_size d (st, s) = Inr (False, st1, s1)"
    "batch_config fresh st1" "stream_transfers fresh T bc m (arr @ [x]) s1"
proof -
  obtain t w where x: "x = (t, w)" by (cases x)
  from inv obtain a where a: "refines s a" "transfers_inv T bc m arr a" by (auto simp: stream_transfers_def)
  have in_T: "t \<in> set T" "w \<in> set (tf_wires t)" "(t, w) \<notin> set arr" "set arr \<subseteq> (\<Union>t \<in> set T. {t} \<times> set (tf_wires t))"
    using arr by (auto simp: arrivals_ok_def x)
  obtain st1 a1 where sp: "spec_add_packet recording_virtuals (tf_header t w) st a = Inr (True, st1, a1)"
    "batch_config fresh st1" "transfers_inv T bc m (arr @ [(t, w)]) a1"
    by (rule add_transfer_packet [OF ok in_T(4,1,2,3) a(2) st])
  have "matches step_result (stream_add_packet recording_virtuals (tf_header t w) st s) (Inr (True, st1, a1))"
    using add_packet_refines [OF a(1) same_counts_refl, of recording_virtuals "tf_header t w" st] sp(1) by simp
  then obtain y where y: "stream_add_packet recording_virtuals (tf_header t w) st s = Inr y" "step_result y (True, st1, a1)"
    by (rule matches_InrE)
  obtain b st2 s2 where y': "y = (b, st2, s2)" by (cases y)
  have r: "same_counts st2 st1" "refines s2 a1" using y(2) by (simp_all add: y' step_result_def)
  have "same_config s s2"
    using config.add_packet_frame [OF config.frame_refl, of s recording_virtuals "tf_header t w" st] y(1) by (simp add: post_def y')
  with inv r(2) sp(3) have st2: "stream_transfers fresh T bc m (arr @ [x]) s2" by (auto simp: stream_transfers_def same_config_def x)
  have "batch_config fresh st2" using sp(2) same_countsD(1,2) [OF r(1)] by (simp add: batch_config_def)
  moreover have "udp_process_one_packet recording_virtuals max_size d (st, s) = Inr (False, st2, s2)"
    using d y(1) stream_transfers_running [OF st2] by (simp add: udp_process_one_packet_def datagram_of_def x y')
  ultimately show ?thesis using st2 by (intro that)
qed

lemma deliver_transfer_packets:
  assumes ok: "\<forall>t \<in> set T. transfer_ok t" "inj_on tf_cnt (set T)" "length T \<le> m"
    and "arrivals_ok T (arr @ xs)" "list_all2 (datagram_of max_size) xs ds"
    and "stream_transfers fresh T bc m arr s" "batch_config fresh st"
  shows "\<exists>st1 s1. deliver_all (udp_process_one_packet recording_virtuals max_size) ds (st, s) = Inr (False, st1, s1) \<and>
    stream_transfers fresh T bc m (arr @ xs) s1"
  using assms(4-)
proof (induction xs arbitrary: arr ds s st)
  case (Cons x xs)
  then obtain d ds1 where ds: "ds = d # ds1" "datagram_of max_size x d" "list_all2 (datagram_of max_size) xs ds1"
    by (auto simp: list_all2_Cons1)
  have "arrivals_ok T (arr @ [x])" using Cons.prems(1) by (auto simp: arrivals_ok_def)
  from udp_transfer_packet [OF ok this ds(2) Cons.prems(3,4)] obtain st1 s1 where
    s1: "udp_process_one_packet recording_virtuals max_size d (st, s) = Inr (False, st1, s1)"
    "batch_config fresh st1" "stream_transfers fresh T bc m (arr @ [x]) s1" .
  have "arrivals_ok T ((arr @ [x]) @ xs)" using Cons.prems(1) by simp
  from Cons.IH [OF this ds(3) s1(3,2)] s1(1) show ?case by (simp add: ds(1))
qed auto

lemma end_batch_transfers:
  assumes "stream_transfers fresh T bc m arr s"
  shows "stream_transfers fresh T bc m arr (end_batch st s)"
proof -
  from assms obtain a where a: "refines s a" "transfers_inv T bc m arr a" by (auto simp: stream_transfers_def)
  have "\<exists>stats. end_batch st s = s\<lparr>sb_stats := stats\<rparr>"
    using stream_transfers_running [OF assms] by (simp add: end_batch_def Let_def) (rule exI, rule refl)
  then obtain stats where e: "end_batch st s = s\<lparr>sb_stats := stats\<rparr>" ..
  have "refines (end_batch st s) (a\<lparr>sp_stats := stats\<rparr>)" using a(1) by (simp add: e refines_def)
  moreover have "transfers_inv T bc m arr (a\<lparr>sp_stats := stats\<rparr>)"
    using a(2) by (simp add: transfers_inv_def slots_taken_def live_transfers_def)
  ultimately show ?thesis using assms by (auto simp: stream_transfers_def e)
qed

text \<open>The handler of the UDP reader is called once for every batch of datagrams.\<close>

definition udp_batches ::
  "'s stream_virtuals \<Rightarrow> nat \<Rightarrow> byte list list list \<Rightarrow> 's stream_base \<Rightarrow> fault + 's stream_base" where
  "udp_batches vt max_size batches s =
     fold_result (\<lambda>ds s. bind_result (udp_packet_handler vt max_size (Success ds) s) (\<lambda>(_, s1). Inr s1)) batches s"

lemma udp_batches_transfers:
  assumes ok: "\<forall>t \<in> set T. transfer_ok t" "inj_on tf_cnt (set T)" "length T \<le> m"
    and "arrivals_ok T (arr @ xs)" "list_all2 (datagram_of max_size) xs (concat batches)" "stream_transfers fresh T bc m arr s"
  shows "\<exists>s1. udp_batches recording_virtuals max_size batches s = Inr s1 \<and> stream_transfers fresh T bc m (arr @ xs) s1"
  using assms(4-)
proof (induction batches arbitrary: arr xs s)
  case Nil
  then show ?case by (simp add: udp_batches_def)
next
  case (Cons ds batches)
  then obtain us vs where uv: "xs = us @ vs" "list_all2 (datagram_of max_size) us ds"
    "list_all2 (datagram_of max_size) vs (concat batches)" by (auto simp: list_all2_append2)
  have "arrivals_ok T (arr @ us)" using Cons.prems(1) by (auto simp: arrivals_ok_def uv(1))
  moreover have "batch_config fresh (begin_batch s)"
    using Cons.prems(3) by (simp add: batch_config_def begin_batch_def stream_transfers_def)
  ultimately obtain st1 s1 where
    s1: "deliver_all (udp_process_one_packet recording_virtuals max_size) ds (begin_batch s, s) = Inr (False, st1, s1)"
    "stream_transfers fresh T bc m (arr @ us) s1"
    using deliver_transfer_packets [OF ok _ uv(2) Cons.prems(3)] by blast
  have "map (take (max_size + 1)) ds = ds"
    using uv(2) by (auto simp: datagram_of_def list_all2_conv_all_nth intro!: map_idI dest!: in_set_conv_nth [THEN iffD1])
  then have h: "udp_packet_handler recording_virtuals max_size (Success ds) s = Inr (True, end_batch st1 s1)"
    using s1 stream_transfers_running [OF Cons.prems(3)] stream_transfers_running [OF s1(2)] by (simp add: udp_packet_handler_def)
  have "arrivals_ok T ((arr @ us) @ vs)" using Cons.prems(1) by (simp add: uv(1))
  from Cons.IH [OF this uv(3) end_batch_transfers [OF s1(2)]] h show ?case by (simp add: udp_batches_def uv(1))
qed

section \<open>Heaps\<close>

definition datagrams_of :: "send_heap \<Rightarrow> item_pointer_t \<Rightarrow> nat \<Rightarrow> fault + byte list list" where
  "datagrams_of h cnt m =
     bind_result (make_packet_generator h cnt m) (\<lambda>g.
     bind_result (all_packets (pg_payload_size g) g) (\<lambda>ps. Inr (map (\<lambda>p. concat (sp_buffers p)) ps)))"

text \<open>A live heap that was handed over, and what it contains when it is frozen.\<close>

definition arrives :: "(nat \<Rightarrow> byte) \<Rightarrow> nat \<Rightarrow> live_heap \<Rightarrow> int \<Rightarrow> item_value list \<Rightarrow> bool" where
  "arrives fresh self lh cnt vs \<longleftrightarrow>
     (\<exists>hb lh' us. is_complete lh \<and> make_heap fresh self lh = Inr (hb, lh') \<and> hb_cnt hb = cnt \<and>
        heap_view hb (addressed vs @ us) \<and> set us = set (immediates vs) \<and> distinct us)"

definition can_be_sent :: "nat \<Rightarrow> send_heap \<times> item_pointer_t \<Rightarrow> bool" where
  "can_be_sent m x \<longleftrightarrow>
     sendable (fst x) (snd x) \<and> (sh_repeat_pointers (fst x) \<longrightarrow> length (sh_items (fst x)) < (m - 48) div 8) \<and>
     (\<forall>it \<in> set (sh_items (fst x)). si_id it \<noteq> STREAM_CTRL_ID \<and>
        (use_immediate it (max_immediate_size (fst x)) \<or> si_buffer it \<noteq> []))"

lemma no_stop_pointers:
  assumes "gen_static g" "\<forall>it \<in> set (sh_items (pg_h g)). si_id it \<noteq> STREAM_CTRL_ID" "p \<in> set (gen_pointers g)"
  shows "\<not> stop_pointer (make_pointer_decoder (heap_bits (pg_h g))) p"
proof -
  let ?n = "heap_bits (pg_h g)"
  have wf: "wf_bits ?n" using gen_static_facts(1) [OF assms(1)] .
  have fits: "\<forall>v \<in> set (padded_wire g). item_fits ?n v" "0 + length (gen_payload g) < 2 ^ ?n"
    using padded_wire_ok(1) [OF assms(1)] by (simp_all add: layout_ok_def)
  obtain v where "v \<in> set (padded_wire g)" "get_id (make_pointer_decoder ?n) p = fst v"
    by (rule layout_pointer_cases [OF wf fits assms(3)])
  moreover have "fst (wire_item ?n it) = si_id it" for it by (simp add: wire_item_def)
  ultimately have "get_id (make_pointer_decoder ?n) p \<noteq> STREAM_CTRL_ID"
    using assms(2) by (auto simp: padded_wire_def heap_wire_def item_id_defs split: if_splits)
  then show ?thesis by (simp add: stop_pointer_def)
qed

lemma pieces_distinct:
  assumes "pieces 0 payload wires"
  shows "distinct wires" "\<forall>u \<in> set wires. \<forall>v \<in> set wires. u \<noteq> v \<longrightarrow> wire_range u \<inter> wire_range v = {}"
proof -
  note r = pieces_ranges [OF assms le0]
  from r(2,3) have "distinct wires \<and> (\<forall>u \<in> set wires. \<forall>v \<in> set wires. u \<noteq> v \<longrightarrow> wire_range u \<inter> wire_range v = {})"
    by (induction wires) auto
  then show "distinct wires" "\<forall>u \<in> set wires. \<forall>v \<in> set wires. u \<noteq> v \<longrightarrow> wire_range u \<inter> wire_range v = {}" by simp_all
qed

definition heap_transfer_of :: "nat \<Rightarrow> nat \<Rightarrow> send_heap \<times> item_pointer_t \<Rightarrow> transfer \<Rightarrow> byte list list \<Rightarrow> bool" where
  "heap_transfer_of max_size m x t ds \<longleftrightarrow>
     datagrams_of (fst x) (snd x) m = Inr ds \<and> transfer_ok t \<and> tf_cnt t = sint (snd x) \<and> distinct (tf_wires t) \<and> tf_wires t \<noteq> [] \<and>
     list_all2 (datagram_of max_size) (map (Pair t) (tf_wires t)) ds \<and>
     (\<forall>bc fresh self lh. partly bc t (set (tf_wires t)) lh \<longrightarrow> arrives fresh self lh (sint (snd x)) (heap_wire (fst x)))"

lemma heap_as_transfer:
  assumes x: "can_be_sent m x" and m: "m mod 8 = 0" "56 \<le> m" "m \<le> max_size"
  shows "\<exists>t ds. heap_transfer_of max_size m x t ds"
proof -
  obtain h cnt where hc: "x = (h, cnt)" by (cases x)
  have s: "sendable h cnt" "sh_repeat_pointers h \<Longrightarrow> length (sh_items h) < (m - 48) div 8"
    "\<forall>it \<in> set (sh_items h). si_id it \<noteq> STREAM_CTRL_ID"
    "\<forall>it \<in> set (sh_items h). use_immediate it (max_immediate_size h) \<or> si_buffer it \<noteq> []"
    using x by (auto simp: can_be_sent_def hc)
  obtain g where g: "make_packet_generator h cnt m = Inr g" "gen_inv g" "pg_h g = h" "pg_cnt g = cnt"
    "pg_max_packet_size g = m" "pg_payload_offset g = 0" "pg_next_item_pointer g = 0"
    using make_packet_generator_ok [OF s(1) m(1,2) s(2)] by metis
  define n where "n = heap_bits h"
  have n: "n = heap_bits (pg_h g)" by (simp add: n_def g)
  have st: "gen_static g" using g(2) by (simp add: gen_inv_def)
  have size: "length (gen_payload g) = pg_payload_size g" "0 < pg_payload_size g"
    using gen_static_facts [OF st] gen_payload_eq(2) [OF st] by simp_all
  have "first_pointer g = 0" by (simp add: first_pointer_def g(7))
  then obtain ps wires where ps: "all_packets (pg_payload_size g) g = Inr ps"
    "map (\<lambda>p. concat (sp_buffers p)) ps = map (wire_bytes n (sint cnt) (int (pg_payload_size g))) wires"
    "pieces 0 (gen_payload g) wires" "pointers_sent (sh_repeat_pointers (pg_h g)) (gen_pointers g) wires"
    and fit: "\<forall>w \<in> set wires. length (fst (snd w)) * 8 + length (snd (snd w)) + 40 \<le> m"
    using all_packets_ok [OF g(2) _ n, of "pg_payload_size g"] g by auto
  define t where "t = \<lparr>tf_bits = n, tf_cnt = sint cnt, tf_payload = gen_payload g, tf_wires = wires\<rparr>"
  have few: "\<forall>w \<in> set wires. set (fst (snd w)) \<subseteq> set (gen_pointers g) \<and> length (fst (snd w)) \<le> length (padded_wire g)"
    using pointers_sent_few [OF ps(4)] by simp
  have wok: "wire_ok n (gen_payload g) w \<and> (\<forall>p \<in> set (fst (snd w)). plain_pointer n p)" if "w \<in> set wires" for w
    using wire_packets_ok [OF st n ps(3) _ that] few by blast
  have "int (length (gen_payload g)) < 2 ^ 56"
  proof -
    have "pg_payload_size g < 2 ^ n" using gen_static_facts(5) [OF st] by (simp add: n)
    also have "\<dots> \<le> 2 ^ 56" using wf_bits_le gen_static_facts(1) [OF st] n by (intro power_increasing) simp_all
    finally have "int (pg_payload_size g) < int (2 ^ 56)" by (simp only: of_nat_less_iff)
    then show ?thesis by (simp add: size)
  qed
  moreover have "\<not> stop_pointer (make_pointer_decoder n) p" if "w \<in> set wires" "p \<in> set (fst (snd w))" for w p
    unfolding n using that few s(3) g(3) by (intro no_stop_pointers [OF st]) auto
  ultimately have tok: "transfer_ok t"
    using gen_static_facts(1) [OF st] special_encodable(5,6) [OF st] wok pieces_ranges(1) [OF ps(3) le0] pieces_distinct(2) [OF ps(3)]
    by (simp add: transfer_ok_def t_def n g)
  have "datagram_of max_size (t, w) (wire_bytes n (sint cnt) (int (pg_payload_size g)) w)" if "w \<in> set wires" for w
    using decode_wire [OF g(2) n, of w "[]"] wok [OF that] few that fit m(3)
    by (auto simp: datagram_of_def tf_header_def t_def g(4) size length_wire_bytes)
  then have dg: "list_all2 (datagram_of max_size) (map (Pair t) wires) (map (\<lambda>p. concat (sp_buffers p)) ps)"
    unfolding ps(2) by (simp add: list_all2_conv_all_nth)
  have ne: "wires \<noteq> []" using ps(3) size by auto
  have ptrs: "(\<Union>w \<in> set wires. set (fst (snd w))) = set (gen_pointers g)"
  proof (cases "sh_repeat_pointers (pg_h g)")
    case False
    then have "set (concat (map (\<lambda>w. fst (snd w)) wires)) = set (gen_pointers g)" using ps(4) by (simp add: pointers_sent_def)
    then show ?thesis by simp
  qed (use ps(4) ne in \<open>simp add: pointers_sent_def\<close>)
  have nonempty: "\<forall>v \<in> set (heap_wire (pg_h g)). fst (snd v) \<or> snd (snd v) \<noteq> []"
    using s(4) by (auto simp: heap_wire_def g wire_item_def use_immediate_def max_immediate_size_def)
  have "arrives fresh self lh (sint cnt) (heap_wire h)" if lh: "partly bc t (set wires) lh" for bc fresh self lh
  proof -
    have r: "receiving n (sint (pg_cnt g)) (gen_payload g) lh" using lh by (simp add: partly_def t_def g)
    have "lh_heap_length lh = int (length (gen_payload g))" "dom (lh_data lh) = {0..<int (length (gen_payload g))}"
      "set (lh_pointers lh) = set (gen_pointers g)"
      using lh ne pieces_ranges(1) [OF ps(3) le0] ptrs by (simp_all add: partly_def t_def)
    from received_items [OF st n r this nonempty] obtain us where us: "is_complete lh"
      "frozen_items lh True = addressed (heap_wire h) @ us" "set us = set (immediates (heap_wire h))" "distinct us"
      unfolding g(3) .
    have "lh_inv lh" "is_contiguous lh" using r us(1) by (auto simp: receiving_def is_complete_def is_contiguous_def)
    then obtain hb lh' where "make_heap fresh self lh = Inr (hb, lh')"
      "load_result lh True True (new_heap_base fresh self) hb" by (rule make_heap_ok)
    with us r show ?thesis unfolding arrives_def
      by (intro exI [of _ hb] exI [of _ lh'] exI [of _ us]) (simp add: load_result_def frozen_items_def receiving_def g(4))
  qed
  with tok dg g(1) ps(1) ne pieces_distinct(1) [OF ps(3)] have
    "heap_transfer_of max_size m x t (map (\<lambda>p. concat (sp_buffers p)) ps)"
    by (simp add: heap_transfer_of_def hc datagrams_of_def) (simp add: t_def)
  then show ?thesis by blast
qed

lemma heaps_as_transfers:
  assumes "\<forall>x \<in> set hs. can_be_sent m x" "m mod 8 = 0" "56 \<le> m" "m \<le> max_size"
  shows "\<exists>T dss. length T = length hs \<and> length dss = length hs \<and> (\<forall>i < length hs. heap_transfer_of max_size m (hs ! i) (T ! i) (dss ! i))"
proof -
  have "\<forall>i. \<exists>t ds. i < length hs \<longrightarrow> heap_transfer_of max_size m (hs ! i) t ds"
    using heap_as_transfer [OF _ assms(2-4)] assms(1) by (meson nth_mem)
  then obtain f g where "\<forall>i < length hs. heap_transfer_of max_size m (hs ! i) (f i) (g i)" by metis
  then show ?thesis by (intro exI [of _ "map f [0..<length hs]"] exI [of _ "map g [0..<length hs]"]) simp
qed

text \<open>The packets of all transfers, and their datagrams in any order.\<close>

definition all_arrivals :: "transfer list \<Rightarrow> (transfer \<times> wire_packet) list" where
  "all_arrivals T = concat (map (\<lambda>t. map (Pair t) (tf_wires t)) T)"

lemma set_all_arrivals: "set (all_arrivals T) = (\<Union>t \<in> set T. {t} \<times> set (tf_wires t))"
  by (auto simp: all_arrivals_def)

lemma distinct_all_arrivals: "distinct T \<Longrightarrow> \<forall>t \<in> set T. distinct (tf_wires t) \<Longrightarrow> distinct (all_arrivals T)"
proof (induction T)
  case (Cons t T)
  then have "distinct (all_arrivals T)" "set (map (Pair t) (tf_wires t)) \<inter> set (all_arrivals T) = {}"
    by (auto simp: set_all_arrivals)
  with Cons.prems show ?case by (simp add: all_arrivals_def distinct_map inj_on_def)
qed (simp add: all_arrivals_def)

lemma permuted_arrivals:
  assumes "distinct T" "\<forall>t \<in> set T. distinct (tf_wires t)" "mset xs = mset (all_arrivals T)"
  shows "arrivals_ok T xs" "t \<in> set T \<Longrightarrow> got xs t = set (tf_wires t)"
proof -
  have s: "set xs = (\<Union>t \<in> set T. {t} \<times> set (tf_wires t))" using assms(3) set_all_arrivals by (metis set_mset_mset)
  have "distinct xs" using distinct_all_arrivals [OF assms(1,2)] assms(3) by (metis mset_eq_imp_distinct_iff)
  with s show "arrivals_ok T xs" by (simp add: arrivals_ok_def)
  show "t \<in> set T \<Longrightarrow> got xs t = set (tf_wires t)" using s by (auto simp: got_def)
qed

lemma new_stream_transfers:
  assumes "make_stream_base (default_allocate fresh) bc m [] = Inr s" "m < 2 ^ 60" "\<forall>t \<in> set T. tf_wires t \<noteq> []"
  shows "stream_transfers fresh T bc m [] s"
proof -
  have r: "refines s (initial_spec bc m [])" by (rule initial_refines [OF assms(1,2)])
  have "{t \<in> set T. {} = set (tf_wires t)} = {}" using assms(3) by auto
  then have "transfers_inv T bc m [] (initial_spec bc m [])"
    by (simp add: transfers_inv_def slots_taken_def live_transfers_def handed_over_def underway_def got_def initial_spec_def)
  moreover have "sb_memcpy s = std_packet_memcpy" "sb_allocator s = default_allocate fresh"
    using assms(1) by (auto simp: make_stream_base_def Let_def split: if_splits)
  ultimately show ?thesis using r by (auto simp: stream_transfers_def)
qed

lemma list_all2_concat: "list_all2 (list_all2 P) xss yss \<Longrightarrow> list_all2 P (concat xss) (concat yss)"
  by (induction rule: list_all2_induct) (simp_all add: list_all2_appendI)

lemma list_all2_reorder:
  assumes "list_all2 P xs ys" "mset ys' = mset ys"
  shows "\<exists>xs'. mset xs' = mset xs \<and> list_all2 P xs' ys'"
proof -
  from assms(1) have z: "xs = map fst (zip xs ys)" "ys = map snd (zip xs ys)" "\<forall>z \<in> set (zip xs ys). P (fst z) (snd z)"
    by (auto simp: list_all2_iff)
  from assms(2) z(2) have "mset ys' = image_mset snd (mset (zip xs ys))" by (metis mset_map)
  from permuted_map [OF this] obtain zs where zs: "ys' = map snd zs" "mset zs = mset (zip xs ys)" by blast
  have "mset (map fst zs) = mset xs" using zs(2) z(1) by (metis mset_map)
  moreover have "\<forall>z \<in> set zs. P (fst z) (snd z)" using z(3) zs(2) by (metis set_mset_mset)
  then have "list_all2 P (map fst zs) ys'" unfolding zs(1) by (simp add: list_all2_conv_all_nth)
  ultimately show ?thesis by blast
qed

section \<open>The property\<close>

text \<open>
  C1: Streams of heaps arrive as they were sent.  Up to \<^verbatim>\<open>max_heaps\<close> heaps with different counts are cut into packets; the datagrams are mixed, put
  into any order and cut into batches in any way.  The handler of the UDP reader and the receiving stream with its queue, hash table and eviction
  process all of them without a fault, hand over exactly as many heaps as were sent, and for every heap that was sent one that is
  complete and that freezes into its addressed items, in order and with their bytes, and exactly its immediate ones.
\<close>

theorem stream_transfer:
  assumes sent: "\<forall>x \<in> set hs. can_be_sent m x" "distinct (map snd hs)" "length hs \<le> max_heaps"
    and m: "m mod 8 = 0" "56 \<le> m" "m \<le> max_size"
    and s: "make_stream_base (default_allocate fresh) bc max_heaps [] = Inr s" "max_heaps < 2 ^ 60"
  shows "\<exists>dss. length dss = length hs \<and> (\<forall>i < length hs. datagrams_of (fst (hs ! i)) (snd (hs ! i)) m = Inr (dss ! i)) \<and>
    (\<forall>batches. mset (concat batches) = mset (concat dss) \<longrightarrow>
      (\<exists>s'. udp_batches recording_virtuals max_size batches s = Inr s' \<and> length (sb_sink s') = length hs \<and>
         (\<forall>x \<in> set hs. \<exists>lh \<in> set (sb_sink s'). arrives fresh self lh (sint (snd x)) (heap_wire (fst x)))))"
proof -
  obtain T dss where T: "length T = length hs" "length dss = length hs"
    "\<forall>i < length hs. heap_transfer_of max_size m (hs ! i) (T ! i) (dss ! i)"
    using heaps_as_transfers [OF sent(1) m] by blast
  have each: "\<exists>x \<in> set hs. \<exists>ds. heap_transfer_of max_size m x t ds" if "t \<in> set T" for t
    using that T by (metis in_set_conv_nth)
  have ok: "\<forall>t \<in> set T. transfer_ok t" "\<forall>t \<in> set T. distinct (tf_wires t)"
    using each by (auto simp: heap_transfer_of_def)
  have cnts: "map tf_cnt T = map (sint \<circ> snd) hs"
    using T by (intro nth_equalityI) (simp_all add: heap_transfer_of_def)
  have inj: "sint a = sint b \<longleftrightarrow> a = b" for a b :: item_pointer_t by (metis uint_sint word_uint_eqI)
  have "distinct (map (sint \<circ> snd) hs)" using sent(2) by (auto simp: distinct_map inj_on_def inj)
  then have dist: "distinct T" "inj_on tf_cnt (set T)" unfolding cnts [symmetric] by (simp_all add: distinct_map)
  have "list_all2 (list_all2 (datagram_of max_size)) (map (\<lambda>t. map (Pair t) (tf_wires t)) T) dss"
    using T by (simp add: list_all2_conv_all_nth [where P = "list_all2 (datagram_of max_size)"] heap_transfer_of_def)
  then have dg: "list_all2 (datagram_of max_size) (all_arrivals T) (concat dss)"
    unfolding all_arrivals_def by (rule list_all2_concat)
  have "\<forall>t \<in> set T. tf_wires t \<noteq> []" using each by (auto simp: heap_transfer_of_def)
  then have new: "stream_transfers fresh T bc max_heaps [] s" by (rule new_stream_transfers [OF s])
  have len: "length T \<le> max_heaps" using T(1) sent(3) by simp
  have "\<exists>s'. udp_batches recording_virtuals max_size batches s = Inr s' \<and> length (sb_sink s') = length hs \<and>
      (\<forall>x \<in> set hs. \<exists>lh \<in> set (sb_sink s'). arrives fresh self lh (sint (snd x)) (heap_wire (fst x)))"
    if b: "mset (concat batches) = mset (concat dss)" for batches
  proof -
    from list_all2_reorder [OF dg b] obtain xs where
      xs: "mset xs = mset (all_arrivals T)" "list_all2 (datagram_of max_size) xs (concat batches)" by blast
    note arr = permuted_arrivals [OF dist(1) ok(2) xs(1)]
    from udp_batches_transfers [OF ok(1) dist(2) len _ xs(2) new] arr(1) obtain s' where
      s': "udp_batches recording_virtuals max_size batches s = Inr s'" "stream_transfers fresh T bc max_heaps xs s'" by auto
    from s'(2) obtain a where a: "refines s' a" "handed_over T bc xs (sp_sink a)"
      by (auto simp: stream_transfers_def transfers_inv_def)
    have "{t \<in> set T. got xs t = set (tf_wires t)} = set T" using arr(2) by auto
    with a(2) have "\<exists>ts. distinct ts \<and> set ts = set T \<and> list_all2 (\<lambda>t h. partly bc t (set (tf_wires t)) h) ts (sb_sink s')"
      by (simp add: handed_over_def refinesD(14) [OF a(1)])
    then obtain ts where
      ts: "distinct ts" "set ts = set T" "list_all2 (\<lambda>t h. partly bc t (set (tf_wires t)) h) ts (sb_sink s')" by (elim exE conjE)
    have "length ts = length T" using ts(1,2) dist(1) by (metis distinct_card)
    then have n: "length (sb_sink s') = length hs" using ts(3) T(1) by (simp add: list_all2_lengthD)
    have "\<exists>lh \<in> set (sb_sink s'). arrives fresh self lh (sint (snd x)) (heap_wire (fst x))" if x: "x \<in> set hs" for x
    proof -
      from x obtain i where i: "i < length hs" "x = hs ! i" by (auto simp: in_set_conv_nth)
      then have tr: "heap_transfer_of max_size m x (T ! i) (dss ! i)" using T(3) by simp
      have "T ! i \<in> set ts" using i(1) T(1) ts(2) by simp
      then obtain j where j: "j < length ts" "T ! i = ts ! j" by (auto simp: in_set_conv_nth)
      then have "partly bc (T ! i) (set (tf_wires (T ! i))) (sb_sink s' ! j)" "sb_sink s' ! j \<in> set (sb_sink s')"
        using list_all2_nthD [OF ts(3) j(1)] list_all2_lengthD [OF ts(3)] by simp_all
      with tr show ?thesis unfolding heap_transfer_of_def by blast
    qed
    with s'(1) n show ?thesis by blast
  qed
  moreover have "\<forall>i < length hs. datagrams_of (fst (hs ! i)) (snd (hs ! i)) m = Inr (dss ! i)"
    using T(3) by (simp add: heap_transfer_of_def)
  ultimately show ?thesis using T(2) by blast
qed

text \<open>Two heaps with different counts through a stream of four slots, in two batches.\<close>

definition example_heaps :: "(send_heap \<times> item_pointer_t) list" where
  "example_heaps = [(example_send_heap, 1), (example_send_heap, 2)]"

lemma example_heaps_sent: "\<forall>x \<in> set example_heaps. can_be_sent 56 x"
proof -
  have "sendable example_send_heap 2"
    by (simp add: sendable_def sendable_item_def example_send_heap_def default_flavour_def wf_bits_def
        immediate_item_def buffer_item_def item_id_defs heap_wire_def wire_item_def payload_of_def)
  with example_sendable show ?thesis
    by (simp add: example_heaps_def can_be_sent_def)
      (simp add: example_send_heap_def use_immediate_def immediate_item_def buffer_item_def item_id_defs)
qed

theorem stream_transfer_witness:
  "\<exists>ds1 ds2 s'. datagrams_of example_send_heap 1 56 = Inr ds1 \<and> datagrams_of example_send_heap 2 56 = Inr ds2 \<and>
     udp_batches recording_virtuals 9200 [ds2, rev ds1] (example_stream []) = Inr s' \<and> length (sb_sink s') = 2 \<and>
     (\<exists>lh \<in> set (sb_sink s'). arrives (\<lambda>_. 0) 0 lh 2
       [(0x1000, True, [0, 0, 0, 0, 7]), (0x1001, True, [0, 0, 1, 2, 3]),
        (0x1002, False, [1, 2, 3, 4, 5, 6, 7, 8, 9]), (0x1003, False, [5])])"
proof -
  have wire: "heap_wire example_send_heap = [(0x1000, True, [0, 0, 0, 0, 7]), (0x1001, True, [0, 0, 1, 2, 3]),
       (0x1002, False, [1, 2, 3, 4, 5, 6, 7, 8, 9]), (0x1003, False, [5])]"
    by (simp add: heap_wire_def wire_item_def example_send_heap_def default_flavour_def immediate_item_def
        buffer_item_def be_bytes_numeral replicate_unfold_numeral)
  have hs: "distinct (map snd example_heaps)" "length example_heaps \<le> 4" "(56 :: nat) mod 8 = 0" "56 \<le> (56 :: nat)"
    "56 \<le> (9200 :: nat)" "(4 :: nat) < 2 ^ 60"
    by (simp_all add: example_heaps_def)
  from stream_transfer [OF example_heaps_sent hs(1-5) example_stream hs(6), of 0] obtain dss where
    dss: "length dss = length example_heaps"
    "\<forall>i < length example_heaps. datagrams_of (fst (example_heaps ! i)) (snd (example_heaps ! i)) 56 = Inr (dss ! i)"
    and all: "\<And>batches. mset (concat batches) = mset (concat dss) \<Longrightarrow>
      \<exists>s'. udp_batches recording_virtuals 9200 batches (example_stream []) = Inr s' \<and> length (sb_sink s') = length example_heaps \<and>
         (\<forall>x \<in> set example_heaps. \<exists>lh \<in> set (sb_sink s'). arrives (\<lambda>_. 0) 0 lh (sint (snd x)) (heap_wire (fst x)))"
    by blast
  from dss(1) obtain ds1 ds2 where d: "dss = [ds1, ds2]" by (auto simp: example_heaps_def length_Suc_conv)
  have "datagrams_of example_send_heap 1 56 = Inr ds1" "datagrams_of example_send_heap 2 56 = Inr ds2"
    using dss(2) [rule_format, of 0] dss(2) [rule_format, of 1] by (simp_all add: d example_heaps_def)
  moreover have "mset (concat [ds2, rev ds1]) = mset (concat dss)" by (simp add: d)
  from all [OF this] obtain s' where "udp_batches recording_virtuals 9200 [ds2, rev ds1] (example_stream []) = Inr s'"
    "length (sb_sink s') = 2" "\<exists>lh \<in> set (sb_sink s'). arrives (\<lambda>_. 0) 0 lh (sint (2 :: item_pointer_t)) (heap_wire example_send_heap)"
    unfolding example_heaps_def by (elim exE conjE) simp
  ultimately show ?thesis unfolding wire by auto
qed

end
