(* ===== verification/Mcdump.thy ===== *)
theory Mcdump
  imports Semaphores
begin

text \<open>
  The capture program \<^verbatim>\<open>mcdump.cpp\<close>: a thread that takes packets from the network card into chunks, a thread that collects them into buffers, and
  threads that write the buffers to a file.  Here is the writer, which has its own threads: two ring buffers circulate its buffers, one for those
  to be written and one for the free ones.  What \<^verbatim>\<open>pwrite\<close> returns is an argument.
\<close>

section \<open>Writer\<close>

record dump_buffer =
  db_offset :: nat
  db_data :: "byte list"
  db_length :: nat

text \<open>
  A writer thread waits for a buffer, writes one of which it has written some bytes, or has ended, normally or with an exception.  The thread that
  uses the writer is between calls, in \<^verbatim>\<open>write\<close> with data left, in \<^verbatim>\<open>flush\<close> waiting for a free buffer (from \<^verbatim>\<open>write\<close> with data left, or from
  \<^verbatim>\<open>close\<close>), or in \<^verbatim>\<open>close\<close> waiting for the threads.
\<close>

datatype writer_thread = Waiting | Writing_buffer dump_buffer nat | Ended | Failed_with ibv_error

datatype writer_pc = Outside | In_write "byte list" | In_flush "byte list option" | Joining | Closed_file | Close_failed ibv_error

record writer =
  wr_depth :: nat
  wr_ring :: "dump_buffer list"
  wr_ring_stopped :: bool
  wr_free_ring :: "dump_buffer list"
  wr_cur_buffer :: "dump_buffer option"
  wr_total_bytes :: nat
  wr_threads :: "writer_thread list"
  wr_pc :: writer_pc
  wr_file :: "nat \<Rightarrow> byte"

text \<open>
  The size of a buffer is a constant of the class; the definitions take it as an argument.
\<close>

definition writer_buffer_size :: nat where
  "writer_buffer_size = 8 * 1024 * 1024"

definition compute_depth :: "nat \<Rightarrow> nat \<Rightarrow> nat" where
  "compute_depth bs disk_buffer = (let depth = disk_buffer div bs in if depth = 0 then 1 else depth)"

text \<open>\<open>memory\<close> is what the allocator returns for each buffer, \<open>n_affinity\<close> the number of cores given.\<close>

definition make_writer :: "nat \<Rightarrow> nat \<Rightarrow> (nat \<Rightarrow> byte list) \<Rightarrow> nat \<Rightarrow> writer" where
  "make_writer bs disk_buffer memory n_affinity =
     (let depth = compute_depth bs disk_buffer;
          buffers = map (\<lambda>i. \<lparr>db_offset = 0, db_data = memory i, db_length = 0\<rparr>) [0..<depth]
      in \<lparr>wr_depth = depth, wr_ring = [], wr_ring_stopped = False, wr_free_ring = tl buffers, wr_cur_buffer = Some (hd buffers),
          wr_total_bytes = 0, wr_threads = replicate (if n_affinity = 0 then 1 else n_affinity) Waiting, wr_pc = Outside,
          wr_file = (\<lambda>_. 0)\<rparr>)"

text \<open>\<^verbatim>\<open>flush\<close> up to the push, which blocks while the ring is full, and the pop, which blocks while there is no free buffer.\<close>

definition flush_push :: "byte list option \<Rightarrow> dump_buffer \<Rightarrow> writer \<Rightarrow> writer option" where
  "flush_push rest b s =
     (if length (wr_ring s) < wr_depth s
      then Some (s\<lparr>wr_total_bytes := wr_total_bytes s + db_length b, wr_ring := wr_ring s @ [b], wr_cur_buffer := None, wr_pc := In_flush rest\<rparr>)
      else None)"

definition flush_pop :: "byte list option \<Rightarrow> writer \<Rightarrow> writer option" where
  "flush_pop rest s =
     (case wr_free_ring s of
        [] \<Rightarrow> None
      | b # bs \<Rightarrow>
          Some (s\<lparr>wr_free_ring := bs, wr_cur_buffer := Some (b\<lparr>db_offset := wr_total_bytes s\<rparr>),
                  wr_pc := (case rest of Some r \<Rightarrow> In_write r | None \<Rightarrow> Joining),
                  wr_ring_stopped := (wr_ring_stopped s \<or> rest = None)\<rparr>))"

text \<open>One turn of the loop of \<^verbatim>\<open>write\<close>.\<close>

definition write_turn :: "nat \<Rightarrow> byte list \<Rightarrow> writer \<Rightarrow> writer option" where
  "write_turn bs data s =
     (if data = [] then Some (s\<lparr>wr_pc := Outside\<rparr>)
      else
        (case wr_cur_buffer s of
           None \<Rightarrow> None
         | Some b \<Rightarrow>
             let n = min (length data) (bs - db_length b);
                 b1 = b\<lparr>db_data := take (db_length b) (db_data b) @ take n data @ drop (db_length b + n) (db_data b),
                        db_length := db_length b + n\<rparr>
             in if db_length b1 = bs then flush_push (Some (drop n data)) b1 s
                else Some (s\<lparr>wr_cur_buffer := Some b1, wr_pc := In_write (drop n data)\<rparr>)))"

text \<open>
  \<^verbatim>\<open>close\<close> flushes what is left, stops the ring and waits for the threads, one after another; then it frees the buffers, truncates and closes the
  file.  The exception of a thread, and an error of the two calls, is thrown.
\<close>

definition close_begin :: "writer \<Rightarrow> writer option" where
  "close_begin s =
     (case wr_cur_buffer s of
        None \<Rightarrow> None
      | Some b \<Rightarrow> if db_length b > 0 then flush_push None b s else Some (s\<lparr>wr_ring_stopped := True, wr_pc := Joining\<rparr>))"

fun join_threads :: "writer_thread list \<Rightarrow> ibv_error option option" where
  "join_threads [] = Some None"
| "join_threads (Ended # ts) = join_threads ts"
| "join_threads (Failed_with e # ts) = Some (Some e)"
| "join_threads (_ # ts) = None"

definition close_end :: "int option \<Rightarrow> int option \<Rightarrow> writer \<Rightarrow> writer option" where
  "close_end ftruncate_errno close_errno s =
     (case join_threads (wr_threads s) of
        None \<Rightarrow> None
      | Some (Some e) \<Rightarrow> Some (s\<lparr>wr_pc := Close_failed e\<rparr>)
      | Some None \<Rightarrow>
          Some (s\<lparr>wr_free_ring := [],
                  wr_pc := (case ftruncate_errno of
                              Some errno \<Rightarrow> Close_failed (throw_errno errno)
                            | None \<Rightarrow> (case close_errno of Some errno \<Rightarrow> Close_failed (throw_errno errno) | None \<Rightarrow> Closed_file))\<rparr>))"

text \<open>
  The loop of a writer thread: the pop, one \<^verbatim>\<open>pwrite\<close> (\<open>Inr\<close> is the number of bytes written), and the push to the free ring.
\<close>

definition thread_pop :: "nat \<Rightarrow> writer \<Rightarrow> writer option" where
  "thread_pop t s =
     (case wr_ring s of
        b # bs \<Rightarrow> Some (s\<lparr>wr_ring := bs, wr_threads := (wr_threads s)[t := Writing_buffer b 0]\<rparr>)
      | [] \<Rightarrow> if wr_ring_stopped s then Some (s\<lparr>wr_threads := (wr_threads s)[t := Ended]\<rparr>) else None)"

definition write_file :: "nat \<Rightarrow> byte list \<Rightarrow> (nat \<Rightarrow> byte) \<Rightarrow> nat \<Rightarrow> byte" where
  "write_file offset data f p = (if offset \<le> p \<and> p < offset + length data then data ! (p - offset) else f p)"

definition thread_pwrite :: "nat \<Rightarrow> int + nat \<Rightarrow> dump_buffer \<Rightarrow> nat \<Rightarrow> writer \<Rightarrow> writer" where
  "thread_pwrite t result b k s =
     (case result of
        Inl errno \<Rightarrow> if errno = EINTR then s else s\<lparr>wr_threads := (wr_threads s)[t := Failed_with (throw_errno errno)]\<rparr>
      | Inr ret \<Rightarrow>
          s\<lparr>wr_threads := (wr_threads s)[t := Writing_buffer b (k + ret)],
            wr_file := write_file (db_offset b + k) (take ret (drop k (db_data b))) (wr_file s)\<rparr>)"

definition thread_free :: "nat \<Rightarrow> dump_buffer \<Rightarrow> writer \<Rightarrow> writer option" where
  "thread_free t b s =
     (if length (wr_free_ring s) < wr_depth s
      then Some (s\<lparr>wr_free_ring := wr_free_ring s @ [b\<lparr>db_length := 0\<rparr>], wr_threads := (wr_threads s)[t := Waiting]\<rparr>)
      else None)"

definition writer_thread_turn :: "nat \<Rightarrow> nat \<Rightarrow> int + nat \<Rightarrow> writer \<Rightarrow> writer option" where
  "writer_thread_turn bs t result s =
     (case wr_threads s ! t of
        Waiting \<Rightarrow> thread_pop t s
      | Writing_buffer b k \<Rightarrow> if k < bs then Some (thread_pwrite t result b k s) else thread_free t b s
      | _ \<Rightarrow> None)"

text \<open>
  A run: calls of the user, turns of the loops, and turns of the threads.  An event that is not possible, or blocks, gives \<open>None\<close>.
\<close>

datatype writer_event = Call_write "byte list" | Write_turn | Flush_pop | Call_close | Close_end "int option" "int option" | Thread_turn nat "int + nat"

fun writer_step :: "nat \<Rightarrow> writer_event \<Rightarrow> writer \<Rightarrow> writer option" where
  "writer_step bs (Call_write data) s = (if wr_pc s = Outside then Some (s\<lparr>wr_pc := In_write data\<rparr>) else None)"
| "writer_step bs Write_turn s = (case wr_pc s of In_write data \<Rightarrow> write_turn bs data s | _ \<Rightarrow> None)"
| "writer_step bs Flush_pop s = (case wr_pc s of In_flush rest \<Rightarrow> flush_pop rest s | _ \<Rightarrow> None)"
| "writer_step bs Call_close s = (if wr_pc s = Closed_file then Some s else if wr_pc s = Outside then close_begin s else None)"
| "writer_step bs (Close_end ft cl) s = (if wr_pc s = Joining then close_end ft cl s else None)"
| "writer_step bs (Thread_turn t result) s = (if t < length (wr_threads s) then writer_thread_turn bs t result s else None)"

fun writer_run :: "nat \<Rightarrow> writer_event list \<Rightarrow> writer \<Rightarrow> writer option" where
  "writer_run bs [] s = Some s"
| "writer_run bs (e # es) s = (case writer_step bs e s of None \<Rightarrow> None | Some s1 \<Rightarrow> writer_run bs es s1)"

text \<open>The file after \<^verbatim>\<open>ftruncate\<close>, and the data given to \<^verbatim>\<open>write\<close>.\<close>

definition file_contents :: "writer \<Rightarrow> byte list" where
  "file_contents s = map (wr_file s) [0..<wr_total_bytes s]"

fun data_written :: "writer_event list \<Rightarrow> byte list" where
  "data_written [] = []"
| "data_written (Call_write data # es) = data @ data_written es"
| "data_written (_ # es) = data_written es"

section \<open>Invariant of the writer\<close>

text \<open>
  The buffers on their way to the file, with the number of bytes already written.
\<close>

fun in_thread :: "writer_thread \<Rightarrow> (dump_buffer \<times> nat) list" where
  "in_thread (Writing_buffer b k) = [(b, k)]"
| "in_thread _ = []"

definition busy :: "writer_thread list \<Rightarrow> (dump_buffer \<times> nat) list" where
  "busy ts = concat (map in_thread ts)"

definition in_transit :: "writer \<Rightarrow> (dump_buffer \<times> nat) list" where
  "in_transit s = map (\<lambda>b. (b, 0)) (wr_ring s) @ busy (wr_threads s)"

fun is_failed :: "writer_thread \<Rightarrow> bool" where
  "is_failed (Failed_with e) \<longleftrightarrow> True"
| "is_failed _ \<longleftrightarrow> False"

fun rest_of :: "writer_pc \<Rightarrow> byte list" where
  "rest_of (In_write data) = data"
| "rest_of (In_flush (Some data)) = data"
| "rest_of _ = []"

definition still_open :: "writer_pc \<Rightarrow> bool" where
  "still_open pc \<longleftrightarrow> (case pc of Outside \<Rightarrow> True | In_write _ \<Rightarrow> True | In_flush rest \<Rightarrow> rest \<noteq> None | _ \<Rightarrow> False)"

fun closing :: "writer_pc \<Rightarrow> bool" where
  "closing Joining \<longleftrightarrow> True"
| "closing Closed_file \<longleftrightarrow> True"
| "closing (Close_failed e) \<longleftrightarrow> True"
| "closing _ \<longleftrightarrow> False"

fun in_use :: "writer_pc \<Rightarrow> bool" where
  "in_use Closed_file \<longleftrightarrow> False"
| "in_use (Close_failed e) \<longleftrightarrow> False"
| "in_use _ \<longleftrightarrow> True"

definition current_data :: "writer \<Rightarrow> byte list" where
  "current_data s = (case wr_cur_buffer s of None \<Rightarrow> [] | Some b \<Rightarrow> take (db_length b) (db_data b))"

text \<open>
  \<open>F\<close> is what has been flushed.  A byte of the file is right, or will be written by a buffer that is pending; and pending buffers write nothing wrong.
\<close>

definition pending_ok :: "nat \<Rightarrow> byte list \<Rightarrow> bool \<Rightarrow> (dump_buffer \<times> nat) list \<Rightarrow> bool" where
  "pending_ok bs F op ps \<longleftrightarrow> (\<forall>(b, k) \<in> set ps. length (db_data b) = bs \<and> k \<le> bs \<and> (op \<longrightarrow> db_offset b + bs \<le> length F) \<and>
     (\<forall>j < bs. db_offset b + j < length F \<longrightarrow> db_data b ! j = F ! (db_offset b + j)))"

definition file_ok :: "nat \<Rightarrow> byte list \<Rightarrow> (dump_buffer \<times> nat) list \<Rightarrow> (nat \<Rightarrow> byte) \<Rightarrow> bool" where
  "file_ok bs F ps f \<longleftrightarrow>
     (\<forall>p < length F. f p = F ! p \<or> (\<exists>(b, k) \<in> set ps. db_offset b + k \<le> p \<and> p < db_offset b + bs))"

definition current_ok :: "nat \<Rightarrow> writer \<Rightarrow> bool" where
  "current_ok bs s \<longleftrightarrow>
     (case wr_cur_buffer s of
        None \<Rightarrow> \<exists>rest. wr_pc s = In_flush rest
      | Some b \<Rightarrow> length (db_data b) = bs \<and> db_length b < bs \<and> db_offset b = wr_total_bytes s \<and> (\<forall>rest. wr_pc s \<noteq> In_flush rest) \<and>
          (\<not> still_open (wr_pc s) \<longrightarrow> db_length b = 0))"

definition rings_ok :: "nat \<Rightarrow> writer \<Rightarrow> bool" where
  "rings_ok bs s \<longleftrightarrow>
     (\<forall>b \<in> set (wr_free_ring s). length (db_data b) = bs \<and> db_length b = 0) \<and>
     (wr_ring_stopped s \<longleftrightarrow> closing (wr_pc s)) \<and> wr_threads s \<noteq> [] \<and> 0 < wr_depth s \<and>
     (Ended \<in> set (wr_threads s) \<longrightarrow> wr_ring_stopped s \<and> wr_ring s = []) \<and>
     (wr_pc s = Closed_file \<longrightarrow> set (wr_threads s) \<subseteq> {Ended}) \<and>
     (in_use (wr_pc s) \<longrightarrow>
        length (wr_ring s) + length (wr_free_ring s) + length (busy (wr_threads s)) + (if wr_cur_buffer s = None then 0 else 1) +
        length (filter is_failed (wr_threads s)) = wr_depth s)"

definition writer_inv :: "nat \<Rightarrow> byte list \<Rightarrow> writer \<Rightarrow> bool" where
  "writer_inv bs G s \<longleftrightarrow>
     (\<exists>F. length F = wr_total_bytes s \<and> G = F @ current_data s @ rest_of (wr_pc s) \<and>
        pending_ok bs F (still_open (wr_pc s)) (in_transit s) \<and>
        (list_ex is_failed (wr_threads s) \<or> file_ok bs F (in_transit s) (wr_file s))) \<and>
     current_ok bs s \<and> rings_ok bs s"

lemma thread_split:
  assumes "t < length ts"
  obtains us vs where "ts = us @ ts ! t # vs" "\<forall>x. ts[t := x] = us @ x # vs"
proof -
  have "ts = take t ts @ ts ! t # drop (Suc t) ts" using assms by (rule id_take_nth_drop)
  moreover have "\<forall>x. ts[t := x] = take t ts @ x # drop (Suc t) ts" using assms by (simp add: upd_conv_take_nth_drop)
  ultimately show ?thesis by (rule that)
qed

lemma busy_simps [simp]: "busy [] = []" "busy (x # ts) = in_thread x @ busy ts" "busy (us @ ts) = busy us @ busy ts"
  by (simp_all add: busy_def)

lemma pending_ok_simps [simp]:
  "pending_ok bs F op []" "pending_ok bs F op (ps @ qs) \<longleftrightarrow> pending_ok bs F op ps \<and> pending_ok bs F op qs"
  "pending_ok bs F op ((b, k) # ps) \<longleftrightarrow> length (db_data b) = bs \<and> k \<le> bs \<and> (op \<longrightarrow> db_offset b + bs \<le> length F) \<and>
     (\<forall>j < bs. db_offset b + j < length F \<longrightarrow> db_data b ! j = F ! (db_offset b + j)) \<and> pending_ok bs F op ps"
  by (auto simp: pending_ok_def)

lemma new_writer_inv:
  assumes "0 < bs" "\<And>i. length (memory i) = bs"
  shows "writer_inv bs [] (make_writer bs disk_buffer memory n_affinity)"
proof -
  let ?d = "compute_depth bs disk_buffer"
  let ?f = "\<lambda>i. \<lparr>db_offset = 0, db_data = memory i, db_length = 0\<rparr> :: dump_buffer"
  have d: "0 < ?d" by (simp add: compute_depth_def Let_def)
  then have split: "map ?f [0..<?d] = ?f 0 # map ?f [1..<?d]" by (simp add: upt_conv_Cons)
  have threads: "busy (replicate k Waiting) = []" "filter is_failed (replicate k Waiting) = []" for k by (simp_all add: busy_def)
  show ?thesis
    unfolding writer_inv_def make_writer_def Let_def split
    using assms d by (auto simp: in_transit_def threads current_data_def file_ok_def current_ok_def rings_ok_def still_open_def)
qed

lemma still_openD: "still_open pc \<Longrightarrow> in_use pc \<and> \<not> closing pc"
  by (cases pc) (simp_all add: still_open_def)

text \<open>Extending what was flushed by a new pending buffer.\<close>

lemma pending_ok_extend: "pending_ok bs F True ps \<Longrightarrow> pending_ok bs (F @ X) op ps"
  by (fastforce simp: pending_ok_def nth_append)

lemma file_ok_extend:
  assumes "file_ok bs F ps f" "set ps \<subseteq> set qs" "(b, 0) \<in> set qs" "db_offset b = length F" "length X \<le> bs"
  shows "file_ok bs (F @ X) qs f"
  unfolding file_ok_def
proof (intro allI impI)
  fix p
  assume p: "p < length (F @ X)"
  show "f p = (F @ X) ! p \<or> (\<exists>(b, k) \<in> set qs. db_offset b + k \<le> p \<and> p < db_offset b + bs)"
  proof (cases "p < length F")
    case True
    with assms(1,2) show ?thesis by (fastforce simp: file_ok_def nth_append)
  next
    case False
    with p assms(3-5) show ?thesis by (intro disjI2 bexI [of _ "(b, 0)"]) auto
  qed
qed

lemma flush_push_inv:
  assumes F: "length F = wr_total_bytes s" "pending_ok bs F True (in_transit s)" "list_ex is_failed (wr_threads s) \<or> file_ok bs F (in_transit s) (wr_file s)"
    and s: "rings_ok bs s" "still_open (wr_pc s)" "wr_cur_buffer s = Some b0"
    and b: "length (db_data b) = bs" "db_length b \<le> bs" "db_offset b = wr_total_bytes s"
    and G: "G = F @ take (db_length b) (db_data b) @ (case rest of None \<Rightarrow> [] | Some r \<Rightarrow> r)" and rest: "rest \<noteq> None \<Longrightarrow> db_length b = bs"
  obtains s' where "flush_push rest b s = Some s'" "writer_inv bs G s'"
proof -
  have "length (wr_ring s) < wr_depth s" using s still_openD [OF s(2)] by (simp add: rings_ok_def)
  then obtain s' where s': "flush_push rest b s = Some s'" by (simp add: flush_push_def)
  let ?X = "take (db_length b) (db_data b)"
  have eq: "s' = s\<lparr>wr_total_bytes := wr_total_bytes s + db_length b, wr_ring := wr_ring s @ [b], wr_cur_buffer := None, wr_pc := In_flush rest\<rparr>"
    using s' by (simp add: flush_push_def split: if_splits)
  have len: "length ?X = db_length b" using b by simp
  have op: "still_open (In_flush rest) \<Longrightarrow> db_length b = bs" using rest by (simp add: still_open_def)
  have "db_data b ! j = (F @ ?X) ! (db_offset b + j)" if "j < bs" "db_offset b + j < length (F @ ?X)" for j
    using that b F(1) by (simp add: nth_append)
  then have "pending_ok bs (F @ ?X) (still_open (In_flush rest)) (in_transit s')"
    using pending_ok_extend [OF F(2), of ?X "still_open (In_flush rest)"] b F(1) len op by (simp add: eq in_transit_def)
  moreover have "list_ex is_failed (wr_threads s') \<or> file_ok bs (F @ ?X) (in_transit s') (wr_file s')"
  proof -
    have "file_ok bs (F @ ?X) (in_transit s') (wr_file s)" if "file_ok bs F (in_transit s) (wr_file s)"
      using that by (rule file_ok_extend [where b = b]) (use b F(1) in \<open>auto simp: eq in_transit_def\<close>)
    with F(3) show ?thesis by (auto simp: eq)
  qed
  moreover have "rest_of (In_flush rest) = (case rest of None \<Rightarrow> [] | Some r \<Rightarrow> r)" by (cases rest) simp_all
  then have "G = (F @ ?X) @ current_data s' @ rest_of (wr_pc s')" using G by (simp add: eq current_data_def)
  moreover have "rings_ok bs s'" using s still_openD [OF s(2)] by (auto simp: rings_ok_def eq)
  ultimately have "writer_inv bs G s'"
    using len F(1) unfolding writer_inv_def
    by (intro conjI exI [of _ "F @ ?X"]) (simp_all add: eq current_ok_def)
  with s' show ?thesis by (rule that)
qed

lemma write_turn_inv:
  assumes inv: "writer_inv bs G s" and pc: "wr_pc s = In_write data" and bs: "0 < bs"
  obtains s' where "write_turn bs data s = Some s'" "writer_inv bs G s'"
proof (cases "data = []")
  case True
  have "writer_inv bs G (s\<lparr>wr_pc := Outside\<rparr>)"
    using inv pc True
    by (auto simp: writer_inv_def current_ok_def rings_ok_def current_data_def in_transit_def still_open_def split: option.splits)
  with True show ?thesis by (intro that) (simp_all add: write_turn_def)
next
  case False
  from inv obtain F where F: "length F = wr_total_bytes s" "G = F @ current_data s @ data"
    "pending_ok bs F True (in_transit s)" "list_ex is_failed (wr_threads s) \<or> file_ok bs F (in_transit s) (wr_file s)"
    by (auto simp: writer_inv_def pc still_open_def)
  have r: "rings_ok bs s" "current_ok bs s" using inv by (simp_all add: writer_inv_def)
  from r(2) pc obtain b where b: "wr_cur_buffer s = Some b" "length (db_data b) = bs" "db_length b < bs" "db_offset b = wr_total_bytes s"
    by (auto simp: current_ok_def split: option.splits)
  define n where "n = min (length data) (bs - db_length b)"
  define b1 where "b1 = b\<lparr>db_data := take (db_length b) (db_data b) @ take n data @ drop (db_length b + n) (db_data b),
                        db_length := db_length b + n\<rparr>"
  have n: "n \<le> length data" "db_length b + n \<le> bs" using b(3) by (auto simp: n_def)
  have b1: "length (db_data b1) = bs" "db_length b1 = db_length b + n" "db_offset b1 = wr_total_bytes s"
    "take (db_length b1) (db_data b1) = take (db_length b) (db_data b) @ take n data"
    using b n by (simp_all add: b1_def)
  have G: "G = F @ take (db_length b1) (db_data b1) @ drop n data" using F(2) by (simp add: b1(4) current_data_def b(1))
  have turn: "write_turn bs data s = (if db_length b1 = bs then flush_push (Some (drop n data)) b1 s
      else Some (s\<lparr>wr_cur_buffer := Some b1, wr_pc := In_write (drop n data)\<rparr>))"
    using False b(1) by (simp add: write_turn_def Let_def n_def b1_def)
  show ?thesis
  proof (cases "db_length b1 = bs")
    case True
    have "db_length b1 \<le> bs" using n(2) b1(2) by simp
    moreover have "G = F @ take (db_length b1) (db_data b1) @ (case Some (drop n data) of None \<Rightarrow> [] | Some r \<Rightarrow> r)" using G by simp
    moreover have "still_open (wr_pc s)" by (simp add: pc still_open_def)
    ultimately obtain s' where "flush_push (Some (drop n data)) b1 s = Some s'" "writer_inv bs G s'"
      using flush_push_inv [OF F(1,3,4) r(1) _ b(1) b1(1) _ b1(3)] True by metis
    with turn True show ?thesis by (intro that) simp_all
  next
    case part: False
    let ?s = "s\<lparr>wr_cur_buffer := Some b1, wr_pc := In_write (drop n data)\<rparr>"
    have "current_ok bs ?s" using b1 n(2) part by (simp add: current_ok_def still_open_def)
    moreover have "rings_ok bs ?s" using r(1) pc b(1) by (auto simp: rings_ok_def)
    moreover have "G = F @ current_data ?s @ rest_of (wr_pc ?s)" using G by (simp add: current_data_def)
    ultimately have "writer_inv bs G ?s" unfolding writer_inv_def
      using F(1,3,4) by (intro conjI exI [of _ F]) (simp_all add: in_transit_def still_open_def)
    with turn part show ?thesis by (intro that) simp_all
  qed
qed

text \<open>The end of \<^verbatim>\<open>flush\<close>, and the two halves of \<^verbatim>\<open>close\<close>.\<close>

lemma flush_pop_inv:
  assumes inv: "writer_inv bs G s" and pc: "wr_pc s = In_flush rest" and step: "flush_pop rest s = Some s'" and bs: "0 < bs"
  shows "writer_inv bs G s'"
proof -
  obtain b fs where free: "wr_free_ring s = b # fs" using step by (cases "wr_free_ring s") (simp_all add: flush_pop_def)
  have eq: "s' = s\<lparr>wr_free_ring := fs, wr_cur_buffer := Some (b\<lparr>db_offset := wr_total_bytes s\<rparr>),
      wr_pc := (case rest of Some r \<Rightarrow> In_write r | None \<Rightarrow> Joining), wr_ring_stopped := (wr_ring_stopped s \<or> rest = None)\<rparr>"
    using step by (simp add: flush_pop_def free)
  have c: "wr_cur_buffer s = None" using inv pc by (auto simp: writer_inv_def current_ok_def split: option.splits)
  have r: "rings_ok bs s" using inv by (simp add: writer_inv_def)
  then have b: "length (db_data b) = bs" "db_length b = 0" by (simp_all add: rings_ok_def free)
  have "rings_ok bs s'" using r pc c by (cases rest) (auto simp: rings_ok_def eq free)
  moreover have "current_ok bs s'" using b bs by (cases rest) (simp_all add: current_ok_def eq)
  moreover have "still_open (wr_pc s') = still_open (wr_pc s)" "rest_of (wr_pc s') = rest_of (wr_pc s)"
    "current_data s' = current_data s" "in_transit s' = in_transit s"
    using b by (cases rest; simp add: eq pc still_open_def current_data_def c in_transit_def)+
  ultimately show ?thesis using inv by (simp add: writer_inv_def eq)
qed

lemma close_begin_inv:
  assumes inv: "writer_inv bs G s" and pc: "wr_pc s = Outside"
  obtains s' where "close_begin s = Some s'" "writer_inv bs G s'"
proof -
  from inv obtain F where F: "length F = wr_total_bytes s" "G = F @ current_data s"
    "pending_ok bs F True (in_transit s)" "list_ex is_failed (wr_threads s) \<or> file_ok bs F (in_transit s) (wr_file s)"
    by (auto simp: writer_inv_def pc still_open_def)
  have r: "rings_ok bs s" "current_ok bs s" using inv by (simp_all add: writer_inv_def)
  from r(2) pc obtain b where b: "wr_cur_buffer s = Some b" "length (db_data b) = bs" "db_length b < bs" "db_offset b = wr_total_bytes s"
    by (auto simp: current_ok_def split: option.splits)
  show ?thesis
  proof (cases "db_length b > 0")
    case True
    have "G = F @ take (db_length b) (db_data b) @ (case None of None \<Rightarrow> [] | Some r \<Rightarrow> r)" using F(2) by (simp add: current_data_def b(1))
    moreover have "still_open (wr_pc s)" by (simp add: pc still_open_def)
    ultimately obtain s' where "flush_push None b s = Some s'" "writer_inv bs G s'"
      using flush_push_inv [OF F(1,3,4) r(1) _ b(1,2) _ b(4)] b(3) by (metis less_imp_le)
    with True show ?thesis by (intro that) (simp_all add: close_begin_def b(1))
  next
    case False
    let ?s = "s\<lparr>wr_ring_stopped := True, wr_pc := Joining\<rparr>"
    have "rings_ok bs ?s" using r(1) pc by (auto simp: rings_ok_def)
    moreover have "current_ok bs ?s" using b False by (simp add: current_ok_def)
    moreover have "pending_ok bs F False (in_transit s)" using pending_ok_extend [OF F(3), of "[]"] by simp
    ultimately have "writer_inv bs G ?s" unfolding writer_inv_def
      using F(1,2,4) by (intro conjI exI [of _ F]) (simp_all add: in_transit_def still_open_def current_data_def)
    with False show ?thesis by (intro that) (simp_all add: close_begin_def b(1))
  qed
qed

lemma join_threads_done: "join_threads ts = Some None \<Longrightarrow> set ts \<subseteq> {Ended}"
  by (induction ts rule: join_threads.induct) simp_all

lemma close_end_inv:
  assumes inv: "writer_inv bs G s" and pc: "wr_pc s = Joining" and step: "close_end ft cl s = Some s'"
  shows "writer_inv bs G s'"
proof -
  obtain fs pc' where eq: "s' = s\<lparr>wr_free_ring := fs, wr_pc := pc'\<rparr>" and fs: "fs = [] \<or> fs = wr_free_ring s"
    and pc': "pc' = Closed_file \<and> set (wr_threads s) \<subseteq> {Ended} \<or> (\<exists>e. pc' = Close_failed e)"
    using step by (auto simp: close_end_def split: option.splits dest!: join_threads_done intro: that [where fs = "wr_free_ring s"] that [where fs = "[]"])
  have r: "rings_ok bs s" "current_ok bs s" using inv by (simp_all add: writer_inv_def)
  have "rings_ok bs s'" using r(1) pc pc' fs by (auto simp: rings_ok_def eq)
  moreover have "current_ok bs s'" using r(2) pc pc' by (auto simp: current_ok_def eq still_open_def split: option.splits)
  moreover have "still_open pc' = still_open (wr_pc s)" "rest_of pc' = rest_of (wr_pc s)"
    using pc pc' by (auto simp: still_open_def)
  ultimately show ?thesis using inv by (simp add: writer_inv_def eq in_transit_def current_data_def)
qed

text \<open>
  The steps of a thread.  A \<^verbatim>\<open>pwrite\<close> writes no more than it is asked to.
\<close>

definition pwrite_ok :: "nat \<Rightarrow> writer_event \<Rightarrow> writer \<Rightarrow> bool" where
  "pwrite_ok bs e s \<longleftrightarrow>
     (case e of Thread_turn t (Inr ret) \<Rightarrow> (case wr_threads s ! t of Writing_buffer b k \<Rightarrow> k < bs \<longrightarrow> ret \<le> bs - k | _ \<Rightarrow> True) | _ \<Rightarrow> True)"

lemma file_ok_pwrite:
  assumes f: "file_ok bs F (ps @ (b, k) # qs) f" and p: "pending_ok bs F op (ps @ (b, k) # qs)" and ret: "ret \<le> bs - k"
  shows "file_ok bs F (ps @ (b, k + ret) # qs) (write_file (db_offset b + k) (take ret (drop k (db_data b))) f)"
  unfolding file_ok_def
proof (intro allI impI)
  fix p
  assume pF: "p < length F"
  have len: "length (take ret (drop k (db_data b))) = ret" using p ret by simp
  let ?W = "write_file (db_offset b + k) (take ret (drop k (db_data b))) f"
  show "?W p = F ! p \<or> (\<exists>(b', k') \<in> set (ps @ (b, k + ret) # qs). db_offset b' + k' \<le> p \<and> p < db_offset b' + bs)"
  proof (cases "db_offset b + k \<le> p \<and> p < db_offset b + k + ret")
    case True
    then obtain j where j: "p = db_offset b + k + j" "j < ret" by (metis add_less_cancel_left le_Suc_ex)
    then have "?W p = db_data b ! (k + j)" using p ret by (simp add: write_file_def)
    also have "\<dots> = F ! p" using p pF j ret by (simp add: add.assoc)
    finally show ?thesis by simp
  next
    case False
    then have "?W p = f p" using len by (auto simp: write_file_def)
    with f pF False show ?thesis by (fastforce simp: file_ok_def)
  qed
qed

text \<open>The outcomes of a turn of a thread.\<close>

lemma thread_turn_cases:
  assumes step: "writer_thread_turn bs t result s = Some s'" and t: "t < length (wr_threads s)"
  obtains
    (pop) us vs b rs where "wr_threads s = us @ Waiting # vs" "wr_ring s = b # rs"
      "s' = s\<lparr>wr_ring := rs, wr_threads := us @ Writing_buffer b 0 # vs\<rparr>"
  | (stop) us vs where "wr_threads s = us @ Waiting # vs" "wr_ring s = []" "wr_ring_stopped s" "s' = s\<lparr>wr_threads := us @ Ended # vs\<rparr>"
  | (interrupted) us vs b k where "wr_threads s = us @ Writing_buffer b k # vs" "k < bs" "result = Inl EINTR" "s' = s"
  | (fail) us vs b k e where "wr_threads s = us @ Writing_buffer b k # vs" "k < bs" "result = Inl e"
      "s' = s\<lparr>wr_threads := us @ Failed_with (throw_errno e) # vs\<rparr>"
  | (part) us vs b k n where "wr_threads s = us @ Writing_buffer b k # vs" "wr_threads s ! t = Writing_buffer b k" "k < bs" "result = Inr n"
      "s' = s\<lparr>wr_threads := us @ Writing_buffer b (k + n) # vs,
              wr_file := write_file (db_offset b + k) (take n (drop k (db_data b))) (wr_file s)\<rparr>"
  | (free) us vs b k where "wr_threads s = us @ Writing_buffer b k # vs" "bs \<le> k" "length (wr_free_ring s) < wr_depth s"
      "s' = s\<lparr>wr_free_ring := wr_free_ring s @ [b\<lparr>db_length := 0\<rparr>], wr_threads := us @ Waiting # vs\<rparr>"
proof -
  obtain us vs where ts: "wr_threads s = us @ wr_threads s ! t # vs" "\<forall>x. (wr_threads s)[t := x] = us @ x # vs"
    using t by (rule thread_split)
  show ?thesis
  proof (cases "wr_threads s ! t")
    case Waiting
    show ?thesis
    proof (cases "wr_ring s")
      case Nil
      show ?thesis by (rule stop [of us vs]) (use step ts Waiting Nil in \<open>simp_all add: writer_thread_turn_def thread_pop_def split: if_splits\<close>)
    next
      case (Cons b rs)
      show ?thesis by (rule pop [of us vs b rs]) (use step ts Waiting Cons in \<open>simp_all add: writer_thread_turn_def thread_pop_def\<close>)
    qed
  next
    case (Writing_buffer b k)
    have b: "wr_threads s = us @ Writing_buffer b k # vs" using ts(1) Writing_buffer by simp
    show ?thesis
    proof (cases "k < bs")
      case k: True
      then have s': "s' = thread_pwrite t result b k s" using step by (simp add: writer_thread_turn_def Writing_buffer)
      show ?thesis
      proof (cases result)
        case (Inl e)
        show ?thesis
        proof (cases "e = EINTR")
          case True
          show ?thesis by (rule interrupted [OF b k]) (simp_all add: Inl True s' thread_pwrite_def)
        next
          case False
          show ?thesis by (rule fail [OF b k Inl]) (simp add: Inl False s' thread_pwrite_def ts(2))
        qed
      next
        case (Inr n)
        show ?thesis by (rule part [OF b Writing_buffer k Inr]) (simp add: Inr s' thread_pwrite_def ts(2))
      qed
    next
      case False
      then have s': "thread_free t b s = Some s'" using step by (simp add: writer_thread_turn_def Writing_buffer)
      show ?thesis by (rule free [OF b]) (use False s' in \<open>simp_all add: thread_free_def ts(2) split: if_splits\<close>)
    qed
  qed (use step in \<open>simp_all add: writer_thread_turn_def\<close>)
qed

lemma thread_turn_frame:
  assumes "writer_thread_turn bs t result s = Some s'"
  shows "wr_pc s' = wr_pc s" "wr_total_bytes s' = wr_total_bytes s" "wr_cur_buffer s' = wr_cur_buffer s"
  using assms
  by (auto simp: writer_thread_turn_def thread_pop_def thread_pwrite_def thread_free_def split: writer_thread.splits list.splits if_splits sum.splits)

lemma thread_turn_rings:
  assumes r: "rings_ok bs s" and t: "t < length (wr_threads s)" and p: "pending_ok bs F op (in_transit s)"
    and step: "writer_thread_turn bs t result s = Some s'"
  shows "rings_ok bs s'"
  using step t
proof (cases rule: thread_turn_cases)
  case (free us vs b k)
  then have "length (db_data b) = bs" using p by (simp add: in_transit_def)
  with r free show ?thesis by (auto simp: rings_ok_def)
qed (use r in \<open>auto simp: rings_ok_def\<close>)

lemma thread_turn_pending:
  assumes p: "pending_ok bs F op (in_transit s)" and t: "t < length (wr_threads s)" and ok: "pwrite_ok bs (Thread_turn t result) s"
    and f: "list_ex is_failed (wr_threads s) \<or> file_ok bs F (in_transit s) (wr_file s)"
    and step: "writer_thread_turn bs t result s = Some s'"
  shows "pending_ok bs F op (in_transit s') \<and> (list_ex is_failed (wr_threads s') \<or> file_ok bs F (in_transit s') (wr_file s'))"
  using step t
proof (cases rule: thread_turn_cases)
  case (pop us vs b rs)
  then have "set (in_transit s') = set (in_transit s)" by (auto simp: in_transit_def)
  then have "pending_ok bs F op (in_transit s') = pending_ok bs F op (in_transit s)"
    "file_ok bs F (in_transit s') f' = file_ok bs F (in_transit s) f'" for f' by (simp_all add: pending_ok_def file_ok_def)
  with p f pop show ?thesis by simp
next
  case (part us vs b k n)
  have n: "n \<le> bs - k" using ok by (simp add: pwrite_ok_def part(2-4))
  let ?ps = "map (\<lambda>b. (b, 0)) (wr_ring s) @ busy us"
  have eq: "in_transit s = ?ps @ (b, k) # busy vs" "in_transit s' = ?ps @ (b, k + n) # busy vs" by (simp_all add: in_transit_def part(1,5))
  have "file_ok bs F (in_transit s') (wr_file s')" if "file_ok bs F (in_transit s) (wr_file s)"
    using file_ok_pwrite [OF that [unfolded eq(1)] p [unfolded eq(1)] n] by (simp only: eq(2)) (simp add: part(5))
  moreover have "pending_ok bs F op (in_transit s')" using p n part(3) by (simp add: eq)
  ultimately show ?thesis using f part by auto
next
  case (free us vs b k)
  let ?ps = "map (\<lambda>b. (b, 0)) (wr_ring s) @ busy us"
  have eq: "in_transit s = ?ps @ (b, k) # busy vs" "in_transit s' = ?ps @ busy vs" by (simp_all add: in_transit_def free)
  have "file_ok bs F (in_transit s') f'" if "file_ok bs F (in_transit s) f'" for f'
    using that free(2) unfolding file_ok_def eq by fastforce
  with p f show ?thesis by (auto simp: free(4) eq(1) eq(2) [unfolded free(4)] free(1))
qed (use p f in \<open>auto simp: in_transit_def\<close>)

lemma thread_turn_inv:
  assumes inv: "writer_inv bs G s" and t: "t < length (wr_threads s)" and ok: "pwrite_ok bs (Thread_turn t result) s"
    and step: "writer_thread_turn bs t result s = Some s'"
  shows "writer_inv bs G s'"
proof -
  note frame = thread_turn_frame [OF step]
  from inv obtain F where F: "length F = wr_total_bytes s" "G = F @ current_data s @ rest_of (wr_pc s)"
    "pending_ok bs F (still_open (wr_pc s)) (in_transit s)" "list_ex is_failed (wr_threads s) \<or> file_ok bs F (in_transit s) (wr_file s)"
    by (auto simp: writer_inv_def)
  have "rings_ok bs s'" using thread_turn_rings [OF _ t F(3) step] inv by (simp add: writer_inv_def)
  moreover have "current_ok bs s'" using inv unfolding writer_inv_def current_ok_def frame by blast
  moreover have "current_data s' = current_data s" by (simp add: current_data_def frame)
  ultimately show ?thesis unfolding writer_inv_def
    using F(1,2) thread_turn_pending [OF F(3) t ok F(4) step] by (intro conjI exI [of _ F]) (simp_all add: frame)
qed

text \<open>A step keeps the invariant, for the data given to \<^verbatim>\<open>write\<close> so far; and so does a run.\<close>

lemma writer_step_inv:
  assumes inv: "writer_inv bs G s" and bs: "0 < bs" and ok: "pwrite_ok bs e s" and step: "writer_step bs e s = Some s'"
  shows "writer_inv bs (G @ data_written [e]) s'"
proof (cases e)
  case (Call_write data)
  with step have s': "wr_pc s = Outside" "s' = s\<lparr>wr_pc := In_write data\<rparr>" by (simp_all split: if_splits)
  have "current_ok bs s'" "rings_ok bs s'"
    using inv s'(1) by (auto simp: writer_inv_def s'(2) current_ok_def rings_ok_def still_open_def split: option.splits)
  then show ?thesis
    using inv s'(1) by (auto simp: writer_inv_def s'(2) still_open_def in_transit_def current_data_def Call_write)
next
  case Write_turn
  with step obtain data where pc: "wr_pc s = In_write data" and t: "write_turn bs data s = Some s'" by (auto split: writer_pc.splits)
  from write_turn_inv [OF inv pc bs] t have "writer_inv bs G s'" by auto
  with Write_turn show ?thesis by simp
next
  case Flush_pop
  with step obtain rest where "wr_pc s = In_flush rest" "flush_pop rest s = Some s'" by (auto split: writer_pc.splits)
  with flush_pop_inv [OF inv _ _ bs] Flush_pop show ?thesis by simp
next
  case Call_close
  then show ?thesis using step inv close_begin_inv [OF inv] by (auto split: if_splits)
next
  case (Close_end ft cl)
  with step close_end_inv [OF inv] show ?thesis by (auto split: if_splits)
next
  case (Thread_turn t result)
  with step ok thread_turn_inv [OF inv] show ?thesis by (auto split: if_splits)
qed

fun pwrites_ok :: "nat \<Rightarrow> writer_event list \<Rightarrow> writer \<Rightarrow> bool" where
  "pwrites_ok bs [] s \<longleftrightarrow> True"
| "pwrites_ok bs (e # es) s \<longleftrightarrow> pwrite_ok bs e s \<and> (case writer_step bs e s of None \<Rightarrow> True | Some s1 \<Rightarrow> pwrites_ok bs es s1)"

lemma data_written_Cons: "data_written (e # es) = data_written [e] @ data_written es"
  by (cases e) simp_all

lemma writer_run_inv:
  "writer_inv bs G s \<Longrightarrow> 0 < bs \<Longrightarrow> pwrites_ok bs es s \<Longrightarrow> writer_run bs es s = Some s' \<Longrightarrow> writer_inv bs (G @ data_written es) s'"
proof (induction es arbitrary: G s)
  case (Cons e es)
  from Cons.prems(4) obtain s1 where s1: "writer_step bs e s = Some s1" "writer_run bs es s1 = Some s'" by (auto split: option.splits)
  have "writer_inv bs (G @ data_written [e]) s1" using writer_step_inv [OF Cons.prems(1,2) _ s1(1)] Cons.prems(3) by simp
  then have "writer_inv bs ((G @ data_written [e]) @ data_written es) s'"
    using Cons.prems(2,3) s1 by (intro Cons.IH) simp_all
  then show ?case by (subst data_written_Cons) simp
qed simp

lemma writer_inv_closed:
  assumes inv: "writer_inv bs G s" and pc: "wr_pc s = Closed_file"
  shows "file_contents s = G"
proof -
  from inv obtain F where F: "length F = wr_total_bytes s" "G = F @ current_data s"
    "list_ex is_failed (wr_threads s) \<or> file_ok bs F (in_transit s) (wr_file s)"
    by (auto simp: writer_inv_def pc)
  have r: "wr_threads s \<noteq> []" "set (wr_threads s) \<subseteq> {Ended}" "Ended \<in> set (wr_threads s) \<longrightarrow> wr_ring s = []"
    using inv pc by (simp_all add: writer_inv_def rings_ok_def)
  have threads: "x = Ended" if "x \<in> set (wr_threads s)" for x using r(2) that by auto
  have "wr_ring s = []" using r threads by (metis list.set_sel(1))
  moreover have "busy (wr_threads s) = []" using threads by (force simp: busy_def)
  ultimately have p: "in_transit s = []" by (simp add: in_transit_def)
  have "\<not> list_ex is_failed (wr_threads s)" using threads by (fastforce simp: list_ex_iff)
  then have "\<forall>p < length F. wr_file s p = F ! p" using F(3) by (simp add: file_ok_def p)
  then have "file_contents s = F" using F(1) by (auto simp: file_contents_def intro: nth_equalityI)
  moreover have "current_data s = []"
    using inv pc by (auto simp: writer_inv_def current_ok_def current_data_def still_open_def split: option.splits)
  ultimately show ?thesis using F(2) by simp
qed

section \<open>Progress of the writer\<close>

text \<open>
  Work that is left: bytes to copy, buffers to write, and the position of each thread.  An internal event is one that no caller starts; a
  \<^verbatim>\<open>pwrite\<close> then writes at least one byte.
\<close>

fun pc_work :: "writer_pc \<Rightarrow> nat" where
  "pc_work (In_write data) = 1"
| "pc_work (In_flush (Some data)) = 2"
| "pc_work (In_flush None) = 3"
| "pc_work Joining = 1"
| "pc_work _ = 0"

fun thread_work :: "nat \<Rightarrow> writer_thread \<Rightarrow> nat" where
  "thread_work bs Waiting = 1"
| "thread_work bs (Writing_buffer b k) = bs - k + 2"
| "thread_work bs _ = 0"

definition writer_work :: "nat \<Rightarrow> writer \<Rightarrow> nat" where
  "writer_work bs s =
     (bs + 6) * length (rest_of (wr_pc s)) + pc_work (wr_pc s) + (bs + 3) * length (wr_ring s) + sum_list (map (thread_work bs) (wr_threads s))"

fun progress_event :: "writer_event \<Rightarrow> bool" where
  "progress_event Write_turn \<longleftrightarrow> True"
| "progress_event Flush_pop \<longleftrightarrow> True"
| "progress_event (Close_end ft cl) \<longleftrightarrow> ft = None \<and> cl = None"
| "progress_event (Thread_turn t (Inr n)) \<longleftrightarrow> 0 < n"
| "progress_event _ \<longleftrightarrow> False"

lemma flush_push_work:
  "flush_push rest b s = Some s' \<Longrightarrow> writer_work bs s' =
     (bs + 6) * length (rest_of (In_flush rest)) + pc_work (In_flush rest) + (bs + 3) * Suc (length (wr_ring s)) +
     sum_list (map (thread_work bs) (wr_threads s))"
  by (auto simp: flush_push_def writer_work_def split: if_splits)

lemma write_turn_work:
  assumes pc: "wr_pc s = In_write data" and c: "current_ok bs s" and step: "write_turn bs data s = Some s'"
  shows "writer_work bs s' < writer_work bs s"
proof (cases "data = []")
  case True
  with step pc show ?thesis by (auto simp: write_turn_def writer_work_def)
next
  case False
  from c pc obtain b where b: "wr_cur_buffer s = Some b" "db_length b < bs" by (auto simp: current_ok_def split: option.splits)
  define n where "n = min (length data) (bs - db_length b)"
  have n: "0 < n" "n \<le> length data" using False b(2) by (auto simp: n_def)
  obtain m where m: "length data = Suc m + (n - 1)" "length (drop n data) = m" using n that [of "length data - n"] by simp
  have "(bs + 6) * m + (bs + 6) \<le> (bs + 6) * length data" using m(1) by (simp add: algebra_simps)
  moreover have "writer_work bs s' \<le> (bs + 6) * m + 2 + (bs + 3) * Suc (length (wr_ring s)) + sum_list (map (thread_work bs) (wr_threads s))"
  proof (cases "db_length b + n = bs")
    case True
    with step False b(1) obtain b1 where "flush_push (Some (drop n data)) b1 s = Some s'" by (auto simp: write_turn_def Let_def n_def)
    from flush_push_work [OF this, of bs] m(2) show ?thesis by simp
  next
    case part: False
    then have "writer_work bs s' = (bs + 6) * m + 1 + (bs + 3) * length (wr_ring s) + sum_list (map (thread_work bs) (wr_threads s))"
      using step False b(1) m(2) by (auto simp: write_turn_def Let_def n_def writer_work_def)
    then show ?thesis by simp
  qed
  ultimately show ?thesis by (simp add: writer_work_def pc)
qed

lemma thread_turn_work:
  assumes step: "writer_thread_turn bs t (Inr n) s = Some s'" and t: "t < length (wr_threads s)" and n: "0 < n"
  shows "writer_work bs s' < writer_work bs s"
  using step t by (cases rule: thread_turn_cases) (use n in \<open>auto simp: writer_work_def\<close>)

lemma progress_work:
  assumes inv: "writer_inv bs G s" and e: "progress_event e" and step: "writer_step bs e s = Some s'"
  shows "writer_work bs s' < writer_work bs s"
proof (cases e)
  case Write_turn
  with step obtain data where "wr_pc s = In_write data" "write_turn bs data s = Some s'" by (auto split: writer_pc.splits)
  then show ?thesis using write_turn_work inv by (auto simp: writer_inv_def)
next
  case Flush_pop
  with step obtain rest where "wr_pc s = In_flush rest" "flush_pop rest s = Some s'" by (auto split: writer_pc.splits)
  then show ?thesis by (cases rest) (auto simp: flush_pop_def writer_work_def split: list.splits)
next
  case (Close_end ft cl)
  with step show ?thesis by (auto simp: close_end_def writer_work_def split: if_splits option.splits)
next
  case (Thread_turn t result)
  with e step show ?thesis using thread_turn_work by (cases result) (auto split: if_splits)
qed (use e in simp_all)

text \<open>
  Some event is possible while a call is in progress and no thread has failed: every buffer is the current one, free, to be written or with a thread.
\<close>

lemma busy_thread: "busy ts \<noteq> [] \<Longrightarrow> \<exists>t < length ts. \<exists>b k. ts ! t = Writing_buffer b k"
proof (induction ts)
  case (Cons x ts)
  show ?case
  proof (cases x)
    case (Writing_buffer b k)
    then show ?thesis by (intro exI [of _ 0]) simp
  qed (use Cons in auto)
qed simp

lemma busy_length: "t < length ts \<Longrightarrow> ts ! t = Writing_buffer b k \<Longrightarrow> 0 < length (busy ts)"
  by (metis busy_simps(2,3) id_take_nth_drop in_thread.simps(1) append_is_Nil_conv length_greater_0_conv not_Cons_self2 append_Cons)

lemma thread_turn_enabled:
  assumes r: "rings_ok bs s" "in_use (wr_pc s)" and t: "t < length (wr_threads s)" and nf: "\<not> list_ex is_failed (wr_threads s)"
    and w: "wr_threads s ! t \<noteq> Ended" "wr_threads s ! t = Waiting \<longrightarrow> wr_ring s \<noteq> [] \<or> wr_ring_stopped s"
  shows "\<exists>e. progress_event e \<and> pwrite_ok bs e s \<and> writer_step bs e s \<noteq> None"
proof (intro exI [of _ "Thread_turn t (Inr 1)"] conjI)
  show "pwrite_ok bs (Thread_turn t (Inr 1)) s" by (auto simp: pwrite_ok_def split: writer_thread.splits)
  have "\<not> is_failed (wr_threads s ! t)" using nf t by (auto simp: list_ex_iff)
  then show "writer_step bs (Thread_turn t (Inr 1)) s \<noteq> None"
  proof (cases "wr_threads s ! t")
    case (Writing_buffer b k)
    have "length (wr_free_ring s) + length (busy (wr_threads s)) \<le> wr_depth s" using r by (simp add: rings_ok_def)
    with busy_length [OF t Writing_buffer] have "length (wr_free_ring s) < wr_depth s" by linarith
    with t Writing_buffer show ?thesis by (simp add: writer_thread_turn_def thread_free_def)
  qed (use t w in \<open>auto simp: writer_thread_turn_def thread_pop_def split: list.splits\<close>)
qed simp

lemma join_threads_all_ended: "list_all (\<lambda>t. t = Ended) ts \<Longrightarrow> join_threads ts = Some None"
  by (induction ts) auto

lemma writer_not_stuck:
  assumes inv: "writer_inv bs G s" and bs: "0 < bs" and nf: "\<not> list_ex is_failed (wr_threads s)"
    and pc: "wr_pc s \<noteq> Outside" "in_use (wr_pc s)"
  shows "\<exists>e. progress_event e \<and> pwrite_ok bs e s \<and> writer_step bs e s \<noteq> None"
proof -
  have r: "rings_ok bs s" and c: "current_ok bs s" using inv by (simp_all add: writer_inv_def)
  show ?thesis
  proof (cases "wr_pc s")
    case (In_write data)
    then show ?thesis using write_turn_inv [OF inv In_write bs]
      by (intro exI [of _ Write_turn]) (auto simp: pwrite_ok_def)
  next
    case (In_flush rest)
    show ?thesis
    proof (cases "wr_free_ring s")
      case (Cons b fs)
      then show ?thesis by (intro exI [of _ Flush_pop]) (simp add: In_flush flush_pop_def pwrite_ok_def)
    next
      case Nil
      have cur: "wr_cur_buffer s = None" using c In_flush by (auto simp: current_ok_def split: option.splits)
      have ne: "Ended \<notin> set (wr_threads s)" using r In_flush by (auto simp: rings_ok_def)
      obtain t where t: "t < length (wr_threads s)" "wr_threads s ! t = Waiting \<longrightarrow> wr_ring s \<noteq> []"
      proof (cases "busy (wr_threads s) = []")
        case True
        from True r cur Nil nf In_flush have "wr_ring s \<noteq> []" by (auto simp: rings_ok_def list_ex_iff filter_empty_conv)
        with r show ?thesis using that [of 0] by (simp add: rings_ok_def)
      next
        case False
        with busy_thread obtain t b k where "t < length (wr_threads s)" "wr_threads s ! t = Writing_buffer b k" by blast
        then show ?thesis using that [of t] by simp
      qed
      have "wr_threads s ! t \<noteq> Ended" using ne t(1) by (metis nth_mem)
      with thread_turn_enabled [OF r pc(2) t(1) nf] t(2) show ?thesis by blast
    qed
  next
    case Joining
    show ?thesis
    proof (cases "list_all (\<lambda>t. t = Ended) (wr_threads s)")
      case True
      then show ?thesis
        by (intro exI [of _ "Close_end None None"]) (simp add: Joining close_end_def join_threads_all_ended pwrite_ok_def)
    next
      case False
      then obtain t where t: "t < length (wr_threads s)" "wr_threads s ! t \<noteq> Ended" by (auto simp: list_all_length)
      with thread_turn_enabled [OF r pc(2) t(1) nf] r Joining show ?thesis by (simp add: rings_ok_def)
    qed
  qed (use pc in simp_all)
qed

lemma progress_no_failure:
  assumes "progress_event e" "writer_step bs e s = Some s'" "\<not> list_ex is_failed (wr_threads s)"
  shows "\<not> list_ex is_failed (wr_threads s')"
proof (cases e)
  case (Thread_turn t result)
  then obtain n where n: "result = Inr n" using assms(1) by (cases result) auto
  have "writer_thread_turn bs t (Inr n) s = Some s'" "t < length (wr_threads s)" using assms(2) Thread_turn n by (auto split: if_splits)
  then show ?thesis by (cases rule: thread_turn_cases) (use assms(3) in auto)
qed (use assms in \<open>auto simp: write_turn_def flush_push_def flush_pop_def close_end_def Let_def
       split: writer_pc.splits option.splits list.splits if_splits\<close>)

lemma progress_run:
  "writer_inv bs G s \<Longrightarrow> 0 < bs \<Longrightarrow> \<not> list_ex is_failed (wr_threads s) \<Longrightarrow> list_all progress_event fs \<Longrightarrow> pwrites_ok bs fs s \<Longrightarrow>
   writer_run bs fs s = Some s' \<Longrightarrow> length fs + writer_work bs s' \<le> writer_work bs s \<and> \<not> list_ex is_failed (wr_threads s')"
proof (induction fs arbitrary: G s)
  case (Cons e fs)
  from Cons.prems(6) obtain s1 where s1: "writer_step bs e s = Some s1" "writer_run bs fs s1 = Some s'" by (auto split: option.splits)
  have e: "progress_event e" "pwrite_ok bs e s" "pwrites_ok bs fs s1" "list_all progress_event fs" using Cons.prems(4,5) s1 by simp_all
  have "length fs + writer_work bs s' \<le> writer_work bs s1 \<and> \<not> list_ex is_failed (wr_threads s')"
    using writer_step_inv [OF Cons.prems(1,2) e(2) s1(1)] Cons.prems(2) progress_no_failure [OF e(1) s1(1) Cons.prems(3)] e(4,3) s1(2)
    by (rule Cons.IH)
  moreover have "writer_work bs s1 < writer_work bs s" using Cons.prems(1) e(1) s1(1) by (rule progress_work)
  ultimately show ?case by simp
qed simp

section \<open>Properties of the writer\<close>



text \<open>
  C32: As long as no thread has failed, a call of the writer returns: from any state that a run can reach, at most \<open>writer_work\<close> turns of the
  loops of the caller and of the threads are possible before the call is over, when each \<^verbatim>\<open>pwrite\<close> writes something; and as long as the
  call is not over, a turn is possible.  So the ring of full buffers never blocks the caller for good, and \<^verbatim>\<open>close\<close> does not wait forever.
\<close>

theorem writer_progress:
  assumes "0 < bs" "\<And>i. length (memory i) = bs"
    and "pwrites_ok bs es (make_writer bs disk_buffer memory n_affinity)"
    and "writer_run bs es (make_writer bs disk_buffer memory n_affinity) = Some s" "\<not> list_ex is_failed (wr_threads s)"
    and "list_all progress_event fs" "pwrites_ok bs fs s" "writer_run bs fs s = Some s'"
  shows "length fs \<le> writer_work bs s \<and>
    (wr_pc s' = Outside \<or> \<not> in_use (wr_pc s') \<or> (\<exists>e. progress_event e \<and> pwrite_ok bs e s' \<and> writer_step bs e s' \<noteq> None))"
proof -
  have inv: "writer_inv bs ([] @ data_written es) s" using new_writer_inv [OF assms(1,2)] assms(1,3,4) by (rule writer_run_inv)
  have run: "length fs + writer_work bs s' \<le> writer_work bs s" "\<not> list_ex is_failed (wr_threads s')"
    using progress_run [OF inv assms(1,5-8)] by simp_all
  have "writer_inv bs (([] @ data_written es) @ data_written fs) s'" using inv assms(1,7,8) by (rule writer_run_inv)
  note stuck = writer_not_stuck [OF this assms(1) run(2)]
  have "length fs \<le> writer_work bs s" using run(1) by simp
  with stuck show ?thesis by blast
qed

theorem writer_progress_witness:
  "\<exists>s. writer_run 1 [Call_write [7, 8], Write_turn] (make_writer 1 1 (\<lambda>_. [0]) 0) = Some s \<and>
     (\<exists>e. progress_event e \<and> pwrite_ok 1 e s \<and> writer_step 1 e s \<noteq> None)"
proof -
  let ?s = "make_writer 1 1 (\<lambda>_. [0]) 0" and ?es = "[Call_write [7, 8], Write_turn]"
  let ?f = "\<lambda>s. (list_ex is_failed (wr_threads s), wr_pc s)"
  have "map_option ?f (writer_run 1 ?es ?s) = Some (False, In_flush (Some [8]))" by code_simp
  then obtain s where s: "writer_run 1 ?es ?s = Some s" "?f s = (False, In_flush (Some [8]))"
    by (cases "writer_run 1 ?es ?s") (simp_all only: option.map option.inject option.distinct)
  moreover have "pwrites_ok 1 ?es ?s" by code_simp
  ultimately have "wr_pc s = Outside \<or> \<not> in_use (wr_pc s) \<or> (\<exists>e. progress_event e \<and> pwrite_ok 1 e s \<and> writer_step 1 e s \<noteq> None)"
    using writer_progress [of 1 "\<lambda>_. [0]" ?es 1 0 s "[]" s] by simp
  with s show ?thesis by auto
qed

lemma all_failed_stuck:
  assumes "list_all is_failed (wr_threads s)" "wr_pc s = In_flush rest" "wr_free_ring s = []"
  shows "writer_step bs e s = None"
proof (cases e)
  case (Thread_turn t result)
  have "is_failed (wr_threads s ! t)" if "t < length (wr_threads s)" using assms(1) that by (simp add: list_all_length)
  then show ?thesis by (auto simp: Thread_turn writer_thread_turn_def split: writer_thread.splits)
qed (use assms in \<open>simp_all add: flush_pop_def\<close>)

text \<open>
  A failed \<^verbatim>\<open>pwrite\<close> can block the program for good.  The thread ends with the exception and its buffer is lost, so nobody gives a
  buffer back: the caller of \<^verbatim>\<open>write\<close> waits for a free buffer and no event is possible.  With one buffer, it happens when the disk is full at
  the first one.
\<close>

lemma writer_failure_hangs:
  "\<exists>s. writer_run 1 [Call_write [7, 8], Write_turn, Thread_turn 0 (Inr 0), Thread_turn 0 (Inl 28)] (make_writer 1 1 (\<lambda>_. [0]) 0) = Some s \<and>
     wr_threads s = [Failed_with (System_error 28)] \<and> (\<forall>e. writer_step 1 e s = None)"
proof -
  let ?r = "writer_run 1 [Call_write [7, 8], Write_turn, Thread_turn 0 (Inr 0), Thread_turn 0 (Inl 28)] (make_writer 1 1 (\<lambda>_. [0]) 0)"
  let ?f = "\<lambda>s. (wr_threads s, wr_pc s, wr_free_ring s)"
  have "map_option ?f ?r = Some ([Failed_with (System_error 28)], In_flush (Some [8]), [])" by code_simp
  then obtain s where s: "?r = Some s" "?f s = ([Failed_with (System_error 28)], In_flush (Some [8]), [])"
    by (cases ?r) (simp_all only: option.map option.inject option.distinct)
  then have "writer_step 1 e s = None" for e by (intro all_failed_stuck) simp_all
  with s show ?thesis by auto
qed

end
