(* ===== verification/Spec2Isabelle.thy ===== *)
theory Spec2Isabelle
  imports Descriptors StreamSafety HeapTransfer RingProtocol UnboundedQueue MemoryPool TcpReader RawPacket SendPacing
    StreamReaders Memcpy SendTransports IbvSender RawReaders Semaphores SocketSenders StreamTransfer Mcdump
begin

text \<open>
  A verification of the core of spead2, the C++ implementation of the SPEAD protocol for streaming radio-astronomy
  data.  File names below are relative to \<^verbatim>\<open>src/include/spead2\<close> for headers and \<^verbatim>\<open>src/src\<close> for the rest.

  \<^bold>\<open>The program.\<close>  A sender describes a heap, a set of items, and a stream of packets is generated from it, paced, and handed to
  a transport.  A receiver has a stream with readers, one per source; a reader turns what arrives into packets
  and adds them to the stream, which reassembles them into live heaps, several at a time.  A live heap that is complete, or
  has to make room, is handed to the subclass of the stream, usually into a ring buffer from which the user takes
  it and freezes it into a heap whose items can be read.

  \<^bold>\<open>Conventions.\<close>  An operation returns \<open>Inl\<close> of a \<open>fault\<close> where the C++ code would have undefined behaviour, fail an
  assertion or throw, and \<open>Inr\<close> of its result and the new state otherwise; a theorem that an operation returns \<open>Inr\<close> thus says
  that none of this happens.  Integers have the width of the code where the code depends on it, and signed quantities
  of at most 48 or 56 bits are \<open>int\<close>, with the bounds in the invariants.  Loops with a bound that is not structural
  take fuel, and the faults include \<open>Loop_overrun\<close>, so that the same theorems say that the fuel is enough.  Code outside the
  repository (allocation, sockets, clocks, copy functions, stream buffers, the verbs library, libpcap) is an argument of the definitions:
  a function, or the list of the results of its calls in their order.  An operation whose loop has not ended with the results given
  is \<open>None\<close>, and that it does end is part of the theorems.

  \<^bold>\<open>Receiving.\<close>
  \<^item> Prelude: faults, results, big-endian integers, accesses to memory, collections of simplification rules.
  \<^item> Flavour (\<^verbatim>\<open>common_flavour\<close>), Pointers (\<^verbatim>\<open>recv_utils.h\<close>, \<^verbatim>\<open>send_utils.h\<close>): protocol variants, and the codec of item
    pointers; encoding and decoding are inverse.
  \<^item> RecvPacket (\<^verbatim>\<open>recv_packet\<close>): \<^verbatim>\<open>decode_packet\<close> and \<^verbatim>\<open>get_packet_size\<close>; the exact condition for acceptance, and that an
    accepted packet lies inside the buffer.
  \<^item> Allocator (\<^verbatim>\<open>common_memory_allocator\<close>), MemoryPool (\<^verbatim>\<open>common_memory_pool\<close>): blocks and their owners; no double free, no
    leak, bounded free list, in every history of allocations, releases and refills by another thread.
  \<^item> PayloadRanges and LiveHeap (\<^verbatim>\<open>recv_live_heap\<close>): the map of received ranges is the set of its bytes, and \<^verbatim>\<open>add_packet\<close> is safe for
    every accepted packet, adds exactly its data or nothing, and knows when the heap is complete.
  \<^item> RecvHeap (\<^verbatim>\<open>recv_heap\<close>), Descriptors: freezing a live heap into a heap or an incomplete heap, the items found in it,
    moves that keep the contents of inline items, control items, descriptors and \<^verbatim>\<open>get_descriptors\<close>.
  \<^item> RecvStream (\<^verbatim>\<open>recv_stream\<close>): \<^verbatim>\<open>stream_base\<close> with its queue of slots and its hash table of chained links.
    StreamRefinement relates it to a specification without hash table, an ordered list of live heaps, by a simulation of
    every operation.  StreamSafety states what the stream needs of its subclass as the locale \<open>stream_sink\<close> and what
    operations may change as the locale \<open>stream_frame\<close>; it proves that no sequence of operations faults, and that the
    statistics are exact.
  \<^item> Memcpy (\<^verbatim>\<open>common_memcpy\<close>): the copy with streaming stores is \<^verbatim>\<open>memcpy\<close> and its stores are aligned.
  \<^item> Ringbuffer and RingProtocol (\<^verbatim>\<open>common_ringbuffer.h\<close>): the sequential operations against the locale \<open>fifo\<close>, and all
    interleavings of producers, consumers and a stopper over the two mutexes and two semaphores.  UnboundedQueue
    (\<^verbatim>\<open>common_unbounded_queue.h\<close>) has the same two views.
  \<^item> RingStream (\<^verbatim>\<open>recv_ring_stream.h\<close>): the ring buffer as a \<open>stream_sink\<close>, and its consumer; heaps come out in order and are lost only
    when incomplete or after a stop.
  \<^item> TcpReader (\<^verbatim>\<open>recv_tcp\<close>): cutting a byte stream into packets, independent of how it arrives.  RawPacket (\<^verbatim>\<open>common_raw_packet\<close>,
    frames of \<^verbatim>\<open>send_udp_ibv.cpp\<close>): Ethernet, IPv4 and UDP headers with checksum, and their parsing.
  \<^item> Readers (\<^verbatim>\<open>recv_udp_base.cpp\<close>, \<^verbatim>\<open>recv_udp.cpp\<close>, \<^verbatim>\<open>recv_tcp.cpp\<close>, \<^verbatim>\<open>recv_inproc.cpp\<close>, \<^verbatim>\<open>recv_mem.cpp\<close>): the completion handlers on a
    stream with any subclass, proved over the locales \<open>packet_consumer\<close> and \<open>stream_reader\<close>.
  \<^item> StreamReaders (class \<^verbatim>\<open>stream\<close>, \<^verbatim>\<open>recv_reader.cpp\<close>): readers being added, completing, being stopped and destroyed, in all
    interleavings with \<^verbatim>\<open>stop\<close>; no reader outlives it and it returns, unless a reader was added too late.
  \<^item> Verbs (\<^verbatim>\<open>common_ibv.cpp\<close>, \<^verbatim>\<open>common_logging.cpp\<close>): results of the verbs library as exceptions, devices, flow rules.  RawReaders
    (\<^verbatim>\<open>recv_udp_ibv\<close>, \<^verbatim>\<open>recv_udp_ibv_mprq\<close>, \<^verbatim>\<open>recv_udp_pcap\<close>): the readers of raw frames; frames do to the stream what the datagrams in
    them do, nothing a card or a file delivers causes a fault, no wakeup is lost, and a file comes to its end.
  \<^item> Semaphores (\<^verbatim>\<open>common_semaphore\<close>): the spinning semaphore in all interleavings of its atomic operations, and the three
    semaphores of the operating system against the locale \<open>counting_semaphore\<close>.

  \<^bold>\<open>Sending.\<close>
  \<^item> SendHeap (\<^verbatim>\<open>send_heap\<close>), SendPacket (\<^verbatim>\<open>send_packet\<close>): items, descriptors, the packet generator.  Framing says what bytes a packet
    decodes from, Layout what a heap looks like on the wire.
  \<^item> HeapPackets: the generator ends and its packets cut the payload into consecutive pieces; when its constructor throws.
  \<^item> HeapTransfer: the packets of a heap, parsed and added to a live heap in any order, give the heap that was sent.  StreamTransfer: the
    packets of several heaps, mixed, as datagrams in batches, through the UDP handler and the whole receiving stream, give the heaps that were
    sent; this composes the generator, the parser, the reader, the stream with its hash table, the live heap and the frozen heap.
  \<^item> SendStream (\<^verbatim>\<open>send_stream\<close>): configuration, queue of heaps, packets in flight, pacing, and the state machine of
    \<^verbatim>\<open>do_next\<close>.  SendSystem puts it between users, timer, transport and callbacks; SendProgress proves the invariant of all
    interleavings; SendDelivery concludes that handlers are called once, in order and with the right result, and that
    the stream drains; SendPacing bounds the rate.
  \<^item> SendTransports (\<^verbatim>\<open>send_inproc.cpp\<close>, \<^verbatim>\<open>send_streambuf.cpp\<close>): two transports.  SocketSenders (\<^verbatim>\<open>send_udp\<close>, \<^verbatim>\<open>send_tcp\<close>, and how
    \<^verbatim>\<open>recv_udp.cpp\<close> makes its sockets): every packet gets one result, and what is sent is what succeeded.
  \<^item> IbvSender (\<^verbatim>\<open>send_udp_ibv\<close>): slots, work requests and completions, with a card that sends what was posted at any later time; no slot
    is reused too early, the frames on the wire carry the packets in order, the sender makes progress, and what a failed post does.

  \<^bold>\<open>Capturing.\<close>
  \<^item> Mcdump (\<^verbatim>\<open>mcdump.cpp\<close>): the file writer of the capture program, whose threads pass buffers through two ring buffers.  The file is what was
    written, in every interleaving; calls return when nothing fails; and a failed \<^verbatim>\<open>pwrite\<close> can block the program.

  \<^bold>\<open>Interfaces.\<close>  The locales are \<open>fifo\<close> (queues), \<open>stream_sink\<close> and \<open>stream_frame\<close> (the subclass of a stream), \<open>packet_consumer\<close> (what a
    reader does with packets), \<open>stream_reader\<close> and \<open>stream_client\<close> (a stream with readers), \<open>counting_semaphore\<close>, and those of the memory pool
    and of the codec in their theories; each is interpreted on the definitions that model the code.

  \<^bold>\<open>Bounds and fuel.\<close>  The walk along a hash chain has one step more than there are slots; feeding a block of memory one step per
    byte, since every packet has at least one; the loop of the TCP reader one step per byte in its buffer; the
    packet generator one step per byte of payload; popping from the ring buffer one step more than there are
    heaps.  A stream has fewer than \<open>2 ^ 60\<close> slots, which is more than memory can hold.  The theorem on
    TCP segmentation needs a size limit of at least 16384, since with a smaller one the reader can get stuck, which is
    proved too.

  \<^bold>\<open>Not modelled.\<close>  The operating system, the verbs library and libpcap themselves, whose results are arguments or events of the model; the loading of
    the verbs library, the sizes of socket buffers, the threads of the thread pool (the streams are modelled for every order in which handlers
    run) and logging, which do not change the state of a component; the Python bindings, which convert arguments, and the command line programs apart from that
    writer: they parse options and drive sockets and devices.  Real time is a clock whose
    values do not decrease; floating point rates are rationals, with infinities and NaN where the code tests for them.  The memory
    model is sequential consistency between critical sections.
\<close>

end
